(* ===== verification/Prelude.thy ===== *)
theory Prelude
  imports Main "HOL-Library.Word" "HOL-Library.Code_Target_Nat"
begin

text \<open>
  Shared vocabulary of the development: the machine types of the Cortex-M target
  (\<open>uint8_t\<close> .. \<open>uint64_t\<close>, a 32-bit \<open>size_t\<close>), the error codes of
  \<open>src/include/common.h\<close>, byte-block copies (\<open>memcpy\<close> into a buffer at an offset)
  and the little-endian layout of integers in packed structs.  The named collections
  \<open>ec_defs\<close> and \<open>blit_simps\<close> carry the facts the component proofs hand to the
  simplifier.
\<close>

unbundle bit_operations_syntax

named_theorems ec_defs "definitions of small helpers that component proofs unfold"
named_theorems blit_simps "length and indexing facts for block copies"

section \<open>Machine types\<close>

type_synonym u8 = "8 word"
type_synonym u16 = "16 word"
type_synonym u32 = "32 word"
type_synonym u64 = "64 word"
type_synonym size_t = "32 word"
type_synonym bytes = "8 word list"

section \<open>Error codes\<close>

text \<open>The constructors are those of \<open>enum ec_error_list\<close>, without the verified-boot codes,
  which no modelled component returns.\<close>

datatype ec_error =
    EC_SUCCESS
  | EC_ERROR_UNKNOWN
  | EC_ERROR_UNIMPLEMENTED
  | EC_ERROR_OVERFLOW
  | EC_ERROR_TIMEOUT
  | EC_ERROR_INVAL
  | EC_ERROR_BUSY
  | EC_ERROR_ACCESS_DENIED
  | EC_ERROR_NOT_POWERED
  | EC_ERROR_NOT_CALIBRATED
  | EC_ERROR_CRC
  | EC_ERROR_PARAM1
  | EC_ERROR_PARAM2
  | EC_ERROR_PARAM3
  | EC_ERROR_PARAM4
  | EC_ERROR_PARAM5
  | EC_ERROR_PARAM6
  | EC_ERROR_PARAM7
  | EC_ERROR_PARAM8
  | EC_ERROR_PARAM9
  | EC_ERROR_PARAM_COUNT
  | EC_ERROR_NOT_HANDLED
  | EC_ERROR_UNCHANGED
  | EC_ERROR_MEMORY_ALLOCATION
  | EC_ERROR_INVALID_CONFIG
  | EC_ERROR_HW_INTERNAL
  | EC_ERROR_TRY_AGAIN

fun ec_error_code :: "ec_error \<Rightarrow> nat" where
  "ec_error_code EC_SUCCESS = 0"
| "ec_error_code EC_ERROR_UNKNOWN = 1"
| "ec_error_code EC_ERROR_UNIMPLEMENTED = 2"
| "ec_error_code EC_ERROR_OVERFLOW = 3"
| "ec_error_code EC_ERROR_TIMEOUT = 4"
| "ec_error_code EC_ERROR_INVAL = 5"
| "ec_error_code EC_ERROR_BUSY = 6"
| "ec_error_code EC_ERROR_ACCESS_DENIED = 7"
| "ec_error_code EC_ERROR_NOT_POWERED = 8"
| "ec_error_code EC_ERROR_NOT_CALIBRATED = 9"
| "ec_error_code EC_ERROR_CRC = 10"
| "ec_error_code EC_ERROR_PARAM1 = 11"
| "ec_error_code EC_ERROR_PARAM2 = 12"
| "ec_error_code EC_ERROR_PARAM3 = 13"
| "ec_error_code EC_ERROR_PARAM4 = 14"
| "ec_error_code EC_ERROR_PARAM5 = 15"
| "ec_error_code EC_ERROR_PARAM6 = 16"
| "ec_error_code EC_ERROR_PARAM7 = 17"
| "ec_error_code EC_ERROR_PARAM8 = 18"
| "ec_error_code EC_ERROR_PARAM9 = 19"
| "ec_error_code EC_ERROR_PARAM_COUNT = 20"
| "ec_error_code EC_ERROR_NOT_HANDLED = 21"
| "ec_error_code EC_ERROR_UNCHANGED = 22"
| "ec_error_code EC_ERROR_MEMORY_ALLOCATION = 23"
| "ec_error_code EC_ERROR_INVALID_CONFIG = 24"
| "ec_error_code EC_ERROR_HW_INTERNAL = 25"
| "ec_error_code EC_ERROR_TRY_AGAIN = 26"

lemma ec_error_code_inj: "ec_error_code a = ec_error_code b \<longleftrightarrow> a = b"
  by (cases a; cases b) simp_all

lemma ec_error_code_0 [simp]: "ec_error_code e = 0 \<longleftrightarrow> e = EC_SUCCESS"
  by (cases e) simp_all

section \<open>Block copies\<close>

text \<open>\<open>blit dst off src\<close> is \<open>memcpy(dst + off, src, length src)\<close> on a buffer held as
  a list.\<close>

definition blit :: "'a list \<Rightarrow> nat \<Rightarrow> 'a list \<Rightarrow> 'a list" where
  "blit dst off src = take off dst @ src @ drop (off + length src) dst"

lemma length_blit [blit_simps, simp]:
  "off + length src \<le> length dst \<Longrightarrow> length (blit dst off src) = length dst"
  by (simp add: blit_def)

lemma blit_Nil [simp]: "off \<le> length dst \<Longrightarrow> blit dst off [] = dst"
  by (simp add: blit_def)

lemma nth_blit [blit_simps]:
  assumes "off + length src \<le> length dst" and "i < length dst"
  shows "blit dst off src ! i =
    (if off \<le> i \<and> i < off + length src then src ! (i - off) else dst ! i)"
  using assms by (auto simp: blit_def nth_append min_def)

text \<open>A fixed-size cell \<open>i\<close> of \<open>u\<close> bytes.\<close>

definition cell :: "nat \<Rightarrow> 'a list \<Rightarrow> nat \<Rightarrow> 'a list" where
  "cell u buf i = take u (drop (i * u) buf)"

lemma length_cell: "(i + 1) * u \<le> length buf \<Longrightarrow> length (cell u buf i) = u"
  by (simp add: cell_def)

lemma nth_cell: "(i + 1) * u \<le> length buf \<Longrightarrow> k < u \<Longrightarrow> cell u buf i ! k = buf ! (i * u + k)"
  by (simp add: cell_def)

lemma cell_index: 
  assumes "i < (n::nat)" shows "(i + 1) * u \<le> n * u"
  using assms by (intro mult_le_mono1) simp

lemma cell_blit_inside:
  assumes "off * u + length src \<le> length dst" and "length src = m * u"
    and "off \<le> i" and "i < off + m"
  shows "cell u (blit dst (off * u) src) i = cell u src (i - off)"
proof -
  have a: "(i + 1) * u \<le> length dst"
  proof -
    have "(i + 1) * u \<le> (off + m) * u" using assms(4) by (rule cell_index)
    then show ?thesis using assms(1,2) by (simp add: algebra_simps)
  qed
  have b: "(i - off + 1) * u \<le> length src"
    unfolding assms(2) using assms(3,4) by (intro cell_index) simp
  show ?thesis
  proof (rule nth_equalityI)
    show "length (cell u (blit dst (off * u) src) i) = length (cell u src (i - off))"
      using a b assms(1) by (simp add: length_cell)
  next
    fix k assume "k < length (cell u (blit dst (off * u) src) i)"
    then have k: "k < u" using a assms(1) by (simp add: length_cell)
    have o: "off * u \<le> i * u" using assms(3) by simp
    have lt: "i * u + k < length dst" using a k by simp
    have d: "i * u + k - off * u = (i - off) * u + k"
      using o by (simp add: diff_mult_distrib)
    have r: "i * u + k < off * u + length src"
    proof -
      have "(i + 1) * u \<le> (off + m) * u" using assms(4) by (rule cell_index)
      then show ?thesis using k assms(2) by (simp add: algebra_simps)
    qed
    have "cell u (blit dst (off * u) src) i ! k = blit dst (off * u) src ! (i * u + k)"
      using a k assms(1) by (intro nth_cell) simp_all
    also have "\<dots> = src ! ((i - off) * u + k)"
      using nth_blit [OF assms(1) lt] o r d by simp
    also have "\<dots> = cell u src (i - off) ! k"
      using b k by (simp add: nth_cell)
    finally show "cell u (blit dst (off * u) src) i ! k = cell u src (i - off) ! k" .
  qed
qed

lemma cell_blit_outside:
  assumes "off * u + length src \<le> length dst" and "length src = m * u"
    and "(i + 1) * u \<le> length dst" and "i < off \<or> off + m \<le> i"
  shows "cell u (blit dst (off * u) src) i = cell u dst i"
proof (rule nth_equalityI)
  show "length (cell u (blit dst (off * u) src) i) = length (cell u dst i)"
    using assms(1,3) by (simp add: length_cell)
next
  fix k assume "k < length (cell u (blit dst (off * u) src) i)"
  then have k: "k < u" using assms(1,3) by (simp add: length_cell)
  have out: "\<not> (off * u \<le> i * u + k \<and> i * u + k < off * u + length src)"
    using assms(4)
  proof
    assume "i < off"
    then have "(i + 1) * u \<le> off * u" by (rule cell_index)
    then show ?thesis using k by simp
  next
    assume "off + m \<le> i"
    then have "(off + m) * u \<le> i * u" by simp
    then show ?thesis using assms(2) by (simp add: algebra_simps)
  qed
  have "cell u (blit dst (off * u) src) i ! k = blit dst (off * u) src ! (i * u + k)"
    using assms(1,3) k by (intro nth_cell) simp_all
  also have "\<dots> = dst ! (i * u + k)"
    using assms(1,3) k out by (subst nth_blit) auto
  also have "\<dots> = cell u dst i ! k" using assms(3) k by (simp add: nth_cell)
  finally show "cell u (blit dst (off * u) src) i ! k = cell u dst i ! k" .
qed

lemma cell_take: "(i + 1) * u \<le> n \<Longrightarrow> cell u (take n xs) i = cell u xs i"
  by (simp add: cell_def drop_take)

lemma cell_drop: "cell u (drop (m * u) xs) i = cell u xs (m + i)"
  by (simp add: cell_def algebra_simps)

lemma cell_drop_fun: "cell u (drop (m * u) xs) = (\<lambda>i. cell u xs (m + i))"
  by (rule ext) (rule cell_drop)

section \<open>Little-endian integers in packed structs\<close>

definition to_le :: "nat \<Rightarrow> 'a::len word \<Rightarrow> bytes" where
  "to_le n w = map (\<lambda>i. ucast (drop_bit (8 * i) w)) [0..<n]"

primrec of_le :: "bytes \<Rightarrow> 'a::len word" where
  "of_le [] = 0"
| "of_le (b # bs) = ucast b OR push_bit 8 (of_le bs)"

lemma length_to_le [simp]: "length (to_le n w) = n"
  by (simp add: to_le_def)

lemma bit_of_le:
  "bit (of_le bs :: 'a::len word) i \<longleftrightarrow>
     i < LENGTH('a) \<and> i div 8 < length bs \<and> bit (bs ! (i div 8)) (i mod 8)"
proof (induction bs arbitrary: i)
  case Nil
  then show ?case by simp
next
  case (Cons b bs)
  show ?case
  proof (cases "i < 8")
    case True
    then show ?thesis
      by (auto simp: bit_or_iff bit_ucast_iff bit_push_bit_iff)
  next
    case False
    then obtain j where j: "i = j + 8" by (metis add.commute le_add_diff_inverse not_less)
    have nb: "\<not> bit b i" using False bit_imp_le_length [of b i] by auto
    have "j < LENGTH('a)" if "i < LENGTH('a)" using that j by simp
    moreover have "(j + 8) div 8 = Suc (j div 8)" by simp
    ultimately show ?thesis using Cons.IH [of j] nb
      by (auto simp: j bit_or_iff bit_ucast_iff bit_push_bit_iff)
  qed
qed

lemma of_le_to_le:
  assumes "LENGTH('a) \<le> 8 * n"
  shows "of_le (to_le n w) = (w :: 'a::len word)"
proof (rule bit_word_eqI)
  fix i assume i: "i < LENGTH('a)"
  have "i div 8 < n" using i assms by linarith
  moreover have "8 * (i div 8) + i mod 8 = i" by simp
  ultimately show "bit (of_le (to_le n w) :: 'a word) i \<longleftrightarrow> bit w i"
    using i by (simp add: bit_of_le to_le_def bit_ucast_iff bit_drop_bit_eq)
qed

lemma to_le_of_le:
  assumes "length bs = n" and "8 * n \<le> LENGTH('a)"
  shows "to_le n (of_le bs :: 'a::len word) = bs"
proof (rule nth_equalityI)
  show "length (to_le n (of_le bs :: 'a word)) = length bs" using assms by simp
next
  fix k assume "k < length (to_le n (of_le bs :: 'a word))"
  then have k: "k < n" by simp
  show "to_le n (of_le bs :: 'a word) ! k = bs ! k"
  proof (rule bit_word_eqI)
    fix j assume j: "j < LENGTH(8)"
    have lt: "8 * k + j < LENGTH('a)" using k j assms(2) by simp
    have d: "(8 * k + j) div 8 = k" using j by simp
    have m: "(8 * k + j) mod 8 = j" using j by simp
    show "bit (to_le n (of_le bs :: 'a word) ! k) j \<longleftrightarrow> bit (bs ! k) j"
      using k j lt assms(1) by (simp add: to_le_def bit_ucast_iff bit_drop_bit_eq bit_of_le d m)
  qed
qed

section \<open>Masks\<close>

lemma unat_and_mask: "unat (w AND mask n) = unat w mod 2 ^ n"
  by (metis take_bit_eq_mask take_bit_eq_mod unsigned_take_bit_eq)

end
