(* ===== verification/Ring_Queue.thy ===== *)
theory Ring_Queue
  imports Prelude
begin

text \<open>
  The byte-buffer ring queue of \<open>src/common/queue.c\<close>.  Head and tail are free-running
  32-bit counters, reduced by the mask only when the buffer is indexed; all size arithmetic
  is on \<open>size_t\<close> and wraps.  A caller's buffer is a byte list: a read returns the bytes
  the code stores through \<open>dest\<close>, and a \<open>memcpy\<close> argument is any function that copies
  bytes.  Calls through the policy's function pointers are recorded in \<open>policy_calls\<close>.

  The queue refines a bounded FIFO of units: \<open>queue_units\<close> is the abstraction, and the
  interface \<open>fifo_buffer\<close> carries the client's view (what comes out, in which order).
\<close>

section \<open>State\<close>

datatype queue_call = PolicyAdd size_t | PolicyRemove size_t

record queue =
  q_head :: size_t
  q_tail :: size_t
  buffer_units :: size_t
  buffer_units_mask :: size_t
  unit_bytes :: size_t
  q_buffer :: bytes
  policy_calls :: "queue_call list"

record queue_chunk =
  chunk_length :: size_t
  chunk_offset :: size_t

definition POWER_OF_TWO :: "'a::len word \<Rightarrow> bool" where
  "POWER_OF_TWO x \<longleftrightarrow> x \<noteq> 0 \<and> (x AND (x - 1)) = 0"

section \<open>Operations\<close>

text \<open>\<open>None\<close> is the assertion failure of a queue whose size is not a power of two.\<close>

definition queue_init :: "queue \<Rightarrow> queue option" where
  "queue_init q =
     (if POWER_OF_TWO (buffer_units q) then Some (q\<lparr>q_head := 0, q_tail := 0\<rparr>) else None)"

definition queue_is_empty :: "queue \<Rightarrow> bool" where
  "queue_is_empty q \<longleftrightarrow> q_head q = q_tail q"

definition queue_count :: "queue \<Rightarrow> size_t" where
  "queue_count q = q_tail q - q_head q"

definition queue_space :: "queue \<Rightarrow> size_t" where
  "queue_space q = buffer_units q - queue_count q"

definition queue_is_full :: "queue \<Rightarrow> bool" where
  "queue_is_full q \<longleftrightarrow> queue_space q = 0"

definition queue_get_write_chunk :: "queue \<Rightarrow> queue_chunk" where
  "queue_get_write_chunk q =
     (let head = q_head q AND buffer_units_mask q;
          tail = q_tail q AND buffer_units_mask q;
          last = (if queue_is_full q then tail
                  else if tail < head then head
                  else buffer_units q)
      in \<lparr>chunk_length = (last - tail) * unit_bytes q, chunk_offset = tail * unit_bytes q\<rparr>)"

definition queue_get_read_chunk :: "queue \<Rightarrow> queue_chunk" where
  "queue_get_read_chunk q =
     (let head = q_head q AND buffer_units_mask q;
          tail = q_tail q AND buffer_units_mask q;
          last = (if queue_is_empty q then head
                  else if head < tail then tail
                  else buffer_units q)
      in \<lparr>chunk_length = (last - head) * unit_bytes q, chunk_offset = head * unit_bytes q\<rparr>)"

definition queue_advance_head :: "queue \<Rightarrow> size_t \<Rightarrow> size_t \<times> queue" where
  "queue_advance_head q count =
     (let transfer = min count (queue_count q)
      in (transfer, q\<lparr>q_head := q_head q + transfer,
                      policy_calls := policy_calls q @ [PolicyRemove transfer]\<rparr>))"

definition queue_advance_tail :: "queue \<Rightarrow> size_t \<Rightarrow> size_t \<times> queue" where
  "queue_advance_tail q count =
     (let transfer = min count (queue_space q)
      in (transfer, q\<lparr>q_tail := q_tail q + transfer,
                      policy_calls := policy_calls q @ [PolicyAdd transfer]\<rparr>))"

definition queue_add_unit :: "queue \<Rightarrow> bytes \<Rightarrow> size_t \<times> queue" where
  "queue_add_unit q src =
     (let tail = q_tail q AND buffer_units_mask q
      in if queue_space q = 0 then (0, q)
         else let buf = (if unit_bytes q = 1
                         then (q_buffer q)[unat tail := src ! 0]
                         else blit (q_buffer q) (unat (tail * unit_bytes q))
                                (take (unat (unit_bytes q)) src))
              in queue_advance_tail (q\<lparr>q_buffer := buf\<rparr>) 1)"

definition queue_add_memcpy :: "queue \<Rightarrow> bytes \<Rightarrow> size_t \<Rightarrow> size_t \<times> queue" where
  "queue_add_memcpy q src count =
     (let transfer = min count (queue_space q);
          tail = q_tail q AND buffer_units_mask q;
          first = min transfer (buffer_units q - tail);
          buf = blit (q_buffer q) (unat (tail * unit_bytes q))
                  (take (unat (first * unit_bytes q)) src);
          buf' = (if first < transfer
                  then blit buf 0 (take (unat ((transfer - first) * unit_bytes q))
                                    (drop (unat (first * unit_bytes q)) src))
                  else buf)
      in queue_advance_tail (q\<lparr>q_buffer := buf'\<rparr>) transfer)"

definition queue_add_units :: "queue \<Rightarrow> bytes \<Rightarrow> size_t \<Rightarrow> size_t \<times> queue" where
  "queue_add_units q src count = queue_add_memcpy q src count"

text \<open>The bytes \<open>queue_read_safe\<close> stores at \<open>dest\<close>.\<close>

definition queue_read_safe :: "queue \<Rightarrow> size_t \<Rightarrow> size_t \<Rightarrow> bytes" where
  "queue_read_safe q head transfer =
     (let first = min transfer (buffer_units q - head);
          part = take (unat (first * unit_bytes q)) (drop (unat (head * unit_bytes q)) (q_buffer q))
      in if first < transfer
         then part @ take (unat ((transfer - first) * unit_bytes q)) (q_buffer q)
         else part)"

definition queue_remove_unit :: "queue \<Rightarrow> bytes \<times> size_t \<times> queue" where
  "queue_remove_unit q =
     (let head = q_head q AND buffer_units_mask q
      in if queue_count q = 0 then ([], 0, q)
         else ((if unit_bytes q = 1 then [q_buffer q ! unat head]
                else take (unat (unit_bytes q)) (drop (unat (head * unit_bytes q)) (q_buffer q))),
               queue_advance_head q 1))"

definition queue_remove_memcpy :: "queue \<Rightarrow> size_t \<Rightarrow> bytes \<times> size_t \<times> queue" where
  "queue_remove_memcpy q count =
     (let transfer = min count (queue_count q);
          head = q_head q AND buffer_units_mask q
      in (queue_read_safe q head transfer, queue_advance_head q transfer))"

definition queue_remove_units :: "queue \<Rightarrow> size_t \<Rightarrow> bytes \<times> size_t \<times> queue" where
  "queue_remove_units q count = queue_remove_memcpy q count"

definition queue_peek_memcpy :: "queue \<Rightarrow> size_t \<Rightarrow> size_t \<Rightarrow> bytes \<times> size_t" where
  "queue_peek_memcpy q i count =
     (let available = queue_count q;
          transfer = min count (available - i)
      in (if i < available
          then queue_read_safe q ((q_head q + i) AND buffer_units_mask q) transfer
          else [], transfer))"

definition queue_peek_units :: "queue \<Rightarrow> size_t \<Rightarrow> size_t \<Rightarrow> bytes \<times> size_t" where
  "queue_peek_units q i count = queue_peek_memcpy q i count"

section \<open>Well-formed queues and the abstraction\<close>

text \<open>What \<open>QUEUE(SIZE, TYPE, POLICY)\<close> sets up and every operation keeps.\<close>

definition queue_wf :: "queue \<Rightarrow> bool" where
  "queue_wf q \<longleftrightarrow>
     POWER_OF_TWO (buffer_units q) \<and>
     buffer_units_mask q = buffer_units q - 1 \<and>
     unit_bytes q \<noteq> 0 \<and>
     unat (buffer_units q) * unat (unit_bytes q) < 2 ^ 32 \<and>
     length (q_buffer q) = unat (buffer_units q) * unat (unit_bytes q) \<and>
     queue_count q \<le> buffer_units q"

definition queue_units :: "queue \<Rightarrow> bytes list" where
  "queue_units q =
     map (\<lambda>k. cell (unat (unit_bytes q)) (q_buffer q)
               (unat ((q_head q + of_nat k) AND buffer_units_mask q)))
       [0..<unat (queue_count q)]"

subsection \<open>Powers of two\<close>

lemma nat_power_of_two:
  "x > 0 \<Longrightarrow> x AND (x - 1) = 0 \<Longrightarrow> \<exists>n. (x::nat) = 2 ^ n"
proof (induction x rule: less_induct)
  case (less x)
  show ?case
  proof (cases "even x")
    case True
    then obtain y where y: "x = 2 * y" by auto
    with less.prems have "y > 0" by simp
    then have e: "2 * y - 1 = 2 * (y - 1) + 1" by simp
    have "(2 * y) AND (2 * (y - 1) + 1) = 0" using less.prems y e by simp
    then have "y AND (y - 1) = 0"
      by (metis and_nat_rec even_mult_iff even_plus_one_iff even_two_times_div_two
          mult_eq_0_iff nonzero_mult_div_cancel_left odd_two_times_div_two_succ
          odd_two_times_div_two_nat even_Suc add_is_0 zero_neq_numeral diff_Suc_1 Suc_eq_plus1)
    then obtain n where "y = 2 ^ n" using less.IH [of y] \<open>y > 0\<close> y by auto
    then have "x = 2 ^ Suc n" using y by simp
    then show ?thesis ..
  next
    case False
    then obtain y where y: "x = 2 * y + 1" using oddE by blast
    have "(2 * y + 1) AND (2 * y) = 2 * y"
    proof (rule bit_eqI)
      fix n show "bit ((2 * y + 1) AND (2 * y)) n = bit (2 * y) n"
        unfolding bit_and_iff by (cases n) (simp_all add: bit_Suc bit_0)
    qed
    then have "y = 0" using less.prems y by simp
    then have "x = 2 ^ 0" using y by simp
    then show ?thesis ..
  qed
qed

lemma POWER_OF_TWO_D:
  assumes "POWER_OF_TWO (x :: 'a::len word)"
  obtains n where "n < LENGTH('a)" and "unat x = 2 ^ n" and "x - 1 = mask n"
proof -
  have x0: "x \<noteq> 0" and xa: "(x AND (x - 1)) = 0" using assms by (simp_all add: POWER_OF_TWO_def)
  have p: "unat (x - 1) = unat x - 1" using x0 by (simp add: unat_minus_one)
  have "unat x AND unat (x - 1) = 0"
    using arg_cong [OF xa, of unat] by (simp add: unsigned_and_eq)
  then have "unat x AND (unat x - 1) = 0" by (simp only: p)
  moreover have "unat x > 0" using x0 by (simp add: unat_gt_0)
  ultimately obtain n where n: "unat x = 2 ^ n" using nat_power_of_two by blast
  have "unat x < 2 ^ LENGTH('a)" by (rule unsigned_less)
  then have "(2::nat) ^ n < 2 ^ LENGTH('a)" using n by simp
  then have lt: "n < LENGTH('a)" by simp
  have "x = of_nat (unat x)" by simp
  then have "x = 2 ^ n" unfolding n by simp
  then have "x - 1 = mask n" by (simp add: mask_eq_exp_minus_1)
  with lt n show ?thesis by (rule that)
qed

subsection \<open>Writing and reading around the ring\<close>

text \<open>Two block copies that write \<open>t\<close> units from slot \<open>T\<close> on, wrapping at \<open>U\<close>: slot
  \<open>j\<close> receives unit \<open>(j - T) mod U\<close> of the source if that is below \<open>t\<close>.\<close>

definition ring_write :: "nat \<Rightarrow> nat \<Rightarrow> 'a list \<Rightarrow> nat \<Rightarrow> nat \<Rightarrow> 'a list \<Rightarrow> 'a list" where
  "ring_write U u buf T t src =
     (let f = min t (U - T);
          buf' = blit buf (T * u) (take (f * u) src)
      in if f < t then blit buf' 0 (take ((t - f) * u) (drop (f * u) src)) else buf')"

definition ring_read :: "nat \<Rightarrow> nat \<Rightarrow> 'a list \<Rightarrow> nat \<Rightarrow> nat \<Rightarrow> 'a list" where
  "ring_read U u buf H t =
     (let f = min t (U - H);
          part = take (f * u) (drop (H * u) buf)
      in if f < t then part @ take ((t - f) * u) buf else part)"

lemma ring_slot:
  assumes "T < U" and "j < (U::nat)"
  shows "(j + U - T) mod U = (if T \<le> j then j - T else j + U - T)"
proof (cases "T \<le> j")
  case True
  then have "j + U - T = (j - T) + U" by simp
  then show ?thesis using True assms by (simp add: mod_if)
next
  case False
  then show ?thesis using assms by simp
qed

lemma mod_shift_int: "(a + U - b) mod U = (a - b) mod (U::int)"
proof -
  have "a + U - b = (a - b) + U" by simp
  then show ?thesis by (simp only: mod_add_self2)
qed

lemma ring_offset:
  assumes "c \<le> (U::nat)" and "U > 0"
  shows "((h + j) mod U + U - (h + c) mod U) mod U = (j + U - c) mod U"
proof -
  have "(h + c) mod U \<le> (h + j) mod U + U" using assms(2) by (simp add: trans_le_add2 less_imp_le)
  then have "int (((h + j) mod U + U - (h + c) mod U) mod U) =
      (int (h + j) mod int U + int U - int (h + c) mod int U) mod int U"
    by (simp add: zmod_int)
  also have "\<dots> = (int (h + j) mod int U - int (h + c) mod int U) mod int U"
    by (rule mod_shift_int)
  also have "\<dots> = (int j + int U - int c) mod int U"
    by (simp add: mod_diff_eq mod_shift_int)
  also have "\<dots> = int ((j + U - c) mod U)"
    using assms(1) by (simp add: zmod_int of_nat_diff)
  finally show ?thesis by simp
qed

lemma length_ring_write:
  assumes "length buf = U * u" and "T < U" and "t \<le> U" and "t * u \<le> length src"
  shows "length (ring_write U u buf T t src) = U * u"
proof -
  define f where "f = min t (U - T)"
  have "(T + f) * u \<le> U * u" using assms(2) by (intro mult_le_mono1) (simp add: f_def)
  then have a: "T * u + f * u \<le> length buf" using assms(1) by (simp add: algebra_simps)
  have l1: "length (take (f * u) src) \<le> f * u" by simp
  have b: "length (blit buf (T * u) (take (f * u) src)) = U * u"
    using a l1 assms(1) by (subst length_blit) (simp_all add: order_trans [OF add_left_mono])
  have "(t - f) * u \<le> U * u" using assms(3) by (intro mult_le_mono1) simp
  then have "length (blit (blit buf (T * u) (take (f * u) src)) 0
      (take ((t - f) * u) (drop (f * u) src))) = U * u"
    using b by (subst length_blit) (simp_all add: min.coboundedI2)
  then show ?thesis using b by (simp add: ring_write_def Let_def f_def [symmetric])
qed

lemma cell_ring_write:
  assumes buf: "length buf = U * u" and T: "T < U" and t: "t \<le> U" and src: "t * u \<le> length src"
    and j: "j < U"
  shows "cell u (ring_write U u buf T t src) j =
    (if (j + U - T) mod U < t then cell u src ((j + U - T) mod U) else cell u buf j)"
proof -
  define f where "f = min t (U - T)"
  define s1 where "s1 = take (f * u) src"
  define s2 where "s2 = take ((t - f) * u) (drop (f * u) src)"
  define b1 where "b1 = blit buf (T * u) s1"
  have fu: "f * u \<le> t * u" by (intro mult_le_mono1) (simp add: f_def)
  have "f * u \<le> length src" using fu src by (rule order_trans)
  then have l1: "length s1 = f * u" by (simp add: s1_def)
  have ft: "f + (t - f) = t" by (simp add: f_def)
  have "f * u + (t - f) * u = t * u" by (simp add: ft flip: add_mult_distrib)
  then have l2: "length s2 = (t - f) * u" using src by (simp add: s2_def)
  have "(T + f) * u \<le> U * u" using T by (intro mult_le_mono1) (simp add: f_def)
  then have r1: "T * u + length s1 \<le> length buf" using buf l1 by (simp add: algebra_simps)
  have "(t - f) * u \<le> U * u" using t by (intro mult_le_mono1) simp
  then have r2: "0 * u + length s2 \<le> length b1" using r1 buf l2 by (simp add: b1_def)
  have ju: "(j + 1) * u \<le> length buf" unfolding buf using j by (rule cell_index)
  then have ju': "(j + 1) * u \<le> length b1" using r1 by (simp add: b1_def)
  have first: "cell u b1 j = (if T \<le> j \<and> j < T + f then cell u s1 (j - T) else cell u buf j)"
    using cell_blit_inside [OF r1 l1, of j] cell_blit_outside [OF r1 l1 ju]
    by (auto simp: b1_def)
  have w: "ring_write U u buf T t src = (if f < t then blit b1 0 s2 else b1)"
    by (simp add: ring_write_def Let_def f_def b1_def s1_def s2_def)
  have second: "cell u (ring_write U u buf T t src) j =
      (if f < t \<and> j < t - f then cell u s2 j else cell u b1 j)"
    using cell_blit_inside [OF r2 l2, of j] cell_blit_outside [OF r2 l2 ju']
    by (auto simp: w)
  have c1: "cell u s1 i = cell u src i" if "i < f" for i
    unfolding s1_def using that by (intro cell_take cell_index)
  have c2: "cell u s2 i = cell u src (f + i)" if "i < t - f" for i
  proof -
    have "cell u s2 i = cell u (drop (f * u) src) i"
      unfolding s2_def using that by (intro cell_take cell_index)
    then show ?thesis by (simp add: cell_drop)
  qed
  show ?thesis
  proof (cases "T \<le> j")
    case True
    then have k: "(j + U - T) mod U = j - T" using ring_slot [OF T j] by simp
    have "\<not> (f < t \<and> j < t - f)" using True t T by (auto simp: f_def min_def)
    moreover have "j - T < t \<longleftrightarrow> j < T + f" using True j by (auto simp: f_def min_def)
    ultimately show ?thesis using True first second c1 [of "j - T"] k by auto
  next
    case False
    then have k: "(j + U - T) mod U = j + U - T" using ring_slot [OF T j] by simp
    have eq: "(f < t \<and> j < t - f) \<longleftrightarrow> j + U - T < t" using False T j by (auto simp: f_def min_def)
    show ?thesis
    proof (cases "j + U - T < t")
      case True
      then have "f + j = j + U - T" using False T by (auto simp: f_def min_def)
      then show ?thesis using True eq second c2 [of j] k by auto
    next
      case False
      then show ?thesis using \<open>\<not> T \<le> j\<close> eq first second k by auto
    qed
  qed
qed

lemma concat_cells:
  "m * u \<le> length buf \<Longrightarrow> concat (map (cell u buf) [0..<m]) = take (m * u) buf"
proof (induction m)
  case 0
  then show ?case by simp
next
  case (Suc m)
  have "take (m * u + u) buf = take (m * u) buf @ take u (drop (m * u) buf)"
    by (rule take_add)
  then show ?case using Suc by (simp add: cell_def add.commute)
qed

lemma concat_cells_from:
  assumes "(H + m) * u \<le> length buf"
  shows "concat (map (\<lambda>k. cell u buf (H + k)) [0..<m]) = take (m * u) (drop (H * u) buf)"
proof -
  have "m * u \<le> length (drop (H * u) buf)" using assms by (simp add: algebra_simps)
  then have "concat (map (cell u (drop (H * u) buf)) [0..<m]) = take (m * u) (drop (H * u) buf)"
    by (rule concat_cells)
  then show ?thesis by (simp add: cell_drop_fun)
qed

lemma ring_read_cells:
  assumes buf: "length buf = U * u" and H: "H < U" and t: "t \<le> U"
  shows "ring_read U u buf H t = concat (map (\<lambda>k. cell u buf ((H + k) mod U)) [0..<t])"
proof -
  define f where "f = min t (U - H)"
  have f: "f \<le> t" "H + f \<le> U" using H by (simp_all add: f_def)
  have "(H + f) * u \<le> length buf" using f buf by (simp only: mult_le_mono1)
  then have a: "concat (map (\<lambda>k. cell u buf (H + k)) [0..<f]) = take (f * u) (drop (H * u) buf)"
    by (rule concat_cells_from)
  have a': "map (\<lambda>k. cell u buf ((H + k) mod U)) [0..<f] = map (\<lambda>k. cell u buf (H + k)) [0..<f]"
    using f by (intro map_cong) auto
  have a2: "concat (map (\<lambda>k. cell u buf ((H + k) mod U)) [0..<f]) = take (f * u) (drop (H * u) buf)"
    unfolding a' by (rule a)
  show ?thesis
  proof (cases "f < t")
    case True
    then have fe: "f = U - H" by (auto simp: f_def min_def split: if_splits)
    have "(t - f) * u \<le> length buf" unfolding buf using t by (intro mult_le_mono1) simp
    then have b: "concat (map (cell u buf) [0..<t - f]) = take ((t - f) * u) buf"
      by (rule concat_cells)
    have sh: "[f..<t] = map (\<lambda>k. k + f) [0..<t - f]" using True by (simp add: map_add_upt)
    have "map (\<lambda>k. cell u buf ((H + k) mod U)) [f..<t] =
        map (\<lambda>k. cell u buf ((H + (k + f)) mod U)) [0..<t - f]"
      by (simp add: sh)
    also have "\<dots> = map (cell u buf) [0..<t - f]"
    proof (rule map_cong [OF refl])
      fix k assume "k \<in> set [0..<t - f]"
      then have "k < U" using t by simp
      moreover have "H + (k + f) = k + U" using fe H by simp
      ultimately have "(H + (k + f)) mod U = k" by (metis mod_add_self2 mod_less)
      then show "cell u buf ((H + (k + f)) mod U) = cell u buf k" by simp
    qed
    finally have b': "map (\<lambda>k. cell u buf ((H + k) mod U)) [f..<t] = map (cell u buf) [0..<t - f]" .
    have "[0..<t] = [0..<f] @ [f..<t]" using f(1) by (metis le0 upt_add_eq_append le_Suc_ex add_0)
    then have "concat (map (\<lambda>k. cell u buf ((H + k) mod U)) [0..<t]) =
        take (f * u) (drop (H * u) buf) @ take ((t - f) * u) buf"
      using a2 b b' by simp
    then show ?thesis using True by (simp add: ring_read_def Let_def f_def [symmetric])
  next
    case False
    then have "f = t" using f by simp
    then show ?thesis using a2 by (simp add: ring_read_def Let_def f_def [symmetric])
  qed
qed


subsection \<open>Operations on the abstract ring\<close>

lemma map_upt_shift: "map f [a..<a + b] = map (\<lambda>i. f (a + i)) [0..<b]"
  by (rule nth_equalityI) simp_all

text \<open>The facts of a well-formed queue, on naturals.\<close>

lemma queue_wfE:
  assumes "queue_wf q"
  obtains n where "n < 32" and "unat (buffer_units q) = 2 ^ n" and "buffer_units_mask q = mask n"
    and "length (q_buffer q) = 2 ^ n * unat (unit_bytes q)"
    and "2 ^ n * unat (unit_bytes q) < 2 ^ 32"
    and "unat (queue_count q) \<le> 2 ^ n"
proof -
  have "POWER_OF_TWO (buffer_units q)" using assms by (simp add: queue_wf_def)
  then obtain n where "n < 32" "unat (buffer_units q) = 2 ^ n" "buffer_units q - 1 = mask n"
    by (rule POWER_OF_TWO_D) simp
  then show ?thesis using assms that [of n] by (simp add: queue_wf_def word_le_nat_alt)
qed

lemma ring_index:
  assumes "n < 32"
  shows "unat (((h :: size_t) + of_nat k) AND mask n) = (unat h + k) mod 2 ^ n"
proof -
  have "unat (h + of_nat k) mod 2 ^ n = ((unat h + k) mod 2 ^ 32) mod 2 ^ n"
    by (simp add: unat_word_ariths unat_of_nat mod_add_right_eq)
  also have "\<dots> = (unat h + k) mod 2 ^ n"
    using assms by (intro mod_mod_cancel le_imp_power_dvd) simp
  finally show ?thesis by (simp add: unat_and_mask)
qed

lemma queue_tail_index:
  assumes "n < 32"
  shows "unat (q_tail q AND mask n) = (unat (q_head q) + unat (queue_count q)) mod 2 ^ n"
  using ring_index [OF assms, of "q_head q" "unat (queue_count q)"] by (simp add: queue_count_def)

lemma unat_queue_space:
  assumes "queue_wf q"
  shows "unat (queue_space q) = unat (buffer_units q) - unat (queue_count q)"
  using assms by (simp add: queue_space_def queue_wf_def unat_sub)

lemma unat_min: "unat (min a b) = min (unat a) (unat b)"
  by (simp add: min_def word_le_nat_alt)

lemma unat_mult_units:
  assumes "unat a \<le> 2 ^ n" and "2 ^ n * unat u < 2 ^ 32"
  shows "unat ((a :: size_t) * u) = unat a * unat u"
proof -
  have "unat a * unat u \<le> 2 ^ n * unat u" using assms(1) by (rule mult_le_mono1)
  also note assms(2)
  finally have "unat a * unat u < 2 ^ LENGTH(32)" by simp
  then show ?thesis by (rule unat_mult_lem [THEN iffD1])
qed

lemma queue_units_nat:
  assumes "n < 32" and "buffer_units_mask q = mask n"
  shows "queue_units q =
    map (\<lambda>k. cell (unat (unit_bytes q)) (q_buffer q) ((unat (q_head q) + k) mod 2 ^ n))
      [0..<unat (queue_count q)]"
  using assms by (simp add: queue_units_def ring_index)

lemma length_queue_units [simp]: "length (queue_units q) = unat (queue_count q)"
  by (simp add: queue_units_def)

lemma length_queue_unit:
  assumes "queue_wf q" and "x \<in> set (queue_units q)"
  shows "length x = unat (unit_bytes q)"
proof -
  obtain n where n: "n < 32" "buffer_units_mask q = mask n"
      "length (q_buffer q) = 2 ^ n * unat (unit_bytes q)"
    using assms(1) by (rule queue_wfE)
  obtain k where "x = cell (unat (unit_bytes q)) (q_buffer q) ((unat (q_head q) + k) mod 2 ^ n)"
    using assms(2) n by (auto simp: queue_units_nat)
  moreover have "((unat (q_head q) + k) mod 2 ^ n + 1) * unat (unit_bytes q) \<le> length (q_buffer q)"
    unfolding n(3) by (intro cell_index) simp
  ultimately show ?thesis by (simp add: length_cell)
qed

text \<open>The C bodies are the two ring copies.\<close>

lemma queue_read_safe_ring:
  assumes "queue_wf q" and "unat h < unat (buffer_units q)"
    and "unat t \<le> unat (buffer_units q)"
  shows "queue_read_safe q h t =
    ring_read (unat (buffer_units q)) (unat (unit_bytes q)) (q_buffer q) (unat h) (unat t)"
proof -
  obtain n where n: "unat (buffer_units q) = 2 ^ n" "2 ^ n * unat (unit_bytes q) < 2 ^ 32"
    using assms(1) by (rule queue_wfE)
  define f where "f = min t (buffer_units q - h)"
  have d: "unat (buffer_units q - h) = unat (buffer_units q) - unat h"
    using assms(2) by (simp add: unat_sub word_le_nat_alt)
  have f: "unat f = min (unat t) (unat (buffer_units q) - unat h)"
    by (simp add: f_def unat_min d)
  have ft: "f \<le> t" by (simp add: f_def)
  have tf: "unat (t - f) = unat t - unat f" using ft by (rule unat_sub)
  have m: "unat (x * unit_bytes q) = unat x * unat (unit_bytes q)" if "unat x \<le> 2 ^ n" for x
    using that n(2) by (rule unat_mult_units)
  have "unat (f * unit_bytes q) = unat f * unat (unit_bytes q)"
    "unat (h * unit_bytes q) = unat h * unat (unit_bytes q)"
    "unat ((t - f) * unit_bytes q) = (unat t - unat f) * unat (unit_bytes q)"
    using m [of f] m [of h] m [of "t - f"] f tf assms(2,3) n(1) by auto
  moreover have "f < t \<longleftrightarrow> unat f < unat t" by (rule word_less_nat_alt)
  ultimately show ?thesis
    by (simp add: queue_read_safe_def ring_read_def Let_def f_def [symmetric] f [symmetric])
qed


lemma queue_add_ring:
  assumes wf: "queue_wf q" and src: "unat (min count (queue_space q)) * unat (unit_bytes q) \<le> length src"
  shows "queue_add_memcpy q src count =
    queue_advance_tail
      (q\<lparr>q_buffer := ring_write (unat (buffer_units q)) (unat (unit_bytes q)) (q_buffer q)
         (unat (q_tail q AND buffer_units_mask q)) (unat (min count (queue_space q))) src\<rparr>)
      (min count (queue_space q))"
proof -
  obtain n where n: "unat (buffer_units q) = 2 ^ n" "2 ^ n * unat (unit_bytes q) < 2 ^ 32"
      "buffer_units_mask q = mask n"
    using wf by (rule queue_wfE)
  define t where "t = min count (queue_space q)"
  define h where "h = q_tail q AND buffer_units_mask q"
  define f where "f = min t (buffer_units q - h)"
  have h: "unat h < unat (buffer_units q)" by (simp add: h_def n unat_and_mask)
  have t: "unat t \<le> unat (buffer_units q)"
    using unat_queue_space [OF wf] by (simp add: t_def unat_min)
  have d: "unat (buffer_units q - h) = unat (buffer_units q) - unat h"
    using h by (simp add: unat_sub word_le_nat_alt)
  have f: "unat f = min (unat t) (unat (buffer_units q) - unat h)"
    by (simp add: f_def unat_min d)
  have ft: "f \<le> t" by (simp add: f_def)
  have tf: "unat (t - f) = unat t - unat f" using ft by (rule unat_sub)
  have m: "unat (x * unit_bytes q) = unat x * unat (unit_bytes q)" if "unat x \<le> 2 ^ n" for x
    using that n(2) by (rule unat_mult_units)
  have "unat (f * unit_bytes q) = unat f * unat (unit_bytes q)"
    "unat (h * unit_bytes q) = unat h * unat (unit_bytes q)"
    "unat ((t - f) * unit_bytes q) = (unat t - unat f) * unat (unit_bytes q)"
    using m [of f] m [of h] m [of "t - f"] f tf t h n(1) by auto
  moreover have "f < t \<longleftrightarrow> unat f < unat t" by (rule word_less_nat_alt)
  ultimately show ?thesis
    by (simp add: queue_add_memcpy_def ring_write_def Let_def t_def [symmetric] h_def [symmetric]
        f_def [symmetric] f [symmetric])
qed

lemma queue_advance_tail_ring:
  assumes "queue_wf q" and "t \<le> queue_space q"
  shows "queue_advance_tail q t =
      (t, q\<lparr>q_tail := q_tail q + t, policy_calls := policy_calls q @ [PolicyAdd t]\<rparr>)"
    and "queue_count (q\<lparr>q_tail := q_tail q + t, policy_calls := c\<rparr>) = queue_count q + t"
    and "unat (queue_count q + t) = unat (queue_count q) + unat t"
    and "queue_count q + t \<le> buffer_units q"
proof -
  show "queue_advance_tail q t =
      (t, q\<lparr>q_tail := q_tail q + t, policy_calls := policy_calls q @ [PolicyAdd t]\<rparr>)"
    using assms(2) by (simp add: queue_advance_tail_def Let_def min_def)
  show "queue_count (q\<lparr>q_tail := q_tail q + t, policy_calls := c\<rparr>) = queue_count q + t"
    by (simp add: queue_count_def)
  have le: "unat (queue_count q) + unat t \<le> unat (buffer_units q)"
  proof -
    have "unat (queue_count q) \<le> unat (buffer_units q)"
      using assms(1) by (simp add: queue_wf_def word_le_nat_alt)
    moreover have "unat t \<le> unat (buffer_units q) - unat (queue_count q)"
      using assms(2) unat_queue_space [OF assms(1)] by (simp add: word_le_nat_alt)
    ultimately show ?thesis by linarith
  qed
  moreover have "unat (buffer_units q) < 2 ^ 32" using unsigned_less [of "buffer_units q"] by simp
  ultimately show s: "unat (queue_count q + t) = unat (queue_count q) + unat t"
    by (simp add: unat_add_lem [THEN iffD1])
  then show "queue_count q + t \<le> buffer_units q" using le by (simp add: word_le_nat_alt)
qed

theorem queue_add_memcpy_refines:
  assumes wf: "queue_wf q" and src: "unat count * unat (unit_bytes q) \<le> length src"
    and res: "queue_add_memcpy q src count = (n, q')"
  shows "n = min count (queue_space q)" and "queue_wf q'"
    and "queue_units q' = queue_units q @ map (cell (unat (unit_bytes q)) src) [0..<unat n]"
    and "unit_bytes q' = unit_bytes q" and "buffer_units q' = buffer_units q"
proof -
  obtain k where k: "k < 32" "unat (buffer_units q) = 2 ^ k" "buffer_units_mask q = mask k"
      "length (q_buffer q) = 2 ^ k * unat (unit_bytes q)" "unat (queue_count q) \<le> 2 ^ k"
    using wf by (rule queue_wfE)
  define t where "t = min count (queue_space q)"
  define T where "T = unat (q_tail q AND buffer_units_mask q)"
  define buf where "buf = ring_write (2 ^ k) (unat (unit_bytes q)) (q_buffer q) T (unat t) src"
  have tc: "unat t \<le> unat count" by (simp add: t_def unat_min)
  then have "unat t * unat (unit_bytes q) \<le> unat count * unat (unit_bytes q)" by (rule mult_le_mono1)
  then have src': "unat t * unat (unit_bytes q) \<le> length src" using src by linarith
  have T: "T < 2 ^ k" "T = (unat (q_head q) + unat (queue_count q)) mod 2 ^ k"
    using queue_tail_index [OF k(1)] by (simp_all add: T_def k)
  have space: "unat t \<le> 2 ^ k - unat (queue_count q)"
    using unat_queue_space [OF wf] k(2) by (simp add: t_def unat_min)
  then have t: "unat t \<le> 2 ^ k" by simp
  have lbuf: "length buf = 2 ^ k * unat (unit_bytes q)"
    unfolding buf_def by (rule length_ring_write [OF k(4) T(1) t src'])
  define q1 where "q1 = q\<lparr>q_buffer := buf\<rparr>"
  have wf1: "queue_wf q1" using wf lbuf k by (simp add: q1_def queue_wf_def queue_count_def)
  have sp: "t \<le> queue_space q1"
    by (simp add: q1_def t_def queue_space_def queue_count_def)
  note adv = queue_advance_tail_ring [OF wf1 sp]
  have "(n, q') = queue_advance_tail q1 t"
    using queue_add_ring [OF wf, of count src] src' res
    by (simp add: t_def [symmetric] q1_def buf_def T_def k)
  then have n: "n = t" and q': "q' = q1\<lparr>q_tail := q_tail q1 + t,
      policy_calls := policy_calls q1 @ [PolicyAdd t]\<rparr>"
    by (simp_all add: adv(1))
  show "n = min count (queue_space q)" by (simp add: n t_def)
  have c': "queue_count q' = queue_count q1 + t" unfolding q' by (rule adv(2))
  show wf': "queue_wf q'"
    using wf1 adv(4) unfolding queue_wf_def c' by (simp add: q')
  show "unit_bytes q' = unit_bytes q" "buffer_units q' = buffer_units q" by (simp_all add: q' q1_def)
  have c1: "queue_count q1 = queue_count q" by (simp add: q1_def queue_count_def)
  have cn: "unat (queue_count q') = unat (queue_count q) + unat t" using c' c1 adv(3) by simp
  have cell: "cell (unat (unit_bytes q)) buf ((unat (q_head q) + j) mod 2 ^ k) =
      (if j < unat (queue_count q)
       then cell (unat (unit_bytes q)) (q_buffer q) ((unat (q_head q) + j) mod 2 ^ k)
       else cell (unat (unit_bytes q)) src (j - unat (queue_count q)))"
    if "j < unat (queue_count q) + unat t" for j
  proof -
    have "((unat (q_head q) + j) mod 2 ^ k + 2 ^ k - T) mod 2 ^ k =
        (j + 2 ^ k - unat (queue_count q)) mod 2 ^ k"
      unfolding T(2) using k(5) by (rule ring_offset) simp
    moreover have "(j + 2 ^ k - unat (queue_count q)) mod 2 ^ k = j - unat (queue_count q)"
      if "unat (queue_count q) \<le> j"
    proof -
      have "j - unat (queue_count q) < 2 ^ k" using \<open>j < _\<close> that t by linarith
      moreover have "j + 2 ^ k - unat (queue_count q) = (j - unat (queue_count q)) + 2 ^ k"
        using that by simp
      ultimately show ?thesis by (metis mod_add_self2 mod_less)
    qed
    moreover have "(j + 2 ^ k - unat (queue_count q)) mod 2 ^ k \<ge> unat t"
      if "j < unat (queue_count q)"
    proof -
      have "(0::nat) < 2 ^ k" by simp
      then have "j + 2 ^ k - unat (queue_count q) < 2 ^ k" using that by linarith
      moreover have "unat t \<le> j + 2 ^ k - unat (queue_count q)" using space k(5) by linarith
      ultimately show ?thesis by simp
    qed
    ultimately show ?thesis using \<open>j < _\<close>
      unfolding buf_def by (subst cell_ring_write [OF k(4) T(1) t src']) auto
  qed
  have "queue_units q' = map (\<lambda>j. cell (unat (unit_bytes q)) buf ((unat (q_head q) + j) mod 2 ^ k))
      [0..<unat (queue_count q) + unat t]"
    using k by (subst queue_units_nat) (simp_all add: cn, simp_all add: q' q1_def)
  also have "\<dots> = queue_units q @ map (cell (unat (unit_bytes q)) src) [0..<unat n]"
    using cell k by (simp add: queue_units_nat n upt_add_eq_append [of 0 "unat (queue_count q)" "unat t"]
        map_upt_shift)
  finally show "queue_units q' = queue_units q @ map (cell (unat (unit_bytes q)) src) [0..<unat n]" .
qed


subsection \<open>Reading and dropping\<close>

lemma queue_advance_head_refines:
  assumes wf: "queue_wf q" and res: "queue_advance_head q count = (n, q')"
  shows "n = min count (queue_count q)" and "queue_wf q'"
    and "queue_units q' = drop (unat n) (queue_units q)"
    and "unit_bytes q' = unit_bytes q" and "buffer_units q' = buffer_units q"
proof -
  obtain k where k: "k < 32" "unat (buffer_units q) = 2 ^ k" "buffer_units_mask q = mask k"
    using wf by (rule queue_wfE)
  show n: "n = min count (queue_count q)"
    using res by (auto simp: queue_advance_head_def Let_def)
  have q': "q' = q\<lparr>q_head := q_head q + n, policy_calls := policy_calls q @ [PolicyRemove n]\<rparr>"
    using res by (auto simp: queue_advance_head_def Let_def)
  show "unit_bytes q' = unit_bytes q" "buffer_units q' = buffer_units q" by (simp_all add: q')
  have nle: "n \<le> queue_count q" by (simp add: n)
  have c': "queue_count q' = queue_count q - n" by (simp add: q' queue_count_def algebra_simps)
  have cn: "unat (queue_count q') = unat (queue_count q) - unat n"
    unfolding c' using nle by (rule unat_sub)
  then have "queue_count q' \<le> queue_count q" by (simp add: word_le_nat_alt)
  then show "queue_wf q'" using wf by (auto simp: queue_wf_def q')
  have shift: "(unat (q_head q + n) + j) mod 2 ^ k = (unat (q_head q) + (unat n + j)) mod 2 ^ k" for j
    using ring_index [OF k(1), of "q_head q + n" j] ring_index [OF k(1), of "q_head q" "unat n + j"]
    by (simp add: add.assoc)
  have ne: "unat n \<le> unat (queue_count q)" using nle by (simp add: word_le_nat_alt)
  have "queue_units q' = map (\<lambda>j. cell (unat (unit_bytes q)) (q_buffer q)
      ((unat (q_head q) + (unat n + j)) mod 2 ^ k)) [0..<unat (queue_count q) - unat n]"
    using k by (subst queue_units_nat) (simp_all add: cn, simp_all add: q' shift)
  also have "\<dots> = map (\<lambda>j. cell (unat (unit_bytes q)) (q_buffer q)
      ((unat (q_head q) + j) mod 2 ^ k)) [unat n..<unat (queue_count q)]"
    using ne by (intro nth_equalityI) simp_all
  also have "\<dots> = drop (unat n) (queue_units q)"
    using k by (simp add: queue_units_nat drop_map)
  finally show "queue_units q' = drop (unat n) (queue_units q)" .
qed

text \<open>Reading \<open>t\<close> units from the \<open>i\<close>-th on.\<close>

lemma queue_read_safe_units:
  assumes wf: "queue_wf q" and le: "unat i + unat t \<le> unat (queue_count q)"
  shows "queue_read_safe q ((q_head q + i) AND buffer_units_mask q) t =
    concat (take (unat t) (drop (unat i) (queue_units q)))"
proof -
  obtain k where k: "k < 32" "unat (buffer_units q) = 2 ^ k" "buffer_units_mask q = mask k"
      "length (q_buffer q) = 2 ^ k * unat (unit_bytes q)" "unat (queue_count q) \<le> 2 ^ k"
    using wf by (rule queue_wfE)
  let ?h = "(q_head q + i) AND buffer_units_mask q"
  have h: "unat ?h = (unat (q_head q) + unat i) mod 2 ^ k"
    using ring_index [OF k(1), of "q_head q" "unat i"] by (simp add: k)
  have hlt: "unat ?h < 2 ^ k" by (simp add: h)
  have t: "unat t \<le> 2 ^ k" using le k(5) by simp
  have "queue_read_safe q ?h t = ring_read (2 ^ k) (unat (unit_bytes q)) (q_buffer q) (unat ?h) (unat t)"
    using queue_read_safe_ring [OF wf] hlt t by (simp add: k(2))
  also have "\<dots> = concat (map (\<lambda>j. cell (unat (unit_bytes q)) (q_buffer q)
      ((unat ?h + j) mod 2 ^ k)) [0..<unat t])"
    by (rule ring_read_cells [OF k(4) hlt t])
  also have "map (\<lambda>j. cell (unat (unit_bytes q)) (q_buffer q) ((unat ?h + j) mod 2 ^ k)) [0..<unat t] =
      map (\<lambda>j. cell (unat (unit_bytes q)) (q_buffer q)
        ((unat (q_head q) + j) mod 2 ^ k)) [unat i..<unat i + unat t]"
    by (simp add: h map_upt_shift mod_add_left_eq add.assoc)
  also have "\<dots> = take (unat t) (drop (unat i) (queue_units q))"
    using le k(1,3) by (simp add: queue_units_nat drop_map take_map)
  finally show ?thesis .
qed

theorem queue_remove_memcpy_refines:
  assumes wf: "queue_wf q" and res: "queue_remove_memcpy q count = (dest, n, q')"
  shows "n = min count (queue_count q)" and "queue_wf q'"
    and "dest = concat (take (unat n) (queue_units q))"
    and "queue_units q' = drop (unat n) (queue_units q)"
    and "unit_bytes q' = unit_bytes q" and "buffer_units q' = buffer_units q"
proof -
  define t where "t = min count (queue_count q)"
  have dest: "dest = queue_read_safe q (q_head q AND buffer_units_mask q) t"
    and adv: "queue_advance_head q t = (n, q')"
    using res by (simp_all add: queue_remove_memcpy_def Let_def t_def)
  note adv' = queue_advance_head_refines [OF wf adv]
  have n: "n = t" using adv'(1) by (simp add: t_def)
  then show "n = min count (queue_count q)" by (simp add: t_def)
  have "unat (0::size_t) + unat t \<le> unat (queue_count q)" by (simp add: t_def unat_min)
  from queue_read_safe_units [OF wf this]
  show "dest = concat (take (unat n) (queue_units q))" by (simp add: dest n)
  show "queue_wf q'" "queue_units q' = drop (unat n) (queue_units q)"
    "unit_bytes q' = unit_bytes q" "buffer_units q' = buffer_units q"
    by (rule adv')+
qed


subsection \<open>Single units, peeking, initialisation\<close>

lemma queue_add_unit_memcpy:
  assumes wf: "queue_wf q" and src: "length src = unat (unit_bytes q)"
  shows "queue_add_unit q src = (if queue_space q = 0 then (0, q) else queue_add_memcpy q src 1)"
proof (cases "queue_space q = 0")
  case True
  then show ?thesis by (simp add: queue_add_unit_def Let_def)
next
  case False
  obtain k where k: "unat (buffer_units q) = 2 ^ k" "buffer_units_mask q = mask k"
      "length (q_buffer q) = 2 ^ k * unat (unit_bytes q)" "2 ^ k * unat (unit_bytes q) < 2 ^ 32"
    using wf by (rule queue_wfE)
  let ?T = "q_tail q AND buffer_units_mask q"
  have T: "unat ?T < 2 ^ k" by (simp add: k unat_and_mask)
  have one: "min 1 (queue_space q) = 1"
    using False by (simp add: min_def word_le_nat_alt) (metis One_nat_def Suc_leI unat_gt_0)
  have Tu: "unat (?T * unit_bytes q) = unat ?T * unat (unit_bytes q)"
    using T k(4) by (intro unat_mult_units) simp_all
  have "ring_write (2 ^ k) (unat (unit_bytes q)) (q_buffer q) (unat ?T) 1 src =
      blit (q_buffer q) (unat ?T * unat (unit_bytes q)) src"
  proof -
    have "Suc 0 \<le> 2 ^ k - unat ?T" using T by linarith
    then show ?thesis using src by (simp add: ring_write_def Let_def min_def)
  qed
  moreover have "(q_buffer q)[unat ?T := src ! 0] = blit (q_buffer q) (unat ?T) src"
    if "unit_bytes q = 1"
    using that T k(3) src
    by (intro nth_equalityI) (auto simp: nth_blit nth_list_update)
  ultimately show ?thesis
    using queue_add_ring [OF wf, of 1 src] one False src k(1)
    by (simp add: queue_add_unit_def Let_def Tu)
qed

lemma queue_remove_unit_memcpy:
  assumes wf: "queue_wf q"
  shows "queue_remove_unit q = (if queue_count q = 0 then ([], 0, q) else queue_remove_memcpy q 1)"
proof (cases "queue_count q = 0")
  case True
  then show ?thesis by (simp add: queue_remove_unit_def Let_def)
next
  case False
  obtain k where k: "unat (buffer_units q) = 2 ^ k" "buffer_units_mask q = mask k"
      "length (q_buffer q) = 2 ^ k * unat (unit_bytes q)" "2 ^ k * unat (unit_bytes q) < 2 ^ 32"
    using wf by (rule queue_wfE)
  let ?H = "q_head q AND buffer_units_mask q"
  have H: "unat ?H < 2 ^ k" by (simp add: k unat_and_mask)
  have one: "min 1 (queue_count q) = 1"
    using False by (simp add: min_def word_le_nat_alt) (metis One_nat_def Suc_leI unat_gt_0)
  have Hu: "unat (?H * unit_bytes q) = unat ?H * unat (unit_bytes q)"
    using H k(4) by (intro unat_mult_units) simp_all
  have "queue_read_safe q ?H 1 = ring_read (2 ^ k) (unat (unit_bytes q)) (q_buffer q) (unat ?H) 1"
    using queue_read_safe_ring [OF wf, of ?H 1] H by (simp add: k(1))
  also have "\<dots> = take (unat (unit_bytes q)) (drop (unat ?H * unat (unit_bytes q)) (q_buffer q))"
  proof -
    have "Suc 0 \<le> 2 ^ k - unat ?H" using H by linarith
    then show ?thesis by (simp add: ring_read_def Let_def min_def)
  qed
  finally have r: "queue_read_safe q ?H 1 =
      take (unat (unit_bytes q)) (drop (unat ?H * unat (unit_bytes q)) (q_buffer q))" .
  have "[q_buffer q ! unat ?H] = take 1 (drop (unat ?H) (q_buffer q))" if "unit_bytes q = 1"
    using that H k(3) by (simp add: take_Suc_conv_app_nth [of 0, simplified] hd_drop_conv_nth take_Suc)
  then show ?thesis using False one r
    by (simp add: queue_remove_unit_def queue_remove_memcpy_def Let_def Hu)
qed

theorem queue_peek_units_correct:
  assumes wf: "queue_wf q" and i: "i \<le> queue_count q"
  shows "queue_peek_units q i count =
    (concat (take (unat count) (drop (unat i) (queue_units q))), min count (queue_count q - i))"
proof -
  define t where "t = min count (queue_count q - i)"
  have sub: "unat (queue_count q - i) = unat (queue_count q) - unat i" using i by (rule unat_sub)
  have ile: "unat i \<le> unat (queue_count q)" using i by (simp add: word_le_nat_alt)
  have t: "unat t = min (unat count) (unat (queue_count q) - unat i)" by (simp add: t_def unat_min sub)
  have tk: "take (unat t) (drop (unat i) (queue_units q)) =
      take (unat count) (drop (unat i) (queue_units q))"
    by (simp add: t min_def)
  show ?thesis
  proof (cases "i < queue_count q")
    case True
    have "unat i + unat t \<le> unat (queue_count q)" using ile t by simp
    from queue_read_safe_units [OF wf this] show ?thesis
      using True tk by (simp add: queue_peek_units_def queue_peek_memcpy_def Let_def t_def)
  next
    case False
    then have "i = queue_count q" using i by simp
    then show ?thesis
      by (simp add: queue_peek_units_def queue_peek_memcpy_def Let_def)
  qed
qed


lemma queue_init_wf:
  assumes "POWER_OF_TWO (buffer_units q)" and "buffer_units_mask q = buffer_units q - 1"
    and "unit_bytes q \<noteq> 0" and "unat (buffer_units q) * unat (unit_bytes q) < 2 ^ 32"
    and "length (q_buffer q) = unat (buffer_units q) * unat (unit_bytes q)"
  shows "\<exists>q'. queue_init q = Some q' \<and> queue_wf q' \<and> queue_units q' = []"
  using assms by (simp add: queue_init_def queue_wf_def queue_units_def queue_count_def)

subsection \<open>Chunks\<close>

text \<open>The number of whole units in the chunks.\<close>

lemma queue_write_chunk_units:
  assumes wf: "queue_wf q"
  obtains m where "unat (chunk_length (queue_get_write_chunk q)) = m * unat (unit_bytes q)"
    and "m \<le> unat (queue_space q)"
    and "m \<le> unat (buffer_units q) - unat (q_tail q AND buffer_units_mask q)"
    and "m = 0 \<longleftrightarrow> queue_is_full q"
proof -
  obtain k where k: "k < 32" "unat (buffer_units q) = 2 ^ k" "buffer_units_mask q = mask k"
      "2 ^ k * unat (unit_bytes q) < 2 ^ 32" "unat (queue_count q) \<le> 2 ^ k"
    using wf by (rule queue_wfE)
  define h where "h = q_head q AND buffer_units_mask q"
  define t where "t = q_tail q AND buffer_units_mask q"
  define l where "l = (if queue_is_full q then t else if t < h then h else buffer_units q)"
  have h: "unat h < 2 ^ k" "unat h = unat (q_head q) mod 2 ^ k" by (simp_all add: h_def k unat_and_mask)
  have t: "unat t < 2 ^ k" "unat t = (unat h + unat (queue_count q)) mod 2 ^ k"
    using queue_tail_index [OF k(1)] by (simp_all add: t_def h k mod_add_left_eq)
  have tl: "t \<le> l" using t(1) k(2) by (auto simp: l_def word_le_nat_alt word_less_nat_alt)
  define m where "m = unat (l - t)"
  have m: "m = unat l - unat t" unfolding m_def using tl by (rule unat_sub)
  have space: "unat (queue_space q) = 2 ^ k - unat (queue_count q)"
    using unat_queue_space [OF wf] k(2) by simp
  have full: "queue_is_full q \<longleftrightarrow> unat (queue_count q) = 2 ^ k"
    using space k(5) by (auto simp: queue_is_full_def unat_eq_0 [symmetric])
  have wrap: "unat t = (if unat h + unat (queue_count q) < 2 ^ k then unat h + unat (queue_count q)
      else unat h + unat (queue_count q) - 2 ^ k)" if "\<not> queue_is_full q"
  proof -
    have "unat h + unat (queue_count q) < 2 * 2 ^ k" using h(1) k(5) by linarith
    then show ?thesis by (simp add: t(2) mod_if le_mod_geq)
  qed
  have ml: "m = (if queue_is_full q then 0 else if unat t < unat h then unat h - unat t else 2 ^ k - unat t)"
    by (simp add: m l_def k(2) word_less_nat_alt)
  show ?thesis
  proof (rule that [of m])
    have "m \<le> 2 ^ k" using ml h(1) t(1) by auto
    then show "unat (chunk_length (queue_get_write_chunk q)) = m * unat (unit_bytes q)"
      using unat_mult_units [of "l - t" k "unit_bytes q"] k(4)
      by (simp add: queue_get_write_chunk_def Let_def h_def [symmetric] t_def [symmetric]
          l_def [symmetric] m_def)
    show "m \<le> unat (queue_space q)"
      using ml wrap full h(1) t(1) k(5) by (auto simp: space split: if_splits)
    show "m \<le> unat (buffer_units q) - unat (q_tail q AND buffer_units_mask q)"
      using ml h(1) t(1) by (auto simp: k(2) t_def [symmetric])
    show "m = 0 \<longleftrightarrow> queue_is_full q" using ml t(1) by auto
  qed
qed

theorem queue_write_chunk_correct:
  assumes wf: "queue_wf q"
    and fits: "unat n * unat (unit_bytes q) \<le> unat (chunk_length (queue_get_write_chunk q))"
    and data: "length data = unat n * unat (unit_bytes q)"
  shows "queue_advance_tail
      (q\<lparr>q_buffer := blit (q_buffer q) (unat (chunk_offset (queue_get_write_chunk q))) data\<rparr>) n =
    queue_add_memcpy q data n"
proof -
  obtain m where m: "unat (chunk_length (queue_get_write_chunk q)) = m * unat (unit_bytes q)"
      "m \<le> unat (queue_space q)"
      "m \<le> unat (buffer_units q) - unat (q_tail q AND buffer_units_mask q)"
    using wf by (rule queue_write_chunk_units)
  obtain k where k: "unat (buffer_units q) = 2 ^ k" "buffer_units_mask q = mask k"
      "2 ^ k * unat (unit_bytes q) < 2 ^ 32"
    using wf by (rule queue_wfE)
  let ?T = "q_tail q AND buffer_units_mask q"
  have T: "unat ?T < 2 ^ k" by (simp add: k unat_and_mask)
  have ub: "unat (unit_bytes q) > 0" using wf by (simp add: queue_wf_def unat_gt_0)
  have nm: "unat n \<le> m" using fits m(1) ub by simp
  have t: "min n (queue_space q) = n" using nm m(2) by (simp add: min_def word_le_nat_alt)
  have f: "min (unat n) (2 ^ k - unat ?T) = unat n" using nm m(3) k(1) by simp
  have off: "unat (chunk_offset (queue_get_write_chunk q)) = unat ?T * unat (unit_bytes q)"
    using unat_mult_units [of ?T k "unit_bytes q"] T k(3)
    by (simp add: queue_get_write_chunk_def Let_def)
  have "ring_write (2 ^ k) (unat (unit_bytes q)) (q_buffer q) (unat ?T) (unat n) data =
      blit (q_buffer q) (unat ?T * unat (unit_bytes q)) data"
    using data by (simp add: ring_write_def Let_def f)
  then show ?thesis using queue_add_ring [OF wf, of n data] data t by (simp add: off k(1))
qed

theorem queue_read_chunk_correct:
  assumes wf: "queue_wf q"
  shows "\<exists>m. unat (chunk_length (queue_get_read_chunk q)) = m * unat (unit_bytes q) \<and>
      m \<le> length (queue_units q) \<and> (m = 0 \<longleftrightarrow> queue_units q = []) \<and>
      take (m * unat (unit_bytes q)) (drop (unat (chunk_offset (queue_get_read_chunk q))) (q_buffer q)) =
      concat (take m (queue_units q))"
proof -
  obtain k where k: "k < 32" "unat (buffer_units q) = 2 ^ k" "buffer_units_mask q = mask k"
      "2 ^ k * unat (unit_bytes q) < 2 ^ 32" "unat (queue_count q) \<le> 2 ^ k"
    using wf by (rule queue_wfE)
  define h where "h = q_head q AND buffer_units_mask q"
  define t where "t = q_tail q AND buffer_units_mask q"
  define l where "l = (if queue_is_empty q then h else if h < t then t else buffer_units q)"
  have h: "unat h < 2 ^ k" "unat h = unat (q_head q) mod 2 ^ k" by (simp_all add: h_def k unat_and_mask)
  have t: "unat t < 2 ^ k" "unat t = (unat h + unat (queue_count q)) mod 2 ^ k"
    using queue_tail_index [OF k(1)] by (simp_all add: t_def h k mod_add_left_eq)
  have hl: "h \<le> l" using h(1) k(2) by (auto simp: l_def word_le_nat_alt word_less_nat_alt)
  have empty: "queue_is_empty q \<longleftrightarrow> unat (queue_count q) = 0"
    by (auto simp: queue_is_empty_def queue_count_def unat_eq_0)
  define m where "m = l - h"
  have mn: "unat m = (if queue_is_empty q then 0 else if unat h < unat t then unat t - unat h else 2 ^ k - unat h)"
    unfolding m_def using hl by (simp add: unat_sub, simp add: l_def k(2) word_less_nat_alt)
  have wrap: "unat t = (if unat h + unat (queue_count q) < 2 ^ k then unat h + unat (queue_count q)
      else unat h + unat (queue_count q) - 2 ^ k)"
  proof (cases "unat h + unat (queue_count q) < 2 ^ k")
    case True
    then show ?thesis by (simp add: t(2))
  next
    case False
    moreover have "unat h + unat (queue_count q) - 2 ^ k < 2 ^ k" using h(1) k(5) by linarith
    ultimately show ?thesis by (simp add: t(2) le_mod_geq)
  qed
  have mc: "unat m \<le> unat (queue_count q)"
    using mn wrap empty h(1) t(1) k(5) by (auto split: if_splits)
  have m2: "unat m \<le> 2 ^ k - unat h" using mn h(1) t(1) by auto
  have rs: "queue_read_safe q h m = concat (take (unat m) (queue_units q))"
    using queue_read_safe_units [OF wf, of 0 m] mc by (simp add: h_def)
  have len: "unat (chunk_length (queue_get_read_chunk q)) = unat m * unat (unit_bytes q)"
    using unat_mult_units [of m k "unit_bytes q"] k(4) m2
    by (simp add: queue_get_read_chunk_def Let_def h_def [symmetric] t_def [symmetric]
        l_def [symmetric] m_def)
  have off: "unat (chunk_offset (queue_get_read_chunk q)) = unat h * unat (unit_bytes q)"
    using unat_mult_units [of h k "unit_bytes q"] h k(4)
    by (simp add: queue_get_read_chunk_def Let_def h_def)
  have "queue_read_safe q h m = ring_read (2 ^ k) (unat (unit_bytes q)) (q_buffer q) (unat h) (unat m)"
    using queue_read_safe_ring [OF wf, of h m] h m2 by (simp add: k(2))
  then have "take (unat m * unat (unit_bytes q)) (drop (unat h * unat (unit_bytes q)) (q_buffer q)) =
      concat (take (unat m) (queue_units q))"
    using rs m2 by (simp add: ring_read_def Let_def min_def)
  moreover have "unat m = 0 \<longleftrightarrow> queue_units q = []"
    using mn empty h(1) t(1) wrap by (auto simp: length_0_conv [symmetric] simp del: length_0_conv)
  ultimately show ?thesis using len off mc by (intro exI [of _ "unat m"]) simp
qed


section \<open>The interface to clients: a byte pipe\<close>

text \<open>A client writes runs of units and reads runs of units.  \<open>pipe_run\<close> performs a sequence
  of such operations through the given functions and collects what the writer's side accepted
  and what the reader's side got.\<close>

datatype pipe_op = PipeWrite bytes size_t | PipeRead size_t

fun pipe_run ::
  "('q \<Rightarrow> bytes \<Rightarrow> size_t \<Rightarrow> size_t \<times> 'q) \<Rightarrow> ('q \<Rightarrow> size_t \<Rightarrow> bytes \<times> size_t \<times> 'q) \<Rightarrow>
   nat \<Rightarrow> 'q \<Rightarrow> pipe_op list \<Rightarrow> bytes \<times> bytes \<times> 'q" where
  "pipe_run wr rd u q [] = ([], [], q)"
| "pipe_run wr rd u q (PipeWrite src c # ops) =
     (case wr q src c of (n, q1) \<Rightarrow>
        (case pipe_run wr rd u q1 ops of (i, d, q2) \<Rightarrow> (take (unat n * u) src @ i, d, q2)))"
| "pipe_run wr rd u q (PipeRead c # ops) =
     (case rd q c of (dest, n, q1) \<Rightarrow>
        (case pipe_run wr rd u q1 ops of (i, d, q2) \<Rightarrow> (i, dest @ d, q2)))"

fun pipe_op_ok :: "nat \<Rightarrow> pipe_op \<Rightarrow> bool" where
  "pipe_op_ok u (PipeWrite src c) = (unat c * u \<le> length src)"
| "pipe_op_ok u (PipeRead c) = True"

locale byte_pipe =
  fixes wf :: "'q \<Rightarrow> bool"
    and stream :: "'q \<Rightarrow> bytes"
    and ub :: "'q \<Rightarrow> nat"
    and wr :: "'q \<Rightarrow> bytes \<Rightarrow> size_t \<Rightarrow> size_t \<times> 'q"
    and rd :: "'q \<Rightarrow> size_t \<Rightarrow> bytes \<times> size_t \<times> 'q"
  assumes wr_wf: "wf q \<Longrightarrow> unat c * ub q \<le> length src \<Longrightarrow> wr q src c = (n, q') \<Longrightarrow> wf q' \<and> ub q' = ub q"
    and wr_stream: "wf q \<Longrightarrow> unat c * ub q \<le> length src \<Longrightarrow> wr q src c = (n, q') \<Longrightarrow>
      stream q' = stream q @ take (unat n * ub q) src"
    and rd_wf: "wf q \<Longrightarrow> rd q c = (dest, n, q') \<Longrightarrow> wf q' \<and> ub q' = ub q"
    and rd_stream: "wf q \<Longrightarrow> rd q c = (dest, n, q') \<Longrightarrow> stream q = dest @ stream q'"
begin

lemma run_wf:
  "wf q \<Longrightarrow> list_all (pipe_op_ok (ub q)) ops \<Longrightarrow> pipe_run wr rd (ub q) q ops = (i, d, q') \<Longrightarrow>
    wf q' \<and> ub q' = ub q"
proof (induction ops arbitrary: q i d)
  case Nil
  then show ?case by simp
next
  case (Cons op ops)
  show ?case
  proof (cases op)
    case (PipeWrite src c)
    obtain n q1 where w: "wr q src c = (n, q1)" by fastforce
    with PipeWrite Cons.prems have "wf q1" "ub q1 = ub q" using wr_wf [of q c src n q1] by auto
    then show ?thesis using Cons PipeWrite w by (fastforce split: prod.splits)
  next
    case (PipeRead c)
    obtain dest n q1 where r: "rd q c = (dest, n, q1)" by (metis prod_cases3)
    with Cons.prems have "wf q1" "ub q1 = ub q" using rd_wf [of q c dest n q1] by auto
    then show ?thesis using Cons PipeRead r by (fastforce split: prod.splits)
  qed
qed

lemma run_conserves:
  "wf q \<Longrightarrow> list_all (pipe_op_ok (ub q)) ops \<Longrightarrow> pipe_run wr rd (ub q) q ops = (i, d, q') \<Longrightarrow>
    stream q @ i = d @ stream q'"
proof (induction ops arbitrary: q i d)
  case Nil
  then show ?case by simp
next
  case (Cons op ops)
  show ?case
  proof (cases op)
    case (PipeWrite src c)
    obtain n q1 where w: "wr q src c = (n, q1)" by fastforce
    obtain i1 where rest: "pipe_run wr rd (ub q) q1 ops = (i1, d, q')"
      and i: "i = take (unat n * ub q) src @ i1"
      using Cons.prems PipeWrite w by (auto split: prod.splits)
    have ok: "unat c * ub q \<le> length src" using Cons.prems PipeWrite by simp
    then have q1: "wf q1" "ub q1 = ub q" using wr_wf [OF Cons.prems(1) _ w] by auto
    have "stream q1 @ i1 = d @ stream q'" using Cons.IH [OF q1(1)] q1(2) rest Cons.prems by simp
    then show ?thesis using wr_stream [OF Cons.prems(1) ok w] i by simp
  next
    case (PipeRead c)
    obtain dest n q1 where r: "rd q c = (dest, n, q1)" by (metis prod_cases3)
    obtain d1 where rest: "pipe_run wr rd (ub q) q1 ops = (i, d1, q')" and d: "d = dest @ d1"
      using Cons.prems PipeRead r by (auto split: prod.splits)
    have q1: "wf q1" "ub q1 = ub q" using rd_wf [OF Cons.prems(1) r] by auto
    have "stream q1 @ i = d1 @ stream q'" using Cons.IH [OF q1(1)] q1(2) rest Cons.prems by simp
    then show ?thesis using rd_stream [OF Cons.prems(1) r] d by simp
  qed
qed

end

definition queue_stream :: "queue \<Rightarrow> bytes" where
  "queue_stream q = concat (queue_units q)"

interpretation rq: byte_pipe queue_wf queue_stream "\<lambda>q. unat (unit_bytes q)"
  queue_add_units queue_remove_units
proof (unfold_locales, goal_cases)
  case (1 q c src n q')
  then show ?case using queue_add_memcpy_refines [of q c src n q'] by (simp add: queue_add_units_def)
next
  case (2 q c src n q')
  then have r: "n = min c (queue_space q)"
      "queue_units q' = queue_units q @ map (cell (unat (unit_bytes q)) src) [0..<unat n]"
    using queue_add_memcpy_refines [of q c src n q'] by (simp_all add: queue_add_units_def)
  have "unat n \<le> unat c" by (simp add: r(1) unat_min)
  then have "unat n * unat (unit_bytes q) \<le> unat c * unat (unit_bytes q)" by (rule mult_le_mono1)
  then have "unat n * unat (unit_bytes q) \<le> length src" using 2 by linarith
  then show ?case by (simp add: queue_stream_def r(2) concat_cells)
next
  case (3 q c dest n q')
  then show ?case using queue_remove_memcpy_refines [of q c dest n q']
    by (simp add: queue_remove_units_def)
next
  case (4 q c dest n q')
  then have "dest = concat (take (unat n) (queue_units q))"
      "queue_units q' = drop (unat n) (queue_units q)"
    using queue_remove_memcpy_refines [of q c dest n q'] by (simp_all add: queue_remove_units_def)
  then show ?case by (simp add: queue_stream_def flip: concat_append)
qed

section \<open>Properties\<close>

definition queue_example :: queue where
  "queue_example = \<lparr>q_head = 0xFFFFFFFE, q_tail = 0xFFFFFFFF, buffer_units = 4, buffer_units_mask = 3,
     unit_bytes = 2, q_buffer = [10, 11, 12, 13, 14, 15, 16, 17], policy_calls = []\<rparr>"

lemma queue_example_wf: "queue_wf queue_example"
  by (simp add: queue_wf_def queue_example_def POWER_OF_TWO_def queue_count_def)

text \<open>(C36) Bytes are neither lost, duplicated nor reordered: over any sequence of
  \<open>queue_add_units\<close> and \<open>queue_remove_units\<close> calls, what was in the queue followed by
  what the writes accepted is what the reads delivered followed by what is left in the queue, across
  the wrap of the ring and of the 32-bit head and tail counters.\<close>

theorem ring_queue_fifo:
  assumes "queue_wf q" and "list_all (pipe_op_ok (unat (unit_bytes q))) ops"
    and "pipe_run queue_add_units queue_remove_units (unat (unit_bytes q)) q ops = (accepted, delivered, q')"
  shows "queue_stream q @ accepted = delivered @ queue_stream q' \<and> queue_wf q'"
  using rq.run_conserves [OF assms] rq.run_wf [OF assms] by simp

theorem ring_queue_fifo_witness:
  "queue_stream queue_example @ [1, 2, 3, 4, 5, 6] =
     [14, 15, 1, 2] @ queue_stream (snd (snd (pipe_run queue_add_units queue_remove_units 2 queue_example
        [PipeWrite [1, 2, 3, 4, 5, 6, 7, 8] 4, PipeRead 2])))"
proof -
  have r: "pipe_run queue_add_units queue_remove_units (unat (unit_bytes queue_example)) queue_example
      [PipeWrite [1, 2, 3, 4, 5, 6, 7, 8] 4, PipeRead 2] =
    ([1, 2, 3, 4, 5, 6], [14, 15, 1, 2], snd (snd (pipe_run queue_add_units queue_remove_units 2 queue_example
        [PipeWrite [1, 2, 3, 4, 5, 6, 7, 8] 4, PipeRead 2])))"
    by code_simp
  have ok: "list_all (pipe_op_ok (unat (unit_bytes queue_example)))
      [PipeWrite [1, 2, 3, 4, 5, 6, 7, 8] 4, PipeRead 2]"
    by code_simp
  show ?thesis using ring_queue_fifo [OF queue_example_wf ok r] by simp
qed

text \<open>The zero-copy write is the copying one: filling the chunk that
  \<open>queue_get_write_chunk\<close> returns and calling \<open>queue_advance_tail\<close> has the same effect
  as \<open>queue_add_units\<close> of the same bytes, and the units handed over are the units read back.\<close>

theorem ring_queue_zero_copy:
  assumes "queue_wf q"
    and "unat n * unat (unit_bytes q) \<le> unat (chunk_length (queue_get_write_chunk q))"
    and "length data = unat n * unat (unit_bytes q)"
  shows "queue_advance_tail
      (q\<lparr>q_buffer := blit (q_buffer q) (unat (chunk_offset (queue_get_write_chunk q))) data\<rparr>) n =
    queue_add_units q data n"
  unfolding queue_add_units_def by (rule queue_write_chunk_correct [OF assms])

theorem ring_queue_zero_copy_witness:
  "queue_advance_tail
      (queue_example\<lparr>q_buffer := blit (q_buffer queue_example)
         (unat (chunk_offset (queue_get_write_chunk queue_example))) [1, 2]\<rparr>) 1 =
    queue_add_units queue_example [1, 2] 1"
  by (rule ring_queue_zero_copy [OF queue_example_wf]) code_simp+

text \<open>Peeking past the end: when the offset exceeds the number of queued units, the
  unsigned difference wraps, nothing is copied, and the call still reports \<open>count\<close> units.\<close>

theorem queue_peek_past_end:
  assumes "queue_count q < i" and "count \<le> queue_count q - i"
  shows "queue_peek_units q i count = ([], count)"
  using assms by (auto simp: queue_peek_units_def queue_peek_memcpy_def Let_def min_absorb1)

theorem queue_peek_past_end_witness: "queue_peek_units queue_example 2 3 = ([], 3)"
  by (rule queue_peek_past_end) code_simp+

end
