(* ===== verification/Nv_Flash.thy ===== *)
theory Nv_Flash
  imports Prelude "HOL-Library.Multiset"
begin

text \<open>
  The flash object log of \<open>src/common/new_nvmem.c\<close>: containers written one after the
  other over a list of flash pages, the iterator over them, transaction delimiters, page
  release and compaction.

  A container carries its address, the number of the page it starts on and its offset there,
  so that page crossings, page release and the addresses handed to \<open>invalidate_object\<close>
  and \<open>finalize_delimiter\<close> are those of the code; its payload is the decrypted one (the
  container hash and the cipher, which \<open>get_next_object\<close> undoes, are not represented).
  A container whose second part could not be written is kept as one that is not \<open>intact\<close>:
  its hash does not match when it is read back.  Pages are identified by the sequence number of
  their header; physical page numbers only matter through the number of pages in use.

  The chip's answers are part of the state: every flash write and every page erase takes its
  return code from \<open>write_results\<close> and \<open>erase_results\<close> (an exhausted list
  answers \<open>EC_SUCCESS\<close>), and a write that fails leaves the cells as they were.
  \<open>report_failure\<close>, which resets the chip, sets \<open>nv_reset\<close>; nothing after it
  is observable, and the theorems are about runs in which it stays unset.
\<close>

section \<open>Containers, pages and the state\<close>

datatype nn_object_type =
    NN_OBJ_OLD_COPY
  | NN_OBJ_TUPLE
  | NN_OBJ_TPM_RESERVED
  | NN_OBJ_TPM_EVICTABLE
  | NN_OBJ_TRANSACTION_DEL

record nn_container =
  container_type :: nn_object_type
  container_type_copy :: nn_object_type
  generation :: "2 word"
  body :: bytes
  c_page :: nat
  c_off :: nat
  intact :: bool

record nv_state =
  nv_objs :: "nn_container list"
  ctrl_index :: nat
  ctrl_page :: nat
  ctrl_off :: nat
  page_count :: nat
  total_var_space :: u16
  write_results :: "ec_error list"
  erase_results :: "ec_error list"
  scratch_byte :: u8
  crypto_enabled :: bool
  nv_reset :: bool

type_synonym nv_addr = "nat \<times> nat"

definition CONFIG_FLASH_BANK_SIZE :: nat where "CONFIG_FLASH_BANK_SIZE = 2048"
definition PAGE_HEADER_SIZE :: nat where "PAGE_HEADER_SIZE = 8"
definition CONTAINER_SIZE :: nat where "CONTAINER_SIZE = 4"

lemmas flash_sizes = CONFIG_FLASH_BANK_SIZE_def PAGE_HEADER_SIZE_def CONTAINER_SIZE_def

text \<open>A container header with its payload, before it is placed in the flash.\<close>

definition mk_container :: "nn_object_type \<Rightarrow> 2 word \<Rightarrow> bytes \<Rightarrow> nn_container" where
  "mk_container ty gen b =
     \<lparr>container_type = ty, container_type_copy = ty, generation = gen, body = b,
      c_page = 0, c_off = 0, intact = True\<rparr>"

definition c_addr :: "nn_container \<Rightarrow> nv_addr" where
  "c_addr c = (c_page c, c_off c)"

definition page_cursor :: "nv_state \<Rightarrow> nv_addr" where
  "page_cursor s = (ctrl_page s, ctrl_off s)"

definition first_page :: "nv_state \<Rightarrow> nat" where
  "first_page s = ctrl_page s - ctrl_index s"

definition aligned_container_size :: "nn_container \<Rightarrow> nat" where
  "aligned_container_size c = (length (body c) + CONTAINER_SIZE + 3) div 4 * 4"

definition report_failure :: "nv_state \<Rightarrow> nv_state" where
  "report_failure s = s\<lparr>nv_reset := True\<rparr>"

section \<open>Writing\<close>

definition write_to_flash :: "nv_state \<Rightarrow> ec_error \<times> nv_state" where
  "write_to_flash s =
     (case write_results s of
        [] \<Rightarrow> (EC_SUCCESS, s)
      | rv # r \<Rightarrow> (rv, s\<lparr>write_results := r\<rparr>))"

definition flash_physical_erase :: "nv_state \<Rightarrow> ec_error \<times> nv_state" where
  "flash_physical_erase s =
     (case erase_results s of
        [] \<Rightarrow> (EC_SUCCESS, s)
      | rv # r \<Rightarrow> (rv, s\<lparr>erase_results := r\<rparr>))"

definition remove_page_from_list :: "nv_state \<Rightarrow> nat \<Rightarrow> nv_state" where
  "remove_page_from_list s index =
     (if index \<ge> page_count s then s else s\<lparr>page_count := page_count s - 1\<rparr>)"

lemma write_to_flash_page_count:
  "(rv, s1) = write_to_flash s \<Longrightarrow> page_count s1 = page_count s"
  by (auto simp: write_to_flash_def split: list.splits)

function start_new_flash_page_loop :: "nv_state \<Rightarrow> nat \<Rightarrow> ec_error \<Rightarrow> ec_error \<times> nv_state" where
  "start_new_flash_page_loop s next_index rv =
     (if next_index < page_count s
      then case write_to_flash s of (rv, s1) \<Rightarrow>
             if rv = EC_SUCCESS
             then (rv, s1\<lparr>ctrl_index := ctrl_index s1 + 1, ctrl_page := ctrl_page s1 + 1,
                          ctrl_off := PAGE_HEADER_SIZE\<rparr>)
             else start_new_flash_page_loop (remove_page_from_list s1 next_index) next_index rv
      else (rv, report_failure s))"
  by pat_completeness auto
termination
  by (relation "measure (\<lambda>(s, i, rv). page_count s)")
     (auto simp: remove_page_from_list_def split: if_splits dest: write_to_flash_page_count)

declare start_new_flash_page_loop.simps [simp del]

definition start_new_flash_page :: "nv_state \<Rightarrow> ec_error \<times> nv_state" where
  "start_new_flash_page s = start_new_flash_page_loop s (ctrl_index s + 1) EC_ERROR_OVERFLOW"

definition append_object :: "nv_state \<Rightarrow> nn_container \<Rightarrow> nv_state" where
  "append_object s c = s\<lparr>nv_objs := nv_objs s @ [c]\<rparr>"

definition save_object :: "nv_state \<Rightarrow> nn_container \<Rightarrow> ec_error \<times> nv_state" where
  "save_object s cont =
     (let save_size = aligned_container_size cont;
          top_room = CONFIG_FLASH_BANK_SIZE - ctrl_off s;
          c = cont\<lparr>c_page := ctrl_page s, c_off := ctrl_off s, intact := True\<rparr>
      in case write_to_flash s of (rv, s1) \<Rightarrow>
           if rv \<noteq> EC_SUCCESS then (rv, s1)
           else if save_size \<ge> top_room
           then (let rest = save_size - top_room
                 in case start_new_flash_page s1 of (rv, s2) \<Rightarrow>
                      if rv \<noteq> EC_SUCCESS
                      then (rv, append_object s2 (c\<lparr>intact := (rest = 0)\<rparr>))
                      else if rest = 0 then (EC_SUCCESS, append_object s2 c)
                      else case write_to_flash s2 of (rv, s3) \<Rightarrow>
                             if rv \<noteq> EC_SUCCESS then (rv, append_object s3 (c\<lparr>intact := False\<rparr>))
                             else (EC_SUCCESS,
                                   (append_object s3 c)\<lparr>ctrl_off := ctrl_off s3 + rest\<rparr>))
           else (EC_SUCCESS, (append_object s1 c)\<lparr>ctrl_off := ctrl_off s1 + save_size\<rparr>))"

text \<open>Hashing and encrypting the payload are the identity at this level.\<close>

definition save_container :: "nv_state \<Rightarrow> nn_container \<Rightarrow> ec_error \<times> nv_state" where
  "save_container s nc = save_object s nc"

text \<open>Clearing the type field of the container at an address.  Where no container was written,
  the cells of the address become a header that no hash matches.\<close>

definition clear_type_at :: "nv_addr \<Rightarrow> nv_state \<Rightarrow> nv_state" where
  "clear_type_at a s =
     (if a \<in> c_addr ` set (nv_objs s)
      then s\<lparr>nv_objs := map (\<lambda>c. if c_addr c = a then c\<lparr>container_type := NN_OBJ_OLD_COPY\<rparr> else c)
                          (nv_objs s)\<rparr>
      else append_object s ((mk_container NN_OBJ_OLD_COPY 3 [])
             \<lparr>c_page := fst a, c_off := snd a, intact := False\<rparr>))"

definition invalidate_object :: "nv_state \<Rightarrow> nv_addr \<Rightarrow> ec_error \<times> nv_state" where
  "invalidate_object s a =
     (case write_to_flash s of (rv, s1) \<Rightarrow>
        if rv = EC_SUCCESS then (rv, clear_type_at a s1) else (rv, s1))"

definition add_delimiter :: "nv_state \<Rightarrow> ec_error \<times> nv_state" where
  "add_delimiter s = save_container s (mk_container NN_OBJ_TRANSACTION_DEL 0 [])"

definition finalize_delimiter :: "nv_state \<Rightarrow> nv_addr \<Rightarrow> ec_error \<times> nv_state" where
  "finalize_delimiter s del =
     (case write_to_flash s of (rv, s1) \<Rightarrow>
        if rv = EC_SUCCESS then (rv, clear_type_at del s1) else (rv, s1))"

definition add_final_delimiter :: "nv_state \<Rightarrow> ec_error \<times> nv_state" where
  "add_final_delimiter s =
     (let del = page_cursor s
      in case add_delimiter s of (rv, s1) \<Rightarrow>
           if rv \<noteq> EC_SUCCESS then (rv, s1) else finalize_delimiter s1 del)"

section \<open>Reading\<close>

text \<open>The access tracker: how many containers were read, the address of the last one, and the
  page the main tracker is on, with its index in the page list.\<close>

record access_tracker =
  at_pos :: nat
  at_ct :: nv_addr
  at_page :: nat
  at_index :: nat

definition at_start :: "nv_state \<Rightarrow> access_tracker" where
  "at_start s = \<lparr>at_pos = 0, at_ct = (first_page s, PAGE_HEADER_SIZE), at_page = first_page s, at_index = 0\<rparr>"

definition reaches_page_end :: "nn_container \<Rightarrow> bool" where
  "reaches_page_end c \<longleftrightarrow> c_off c + aligned_container_size c \<ge> CONFIG_FLASH_BANK_SIZE"

definition at_advance :: "access_tracker \<Rightarrow> nn_container \<Rightarrow> access_tracker" where
  "at_advance at c =
     (let at1 = at\<lparr>at_ct := c_addr c, at_pos := at_pos at + 1\<rparr>
      in if reaches_page_end c
         then at1\<lparr>at_page := at_page at + 1, at_index := at_index at + 1\<rparr>
         else at1)"

definition container_is_valid :: "nn_container \<Rightarrow> bool" where
  "container_is_valid c \<longleftrightarrow>
     \<not> (container_type c \<noteq> NN_OBJ_OLD_COPY \<and> container_type c \<noteq> container_type_copy c) \<and> intact c"

fun get_next_from ::
  "nn_container list \<Rightarrow> access_tracker \<Rightarrow> bool \<Rightarrow> ec_error \<times> nn_container option \<times> access_tracker" where
  "get_next_from [] at include_deleted = (EC_ERROR_MEMORY_ALLOCATION, None, at)"
| "get_next_from (c # cs) at include_deleted =
     (let at1 = at_advance at c;
          include_deleted' = (include_deleted \<or> container_type_copy c = NN_OBJ_TRANSACTION_DEL)
      in if aligned_container_size c - CONTAINER_SIZE > CONFIG_FLASH_BANK_SIZE - CONTAINER_SIZE
            \<or> \<not> container_is_valid c
         then (EC_ERROR_INVAL, None, at1)
         else if \<not> include_deleted' \<and> container_type c = NN_OBJ_OLD_COPY
         then get_next_from cs at1 include_deleted'
         else (EC_SUCCESS, Some c, at1))"

definition get_next_object ::
  "nv_state \<Rightarrow> access_tracker \<Rightarrow> bool \<Rightarrow> ec_error \<times> nn_container option \<times> access_tracker \<times> nv_state" where
  "get_next_object s at include_deleted =
     (case get_next_from (drop (at_pos at) (nv_objs s)) at include_deleted of
        (rv, c, at1) \<Rightarrow> (rv, c, at1, if rv = EC_ERROR_INVAL then report_failure s else s))"

section \<open>Compaction\<close>

definition compaction_needed :: "nv_state \<Rightarrow> bool" where
  "compaction_needed s \<longleftrightarrow>
     (let compaction_limit = page_count s div 2 + page_count s div 4
      in ctrl_index s \<ge> compaction_limit)"

definition release_first_page ::
  "nv_state \<Rightarrow> access_tracker \<Rightarrow> ec_error \<times> nv_state \<times> access_tracker" where
  "release_first_page s at =
     (case flash_physical_erase s of (rv, s1) \<Rightarrow>
        (let gone = (\<lambda>c. c_page c = first_page s);
             s2 = s1\<lparr>nv_objs := filter (\<lambda>c. \<not> gone c) (nv_objs s1), ctrl_index := ctrl_index s1 - 1\<rparr>
         in (rv,
             if rv \<noteq> EC_SUCCESS then s2\<lparr>page_count := page_count s2 - 1\<rparr> else s2,
             at\<lparr>at_index := at_index at - 1,
                at_pos := at_pos at - length (filter gone (nv_objs s1))\<rparr>)))"

fun release_pages :: "nat \<Rightarrow> nv_state \<Rightarrow> access_tracker \<Rightarrow> nv_state \<times> access_tracker" where
  "release_pages 0 s at = (s, at)"
| "release_pages (Suc n) s at =
     (case release_first_page s at of (rv, s1, at1) \<Rightarrow> release_pages n s1 at1)"

definition compact_fill_page :: "nv_state \<Rightarrow> nv_state" where
  "compact_fill_page s =
     (if ctrl_off s \<noteq> PAGE_HEADER_SIZE \<and> ctrl_off s \<noteq> CONFIG_FLASH_BANK_SIZE \<and>
         ctrl_index s + 1 < page_count s
      then (let to_go_in_page = CONFIG_FLASH_BANK_SIZE - ctrl_off s;
                s1 = (if to_go_in_page \<ge> 2 * CONTAINER_SIZE
                      then snd (save_container s (mk_container NN_OBJ_OLD_COPY 0
                             (replicate (to_go_in_page - 2 * CONTAINER_SIZE) (scratch_byte s))))
                      else s)
            in snd (add_final_delimiter s1))
      else s)"

definition is_live_type :: "nn_object_type \<Rightarrow> bool" where
  "is_live_type ty \<longleftrightarrow> (case ty of
       NN_OBJ_TUPLE \<Rightarrow> True | NN_OBJ_TPM_RESERVED \<Rightarrow> True | NN_OBJ_TPM_EVICTABLE \<Rightarrow> True
     | NN_OBJ_OLD_COPY \<Rightarrow> False | NN_OBJ_TRANSACTION_DEL \<Rightarrow> False)"

text \<open>The part of the loop body after an object was read and re-stored: the pages the reader has
  left are released between writing and finalizing a delimiter.\<close>

definition compact_release ::
  "nv_state \<Rightarrow> access_tracker \<Rightarrow> nat \<Rightarrow> ec_error \<Rightarrow> ec_error \<times> nv_state \<times> access_tracker" where
  "compact_release s at saved rv =
     (let del = page_cursor s
      in case (if saved \<noteq> 0 then add_delimiter s else (rv, s)) of (rv1, s1) \<Rightarrow>
         case release_pages (at_index at) s1 at of (s2, at2) \<Rightarrow>
         case (if saved \<noteq> 0 then finalize_delimiter s2 del else (rv1, s2)) of (rv3, s3) \<Rightarrow>
           (rv3, s3, at2))"

text \<open>The \<open>do ... while\<close> loop, with fuel for its iterations; it ends with whether a final
  delimiter is needed, or with the code returned from inside the loop.\<close>

datatype compact_exit = Fallthrough ec_error bool | Return ec_error | OutOfFuel

fun compact_loop ::
  "nat \<Rightarrow> nat \<Rightarrow> nv_state \<Rightarrow> access_tracker \<Rightarrow> nat \<Rightarrow> compact_exit \<times> nv_state" where
  "compact_loop 0 fence s at saved = (OutOfFuel, s)"
| "compact_loop (Suc fuel) fence s at saved =
     (case get_next_object s at False of (rv, och, at1, s1) \<Rightarrow>
        if rv = EC_ERROR_MEMORY_ALLOCATION then (Return EC_SUCCESS, s1)
        else case och of
          None \<Rightarrow>
            (Return EC_ERROR_INVAL,
             if at_page at1 \<noteq> fence then fst (snd (release_first_page s1 at1)) else s1)
        | Some ch \<Rightarrow>
            (case (if is_live_type (container_type ch)
                   then save_container s1 (ch\<lparr>generation := generation ch + 1\<rparr>)
                   else (EC_SUCCESS, s1)) of (rv2, s2) \<Rightarrow>
               if rv2 \<noteq> EC_SUCCESS then (Return EC_ERROR_INVAL, s2)
               else
                 (let saved2 = (if is_live_type (container_type ch) then saved + 1 else saved)
                  in if at_index at1 \<noteq> 0
                     then (case compact_release s2 at1 saved2 rv of (rv3, s3, at3) \<Rightarrow>
                             if at_page at3 \<noteq> fence then compact_loop fuel fence s3 at3 0
                             else (Fallthrough rv3 False, s3))
                     else if at_page at1 \<noteq> fence then compact_loop fuel fence s2 at1 saved2
                     else (Fallthrough rv True, s2))))"

definition compact_nvmem :: "nv_state \<Rightarrow> ec_error \<times> nv_state" where
  "compact_nvmem s =
     (let s1 = compact_fill_page s
      in case compact_loop (length (nv_objs s1) + 1) (ctrl_page s1) s1 (at_start s1) 0 of
           (OutOfFuel, s2) \<Rightarrow> (EC_ERROR_UNKNOWN, s2)
         | (Return rv, s2) \<Rightarrow> (rv, s2)
         | (Fallthrough rv need, s2) \<Rightarrow> if need then add_final_delimiter s2 else (rv, s2))"

section \<open>Well-formed logs\<close>

definition c_next :: "nn_container \<Rightarrow> nv_addr" where
  "c_next c =
     (if reaches_page_end c
      then (c_page c + 1, PAGE_HEADER_SIZE + (c_off c + aligned_container_size c - CONFIG_FLASH_BANK_SIZE))
      else (c_page c, c_off c + aligned_container_size c))"

definition container_ok :: "nn_container \<Rightarrow> bool" where
  "container_ok c \<longleftrightarrow> container_is_valid c \<and>
     aligned_container_size c \<le> CONFIG_FLASH_BANK_SIZE - PAGE_HEADER_SIZE"

fun log_chain :: "nv_addr \<Rightarrow> nn_container list \<Rightarrow> nv_addr \<Rightarrow> bool" where
  "log_chain a [] b \<longleftrightarrow> a = b"
| "log_chain a (c # cs) b \<longleftrightarrow> c_addr c = a \<and> container_ok c \<and> log_chain (c_next c) cs b"

definition page_offset :: "nat \<Rightarrow> bool" where
  "page_offset off \<longleftrightarrow> PAGE_HEADER_SIZE \<le> off \<and> off < CONFIG_FLASH_BANK_SIZE \<and> off mod 4 = 0"

definition is_delimiter :: "nn_container \<Rightarrow> bool" where
  "is_delimiter c \<longleftrightarrow> container_type_copy c = NN_OBJ_TRANSACTION_DEL"

definition flash_ok :: "nv_state \<Rightarrow> bool" where
  "flash_ok s \<longleftrightarrow> set (write_results s) \<subseteq> {EC_SUCCESS} \<and> \<not> nv_reset s"

definition nv_log_ok :: "nv_state \<Rightarrow> bool" where
  "nv_log_ok s \<longleftrightarrow> flash_ok s \<and> ctrl_index s \<le> ctrl_page s \<and>
     (\<exists>off. page_offset off \<and> log_chain (first_page s, off) (nv_objs s) (page_cursor s))"

definition ends_committed :: "nn_container list \<Rightarrow> bool" where
  "ends_committed cs \<longleftrightarrow> cs = [] \<or> is_delimiter (last cs)"

text \<open>The objects a reader sees, as type and payload.\<close>

definition live_objects :: "nn_container list \<Rightarrow> (nn_object_type \<times> bytes) list" where
  "live_objects cs =
     map (\<lambda>c. (container_type c, body c)) (filter (\<lambda>c. is_live_type (container_type c)) cs)"

definition nv_contents :: "nv_state \<Rightarrow> (nn_object_type \<times> bytes) list" where
  "nv_contents s = live_objects (nv_objs s)"

text \<open>What the operations of the log leave alone.\<close>

definition nv_frame :: "nv_state \<Rightarrow> nv_state \<Rightarrow> bool" where
  "nv_frame s s' \<longleftrightarrow> total_var_space s' = total_var_space s \<and> scratch_byte s' = scratch_byte s \<and>
     crypto_enabled s' = crypto_enabled s"

lemma nv_frame_refl [simp]: "nv_frame s s"
  by (simp add: nv_frame_def)

lemma nv_frame_trans: "nv_frame a b \<Longrightarrow> nv_frame b c \<Longrightarrow> nv_frame a c"
  by (simp add: nv_frame_def)

lemma live_objects_append [simp]: "live_objects (xs @ ys) = live_objects xs @ live_objects ys"
  by (simp add: live_objects_def)

lemma live_objects_Nil [simp]: "live_objects [] = []"
  by (simp add: live_objects_def)

lemma live_objects_Cons:
  "live_objects (c # cs) =
     (if is_live_type (container_type c) then [(container_type c, body c)] else []) @ live_objects cs"
  by (simp add: live_objects_def)

lemma log_chain_append:
  "log_chain a (xs @ ys) b \<longleftrightarrow> (\<exists>m. log_chain a xs m \<and> log_chain m ys b)"
  by (induction xs arbitrary: a) auto

lemma log_chain_snoc:
  "log_chain a (xs @ [c]) b \<longleftrightarrow> log_chain a xs (c_addr c) \<and> container_ok c \<and> c_next c = b"
  by (induction xs arbitrary: a) auto

lemma aligned_pos: "CONTAINER_SIZE \<le> aligned_container_size c"
  by (simp add: aligned_container_size_def flash_sizes)

lemma aligned_mod: "aligned_container_size c mod 4 = 0"
  by (simp add: aligned_container_size_def)

lemma c_next_off:
  assumes "container_ok c" "page_offset (c_off c)"
  shows "page_offset (snd (c_next c))"
proof -
  obtain k where k: "aligned_container_size c = 4 * k" using aligned_mod [of c] by auto
  obtain m where m: "c_off c = 4 * m" using assms(2) by (auto simp: page_offset_def)
  show ?thesis using assms k m
    by (auto simp: c_next_def container_ok_def reaches_page_end_def page_offset_def flash_sizes)
qed

definition addr_lt :: "nv_addr \<Rightarrow> nv_addr \<Rightarrow> bool" where
  "addr_lt a b \<longleftrightarrow> fst a < fst b \<or> fst a = fst b \<and> snd a < snd b"

lemma addr_lt_trans: "addr_lt a b \<Longrightarrow> addr_lt b c \<Longrightarrow> addr_lt a c"
  by (auto simp: addr_lt_def)

lemma addr_lt_irrefl [simp]: "\<not> addr_lt a a"
  by (simp add: addr_lt_def)

lemma addr_lt_next: "addr_lt (c_addr c) (c_next c)"
  using aligned_pos [of c] by (auto simp: addr_lt_def c_addr_def c_next_def flash_sizes)

lemma log_chain_lt:
  "log_chain a cs b \<Longrightarrow> (a = b \<and> cs = []) \<or> addr_lt a b"
  "log_chain a cs b \<Longrightarrow> c \<in> set cs \<Longrightarrow> addr_lt (c_addr c) b"
proof (induction cs arbitrary: a)
  case (Cons x xs)
  { case 1
    then show ?case using Cons.IH(1) [of "c_next x"] addr_lt_next [of x]
      by (auto dest: addr_lt_trans)
  next
    case 2
    then show ?case using Cons.IH [of "c_next x"] addr_lt_next [of x]
      by (auto dest: addr_lt_trans) }
qed auto

lemma c_next_page: "c_page c \<le> fst (c_next c)"
  by (simp add: c_next_def)

lemma log_chain_page_le: "log_chain a cs b \<Longrightarrow> fst a \<le> fst b"
proof (induction cs arbitrary: a)
  case (Cons x xs)
  show ?case using Cons.prems Cons.IH [of "c_next x"] c_next_page [of x]
    by (fastforce simp: c_addr_def)
qed auto

lemma log_chain_page_ge: "log_chain a cs b \<Longrightarrow> c \<in> set cs \<Longrightarrow> fst a \<le> c_page c"
proof (induction cs arbitrary: a)
  case (Cons x xs)
  show ?case using Cons.prems Cons.IH [of "c_next x"] c_next_page [of x]
    by (fastforce simp: c_addr_def)
qed auto

lemma log_chain_offsets:
  assumes "log_chain a cs b" "page_offset (snd a)"
  shows "page_offset (snd b)" "c \<in> set cs \<Longrightarrow> page_offset (c_off c)"
  using assms
proof (induction cs arbitrary: a)
  case (Cons x xs)
  { case 1
    then show ?case using Cons.IH(1) [of "c_next x"] c_next_off [of x] by (auto simp: c_addr_def)
  next
    case 2
    then show ?case using Cons.IH(2) [of "c_next x"] c_next_off [of x] by (auto simp: c_addr_def) }
qed auto

lemma log_chain_ok: "log_chain a cs b \<Longrightarrow> c \<in> set cs \<Longrightarrow> container_ok c"
proof (induction cs arbitrary: a)
  case (Cons x xs)
  then show ?case using Cons.IH [of "c_next x"] by auto
qed auto

section \<open>Writing keeps the log well-formed\<close>

lemma write_to_flash_ok:
  assumes "flash_ok s"
  shows "write_to_flash s = (EC_SUCCESS, s\<lparr>write_results := tl (write_results s)\<rparr>)"
    "flash_ok (s\<lparr>write_results := tl (write_results s)\<rparr>)"
  using assms by (cases "write_results s"; simp add: write_to_flash_def flash_ok_def)+

lemma start_new_flash_page_ok:
  assumes "flash_ok s" "start_new_flash_page s = (rv, s')" "\<not> nv_reset s'"
  shows "rv = EC_SUCCESS"
    "s' = s\<lparr>write_results := tl (write_results s), ctrl_index := ctrl_index s + 1,
            ctrl_page := ctrl_page s + 1, ctrl_off := PAGE_HEADER_SIZE\<rparr>"
  using assms
  by (auto simp: start_new_flash_page_def start_new_flash_page_loop.simps [of s] write_to_flash_ok
      report_failure_def split: if_splits)

definition place :: "nv_state \<Rightarrow> nn_container \<Rightarrow> nn_container" where
  "place s c = c\<lparr>c_page := ctrl_page s, c_off := ctrl_off s, intact := True\<rparr>"

lemma aligned_place [simp]: "aligned_container_size (place s c) = aligned_container_size c"
  by (simp add: place_def aligned_container_size_def)

lemma place_simps [simp]:
  "container_type (place s c) = container_type c" "body (place s c) = body c"
  "container_type_copy (place s c) = container_type_copy c"
  "c_addr (place s c) = page_cursor s" "c_page (place s c) = ctrl_page s"
  "c_off (place s c) = ctrl_off s" "intact (place s c)" "generation (place s c) = generation c"
  by (simp_all add: place_def c_addr_def page_cursor_def)

lemma save_object_eq:
  assumes "flash_ok s" "save_object s c = (rv, s')" "\<not> nv_reset s'" "ctrl_off s < CONFIG_FLASH_BANK_SIZE"
  shows "rv = EC_SUCCESS \<and>
    s' = s\<lparr>nv_objs := nv_objs s @ [place s c], write_results := write_results s',
           ctrl_index := ctrl_index s + (if reaches_page_end (place s c) then 1 else 0),
           ctrl_page := fst (c_next (place s c)), ctrl_off := snd (c_next (place s c))\<rparr> \<and>
    set (write_results s') \<subseteq> {EC_SUCCESS}"
proof -
  let ?s1 = "s\<lparr>write_results := tl (write_results s)\<rparr>"
  have w: "write_to_flash s = (EC_SUCCESS, ?s1)" "flash_ok ?s1"
    using write_to_flash_ok [OF assms(1)] by auto
  show ?thesis
  proof (cases "reaches_page_end (place s c)")
    case False
    then show ?thesis using assms(2) w
      by (auto simp: save_object_def Let_def append_object_def reaches_page_end_def c_next_def
          place_def [symmetric] flash_ok_def intro!: nv_state.equality split: if_splits)
  next
    case True
    obtain rv2 s2 where n: "start_new_flash_page ?s1 = (rv2, s2)" by fastforce
    have ge: "CONFIG_FLASH_BANK_SIZE - ctrl_off s \<le> aligned_container_size c"
      using True by (simp add: reaches_page_end_def)
    have "\<not> nv_reset s2"
      using assms(2,3) w(1) n ge
      by (auto simp: save_object_def Let_def append_object_def write_to_flash_def
          split: if_splits list.splits)
    note s2 = start_new_flash_page_ok [OF w(2) n this]
    have f2: "flash_ok s2" using w(2) unfolding s2(2) 
      by (cases "write_results ?s1") (auto simp: flash_ok_def)
    note w2 = write_to_flash_ok [OF f2]
    show ?thesis using assms(2,4) True w(1) w2 f2 n s2 ge
      by (auto simp: save_object_def Let_def append_object_def reaches_page_end_def c_next_def
          place_def [symmetric] flash_ok_def intro!: nv_state.equality split: if_splits)
  qed
qed

lemma save_object_ok:
  assumes "flash_ok s" "save_object s c = (rv, s')" "\<not> nv_reset s'" "ctrl_index s \<le> ctrl_page s"
    "ctrl_off s < CONFIG_FLASH_BANK_SIZE"
  shows "rv = EC_SUCCESS" "nv_objs s' = nv_objs s @ [place s c]" "page_cursor s' = c_next (place s c)"
    "first_page s' = first_page s" "flash_ok s'" "ctrl_index s' \<le> ctrl_page s'" "nv_frame s s'"
proof -
  note e = save_object_eq [OF assms(1,2,3,5)]
  from e show "rv = EC_SUCCESS" by blast
  from e have e': "s' = s\<lparr>nv_objs := nv_objs s @ [place s c], write_results := write_results s',
           ctrl_index := ctrl_index s + (if reaches_page_end (place s c) then 1 else 0),
           ctrl_page := fst (c_next (place s c)), ctrl_off := snd (c_next (place s c))\<rparr>" by blast
  show "nv_objs s' = nv_objs s @ [place s c]" by (subst e') simp
  show "page_cursor s' = c_next (place s c)" unfolding page_cursor_def by (subst (1 2) e') simp
  show "first_page s' = first_page s"
    unfolding first_page_def by (subst (1 2) e') (use assms(4) in \<open>simp add: c_next_def\<close>)
  show "ctrl_index s' \<le> ctrl_page s'"
    by (subst (1 2) e') (use assms(4) in \<open>simp add: c_next_def\<close>)
  show "flash_ok s'" using e assms(3) by (auto simp: flash_ok_def)
  show "nv_frame s s'" unfolding nv_frame_def by (subst (1 2 3) e') simp
qed

lemma nv_log_okD:
  assumes "nv_log_ok s"
  shows "flash_ok s" "\<not> nv_reset s" "ctrl_index s \<le> ctrl_page s"
    "page_offset (ctrl_off s)" "ctrl_off s < CONFIG_FLASH_BANK_SIZE"
proof -
  show p: "page_offset (ctrl_off s)"
    using assms log_chain_offsets(1) [of "(first_page s, _)" "nv_objs s" "page_cursor s"]
    by (auto simp: nv_log_ok_def page_cursor_def)
  then show "ctrl_off s < CONFIG_FLASH_BANK_SIZE" by (simp add: page_offset_def)
qed (use assms in \<open>auto simp: nv_log_ok_def flash_ok_def\<close>)

definition saveable :: "nn_container \<Rightarrow> bool" where
  "saveable c \<longleftrightarrow> container_type c = container_type_copy c \<and>
     aligned_container_size c \<le> CONFIG_FLASH_BANK_SIZE - PAGE_HEADER_SIZE"

lemma saveable_place: "saveable c \<Longrightarrow> container_ok (place s c)"
  by (simp add: saveable_def container_ok_def container_is_valid_def)

text \<open>On a chip that reports no write error, saving a container appends it to the log, and
  the only other outcome is the reset for want of pages.\<close>

lemma save_container_ok:
  assumes "nv_log_ok s" "saveable c" "save_container s c = (rv, s')" "\<not> nv_reset s'"
  shows "rv = EC_SUCCESS" "nv_objs s' = nv_objs s @ [place s c]" "nv_log_ok s'" "nv_frame s s'"
    "first_page s' = first_page s" "ctrl_page s \<le> ctrl_page s'"
    "page_cursor s' = c_next (place s c)"
proof -
  note d = nv_log_okD [OF assms(1)]
  note o = save_object_ok [OF d(1) assms(3) [unfolded save_container_def] assms(4) d(3) d(5)]
  from o show "rv = EC_SUCCESS" "nv_objs s' = nv_objs s @ [place s c]" "nv_frame s s'"
    "first_page s' = first_page s" "page_cursor s' = c_next (place s c)" by auto
  show "ctrl_page s \<le> ctrl_page s'"
    using o(3) c_next_page [of "place s c"] by (simp add: page_cursor_def prod_eq_iff)
  show "nv_log_ok s'"
    using assms(1) o saveable_place [OF assms(2), of s]
    by (auto simp: nv_log_ok_def log_chain_snoc)
qed

lemma saveable_mk: "length b \<le> 2035 \<Longrightarrow> saveable (mk_container ty g b)"
  by (simp add: saveable_def mk_container_def aligned_container_size_def flash_sizes)

lemma mk_container_simps [simp]:
  "container_type (mk_container ty g b) = ty" "container_type_copy (mk_container ty g b) = ty"
  "body (mk_container ty g b) = b" "generation (mk_container ty g b) = g"
  by (simp_all add: mk_container_def)

text \<open>Clearing a type field removes at most the object at that address.\<close>

lemma log_chain_split_addr:
  assumes "log_chain a (xs @ c # ys) b" "d \<in> set (xs @ ys)"
  shows "c_addr d \<noteq> c_addr c"
proof -
  obtain m where m: "log_chain a xs m" "c_addr c = m" "log_chain (c_next c) ys b"
    using assms(1) by (auto simp: log_chain_append)
  have "addr_lt (c_addr c) (c_addr d)" if dy: "d \<in> set ys"
  proof -
    obtain ys1 ys2 where y: "ys = ys1 @ d # ys2" using split_list [OF dy] by blast
    have "log_chain (c_next c) ys1 (c_addr d)" using m(3) by (auto simp: y log_chain_append)
    then show ?thesis using log_chain_lt(1) addr_lt_next [of c] addr_lt_trans by metis
  qed
  moreover have "addr_lt (c_addr d) (c_addr c)" if "d \<in> set xs"
    using log_chain_lt(2) [OF m(1) that] m(2) by simp
  ultimately show ?thesis using assms(2) by (metis Un_iff addr_lt_irrefl set_append)
qed

definition erase_type :: "nn_container \<Rightarrow> nn_container" where
  "erase_type c = c\<lparr>container_type := NN_OBJ_OLD_COPY\<rparr>"

lemma erase_type_simps [simp]:
  "container_type (erase_type c) = NN_OBJ_OLD_COPY" "c_addr (erase_type c) = c_addr c"
  "container_type_copy (erase_type c) = container_type_copy c" "c_next (erase_type c) = c_next c"
  "is_delimiter (erase_type c) = is_delimiter c" "c_page (erase_type c) = c_page c"
  "c_off (erase_type c) = c_off c"
  by (simp_all add: erase_type_def c_addr_def c_next_def reaches_page_end_def is_delimiter_def
      aligned_container_size_def)

lemma container_ok_erase: "container_ok c \<Longrightarrow> container_ok (erase_type c)"
  by (simp add: container_ok_def container_is_valid_def erase_type_def aligned_container_size_def)

lemma clear_type_at_ok:
  assumes "nv_log_ok s" "nv_objs s = xs @ c # ys"
  shows "clear_type_at (c_addr c) s = s\<lparr>nv_objs := xs @ erase_type c # ys\<rparr>"
    "nv_log_ok (clear_type_at (c_addr c) s)"
proof -
  obtain off where ch: "log_chain (first_page s, off) (xs @ c # ys) (page_cursor s)"
    and off: "page_offset off"
    using assms by (auto simp: nv_log_ok_def)
  have m: "map (\<lambda>d. if c_addr d = c_addr c then d\<lparr>container_type := NN_OBJ_OLD_COPY\<rparr> else d) zs = zs"
    if "set zs \<subseteq> set (xs @ ys)" for zs
    by (rule map_idI) (use that log_chain_split_addr [OF ch] in auto)
  show e: "clear_type_at (c_addr c) s = s\<lparr>nv_objs := xs @ erase_type c # ys\<rparr>"
    using m [of xs] m [of ys] by (simp add: clear_type_at_def assms(2) erase_type_def)
  show "nv_log_ok (clear_type_at (c_addr c) s)"
    using assms ch off unfolding e
    by (auto simp: nv_log_ok_def log_chain_append container_ok_erase flash_ok_def first_page_def
        page_cursor_def)
qed

lemma nv_log_ok_write:
  "nv_log_ok s \<Longrightarrow> nv_log_ok (s\<lparr>write_results := tl (write_results s)\<rparr>)"
  using write_to_flash_ok(2) [of s]
  by (auto simp: nv_log_ok_def first_page_def page_cursor_def)

lemma invalidate_object_ok:
  assumes "nv_log_ok s" "nv_objs s = xs @ c # ys" "invalidate_object s (c_addr c) = (rv, s')"
  shows "rv = EC_SUCCESS" "nv_objs s' = xs @ erase_type c # ys" "nv_log_ok s'" "nv_frame s s'"
    "first_page s' = first_page s" "page_cursor s' = page_cursor s"
proof -
  let ?s1 = "s\<lparr>write_results := tl (write_results s)\<rparr>"
  have s1: "nv_log_ok ?s1" "nv_objs ?s1 = xs @ c # ys" using assms(1,2) nv_log_ok_write by auto
  note k = clear_type_at_ok [OF s1]
  have e: "rv = EC_SUCCESS" "s' = clear_type_at (c_addr c) ?s1"
    using assms(3) write_to_flash_ok(1) [OF nv_log_okD(1) [OF assms(1)]]
    by (simp_all add: invalidate_object_def)
  from e(1) show "rv = EC_SUCCESS" .
  from e(2) k(2) show "nv_log_ok s'" by simp
  show "nv_objs s' = xs @ erase_type c # ys" "nv_frame s s'"
    "first_page s' = first_page s" "page_cursor s' = page_cursor s"
    unfolding e(2) k(1) by (simp_all add: nv_frame_def first_page_def page_cursor_def)
qed

lemma finalize_delimiter_eq: "finalize_delimiter = invalidate_object"
  by (simp add: fun_eq_iff finalize_delimiter_def invalidate_object_def)

lemma add_delimiter_ok:
  assumes "nv_log_ok s" "add_delimiter s = (rv, s')" "\<not> nv_reset s'"
  shows "rv = EC_SUCCESS" "nv_objs s' = nv_objs s @ [place s (mk_container NN_OBJ_TRANSACTION_DEL 0 [])]"
    "nv_log_ok s'" "nv_frame s s'" "first_page s' = first_page s" "ctrl_page s \<le> ctrl_page s'"
    "page_cursor s' = c_next (place s (mk_container NN_OBJ_TRANSACTION_DEL 0 []))"
proof -
  let ?d = "mk_container NN_OBJ_TRANSACTION_DEL 0 []"
  have d: "saveable ?d" by (rule saveable_mk) simp
  note c = save_container_ok [OF assms(1) d assms(2) [unfolded add_delimiter_def] assms(3)]
  from c show "rv = EC_SUCCESS" "nv_objs s' = nv_objs s @ [place s ?d]"
    "nv_log_ok s'" "nv_frame s s'" "first_page s' = first_page s" "ctrl_page s \<le> ctrl_page s'"
    "page_cursor s' = c_next (place s ?d)" by blast+
qed

text \<open>A reset is final.\<close>

lemma write_reset: "write_to_flash s = (rv, s') \<Longrightarrow> nv_reset s' = nv_reset s"
  by (auto simp: write_to_flash_def split: list.splits)

lemma start_new_flash_page_loop_reset:
  "start_new_flash_page_loop s i rv0 = (rv, s') \<Longrightarrow> nv_reset s \<Longrightarrow> nv_reset s'"
proof (induction s i rv0 rule: start_new_flash_page_loop.induct)
  case (1 s i rv0)
  obtain rv1 s1 where w: "write_to_flash s = (rv1, s1)" by fastforce
  show ?case
    using 1 w write_reset [OF w]
    by (subst (asm) start_new_flash_page_loop.simps)
       (auto simp: report_failure_def remove_page_from_list_def split: if_splits)
qed

lemma start_new_flash_page_reset: "start_new_flash_page s = (rv, s') \<Longrightarrow> nv_reset s \<Longrightarrow> nv_reset s'"
  unfolding start_new_flash_page_def by (rule start_new_flash_page_loop_reset)

lemma save_container_reset: "save_container s c = (rv, s') \<Longrightarrow> nv_reset s \<Longrightarrow> nv_reset s'"
  by (auto simp: save_container_def save_object_def Let_def append_object_def
      split: prod.splits if_splits dest!: write_reset start_new_flash_page_reset)

lemma add_delimiter_reset: "add_delimiter s = (rv, s') \<Longrightarrow> nv_reset s \<Longrightarrow> nv_reset s'"
  unfolding add_delimiter_def by (rule save_container_reset)

lemma invalidate_reset_mono: "invalidate_object s a = (rv, s') \<Longrightarrow> nv_reset s \<Longrightarrow> nv_reset s'"
  by (auto simp: invalidate_object_def write_to_flash_def clear_type_at_def append_object_def
      split: list.splits if_splits prod.splits)

lemma release_first_page_reset: "release_first_page s at = (rv, s', at') \<Longrightarrow> nv_reset s' = nv_reset s"
  by (auto simp: release_first_page_def flash_physical_erase_def Let_def split: list.splits if_splits)

lemma release_pages_reset: "release_pages n s at = (s', at') \<Longrightarrow> nv_reset s' = nv_reset s"
  by (induction n arbitrary: s at) (auto split: prod.splits dest: release_first_page_reset)

lemma compact_release_reset:
  "compact_release s at saved rv = (rv', s', at') \<Longrightarrow> nv_reset s \<Longrightarrow> nv_reset s'"
  by (auto simp: compact_release_def Let_def finalize_delimiter_def
      split: prod.splits if_splits
      dest!: add_delimiter_reset release_pages_reset write_reset)
     (auto simp: clear_type_at_def append_object_def split: if_splits)

lemma add_final_delimiter_ok:
  assumes "nv_log_ok s" "add_final_delimiter s = (rv, s')" "\<not> nv_reset s'"
  shows "rv = EC_SUCCESS"
    "nv_objs s' = nv_objs s @ [erase_type (place s (mk_container NN_OBJ_TRANSACTION_DEL 0 []))]"
    "nv_log_ok s'" "nv_frame s s'" "first_page s' = first_page s" "ctrl_page s \<le> ctrl_page s'"
    "page_cursor s' = c_next (place s (mk_container NN_OBJ_TRANSACTION_DEL 0 []))"
proof -
  let ?d = "place s (mk_container NN_OBJ_TRANSACTION_DEL 0 [])"
  obtain rv1 s1 where a: "add_delimiter s = (rv1, s1)" by fastforce
  have f: "rv1 \<noteq> EC_SUCCESS \<Longrightarrow> s' = s1" "rv1 = EC_SUCCESS \<Longrightarrow> invalidate_object s1 (c_addr ?d) = (rv, s')"
    using assms(2) by (auto simp: add_final_delimiter_def a Let_def finalize_delimiter_eq)
  have nr: "\<not> nv_reset s1" using f assms(3) invalidate_reset_mono by blast
  note d = add_delimiter_ok [OF assms(1) a nr]
  note i = invalidate_object_ok [OF d(3) d(2) f(2) [OF d(1)]]
  from d i show "rv = EC_SUCCESS" "nv_objs s' = nv_objs s @ [erase_type ?d]" "nv_log_ok s'" "nv_frame s s'"
    "first_page s' = first_page s"
    by (auto intro: nv_frame_trans)
  from d(6) i(6) show "ctrl_page s \<le> ctrl_page s'" by (simp add: page_cursor_def)
  from d i show "page_cursor s' = c_next ?d" by simp
qed

section \<open>Reading the log\<close>

text \<open>The iterator returns the first container that is not a deleted object (delimiters are
  always returned), and its page is the one the next container starts on.\<close>

definition skipped :: "nn_container \<Rightarrow> bool" where
  "skipped c \<longleftrightarrow> container_type c = NN_OBJ_OLD_COPY \<and> \<not> is_delimiter c"

lemma at_advance_simps [simp]:
  "at_pos (at_advance at c) = at_pos at + 1" "at_ct (at_advance at c) = c_addr c"
  "at_page (at_advance at c) = at_page at + (if reaches_page_end c then 1 else 0)"
  "at_index (at_advance at c) = at_index at + (if reaches_page_end c then 1 else 0)"
  by (simp_all add: at_advance_def Let_def)

lemma c_next_fst: "fst (c_next c) = c_page c + (if reaches_page_end c then 1 else 0)"
  by (simp add: c_next_def)

lemma container_ok_size:
  "container_ok c \<Longrightarrow> \<not> aligned_container_size c - CONTAINER_SIZE > CONFIG_FLASH_BANK_SIZE - CONTAINER_SIZE"
  unfolding container_ok_def flash_sizes by linarith

lemma get_next_from_step:
  assumes "container_ok c"
  shows "get_next_from (c # cs) at False =
    (if skipped c then get_next_from cs (at_advance at c) False
     else (EC_SUCCESS, Some c, at_advance at c))"
  using assms container_ok_size [OF assms]
  by (auto simp: container_ok_def skipped_def is_delimiter_def Let_def)

declare get_next_from.simps(2) [simp del]

lemma get_next_from_skip:
  "(\<forall>c\<in>set ds. container_ok c \<and> skipped c) \<Longrightarrow>
     get_next_from (ds @ cs) at False = get_next_from cs (foldl at_advance at ds) False"
  by (induction ds arbitrary: at) (auto simp: get_next_from_step)

lemma foldl_at_advance:
  assumes "log_chain a cs b"
  shows "at_pos (foldl at_advance at cs) = at_pos at + length cs"
    "at_page at = fst a \<Longrightarrow> at_page (foldl at_advance at cs) = fst b"
    "at_page at = p + at_index at \<Longrightarrow>
       at_page (foldl at_advance at cs) = p + at_index (foldl at_advance at cs)"
  using assms
proof (induction cs arbitrary: a at)
  case (Cons c cs)
  { case 1 then show ?case using Cons.IH(1) [of "c_next c" "at_advance at c"] by simp
  next case 2 then show ?case using Cons.IH(2) [of "at_advance at c" "c_next c"]
      by (auto simp: c_next_fst c_addr_def)
  next case 3 then show ?case using Cons.IH(3) [of "at_advance at c" "c_next c"] by auto }
qed auto

lemma get_next_from_all_skipped:
  assumes "\<forall>c\<in>set cs. container_ok c \<and> skipped c"
  shows "get_next_from cs at False = (EC_ERROR_MEMORY_ALLOCATION, None, foldl at_advance at cs)"
  using get_next_from_skip [OF assms, of "[]"] by simp

lemma get_next_from_found:
  assumes "\<forall>c\<in>set cs. container_ok c" "\<exists>c\<in>set cs. \<not> skipped c"
  obtains ds c cs' where "cs = ds @ c # cs'" "\<forall>d\<in>set ds. skipped d" "\<not> skipped c"
    "get_next_from (cs @ es) at False = (EC_SUCCESS, Some c, foldl at_advance at (ds @ [c]))"
proof -
  obtain ds c cs' where d: "cs = ds @ c # cs'" "\<not> skipped c" "\<forall>d\<in>set ds. skipped d"
    using split_list_first_prop [OF assms(2)] by blast
  have "get_next_from (ds @ c # cs' @ es) at False = (EC_SUCCESS, Some c, foldl at_advance at (ds @ [c]))"
    using d assms(1) by (subst get_next_from_skip) (auto simp: get_next_from_step)
  then show thesis using d by (intro that [of ds c cs']) auto
qed

section \<open>Compaction keeps the contents\<close>

lemma release_first_page_ok:
  assumes "release_first_page s at = (rv, s', at')" "nv_objs s = U @ R" "at_pos at = length U"
    "\<forall>c\<in>set R. c_page c \<noteq> first_page s" "0 < ctrl_index s" "ctrl_index s \<le> ctrl_page s"
  shows "nv_objs s' = filter (\<lambda>c. c_page c \<noteq> first_page s) U @ R"
    "at_pos at' = length (filter (\<lambda>c. c_page c \<noteq> first_page s) U)"
    "at_page at' = at_page at" "at_index at' = at_index at - 1"
    "ctrl_index s' = ctrl_index s - 1" "page_cursor s' = page_cursor s" "first_page s' = first_page s + 1"
    "nv_reset s' = nv_reset s" "write_results s' = write_results s" "nv_frame s s'"
proof -
  obtain s1 where e: "flash_physical_erase s = (rv, s1)" "s1 = s\<lparr>erase_results := erase_results s1\<rparr>"
    by (cases "erase_results s") (use assms(1) in \<open>auto simp: release_first_page_def flash_physical_erase_def Let_def\<close>)
  have n: "nv_objs s1 = U @ R" by (subst e(2)) (simp add: assms(2))
  have r: "filter (\<lambda>c. c_page c \<noteq> first_page s) R = R" "filter (\<lambda>c. c_page c = first_page s) R = []"
    using assms(4) by (auto intro: filter_True filter_False)
  have l: "length U - length (filter (\<lambda>c. c_page c = first_page s) U)
      = length (filter (\<lambda>c. c_page c \<noteq> first_page s) U)"
    using sum_length_filter_compl [of "\<lambda>c. c_page c = first_page s" U] by linarith
  have k: "ctrl_page s1 = ctrl_page s" "ctrl_off s1 = ctrl_off s" "ctrl_index s1 = ctrl_index s"
    "nv_reset s1 = nv_reset s" "write_results s1 = write_results s" "nv_frame s s1"
    by (subst e(2), simp add: nv_frame_def)+
  define s2 where "s2 = s1\<lparr>nv_objs := filter (\<lambda>c. c_page c \<noteq> first_page s) U @ R,
      ctrl_index := ctrl_index s1 - 1\<rparr>"
  have s': "s' = (if rv \<noteq> EC_SUCCESS then s2\<lparr>page_count := page_count s2 - 1\<rparr> else s2)"
    and at': "at' = at\<lparr>at_index := at_index at - 1,
      at_pos := length (filter (\<lambda>c. c_page c \<noteq> first_page s) U)\<rparr>"
    using assms(1) by (auto simp: release_first_page_def e(1) n r Let_def s2_def assms(3) l split: if_splits)
  from at' show "at_pos at' = length (filter (\<lambda>c. c_page c \<noteq> first_page s) U)"
    "at_page at' = at_page at" "at_index at' = at_index at - 1" by simp_all
  show "nv_objs s' = filter (\<lambda>c. c_page c \<noteq> first_page s) U @ R"
    "ctrl_index s' = ctrl_index s - 1" "page_cursor s' = page_cursor s"
    "nv_reset s' = nv_reset s" "write_results s' = write_results s" "nv_frame s s'"
    using k by (simp_all add: s' s2_def page_cursor_def nv_frame_def)
  show "first_page s' = first_page s + 1"
    using k assms(5,6) by (auto simp: s' s2_def first_page_def)
qed

lemma release_pages_ok:
  assumes "release_pages n s at = (s', at')" "nv_objs s = U @ R" "at_pos at = length U"
    "\<forall>c\<in>set U. first_page s \<le> c_page c" "\<forall>c\<in>set R. first_page s + n \<le> c_page c"
    "n \<le> ctrl_index s" "ctrl_index s \<le> ctrl_page s"
  shows "nv_objs s' = filter (\<lambda>c. first_page s + n \<le> c_page c) U @ R \<and>
    at_pos at' = length (filter (\<lambda>c. first_page s + n \<le> c_page c) U) \<and>
    at_page at' = at_page at \<and> at_index at' = at_index at - n \<and>
    ctrl_index s' = ctrl_index s - n \<and> page_cursor s' = page_cursor s \<and> first_page s' = first_page s + n \<and>
    nv_reset s' = nv_reset s \<and> write_results s' = write_results s \<and> nv_frame s s'"
  using assms
proof (induction n arbitrary: s at U)
  case 0
  then show ?case by (auto intro: filter_True [symmetric])
next
  case (Suc n)
  obtain rv s1 at1 where r: "release_first_page s at = (rv, s1, at1)" by (cases "release_first_page s at") auto
  let ?U = "filter (\<lambda>c. c_page c \<noteq> first_page s) U"
  have ne: "\<forall>c\<in>set R. c_page c \<noteq> first_page s" using Suc.prems(5) by fastforce
  note f = release_first_page_ok [OF r Suc.prems(2,3) ne _ Suc.prems(7)]
  have i: "0 < ctrl_index s" using Suc.prems(6) by simp
  note f = f [OF i]
  have p: "ctrl_page s1 = ctrl_page s" using f(6) by (simp add: page_cursor_def)
  have "\<forall>c\<in>set ?U. first_page s1 \<le> c_page c" using Suc.prems(4) f(7) by fastforce
  moreover have "\<forall>c\<in>set R. first_page s1 + n \<le> c_page c" using Suc.prems(5) f(7) by auto
  moreover have "n \<le> ctrl_index s1" "ctrl_index s1 \<le> ctrl_page s1" using f p Suc.prems(6,7) by auto
  moreover have "release_pages n s1 at1 = (s', at')" using Suc.prems(1) r by simp
  moreover have "filter (\<lambda>c. first_page s1 + n \<le> c_page c) ?U = filter (\<lambda>c. first_page s + Suc n \<le> c_page c) U"
    using f(7) by (auto intro: filter_cong)
  ultimately show ?case
    using Suc.IH [of s1 at1 ?U] f by (auto intro: nv_frame_trans)
qed

text \<open>The state of the compaction loop: \<open>U\<close> was read and is still on the first page, \<open>B\<close> is
  what is left to read below the fence and ends with a delimiter, \<open>N\<close> was written by the
  compaction.  The objects of \<open>B\<close> and \<open>N\<close> together are the contents \<open>C\<close>.\<close>

definition compact_inv ::
  "nat \<Rightarrow> (nn_object_type \<times> bytes) list \<Rightarrow> nv_state \<Rightarrow> access_tracker \<Rightarrow> nat \<Rightarrow>
   nn_container list \<Rightarrow> nn_container list \<Rightarrow> nn_container list \<Rightarrow> bool" where
  "compact_inv F C s at saved U B N \<longleftrightarrow>
     nv_log_ok s \<and> nv_objs s = U @ B @ N \<and> at_pos at = length U \<and> at_page at = first_page s \<and>
     at_index at = 0 \<and> B \<noteq> [] \<and> is_delimiter (last B) \<and> c_page (hd B) = at_page at \<and>
     (\<forall>c\<in>set (U @ B). c_page c < F) \<and> (\<forall>c\<in>set N. F \<le> c_page c) \<and> F \<le> ctrl_page s \<and>
     fst (c_next (last B)) = F \<and> (saved = 0 \<longrightarrow> ends_committed N) \<and>
     mset (live_objects (B @ N)) = mset C"

lemma delimiter_not_skipped: "is_delimiter c \<Longrightarrow> \<not> skipped c"
  by (simp add: skipped_def)

lemma skipped_not_live: "\<forall>d\<in>set ds. skipped d \<Longrightarrow> live_objects ds = []"
  by (auto simp: live_objects_def skipped_def is_live_type_def filter_empty_conv)

lemma ends_committed_snoc [simp]: "ends_committed (xs @ [c]) = is_delimiter c"
  by (simp add: ends_committed_def)

text \<open>Cutting a chain at a page boundary.\<close>

lemma log_chain_filter:
  assumes "log_chain a cs b" "page_offset (snd a)" "fst a \<le> p" "p \<le> fst b"
  shows "\<exists>off. page_offset off \<and>
    log_chain (p, off) (filter (\<lambda>c. p \<le> c_page c) cs) b"
  using assms
proof (induction cs arbitrary: a)
  case Nil
  then show ?case by (cases b) auto
next
  case (Cons c cs)
  show ?case
  proof (cases "fst a = p")
    case True
    then have "filter (\<lambda>c. p \<le> c_page c) (c # cs) = c # cs"
      using log_chain_page_ge [OF Cons.prems(1)] by (intro filter_True) auto
    then show ?thesis using Cons.prems True by (intro exI [of _ "snd a"]) auto
  next
    case False
    have c: "c_addr c = a" "container_ok c" "log_chain (c_next c) cs b" using Cons.prems(1) by auto
    have "fst (c_next c) \<le> p" using False Cons.prems(3) c(1) by (auto simp: c_next_fst c_addr_def)
    then show ?thesis
      using Cons.IH [OF c(3)] c_next_off [of c] c Cons.prems False by (auto simp: c_addr_def)
  qed
qed

text \<open>Releasing the pages behind the reader, between a delimiter and its finalization.\<close>

lemma compact_release_ok:
  assumes "nv_log_ok s" "nv_objs s = U @ R" "at_pos at = length U" "at_page at = first_page s + at_index at"
    "\<forall>c\<in>set R. at_page at \<le> c_page c" "at_page at \<le> ctrl_page s"
    "compact_release s at saved EC_SUCCESS = (rv, s', at')" "\<not> nv_reset s'"
  obtains D where "rv = EC_SUCCESS" "nv_log_ok s'"
    "nv_objs s' = filter (\<lambda>c. at_page at \<le> c_page c) U @ R @ D"
    "at_pos at' = length (filter (\<lambda>c. at_page at \<le> c_page c) U)" "at_page at' = at_page at" "at_index at' = 0"
    "first_page s' = at_page at" "ctrl_page s \<le> ctrl_page s'" "nv_frame s s'"
    "live_objects D = []" "\<forall>c\<in>set D. ctrl_page s \<le> c_page c" "saved = 0 \<Longrightarrow> D = []"
    "saved \<noteq> 0 \<Longrightarrow> D \<noteq> [] \<and> is_delimiter (last D)"
proof -
  let ?d = "place s (mk_container NN_OBJ_TRANSACTION_DEL 0 [])"
  let ?K = "filter (\<lambda>c. at_page at \<le> c_page c) U"
  define D1 where "D1 = (if saved \<noteq> 0 then [?d] else [])"
  obtain rv1 s1 where a: "(if saved \<noteq> 0 then add_delimiter s else (EC_SUCCESS, s)) = (rv1, s1)" by fastforce
  obtain s2 at2 where r: "release_pages (at_index at) s1 at = (s2, at2)" by fastforce
  have at2: "at' = at2" and fin: "(if saved \<noteq> 0 then invalidate_object s2 (page_cursor s) else (rv1, s2)) = (rv, s')"
    using assms(7) a r by (auto simp: compact_release_def Let_def finalize_delimiter_eq split: prod.splits)
  have n2: "\<not> nv_reset s2" using fin assms(8) invalidate_reset_mono [of s2 "page_cursor s" rv s'] by (auto split: if_splits)
  then have n1: "\<not> nv_reset s1" using release_pages_reset [OF r] by simp
  have s1: "rv1 = EC_SUCCESS" "nv_objs s1 = U @ R @ D1" "nv_log_ok s1" "nv_frame s s1"
    "first_page s1 = first_page s" "ctrl_page s \<le> ctrl_page s1"
    using a add_delimiter_ok [OF assms(1) _ n1, of rv1] assms(1,2) by (auto simp: D1_def split: if_splits)
  obtain off where ch: "log_chain (first_page s1, off) (U @ R @ D1) (page_cursor s1)"
    and off: "page_offset off"
    using s1(2,3) by (auto simp: nv_log_ok_def)
  have pU: "\<forall>c\<in>set U. first_page s1 \<le> c_page c" using log_chain_page_ge [OF ch] by simp
  have pR: "\<forall>c\<in>set (R @ D1). first_page s1 + at_index at \<le> c_page c"
    using assms(4,5,6) s1(5) by (auto simp: D1_def)
  have ix: "ctrl_index s1 \<le> ctrl_page s1" using nv_log_okD(3) [OF s1(3)] .
  have le: "at_index at \<le> ctrl_index s1"
    using assms(4,6) s1(5,6) ix by (simp add: first_page_def)
  have s2: "nv_objs s2 = ?K @ R @ D1" "at_pos at2 = length ?K" "at_page at2 = at_page at" "at_index at2 = 0"
    "ctrl_index s2 = ctrl_index s1 - at_index at" "page_cursor s2 = page_cursor s1"
    "first_page s2 = at_page at" "write_results s2 = write_results s1" "nv_frame s1 s2"
    using release_pages_ok [OF r s1(2) assms(3) pU pR le ix] assms(4) s1(5) by auto
  have K: "?K @ R @ D1 = filter (\<lambda>c. at_page at \<le> c_page c) (U @ R @ D1)"
    using pR assms(4) s1(5) by (auto intro!: filter_True [symmetric])
  have "at_page at \<le> fst (page_cursor s1)" "fst (first_page s1, off) \<le> at_page at"
    using assms(4,6) s1(5,6) by (simp_all add: page_cursor_def)
  from log_chain_filter [OF ch _ this(2) this(1)] off
  obtain o2 where o2: "log_chain (at_page at, o2) (?K @ R @ D1) (page_cursor s1)" "page_offset o2"
    unfolding K by auto
  have l2: "nv_log_ok s2" 
    using nv_log_okD(1) [OF s1(3)] s2 n2 o2 ix
    by (auto simp: nv_log_ok_def flash_ok_def page_cursor_def)
  show thesis
  proof (cases "saved = 0")
    case True
    then show thesis
      using that [of "[]"] fin s1 s2 l2 at2 by (auto simp: D1_def page_cursor_def dest: nv_frame_trans)
  next
    case False
    then have D1: "D1 = [?d]" and f: "invalidate_object s2 (c_addr ?d) = (rv, s')"
      using fin by (auto simp: D1_def)
    have "nv_objs s2 = (?K @ R) @ ?d # []" using s2(1) D1 by simp
    note i = invalidate_object_ok [OF l2 this f]
    have "is_live_type (container_type (erase_type ?d)) = False" by (simp add: is_live_type_def)
    then show thesis
      using that [of "[erase_type ?d]"] False s1(4,6) s2 i at2
      by (auto simp: page_cursor_def live_objects_Cons is_delimiter_def intro: nv_frame_trans)
  qed
qed

lemma get_next_object_reset: "get_next_object s at d = (rv, c, at', s') \<Longrightarrow> nv_reset s \<Longrightarrow> nv_reset s'"
  by (auto simp: get_next_object_def report_failure_def split: prod.splits if_splits)

lemma compact_loop_reset:
  "compact_loop n F s at saved = (ex, s') \<Longrightarrow> nv_reset s \<Longrightarrow> nv_reset s'"
proof (induction n arbitrary: s at saved)
  case (Suc n)
  obtain rv oc at1 s1 where g: "get_next_object s at False = (rv, oc, at1, s1)"
    by (cases "get_next_object s at False") auto
  have n1: "nv_reset s1" using get_next_object_reset [OF g Suc.prems(2)] .
  show ?case
  proof (cases oc)
    case None
    obtain rvr sr atr where "release_first_page s1 at1 = (rvr, sr, atr)" by (cases "release_first_page s1 at1") auto
    then show ?thesis using Suc.prems(1) g n1 None
      by (auto split: if_splits dest: release_first_page_reset)
  next
    case (Some ch)
    obtain rv2 s2 where v: "(if is_live_type (container_type ch)
        then save_container s1 (ch\<lparr>generation := generation ch + 1\<rparr>) else (EC_SUCCESS, s1)) = (rv2, s2)"
      by fastforce
    have n2: "nv_reset s2" using v n1 save_container_reset by (auto split: if_splits)
    obtain rv3 s3 at3 where r: "compact_release s2 at1
        (if is_live_type (container_type ch) then saved + 1 else saved) rv = (rv3, s3, at3)"
      by (cases "compact_release s2 at1 (if is_live_type (container_type ch) then saved + 1 else saved) rv") auto
    have n3: "nv_reset s3" using compact_release_reset [OF r n2] .
    show ?thesis
      using Suc.prems(1) g n1 n2 n3 Some v r Suc.IH by (auto simp: Let_def split: if_splits)
  qed
qed simp

text \<open>One object read and, when it is live, written again behind the log.\<close>

lemma compact_step:
  assumes inv: "compact_inv F C s at saved U B N"
  obtains ds c B' at1 where "B = ds @ c # B'" "get_next_object s at False = (EC_SUCCESS, Some c, at1, s)"
    "at_pos at1 = length (U @ ds @ [c])" "at_page at1 = first_page s + at_index at1"
    "at_page at1 = (if B' = [] then F else c_page (hd B'))"
    "live_objects (ds @ [c]) = live_objects [c]" "container_ok c"
    "\<forall>d\<in>set (B' @ N). at_page at1 \<le> c_page d" "at_page at1 \<le> F"
proof -
  note i = inv [unfolded compact_inv_def]
  obtain off where ch: "log_chain (first_page s, off) (U @ B @ N) (page_cursor s)"
    using i by (auto simp: nv_log_ok_def)
  then obtain m where m: "log_chain m (B @ N) (page_cursor s)" by (auto simp: log_chain_append)
  have hd: "fst m = at_page at" using m i by (cases B) (auto simp: c_addr_def)
  have ok: "\<forall>c\<in>set B. container_ok c" using log_chain_ok [OF m] by simp
  have "\<exists>c\<in>set B. \<not> skipped c" using i delimiter_not_skipped by (meson last_in_set)
  from get_next_from_found [OF ok this, of N at]
  obtain ds c B' where d: "B = ds @ c # B'" "\<forall>d\<in>set ds. skipped d" "\<not> skipped c"
    "get_next_from (B @ N) at False = (EC_SUCCESS, Some c, foldl at_advance at (ds @ [c]))" by blast
  let ?at = "foldl at_advance at (ds @ [c])"
  have "log_chain m ((ds @ [c]) @ (B' @ N)) (page_cursor s)" using m d(1) by simp
  then obtain e where e: "log_chain m (ds @ [c]) e" "log_chain e (B' @ N) (page_cursor s)"
    unfolding log_chain_append [of m "ds @ [c]"] by blast
  note f = foldl_at_advance [OF e(1), of at]
  have g: "get_next_object s at False = (EC_SUCCESS, Some c, ?at, s)"
    using i d(4) by (simp add: get_next_object_def)
  have p: "at_page ?at = first_page s + at_index ?at" using f(3) [of "first_page s"] i by simp
  have fe: "fst e = (if B' = [] then F else c_page (hd B'))"
  proof (cases B')
    case Nil
    then show ?thesis using e(1) i d(1) by (auto simp: log_chain_snoc)
  next
    case (Cons b bs)
    then show ?thesis using e(2) by (auto simp: c_addr_def)
  qed
  have q: "at_page ?at = (if B' = [] then F else c_page (hd B'))" using f(2) hd fe by simp
  have r: "\<forall>d\<in>set (B' @ N). at_page ?at \<le> c_page d"
    using log_chain_page_ge [OF e(2)] f(2) hd by auto
  have "at_page ?at \<le> F"
    unfolding q using i d(1) by (cases B') (auto intro: less_imp_le)
  then show thesis
    using that [OF d(1) g _ p q _ _ r] f(1) i ok d skipped_not_live [OF d(2)] by auto
qed

lemma compact_restore:
  assumes "nv_log_ok s" "nv_objs s = U @ B" "container_ok c" "F \<le> ctrl_page s"
    "(if is_live_type (container_type c)
      then save_container s (c\<lparr>generation := generation c + 1\<rparr>) else (EC_SUCCESS, s)) = (rv, s')"
    "\<not> nv_reset s'"
  obtains M where "rv = EC_SUCCESS" "nv_log_ok s'" "nv_objs s' = U @ B @ M" "nv_frame s s'"
    "first_page s' = first_page s" "F \<le> ctrl_page s'" "\<forall>d\<in>set M. F \<le> c_page d"
    "live_objects M = live_objects [c]" "\<not> is_live_type (container_type c) \<Longrightarrow> M = []"
proof (cases "is_live_type (container_type c)")
  case True
  let ?c = "c\<lparr>generation := generation c + 1\<rparr>"
  have s: "saveable ?c" using assms(3) True
    by (auto simp: saveable_def container_ok_def container_is_valid_def aligned_container_size_def is_live_type_def)
  have v: "save_container s ?c = (rv, s')" using assms(5) True by simp
  note k = save_container_ok [OF assms(1) s v assms(6)]
  show thesis using that [of "[place s ?c]"] k assms(2,4) True by (auto simp: live_objects_Cons)
next
  case False
  then show thesis using that [of "[]"] assms by (auto simp: live_objects_Cons)
qed

lemma compact_loop_ok:
  assumes "compact_inv F C s at saved U B N" "length B \<le> n"
    "compact_loop n F s at saved = (ex, s')" "\<not> nv_reset s'"
  shows "ex = Fallthrough EC_SUCCESS False \<and> nv_log_ok s' \<and> nv_frame s s' \<and>
    mset (nv_contents s') = mset C \<and> ends_committed (nv_objs s')"
  using assms
proof (induction n arbitrary: s at saved U B N)
  case 0
  then show ?case by (simp add: compact_inv_def)
next
  case (Suc n)
  note i = Suc.prems(1) [unfolded compact_inv_def]
  from compact_step [OF Suc.prems(1)] obtain ds c B' at1 where st:
    "B = ds @ c # B'" "get_next_object s at False = (EC_SUCCESS, Some c, at1, s)"
    "at_pos at1 = length (U @ ds @ [c])" "at_page at1 = first_page s + at_index at1"
    "at_page at1 = (if B' = [] then F else c_page (hd B'))"
    "live_objects (ds @ [c]) = live_objects [c]" "container_ok c"
    "\<forall>d\<in>set (B' @ N). at_page at1 \<le> c_page d" "at_page at1 \<le> F" by blast
  let ?U = "U @ ds @ [c]"
  define sv where "sv = (if is_live_type (container_type c) then saved + 1 else saved)"
  obtain rv2 s2 where v: "(if is_live_type (container_type c)
      then save_container s (c\<lparr>generation := generation c + 1\<rparr>) else (EC_SUCCESS, s)) = (rv2, s2)"
    by fastforce
  obtain rv3 s3 at3 where r: "compact_release s2 at1 sv EC_SUCCESS = (rv3, s3, at3)"
    by (cases "compact_release s2 at1 sv EC_SUCCESS") auto
  have run: "(ex, s') = (if rv2 \<noteq> EC_SUCCESS then (Return EC_ERROR_INVAL, s2)
      else if at_index at1 \<noteq> 0
           then if at_page at3 \<noteq> F then compact_loop n F s3 at3 0 else (Fallthrough rv3 False, s3)
           else if at_page at1 \<noteq> F then compact_loop n F s2 at1 sv else (Fallthrough EC_SUCCESS True, s2))"
    using Suc.prems(3) unfolding compact_loop.simps st(2) prod.case option.case v sv_def [symmetric] Let_def r
    by (simp split: if_splits)
  have n2: "\<not> nv_reset s2"
    using run Suc.prems(4) compact_release_reset [OF r] compact_loop_reset [of n F _ _ _ ex s']
    by (auto split: if_splits)
  have o: "nv_objs s = ?U @ (B' @ N)" "nv_log_ok s" "F \<le> ctrl_page s" using i st(1) by auto
  from compact_restore [OF o(2,1) st(7) o(3) v n2] obtain M where M:
    "rv2 = EC_SUCCESS" "nv_log_ok s2" "nv_objs s2 = ?U @ (B' @ N @ M)" "nv_frame s s2"
    "first_page s2 = first_page s" "F \<le> ctrl_page s2" "\<forall>d\<in>set M. F \<le> c_page d"
    "live_objects M = live_objects [c]" "\<not> is_live_type (container_type c) \<Longrightarrow> M = []"
    by auto
  have "live_objects B = live_objects (ds @ [c]) @ live_objects B'"
    by (subst live_objects_append [symmetric]) (simp add: st(1))
  then have C: "mset (live_objects (B' @ N @ M)) = mset C"
    using i by (simp add: st(6) M(8) ac_simps del: live_objects_append) (simp add: M(8) ac_simps)
  have B': "B' \<noteq> [] \<Longrightarrow> is_delimiter (last B') \<and> fst (c_next (last B')) = F \<and> c_page (hd B') < F"
    using i st(1) by (cases B') auto
  have lt: "at_page at1 \<noteq> F \<Longrightarrow> B' \<noteq> [] \<and> c_page (hd B') = at_page at1" using st(5) by (auto split: if_splits)
  have UB: "\<forall>d\<in>set ?U. c_page d < F" using i by (auto simp: st(1))
  have small: "length B' \<le> n" using Suc.prems(2) st(1) by simp
  show ?case
  proof (cases "at_index at1 = 0")
    case True
    then have ne: "at_page at1 \<noteq> F" using i st(4) by (cases B) auto
    have "compact_inv F C s2 at1 sv ?U B' (N @ M)"
      unfolding compact_inv_def
    proof (intro conjI)
      show "\<forall>d\<in>set (?U @ B'). c_page d < F" "\<forall>d\<in>set (N @ M). F \<le> c_page d"
        using i M(7) by (auto simp: st(1))
      show "sv = 0 \<longrightarrow> ends_committed (N @ M)" using i M(9) by (auto simp: sv_def)
      show "at_page at1 = first_page s2" using st(4) M(5) True by simp
    qed (use M(2,3,6) st(3) True B' lt [OF ne] C in simp_all)
    from Suc.IH [OF this small _ Suc.prems(4)] run True ne M(1,4) show ?thesis
      by (auto intro: nv_frame_trans)
  next
    case False
    have n3: "\<not> nv_reset s3"
      using run Suc.prems(4) False M(1) compact_loop_reset [of n F s3 at3 0 ex s'] by (auto split: if_splits)
    have R: "\<forall>d\<in>set (B' @ N @ M). at_page at1 \<le> c_page d" "at_page at1 \<le> ctrl_page s2"
      "at_page at1 = first_page s2 + at_index at1"
      using st(4,8,9) M(5,6,7) by auto
    from compact_release_ok [OF M(2,3) st(3) R(3,1,2) r n3] obtain D where D:
      "rv3 = EC_SUCCESS" "nv_log_ok s3"
      "nv_objs s3 = filter (\<lambda>c. at_page at1 \<le> c_page c) ?U @ (B' @ N @ M) @ D"
      "at_pos at3 = length (filter (\<lambda>c. at_page at1 \<le> c_page c) ?U)" "at_page at3 = at_page at1"
      "at_index at3 = 0" "first_page s3 = at_page at1" "ctrl_page s2 \<le> ctrl_page s3" "nv_frame s2 s3"
      "live_objects D = []" "\<forall>c\<in>set D. ctrl_page s2 \<le> c_page c" "sv = 0 \<Longrightarrow> D = []"
      "sv \<noteq> 0 \<Longrightarrow> D \<noteq> [] \<and> is_delimiter (last D)"
      by metis
    let ?K = "filter (\<lambda>c. at_page at1 \<le> c_page c) ?U"
    have ec: "ends_committed (N @ M @ D)"
      using D(12,13) M(9) i sv_def by (cases "D = []") (auto simp: ends_committed_def split: if_splits)
    show ?thesis
    proof (cases "at_page at1 = F")
      case True
      then have "B' = []" using st(5) B' by (auto split: if_splits)
      moreover have "?K = []" using UB True by (simp add: filter_empty_conv not_le ball_Un)
      ultimately show ?thesis
        using run False True D M(1,4) C ec by (auto simp: nv_contents_def intro: nv_frame_trans)
    next
      case ne: False
      have "compact_inv F C s3 at3 0 ?K B' (N @ M @ D)"
        unfolding compact_inv_def
      proof (intro conjI)
        show "\<forall>d\<in>set (?K @ B'). c_page d < F" using i by (auto simp: st(1))
        show "\<forall>d\<in>set (N @ M @ D). F \<le> c_page d" using i M(6,7) D(11) by fastforce
      qed (use D(2-8,10) M(6) B' lt [OF ne] C ec in simp_all)
      from Suc.IH [OF this small _ Suc.prems(4)] run False ne M(1,4) D(5,9) show ?thesis
        by (auto intro: nv_frame_trans)
    qed
  qed
qed

lemma compact_loop_empty:
  "nv_objs s = [] \<Longrightarrow> compact_loop (Suc n) F s (at_start s) saved = (Return EC_SUCCESS, s)"
  by (simp add: get_next_object_def at_start_def)

text \<open>Filling the current page puts the fence at the start of a fresh page.\<close>

lemma fill_size:
  assumes "page_offset off" "off \<noteq> PAGE_HEADER_SIZE" "2 * CONTAINER_SIZE \<le> CONFIG_FLASH_BANK_SIZE - off"
  shows "aligned_container_size (mk_container ty g
           (replicate (CONFIG_FLASH_BANK_SIZE - off - 2 * CONTAINER_SIZE) x)) = CONFIG_FLASH_BANK_SIZE - off - CONTAINER_SIZE"
proof -
  obtain k where "off = 4 * k" using assms(1) by (auto simp: page_offset_def)
  then show ?thesis using assms by (simp add: aligned_container_size_def mk_container_def flash_sizes page_offset_def)
     presburger
qed

lemma add_final_delimiter_reset: "add_final_delimiter s = (rv, s') \<Longrightarrow> nv_reset s \<Longrightarrow> nv_reset s'"
  by (auto simp: add_final_delimiter_def Let_def finalize_delimiter_eq
      split: prod.splits if_splits dest: add_delimiter_reset invalidate_reset_mono)

lemma compact_fill_page_ok:
  assumes "nv_log_ok s" "ends_committed (nv_objs s)" "ctrl_index s + 1 < page_count s"
    "\<not> nv_reset (compact_fill_page s)"
  shows "nv_log_ok (compact_fill_page s)" "nv_frame s (compact_fill_page s)"
    "nv_contents (compact_fill_page s) = nv_contents s" "ends_committed (nv_objs (compact_fill_page s))"
    "ctrl_off (compact_fill_page s) = PAGE_HEADER_SIZE"
proof -
  note off = nv_log_okD(4,5) [OF assms(1)]
  let ?P = "\<lambda>s'. nv_log_ok s' \<and> nv_frame s s' \<and> nv_contents s' = nv_contents s \<and>
      ends_committed (nv_objs s') \<and> ctrl_off s' = PAGE_HEADER_SIZE"
  have last: "?P (snd (add_final_delimiter t))"
    if t: "nv_log_ok t" "nv_frame s t" "nv_contents t = nv_contents s" "ctrl_off t = CONFIG_FLASH_BANK_SIZE - CONTAINER_SIZE"
      "\<not> nv_reset (snd (add_final_delimiter t))" for t
  proof -
    obtain rv s' where a: "add_final_delimiter t = (rv, s')" by fastforce
    have d: "aligned_container_size (mk_container NN_OBJ_TRANSACTION_DEL 0 []) = CONTAINER_SIZE"
      by (simp add: aligned_container_size_def mk_container_def flash_sizes)
    note k = add_final_delimiter_ok [OF t(1) a]
    have "snd (c_next (place t (mk_container NN_OBJ_TRANSACTION_DEL 0 []))) = PAGE_HEADER_SIZE"
      using t(4) by (simp add: c_next_def reaches_page_end_def d flash_sizes)
    then show ?thesis using k t a
      by (auto simp: nv_contents_def live_objects_Cons is_live_type_def is_delimiter_def page_cursor_def
          prod_eq_iff intro: nv_frame_trans)
  qed
  have "?P (compact_fill_page s)"
  proof (cases "ctrl_off s = PAGE_HEADER_SIZE")
    case True
    then show ?thesis using assms by (simp add: compact_fill_page_def)
  next
    case ne: False
    show ?thesis
    proof (cases "2 * CONTAINER_SIZE \<le> CONFIG_FLASH_BANK_SIZE - ctrl_off s")
      case True
      let ?c = "mk_container NN_OBJ_OLD_COPY 0
        (replicate (CONFIG_FLASH_BANK_SIZE - ctrl_off s - 2 * CONTAINER_SIZE) (scratch_byte s))"
      obtain rv t where v: "save_container s ?c = (rv, t)" by fastforce
      have e: "compact_fill_page s = snd (add_final_delimiter t)"
        using ne True off assms(3) v by (simp add: compact_fill_page_def Let_def)
      obtain rv' s' where a: "add_final_delimiter t = (rv', s')" by fastforce
      have nt: "\<not> nv_reset t" using assms(4) e a add_final_delimiter_reset by auto
      note z = fill_size [OF off(1) ne True, of NN_OBJ_OLD_COPY 0 "scratch_byte s"]
      have "saveable ?c" using off(1) by (intro saveable_mk) (auto simp: page_offset_def flash_sizes)
      note k = save_container_ok [OF assms(1) this v nt]
      have "snd (c_next (place s c)) = CONFIG_FLASH_BANK_SIZE - CONTAINER_SIZE"
        if "aligned_container_size c = CONFIG_FLASH_BANK_SIZE - ctrl_off s - CONTAINER_SIZE" for c
        using that off True by (auto simp: c_next_def reaches_page_end_def flash_sizes)
      from this [OF z] have "ctrl_off t = CONFIG_FLASH_BANK_SIZE - CONTAINER_SIZE"
        using k(7) by (simp add: page_cursor_def prod_eq_iff)
      then show ?thesis unfolding e
        using last [of t] k assms(4) e by (auto simp: nv_contents_def live_objects_Cons is_live_type_def)
    next
      case False
      have "ctrl_off s = CONFIG_FLASH_BANK_SIZE - CONTAINER_SIZE"
        using False off by (auto simp: page_offset_def flash_sizes)
      moreover have "compact_fill_page s = snd (add_final_delimiter s)"
        using ne False off assms(3) by (simp add: compact_fill_page_def Let_def)
      ultimately show ?thesis using last [of s] assms by simp
    qed
  qed
  then show "nv_log_ok (compact_fill_page s)" "nv_frame s (compact_fill_page s)"
    "nv_contents (compact_fill_page s) = nv_contents s" "ends_committed (nv_objs (compact_fill_page s))"
    "ctrl_off (compact_fill_page s) = PAGE_HEADER_SIZE" by auto
qed

lemma compact_inv_start:
  assumes "nv_log_ok s" "ends_committed (nv_objs s)" "ctrl_off s = PAGE_HEADER_SIZE" "nv_objs s \<noteq> []"
  shows "compact_inv (ctrl_page s) (nv_contents s) s (at_start s) 0 [] (nv_objs s) []"
proof -
  obtain off where ch: "log_chain (first_page s, off) (nv_objs s) (page_cursor s)" "page_offset off"
    using assms(1) by (auto simp: nv_log_ok_def)
  have "c_page c < ctrl_page s" if c: "c \<in> set (nv_objs s)" for c
    using log_chain_lt(2) [OF ch(1) c] log_chain_offsets(2) [OF ch(1) _ c] ch(2) assms(3)
    by (auto simp: addr_lt_def c_addr_def page_cursor_def page_offset_def)
  moreover have "c_page (hd (nv_objs s)) = first_page s"
    using ch(1) assms(4) by (cases "nv_objs s") (auto simp: c_addr_def)
  moreover have "fst (c_next (last (nv_objs s))) = ctrl_page s"
    using ch(1) assms(4) log_chain_snoc [of _ "butlast (nv_objs s)" "last (nv_objs s)"]
    by (auto simp: page_cursor_def)
  ultimately show ?thesis
    using assms by (auto simp: compact_inv_def at_start_def nv_contents_def ends_committed_def)
qed

text \<open>With a spare page and no write error, compaction keeps the contents.\<close>

lemma compact_nvmem_ok:
  assumes "nv_log_ok s" "ends_committed (nv_objs s)" "ctrl_index s + 1 < page_count s"
    "compact_nvmem s = (rv, s')" "\<not> nv_reset s'"
  shows "rv = EC_SUCCESS \<and> nv_log_ok s' \<and> nv_frame s s' \<and>
    mset (nv_contents s') = mset (nv_contents s) \<and> ends_committed (nv_objs s')"
proof -
  let ?s1 = "compact_fill_page s"
  obtain ex s2 where l: "compact_loop (length (nv_objs ?s1) + 1) (ctrl_page ?s1) ?s1 (at_start ?s1) 0 = (ex, s2)"
    by fastforce
  have n2: "\<not> nv_reset s2"
    using assms(4,5) l add_final_delimiter_reset
    by (fastforce simp: compact_nvmem_def Let_def split: compact_exit.splits if_splits)
  then have n1: "\<not> nv_reset ?s1" using compact_loop_reset [OF l] by blast
  note f = compact_fill_page_ok [OF assms(1-3) n1]
  show ?thesis
  proof (cases "nv_objs ?s1 = []")
    case True
    then show ?thesis
      using assms(4) l compact_loop_empty [OF True] f True by (simp add: compact_nvmem_def Let_def del: compact_loop.simps)
  next
    case False
    have "ex = Fallthrough EC_SUCCESS False \<and> nv_log_ok s2 \<and> nv_frame ?s1 s2 \<and>
        mset (nv_contents s2) = mset (nv_contents ?s1) \<and> ends_committed (nv_objs s2)"
      by (rule compact_loop_ok [OF compact_inv_start [OF f(1,4,5) False] _ l n2]) simp
    then show ?thesis using assms(4) l f by (auto simp: compact_nvmem_def Let_def intro: nv_frame_trans)
  qed
qed

end
