(* ===== verification/Nv_Vars.thy ===== *)
theory Nv_Vars
  imports Nv_Flash
begin

text \<open>
  The (key, value) variables kept in the flash object log: \<open>getvar\<close> and \<open>setvar\<close>
  of \<open>src/common/new_nvmem.c\<close> with \<open>find_var\<close> and \<open>save_var\<close>.  A variable
  is a container of type \<open>NN_OBJ_TUPLE\<close> whose payload is \<open>struct tuple\<close> (key length,
  value length, flags) followed by the key and the value.

  The interface \<open>kv_store\<close> states what the users of the variables (CCD configuration,
  PinWeaver) rely on; it is interpreted on the functions below.
\<close>

section \<open>Tuples\<close>

definition MAX_VAR_TOTAL_SPACE :: nat where "MAX_VAR_TOTAL_SPACE = 1000"
definition MAX_VAR_BODY_SPACE :: nat where "MAX_VAR_BODY_SPACE = 300"
definition TUPLE_HEADER_SIZE :: nat where "TUPLE_HEADER_SIZE = 3"

definition tuple_body :: "u8 \<Rightarrow> bytes \<Rightarrow> bytes \<Rightarrow> bytes" where
  "tuple_body flags key val = [of_nat (length key), of_nat (length val), flags] @ key @ val"

definition tuple_key_len :: "bytes \<Rightarrow> nat" where "tuple_key_len b = unat (b ! 0)"
definition tuple_val_len :: "bytes \<Rightarrow> nat" where "tuple_val_len b = unat (b ! 1)"
definition tuple_flags :: "bytes \<Rightarrow> u8" where "tuple_flags b = b ! 2"

definition tuple_key :: "bytes \<Rightarrow> bytes" where
  "tuple_key b = take (tuple_key_len b) (drop TUPLE_HEADER_SIZE b)"

definition tuple_val :: "bytes \<Rightarrow> bytes" where
  "tuple_val b = take (tuple_val_len b) (drop (TUPLE_HEADER_SIZE + tuple_key_len b) b)"

definition tuple_ok :: "bytes \<Rightarrow> bool" where
  "tuple_ok b \<longleftrightarrow> TUPLE_HEADER_SIZE \<le> length b \<and>
     tuple_key_len b + tuple_val_len b + TUPLE_HEADER_SIZE = length b"

definition var_matches :: "bytes \<Rightarrow> nn_container \<Rightarrow> bool" where
  "var_matches key c \<longleftrightarrow>
     container_type c = NN_OBJ_TUPLE \<and> tuple_ok (body c) \<and>
     length key = tuple_key_len (body c) \<and> key = tuple_key (body c)"

section \<open>Looking a variable up\<close>

lemma get_next_from_pos:
  "get_next_from cs at d = (rv, Some c, at') \<Longrightarrow> at_pos at < at_pos at' \<and> at_pos at' \<le> at_pos at + length cs"
proof (induction cs arbitrary: at d)
  case (Cons x xs)
  from Cons.prems consider "c = x" "at' = at_advance at x"
    | d' where "get_next_from xs (at_advance at x) d' = (rv, Some c, at')"
    by (auto simp: get_next_from.simps Let_def split: if_splits)
  then show ?case using Cons.IH [of "at_advance at x"] by cases fastforce+
qed simp

lemma get_next_object_pos:
  assumes "get_next_object s at d = (rv, Some c, at', s')"
  shows "nv_objs s' = nv_objs s" "at_pos at < at_pos at'" "at_pos at' \<le> length (nv_objs s)"
proof -
  obtain at1 where g: "get_next_from (drop (at_pos at) (nv_objs s)) at d = (rv, Some c, at')"
    and s: "nv_objs s' = nv_objs s"
    using assms by (auto simp: get_next_object_def report_failure_def split: prod.splits if_splits)
  show "nv_objs s' = nv_objs s" by (rule s)
  show "at_pos at < at_pos at'" using get_next_from_pos [OF g] by simp
  have "drop (at_pos at) (nv_objs s) \<noteq> []" using g by auto
  then show "at_pos at' \<le> length (nv_objs s)" using get_next_from_pos [OF g] by auto
qed

lemma get_next_object_measure:
  "(rv, Some c, at', s') = get_next_object s at d \<Longrightarrow>
     length (nv_objs s') - at_pos at' < length (nv_objs s) - at_pos at"
  using get_next_object_pos [of s at d rv c at' s'] by auto

function find_var_loop ::
  "nv_state \<Rightarrow> bytes \<Rightarrow> access_tracker \<Rightarrow> nn_container option \<times> access_tracker \<times> nv_state" where
  "find_var_loop s key at =
     (case get_next_object s at False of (rv, oc, at1, s1) \<Rightarrow>
        case oc of
          None \<Rightarrow> (None, at1, s1)
        | Some c \<Rightarrow> if var_matches key c then (Some c, at1, s1) else find_var_loop s1 key at1)"
  by pat_completeness auto
termination
  by (relation "measure (\<lambda>(s, key, at). length (nv_objs s) - at_pos at)")
     (auto dest: get_next_object_measure)

declare find_var_loop.simps [simp del]

definition find_var :: "nv_state \<Rightarrow> bytes \<Rightarrow> nn_container option \<times> access_tracker \<times> nv_state" where
  "find_var s key = find_var_loop s key (at_start s)"

section \<open>The variable interface\<close>

definition getvar :: "nv_state \<Rightarrow> bytes \<Rightarrow> bytes option" where
  "getvar s key =
     (if \<not> crypto_enabled s then None
      else if key = [] then None
      else case find_var s key of
             (None, at, s1) \<Rightarrow> None
           | (Some vc, at, s1) \<Rightarrow> Some (tuple_val (body vc)))"

definition save_var ::
  "nv_state \<Rightarrow> bytes \<Rightarrow> bytes \<Rightarrow> nn_container option \<Rightarrow> ec_error \<times> nv_state" where
  "save_var s key val vc =
     (let gen = (case vc of None \<Rightarrow> 0 | Some c \<Rightarrow> generation c);
          flags = (case vc of None \<Rightarrow> scratch_byte s | Some c \<Rightarrow> tuple_flags (body c))
      in case save_container s (mk_container NN_OBJ_TUPLE gen (tuple_body flags key val)) of
        (rv, s1) \<Rightarrow>
          if rv = EC_SUCCESS
          then (rv, s1\<lparr>total_var_space := total_var_space s1 + of_nat (length key + length val)\<rparr>)
          else (rv, s1))"

definition setvar_erase :: "nv_state \<Rightarrow> bytes \<Rightarrow> ec_error \<times> nv_state" where
  "setvar_erase s key =
     (case find_var s key of
        (None, at, s1) \<Rightarrow> (EC_SUCCESS, s1)
      | (Some vc, at, s1) \<Rightarrow>
          (case invalidate_object s1 (at_ct at) of (rv, s2) \<Rightarrow>
             if rv = EC_SUCCESS
             then (rv, s2\<lparr>total_var_space := total_var_space s2 -
                            of_nat (tuple_key_len (body vc) + tuple_val_len (body vc))\<rparr>)
             else (rv, s2)))"

definition setvar_update ::
  "nv_state \<Rightarrow> bytes \<Rightarrow> bytes \<Rightarrow> nn_container \<Rightarrow> nv_addr \<Rightarrow> nat \<Rightarrow> ec_error \<times> nv_state" where
  "setvar_update s key val vc ct old_var_space =
     (case save_var s key val (Some (vc\<lparr>generation := generation vc + 1\<rparr>)) of (rv, s1) \<Rightarrow>
        (let del = page_cursor s1
         in if rv \<noteq> EC_SUCCESS then (rv, s1)
            else case add_delimiter s1 of (rv, s2) \<Rightarrow>
              if rv \<noteq> EC_SUCCESS then (rv, s2)
              else case invalidate_object s2 ct of (rv, s3) \<Rightarrow>
                if rv \<noteq> EC_SUCCESS then (rv, s3)
                else (rv, snd (finalize_delimiter
                       (s3\<lparr>total_var_space := total_var_space s3 - of_nat old_var_space\<rparr>) del))))"

definition setvar_store :: "nv_state \<Rightarrow> bytes \<Rightarrow> bytes \<Rightarrow> ec_error \<times> nv_state" where
  "setvar_store s key val =
     (let new_var_space = length key + length val
      in case find_var s key of
           (None, at, s1) \<Rightarrow>
             (if new_var_space + unat (total_var_space s1) > MAX_VAR_TOTAL_SPACE
              then (EC_ERROR_OVERFLOW, s1)
              else case save_var s1 key val None of (rv, s2) \<Rightarrow>
                     if rv = EC_SUCCESS then add_final_delimiter s2 else (rv, s2))
         | (Some vc, at, s1) \<Rightarrow>
             (let old_var_space = tuple_val_len (body vc) + tuple_key_len (body vc)
              in if tuple_val (body vc) = val then (EC_SUCCESS, s1)
                 else if old_var_space < new_var_space \<and>
                         unat (total_var_space s1) + new_var_space - old_var_space > MAX_VAR_TOTAL_SPACE
                 then (EC_ERROR_OVERFLOW, s1)
                 else setvar_update s1 key val vc (at_ct at) old_var_space))"

text \<open>\<open>setvar_\<close>: the checks, the compaction step, then erasing or storing.\<close>

definition setvar_locked :: "nv_state \<Rightarrow> bytes \<Rightarrow> bytes \<Rightarrow> ec_error \<times> nv_state" where
  "setvar_locked s key val =
     (if key = [] then (EC_ERROR_INVAL, s)
      else if length key + length val > MAX_VAR_BODY_SPACE then (EC_ERROR_INVAL, s)
      else
        (let erase_request = (val = [])
         in case (if \<not> erase_request \<and> compaction_needed s then compact_nvmem s else (EC_SUCCESS, s)) of
              (rv, s1) \<Rightarrow>
                if rv \<noteq> EC_SUCCESS then (rv, s1)
                else if erase_request then setvar_erase s1 key
                else setvar_store s1 key val))"

definition setvar :: "nv_state \<Rightarrow> bytes \<Rightarrow> bytes \<Rightarrow> ec_error \<times> nv_state" where
  "setvar s key val =
     (if \<not> crypto_enabled s then (EC_ERROR_INVAL, s) else setvar_locked s key val)"

section \<open>What the log holds as a map\<close>

definition var_bodies :: "(nn_object_type \<times> bytes) list \<Rightarrow> bytes list" where
  "var_bodies C = map snd (filter (\<lambda>p. fst p = NN_OBJ_TUPLE) C)"

definition var_space :: "bytes \<Rightarrow> nat" where
  "var_space b = tuple_key_len b + tuple_val_len b"

definition var_entries :: "(nn_object_type \<times> bytes) list \<Rightarrow> (bytes \<times> bytes) list" where
  "var_entries C = map (\<lambda>b. (tuple_key b, tuple_val b)) (var_bodies C)"

definition nv_var_map :: "nv_state \<Rightarrow> bytes \<Rightarrow> bytes option" where
  "nv_var_map s = map_of (var_entries (nv_contents s))"

definition contents_ok :: "(nn_object_type \<times> bytes) list \<Rightarrow> bool" where
  "contents_ok C \<longleftrightarrow> (\<forall>b\<in>set (var_bodies C). tuple_ok b \<and> tuple_key b \<noteq> []) \<and>
     distinct (map fst (var_entries C)) \<and> sum_list (map var_space (var_bodies C)) \<le> MAX_VAR_TOTAL_SPACE"

definition nv_vars_ok :: "nv_state \<Rightarrow> bool" where
  "nv_vars_ok s \<longleftrightarrow> nv_log_ok s \<and> ends_committed (nv_objs s) \<and> contents_ok (nv_contents s) \<and>
     unat (total_var_space s) = sum_list (map var_space (var_bodies (nv_contents s)))"

text \<open>A spare page is at hand whenever the next update starts with a compaction.\<close>

definition nv_ready :: "nv_state \<Rightarrow> bool" where
  "nv_ready s \<longleftrightarrow> nv_vars_ok s \<and> crypto_enabled s \<and>
     (compaction_needed s \<longrightarrow> ctrl_index s + 1 < page_count s)"

definition bounded_var :: "bytes \<Rightarrow> bytes \<Rightarrow> bool" where
  "bounded_var key val \<longleftrightarrow> length key < 256 \<and> length val < 256"

section \<open>The search finds the first matching container\<close>

lemma var_matches_not_skipped: "var_matches key c \<Longrightarrow> \<not> skipped c"
  by (auto simp: var_matches_def skipped_def)

lemma get_next_from_ex:
  assumes "\<forall>c\<in>set cs. container_ok c" "\<exists>c\<in>set cs. \<not> skipped c"
  shows "\<exists>ds c cs'. cs = ds @ c # cs' \<and> (\<forall>d\<in>set ds. skipped d) \<and>
    get_next_from cs at False = (EC_SUCCESS, Some c, foldl at_advance at (ds @ [c]))"
  by (rule get_next_from_found [OF assms, of "[]" at]) auto

lemma nv_log_ok_container: "nv_log_ok s \<Longrightarrow> c \<in> set (nv_objs s) \<Longrightarrow> container_ok c"
  by (auto simp: nv_log_ok_def dest: log_chain_ok)

lemma foldl_at_pos: "at_pos (foldl at_advance at cs) = at_pos at + length cs"
  by (induction cs arbitrary: at) auto

lemma find_var_loop_none:
  assumes "nv_log_ok s" "\<forall>c\<in>set (drop (at_pos at) (nv_objs s)). \<not> var_matches key c"
  shows "\<exists>at'. find_var_loop s key at = (None, at', s)"
  using assms(2)
proof (induction "length (nv_objs s) - at_pos at" arbitrary: at rule: less_induct)
  case less
  let ?R = "drop (at_pos at) (nv_objs s)"
  have ok: "\<forall>c\<in>set ?R. container_ok c"
    using nv_log_ok_container [OF assms(1)] by (auto dest: in_set_dropD)
  show ?case
  proof (cases "\<exists>c\<in>set ?R. \<not> skipped c")
    case False
    then have "get_next_object s at False = (EC_ERROR_MEMORY_ALLOCATION, None, foldl at_advance at ?R, s)"
      using get_next_from_all_skipped [of ?R at] ok by (simp add: get_next_object_def)
    then show ?thesis by (simp add: find_var_loop.simps [of s])
  next
    case True
    from get_next_from_ex [OF ok True, of at] obtain ds c cs where d: "?R = ds @ c # cs"
      "get_next_from ?R at False = (EC_SUCCESS, Some c, foldl at_advance at (ds @ [c]))" by blast
    let ?at = "foldl at_advance at (ds @ [c])"
    have g: "get_next_object s at False = (EC_SUCCESS, Some c, ?at, s)"
      using d(2) by (simp add: get_next_object_def)
    have p: "at_pos ?at = at_pos at + length (ds @ [c])"
      using foldl_at_pos by blast
    have dr: "drop (at_pos ?at) (nv_objs s) = cs"
      using d(1) by (metis (no_types) p add.commute append.assoc append_Cons append_Nil append_eq_conv_conj drop_drop)
    have "\<exists>at'. find_var_loop s key ?at = (None, at', s)"
      using less.hyps [of ?at] get_next_object_measure [OF g [symmetric]] less.prems d(1) dr by simp
    moreover have "\<not> var_matches key c" using less.prems d(1) by simp
    ultimately show ?thesis by (simp add: find_var_loop.simps [of s key at] g)
  qed
qed

lemma find_var_loop_some:
  assumes "nv_log_ok s" "drop (at_pos at) (nv_objs s) = xs @ c # ys"
    "\<forall>d\<in>set xs. \<not> var_matches key d" "var_matches key c"
  shows "\<exists>at'. find_var_loop s key at = (Some c, at', s) \<and> at_ct at' = c_addr c"
  using assms(2,3)
proof (induction "length (nv_objs s) - at_pos at" arbitrary: at xs rule: less_induct)
  case less
  let ?R = "drop (at_pos at) (nv_objs s)"
  have ok: "\<forall>c\<in>set ?R. container_ok c"
    using nv_log_ok_container [OF assms(1)] by (auto dest: in_set_dropD)
  have "\<exists>c\<in>set ?R. \<not> skipped c" using less.prems(1) var_matches_not_skipped [OF assms(4)] by auto
  from get_next_from_ex [OF ok this, of at] obtain ds e cs where d: "?R = ds @ e # cs"
    "\<forall>d\<in>set ds. skipped d"
    "get_next_from ?R at False = (EC_SUCCESS, Some e, foldl at_advance at (ds @ [e]))" by blast
  let ?at = "foldl at_advance at (ds @ [e])"
  have g: "get_next_object s at False = (EC_SUCCESS, Some e, ?at, s)"
    using d(3) by (simp add: get_next_object_def)
  show ?case
  proof (cases "length ds < length xs")
    case False
    have "length ds = length xs"
    proof (rule ccontr)
      assume "length ds \<noteq> length xs"
      then have "ds ! length xs = c" "length xs < length ds" using False less.prems(1) d(1)
        by (metis append_eq_conv_conj linorder_neqE_nat nth_append nth_append_length)+
      then show False using d(2) var_matches_not_skipped [OF assms(4)] nth_mem by metis
    qed
    then have "e = c" using less.prems(1) d(1) by simp
    then show ?thesis using assms(4) by (simp add: find_var_loop.simps [of s key at] g)
  next
    case True
    have p: "at_pos ?at = at_pos at + length (ds @ [e])" using foldl_at_pos by blast
    have dr: "drop (at_pos ?at) (nv_objs s) = drop (length (ds @ [e])) xs @ c # ys"
      using less.prems(1) True p by (metis Suc_leI add.commute append_eq_conv_conj drop_append drop_drop diff_is_0_eq' drop0 length_append_singleton)
    have "e \<in> set xs" using True less.prems(1) d(1) by (metis nth_append nth_append_length nth_mem)
    moreover have "\<exists>at'. find_var_loop s key ?at = (Some c, at', s) \<and> at_ct at' = c_addr c"
      using less.hyps [OF _ dr] get_next_object_measure [OF g [symmetric]] less.prems(2)
      by (auto dest: in_set_dropD)
    ultimately show ?thesis using less.prems(2) by (simp add: find_var_loop.simps [of s key at] g)
  qed
qed

section \<open>Tuples as entries\<close>

lemma tuple_body_simps:
  assumes "bounded_var key val"
  shows "tuple_ok (tuple_body f key val)" "tuple_key (tuple_body f key val) = key"
    "tuple_val (tuple_body f key val) = val" "var_space (tuple_body f key val) = length key + length val"
    "length (tuple_body f key val) = TUPLE_HEADER_SIZE + length key + length val"
proof -
  have u: "unat (of_nat (length key) :: u8) = length key" "unat (of_nat (length val) :: u8) = length val"
    using assms by (simp_all add: bounded_var_def unat_of_nat)
  show "tuple_ok (tuple_body f key val)" "tuple_key (tuple_body f key val) = key"
    "tuple_val (tuple_body f key val) = val" "var_space (tuple_body f key val) = length key + length val"
    "length (tuple_body f key val) = TUPLE_HEADER_SIZE + length key + length val"
    using u by (simp_all add: tuple_body_def tuple_ok_def tuple_key_def tuple_val_def tuple_key_len_def
        tuple_val_len_def var_space_def TUPLE_HEADER_SIZE_def numeral_3_eq_3)
qed

lemma var_bodies_simps [simp]:
  "var_bodies (C @ D) = var_bodies C @ var_bodies D" "var_bodies [] = []"
  "var_bodies ((NN_OBJ_TUPLE, b) # C) = b # var_bodies C"
  by (simp_all add: var_bodies_def)

lemma var_entries_simps [simp]:
  "var_entries (C @ D) = var_entries C @ var_entries D" "var_entries [] = []"
  "var_entries ((NN_OBJ_TUPLE, b) # C) = (tuple_key b, tuple_val b) # var_entries C"
  by (simp_all add: var_entries_def)

lemma tuple_key_length: "tuple_ok b \<Longrightarrow> length (tuple_key b) = tuple_key_len b"
  by (auto simp: tuple_ok_def tuple_key_def)

lemma var_matches_iff:
  "var_matches key c \<longleftrightarrow> container_type c = NN_OBJ_TUPLE \<and> tuple_ok (body c) \<and> key = tuple_key (body c)"
  by (auto simp: var_matches_def tuple_key_length)

lemma no_match_entries:
  assumes "\<forall>b\<in>set (var_bodies (live_objects cs)). tuple_ok b" "\<forall>c\<in>set cs. \<not> var_matches key c"
  shows "key \<notin> fst ` set (var_entries (live_objects cs))"
  using assms
proof (induction cs)
  case (Cons c cs)
  then show ?case
    by (cases "container_type c = NN_OBJ_TUPLE")
       (auto simp: live_objects_Cons is_live_type_def var_matches_iff var_entries_def var_bodies_def
         split: if_splits)
qed simp

text \<open>The two outcomes of a search.\<close>

lemma find_var_cases:
  assumes "nv_log_ok s"
  obtains (absent) at where "find_var s key = (None, at, s)" "\<forall>c\<in>set (nv_objs s). \<not> var_matches key c"
  | (present) xs c ys at where "nv_objs s = xs @ c # ys" "var_matches key c" "\<forall>d\<in>set xs. \<not> var_matches key d"
      "find_var s key = (Some c, at, s)" "at_ct at = c_addr c"
proof (cases "\<exists>c\<in>set (nv_objs s). var_matches key c")
  case True
  obtain xs c ys where x: "nv_objs s = xs @ c # ys" "var_matches key c" "\<forall>d\<in>set xs. \<not> var_matches key d"
    using split_list_first_prop [OF True] by blast
  then obtain at where "find_var s key = (Some c, at, s)" "at_ct at = c_addr c"
    using find_var_loop_some [OF assms, of "at_start s" xs c ys key] by (auto simp: find_var_def at_start_def)
  then show thesis using present x by blast
next
  case False
  then obtain at where "find_var s key = (None, at, s)"
    using find_var_loop_none [OF assms, of "at_start s" key] False by (auto simp: find_var_def at_start_def)
  then show thesis using absent False by blast
qed

lemma live_objects_match:
  "var_matches key c \<Longrightarrow> live_objects (c # ys) = (NN_OBJ_TUPLE, body c) # live_objects ys"
  by (simp add: live_objects_Cons var_matches_def is_live_type_def)

lemma getvar_eq_map:
  assumes "nv_vars_ok s" "crypto_enabled s"
  shows "getvar s key = nv_var_map s key"
proof -
  have ok: "\<forall>b\<in>set (var_bodies (live_objects (nv_objs s))). tuple_ok b \<and> tuple_key b \<noteq> []"
    using assms(1) by (simp add: nv_vars_ok_def contents_ok_def nv_contents_def)
  have log: "nv_log_ok s" using assms(1) by (simp add: nv_vars_ok_def)
  show ?thesis
  proof (cases "key = []")
    case True
    have "[] \<notin> fst ` set (var_entries (live_objects (nv_objs s)))" using ok by (auto simp: var_entries_def)
    then have "map_of (var_entries (live_objects (nv_objs s))) [] = None" by (simp add: map_of_eq_None_iff)
    then show ?thesis using True by (simp add: getvar_def nv_var_map_def nv_contents_def)
  next
    case False
    from log show ?thesis
    proof (cases rule: find_var_cases [of s key])
      case (absent at)
      have "map_of (var_entries (live_objects (nv_objs s))) key = None"
        using no_match_entries [OF _ absent(2)] ok by (simp add: map_of_eq_None_iff)
      then show ?thesis using absent assms(2) False by (simp add: getvar_def nv_var_map_def nv_contents_def)
    next
      case (present xs c ys at)
      have "key \<notin> fst ` set (var_entries (live_objects xs))"
        using no_match_entries [OF _ present(3)] ok present(1) by simp
      then have "map_of (var_entries (live_objects xs)) key = None" by (simp add: map_of_eq_None_iff)
      then show ?thesis using present assms(2) False
        by (simp add: getvar_def nv_var_map_def nv_contents_def live_objects_match [OF present(2)] map_add_def)
           (simp add: var_matches_iff)
    qed
  qed
qed

section \<open>How an update changes the map\<close>

lemma contents_remove:
  assumes "contents_ok (A @ (NN_OBJ_TUPLE, b) # D)"
  shows "contents_ok (A @ D)" "tuple_key b \<notin> fst ` set (var_entries (A @ D))"
    "map_of (var_entries (A @ D)) = (map_of (var_entries (A @ (NN_OBJ_TUPLE, b) # D)))(tuple_key b := None)"
proof -
  show k: "tuple_key b \<notin> fst ` set (var_entries (A @ D))" using assms by (auto simp: contents_ok_def)
  show "contents_ok (A @ D)" using assms by (auto simp: contents_ok_def)
  have "map_of (var_entries A) (tuple_key b) = None" "map_of (var_entries D) (tuple_key b) = None"
    using k by (simp_all add: map_of_eq_None_iff image_Un)
  then show "map_of (var_entries (A @ D)) = (map_of (var_entries (A @ (NN_OBJ_TUPLE, b) # D)))(tuple_key b := None)"
    by (auto simp: fun_eq_iff map_add_def split: option.splits)
qed

lemma contents_add:
  assumes "contents_ok C" "key \<notin> fst ` set (var_entries C)" "bounded_var key val" "key \<noteq> []"
    "sum_list (map var_space (var_bodies C)) + length key + length val \<le> MAX_VAR_TOTAL_SPACE"
  shows "contents_ok (C @ [(NN_OBJ_TUPLE, tuple_body f key val)])"
    "map_of (var_entries (C @ [(NN_OBJ_TUPLE, tuple_body f key val)])) = (map_of (var_entries C))(key \<mapsto> val)"
proof -
  show "contents_ok (C @ [(NN_OBJ_TUPLE, tuple_body f key val)])"
    using assms by (auto simp: contents_ok_def tuple_body_simps)
  show "map_of (var_entries (C @ [(NN_OBJ_TUPLE, tuple_body f key val)])) = (map_of (var_entries C))(key \<mapsto> val)"
    using assms(2) [folded map_of_eq_None_iff]
    by (auto simp: fun_eq_iff map_add_def tuple_body_simps [OF assms(3)] split: option.splits)
qed

lemma contents_perm:
  assumes "mset C = mset D" "contents_ok C"
  shows "contents_ok D" "map_of (var_entries D) = map_of (var_entries C)"
    "sum_list (map var_space (var_bodies D)) = sum_list (map var_space (var_bodies C))"
proof -
  have b: "mset (var_bodies C) = mset (var_bodies D)" using assms(1) by (simp add: var_bodies_def mset_filter)
  then have e: "mset (var_entries C) = mset (var_entries D)" by (simp add: var_entries_def)
  show s: "sum_list (map var_space (var_bodies D)) = sum_list (map var_space (var_bodies C))"
    using b by (metis mset_map sum_mset_sum_list)
  have d: "distinct (map fst (var_entries D))"
    using assms(2) e by (metis contents_ok_def mset_map mset_eq_imp_distinct_iff)
  show "contents_ok D"
    using assms(2) s d mset_eq_setD [OF b] by (simp add: contents_ok_def)
  show "map_of (var_entries D) = map_of (var_entries C)"
    using d assms(2) mset_eq_setD [OF e] by (intro map_of_inject_set [THEN iffD2]) (auto simp: contents_ok_def)
qed

lemma nv_vars_okD:
  assumes "nv_vars_ok s"
  shows "nv_log_ok s" "ends_committed (nv_objs s)" "contents_ok (nv_contents s)"
    "unat (total_var_space s) = sum_list (map var_space (var_bodies (nv_contents s)))"
    "unat (total_var_space s) \<le> MAX_VAR_TOTAL_SPACE"
  using assms by (auto simp: nv_vars_ok_def contents_ok_def)

lemma compact_nvmem_vars:
  assumes "nv_vars_ok s" "ctrl_index s + 1 < page_count s" "compact_nvmem s = (rv, s')" "\<not> nv_reset s'"
  shows "rv = EC_SUCCESS" "nv_vars_ok s'" "nv_var_map s' = nv_var_map s" "crypto_enabled s' = crypto_enabled s"
proof -
  note d = nv_vars_okD [OF assms(1)]
  note k = compact_nvmem_ok [OF d(1,2) assms(2-4)]
  then have m: "mset (nv_contents s) = mset (nv_contents s')" by simp
  note p = contents_perm [OF m d(3)]
  show "rv = EC_SUCCESS" "nv_vars_ok s'" "nv_var_map s' = nv_var_map s" "crypto_enabled s' = crypto_enabled s"
    using k p d by (auto simp: nv_vars_ok_def nv_frame_def nv_var_map_def)
qed

lemma setvar_erase_ok:
  assumes "nv_vars_ok s" "setvar_erase s key = (rv, s')"
  shows "rv = EC_SUCCESS" "nv_vars_ok s'" "nv_var_map s' = (nv_var_map s)(key := None)"
    "crypto_enabled s' = crypto_enabled s" "nv_reset s' = nv_reset s"
proof -
  note d = nv_vars_okD [OF assms(1)]
  have ok: "\<forall>b\<in>set (var_bodies (live_objects (nv_objs s))). tuple_ok b"
    using d(3) by (simp add: contents_ok_def nv_contents_def)
  have "rv = EC_SUCCESS \<and> nv_vars_ok s' \<and> nv_var_map s' = (nv_var_map s)(key := None) \<and>
    crypto_enabled s' = crypto_enabled s \<and> nv_reset s' = nv_reset s"
    using d(1)
  proof (cases rule: find_var_cases [of s key])
    case (absent at)
    have "map_of (var_entries (nv_contents s)) key = None"
      using no_match_entries [OF ok absent(2)] by (simp add: map_of_eq_None_iff nv_contents_def)
    then show ?thesis using assms absent by (auto simp: setvar_erase_def nv_var_map_def fun_upd_idem)
  next
    case (present xs c ys at)
    let ?A = "live_objects xs" and ?D = "live_objects ys" and ?b = "body c"
    obtain rv2 s2 where v: "invalidate_object s (c_addr c) = (rv2, s2)" by fastforce
    note i = invalidate_object_ok [OF d(1) present(1) v]
    have C: "nv_contents s = ?A @ (NN_OBJ_TUPLE, ?b) # ?D"
      using present by (simp add: nv_contents_def live_objects_match)
    have C2: "nv_contents s2 = ?A @ ?D"
      using i(2) by (simp add: nv_contents_def live_objects_Cons is_live_type_def)
    note r = contents_remove [OF d(3) [unfolded C]]
    have s': "rv = EC_SUCCESS" "s' = s2\<lparr>total_var_space := total_var_space s - of_nat (var_space ?b)\<rparr>"
      using assms(2) present v i(1,4) by (auto simp: setvar_erase_def var_space_def nv_frame_def)
    have sp: "var_space ?b \<le> unat (total_var_space s)" using d(4) by (simp add: C)
    have u: "unat (total_var_space s - of_nat (var_space ?b)) = unat (total_var_space s) - var_space ?b"
      using sp d(5) by (simp add: unat_sub word_le_nat_alt unat_of_nat MAX_VAR_TOTAL_SPACE_def)
    have "nv_log_ok s'" "nv_objs s' = nv_objs s2" using i(3) s'
      by (auto simp: nv_log_ok_def flash_ok_def first_page_def page_cursor_def)
    moreover have "ends_committed (nv_objs s2)"
      using d(2) present(1) i(2) by (cases ys rule: rev_cases) (auto simp: ends_committed_def)
    moreover have "nv_reset s' = nv_reset s"
      using nv_log_okD(2) [OF d(1)] nv_log_okD(2) [OF i(3)] s' by simp
    ultimately show ?thesis
      using r C C2 d(4) i(4) s' u present(2)
      by (auto simp: nv_vars_ok_def nv_var_map_def nv_frame_def nv_contents_def var_matches_iff)
  qed
  then show "rv = EC_SUCCESS" "nv_vars_ok s'" "nv_var_map s' = (nv_var_map s)(key := None)"
    "crypto_enabled s' = crypto_enabled s" "nv_reset s' = nv_reset s" by auto
qed

lemma nv_log_ok_space [simp]: "nv_log_ok (s\<lparr>total_var_space := n\<rparr>) = nv_log_ok s"
  by (simp add: nv_log_ok_def flash_ok_def first_page_def page_cursor_def)

lemma unat_add_space:
  assumes "unat (t :: u16) + n \<le> 2000"
  shows "unat (t + of_nat n) = unat t + n"
  using assms by (simp add: unat_word_ariths unat_of_nat)

lemma save_var_ok:
  assumes "nv_log_ok s" "bounded_var key val" "save_var s key val vc = (rv, s')" "\<not> nv_reset s'"
  obtains f where "rv = EC_SUCCESS" "nv_log_ok s'" "nv_contents s' = nv_contents s @ [(NN_OBJ_TUPLE, tuple_body f key val)]"
    "total_var_space s' = total_var_space s + of_nat (length key + length val)" "crypto_enabled s' = crypto_enabled s"
    "\<exists>c. nv_objs s' = nv_objs s @ [c] \<and> live_objects [c] = [(NN_OBJ_TUPLE, tuple_body f key val)]"
proof -
  define f where "f = (case vc of None \<Rightarrow> scratch_byte s | Some c \<Rightarrow> tuple_flags (body c))"
  define g where "g = (case vc of None \<Rightarrow> 0 | Some c \<Rightarrow> generation c)"
  obtain rv1 s1 where v: "save_container s (mk_container NN_OBJ_TUPLE g (tuple_body f key val)) = (rv1, s1)" by fastforce
  have e: "(rv, s') = (if rv1 = EC_SUCCESS
      then (rv1, s1\<lparr>total_var_space := total_var_space s1 + of_nat (length key + length val)\<rparr>) else (rv1, s1))"
    using assms(3) v by (simp add: save_var_def Let_def f_def g_def)
  have n: "\<not> nv_reset s1" using e assms(4) by (auto split: if_splits)
  have b: "length (tuple_body f key val) \<le> 2035"
    using assms(2) by (simp add: tuple_body_def bounded_var_def)
  note k = save_container_ok [OF assms(1) saveable_mk [OF b] v n]
  show thesis
    by (rule that [of f]) (use e k in \<open>auto simp: nv_contents_def live_objects_Cons is_live_type_def nv_frame_def\<close>)
qed

lemma save_var_reset: "save_var s key val vc = (rv, s') \<Longrightarrow> nv_reset s \<Longrightarrow> nv_reset s'"
  by (auto simp: save_var_def Let_def split: prod.splits if_splits dest: save_container_reset)

lemma setvar_insert_ok:
  assumes "nv_vars_ok s" "bounded_var key val" "key \<noteq> []"
    "key \<notin> fst ` set (var_entries (nv_contents s))"
    "length key + length val + unat (total_var_space s) \<le> MAX_VAR_TOTAL_SPACE"
    "save_var s key val None = (rv1, s1)"
    "(if rv1 = EC_SUCCESS then add_final_delimiter s1 else (rv1, s1)) = (rv, s')" "\<not> nv_reset s'"
  shows "rv = EC_SUCCESS \<and> nv_vars_ok s' \<and> nv_var_map s' = (nv_var_map s)(key \<mapsto> val) \<and>
    crypto_enabled s' = crypto_enabled s"
proof -
  note d = nv_vars_okD [OF assms(1)]
  have n1: "\<not> nv_reset s1" using assms(7,8) add_final_delimiter_reset [of s1 rv s'] by (auto split: if_splits)
  from save_var_ok [OF d(1) assms(2,6) n1] obtain f where f: "rv1 = EC_SUCCESS" "nv_log_ok s1"
    "nv_contents s1 = nv_contents s @ [(NN_OBJ_TUPLE, tuple_body f key val)]"
    "total_var_space s1 = total_var_space s + of_nat (length key + length val)" "crypto_enabled s1 = crypto_enabled s"
    by metis
  have a: "add_final_delimiter s1 = (rv, s')" using assms(7) f(1) by simp
  note k = add_final_delimiter_ok [OF f(2) a assms(8)]
  have c: "nv_contents s' = nv_contents s1"
    using k(2) by (simp add: nv_contents_def live_objects_Cons is_live_type_def)
  have sp: "sum_list (map var_space (var_bodies (nv_contents s))) + length key + length val \<le> MAX_VAR_TOTAL_SPACE"
    using assms(5) d(4) by simp
  note ad = contents_add [OF d(3) assms(4,2,3) sp, of f]
  have "unat (total_var_space s') = unat (total_var_space s) + (length key + length val)"
    using k(4) f(4) assms(5) unat_add_space [of "total_var_space s" "length key + length val"]
    by (simp add: nv_frame_def MAX_VAR_TOTAL_SPACE_def)
  then show ?thesis
    using k f c ad d(4) tuple_body_simps(4) [OF assms(2)]
    by (auto simp: nv_vars_ok_def nv_var_map_def nv_frame_def is_delimiter_def)
qed

lemma setvar_update_log:
  assumes "nv_log_ok s" "nv_objs s = xs @ c # ys" "bounded_var key val"
    "setvar_update s key val c (c_addr c) old = (rv, s')" "\<not> nv_reset s'"
  obtains f where "rv = EC_SUCCESS" "nv_log_ok s'" "ends_committed (nv_objs s')"
    "nv_contents s' = live_objects xs @ live_objects ys @ [(NN_OBJ_TUPLE, tuple_body f key val)]"
    "total_var_space s' = total_var_space s + of_nat (length key + length val) - of_nat old"
    "crypto_enabled s' = crypto_enabled s"
proof -
  let ?d = "\<lambda>s. place s (mk_container NN_OBJ_TRANSACTION_DEL 0 [])"
  obtain rv1 s1 where v1: "save_var s key val (Some (c\<lparr>generation := generation c + 1\<rparr>)) = (rv1, s1)" by fastforce
  obtain rv2 s2 where v2: "add_delimiter s1 = (rv2, s2)" by fastforce
  obtain rv3 s3 where v3: "invalidate_object s2 (c_addr c) = (rv3, s3)" by fastforce
  let ?s3 = "s3\<lparr>total_var_space := total_var_space s3 - of_nat old\<rparr>"
  obtain rv4 s4 where v4: "invalidate_object ?s3 (page_cursor s1) = (rv4, s4)" by fastforce
  have run: "(rv, s') = (if rv1 \<noteq> EC_SUCCESS then (rv1, s1) else if rv2 \<noteq> EC_SUCCESS then (rv2, s2)
      else if rv3 \<noteq> EC_SUCCESS then (rv3, s3) else (rv3, s4))"
    using assms(4) v1 v2 v3 v4 by (auto simp: setvar_update_def Let_def finalize_delimiter_eq split: if_splits)
  have r4: "nv_reset s3 \<Longrightarrow> nv_reset s4" using invalidate_reset_mono [OF v4] by simp
  note mono = add_delimiter_reset [OF v2] invalidate_reset_mono [OF v3] r4
  have n1: "\<not> nv_reset s1" using run assms(5) mono by (auto split: if_splits)
  from save_var_ok [OF assms(1,3) v1 n1] obtain f c' where f: "rv1 = EC_SUCCESS" "nv_log_ok s1"
    "total_var_space s1 = total_var_space s + of_nat (length key + length val)" "crypto_enabled s1 = crypto_enabled s"
    "nv_objs s1 = nv_objs s @ [c']" "live_objects [c'] = [(NN_OBJ_TUPLE, tuple_body f key val)]"
    by metis
  have n2: "\<not> nv_reset s2" using run assms(5) mono f(1) by (auto split: if_splits)
  note k2 = add_delimiter_ok [OF f(2) v2 n2]
  have o2: "nv_objs s2 = xs @ c # (ys @ [c', ?d s1])" using k2(2) f(5) assms(2) by simp
  note k3 = invalidate_object_ok [OF k2(3) o2 v3]
  have o3: "nv_objs ?s3 = (xs @ erase_type c # ys @ [c']) @ ?d s1 # []" using k3(2) by simp
  have l3: "nv_log_ok ?s3" using k3(3) by simp
  have v4': "invalidate_object ?s3 (c_addr (?d s1)) = (rv4, s4)" using v4 by simp
  note k4 = invalidate_object_ok [OF l3 o3 v4']
  have e: "rv = EC_SUCCESS" "s' = s4" using run f(1) k2(1) k3(1) by auto
  have "nv_contents s4 = live_objects xs @ live_objects ys @ live_objects [c']"
    using k4(2) by (simp add: nv_contents_def live_objects_Cons is_live_type_def)
  then show thesis
    using that [of f] e f k2(4) k3(4) k4 by (auto simp: nv_frame_def is_delimiter_def ends_committed_def)
qed

lemma setvar_replace_ok:
  assumes "nv_vars_ok s" "nv_objs s = xs @ c # ys" "var_matches key c" "bounded_var key val" "key \<noteq> []"
    "\<not> (var_space (body c) < length key + length val \<and>
        unat (total_var_space s) + (length key + length val) - var_space (body c) > MAX_VAR_TOTAL_SPACE)"
    "setvar_update s key val c (c_addr c) (var_space (body c)) = (rv, s')" "\<not> nv_reset s'"
  shows "rv = EC_SUCCESS \<and> nv_vars_ok s' \<and> nv_var_map s' = (nv_var_map s)(key \<mapsto> val) \<and>
    crypto_enabled s' = crypto_enabled s"
proof -
  note d = nv_vars_okD [OF assms(1)]
  let ?A = "live_objects xs" and ?D = "live_objects ys" and ?b = "body c"
  from setvar_update_log [OF d(1) assms(2,4,7,8)] obtain f where f: "rv = EC_SUCCESS" "nv_log_ok s'"
    "ends_committed (nv_objs s')"
    "nv_contents s' = (?A @ ?D) @ [(NN_OBJ_TUPLE, tuple_body f key val)]"
    "total_var_space s' = total_var_space s + of_nat (length key + length val) - of_nat (var_space ?b)"
    "crypto_enabled s' = crypto_enabled s"
    by (metis append.assoc)
  have C: "nv_contents s = ?A @ (NN_OBJ_TUPLE, ?b) # ?D"
    using assms(2) by (simp add: nv_contents_def live_objects_match [OF assms(3)])
  note r = contents_remove [OF d(3) [unfolded C]]
  have key: "tuple_key ?b = key" using assms(3) by (simp add: var_matches_iff)
  let ?n = "sum_list (map var_space (var_bodies (?A @ ?D)))"
  have tot: "unat (total_var_space s) = ?n + var_space ?b" using d(4) by (simp add: C)
  have le: "?n + length key + length val \<le> MAX_VAR_TOTAL_SPACE"
    using tot assms(6) d(5) by linarith
  note a = contents_add [OF r(1) r(2) [unfolded key] assms(4,5) le, of f]
  have "unat (total_var_space s + of_nat (length key + length val)) = ?n + var_space ?b + (length key + length val)"
    using tot le d(5) assms(4) unat_add_space [of "total_var_space s" "length key + length val"]
    by (simp add: MAX_VAR_TOTAL_SPACE_def bounded_var_def)
  moreover have "unat (of_nat (var_space ?b) :: u16) = var_space ?b"
    using tot d(5) by (simp add: unat_of_nat MAX_VAR_TOTAL_SPACE_def)
  ultimately have "unat (total_var_space s') = ?n + (length key + length val)"
    unfolding f(5) by (simp add: unat_sub word_le_nat_alt)
  then show ?thesis
    using f a r key C tuple_body_simps(4) [OF assms(4)]
    by (auto simp: nv_vars_ok_def nv_var_map_def fun_upd_def)
qed

text \<open>The code \<open>setvar\<close> returns, read off the variables alone.\<close>

definition setvar_code :: "nv_state \<Rightarrow> bytes \<Rightarrow> bytes \<Rightarrow> ec_error" where
  "setvar_code s key val =
     (if key = [] \<or> length key + length val > MAX_VAR_BODY_SPACE then EC_ERROR_INVAL
      else if val = [] then EC_SUCCESS
      else case nv_var_map s key of
             None \<Rightarrow> if length key + length val + unat (total_var_space s) > MAX_VAR_TOTAL_SPACE
                     then EC_ERROR_OVERFLOW else EC_SUCCESS
           | Some old \<Rightarrow> if old \<noteq> val \<and> length old < length val \<and>
                            unat (total_var_space s) + length val - length old > MAX_VAR_TOTAL_SPACE
                         then EC_ERROR_OVERFLOW else EC_SUCCESS)"

lemma tuple_val_length: "tuple_ok b \<Longrightarrow> length (tuple_val b) = tuple_val_len b"
  by (auto simp: tuple_ok_def tuple_val_def)

lemma setvar_store_ok:
  assumes "nv_vars_ok s" "bounded_var key val" "key \<noteq> []" "val \<noteq> []"
    "length key + length val \<le> MAX_VAR_BODY_SPACE"
    "setvar_store s key val = (rv, s')" "\<not> nv_reset s'"
  shows "rv = setvar_code s key val \<and> nv_vars_ok s' \<and> crypto_enabled s' = crypto_enabled s \<and>
    nv_var_map s' = (if rv = EC_SUCCESS then (nv_var_map s)(key \<mapsto> val) else nv_var_map s)"
  using nv_vars_okD(1) [OF assms(1)]
proof (cases rule: find_var_cases [of s key])
  case (absent at)
  have ok: "\<forall>b\<in>set (var_bodies (live_objects (nv_objs s))). tuple_ok b"
    using nv_vars_okD(3) [OF assms(1)] by (simp add: contents_ok_def nv_contents_def)
  have nk: "key \<notin> fst ` set (var_entries (nv_contents s))"
    using no_match_entries [OF ok absent(2)] by (simp add: nv_contents_def)
  then have no: "nv_var_map s key = None" by (simp add: nv_var_map_def map_of_eq_None_iff)
  show ?thesis
  proof (cases "length key + length val + unat (total_var_space s) > MAX_VAR_TOTAL_SPACE")
    case True
    then show ?thesis using assms absent no by (simp add: setvar_store_def Let_def setvar_code_def)
  next
    case False
    obtain rv1 s1 where v: "save_var s key val None = (rv1, s1)" by fastforce
    have "(if rv1 = EC_SUCCESS then add_final_delimiter s1 else (rv1, s1)) = (rv, s')"
      using assms(6) absent(1) False v by (simp add: setvar_store_def Let_def split: if_splits)
    from setvar_insert_ok [OF assms(1-3) nk _ v this assms(7)] False no show ?thesis
      using assms(3-5) by (simp add: setvar_code_def)
  qed
next
  case (present xs c ys at)
  have cf: "tuple_ok (body c)" "key = tuple_key (body c)" using present(2) by (auto simp: var_matches_iff)
  have "key \<notin> fst ` set (var_entries (live_objects xs))"
    using no_match_entries [OF _ present(3)] nv_vars_okD(3) [OF assms(1)] present(1)
    by (simp add: contents_ok_def nv_contents_def)
  then have "map_of (var_entries (live_objects xs)) key = None" by (simp add: map_of_eq_None_iff)
  then have so: "nv_var_map s key = Some (tuple_val (body c))"
    using present(1) cf by (simp add: nv_var_map_def nv_contents_def live_objects_match [OF present(2)] map_add_def)
  have sp: "var_space (body c) = length key + length (tuple_val (body c))"
    using cf by (simp add: var_space_def tuple_val_length tuple_key_length)
  show ?thesis
  proof (cases "tuple_val (body c) = val")
    case True
    then show ?thesis using assms present so
      by (auto simp: setvar_store_def Let_def setvar_code_def fun_upd_idem)
  next
    case ne: False
    let ?O = "var_space (body c) < length key + length val \<and>
        unat (total_var_space s) + (length key + length val) - var_space (body c) > MAX_VAR_TOTAL_SPACE"
    have run: "setvar_store s key val = (if ?O then (EC_ERROR_OVERFLOW, s)
        else setvar_update s key val c (c_addr c) (var_space (body c)))"
      using present ne by (simp add: setvar_store_def Let_def var_space_def add.commute)
    have code: "setvar_code s key val = (if ?O then EC_ERROR_OVERFLOW else EC_SUCCESS)"
      using assms(3-5) so ne sp by (auto simp: setvar_code_def)
    show ?thesis
    proof (cases ?O)
      case True
      then show ?thesis using run code assms(1,6) by simp
    next
      case False
      have "setvar_update s key val c (c_addr c) (var_space (body c)) = (rv, s')"
        using trans [OF run if_not_P [OF False]] assms(6) by simp
      from setvar_replace_ok [OF assms(1) present(1,2) assms(2,3) False this assms(7)] code False
      show ?thesis by simp
    qed
  qed
qed

lemma find_var_loop_reset: "find_var_loop s key at = (oc, at', s') \<Longrightarrow> nv_reset s \<Longrightarrow> nv_reset s'"
proof (induction s key at rule: find_var_loop.induct)
  case (1 s key at)
  show ?case using 1 get_next_object_reset [of s at False]
    by (subst (asm) find_var_loop.simps) (auto split: prod.splits option.splits if_splits)
qed

lemma setvar_update_reset: "setvar_update s key val c a n = (rv, s') \<Longrightarrow> nv_reset s \<Longrightarrow> nv_reset s'"
  by (auto simp: setvar_update_def Let_def finalize_delimiter_eq split: prod.splits if_splits
      dest!: save_var_reset add_delimiter_reset)
     (metis invalidate_reset_mono nv_state.select_convs(11) nv_state.surjective nv_state.update_convs(6) prod.collapse)+

lemma setvar_store_reset: "setvar_store s key val = (rv, s') \<Longrightarrow> nv_reset s \<Longrightarrow> nv_reset s'"
  by (auto simp: setvar_store_def find_var_def Let_def split: prod.splits option.splits if_splits
      dest!: find_var_loop_reset save_var_reset dest: setvar_update_reset add_final_delimiter_reset)

lemma setvar_code_cong:
  assumes "nv_var_map s' = nv_var_map s" "total_var_space s' = total_var_space s"
  shows "setvar_code s' key val = setvar_code s key val"
  unfolding setvar_code_def assms by (rule refl)

lemma compact_nvmem_space:
  assumes "nv_vars_ok s" "ctrl_index s + 1 < page_count s" "compact_nvmem s = (rv, s')" "\<not> nv_reset s'"
  shows "total_var_space s' = total_var_space s"
  using compact_nvmem_ok [OF nv_vars_okD(1,2) [OF assms(1)] assms(2-4)] by (simp add: nv_frame_def)

text \<open>The whole of \<open>setvar\<close>: its return code, and the variables after it.\<close>

lemma setvar_spec:
  assumes "nv_ready s" "bounded_var key val" "setvar s key val = (rv, s')" "\<not> nv_reset s'"
  shows "rv = setvar_code s key val \<and> nv_vars_ok s' \<and> crypto_enabled s' \<and>
    nv_var_map s' = (if rv \<noteq> EC_SUCCESS then nv_var_map s
                     else if val = [] then (nv_var_map s)(key := None) else (nv_var_map s)(key \<mapsto> val))"
proof -
  have ok: "nv_vars_ok s" "crypto_enabled s" "compaction_needed s \<Longrightarrow> ctrl_index s + 1 < page_count s"
    using assms(1) by (auto simp: nv_ready_def)
  have st: "setvar_locked s key val = (rv, s')" using assms(3) ok(2) by (simp add: setvar_def)
  consider (bad) "key = [] \<or> length key + length val > MAX_VAR_BODY_SPACE"
    | (erase) "key \<noteq> []" "length key + length val \<le> MAX_VAR_BODY_SPACE" "val = []"
    | (store) "key \<noteq> []" "length key + length val \<le> MAX_VAR_BODY_SPACE" "val \<noteq> []" by linarith
  then show ?thesis
  proof cases
    case bad
    then have "setvar_locked s key val = (EC_ERROR_INVAL, s)" by (auto simp: setvar_locked_def)
    moreover have "setvar_code s key val = EC_ERROR_INVAL" using bad by (simp add: setvar_code_def)
    ultimately show ?thesis using st ok(1,2) by auto
  next
    case erase
    then have "setvar_erase s key = (rv, s')" using st by (simp add: setvar_locked_def)
    from setvar_erase_ok [OF ok(1) this] ok(2) erase show ?thesis by (simp add: setvar_code_def)
  next
    case store
    obtain rv1 s1 where c: "(if compaction_needed s then compact_nvmem s else (EC_SUCCESS, s)) = (rv1, s1)" by fastforce
    have r: "(if rv1 \<noteq> EC_SUCCESS then (rv1, s1) else setvar_store s1 key val) = (rv, s')"
      using st store c by (simp add: setvar_locked_def Let_def split: if_splits)
    have n1: "\<not> nv_reset s1" using r assms(4) setvar_store_reset [of s1 key val rv s'] by (auto split: if_splits)
    have k: "rv1 = EC_SUCCESS" "nv_vars_ok s1" "nv_var_map s1 = nv_var_map s" "crypto_enabled s1"
      "total_var_space s1 = total_var_space s"
      using c ok compact_nvmem_vars [OF ok(1) _ _ n1] compact_nvmem_space [OF ok(1) _ _ n1]
      by (auto split: if_splits)
    have "setvar_store s1 key val = (rv, s')" using r k(1) by simp
    from setvar_store_ok [OF k(2) assms(2) store(1,3,2) this assms(4)] k store setvar_code_cong [OF k(3,5)]
    show ?thesis by auto
  qed
qed

section \<open>The interface of the variable store\<close>

text \<open>\<open>ready\<close> is the state a client may update, \<open>consistent\<close> what every completed update
  leaves, \<open>failed\<close> that the chip was reset in the middle of it.\<close>

locale kv_store =
  fixes lookup :: "'s \<Rightarrow> bytes \<Rightarrow> bytes option"
    and update :: "'s \<Rightarrow> bytes \<Rightarrow> bytes \<Rightarrow> ec_error \<times> 's"
    and ready :: "'s \<Rightarrow> bool"
    and consistent :: "'s \<Rightarrow> bool"
    and failed :: "'s \<Rightarrow> bool"
  assumes ready_consistent: "ready s \<Longrightarrow> consistent s"
    and update_consistent:
      "ready s \<Longrightarrow> bounded_var k v \<Longrightarrow> update s k v = (rv, s') \<Longrightarrow> \<not> failed s' \<Longrightarrow> consistent s'"
    and update_lookup:
      "ready s \<Longrightarrow> bounded_var k v \<Longrightarrow> update s k v = (EC_SUCCESS, s') \<Longrightarrow> \<not> failed s' \<Longrightarrow>
       lookup s' = (lookup s)(k := (if v = [] then None else Some v))"
    and update_error:
      "ready s \<Longrightarrow> bounded_var k v \<Longrightarrow> update s k v = (rv, s') \<Longrightarrow> rv \<noteq> EC_SUCCESS \<Longrightarrow> \<not> failed s' \<Longrightarrow>
       lookup s' = lookup s"
begin

lemma read_back:
  assumes "ready s" "bounded_var k v" "v \<noteq> []" "update s k v = (EC_SUCCESS, s')" "\<not> failed s'"
  shows "lookup s' k = Some v"
  using update_lookup [OF assms(1,2,4,5)] assms(3) by simp

lemma read_other:
  assumes "ready s" "bounded_var k v" "update s k v = (rv, s')" "\<not> failed s'" "k' \<noteq> k"
  shows "lookup s' k' = lookup s k'"
  using update_lookup [OF assms(1,2)] update_error [OF assms(1-3)] assms(3-5)
  by (cases "rv = EC_SUCCESS") auto

text \<open>A sequence of updates, each started in a ready state, is the sequence of map updates.\<close>

fun update_all :: "'s \<Rightarrow> (bytes \<times> bytes) list \<Rightarrow> 's option" where
  "update_all s [] = Some s"
| "update_all s ((k, v) # ws) =
     (case update s k v of (rv, s') \<Rightarrow>
        if rv = EC_SUCCESS \<and> \<not> failed s' \<and> ready s' then update_all s' ws else None)"

lemma update_all_lookup:
  assumes "ready s" "\<forall>(k, v)\<in>set ws. bounded_var k v \<and> v \<noteq> []" "update_all s ws = Some s'"
  shows "lookup s' = (lookup s)(map fst ws [\<mapsto>] map snd ws)"
  using assms
proof (induction ws arbitrary: s)
  case (Cons w ws)
  obtain k v where w: "w = (k, v)" by fastforce
  obtain s1 where s1: "update s k v = (EC_SUCCESS, s1)" "\<not> failed s1" "ready s1" "update_all s1 ws = Some s'"
    using Cons.prems(3) by (auto simp: w split: prod.splits if_splits)
  have l: "lookup s1 = (lookup s)(k \<mapsto> v)"
    using update_lookup [OF Cons.prems(1) _ s1(1,2)] Cons.prems(2) by (simp add: w)
  have "lookup s' = (lookup s1)(map fst ws [\<mapsto>] map snd ws)"
    using Cons.IH [OF s1(3) _ s1(4)] Cons.prems(2) by (simp add: w)
  then show ?case unfolding l by (simp add: w)
qed simp

end

interpretation nv: kv_store getvar setvar nv_ready "\<lambda>s. nv_vars_ok s \<and> crypto_enabled s" nv_reset
proof (unfold_locales, goal_cases)
  case (1 s)
  then show ?case by (simp add: nv_ready_def)
next
  case (2 s k v rv s')
  then show ?case using setvar_spec by blast
next
  case (3 s k v s')
  from setvar_spec [OF this] this(1) show ?case
    by (auto simp: fun_eq_iff getvar_eq_map nv_ready_def)
next
  case (4 s k v rv s')
  from setvar_spec [OF this(1,2,3,5)] this(1,4) show ?case
    by (auto simp: fun_eq_iff getvar_eq_map nv_ready_def)
qed

section \<open>Properties\<close>

text \<open>A log that starts in the middle of a page and holds one variable, committed.\<close>

definition nv_example :: nv_state where
  "nv_example =
     \<lparr>nv_objs = [\<lparr>container_type = NN_OBJ_TUPLE, container_type_copy = NN_OBJ_TUPLE, generation = 0,
                   body = [1, 1, 0, 65, 66], c_page = 0, c_off = 2028, intact = True\<rparr>,
                 \<lparr>container_type = NN_OBJ_OLD_COPY, container_type_copy = NN_OBJ_TRANSACTION_DEL,
                   generation = 0, body = [], c_page = 0, c_off = 2040, intact = True\<rparr>],
      ctrl_index = 0, ctrl_page = 0, ctrl_off = 2044, page_count = 10, total_var_space = 2,
      write_results = [], erase_results = [], scratch_byte = 0, crypto_enabled = True, nv_reset = False\<rparr>"

lemma nv_example_log: "nv_log_ok nv_example"
  unfolding nv_log_ok_def
  by (intro conjI exI [of _ 2028]; code_simp)

lemma nv_example_ready: "nv_ready nv_example"
  unfolding nv_ready_def nv_vars_ok_def contents_ok_def
  by (intro conjI nv_example_log; code_simp)

text \<open>(C3) What \<open>setvar\<close> does, in every case: on a chip that reports no write error and is not
  reset for want of flash pages, the code it returns is the one the limits determine, on success the key
  reads back as the new value (or as absent, when the value is empty), after an error every key reads
  as before, no other key is affected, and the store stays consistent, its byte count included.\<close>

theorem setvar_getvar:
  assumes "nv_ready s" and "bounded_var key val" and "setvar s key val = (rv, s')" and "\<not> nv_reset s'"
  shows "rv = setvar_code s key val \<and> nv_vars_ok s' \<and>
    (\<forall>k. getvar s' k =
       (if rv = EC_SUCCESS \<and> k = key then (if val = [] then None else Some val) else getvar s k))"
  using setvar_spec [OF assms] assms(1) by (auto simp: getvar_eq_map nv_ready_def)

theorem setvar_getvar_witness:
  "getvar (snd (setvar nv_example [65] [67, 68])) [65] = Some [67, 68]"
proof -
  have r: "setvar nv_example [65] [67, 68] = (EC_SUCCESS, snd (setvar nv_example [65] [67, 68]))"
    by code_simp
  have n: "\<not> nv_reset (snd (setvar nv_example [65] [67, 68]))" by code_simp
  have b: "bounded_var [65] [67, 68]" by code_simp
  show ?thesis using setvar_getvar [OF nv_example_ready b r n] by simp
qed

text \<open>(C27) Compaction is invisible to the users of the store: with a spare page, no write
  error and no reset, it returns \<open>EC_SUCCESS\<close>, every object of the log is still there (the
  multiset of types and payloads is unchanged) and every variable reads as before.\<close>

theorem compaction_keeps_vars:
  assumes "nv_vars_ok s" and "ctrl_index s + 1 < page_count s"
    and "compact_nvmem s = (rv, s')" and "\<not> nv_reset s'"
  shows "rv = EC_SUCCESS \<and> nv_vars_ok s' \<and> mset (nv_contents s') = mset (nv_contents s) \<and>
    getvar s' = getvar s"
proof -
  have "getvar s' = getvar s"
  proof (cases "crypto_enabled s")
    case True
    then show ?thesis using compact_nvmem_vars [OF assms] assms(1) by (simp add: fun_eq_iff getvar_eq_map)
  next
    case False
    then show ?thesis using compact_nvmem_vars(4) [OF assms] by (simp add: fun_eq_iff getvar_def)
  qed
  then show ?thesis
    using compact_nvmem_vars [OF assms] compact_nvmem_ok [OF nv_vars_okD(1,2) [OF assms(1)] assms(2-4)] by simp
qed

theorem compaction_keeps_vars_witness:
  "getvar (snd (compact_nvmem nv_example)) [65] = getvar nv_example [65]"
proof -
  have r: "compact_nvmem nv_example = (EC_SUCCESS, snd (compact_nvmem nv_example))" by code_simp
  have n: "\<not> nv_reset (snd (compact_nvmem nv_example))" by code_simp
  have p: "ctrl_index nv_example + 1 < page_count nv_example" by code_simp
  have v: "nv_vars_ok nv_example" using nv_example_ready by (simp add: nv_ready_def)
  show ?thesis using compaction_keeps_vars [OF v p r n] by simp
qed

end
