(* ===== verification/Pw_Types.thy ===== *)
theory Pw_Types
  imports Nv_Vars
begin

text \<open>
  The data of PinWeaver: the packed structures of \<open>src/include/pinweaver_cr50_types.h\<close> and
  \<open>src/include/pinweaver_cr50.h\<close> as records, with their little-endian layout, the error
  codes, and the functions outside the repository that PinWeaver calls as the fields of
  \<open>pw_env\<close>.
\<close>

section \<open>Error codes and message types\<close>

datatype pw_code =
    PW_EC ec_error
  | PW_ERR_VERSION_MISMATCH
  | PW_ERR_TREE_INVALID
  | PW_ERR_LENGTH_INVALID
  | PW_ERR_TYPE_INVALID
  | PW_ERR_BITS_PER_LEVEL_INVALID
  | PW_ERR_HEIGHT_INVALID
  | PW_ERR_LABEL_INVALID
  | PW_ERR_DELAY_SCHEDULE_INVALID
  | PW_ERR_PATH_AUTH_FAILED
  | PW_ERR_LEAF_VERSION_MISMATCH
  | PW_ERR_HMAC_AUTH_FAILED
  | PW_ERR_LOWENT_AUTH_FAILED
  | PW_ERR_RESET_AUTH_FAILED
  | PW_ERR_CRYPTO_FAILURE
  | PW_ERR_RATE_LIMIT_REACHED
  | PW_ERR_ROOT_NOT_FOUND
  | PW_ERR_NV_EMPTY
  | PW_ERR_NV_LENGTH_MISMATCH
  | PW_ERR_NV_VERSION_MISMATCH
  | PW_ERR_PCR_NOT_MATCH

abbreviation PW_SUCCESS :: pw_code where "PW_SUCCESS \<equiv> PW_EC EC_SUCCESS"

fun pw_code_value :: "pw_code \<Rightarrow> u32" where
  "pw_code_value (PW_EC e) = of_nat (ec_error_code e)"
| "pw_code_value PW_ERR_VERSION_MISMATCH = 0x10000"
| "pw_code_value PW_ERR_TREE_INVALID = 0x10001"
| "pw_code_value PW_ERR_LENGTH_INVALID = 0x10002"
| "pw_code_value PW_ERR_TYPE_INVALID = 0x10003"
| "pw_code_value PW_ERR_BITS_PER_LEVEL_INVALID = 0x10004"
| "pw_code_value PW_ERR_HEIGHT_INVALID = 0x10005"
| "pw_code_value PW_ERR_LABEL_INVALID = 0x10006"
| "pw_code_value PW_ERR_DELAY_SCHEDULE_INVALID = 0x10007"
| "pw_code_value PW_ERR_PATH_AUTH_FAILED = 0x10008"
| "pw_code_value PW_ERR_LEAF_VERSION_MISMATCH = 0x10009"
| "pw_code_value PW_ERR_HMAC_AUTH_FAILED = 0x1000A"
| "pw_code_value PW_ERR_LOWENT_AUTH_FAILED = 0x1000B"
| "pw_code_value PW_ERR_RESET_AUTH_FAILED = 0x1000C"
| "pw_code_value PW_ERR_CRYPTO_FAILURE = 0x1000D"
| "pw_code_value PW_ERR_RATE_LIMIT_REACHED = 0x1000E"
| "pw_code_value PW_ERR_ROOT_NOT_FOUND = 0x1000F"
| "pw_code_value PW_ERR_NV_EMPTY = 0x10010"
| "pw_code_value PW_ERR_NV_LENGTH_MISMATCH = 0x10011"
| "pw_code_value PW_ERR_NV_VERSION_MISMATCH = 0x10012"
| "pw_code_value PW_ERR_PCR_NOT_MATCH = 0x10013"

type_synonym 'a pw_result = "pw_code + 'a"

definition PW_MT_INVALID :: u8 where "PW_MT_INVALID = 0"
definition PW_RESET_TREE :: u8 where "PW_RESET_TREE = 1"
definition PW_INSERT_LEAF :: u8 where "PW_INSERT_LEAF = 2"
definition PW_REMOVE_LEAF :: u8 where "PW_REMOVE_LEAF = 3"
definition PW_TRY_AUTH :: u8 where "PW_TRY_AUTH = 4"
definition PW_RESET_AUTH :: u8 where "PW_RESET_AUTH = 5"
definition PW_GET_LOG :: u8 where "PW_GET_LOG = 6"
definition PW_LOG_REPLAY :: u8 where "PW_LOG_REPLAY = 7"

lemmas pw_message_types = PW_MT_INVALID_def PW_RESET_TREE_def PW_INSERT_LEAF_def PW_REMOVE_LEAF_def
  PW_TRY_AUTH_def PW_RESET_AUTH_def PW_GET_LOG_def PW_LOG_REPLAY_def

definition PW_HASH_SIZE :: nat where "PW_HASH_SIZE = 32"
definition PW_SECRET_SIZE :: nat where "PW_SECRET_SIZE = 32"
definition PW_WRAP_BLOCK_SIZE :: nat where "PW_WRAP_BLOCK_SIZE = 16"
definition PW_SCHED_COUNT :: nat where "PW_SCHED_COUNT = 16"
definition PW_MAX_PCR_CRITERIA_COUNT :: nat where "PW_MAX_PCR_CRITERIA_COUNT = 2"
definition PW_LOG_ENTRY_COUNT :: nat where "PW_LOG_ENTRY_COUNT = 2"
definition PW_LEAF_PUBLIC_SIZE :: nat where "PW_LEAF_PUBLIC_SIZE = 220"
definition PW_LEAF_SENSITIVE_SIZE :: nat where "PW_LEAF_SENSITIVE_SIZE = 96"
definition PW_UNIMPORTED_SIZE :: nat where "PW_UNIMPORTED_SIZE = 56"
definition PW_LEAF_PAYLOAD_SIZE :: nat where "PW_LEAF_PAYLOAD_SIZE = 316"
definition PW_VALID_PCR_CRITERIA_SIZE :: nat where "PW_VALID_PCR_CRITERIA_SIZE = 68"
definition PW_MAX_PATH_SIZE :: nat where "PW_MAX_PATH_SIZE = 1024"
definition PW_BLOCK_ATTEMPTS :: u32 where "PW_BLOCK_ATTEMPTS = 0xFFFFFFFF"
definition PW_PROTOCOL_VERSION :: u8 where "PW_PROTOCOL_VERSION = 1"
definition PW_LEAF_MAJOR_VERSION :: u16 where "PW_LEAF_MAJOR_VERSION = 0"
definition PW_LEAF_MINOR_VERSION :: u16 where "PW_LEAF_MINOR_VERSION = 1"
definition PW_STORAGE_VERSION :: u16 where "PW_STORAGE_VERSION = 0"

lemmas pw_sizes = PW_HASH_SIZE_def PW_SECRET_SIZE_def PW_WRAP_BLOCK_SIZE_def PW_SCHED_COUNT_def
  PW_MAX_PCR_CRITERIA_COUNT_def PW_LOG_ENTRY_COUNT_def PW_LEAF_PUBLIC_SIZE_def PW_LEAF_SENSITIVE_SIZE_def
  PW_UNIMPORTED_SIZE_def PW_LEAF_PAYLOAD_SIZE_def PW_VALID_PCR_CRITERIA_SIZE_def PW_MAX_PATH_SIZE_def

section \<open>Structures\<close>

record delay_schedule_entry =
  sched_attempts :: u32
  sched_time_diff :: u32

record pw_timestamp =
  boot_count :: u32
  timer_value :: u64

record valid_pcr_value =
  pcr_bitmask0 :: u8
  pcr_bitmask1 :: u8
  pcr_digest :: bytes

record leaf_public_data =
  leaf_label :: u64
  delay_schedule :: "delay_schedule_entry list"
  leaf_timestamp :: pw_timestamp
  attempt_count :: u32
  valid_pcr_criteria :: "valid_pcr_value list"

record leaf_sensitive_data =
  low_entropy_secret :: bytes
  high_entropy_secret :: bytes
  reset_secret :: bytes

record leaf_data =
  ld_pub :: leaf_public_data
  ld_sec :: leaf_sensitive_data

record leaf_header =
  lv_minor :: u16
  lv_major :: u16
  pub_len :: u16
  sec_len :: u16

record unimported_leaf_data =
  u_head :: leaf_header
  u_hmac :: bytes
  u_iv :: bytes
  u_payload :: bytes

record wrapped_leaf_data =
  w_head :: leaf_header
  w_hmac :: bytes
  w_iv :: bytes
  w_pub :: leaf_public_data
  w_cipher_text :: bytes

text \<open>The pointers of \<open>struct imported_leaf_data_t\<close> into the payload are suffixes of it.\<close>

record imported_leaf_data =
  i_head :: leaf_header
  i_hmac :: bytes
  i_iv :: bytes
  i_pub :: bytes
  i_cipher_text :: bytes
  i_hashes :: bytes

record merkle_tree =
  bits_per_level :: u8
  height :: u8
  mt_root :: bytes
  key_derivation_nonce :: bytes
  hmac_key :: bytes
  wrap_key :: bytes

text \<open>The type specific fields of a log entry are a union; they are kept as its 32 bytes.\<close>

record pw_log_entry =
  e_root :: bytes
  e_label :: u64
  e_type :: u8
  e_union :: bytes

record pw_log_storage =
  storage_version :: u16
  restart_count :: u32
  log_entries :: "pw_log_entry list"

section \<open>Layout\<close>

definition field :: "nat \<Rightarrow> nat \<Rightarrow> bytes \<Rightarrow> bytes" where
  "field off len b = take len (drop off b)"

definition bytes_of_sched_entry :: "delay_schedule_entry \<Rightarrow> bytes" where
  "bytes_of_sched_entry e = to_le 4 (sched_attempts e) @ to_le 4 (sched_time_diff e)"

definition sched_entry_of_bytes :: "bytes \<Rightarrow> delay_schedule_entry" where
  "sched_entry_of_bytes b =
     \<lparr>sched_attempts = of_le (field 0 4 b), sched_time_diff = of_le (field 4 4 b)\<rparr>"

definition bytes_of_timestamp :: "pw_timestamp \<Rightarrow> bytes" where
  "bytes_of_timestamp ts = to_le 4 (boot_count ts) @ to_le 8 (timer_value ts)"

definition timestamp_of_bytes :: "bytes \<Rightarrow> pw_timestamp" where
  "timestamp_of_bytes b = \<lparr>boot_count = of_le (field 0 4 b), timer_value = of_le (field 4 8 b)\<rparr>"

definition bytes_of_pcr_value :: "valid_pcr_value \<Rightarrow> bytes" where
  "bytes_of_pcr_value v = [pcr_bitmask0 v, pcr_bitmask1 v] @ pcr_digest v"

definition pcr_value_of_bytes :: "bytes \<Rightarrow> valid_pcr_value" where
  "pcr_value_of_bytes b =
     \<lparr>pcr_bitmask0 = of_le (field 0 1 b), pcr_bitmask1 = of_le (field 1 1 b), pcr_digest = field 2 32 b\<rparr>"

definition bytes_of_schedule :: "delay_schedule_entry list \<Rightarrow> bytes" where
  "bytes_of_schedule es = concat (map bytes_of_sched_entry es)"

definition schedule_of_bytes :: "bytes \<Rightarrow> delay_schedule_entry list" where
  "schedule_of_bytes b = map (\<lambda>i. sched_entry_of_bytes (field (8 * i) 8 b)) [0..<PW_SCHED_COUNT]"

definition bytes_of_criteria :: "valid_pcr_value list \<Rightarrow> bytes" where
  "bytes_of_criteria vs = concat (map bytes_of_pcr_value vs)"

definition criteria_of_bytes :: "bytes \<Rightarrow> valid_pcr_value list" where
  "criteria_of_bytes b = map (\<lambda>i. pcr_value_of_bytes (field (34 * i) 34 b)) [0..<PW_MAX_PCR_CRITERIA_COUNT]"

definition bytes_of_pub :: "leaf_public_data \<Rightarrow> bytes" where
  "bytes_of_pub p = to_le 8 (leaf_label p) @ bytes_of_schedule (delay_schedule p) @
     bytes_of_timestamp (leaf_timestamp p) @ to_le 4 (attempt_count p) @
     bytes_of_criteria (valid_pcr_criteria p)"

definition pub_of_bytes :: "bytes \<Rightarrow> leaf_public_data" where
  "pub_of_bytes b =
     \<lparr>leaf_label = of_le (field 0 8 b), delay_schedule = schedule_of_bytes (field 8 128 b),
      leaf_timestamp = timestamp_of_bytes (field 136 12 b), attempt_count = of_le (field 148 4 b),
      valid_pcr_criteria = criteria_of_bytes (field 152 68 b)\<rparr>"

definition bytes_of_sec :: "leaf_sensitive_data \<Rightarrow> bytes" where
  "bytes_of_sec s = low_entropy_secret s @ high_entropy_secret s @ reset_secret s"

definition sec_of_bytes :: "bytes \<Rightarrow> leaf_sensitive_data" where
  "sec_of_bytes b = \<lparr>low_entropy_secret = field 0 32 b, high_entropy_secret = field 32 32 b,
     reset_secret = field 64 32 b\<rparr>"

definition bytes_of_head :: "leaf_header \<Rightarrow> bytes" where
  "bytes_of_head h = to_le 2 (lv_minor h) @ to_le 2 (lv_major h) @ to_le 2 (pub_len h) @ to_le 2 (sec_len h)"

definition head_of_bytes :: "bytes \<Rightarrow> leaf_header" where
  "head_of_bytes b = \<lparr>lv_minor = of_le (field 0 2 b), lv_major = of_le (field 2 2 b),
     pub_len = of_le (field 4 2 b), sec_len = of_le (field 6 2 b)\<rparr>"

definition unimported_of_bytes :: "bytes \<Rightarrow> unimported_leaf_data" where
  "unimported_of_bytes b = \<lparr>u_head = head_of_bytes (field 0 8 b), u_hmac = field 8 32 b,
     u_iv = field 40 16 b, u_payload = drop 56 b\<rparr>"

definition bytes_of_wrapped :: "wrapped_leaf_data \<Rightarrow> bytes" where
  "bytes_of_wrapped w = bytes_of_head (w_head w) @ w_hmac w @ w_iv w @ bytes_of_pub (w_pub w) @ w_cipher_text w"

definition bytes_of_log_entry :: "pw_log_entry \<Rightarrow> bytes" where
  "bytes_of_log_entry e = e_root e @ to_le 8 (e_label e) @ [e_type e] @ e_union e"

definition log_entry_of_bytes :: "bytes \<Rightarrow> pw_log_entry" where
  "log_entry_of_bytes b = \<lparr>e_root = field 0 32 b, e_label = of_le (field 32 8 b),
     e_type = of_le (field 40 1 b), e_union = field 41 32 b\<rparr>"

definition bytes_of_log :: "pw_log_storage \<Rightarrow> bytes" where
  "bytes_of_log l = to_le 2 (storage_version l) @ to_le 4 (restart_count l) @
     concat (map bytes_of_log_entry (log_entries l))"

definition log_of_bytes :: "bytes \<Rightarrow> pw_log_storage" where
  "log_of_bytes b = \<lparr>storage_version = of_le (field 0 2 b), restart_count = of_le (field 2 4 b),
     log_entries = map (\<lambda>i. log_entry_of_bytes (field (6 + 73 * i) 73 b)) [0..<PW_LOG_ENTRY_COUNT]\<rparr>"

definition empty_log_entry :: pw_log_entry where
  "empty_log_entry = \<lparr>e_root = replicate 32 0, e_label = 0, e_type = 0, e_union = replicate 32 0\<rparr>"

text \<open>The fields of a \<open>PW_TRY_AUTH\<close> entry inside the union.\<close>

definition auth_union :: "pw_timestamp \<Rightarrow> u32 \<Rightarrow> bytes" where
  "auth_union ts code = bytes_of_timestamp ts @ to_le 4 code @ replicate 16 0"

definition e_timestamp :: "pw_log_entry \<Rightarrow> pw_timestamp" where
  "e_timestamp e = timestamp_of_bytes (field 0 12 (e_union e))"

definition e_return_code :: "pw_log_entry \<Rightarrow> u32" where
  "e_return_code e = of_le (field 12 4 (e_union e))"

section \<open>Reading back what was laid out\<close>

named_theorems layout \<open>fields of concatenated layouts\<close>

lemma field_skip [layout]: "length xs \<le> off \<Longrightarrow> field off len (xs @ ys) = field (off - length xs) len ys"
  by (simp add: field_def)

lemma field_first [layout]: "len = length xs \<Longrightarrow> field 0 len (xs @ ys) = xs"
  by (simp add: field_def)

lemma field_last [layout]: "len = length xs \<Longrightarrow> field 0 len xs = xs"
  by (simp add: field_def)

lemma length_field [layout]: "off + len \<le> length b \<Longrightarrow> length (field off len b) = len"
  by (simp add: field_def)

lemma field_concat:
  assumes "\<forall>x\<in>set xs. length (f x) = n" "i < length xs"
  shows "field (n * i) n (concat (map f xs)) = f (xs ! i)"
  using assms
proof (induction xs arbitrary: i)
  case (Cons x xs)
  show ?case
  proof (cases i)
    case 0
    then show ?thesis using Cons.prems by (simp add: field_first)
  next
    case (Suc j)
    then show ?thesis using Cons.prems Cons.IH [of j] by (simp add: field_skip)
  qed
qed simp

lemma length_concat_const: "\<forall>x\<in>set xs. length (f x) = n \<Longrightarrow> length (concat (map f xs)) = n * length xs"
  by (induction xs) auto

lemma of_le_1 [simp]: "of_le [b] = (b :: u8)"
  by simp

definition pub_wf :: "leaf_public_data \<Rightarrow> bool" where
  "pub_wf p \<longleftrightarrow> length (delay_schedule p) = PW_SCHED_COUNT \<and>
     length (valid_pcr_criteria p) = PW_MAX_PCR_CRITERIA_COUNT \<and>
     (\<forall>v\<in>set (valid_pcr_criteria p). length (pcr_digest v) = 32)"

definition sec_wf :: "leaf_sensitive_data \<Rightarrow> bool" where
  "sec_wf s \<longleftrightarrow> length (low_entropy_secret s) = PW_SECRET_SIZE \<and>
     length (high_entropy_secret s) = PW_SECRET_SIZE \<and> length (reset_secret s) = PW_SECRET_SIZE"

definition log_wf :: "pw_log_storage \<Rightarrow> bool" where
  "log_wf l \<longleftrightarrow> length (log_entries l) = PW_LOG_ENTRY_COUNT \<and>
     (\<forall>e\<in>set (log_entries l). length (e_root e) = 32 \<and> length (e_union e) = 32)"

lemma sched_entry_roundtrip: "sched_entry_of_bytes (bytes_of_sched_entry e) = e"
  by (simp add: sched_entry_of_bytes_def bytes_of_sched_entry_def layout of_le_to_le)

lemma timestamp_roundtrip: "timestamp_of_bytes (bytes_of_timestamp ts) = ts"
  by (simp add: timestamp_of_bytes_def bytes_of_timestamp_def layout of_le_to_le)

lemma pcr_value_roundtrip:
  "length (pcr_digest v) = 32 \<Longrightarrow> pcr_value_of_bytes (bytes_of_pcr_value v) = v"
  by (simp add: pcr_value_of_bytes_def bytes_of_pcr_value_def field_def)

lemma length_bytes_of_sched_entry [simp]: "length (bytes_of_sched_entry e) = 8"
  by (simp add: bytes_of_sched_entry_def)

lemma length_bytes_of_timestamp [simp]: "length (bytes_of_timestamp ts) = 12"
  by (simp add: bytes_of_timestamp_def)

lemma length_bytes_of_head [simp]: "length (bytes_of_head h) = 8"
  by (simp add: bytes_of_head_def)

lemma head_roundtrip: "head_of_bytes (bytes_of_head h) = h"
  by (simp add: head_of_bytes_def bytes_of_head_def layout of_le_to_le)

lemma length_bytes_of_schedule:
  "length es = PW_SCHED_COUNT \<Longrightarrow> length (bytes_of_schedule es) = 128"
  using length_concat_const [of es bytes_of_sched_entry 8] by (simp add: bytes_of_schedule_def pw_sizes)

lemma schedule_roundtrip:
  "length es = PW_SCHED_COUNT \<Longrightarrow> schedule_of_bytes (bytes_of_schedule es) = es"
  by (rule nth_equalityI)
     (simp_all add: schedule_of_bytes_def bytes_of_schedule_def field_concat sched_entry_roundtrip)

lemma length_bytes_of_criteria:
  assumes "length vs = PW_MAX_PCR_CRITERIA_COUNT" "\<forall>v\<in>set vs. length (pcr_digest v) = 32"
  shows "length (bytes_of_criteria vs) = 68"
proof -
  have "\<forall>v\<in>set vs. length (bytes_of_pcr_value v) = 34" using assms(2) by (simp add: bytes_of_pcr_value_def)
  then show ?thesis using length_concat_const [of vs bytes_of_pcr_value 34] assms(1)
    by (simp add: bytes_of_criteria_def pw_sizes)
qed

lemma criteria_roundtrip:
  assumes "length vs = PW_MAX_PCR_CRITERIA_COUNT" "\<forall>v\<in>set vs. length (pcr_digest v) = 32"
  shows "criteria_of_bytes (bytes_of_criteria vs) = vs"
proof -
  have "\<forall>v\<in>set vs. length (bytes_of_pcr_value v) = 34" using assms(2) by (simp add: bytes_of_pcr_value_def)
  then show ?thesis using assms
    by (intro nth_equalityI)
       (simp_all add: criteria_of_bytes_def bytes_of_criteria_def field_concat pcr_value_roundtrip)
qed

lemma length_bytes_of_pub: "pub_wf p \<Longrightarrow> length (bytes_of_pub p) = PW_LEAF_PUBLIC_SIZE"
  by (simp add: pub_wf_def bytes_of_pub_def length_bytes_of_schedule length_bytes_of_criteria PW_LEAF_PUBLIC_SIZE_def)

lemma pub_of_bytes_of_pub:
  assumes "pub_wf p"
  shows "pub_of_bytes (bytes_of_pub p @ rest) = p"
proof -
  have l: "length (bytes_of_schedule (delay_schedule p)) = 128"
    "length (bytes_of_criteria (valid_pcr_criteria p)) = 68"
    using assms by (simp_all add: pub_wf_def length_bytes_of_schedule length_bytes_of_criteria)
  show ?thesis
    using assms l
    by (simp add: pub_of_bytes_def bytes_of_pub_def layout of_le_to_le pub_wf_def schedule_roundtrip
        criteria_roundtrip timestamp_roundtrip)
qed

lemma pub_of_bytes_wf: "pub_wf (pub_of_bytes b)" if "length b \<ge> PW_LEAF_PUBLIC_SIZE"
  using that
  by (auto simp: pub_wf_def pub_of_bytes_def schedule_of_bytes_def criteria_of_bytes_def
      pcr_value_of_bytes_def pw_sizes field_def upt_rec)

lemma length_bytes_of_sec: "sec_wf s \<Longrightarrow> length (bytes_of_sec s) = PW_LEAF_SENSITIVE_SIZE"
  by (simp add: sec_wf_def bytes_of_sec_def pw_sizes)

lemma sec_roundtrip: "sec_wf s \<Longrightarrow> sec_of_bytes (bytes_of_sec s) = s"
  by (simp add: sec_wf_def sec_of_bytes_def bytes_of_sec_def layout pw_sizes)

lemma length_bytes_of_log_entry:
  "length (e_root e) = 32 \<Longrightarrow> length (e_union e) = 32 \<Longrightarrow> length (bytes_of_log_entry e) = 73"
  by (simp add: bytes_of_log_entry_def)

lemma log_entry_roundtrip:
  assumes "length (e_root e) = 32" "length (e_union e) = 32"
  shows "log_entry_of_bytes (bytes_of_log_entry e) = e"
proof -
  have "field 40 1 (bytes_of_log_entry e) = [e_type e]" "field 41 32 (bytes_of_log_entry e) = e_union e"
    using assms by (simp_all add: bytes_of_log_entry_def field_def)
  moreover have "field 0 32 (bytes_of_log_entry e) = e_root e" "field 32 8 (bytes_of_log_entry e) = to_le 8 (e_label e)"
    using assms by (simp_all add: bytes_of_log_entry_def layout)
  ultimately show ?thesis by (simp add: log_entry_of_bytes_def of_le_to_le)
qed

lemma length_bytes_of_log: "log_wf l \<Longrightarrow> length (bytes_of_log l) = 152"
  using length_concat_const [of "log_entries l" bytes_of_log_entry 73]
  by (simp add: bytes_of_log_def log_wf_def length_bytes_of_log_entry PW_LOG_ENTRY_COUNT_def)

lemma log_roundtrip:
  assumes "log_wf l"
  shows "log_of_bytes (bytes_of_log l) = l"
proof -
  have "\<forall>e\<in>set (log_entries l). length (bytes_of_log_entry e) = 73"
    using assms by (simp add: log_wf_def length_bytes_of_log_entry)
  from field_concat [OF this]
  have "map (\<lambda>i. log_entry_of_bytes (field (6 + 73 * i) 73 (bytes_of_log l))) [0..<PW_LOG_ENTRY_COUNT] = log_entries l"
    using assms by (intro nth_equalityI)
      (auto simp: log_wf_def bytes_of_log_def field_skip log_entry_roundtrip)
  moreover have "of_le (field 0 2 (bytes_of_log l)) = storage_version l" "of_le (field 2 4 (bytes_of_log l)) = restart_count l"
    by (simp_all add: bytes_of_log_def layout of_le_to_le)
  ultimately show ?thesis by (simp add: log_of_bytes_def)
qed

lemma log_of_bytes_wf: "152 \<le> length b \<Longrightarrow> log_wf (log_of_bytes b)"
  by (auto simp: log_wf_def log_of_bytes_def log_entry_of_bytes_def PW_LOG_ENTRY_COUNT_def field_def upt_rec)

lemma auth_union_simps:
  "length (auth_union ts c) = 32" "timestamp_of_bytes (field 0 12 (auth_union ts c)) = ts"
  "of_le (field 12 4 (auth_union ts c)) = c"
  by (simp_all add: auth_union_def layout timestamp_roundtrip of_le_to_le)

section \<open>Code outside the repository\<close>

text \<open>
  What a request sees of the chip: the storage seed of the TPM library, the application key
  ladder, the hash, HMAC, cipher and random engines (\<open>None\<close>: the engine reports an error), the
  PCR digest and the clock, which is read once for the rate limit and once for the new timestamp.
\<close>

record pw_env =
  storage_seed :: bytes
  appkey_init :: bool
  appkey_derive :: "bytes \<Rightarrow> bytes option"
  hw_sha256 :: "bytes \<Rightarrow> bytes option"
  hw_hmac_sha256 :: "bytes \<Rightarrow> bytes \<Rightarrow> bytes option"
  aes_ctr :: "bytes \<Rightarrow> bytes \<Rightarrow> bytes \<Rightarrow> bytes option"
  fips_rand :: "nat \<Rightarrow> bytes option"
  pcr_digest_of :: "u8 \<Rightarrow> u8 \<Rightarrow> bytes option"
  time_at_check :: u64
  time_at_stamp :: u64

end
