(* ===== verification/Pinweaver.thy ===== *)
theory Pinweaver
  imports Pw_Types
begin

text \<open>
  PinWeaver, \<open>src/common/pinweaver_cr50.c\<close>: a Merkle tree whose leaves, kept by the host,
  hold a secret that is released for the right low entropy secret at a limited rate.  The chip keeps
  the root hash, in RAM and in the flash variable \<open>pwL0\<close> together with a log of the last two
  operations, and the parameters of the tree in \<open>pwT0\<close>.

  Functions that write through a pointer and return a code become functions returning the code
  and the new value, or \<open>Inl code\<close> when nothing but the code survives the call.  Flash variables
  are those of \<open>Nv_Vars\<close>; what is not in the repository is \<open>pw_env\<close>.  Hashes of a path are
  one byte string, as the code addresses them.
\<close>

record pw_state =
  pw_tree :: merkle_tree
  pw_restart_count :: u32
  pw_nv :: nv_state

definition SECOND :: u64 where "SECOND = 1000000"
definition RESTART_TIMER_THRESHOLD :: u64 where "RESTART_TIMER_THRESHOLD = 10 * SECOND"
definition PW_TREE_VAR :: bytes where "PW_TREE_VAR = [112, 119, 84, 48]"
definition PW_LOG_VAR0 :: bytes where "PW_LOG_VAR0 = [112, 119, 76, 48]"

section \<open>Basic operations of the Merkle tree\<close>

definition import_leaf :: "unimported_leaf_data \<Rightarrow> imported_leaf_data" where
  "import_leaf u =
     (let ct = drop (unat (pub_len (u_head u))) (u_payload u)
      in \<lparr>i_head = u_head u, i_hmac = u_hmac u, i_iv = u_iv u, i_pub = u_payload u,
          i_cipher_text = ct, i_hashes = drop (unat (sec_len (u_head u))) ct\<rparr>)"

definition key_input :: "pw_env \<Rightarrow> bytes \<Rightarrow> bytes" where
  "key_input env nonce =
     map2 (\<lambda>a b. a XOR b) (take 16 (storage_seed env)) nonce @ drop 16 (storage_seed env)"

definition with_type_field :: "bytes \<Rightarrow> u32 \<Rightarrow> bytes" where
  "with_type_field input key_type =
     (let type_field = of_le (field 24 4 input)
      in take 24 input @ to_le 4 (type_field XOR key_type) @ drop 28 input)"

definition derive_keys :: "pw_env \<Rightarrow> merkle_tree \<Rightarrow> pw_code \<times> merkle_tree" where
  "derive_keys env tree =
     (let input = key_input env (key_derivation_nonce tree)
      in if \<not> appkey_init env then (PW_ERR_CRYPTO_FAILURE, tree)
         else case appkey_derive env (with_type_field input 0) of
                None \<Rightarrow> (PW_ERR_CRYPTO_FAILURE, tree)
              | Some k \<Rightarrow>
                  (let tree1 = tree\<lparr>wrap_key := k\<rparr>
                   in case appkey_derive env (with_type_field input 0xFFFFFFFF) of
                        None \<Rightarrow> (PW_ERR_CRYPTO_FAILURE, tree1)
                      | Some k2 \<Rightarrow> (PW_SUCCESS, tree1\<lparr>hmac_key := k2\<rparr>)))"

fun empty_root :: "pw_env \<Rightarrow> nat \<Rightarrow> nat \<Rightarrow> bytes \<Rightarrow> bytes option" where
  "empty_root env fan_out 0 temp = Some temp"
| "empty_root env fan_out (Suc n) temp =
     (case hw_sha256 env (concat (replicate fan_out temp)) of
        None \<Rightarrow> None
      | Some h \<Rightarrow> empty_root env fan_out n h)"

definition create_merkle_tree ::
  "pw_env \<Rightarrow> u8 \<Rightarrow> u8 \<Rightarrow> merkle_tree \<Rightarrow> pw_code \<times> merkle_tree" where
  "create_merkle_tree env bits h tree =
     (let fan_out = 2 ^ unat bits mod 2 ^ 16;
          tree1 = tree\<lparr>bits_per_level := bits, height := h\<rparr>
      in case empty_root env fan_out (unat h) (replicate PW_HASH_SIZE 0) of
           None \<Rightarrow> (PW_ERR_CRYPTO_FAILURE, tree1)
         | Some root \<Rightarrow>
             (let tree2 = tree1\<lparr>mt_root := root\<rparr>
              in case fips_rand env 16 of
                   None \<Rightarrow> (PW_ERR_CRYPTO_FAILURE, tree2)
                 | Some nonce \<Rightarrow> derive_keys env (tree2\<lparr>key_derivation_nonce := nonce\<rparr>)))"

text \<open>The third update of the HMAC covers \<open>sizeof(PW_WRAP_BLOCK_SIZE)\<close> bytes of the IV, the
  size of an \<open>int\<close>.\<close>

definition HMAC_IV_BYTES :: nat where "HMAC_IV_BYTES = 4"

definition compute_hmac :: "pw_env \<Rightarrow> merkle_tree \<Rightarrow> imported_leaf_data \<Rightarrow> bytes pw_result" where
  "compute_hmac env tree imp =
     (case hw_hmac_sha256 env (hmac_key tree)
        (bytes_of_head (i_head imp) @ take HMAC_IV_BYTES (i_iv imp) @
         take (unat (pub_len (i_head imp))) (i_pub imp) @
         take (unat (sec_len (i_head imp))) (i_cipher_text imp)) of
        None \<Rightarrow> Inl PW_ERR_CRYPTO_FAILURE
      | Some h \<Rightarrow> Inr h)"

definition compute_hash :: "pw_env \<Rightarrow> bytes \<Rightarrow> nat \<Rightarrow> u8 \<Rightarrow> bytes \<Rightarrow> bytes pw_result" where
  "compute_hash env hashes num_hashes location child_hash =
     (let loc = unat location;
          msg = (if loc > 0 then take (PW_HASH_SIZE * loc) hashes else []) @ child_hash @
                (if loc < num_hashes
                 then take (PW_HASH_SIZE * (num_hashes - loc)) (drop (PW_HASH_SIZE * loc) hashes) else [])
      in case hw_sha256 env msg of None \<Rightarrow> Inl PW_ERR_CRYPTO_FAILURE | Some h \<Rightarrow> Inr h)"

definition num_aux :: "merkle_tree \<Rightarrow> nat" where
  "num_aux tree = (2 ^ unat (bits_per_level tree) - 1) mod 2 ^ 16"

fun root_hash_loop ::
  "pw_env \<Rightarrow> merkle_tree \<Rightarrow> nat \<Rightarrow> u64 \<Rightarrow> bytes \<Rightarrow> bytes \<Rightarrow> bytes pw_result" where
  "root_hash_loop env tree 0 index hashes temp = Inr temp"
| "root_hash_loop env tree (Suc n) index hashes temp =
     (let hashes' = drop (PW_HASH_SIZE * num_aux tree) hashes;
          index' = drop_bit (unat (bits_per_level tree)) index
      in case compute_hash env hashes' (num_aux tree) (ucast (index' AND of_nat (num_aux tree))) temp of
           Inl e \<Rightarrow> Inl e
         | Inr h \<Rightarrow> root_hash_loop env tree n index' hashes' h)"

definition compute_root_hash ::
  "pw_env \<Rightarrow> merkle_tree \<Rightarrow> u64 \<Rightarrow> bytes \<Rightarrow> bytes \<Rightarrow> bytes pw_result" where
  "compute_root_hash env tree path hashes child_hash =
     (case compute_hash env hashes (num_aux tree) (ucast (path AND of_nat (num_aux tree))) child_hash of
        Inl e \<Rightarrow> Inl e
      | Inr h \<Rightarrow> root_hash_loop env tree (unat (height tree) - 1) path hashes h)"

definition authenticate_path :: "pw_env \<Rightarrow> merkle_tree \<Rightarrow> u64 \<Rightarrow> bytes \<Rightarrow> bytes \<Rightarrow> pw_code" where
  "authenticate_path env tree path hashes child_hash =
     (case compute_root_hash env tree path hashes child_hash of
        Inl e \<Rightarrow> e
      | Inr parent \<Rightarrow> if parent \<noteq> mt_root tree then PW_ERR_PATH_AUTH_FAILED else PW_SUCCESS)"

definition init_wrapped_leaf_data :: leaf_header where
  "init_wrapped_leaf_data = \<lparr>lv_minor = PW_LEAF_MINOR_VERSION, lv_major = PW_LEAF_MAJOR_VERSION,
     pub_len = of_nat PW_LEAF_PUBLIC_SIZE, sec_len = of_nat PW_LEAF_SENSITIVE_SIZE\<rparr>"

text \<open>The IV and the cipher text of a fresh leaf.\<close>

definition encrypt_leaf_data :: "pw_env \<Rightarrow> merkle_tree \<Rightarrow> leaf_data \<Rightarrow> (bytes \<times> bytes) pw_result" where
  "encrypt_leaf_data env tree ld =
     (case fips_rand env PW_WRAP_BLOCK_SIZE of
        None \<Rightarrow> Inl PW_ERR_CRYPTO_FAILURE
      | Some iv \<Rightarrow>
          (case aes_ctr env (wrap_key tree) iv (bytes_of_sec (ld_sec ld)) of
             None \<Rightarrow> Inl PW_ERR_CRYPTO_FAILURE
           | Some ct \<Rightarrow> Inr (iv, ct)))"

text \<open>The public part is copied over a zeroed structure.\<close>

definition decrypt_leaf_data :: "pw_env \<Rightarrow> merkle_tree \<Rightarrow> imported_leaf_data \<Rightarrow> leaf_data pw_result" where
  "decrypt_leaf_data env tree imp =
     (let n = min (unat (pub_len (i_head imp))) PW_LEAF_PUBLIC_SIZE;
          pub = take n (i_pub imp) @ replicate (PW_LEAF_PUBLIC_SIZE - n) 0
      in case aes_ctr env (wrap_key tree) (i_iv imp) (take PW_LEAF_SENSITIVE_SIZE (i_cipher_text imp)) of
           None \<Rightarrow> Inl PW_ERR_CRYPTO_FAILURE
         | Some b \<Rightarrow> Inr \<lparr>ld_pub = pub_of_bytes pub, ld_sec = sec_of_bytes b\<rparr>)"

definition unimported_of_wrapped :: "wrapped_leaf_data \<Rightarrow> unimported_leaf_data" where
  "unimported_of_wrapped w = \<lparr>u_head = w_head w, u_hmac = w_hmac w, u_iv = w_iv w,
     u_payload = bytes_of_pub (w_pub w) @ w_cipher_text w\<rparr>"

definition handle_leaf_update ::
  "pw_env \<Rightarrow> merkle_tree \<Rightarrow> leaf_data \<Rightarrow> bytes \<Rightarrow> imported_leaf_data option \<Rightarrow>
   (wrapped_leaf_data \<times> bytes) pw_result" where
  "handle_leaf_update env tree ld hashes old =
     (case (case old of
              None \<Rightarrow> encrypt_leaf_data env tree ld
            | Some imp \<Rightarrow> Inr (i_iv imp, take PW_LEAF_SENSITIVE_SIZE (i_cipher_text imp))) of
        Inl e \<Rightarrow> Inl e
      | Inr (iv, ct) \<Rightarrow>
          (let w = \<lparr>w_head = init_wrapped_leaf_data, w_hmac = [], w_iv = iv, w_pub = ld_pub ld,
                    w_cipher_text = ct\<rparr>
           in case compute_hmac env tree (import_leaf (unimported_of_wrapped w)) of
                Inl e \<Rightarrow> Inl e
              | Inr hmac \<Rightarrow>
                  (case compute_root_hash env tree (leaf_label (ld_pub ld)) hashes hmac of
                     Inl e \<Rightarrow> Inl e
                   | Inr root \<Rightarrow> Inr (w\<lparr>w_hmac := hmac\<rparr>, root))))"

section \<open>Validation\<close>

definition get_path_auxiliary_hash_count :: "merkle_tree \<Rightarrow> nat" where
  "get_path_auxiliary_hash_count tree = (2 ^ unat (bits_per_level tree) - 1) * unat (height tree)"

definition validate_tree_parameters :: "u8 \<Rightarrow> u8 \<Rightarrow> pw_code" where
  "validate_tree_parameters bits h =
     (let fan_out = 2 ^ unat bits mod 2 ^ 8
      in if unat bits < 1 \<or> unat bits > 5 then PW_ERR_BITS_PER_LEVEL_INVALID
         else if unat h < 1 \<or> unat h > 64 div unat bits \<or>
                 ((fan_out - 1) * unat h) * PW_HASH_SIZE > PW_MAX_PATH_SIZE
         then PW_ERR_HEIGHT_INVALID
         else PW_SUCCESS)"

definition validate_tree :: "merkle_tree \<Rightarrow> pw_code" where
  "validate_tree tree =
     (if validate_tree_parameters (bits_per_level tree) (height tree) \<noteq> PW_SUCCESS
      then PW_ERR_TREE_INVALID else PW_SUCCESS)"

definition validate_label :: "merkle_tree \<Rightarrow> u64 \<Rightarrow> pw_code" where
  "validate_label tree path =
     (let shift_by = bits_per_level tree * height tree
      in if drop_bit (unat shift_by) path = 0 then PW_SUCCESS else PW_ERR_LABEL_INVALID)"

fun validate_delay_loop :: "delay_schedule_entry list \<Rightarrow> nat \<Rightarrow> pw_code" where
  "validate_delay_loop sched 0 = PW_SUCCESS"
| "validate_delay_loop sched (Suc n) =
     (let x = Suc n
      in if sched_attempts (sched ! x) = 0
         then if sched_time_diff (sched ! x) \<noteq> 0 then PW_ERR_DELAY_SCHEDULE_INVALID
              else validate_delay_loop sched n
         else if sched_attempts (sched ! x) \<le> sched_attempts (sched ! (x - 1)) \<or>
                 sched_time_diff (sched ! x) \<le> sched_time_diff (sched ! (x - 1))
         then PW_ERR_DELAY_SCHEDULE_INVALID
         else validate_delay_loop sched n)"

definition validate_delay_schedule :: "delay_schedule_entry list \<Rightarrow> pw_code" where
  "validate_delay_schedule sched =
     (if sched_time_diff (sched ! 0) = 0 then PW_ERR_DELAY_SCHEDULE_INVALID
      else validate_delay_loop sched (PW_SCHED_COUNT - 1))"

fun validate_pcr_loop :: "pw_env \<Rightarrow> nat \<Rightarrow> valid_pcr_value list \<Rightarrow> pw_code" where
  "validate_pcr_loop env index [] = PW_ERR_PCR_NOT_MATCH"
| "validate_pcr_loop env index (v # vs) =
     (if pcr_bitmask0 v = 0 \<and> pcr_bitmask1 v = 0
      then if index = 0 then PW_SUCCESS else PW_ERR_PCR_NOT_MATCH
      else case pcr_digest_of env (pcr_bitmask0 v) (pcr_bitmask1 v) of
             None \<Rightarrow> PW_ERR_PCR_NOT_MATCH
           | Some d \<Rightarrow> if d = pcr_digest v then PW_SUCCESS else validate_pcr_loop env (index + 1) vs)"

definition validate_pcr_value :: "pw_env \<Rightarrow> valid_pcr_value list \<Rightarrow> pw_code" where
  "validate_pcr_value env criteria = validate_pcr_loop env 0 criteria"

definition expected_payload_len :: "u16 \<Rightarrow> nat" where
  "expected_payload_len minor =
     (if minor = 0 then PW_LEAF_PAYLOAD_SIZE - PW_VALID_PCR_CRITERIA_SIZE
      else if minor = PW_LEAF_MINOR_VERSION then PW_LEAF_PAYLOAD_SIZE
      else 0)"

definition validate_leaf_header :: "leaf_header \<Rightarrow> nat \<Rightarrow> nat \<Rightarrow> pw_code" where
  "validate_leaf_header head payload_len aux_hash_len =
     (let leaf_payload_len = unat (pub_len head) + unat (sec_len head)
      in if lv_major head \<noteq> PW_LEAF_MAJOR_VERSION then PW_ERR_LEAF_VERSION_MISMATCH
         else if lv_minor head \<le> PW_LEAF_MINOR_VERSION \<and>
                 leaf_payload_len \<noteq> expected_payload_len (lv_minor head)
         then PW_ERR_LENGTH_INVALID
         else if payload_len \<noteq> leaf_payload_len + (aux_hash_len mod 2 ^ 16) * PW_HASH_SIZE
         then PW_ERR_LENGTH_INVALID
         else PW_SUCCESS)"

definition validate_request_with_path ::
  "pw_env \<Rightarrow> merkle_tree \<Rightarrow> u64 \<Rightarrow> bytes \<Rightarrow> bytes \<Rightarrow> pw_code" where
  "validate_request_with_path env tree path hashes hmac =
     (let ret = validate_tree tree
      in if ret \<noteq> PW_SUCCESS then ret
         else let ret = validate_label tree path
              in if ret \<noteq> PW_SUCCESS then ret
                 else authenticate_path env tree path hashes hmac)"

definition validate_request_with_wrapped_leaf ::
  "pw_env \<Rightarrow> merkle_tree \<Rightarrow> nat \<Rightarrow> unimported_leaf_data \<Rightarrow>
   (imported_leaf_data \<times> leaf_data) pw_result" where
  "validate_request_with_wrapped_leaf env tree payload_len u =
     (let ret = validate_leaf_header (u_head u) payload_len (get_path_auxiliary_hash_count tree)
      in if ret \<noteq> PW_SUCCESS then Inl ret
         else
           (let imp = import_leaf u;
                ret = validate_request_with_path env tree (leaf_label (pub_of_bytes (i_pub imp)))
                        (i_hashes imp) (i_hmac imp)
            in if ret \<noteq> PW_SUCCESS then Inl ret
               else case compute_hmac env tree imp of
                 Inl e \<Rightarrow> Inl e
               | Inr hmac \<Rightarrow>
                   if hmac \<noteq> u_hmac u then Inl PW_ERR_HMAC_AUTH_FAILED
                   else case decrypt_leaf_data env tree imp of
                     Inl e \<Rightarrow> Inl e
                   | Inr ld \<Rightarrow>
                       Inr (imp,
                         if lv_minor (u_head u) = 0 \<and> lv_major (u_head u) = 0
                         then ld\<lparr>ld_pub := (ld_pub ld)\<lparr>valid_pcr_criteria :=
                                criteria_of_bytes (replicate PW_VALID_PCR_CRITERIA_SIZE 0)\<rparr>\<rparr>
                         else ld)))"

section \<open>Rate limit\<close>

definition update_timestamp :: "u64 \<Rightarrow> u32 \<Rightarrow> pw_timestamp" where
  "update_timestamp now restarts = \<lparr>boot_count = restarts, timer_value = now div SECOND\<rparr>"

text \<open>The number of entries the loop of \<open>test_rate_limit\<close> passes.\<close>

fun sched_index :: "u32 \<Rightarrow> delay_schedule_entry list \<Rightarrow> nat" where
  "sched_index attempts [] = 0"
| "sched_index attempts (e # es) =
     (if sched_attempts e = 0 then 0
      else if attempts < sched_attempts e then 0
      else Suc (sched_index attempts es))"

definition test_rate_limit :: "pw_env \<Rightarrow> u32 \<Rightarrow> leaf_public_data \<Rightarrow> pw_code \<times> u32" where
  "test_rate_limit env restarts pub =
     (let x = sched_index (attempt_count pub) (delay_schedule pub);
          delay = (if x > 0 then sched_time_diff (delay_schedule pub ! (x - 1)) else 0)
      in if delay = 0 then (PW_SUCCESS, 0)
         else if delay = PW_BLOCK_ATTEMPTS then (PW_ERR_RATE_LIMIT_REACHED, PW_BLOCK_ATTEMPTS)
         else
           (let current = update_timestamp (time_at_check env) restarts;
                ready_time = (if boot_count (leaf_timestamp pub) = boot_count current
                              then ucast delay + timer_value (leaf_timestamp pub) else ucast delay)
            in if timer_value current \<ge> ready_time then (PW_SUCCESS, 0)
               else (PW_ERR_RATE_LIMIT_REACHED, ucast (ready_time - timer_value current))))"

section \<open>The log and the stored tree\<close>

text \<open>\<open>Inl\<close>: the root was not found, with the index of the last valid entry, which is \<open>-1\<close>
  when there is none.\<close>

fun find_entry_from :: "nat \<Rightarrow> pw_log_entry list \<Rightarrow> bytes \<Rightarrow> int + nat" where
  "find_entry_from i [] root = Inl (int i - 1)"
| "find_entry_from i (e # es) root =
     (if e_type e = PW_MT_INVALID then Inl (int i - 1)
      else if root = e_root e then Inr i
      else find_entry_from (i + 1) es root)"

definition find_relevant_entry :: "pw_log_storage \<Rightarrow> bytes \<Rightarrow> int + nat" where
  "find_relevant_entry log root = find_entry_from 0 (log_entries log) root"

definition load_log_data :: "nv_state \<Rightarrow> pw_log_storage pw_result" where
  "load_log_data nv =
     (case getvar nv PW_LOG_VAR0 of
        None \<Rightarrow> Inl PW_ERR_NV_EMPTY
      | Some v \<Rightarrow>
          if length v \<noteq> 152 then Inl PW_ERR_NV_LENGTH_MISMATCH
          else if storage_version (log_of_bytes v) \<noteq> PW_STORAGE_VERSION then Inl PW_ERR_NV_VERSION_MISMATCH
          else Inr (log_of_bytes v))"

definition store_log_data :: "nv_state \<Rightarrow> pw_log_storage \<Rightarrow> pw_code \<times> nv_state" where
  "store_log_data nv log = (case setvar nv PW_LOG_VAR0 (bytes_of_log log) of (rv, nv') \<Rightarrow> (PW_EC rv, nv'))"

definition bytes_of_long_term :: "merkle_tree \<Rightarrow> bytes" where
  "bytes_of_long_term tree = to_le 2 PW_STORAGE_VERSION @ [bits_per_level tree, height tree] @ key_derivation_nonce tree"

definition load_tree_params :: "pw_env \<Rightarrow> pw_state \<Rightarrow> pw_code \<times> pw_state" where
  "load_tree_params env st =
     (case getvar (pw_nv st) PW_TREE_VAR of
        None \<Rightarrow> (PW_ERR_NV_EMPTY, st)
      | Some v \<Rightarrow>
          if length v \<noteq> 20 then (PW_ERR_NV_LENGTH_MISMATCH, st)
          else if of_le (field 0 2 v) \<noteq> PW_STORAGE_VERSION then (PW_ERR_NV_VERSION_MISMATCH, st)
          else (case derive_keys env ((pw_tree st)\<lparr>bits_per_level := v ! 2, height := v ! 3,
                       key_derivation_nonce := drop 4 v\<rparr>) of
                  (ret, tree) \<Rightarrow> (ret, st\<lparr>pw_tree := tree\<rparr>)))"

definition load_tree_root :: "pw_env \<Rightarrow> pw_state \<Rightarrow> pw_code \<times> pw_state" where
  "load_tree_root env st =
     (case getvar (pw_nv st) PW_LOG_VAR0 of
        None \<Rightarrow> (PW_ERR_NV_EMPTY, st)
      | Some v \<Rightarrow>
          if length v \<noteq> 152 then (PW_ERR_NV_LENGTH_MISMATCH, st)
          else if storage_version (log_of_bytes v) \<noteq> PW_STORAGE_VERSION then (PW_ERR_NV_VERSION_MISMATCH, st)
          else
            (let log = log_of_bytes v;
                 st1 = st\<lparr>pw_tree := (pw_tree st)\<lparr>mt_root := e_root (log_entries log ! 0)\<rparr>\<rparr>
             in if time_at_check env < RESTART_TIMER_THRESHOLD
                then (let log1 = log\<lparr>restart_count := restart_count log + 1\<rparr>
                      in case store_log_data (pw_nv st1) log1 of (ret, nv) \<Rightarrow>
                           if ret \<noteq> PW_SUCCESS then (ret, st1\<lparr>pw_nv := nv\<rparr>)
                           else (PW_SUCCESS, st1\<lparr>pw_nv := nv, pw_restart_count := restart_count log1\<rparr>))
                else (PW_SUCCESS, st1\<lparr>pw_restart_count := restart_count log\<rparr>)))"

definition load_merkle_tree :: "pw_env \<Rightarrow> pw_state \<Rightarrow> pw_code \<times> pw_state" where
  "load_merkle_tree env st =
     (case load_tree_params env st of (ret, st1) \<Rightarrow>
        if ret \<noteq> PW_SUCCESS then (ret, st1) else load_tree_root env st1)"

definition pinweaver_init :: "pw_env \<Rightarrow> pw_state \<Rightarrow> pw_state" where
  "pinweaver_init env st = snd (load_merkle_tree env st)"

definition new_tree_log :: "merkle_tree \<Rightarrow> pw_log_storage" where
  "new_tree_log tree = \<lparr>storage_version = PW_STORAGE_VERSION, restart_count = 0,
     log_entries = [empty_log_entry\<lparr>e_type := PW_RESET_TREE, e_root := mt_root tree\<rparr>, empty_log_entry]\<rparr>"

definition store_merkle_tree :: "pw_state \<Rightarrow> merkle_tree \<Rightarrow> pw_code \<times> pw_state" where
  "store_merkle_tree st tree =
     (case setvar (pw_nv st) PW_TREE_VAR (bytes_of_long_term tree) of (rv, nv) \<Rightarrow>
        if rv \<noteq> EC_SUCCESS then (PW_EC rv, st\<lparr>pw_nv := nv\<rparr>)
        else case store_log_data nv (new_tree_log tree) of (ret, nv2) \<Rightarrow>
          if ret = PW_SUCCESS then (ret, st\<lparr>pw_nv := nv2, pw_restart_count := 0\<rparr>)
          else (ret, st\<lparr>pw_nv := nv2\<rparr>))"

definition log_roll_for_append :: "nv_state \<Rightarrow> pw_log_storage pw_result" where
  "log_roll_for_append nv =
     (case load_log_data nv of
        Inl e \<Rightarrow> Inl e
      | Inr log \<Rightarrow>
          Inr (log\<lparr>log_entries := empty_log_entry # take (PW_LOG_ENTRY_COUNT - 1) (log_entries log)\<rparr>))"

text \<open>Filling the rolled entry and writing the log back, shared by the three kinds of entry.\<close>

definition log_append :: "nv_state \<Rightarrow> pw_log_entry \<Rightarrow> pw_code \<times> nv_state" where
  "log_append nv entry =
     (case log_roll_for_append nv of
        Inl e \<Rightarrow> (e, nv)
      | Inr log \<Rightarrow> store_log_data nv (log\<lparr>log_entries := (log_entries log)[0 := entry]\<rparr>))"

definition log_insert_leaf :: "nv_state \<Rightarrow> u64 \<Rightarrow> bytes \<Rightarrow> bytes \<Rightarrow> pw_code \<times> nv_state" where
  "log_insert_leaf nv label root hmac =
     log_append nv (empty_log_entry\<lparr>e_type := PW_INSERT_LEAF, e_label := label, e_root := root, e_union := hmac\<rparr>)"

definition log_remove_leaf :: "nv_state \<Rightarrow> u64 \<Rightarrow> bytes \<Rightarrow> pw_code \<times> nv_state" where
  "log_remove_leaf nv label root =
     log_append nv (empty_log_entry\<lparr>e_type := PW_REMOVE_LEAF, e_label := label, e_root := root\<rparr>)"

definition log_auth :: "nv_state \<Rightarrow> u64 \<Rightarrow> bytes \<Rightarrow> pw_code \<Rightarrow> pw_timestamp \<Rightarrow> pw_code \<times> nv_state" where
  "log_auth nv label root code ts =
     log_append nv (empty_log_entry\<lparr>e_type := PW_TRY_AUTH, e_label := label, e_root := root,
       e_union := auth_union ts (pw_code_value code)\<rparr>)"

section \<open>Request handlers\<close>

text \<open>A handler gets the data part of the message buffer and the size of the request in it, and
  returns the code, the bytes of the response and the new state.\<close>

type_synonym pw_handled = "pw_code \<times> bytes \<times> pw_state"

definition SIZEOF_INSERT_LEAF :: nat where "SIZEOF_INSERT_LEAF = 300"
definition SIZEOF_REMOVE_LEAF :: nat where "SIZEOF_REMOVE_LEAF = 40"
definition SIZEOF_LEAF_REQUEST :: nat where "SIZEOF_LEAF_REQUEST = 88"

definition zero_merkle_tree :: merkle_tree where
  "zero_merkle_tree = \<lparr>bits_per_level = 0, height = 0, mt_root = replicate 32 0,
     key_derivation_nonce = replicate 16 0, hmac_key = replicate 32 0, wrap_key = replicate 32 0\<rparr>"

definition pw_handle_reset_tree :: "pw_env \<Rightarrow> pw_state \<Rightarrow> bytes \<Rightarrow> nat \<Rightarrow> pw_handled" where
  "pw_handle_reset_tree env st data req_size =
     (if req_size \<noteq> 2 then (PW_ERR_LENGTH_INVALID, [], st)
      else
        (let bits = data ! 0; h = data ! 1; ret = validate_tree_parameters bits h
         in if ret \<noteq> PW_SUCCESS then (ret, [], st)
            else case create_merkle_tree env bits h zero_merkle_tree of (ret, new_tree) \<Rightarrow>
              if ret \<noteq> PW_SUCCESS then (ret, [], st)
              else case store_merkle_tree st new_tree of (ret, st1) \<Rightarrow>
                if ret \<noteq> PW_SUCCESS then (ret, [], st1)
                else (PW_SUCCESS, [], st1\<lparr>pw_tree := new_tree\<rparr>)))"

text \<open>The leaf of an insert request, its fields at their offsets in the request.\<close>

definition insert_leaf_data :: "bytes \<Rightarrow> leaf_data" where
  "insert_leaf_data data =
     \<lparr>ld_pub = \<lparr>leaf_label = of_le (field 0 8 data), delay_schedule = schedule_of_bytes (field 8 128 data),
                leaf_timestamp = \<lparr>boot_count = 0, timer_value = 0\<rparr>, attempt_count = 0,
                valid_pcr_criteria = criteria_of_bytes (field 232 68 data)\<rparr>,
      ld_sec = \<lparr>low_entropy_secret = field 136 32 data, high_entropy_secret = field 168 32 data,
                reset_secret = field 200 32 data\<rparr>\<rparr>"

definition set_root :: "pw_state \<Rightarrow> bytes \<Rightarrow> pw_state" where
  "set_root st root = st\<lparr>pw_tree := (pw_tree st)\<lparr>mt_root := root\<rparr>\<rparr>"

definition pw_handle_insert_leaf :: "pw_env \<Rightarrow> pw_state \<Rightarrow> bytes \<Rightarrow> nat \<Rightarrow> pw_handled" where
  "pw_handle_insert_leaf env st data req_size =
     (let tree = pw_tree st; ld = insert_leaf_data data; hashes = drop SIZEOF_INSERT_LEAF data
      in if req_size \<noteq> SIZEOF_INSERT_LEAF + get_path_auxiliary_hash_count tree * PW_HASH_SIZE
         then (PW_ERR_LENGTH_INVALID, [], st)
         else
           (let ret = validate_request_with_path env tree (leaf_label (ld_pub ld)) hashes (replicate PW_HASH_SIZE 0)
            in if ret \<noteq> PW_SUCCESS then (ret, [], st)
               else let ret = validate_delay_schedule (delay_schedule (ld_pub ld))
                 in if ret \<noteq> PW_SUCCESS then (ret, [], st)
                    else case handle_leaf_update env tree ld hashes None of
                      Inl e \<Rightarrow> (e, [], st)
                    | Inr (w, new_root) \<Rightarrow>
                        (case log_insert_leaf (pw_nv st) (leaf_label (ld_pub ld)) new_root (w_hmac w) of (ret, nv) \<Rightarrow>
                           if ret \<noteq> PW_SUCCESS then (ret, [], st\<lparr>pw_nv := nv\<rparr>)
                           else (ret, bytes_of_wrapped w, set_root (st\<lparr>pw_nv := nv\<rparr>) new_root))))"

definition pw_handle_remove_leaf :: "pw_env \<Rightarrow> pw_state \<Rightarrow> bytes \<Rightarrow> nat \<Rightarrow> pw_handled" where
  "pw_handle_remove_leaf env st data req_size =
     (let tree = pw_tree st; location = of_le (field 0 8 data); leaf_hmac = field 8 32 data;
          hashes = drop SIZEOF_REMOVE_LEAF data
      in if req_size \<noteq> SIZEOF_REMOVE_LEAF + get_path_auxiliary_hash_count tree * PW_HASH_SIZE
         then (PW_ERR_LENGTH_INVALID, [], st)
         else
           (let ret = validate_request_with_path env tree location hashes leaf_hmac
            in if ret \<noteq> PW_SUCCESS then (ret, [], st)
               else case compute_root_hash env tree location hashes (replicate PW_HASH_SIZE 0) of
                 Inl e \<Rightarrow> (e, [], st)
               | Inr new_root \<Rightarrow>
                   (case log_remove_leaf (pw_nv st) location new_root of (ret, nv) \<Rightarrow>
                      if ret \<noteq> PW_SUCCESS then (ret, [], st\<lparr>pw_nv := nv\<rparr>)
                      else (ret, [], set_root (st\<lparr>pw_nv := nv\<rparr>) new_root))))"

definition try_auth_response :: "u32 \<Rightarrow> bytes \<Rightarrow> bytes \<Rightarrow> bytes \<Rightarrow> bytes" where
  "try_auth_response seconds secret reset leaf = to_le 4 seconds @ secret @ reset @ leaf"

definition zeros :: bytes where "zeros = replicate PW_SECRET_SIZE 0"

text \<open>The outcome for a leaf whose attempt is allowed: code, new attempt count and the secrets of the
  row of \<open>results_table\<close> that the comparison selects.\<close>

definition auth_row :: "leaf_data \<Rightarrow> bytes \<Rightarrow> pw_code \<times> u32 \<times> bytes \<times> bytes" where
  "auth_row ld secret =
     (let attempts = attempt_count (ld_pub ld);
          failed = (if attempts \<noteq> 0xFFFFFFFF then attempts + 1 else attempts)
      in if secret = low_entropy_secret (ld_sec ld)
         then (PW_SUCCESS, 0, high_entropy_secret (ld_sec ld), reset_secret (ld_sec ld))
         else (PW_ERR_LOWENT_AUTH_FAILED, failed, zeros, zeros))"

definition pw_handle_try_auth :: "pw_env \<Rightarrow> pw_state \<Rightarrow> bytes \<Rightarrow> nat \<Rightarrow> pw_handled" where
  "pw_handle_try_auth env st data req_size =
     (let tree = pw_tree st
      in if req_size < SIZEOF_LEAF_REQUEST then (PW_ERR_LENGTH_INVALID, [], st)
         else case validate_request_with_wrapped_leaf env tree (req_size - SIZEOF_LEAF_REQUEST)
                     (unimported_of_bytes (drop PW_SECRET_SIZE data)) of
           Inl e \<Rightarrow> (e, [], st)
         | Inr (imp, ld) \<Rightarrow>
             (let ret = validate_pcr_value env (valid_pcr_criteria (ld_pub ld))
              in if ret \<noteq> PW_SUCCESS then (ret, [], st)
                 else case test_rate_limit env (pw_restart_count st) (ld_pub ld) of (ret, seconds_to_wait) \<Rightarrow>
                   if ret \<noteq> PW_SUCCESS
                   then (ret, try_auth_response seconds_to_wait zeros zeros
                                (replicate (PW_UNIMPORTED_SIZE + PW_LEAF_PAYLOAD_SIZE) 0), st)
                   else case auth_row ld (field 0 PW_SECRET_SIZE data) of (code, attempts, secret, reset) \<Rightarrow>
                     (let ts = update_timestamp (time_at_stamp env) (pw_restart_count st);
                          ld1 = ld\<lparr>ld_pub := (ld_pub ld)\<lparr>leaf_timestamp := ts, attempt_count := attempts\<rparr>\<rparr>
                      in case handle_leaf_update env tree ld1 (i_hashes imp) (Some imp) of
                           Inl e \<Rightarrow> (e, [], st)
                         | Inr (w, new_root) \<Rightarrow>
                             (case log_auth (pw_nv st) (leaf_label (w_pub w)) new_root code ts of (ret, nv) \<Rightarrow>
                                if ret \<noteq> PW_SUCCESS then (ret, [], st\<lparr>pw_nv := nv\<rparr>)
                                else (code, try_auth_response 0 secret reset (bytes_of_wrapped w),
                                      set_root (st\<lparr>pw_nv := nv\<rparr>) new_root)))))"

definition pw_handle_reset_auth :: "pw_env \<Rightarrow> pw_state \<Rightarrow> bytes \<Rightarrow> nat \<Rightarrow> pw_handled" where
  "pw_handle_reset_auth env st data req_size =
     (let tree = pw_tree st
      in if req_size < SIZEOF_LEAF_REQUEST then (PW_ERR_LENGTH_INVALID, [], st)
         else case validate_request_with_wrapped_leaf env tree (req_size - SIZEOF_LEAF_REQUEST)
                     (unimported_of_bytes (drop PW_SECRET_SIZE data)) of
           Inl e \<Rightarrow> (e, [], st)
         | Inr (imp, ld) \<Rightarrow>
             if field 0 PW_SECRET_SIZE data \<noteq> reset_secret (ld_sec ld) then (PW_ERR_RESET_AUTH_FAILED, [], st)
             else
               (let ld1 = ld\<lparr>ld_pub := (ld_pub ld)\<lparr>attempt_count := 0\<rparr>\<rparr>
                in case handle_leaf_update env tree ld1 (i_hashes imp) (Some imp) of
                     Inl e \<Rightarrow> (e, [], st)
                   | Inr (w, new_root) \<Rightarrow>
                       (case log_auth (pw_nv st) (leaf_label (ld_pub ld1)) new_root PW_SUCCESS
                               (leaf_timestamp (ld_pub ld1)) of (ret, nv) \<Rightarrow>
                          if ret \<noteq> PW_SUCCESS then (ret, [], st\<lparr>pw_nv := nv\<rparr>)
                          else (ret, high_entropy_secret (ld_sec ld1) @ bytes_of_wrapped w,
                                set_root (st\<lparr>pw_nv := nv\<rparr>) new_root))))"

definition pw_handle_get_log :: "pw_env \<Rightarrow> pw_state \<Rightarrow> bytes \<Rightarrow> nat \<Rightarrow> pw_handled" where
  "pw_handle_get_log env st data req_size =
     (if req_size \<noteq> PW_HASH_SIZE then (PW_ERR_LENGTH_INVALID, [], st)
      else let ret = validate_tree (pw_tree st)
        in if ret \<noteq> PW_SUCCESS then (ret, [], st)
           else case load_log_data (pw_nv st) of
             Inl e \<Rightarrow> (e, [], st)
           | Inr log \<Rightarrow>
               (let n = (case find_relevant_entry log (field 0 PW_HASH_SIZE data) of
                           Inl x \<Rightarrow> nat (x + 1) | Inr x \<Rightarrow> x + 1)
                in (PW_SUCCESS, concat (map bytes_of_log_entry (take n (log_entries log))), st)))"

definition pw_handle_log_replay :: "pw_env \<Rightarrow> pw_state \<Rightarrow> bytes \<Rightarrow> nat \<Rightarrow> pw_handled" where
  "pw_handle_log_replay env st data req_size =
     (let tree = pw_tree st; u = unimported_of_bytes (drop PW_HASH_SIZE data)
      in if req_size < SIZEOF_LEAF_REQUEST then (PW_ERR_LENGTH_INVALID, [], st)
         else let ret = validate_tree tree
           in if ret \<noteq> PW_SUCCESS then (ret, [], st)
              else let ret = validate_leaf_header (u_head u) (req_size - SIZEOF_LEAF_REQUEST)
                               (get_path_auxiliary_hash_count tree)
                in if ret \<noteq> PW_SUCCESS then (ret, [], st)
                   else let imp = import_leaf u
                     in case load_log_data (pw_nv st) of
                          Inl e \<Rightarrow> (e, [], st)
                        | Inr log \<Rightarrow>
                            (case find_relevant_entry log (field 0 PW_HASH_SIZE data) of
                               Inl x \<Rightarrow> (PW_ERR_ROOT_NOT_FOUND, [], st)
                             | Inr x \<Rightarrow>
                                 (let entry = log_entries log ! x
                                  in if e_type entry \<noteq> PW_TRY_AUTH then (PW_ERR_TYPE_INVALID, [], st)
                                     else case compute_hmac env tree imp of
                                       Inl e \<Rightarrow> (e, [], st)
                                     | Inr hmac \<Rightarrow>
                                         if hmac \<noteq> u_hmac u then (PW_ERR_HMAC_AUTH_FAILED, [], st)
                                         else case decrypt_leaf_data env tree imp of
                                           Inl e \<Rightarrow> (e, [], st)
                                         | Inr ld \<Rightarrow>
                                             if leaf_label (ld_pub ld) \<noteq> e_label entry
                                             then (PW_ERR_LABEL_INVALID, [], st)
                                             else
                                               (let pub = ld_pub ld;
                                                    attempts = (if e_return_code entry = pw_code_value PW_SUCCESS
                                                                then 0 else attempt_count pub + 1);
                                                    ld1 = ld\<lparr>ld_pub := pub\<lparr>attempt_count := attempts,
                                                              leaf_timestamp := e_timestamp entry\<rparr>\<rparr>
                                                in case handle_leaf_update env tree ld1 (i_hashes imp) (Some imp) of
                                                     Inl e \<Rightarrow> (e, [], st)
                                                   | Inr (w, root) \<Rightarrow>
                                                       if root \<noteq> e_root entry
                                                       then (PW_ERR_PATH_AUTH_FAILED, [], st)
                                                       else (PW_SUCCESS, bytes_of_wrapped w, st)))))"

section \<open>The message layer\<close>

record pw_request =
  rq_version :: u8
  rq_type :: u8
  rq_data_length :: u16
  rq_data :: bytes

record pw_response =
  rs_version :: u8
  rs_data_length :: u16
  rs_result_code :: u32
  rs_root :: bytes
  rs_data :: bytes

definition make_compatible_request :: "merkle_tree \<Rightarrow> pw_request \<Rightarrow> pw_request option" where
  "make_compatible_request tree rq =
     (if rq_version rq = 0
      then if rq_type rq = PW_INSERT_LEAF
           then (let hashes_size = (get_path_auxiliary_hash_count tree * PW_HASH_SIZE) mod 2 ^ 16;
                     moved = blit (rq_data rq) SIZEOF_INSERT_LEAF (field 232 hashes_size (rq_data rq))
                 in Some (rq\<lparr>rq_data := blit moved 232 (replicate PW_VALID_PCR_CRITERIA_SIZE 0),
                             rq_data_length := rq_data_length rq + of_nat PW_VALID_PCR_CRITERIA_SIZE\<rparr>))
           else Some rq
      else if rq_version rq = PW_PROTOCOL_VERSION then Some rq
      else None)"

definition make_compatible_response :: "u8 \<Rightarrow> u8 \<Rightarrow> pw_response \<Rightarrow> pw_response" where
  "make_compatible_response version req_type rs =
     (if version \<ge> PW_PROTOCOL_VERSION then rs
      else
        (let rs1 = rs\<lparr>rs_version := version\<rparr>
         in if version = 0 \<and> req_type = PW_TRY_AUTH
            then rs1\<lparr>rs_data := take 36 (rs_data rs) @
                       field 68 (PW_LEAF_PAYLOAD_SIZE + PW_UNIMPORTED_SIZE) (rs_data rs),
                     rs_data_length := rs_data_length rs - of_nat PW_SECRET_SIZE\<rparr>
            else rs1))"

definition pw_dispatch :: "pw_env \<Rightarrow> pw_state \<Rightarrow> pw_request \<Rightarrow> pw_handled" where
  "pw_dispatch env st rq =
     (let ty = rq_type rq; data = rq_data rq; n = unat (rq_data_length rq)
      in if ty = PW_RESET_TREE then pw_handle_reset_tree env st data n
         else if ty = PW_INSERT_LEAF then pw_handle_insert_leaf env st data n
         else if ty = PW_REMOVE_LEAF then pw_handle_remove_leaf env st data n
         else if ty = PW_TRY_AUTH then pw_handle_try_auth env st data n
         else if ty = PW_RESET_AUTH then pw_handle_reset_auth env st data n
         else if ty = PW_GET_LOG then pw_handle_get_log env st data n
         else if ty = PW_LOG_REPLAY then pw_handle_log_replay env st data n
         else (PW_ERR_TYPE_INVALID, [], st))"

definition pw_handle_request :: "pw_env \<Rightarrow> pw_state \<Rightarrow> pw_request \<Rightarrow> pw_code \<times> pw_response \<times> pw_state" where
  "pw_handle_request env st rq =
     (case (case make_compatible_request (pw_tree st) rq of
              None \<Rightarrow> (PW_ERR_VERSION_MISMATCH, [], st)
            | Some rq1 \<Rightarrow> pw_dispatch env st rq1) of
        (ret, data, st1) \<Rightarrow>
          (ret,
           make_compatible_response (rq_version rq) (rq_type rq)
             \<lparr>rs_version = PW_PROTOCOL_VERSION, rs_data_length = of_nat (length data),
              rs_result_code = pw_code_value ret, rs_root = mt_root (pw_tree st1), rs_data = data\<rparr>,
           st1))"

datatype vendor_cmd_rc = VENDOR_RC_SUCCESS | VENDOR_RC_INTERNAL_ERROR | VENDOR_RC_REQUEST_TOO_BIG

definition bytes_of_response :: "pw_response \<Rightarrow> bytes" where
  "bytes_of_response rs = [rs_version rs] @ to_le 2 (rs_data_length rs) @ to_le 4 (rs_result_code rs) @
     rs_root rs @ rs_data rs"

text \<open>The response size the caller is told, next to the bytes written.\<close>

definition pw_vendor_specific_command ::
  "pw_env \<Rightarrow> pw_state \<Rightarrow> bytes \<Rightarrow> nat \<Rightarrow> vendor_cmd_rc \<times> (nat \<times> bytes) option \<times> pw_state" where
  "pw_vendor_specific_command env st buf input_size =
     (if input_size < 4 then (VENDOR_RC_INTERNAL_ERROR, None, st)
      else
        (let data_length = of_le (field 2 2 buf) :: u16
         in if input_size \<noteq> unat data_length + 4 then (VENDOR_RC_REQUEST_TOO_BIG, None, st)
            else case pw_handle_request env st
                        \<lparr>rq_version = buf ! 0, rq_type = buf ! 1, rq_data_length = data_length,
                         rq_data = drop 4 buf\<rparr> of
              (ret, rs, st1) \<Rightarrow>
                (VENDOR_RC_SUCCESS, Some (unat (rs_data_length rs) + 39, bytes_of_response rs), st1)))"

end
