(* ===== verification/Pw_Merkle.thy ===== *)
theory Pw_Merkle
  imports Pinweaver
begin

text \<open>
  The Merkle tree PinWeaver stands for.  \<open>mtree\<close> is the whole tree, which neither side keeps as
  such: the chip keeps its root, the host the leaves and the hashes of the siblings on a path.  The
  theorems relate \<open>compute_root_hash\<close>, which climbs one path with the bits of the label, to
  the hash of that tree and to the replacement of one leaf in it.
\<close>

section \<open>Trees, paths and their hashes\<close>

datatype mtree = MLeaf bytes | MNode "mtree list"

fun merkle :: "(bytes \<Rightarrow> bytes) \<Rightarrow> mtree \<Rightarrow> bytes" where
  "merkle H (MLeaf h) = h"
| "merkle H (MNode ts) = H (concat (map (merkle H) ts))"

fun complete_tree :: "nat \<Rightarrow> nat \<Rightarrow> mtree \<Rightarrow> bool" where
  "complete_tree k 0 (MLeaf h) \<longleftrightarrow> length h = PW_HASH_SIZE"
| "complete_tree k 0 (MNode ts) \<longleftrightarrow> False"
| "complete_tree k (Suc n) (MLeaf h) \<longleftrightarrow> False"
| "complete_tree k (Suc n) (MNode ts) \<longleftrightarrow> length ts = k \<and> list_all (complete_tree k n) ts"

text \<open>The leaf a label selects, the tree with that leaf replaced, and the hashes of the siblings
  on its path, those of the lowest level first.\<close>

fun leaf_at :: "nat \<Rightarrow> nat \<Rightarrow> nat \<Rightarrow> mtree \<Rightarrow> bytes" where
  "leaf_at k (Suc n) label (MNode ts) = leaf_at k n (label mod k ^ n) (ts ! (label div k ^ n))"
| "leaf_at k n label (MLeaf h) = h"
| "leaf_at k 0 label (MNode ts) = []"

fun set_leaf :: "nat \<Rightarrow> nat \<Rightarrow> nat \<Rightarrow> bytes \<Rightarrow> mtree \<Rightarrow> mtree" where
  "set_leaf k (Suc n) label h' (MNode ts) =
     MNode (ts[label div k ^ n := set_leaf k n (label mod k ^ n) h' (ts ! (label div k ^ n))])"
| "set_leaf k n label h' (MLeaf h) = MLeaf h'"
| "set_leaf k 0 label h' (MNode ts) = MNode ts"

fun siblings :: "(bytes \<Rightarrow> bytes) \<Rightarrow> nat \<Rightarrow> nat \<Rightarrow> nat \<Rightarrow> mtree \<Rightarrow> bytes" where
  "siblings H k (Suc n) label (MNode ts) =
     siblings H k n (label mod k ^ n) (ts ! (label div k ^ n)) @
     concat (map (merkle H) (take (label div k ^ n) ts @ drop (Suc (label div k ^ n)) ts))"
| "siblings H k n label (MLeaf h) = []"
| "siblings H k 0 label (MNode ts) = []"

section \<open>Climbing a path\<close>

definition level_message :: "nat \<Rightarrow> nat \<Rightarrow> bytes \<Rightarrow> bytes \<Rightarrow> bytes" where
  "level_message k i sibs child =
     take (PW_HASH_SIZE * i) sibs @ child @ take (PW_HASH_SIZE * (k - 1 - i)) (drop (PW_HASH_SIZE * i) sibs)"

fun climb :: "(bytes \<Rightarrow> bytes) \<Rightarrow> nat \<Rightarrow> nat \<Rightarrow> nat \<Rightarrow> bytes \<Rightarrow> bytes \<Rightarrow> bytes" where
  "climb H k 0 label sibs child = child"
| "climb H k (Suc n) label sibs child =
     climb H k n (label div k) (drop (PW_HASH_SIZE * (k - 1)) sibs)
       (H (level_message k (label mod k) sibs child))"

text \<open>The messages that are hashed on the way up.\<close>

fun climb_messages :: "(bytes \<Rightarrow> bytes) \<Rightarrow> nat \<Rightarrow> nat \<Rightarrow> nat \<Rightarrow> bytes \<Rightarrow> bytes \<Rightarrow> bytes list" where
  "climb_messages H k 0 label sibs child = []"
| "climb_messages H k (Suc n) label sibs child =
     level_message k (label mod k) sibs child #
     climb_messages H k n (label div k) (drop (PW_HASH_SIZE * (k - 1)) sibs)
       (H (level_message k (label mod k) sibs child))"

definition hash_engine :: "pw_env \<Rightarrow> (bytes \<Rightarrow> bytes) \<Rightarrow> bool" where
  "hash_engine env H \<longleftrightarrow> (\<forall>m. hw_sha256 env m = Some (H m) \<and> length (H m) = PW_HASH_SIZE)"

section \<open>The code climbs the path\<close>

lemma tree_parameters:
  assumes "validate_tree tree = PW_SUCCESS"
  shows "1 \<le> unat (bits_per_level tree)" "unat (bits_per_level tree) \<le> 5" "1 \<le> unat (height tree)"
    "unat (height tree) \<le> 64 div unat (bits_per_level tree)"
    "num_aux tree = 2 ^ unat (bits_per_level tree) - 1" "unat (bits_per_level tree) * unat (height tree) \<le> 64"
proof -
  show b: "1 \<le> unat (bits_per_level tree)" "unat (bits_per_level tree) \<le> 5" "1 \<le> unat (height tree)"
    and h: "unat (height tree) \<le> 64 div unat (bits_per_level tree)"
    using assms
    by (auto simp: validate_tree_def validate_tree_parameters_def Let_def split: if_splits)
  have "(2::nat) ^ unat (bits_per_level tree) \<le> 2 ^ 5" by (rule power_increasing) (use b in auto)
  then show "num_aux tree = 2 ^ unat (bits_per_level tree) - 1" by (simp add: num_aux_def)
  have "unat (bits_per_level tree) * unat (height tree) \<le> unat (bits_per_level tree) * (64 div unat (bits_per_level tree))"
    using h by (rule mult_le_mono2)
  also have "\<dots> \<le> 64" by simp
  finally show "unat (bits_per_level tree) * unat (height tree) \<le> 64" .
qed

lemma digit_of_label:
  assumes "b \<le> 5"
  shows "unat (ucast ((w :: u64) AND of_nat (2 ^ b - 1)) :: u8) = unat w mod 2 ^ b"
proof -
  have m: "(of_nat (2 ^ b - 1) :: u64) = mask b"
    by (simp add: mask_eq_exp_minus_1 of_nat_diff)
  have "unat (w AND mask b) = take_bit b (unat w)"
    by (simp only: take_bit_eq_mask [symmetric] unsigned_take_bit_eq)
  then have "unat (w AND mask b) = unat w mod 2 ^ b" by (simp only: take_bit_eq_mod)
  moreover have "unat w mod 2 ^ b < 256"
  proof -
    have "(2::nat) ^ b \<le> 2 ^ 5" using assms by (rule power_increasing) simp
    then have "(2::nat) ^ b \<le> 32" by simp
    moreover have "unat w mod 2 ^ b < 2 ^ b" by simp
    ultimately show ?thesis by linarith
  qed
  ultimately show ?thesis unfolding m by (simp add: unsigned_ucast_eq take_bit_eq_mod)
qed

lemma unat_drop_bit: "unat (drop_bit b (w :: u64)) = unat w div 2 ^ b"
proof -
  have "unat w < 2 ^ LENGTH(64)" by (rule unsigned_less)
  then have "unat w < 2 ^ 64" by simp
  then have "take_bit 64 (unat w) = unat w" by (rule take_bit_nat_eq_self)
  then show ?thesis by (simp only: unsigned_drop_bit_eq) (simp add: drop_bit_eq_div)
qed

lemma compute_hash_message:
  assumes "hash_engine env H" "unat l = i" "i < k"
  shows "compute_hash env hashes (k - 1) l child = Inr (H (level_message k i hashes child))"
  using assms by (auto simp: compute_hash_def level_message_def hash_engine_def Let_def)

lemma compute_hash_level:
  assumes "hash_engine env H" "validate_tree tree = PW_SUCCESS"
  shows "compute_hash env hashes (num_aux tree) (ucast ((index :: u64) AND of_nat (num_aux tree))) child =
    Inr (H (level_message (2 ^ unat (bits_per_level tree)) (unat index mod 2 ^ unat (bits_per_level tree)) hashes child))"
proof -
  note t = tree_parameters [OF assms(2)]
  show ?thesis
    unfolding t(5)
    by (rule compute_hash_message [OF assms(1) digit_of_label [OF t(2)]]) simp
qed

lemma root_hash_loop_climb:
  assumes "hash_engine env H" "validate_tree tree = PW_SUCCESS"
  shows "root_hash_loop env tree n index hashes temp =
    Inr (climb H (2 ^ unat (bits_per_level tree)) n (unat index div 2 ^ unat (bits_per_level tree))
           (drop (PW_HASH_SIZE * (2 ^ unat (bits_per_level tree) - 1)) hashes) temp)"
proof (induction n arbitrary: index hashes temp)
  case (Suc n)
  have "unat (drop_bit (unat (bits_per_level tree)) index) = unat index div 2 ^ unat (bits_per_level tree)"
    by (rule unat_drop_bit)
  then show ?case
    unfolding root_hash_loop.simps Let_def compute_hash_level [OF assms] sum.case Suc.IH
    by (simp add: tree_parameters(5) [OF assms(2)])
qed simp

lemma compute_root_hash_climb:
  assumes "hash_engine env H" "validate_tree tree = PW_SUCCESS"
  shows "compute_root_hash env tree path hashes child =
    Inr (climb H (2 ^ unat (bits_per_level tree)) (unat (height tree)) (unat path) hashes child)"
proof -
  obtain n where n: "unat (height tree) = Suc n" using tree_parameters(3) [OF assms(2)] by (cases "unat (height tree)") auto
  show ?thesis
    by (simp add: compute_root_hash_def compute_hash_level [OF assms] root_hash_loop_climb [OF assms] n)
qed

section \<open>Climbing along a tree\<close>

text \<open>The last level of a climb: its digit is the most significant one.\<close>

lemma climb_last:
  assumes "0 < k" "PW_HASH_SIZE * (k - 1) * n \<le> length sibs"
  shows "climb H k (Suc n) label (sibs @ tops) child =
    (let lower = take (PW_HASH_SIZE * (k - 1) * n) sibs; upper = drop (PW_HASH_SIZE * (k - 1) * n) sibs
     in H (level_message k ((label div k ^ n) mod k) (upper @ tops) (climb H k n (label mod k ^ n) lower child)))"
  using assms
proof (induction n arbitrary: label sibs child)
  case 0
  then show ?case by simp
next
  case (Suc n)
  let ?w = "PW_HASH_SIZE * (k - 1)"
  have w: "?w \<le> length sibs" using Suc.prems(2) by simp
  define c where "c = H (level_message k (label mod k) sibs child)"
  have cut: "level_message k (label mod k) (xs @ ys) z = level_message k (label mod k) xs z"
    if "?w \<le> length xs" for xs ys z
  proof -
    have i: "label mod k \<le> k - 1" using Suc.prems(1) by (simp add: Suc_leI less_Suc_eq_le [symmetric])
    have "PW_HASH_SIZE * (label mod k) \<le> ?w" using i by simp
    moreover have "PW_HASH_SIZE * (label mod k) + PW_HASH_SIZE * (k - 1 - label mod k) = ?w"
      using i by (metis add_mult_distrib2 le_add_diff_inverse)
    ultimately show ?thesis using that by (simp add: level_message_def)
  qed
  have "climb H k (Suc (Suc n)) label (sibs @ tops) child =
      climb H k (Suc n) (label div k) (drop ?w sibs @ tops) c"
    using w by (simp add: c_def cut del: climb.simps) (simp add: cut)
  also have "\<dots> = (let lower = take (?w * n) (drop ?w sibs); upper = drop (?w * n) (drop ?w sibs)
     in H (level_message k ((label div k div k ^ n) mod k) (upper @ tops) (climb H k n (label div k mod k ^ n) lower c)))"
    using Suc.prems by (intro Suc.IH) (simp_all add: algebra_simps)
  also have "\<dots> = (let lower = take (?w * Suc n) sibs; upper = drop (?w * Suc n) sibs
     in H (level_message k ((label div k ^ Suc n) mod k) (upper @ tops) (climb H k (Suc n) (label mod k ^ Suc n) lower child)))"
  proof -
    have d: "label mod k ^ Suc n div k = label div k mod k ^ n" "label mod k ^ Suc n mod k = label mod k"
      by (simp_all add: mod_mult2_eq mod_mod_cancel Suc.prems(1))
    have t: "take ?w (take (?w * Suc n) sibs) = take ?w sibs" "drop ?w (take (?w * Suc n) sibs) = take (?w * n) (drop ?w sibs)"
      by (simp_all add: drop_take min_absorb1)
    have "level_message k (label mod k) (take (?w * Suc n) sibs) child = level_message k (label mod k) sibs child"
      using cut [of "take (?w * Suc n) sibs" "drop (?w * Suc n) sibs" child] w by simp
    then show ?thesis using d t by (simp add: Let_def c_def div_mult2_eq drop_drop add.commute)
  qed
  finally show ?case .
qed

lemma length_merkle:
  assumes "\<forall>m. length (H m) = PW_HASH_SIZE" "complete_tree k n t"
  shows "length (merkle H t) = PW_HASH_SIZE"
  using assms by (cases t; cases n) auto

lemma length_concat_merkle:
  assumes "\<forall>m. length (H m) = PW_HASH_SIZE" "\<forall>t\<in>set ts. complete_tree k n t"
  shows "length (concat (map (merkle H) ts)) = PW_HASH_SIZE * length ts"
  using assms by (intro length_concat_const) (auto intro: length_merkle)

lemma length_siblings:
  assumes "\<forall>m. length (H m) = PW_HASH_SIZE" "complete_tree k n t" "label < k ^ n"
  shows "length (siblings H k n label t) = PW_HASH_SIZE * (k - 1) * n"
  using assms(2,3)
proof (induction n arbitrary: t label)
  case 0
  then show ?case by (cases t) auto
next
  case (Suc n)
  obtain ts where t: "t = MNode ts" using Suc.prems(1) by (cases t) auto
  let ?i = "label div k ^ n"
  have k: "0 < k" using Suc.prems(2) by (cases k) auto
  have i: "?i < k" using Suc.prems(2) k by (simp add: less_mult_imp_div_less)
  have ts: "length ts = k" "\<forall>x\<in>set ts. complete_tree k n x"
    using Suc.prems(1) by (auto simp: t list_all_iff)
  have "length (siblings H k n (label mod k ^ n) (ts ! ?i)) = PW_HASH_SIZE * (k - 1) * n"
    using ts i k by (intro Suc.IH) auto
  moreover have "length (concat (map (merkle H) (take ?i ts @ drop (Suc ?i) ts))) = PW_HASH_SIZE * (k - 1)"
    using ts i length_concat_merkle [OF assms(1), of "take ?i ts @ drop (Suc ?i) ts" k n]
    by (auto dest: in_set_takeD in_set_dropD)
  ultimately show ?case by (simp add: t)
qed

lemma level_message_siblings:
  assumes "\<forall>m. length (H m) = PW_HASH_SIZE" "\<forall>t\<in>set ts. complete_tree k n t" "length ts = k" "i < k"
  shows "level_message k i (concat (map (merkle H) (take i ts @ drop (Suc i) ts))) c =
    concat (map (merkle H) (take i ts)) @ c @ concat (map (merkle H) (drop (Suc i) ts))"
proof -
  have "length (concat (map (merkle H) (take i ts))) = PW_HASH_SIZE * i"
    using assms length_concat_merkle [OF assms(1), of "take i ts" k n] by (auto dest: in_set_takeD)
  moreover have "length (concat (map (merkle H) (drop (Suc i) ts))) = PW_HASH_SIZE * (k - 1 - i)"
    using assms length_concat_merkle [OF assms(1), of "drop (Suc i) ts" k n] by (auto dest: in_set_dropD)
  ultimately show ?thesis by (simp add: level_message_def)
qed

text \<open>Climbing with the siblings of a tree gives the hash of the tree with the leaf replaced.\<close>

lemma climb_tree:
  assumes "\<forall>m. length (H m) = PW_HASH_SIZE" "complete_tree k n t" "label < k ^ n"
  shows "climb H k n label (siblings H k n label t) child = merkle H (set_leaf k n label child t)"
  using assms(2,3)
proof (induction n arbitrary: t label)
  case 0
  then show ?case by (cases t) auto
next
  case (Suc n)
  obtain ts where t: "t = MNode ts" using Suc.prems(1) by (cases t) auto
  let ?i = "label div k ^ n" and ?l = "label mod k ^ n"
  have k: "0 < k" using Suc.prems(2) by (cases k) auto
  have i: "?i < k" using Suc.prems(2) k by (simp add: less_mult_imp_div_less)
  have ts: "length ts = k" "\<forall>x\<in>set ts. complete_tree k n x"
    using Suc.prems(1) by (auto simp: t list_all_iff)
  have sub: "complete_tree k n (ts ! ?i)" "?l < k ^ n" using ts i k by auto
  let ?S = "siblings H k n ?l (ts ! ?i)" and ?c = "merkle H (set_leaf k n ?l child (ts ! ?i))"
  have len: "length ?S = PW_HASH_SIZE * (k - 1) * n" by (rule length_siblings [OF assms(1) sub])
  let ?U = "concat (map (merkle H) (take ?i ts @ drop (Suc ?i) ts))"
  have sib: "siblings H k (Suc n) label t = ?S @ ?U" by (simp add: t)
  have "climb H k (Suc n) label (?S @ ?U) child = H (level_message k (?i mod k) ?U (climb H k n ?l ?S child))"
    using climb_last [OF k, of n ?S H label ?U child] len by (simp add: Let_def del: climb.simps map_append concat_append)
  then have "climb H k (Suc n) label (siblings H k (Suc n) label t) child = H (level_message k ?i ?U ?c)"
    using Suc.IH [OF sub] i by (simp only: sib mod_less)
  also have "\<dots> = H (concat (map (merkle H) (take ?i ts @ set_leaf k n ?l child (ts ! ?i) # drop (Suc ?i) ts)))"
    unfolding level_message_siblings [OF assms(1) ts(2,1) i] by simp
  also have "\<dots> = merkle H (set_leaf k (Suc n) label child t)"
    using i ts(1) by (simp add: t upd_conv_take_nth_drop)
  finally show ?case .
qed

lemma set_leaf_id:
  assumes "complete_tree k n t" "label < k ^ n"
  shows "set_leaf k n label (leaf_at k n label t) t = t"
  using assms
proof (induction n arbitrary: t label)
  case 0
  then show ?case by (cases t) auto
next
  case (Suc n)
  obtain ts where t: "t = MNode ts" using Suc.prems(1) by (cases t) auto
  have k: "0 < k" using Suc.prems(2) by (cases k) auto
  have i: "label div k ^ n < k" using Suc.prems(2) k by (simp add: less_mult_imp_div_less)
  have "complete_tree k n (ts ! (label div k ^ n))" using Suc.prems(1) i by (simp add: t list_all_length)
  then show ?case using Suc.IH k by (simp add: t)
qed

lemma complete_set_leaf:
  assumes "complete_tree k n t" "label < k ^ n" "length h = PW_HASH_SIZE"
  shows "complete_tree k n (set_leaf k n label h t)"
  using assms(1,2)
proof (induction n arbitrary: t label)
  case 0
  then show ?case using assms(3) by (cases t) auto
next
  case (Suc n)
  obtain ts where t: "t = MNode ts" using Suc.prems(1) by (cases t) auto
  have k: "0 < k" using Suc.prems(2) by (cases k) auto
  have i: "label div k ^ n < k" using Suc.prems(2) k by (simp add: less_mult_imp_div_less)
  have sub: "complete_tree k n (ts ! (label div k ^ n))" using Suc.prems(1) i by (simp add: t list_all_length)
  have "complete_tree k n (set_leaf k n (label mod k ^ n) h (ts ! (label div k ^ n)))"
    using Suc.IH [OF sub] k by simp
  then show ?case using Suc.prems(1) i by (auto simp: t list_all_length nth_list_update)
qed

lemma leaf_at_length:
  assumes "complete_tree k n t" "label < k ^ n"
  shows "length (leaf_at k n label t) = PW_HASH_SIZE"
  using assms
proof (induction n arbitrary: t label)
  case 0
  then show ?case by (cases t) auto
next
  case (Suc n)
  obtain ts where t: "t = MNode ts" using Suc.prems(1) by (cases t) auto
  have k: "0 < k" using Suc.prems(2) by (cases k) auto
  have i: "label div k ^ n < k" using Suc.prems(2) k by (simp add: less_mult_imp_div_less)
  have "complete_tree k n (ts ! (label div k ^ n))" using Suc.prems(1) i by (simp add: t list_all_length)
  then show ?case using Suc.IH k by (simp add: t)
qed

text \<open>Only the hashes of the path are read.\<close>

lemma level_message_cut:
  assumes "PW_HASH_SIZE * (k - 1) \<le> length xs" "i < k"
  shows "level_message k i (xs @ ys) c = level_message k i xs c"
proof -
  have "PW_HASH_SIZE * i + PW_HASH_SIZE * (k - 1 - i) = PW_HASH_SIZE * (k - 1)"
    using assms(2) by (simp flip: add_mult_distrib2)
  then show ?thesis using assms(1) by (simp add: level_message_def)
qed

lemma climb_cut:
  assumes "0 < k" "PW_HASH_SIZE * (k - 1) * n \<le> length xs"
  shows "climb H k n label (xs @ ys) c = climb H k n label xs c"
  using assms(2)
proof (induction n arbitrary: label xs c)
  case (Suc n)
  have w: "PW_HASH_SIZE * (k - 1) \<le> length xs" "PW_HASH_SIZE * (k - 1) * n \<le> length (drop (PW_HASH_SIZE * (k - 1)) xs)"
    using Suc.prems by auto
  then show ?case
    using Suc.IH [OF w(2)] level_message_cut [OF w(1), of "label mod k" ys] assms(1) by simp
qed simp

lemma level_message_child:
  "PW_HASH_SIZE * i \<le> length sibs \<Longrightarrow> length c = PW_HASH_SIZE \<Longrightarrow>
     field (PW_HASH_SIZE * i) PW_HASH_SIZE (level_message k i sibs c) = c"
  by (simp add: field_def level_message_def min_absorb2)

text \<open>Two climbs that meet at the top start from the same hash, unless two different messages
  hashed on the way collide.\<close>

lemma climb_collision:
  assumes "\<forall>m. length (H m) = PW_HASH_SIZE" "0 < k"
    "PW_HASH_SIZE * (k - 1) * n \<le> length sibs" "PW_HASH_SIZE * (k - 1) * n \<le> length sibs'"
    "length c = PW_HASH_SIZE" "length c' = PW_HASH_SIZE"
    "climb H k n label sibs c = climb H k n label sibs' c'"
  shows "c = c' \<or> (\<exists>x\<in>set (climb_messages H k n label sibs c). \<exists>y\<in>set (climb_messages H k n label sibs' c').
    x \<noteq> y \<and> H x = H y)"
  using assms(3-)
proof (induction n arbitrary: label sibs sibs' c c')
  case (Suc n)
  let ?w = "PW_HASH_SIZE * (k - 1)" and ?i = "label mod k"
  let ?m = "level_message k ?i sibs c" and ?m' = "level_message k ?i sibs' c'"
  have w: "?w * n \<le> length (drop ?w sibs)" "?w * n \<le> length (drop ?w sibs')"
    "?w \<le> length sibs" "?w \<le> length sibs'"
    using Suc.prems(1,2) by auto
  have IH: "H ?m = H ?m' \<or> (\<exists>x\<in>set (climb_messages H k n (label div k) (drop ?w sibs) (H ?m)).
      \<exists>y\<in>set (climb_messages H k n (label div k) (drop ?w sibs') (H ?m')). x \<noteq> y \<and> H x = H y)"
    using Suc.prems(5) assms(1) by (intro Suc.IH [OF w(1,2)]) auto
  have "c = c'" if "?m = ?m'"
  proof -
    have "?i \<le> k - 1" using assms(2) by (simp add: Suc_leI less_Suc_eq_le [symmetric])
    then have le: "PW_HASH_SIZE * ?i \<le> ?w" by simp
    have "field (PW_HASH_SIZE * ?i) PW_HASH_SIZE ?m = c"
      "field (PW_HASH_SIZE * ?i) PW_HASH_SIZE ?m' = c'"
      using order_trans [OF le w(3)] order_trans [OF le w(4)] Suc.prems(3,4)
      by (simp_all only: level_message_child)
    then show ?thesis using that by simp
  qed
  then show ?case using IH by auto
qed simp

section \<open>The tree behind a root\<close>

text \<open>\<open>t\<close> is a tree of the parameters the chip holds, with the root the chip holds.\<close>

definition represents :: "(bytes \<Rightarrow> bytes) \<Rightarrow> merkle_tree \<Rightarrow> mtree \<Rightarrow> bool" where
  "represents H tree t \<longleftrightarrow>
     complete_tree (2 ^ unat (bits_per_level tree)) (unat (height tree)) t \<and> merkle H t = mt_root tree"

definition tree_siblings :: "(bytes \<Rightarrow> bytes) \<Rightarrow> merkle_tree \<Rightarrow> u64 \<Rightarrow> mtree \<Rightarrow> bytes" where
  "tree_siblings H tree label t = siblings H (2 ^ unat (bits_per_level tree)) (unat (height tree)) (unat label) t"

definition tree_leaf :: "merkle_tree \<Rightarrow> u64 \<Rightarrow> mtree \<Rightarrow> bytes" where
  "tree_leaf tree label t = leaf_at (2 ^ unat (bits_per_level tree)) (unat (height tree)) (unat label) t"

definition tree_set_leaf :: "merkle_tree \<Rightarrow> u64 \<Rightarrow> bytes \<Rightarrow> mtree \<Rightarrow> mtree" where
  "tree_set_leaf tree label h t = set_leaf (2 ^ unat (bits_per_level tree)) (unat (height tree)) (unat label) h t"

lemma label_in_range:
  assumes "validate_tree tree = PW_SUCCESS" "validate_label tree label = PW_SUCCESS"
  shows "unat label < (2 ^ unat (bits_per_level tree)) ^ unat (height tree)"
proof -
  note t = tree_parameters [OF assms(1)]
  let ?s = "unat (bits_per_level tree) * unat (height tree)"
  have "unat (bits_per_level tree * height tree) = ?s" using t(6) by (simp add: unat_word_ariths)
  then have "drop_bit ?s label = 0" using assms(2) by (simp add: validate_label_def split: if_splits)
  then have "unat label div 2 ^ ?s = 0" using unat_drop_bit [of ?s label] by simp
  then have "unat label < 2 ^ ?s" by (simp add: div_eq_0_iff)
  then show ?thesis by (simp add: power_mult)
qed

lemma compute_root_hash_tree:
  assumes "hash_engine env H" "validate_tree tree = PW_SUCCESS" "validate_label tree label = PW_SUCCESS"
    "represents H tree t"
  shows "compute_root_hash env tree label (tree_siblings H tree label t @ rest) h =
    Inr (merkle H (tree_set_leaf tree label h t))"
proof -
  let ?k = "2 ^ unat (bits_per_level tree) :: nat" and ?n = "unat (height tree)"
  have H: "\<forall>m. length (H m) = PW_HASH_SIZE" using assms(1) by (simp add: hash_engine_def)
  have c: "complete_tree ?k ?n t" using assms(4) by (simp add: represents_def)
  note l = label_in_range [OF assms(2,3)]
  have "climb H ?k ?n (unat label) (tree_siblings H tree label t @ rest) h =
      climb H ?k ?n (unat label) (tree_siblings H tree label t) h"
    using length_siblings [OF H c l] by (intro climb_cut) (simp_all add: tree_siblings_def)
  also have "\<dots> = merkle H (tree_set_leaf tree label h t)"
    using climb_tree [OF H c l] by (simp add: tree_siblings_def tree_set_leaf_def)
  finally show ?thesis by (simp add: compute_root_hash_climb [OF assms(1,2)])
qed

lemma represents_set_leaf:
  assumes "validate_tree tree = PW_SUCCESS" "validate_label tree label = PW_SUCCESS" "represents H tree t"
    "length h = PW_HASH_SIZE"
  shows "represents H (tree\<lparr>mt_root := merkle H (tree_set_leaf tree label h t)\<rparr>) (tree_set_leaf tree label h t)"
  using complete_set_leaf [OF _ label_in_range [OF assms(1,2)] assms(4)] assms(3)
  by (simp add: represents_def tree_set_leaf_def)

section \<open>Properties\<close>

text \<open>Concrete engines for the examples: a checksum for the hashes, a fixed key stream.\<close>

definition example_hash :: "bytes \<Rightarrow> bytes" where
  "example_hash m = replicate 31 0 @ [sum_list m]"

definition example_env :: pw_env where
  "example_env = \<lparr>storage_seed = replicate 32 1, appkey_init = True, appkey_derive = (\<lambda>b. Some b),
     hw_sha256 = (\<lambda>m. Some (example_hash m)), hw_hmac_sha256 = (\<lambda>k m. Some (example_hash (k @ m))),
     aes_ctr = (\<lambda>k iv m. Some (map (\<lambda>b. b XOR 90) m)), fips_rand = (\<lambda>n. Some (replicate n 7)),
     pcr_digest_of = (\<lambda>a b. Some (replicate 32 a)), time_at_check = 50 * SECOND, time_at_stamp = 50 * SECOND\<rparr>"

definition example_mtree :: mtree where
  "example_mtree = MNode [MNode [MLeaf (replicate 32 1), MLeaf (replicate 32 2)],
     MNode [MLeaf (replicate 32 3), MLeaf (replicate 32 4)]]"

definition example_tree :: merkle_tree where
  "example_tree = \<lparr>bits_per_level = 1, height = 2, mt_root = merkle example_hash example_mtree,
     key_derivation_nonce = replicate 16 0, hmac_key = replicate 32 5, wrap_key = replicate 32 6\<rparr>"

lemma example_engine: "hash_engine example_env example_hash"
  by (simp add: hash_engine_def example_env_def example_hash_def pw_sizes)

text \<open>(C8) The climb of \<open>compute_root_hash\<close> over the bits of a label is the hash of the
  whole tree: with the siblings of a path it computes the root of the tree in which the leaf is
  replaced by the given hash; for the leaf's own hash this is the root the chip holds, so that
  \<open>authenticate_path\<close> accepts every true path.\<close>

theorem root_hash_is_tree_hash:
  assumes "hash_engine env H" and "validate_tree tree = PW_SUCCESS" and "validate_label tree label = PW_SUCCESS"
    and "represents H tree t"
  shows "compute_root_hash env tree label (tree_siblings H tree label t @ rest) h =
      Inr (merkle H (tree_set_leaf tree label h t)) \<and>
    authenticate_path env tree label (tree_siblings H tree label t @ rest) (tree_leaf tree label t) = PW_SUCCESS"
proof -
  have "tree_set_leaf tree label (tree_leaf tree label t) t = t"
    using set_leaf_id [OF _ label_in_range [OF assms(2,3)]] assms(4)
    by (simp add: represents_def tree_set_leaf_def tree_leaf_def)
  then show ?thesis
    using compute_root_hash_tree [OF assms, of rest] assms(4)
    by (simp add: authenticate_path_def represents_def)
qed

theorem root_hash_is_tree_hash_witness:
  "compute_root_hash example_env example_tree 2
      (tree_siblings example_hash example_tree 2 example_mtree) (replicate 32 9) =
    Inr (merkle example_hash (tree_set_leaf example_tree 2 (replicate 32 9) example_mtree))"
proof -
  have v: "validate_tree example_tree = PW_SUCCESS" "validate_label example_tree 2 = PW_SUCCESS" by code_simp+
  have r: "represents example_hash example_tree example_mtree" by code_simp
  show ?thesis using root_hash_is_tree_hash [OF example_engine v r, of "[]" "replicate 32 9"] by simp
qed

text \<open>(C6) Path authentication is sound: if \<open>authenticate_path\<close> accepts a hash at a label
  that is not the leaf of the tree there, then among the messages hashed on the presented path and on
  the true path there are two different ones with the same SHA-256 value.\<close>

theorem path_authentication_sound:
  assumes "hash_engine env H" and "validate_tree tree = PW_SUCCESS" and "validate_label tree label = PW_SUCCESS"
    and "represents H tree t" and "length child = PW_HASH_SIZE"
    and "PW_HASH_SIZE * get_path_auxiliary_hash_count tree \<le> length hashes"
    and "authenticate_path env tree label hashes child = PW_SUCCESS" and "child \<noteq> tree_leaf tree label t"
  shows "\<exists>x\<in>set (climb_messages H (2 ^ unat (bits_per_level tree)) (unat (height tree)) (unat label) hashes child).
    \<exists>y\<in>set (climb_messages H (2 ^ unat (bits_per_level tree)) (unat (height tree)) (unat label)
        (tree_siblings H tree label t) (tree_leaf tree label t)).
    x \<noteq> y \<and> H x = H y"
proof -
  let ?k = "2 ^ unat (bits_per_level tree) :: nat" and ?n = "unat (height tree)"
  have H: "\<forall>m. length (H m) = PW_HASH_SIZE" using assms(1) by (simp add: hash_engine_def)
  have c: "complete_tree ?k ?n t" using assms(4) by (simp add: represents_def)
  note l = label_in_range [OF assms(2,3)]
  have "climb H ?k ?n (unat label) hashes child = mt_root tree"
    using assms(7) by (simp add: authenticate_path_def compute_root_hash_climb [OF assms(1,2)] split: if_splits)
  moreover have "climb H ?k ?n (unat label) (tree_siblings H tree label t) (tree_leaf tree label t) = mt_root tree"
    using climb_tree [OF H c l] set_leaf_id [OF c l] assms(4)
    by (simp add: tree_siblings_def tree_leaf_def represents_def)
  moreover have "length (tree_leaf tree label t) = PW_HASH_SIZE" using leaf_at_length [OF c l] by (simp add: tree_leaf_def)
  moreover have "PW_HASH_SIZE * (?k - 1) * ?n \<le> length hashes"
    using assms(6) by (simp add: get_path_auxiliary_hash_count_def mult.assoc)
  moreover have "PW_HASH_SIZE * (?k - 1) * ?n \<le> length (tree_siblings H tree label t)"
    using length_siblings [OF H c l] by (simp add: tree_siblings_def)
  ultimately show ?thesis
    using climb_collision [OF H, of ?k ?n hashes "tree_siblings H tree label t" child "tree_leaf tree label t" "unat label"]
      assms(5,8) by auto
qed

theorem path_authentication_sound_witness:
  "\<exists>x\<in>set (climb_messages example_hash 2 2 2
      (tree_siblings example_hash example_tree 2 example_mtree) (1 # replicate 30 3 @ [5])).
    \<exists>y\<in>set (climb_messages example_hash 2 2 2
      (tree_siblings example_hash example_tree 2 example_mtree) (tree_leaf example_tree 2 example_mtree)).
    x \<noteq> y \<and> example_hash x = example_hash y"
proof -
  let ?h = "tree_siblings example_hash example_tree 2 example_mtree" and ?c = "1 # replicate 30 3 @ [5] :: bytes"
  have v: "validate_tree example_tree = PW_SUCCESS" "validate_label example_tree 2 = PW_SUCCESS" by code_simp+
  have r: "represents example_hash example_tree example_mtree" by code_simp
  have l: "length ?c = PW_HASH_SIZE" "PW_HASH_SIZE * get_path_auxiliary_hash_count example_tree \<le> length ?h"
    by code_simp+
  have "climb example_hash (2 ^ unat (bits_per_level example_tree)) (unat (height example_tree)) (unat (2 :: u64)) ?h ?c =
      mt_root example_tree" by code_simp
  then have a: "authenticate_path example_env example_tree 2 ?h ?c = PW_SUCCESS"
    by (simp add: authenticate_path_def compute_root_hash_climb [OF example_engine v(1)])
  have n: "?c \<noteq> tree_leaf example_tree 2 example_mtree" by code_simp
  have p: "(2::nat) ^ unat (bits_per_level example_tree) = 2" "unat (height example_tree) = 2" "unat (2 :: u64) = 2"
    by (simp_all add: example_tree_def)
  show ?thesis using path_authentication_sound [OF example_engine v r l a n] unfolding p .
qed

end
