(* ===== verification/Pw_Auth.thy ===== *)
theory Pw_Auth
  imports Pw_Merkle
begin

text \<open>
  What PinWeaver guarantees its users: leaves survive the round trip through the host, the secret
  is released only for the right low entropy secret within the rate limit, the attempt counter is in
  the leaf the host has to present next, the root in flash and the root in RAM stay the same, and the
  log makes a lost leaf recoverable.
\<close>

section \<open>The engines\<close>

text \<open>The documented behaviour of the engines: digest sizes, the length of the random data, and
  counter mode, in which decryption is the same operation as encryption.\<close>

definition engines_ok :: "pw_env \<Rightarrow> bool" where
  "engines_ok env \<longleftrightarrow>
     (\<forall>m h. hw_sha256 env m = Some h \<longrightarrow> length h = PW_HASH_SIZE) \<and>
     (\<forall>k m h. hw_hmac_sha256 env k m = Some h \<longrightarrow> length h = PW_HASH_SIZE) \<and>
     (\<forall>k iv m c. aes_ctr env k iv m = Some c \<longrightarrow> length c = length m \<and> aes_ctr env k iv c = Some m) \<and>
     (\<forall>n b. fips_rand env n = Some b \<longrightarrow> length b = n)"

lemma engines_okD:
  assumes "engines_ok env"
  shows "hw_sha256 env m = Some h \<Longrightarrow> length h = PW_HASH_SIZE"
    "hw_hmac_sha256 env k m = Some h \<Longrightarrow> length h = PW_HASH_SIZE"
    "aes_ctr env k iv m = Some c \<Longrightarrow> length c = length m"
    "aes_ctr env k iv m = Some c \<Longrightarrow> aes_ctr env k iv c = Some m"
    "fips_rand env n = Some c \<Longrightarrow> length c = n"
  using assms unfolding engines_ok_def by blast+

lemma compute_hash_length: "engines_ok env \<Longrightarrow> compute_hash env hs n l c = Inr h \<Longrightarrow> length h = PW_HASH_SIZE"
  by (auto simp: compute_hash_def Let_def split: option.splits dest: engines_okD(1))

lemma compute_hmac_length: "engines_ok env \<Longrightarrow> compute_hmac env tree imp = Inr h \<Longrightarrow> length h = PW_HASH_SIZE"
  by (auto simp: compute_hmac_def split: option.splits dest: engines_okD(2))

lemma root_hash_loop_length:
  "engines_ok env \<Longrightarrow> length temp = PW_HASH_SIZE \<Longrightarrow> root_hash_loop env tree n i hs temp = Inr h \<Longrightarrow>
     length h = PW_HASH_SIZE"
  by (induction n arbitrary: i hs temp) (auto simp: Let_def split: sum.splits dest: compute_hash_length)

lemma compute_root_hash_length:
  "engines_ok env \<Longrightarrow> compute_root_hash env tree p hs c = Inr h \<Longrightarrow> length h = PW_HASH_SIZE"
  by (auto simp: compute_root_hash_def split: sum.splits dest: compute_hash_length intro: root_hash_loop_length)

section \<open>The root is not an input of the root computation\<close>

lemma num_aux_root [simp]: "num_aux (tree\<lparr>mt_root := r\<rparr>) = num_aux tree"
  by (simp add: num_aux_def)

lemma root_hash_loop_root [simp]:
  "root_hash_loop env (tree\<lparr>mt_root := r\<rparr>) n i hs t = root_hash_loop env tree n i hs t"
  by (induction n arbitrary: i hs t) (auto simp: Let_def split: sum.splits)

lemma compute_root_hash_root [simp]:
  "compute_root_hash env (tree\<lparr>mt_root := r\<rparr>) p hs c = compute_root_hash env tree p hs c"
  by (simp add: compute_root_hash_def cong: sum.case_cong)

lemma tree_checks_root [simp]:
  "validate_tree (tree\<lparr>mt_root := r\<rparr>) = validate_tree tree"
  "validate_label (tree\<lparr>mt_root := r\<rparr>) l = validate_label tree l"
  "get_path_auxiliary_hash_count (tree\<lparr>mt_root := r\<rparr>) = get_path_auxiliary_hash_count tree"
  "compute_hmac env (tree\<lparr>mt_root := r\<rparr>) imp = compute_hmac env tree imp"
  "decrypt_leaf_data env (tree\<lparr>mt_root := r\<rparr>) imp = decrypt_leaf_data env tree imp"
  "handle_leaf_update env (tree\<lparr>mt_root := r\<rparr>) ld hs old = handle_leaf_update env tree ld hs old"
  by (simp_all add: validate_tree_def validate_label_def get_path_auxiliary_hash_count_def
      compute_hmac_def decrypt_leaf_data_def handle_leaf_update_def encrypt_leaf_data_def Let_def
      cong: sum.case_cong option.case_cong prod.case_cong)

section \<open>A leaf the chip hands out is a leaf it takes back\<close>

lemma hash_count_small:
  assumes "validate_tree tree = PW_SUCCESS"
  shows "get_path_auxiliary_hash_count tree mod 2 ^ 16 = get_path_auxiliary_hash_count tree"
proof -
  note t = tree_parameters [OF assms]
  have "(2::nat) ^ unat (bits_per_level tree) \<le> 2 ^ 5" by (rule power_increasing) (use t in auto)
  then have "2 ^ unat (bits_per_level tree) - 1 \<le> (31::nat)" by simp
  moreover have "unat (height tree) \<le> 64" using t(4) div_le_dividend [of 64] le_trans by blast
  ultimately have "get_path_auxiliary_hash_count tree \<le> 31 * 64"
    unfolding get_path_auxiliary_hash_count_def by (rule mult_le_mono)
  then show ?thesis by simp
qed

lemma init_head_lens [simp]:
  "unat (pub_len init_wrapped_leaf_data) = PW_LEAF_PUBLIC_SIZE"
  "unat (sec_len init_wrapped_leaf_data) = PW_LEAF_SENSITIVE_SIZE"
  "lv_minor init_wrapped_leaf_data = PW_LEAF_MINOR_VERSION" "lv_major init_wrapped_leaf_data = PW_LEAF_MAJOR_VERSION"
  by (simp_all add: init_wrapped_leaf_data_def pw_sizes)

definition wrapped_ok :: "wrapped_leaf_data \<Rightarrow> bool" where
  "wrapped_ok w \<longleftrightarrow> w_head w = init_wrapped_leaf_data \<and> length (w_hmac w) = PW_HASH_SIZE \<and>
     length (w_iv w) = PW_WRAP_BLOCK_SIZE \<and> pub_wf (w_pub w) \<and> length (w_cipher_text w) = PW_LEAF_SENSITIVE_SIZE"

lemma length_bytes_of_wrapped: "wrapped_ok w \<Longrightarrow> length (bytes_of_wrapped w) = PW_UNIMPORTED_SIZE + PW_LEAF_PAYLOAD_SIZE"
  by (simp add: wrapped_ok_def bytes_of_wrapped_def length_bytes_of_pub pw_sizes)

lemma unimported_of_bytes_of_wrapped:
  assumes "wrapped_ok w"
  shows "unimported_of_bytes (bytes_of_wrapped w @ rest) =
    \<lparr>u_head = init_wrapped_leaf_data, u_hmac = w_hmac w, u_iv = w_iv w,
     u_payload = bytes_of_pub (w_pub w) @ w_cipher_text w @ rest\<rparr>"
  using assms
  by (simp add: unimported_of_bytes_def bytes_of_wrapped_def wrapped_ok_def layout head_roundtrip pw_sizes)

lemma import_of_wrapped:
  assumes "wrapped_ok w"
  shows "import_leaf (unimported_of_bytes (bytes_of_wrapped w @ rest)) =
    \<lparr>i_head = init_wrapped_leaf_data, i_hmac = w_hmac w, i_iv = w_iv w,
     i_pub = bytes_of_pub (w_pub w) @ w_cipher_text w @ rest, i_cipher_text = w_cipher_text w @ rest, i_hashes = rest\<rparr>"
  using assms length_bytes_of_pub [of "w_pub w"]
  by (simp add: unimported_of_bytes_of_wrapped import_leaf_def Let_def wrapped_ok_def)

lemma handle_leaf_update_inr:
  assumes "handle_leaf_update env tree ld hashes old = Inr (w, root)"
  obtains iv ct where
    "(case old of None \<Rightarrow> encrypt_leaf_data env tree ld
       | Some imp \<Rightarrow> Inr (i_iv imp, take PW_LEAF_SENSITIVE_SIZE (i_cipher_text imp))) = Inr (iv, ct)"
    "w = \<lparr>w_head = init_wrapped_leaf_data, w_hmac = w_hmac w, w_iv = iv, w_pub = ld_pub ld, w_cipher_text = ct\<rparr>"
    "compute_hmac env tree (import_leaf (unimported_of_wrapped
       \<lparr>w_head = init_wrapped_leaf_data, w_hmac = [], w_iv = iv, w_pub = ld_pub ld, w_cipher_text = ct\<rparr>)) = Inr (w_hmac w)"
    "compute_root_hash env tree (leaf_label (ld_pub ld)) hashes (w_hmac w) = Inr root"
  using assms by (auto simp: handle_leaf_update_def Let_def split: sum.splits)

text \<open>The secrets behind the cipher text a leaf update uses.\<close>

definition update_keeps_secrets ::
  "pw_env \<Rightarrow> merkle_tree \<Rightarrow> leaf_data \<Rightarrow> imported_leaf_data option \<Rightarrow> bool" where
  "update_keeps_secrets env tree ld old \<longleftrightarrow>
     (case old of
        None \<Rightarrow> sec_wf (ld_sec ld)
      | Some imp \<Rightarrow> length (i_iv imp) = PW_WRAP_BLOCK_SIZE \<and> PW_LEAF_SENSITIVE_SIZE \<le> length (i_cipher_text imp) \<and>
          (\<exists>b. aes_ctr env (wrap_key tree) (i_iv imp) (take PW_LEAF_SENSITIVE_SIZE (i_cipher_text imp)) = Some b \<and>
               sec_of_bytes b = ld_sec ld))"

lemma update_then_validate:
  assumes "engines_ok env" "validate_tree tree = PW_SUCCESS"
    "validate_label tree (leaf_label (ld_pub ld)) = PW_SUCCESS"
    "pub_wf (ld_pub ld)" "update_keeps_secrets env tree ld old"
    "handle_leaf_update env tree ld hashes old = Inr (w, root)"
  shows "wrapped_ok w" "w_pub w = ld_pub ld"
    "validate_request_with_wrapped_leaf env (tree\<lparr>mt_root := root\<rparr>)
       (PW_LEAF_PAYLOAD_SIZE + get_path_auxiliary_hash_count tree * PW_HASH_SIZE)
       (unimported_of_bytes (bytes_of_wrapped w @ hashes)) =
     Inr (import_leaf (unimported_of_bytes (bytes_of_wrapped w @ hashes)), ld)"
proof -
  obtain iv ct where u:
    "(case old of None \<Rightarrow> encrypt_leaf_data env tree ld
       | Some imp \<Rightarrow> Inr (i_iv imp, take PW_LEAF_SENSITIVE_SIZE (i_cipher_text imp))) = Inr (iv, ct)"
    "w = \<lparr>w_head = init_wrapped_leaf_data, w_hmac = w_hmac w, w_iv = iv, w_pub = ld_pub ld, w_cipher_text = ct\<rparr>"
    "compute_hmac env tree (import_leaf (unimported_of_wrapped
       \<lparr>w_head = init_wrapped_leaf_data, w_hmac = [], w_iv = iv, w_pub = ld_pub ld, w_cipher_text = ct\<rparr>)) = Inr (w_hmac w)"
    "compute_root_hash env tree (leaf_label (ld_pub ld)) hashes (w_hmac w) = Inr root"
    by (rule handle_leaf_update_inr [OF assms(6)])
  have sec: "length iv = PW_WRAP_BLOCK_SIZE \<and> length ct = PW_LEAF_SENSITIVE_SIZE \<and>
      (\<exists>b. aes_ctr env (wrap_key tree) iv ct = Some b \<and> sec_of_bytes b = ld_sec ld)"
  proof (cases old)
    case None
    then have e: "fips_rand env PW_WRAP_BLOCK_SIZE = Some iv" "aes_ctr env (wrap_key tree) iv (bytes_of_sec (ld_sec ld)) = Some ct"
      and s: "sec_wf (ld_sec ld)"
      using u(1) assms(5) by (auto simp: encrypt_leaf_data_def update_keeps_secrets_def split: option.splits)
    show ?thesis
      using engines_okD(5) [OF assms(1) e(1)] engines_okD(3,4) [OF assms(1) e(2)]
        length_bytes_of_sec [OF s] sec_roundtrip [OF s] by simp
  next
    case (Some imp)
    then show ?thesis using u(1) assms(5) by (auto simp: update_keeps_secrets_def)
  qed
  then obtain b where b: "aes_ctr env (wrap_key tree) iv ct = Some b" "sec_of_bytes b = ld_sec ld" by blast
  have f: "w_head w = init_wrapped_leaf_data" "w_iv w = iv" "w_pub w = ld_pub ld" "w_cipher_text w = ct"
    by (subst u(2), simp)+
  show ok: "wrapped_ok w" using f sec assms(4) compute_hmac_length [OF assms(1) u(3)] by (simp add: wrapped_ok_def)
  show "w_pub w = ld_pub ld" by (rule f)
  have lp: "length (bytes_of_pub (ld_pub ld)) = PW_LEAF_PUBLIC_SIZE" by (rule length_bytes_of_pub [OF assms(4)])
  let ?imp = "import_leaf (unimported_of_bytes (bytes_of_wrapped w @ hashes))"
  have imp: "?imp = \<lparr>i_head = init_wrapped_leaf_data, i_hmac = w_hmac w, i_iv = iv,
     i_pub = bytes_of_pub (ld_pub ld) @ ct @ hashes, i_cipher_text = ct @ hashes, i_hashes = hashes\<rparr>"
    using import_of_wrapped [OF ok, of hashes] f by simp
  have hm: "compute_hmac env tree ?imp = Inr (w_hmac w)"
    unfolding imp using u(3) sec lp by (simp add: compute_hmac_def import_leaf_def unimported_of_wrapped_def Let_def)
  have de: "decrypt_leaf_data env tree ?imp = Inr ld"
    unfolding imp using b sec lp pub_of_bytes_of_pub [OF assms(4), of "[]"] by (simp add: decrypt_leaf_data_def)
  have hd: "u_head (unimported_of_bytes (bytes_of_wrapped w @ hashes)) = init_wrapped_leaf_data"
    "u_hmac (unimported_of_bytes (bytes_of_wrapped w @ hashes)) = w_hmac w"
    using unimported_of_bytes_of_wrapped [OF ok] by simp_all
  have lb: "leaf_label (pub_of_bytes (i_pub ?imp)) = leaf_label (ld_pub ld)"
    unfolding imp using pub_of_bytes_of_pub [OF assms(4)] by simp
  have vh: "validate_leaf_header init_wrapped_leaf_data
      (PW_LEAF_PAYLOAD_SIZE + get_path_auxiliary_hash_count tree * PW_HASH_SIZE)
      (get_path_auxiliary_hash_count tree) = PW_SUCCESS"
    using hash_count_small [OF assms(2)]
    by (simp add: validate_leaf_header_def expected_payload_len_def Let_def pw_sizes PW_LEAF_MINOR_VERSION_def)
  have vp: "validate_request_with_path env (tree\<lparr>mt_root := root\<rparr>) (leaf_label (ld_pub ld)) hashes (w_hmac w) = PW_SUCCESS"
    using assms(2,3) u(4) by (simp add: validate_request_with_path_def authenticate_path_def Let_def)
  show "validate_request_with_wrapped_leaf env (tree\<lparr>mt_root := root\<rparr>)
       (PW_LEAF_PAYLOAD_SIZE + get_path_auxiliary_hash_count tree * PW_HASH_SIZE)
       (unimported_of_bytes (bytes_of_wrapped w @ hashes)) =
     Inr (import_leaf (unimported_of_bytes (bytes_of_wrapped w @ hashes)), ld)"
    using vp hm de lb vh hd imp
    by (simp add: validate_request_with_wrapped_leaf_def Let_def PW_LEAF_MINOR_VERSION_def)
qed

section \<open>The delay schedule\<close>

text \<open>What \<open>validate_delay_schedule\<close> accepts: entries without a threshold are empty, and
  every later entry with one is larger than its predecessor in both columns.\<close>

definition sched_step_ok :: "delay_schedule_entry list \<Rightarrow> nat \<Rightarrow> bool" where
  "sched_step_ok sched x \<longleftrightarrow>
     (if sched_attempts (sched ! x) = 0 then sched_time_diff (sched ! x) = 0
      else sched_attempts (sched ! (x - 1)) < sched_attempts (sched ! x) \<and>
           sched_time_diff (sched ! (x - 1)) < sched_time_diff (sched ! x))"

definition schedule_ok :: "delay_schedule_entry list \<Rightarrow> bool" where
  "schedule_ok sched \<longleftrightarrow> sched_time_diff (sched ! 0) \<noteq> 0 \<and>
     (\<forall>x. 0 < x \<and> x < PW_SCHED_COUNT \<longrightarrow> sched_step_ok sched x)"

lemma validate_delay_loop_iff:
  "validate_delay_loop sched n = PW_SUCCESS \<longleftrightarrow> (\<forall>x. 0 < x \<and> x \<le> n \<longrightarrow> sched_step_ok sched x)"
proof (induction n)
  case (Suc n)
  have "validate_delay_loop sched (Suc n) = PW_SUCCESS \<longleftrightarrow>
      sched_step_ok sched (Suc n) \<and> validate_delay_loop sched n = PW_SUCCESS"
    by (auto simp: sched_step_ok_def Let_def not_le)
  then show ?case using Suc.IH by (auto simp: le_Suc_eq)
qed simp

lemma validate_delay_schedule_iff: "validate_delay_schedule sched = PW_SUCCESS \<longleftrightarrow> schedule_ok sched"
  by (auto simp: validate_delay_schedule_def validate_delay_loop_iff schedule_ok_def PW_SCHED_COUNT_def less_Suc_eq_le)

text \<open>An entry is active when no entry up to it is null: those the rate limit can reach.\<close>

definition sched_active :: "delay_schedule_entry list \<Rightarrow> nat \<Rightarrow> bool" where
  "sched_active sched i \<longleftrightarrow> i < length sched \<and> (\<forall>m\<le>i. sched_attempts (sched ! m) \<noteq> 0)"

lemma schedule_increasing:
  assumes "schedule_ok sched" "length sched = PW_SCHED_COUNT" "sched_active sched j" "i \<le> j"
  shows "sched_attempts (sched ! i) \<le> sched_attempts (sched ! j) \<and> sched_time_diff (sched ! i) \<le> sched_time_diff (sched ! j)"
  using assms(3,4)
proof (induction j)
  case (Suc j)
  have "sched_step_ok sched (Suc j)" using assms(1,2) Suc.prems(1) by (simp add: schedule_ok_def sched_active_def)
  then have st: "sched_attempts (sched ! j) < sched_attempts (sched ! Suc j)"
    "sched_time_diff (sched ! j) < sched_time_diff (sched ! Suc j)"
    using Suc.prems(1) by (auto simp: sched_step_ok_def sched_active_def split: if_splits)
  show ?case
  proof (cases "i = Suc j")
    case False
    have "sched_active sched j" using Suc.prems(1) by (simp add: sched_active_def)
    then show ?thesis using Suc.IH False Suc.prems(2) st by fastforce
  qed simp
qed simp

lemma sched_index_le: "sched_index a es \<le> length es"
  by (induction es) auto

lemma sched_index_passed:
  "i < sched_index a es \<Longrightarrow> sched_attempts (es ! i) \<noteq> 0 \<and> sched_attempts (es ! i) \<le> a"
proof (induction es arbitrary: i)
  case (Cons e es)
  then show ?case by (cases i) (auto split: if_splits simp: not_less)
qed simp

lemma sched_index_stop:
  "sched_index a es < length es \<Longrightarrow>
     sched_attempts (es ! sched_index a es) = 0 \<or> a < sched_attempts (es ! sched_index a es)"
  by (induction es) (auto split: if_splits)

text \<open>Every active entry whose threshold is reached lies below the index the loop stops at.\<close>

lemma sched_index_reached:
  assumes "schedule_ok sched" "length sched = PW_SCHED_COUNT" "sched_active sched i" "sched_attempts (sched ! i) \<le> a"
  shows "i < sched_index a sched"
proof (rule ccontr)
  assume "\<not> i < sched_index a sched"
  then have le: "sched_index a sched \<le> i" by simp
  then have "sched_index a sched < length sched" using assms(3) by (simp add: sched_active_def)
  from sched_index_stop [OF this] show False
    using schedule_increasing [OF assms(1-3) le] assms(3,4) le by (auto simp: sched_active_def)
qed

lemma sched_active_index:
  assumes "length sched = PW_SCHED_COUNT" "i < sched_index a sched"
  shows "sched_active sched i"
  using sched_index_passed [of _ a sched] sched_index_le [of a sched] assms by (auto simp: sched_active_def)

definition applied_delay :: "leaf_public_data \<Rightarrow> u32" where
  "applied_delay pub =
     (let x = sched_index (attempt_count pub) (delay_schedule pub)
      in if x > 0 then sched_time_diff (delay_schedule pub ! (x - 1)) else 0)"

lemma applied_delay_ge:
  assumes "schedule_ok (delay_schedule pub)" "length (delay_schedule pub) = PW_SCHED_COUNT"
    "sched_active (delay_schedule pub) i" "sched_attempts (delay_schedule pub ! i) \<le> attempt_count pub"
  shows "sched_time_diff (delay_schedule pub ! i) \<le> applied_delay pub"
proof -
  let ?x = "sched_index (attempt_count pub) (delay_schedule pub)"
  have i: "i < ?x" by (rule sched_index_reached [OF assms])
  have "sched_active (delay_schedule pub) (?x - 1)" using i by (intro sched_active_index [OF assms(2), of _ "attempt_count pub"]) simp
  then show ?thesis
    using schedule_increasing [OF assms(1,2), of "?x - 1" i] i by (simp add: applied_delay_def)
qed

lemma test_rate_limit_eq:
  "test_rate_limit env restarts pub =
     (let d = applied_delay pub; now = time_at_check env div SECOND;
          ready = (if boot_count (leaf_timestamp pub) = restarts
                   then ucast d + timer_value (leaf_timestamp pub) else ucast d)
      in if d = 0 then (PW_SUCCESS, 0)
         else if d = PW_BLOCK_ATTEMPTS then (PW_ERR_RATE_LIMIT_REACHED, PW_BLOCK_ATTEMPTS)
         else if ready \<le> now then (PW_SUCCESS, 0)
         else (PW_ERR_RATE_LIMIT_REACHED, ucast (ready - now)))"
  by (simp add: test_rate_limit_def applied_delay_def Let_def update_timestamp_def)

section \<open>The outcomes of an authentication attempt\<close>

lemma compute_hmac_error: "compute_hmac env tree imp = Inl e \<Longrightarrow> e \<noteq> PW_SUCCESS"
  by (auto simp: compute_hmac_def split: option.splits)

lemma decrypt_leaf_data_error: "decrypt_leaf_data env tree imp = Inl e \<Longrightarrow> e \<noteq> PW_SUCCESS"
  by (auto simp: decrypt_leaf_data_def Let_def split: option.splits)

lemma compute_hash_error: "compute_hash env hs n l c = Inl e \<Longrightarrow> e \<noteq> PW_SUCCESS"
  by (auto simp: compute_hash_def Let_def split: option.splits)

lemma root_hash_loop_error: "root_hash_loop env tree n i hs t = Inl e \<Longrightarrow> e \<noteq> PW_SUCCESS"
  by (induction n arbitrary: i hs t) (auto simp: Let_def split: sum.splits dest: compute_hash_error)

lemma compute_root_hash_error: "compute_root_hash env tree p hs c = Inl e \<Longrightarrow> e \<noteq> PW_SUCCESS"
  by (auto simp: compute_root_hash_def split: sum.splits dest: compute_hash_error root_hash_loop_error)

lemma handle_leaf_update_error: "handle_leaf_update env tree ld hs old = Inl e \<Longrightarrow> e \<noteq> PW_SUCCESS"
  by (auto simp: handle_leaf_update_def encrypt_leaf_data_def Let_def split: sum.splits option.splits
      dest: compute_root_hash_error compute_hmac_error)

lemma validate_wrapped_error:
  "validate_request_with_wrapped_leaf env tree n u = Inl e \<Longrightarrow> e \<noteq> PW_SUCCESS"
  by (auto simp: validate_request_with_wrapped_leaf_def Let_def split: sum.splits if_splits
      dest: compute_hmac_error decrypt_leaf_data_error)

lemmas pw_errors = compute_hmac_error decrypt_leaf_data_error compute_root_hash_error
  handle_leaf_update_error validate_wrapped_error

text \<open>The leaf a request presents, once it has passed every check.\<close>

definition presented_leaf ::
  "pw_env \<Rightarrow> pw_state \<Rightarrow> bytes \<Rightarrow> nat \<Rightarrow> (imported_leaf_data \<times> leaf_data) pw_result" where
  "presented_leaf env st data req_size =
     validate_request_with_wrapped_leaf env (pw_tree st) (req_size - SIZEOF_LEAF_REQUEST)
       (unimported_of_bytes (drop PW_SECRET_SIZE data))"

text \<open>The public data of the leaf after an attempt.\<close>

definition attempted_pub :: "pw_env \<Rightarrow> pw_state \<Rightarrow> leaf_data \<Rightarrow> bytes \<Rightarrow> leaf_public_data" where
  "attempted_pub env st ld secret =
     (ld_pub ld)\<lparr>leaf_timestamp := update_timestamp (time_at_stamp env) (pw_restart_count st),
                  attempt_count := fst (snd (auth_row ld secret))\<rparr>"

text \<open>Nothing happened, or the log entry could not be written.\<close>

definition entry_wf :: "pw_log_entry \<Rightarrow> bool" where
  "entry_wf e \<longleftrightarrow> length (e_root e) = 32 \<and> length (e_union e) = 32"

definition not_logged :: "pw_state \<Rightarrow> pw_state \<Rightarrow> bool" where
  "not_logged st st' \<longleftrightarrow> st' = st \<or>
     (\<exists>e ret nv. entry_wf e \<and> log_append (pw_nv st) e = (ret, nv) \<and> ret \<noteq> PW_SUCCESS \<and> st' = st\<lparr>pw_nv := nv\<rparr>)"

lemma not_logged_refl [simp]: "not_logged st st"
  by (simp add: not_logged_def)

lemma handle_leaf_update_root_length:
  "engines_ok env \<Longrightarrow> handle_leaf_update env tree ld hs old = Inr (w, root) \<Longrightarrow> length root = PW_HASH_SIZE"
  by (erule handle_leaf_update_inr) (rule compute_root_hash_length)

lemma log_auth_entry_wf: "length root = PW_HASH_SIZE \<Longrightarrow>
  entry_wf (empty_log_entry\<lparr>e_type := ty, e_label := l, e_root := root, e_union := auth_union ts c\<rparr>)"
  by (simp add: entry_wf_def auth_union_simps pw_sizes)

lemma not_logged_auth:
  assumes "length root = PW_HASH_SIZE" "log_auth (pw_nv st) l root c ts = (ret, nv)" "ret \<noteq> PW_SUCCESS"
  shows "not_logged st (st\<lparr>pw_nv := nv\<rparr>)"
  using assms log_auth_entry_wf [OF assms(1)] unfolding not_logged_def log_auth_def by blast

lemma try_auth_cases:
  assumes "engines_ok env" "pw_handle_try_auth env st data n = (code, resp, st')"
  obtains (rejected) "resp = []" "code \<noteq> PW_SUCCESS" "not_logged st st'"
  | (limited) imp ld wait where "presented_leaf env st data n = Inr (imp, ld)"
      "test_rate_limit env (pw_restart_count st) (ld_pub ld) = (code, wait)" "code \<noteq> PW_SUCCESS" "st' = st"
      "resp = try_auth_response wait zeros zeros (replicate (PW_UNIMPORTED_SIZE + PW_LEAF_PAYLOAD_SIZE) 0)"
  | (answered) imp ld wait w root nv where "presented_leaf env st data n = Inr (imp, ld)"
      "validate_pcr_value env (valid_pcr_criteria (ld_pub ld)) = PW_SUCCESS"
      "test_rate_limit env (pw_restart_count st) (ld_pub ld) = (PW_SUCCESS, wait)"
      "code = fst (auth_row ld (field 0 PW_SECRET_SIZE data))"
      "handle_leaf_update env (pw_tree st) (ld\<lparr>ld_pub := attempted_pub env st ld (field 0 PW_SECRET_SIZE data)\<rparr>)
         (i_hashes imp) (Some imp) = Inr (w, root)"
      "log_auth (pw_nv st) (leaf_label (w_pub w)) root code
         (update_timestamp (time_at_stamp env) (pw_restart_count st)) = (PW_SUCCESS, nv)"
      "resp = try_auth_response 0 (fst (snd (snd (auth_row ld (field 0 PW_SECRET_SIZE data)))))
         (snd (snd (snd (auth_row ld (field 0 PW_SECRET_SIZE data))))) (bytes_of_wrapped w)"
      "st' = set_root (st\<lparr>pw_nv := nv\<rparr>) root" "SIZEOF_LEAF_REQUEST \<le> n"
proof (cases "n < SIZEOF_LEAF_REQUEST")
  case True
  then show thesis using assms(2) by (intro rejected) (auto simp: pw_handle_try_auth_def)
next
  case sz: False
  show thesis
  proof (cases "presented_leaf env st data n")
    case (Inl e)
    then show thesis using assms(2) sz validate_wrapped_error
      by (intro rejected) (auto simp: pw_handle_try_auth_def presented_leaf_def)
  next
    case (Inr p)
    obtain imp ld where p: "p = (imp, ld)" by fastforce
    have v: "validate_request_with_wrapped_leaf env (pw_tree st) (n - SIZEOF_LEAF_REQUEST)
        (unimported_of_bytes (drop PW_SECRET_SIZE data)) = Inr (imp, ld)"
      using Inr by (simp add: presented_leaf_def p)
    let ?s = "field 0 PW_SECRET_SIZE data" and ?ts = "update_timestamp (time_at_stamp env) (pw_restart_count st)"
    obtain rc wait where r: "test_rate_limit env (pw_restart_count st) (ld_pub ld) = (rc, wait)" by fastforce
    obtain c a s1 s2 where row: "auth_row ld ?s = (c, a, s1, s2)" by (cases "auth_row ld ?s") auto
    let ?ld = "ld\<lparr>ld_pub := attempted_pub env st ld ?s\<rparr>"
    have run: "(code, resp, st') =
      (if validate_pcr_value env (valid_pcr_criteria (ld_pub ld)) \<noteq> PW_SUCCESS
       then (validate_pcr_value env (valid_pcr_criteria (ld_pub ld)), [], st)
       else if rc \<noteq> PW_SUCCESS
       then (rc, try_auth_response wait zeros zeros (replicate (PW_UNIMPORTED_SIZE + PW_LEAF_PAYLOAD_SIZE) 0), st)
       else case handle_leaf_update env (pw_tree st) ?ld (i_hashes imp) (Some imp) of
              Inl e \<Rightarrow> (e, [], st)
            | Inr (w, root) \<Rightarrow>
                (case log_auth (pw_nv st) (leaf_label (w_pub w)) root c ?ts of (ret, nv) \<Rightarrow>
                   if ret \<noteq> PW_SUCCESS then (ret, [], st\<lparr>pw_nv := nv\<rparr>)
                   else (c, try_auth_response 0 s1 s2 (bytes_of_wrapped w), set_root (st\<lparr>pw_nv := nv\<rparr>) root)))"
      using assms(2) sz v r row
      by (simp add: pw_handle_try_auth_def Let_def attempted_pub_def split: if_splits)
    show thesis
    proof (cases "validate_pcr_value env (valid_pcr_criteria (ld_pub ld)) = PW_SUCCESS \<and> rc = PW_SUCCESS")
      case False
      then show thesis using run Inr r by (auto simp: p split: if_splits intro: rejected limited)
    next
      case ok: True
      show thesis
      proof (cases "handle_leaf_update env (pw_tree st) ?ld (i_hashes imp) (Some imp)")
        case (Inl e)
        then show thesis using run ok handle_leaf_update_error [OF Inl] by (intro rejected) auto
      next
        case u: (Inr q)
        obtain w root where q: "q = (w, root)" by fastforce
        note len = handle_leaf_update_root_length [OF assms(1) u [unfolded q]]
        obtain ret nv where l: "log_auth (pw_nv st) (leaf_label (w_pub w)) root c ?ts = (ret, nv)" by fastforce
        show thesis
        proof (cases "ret = PW_SUCCESS")
          case True
          then show thesis using run ok u q l row Inr p r sz by (intro answered) auto
        next
          case False
          then show thesis using run ok u q l not_logged_auth [OF len l] by (intro rejected) auto
        qed
      qed
    qed
  qed
qed

end
