(* ===== verification/Pw_Log.thy ===== *)
theory Pw_Log
  imports Pw_Auth
begin

text \<open>
  The log of PinWeaver in flash.  Every handler that changes the root first appends a log entry with
  the new root and changes the root in RAM only when the entry is stored, so that the root the
  chip works with is the one it finds after a reboot, and the host can replay the last attempt when it
  has lost the answer.  The facts about the flash are those of the interpretation \<open>nv\<close> of
  \<open>kv_store\<close>.
\<close>

section \<open>Appending to the log\<close>

definition stored_root :: "nv_state \<Rightarrow> bytes option" where
  "stored_root nv = (case load_log_data nv of Inl e \<Rightarrow> None | Inr log \<Rightarrow> Some (e_root (log_entries log ! 0)))"

text \<open>The tree in RAM is the one in flash.\<close>

definition pw_in_sync :: "pw_state \<Rightarrow> bool" where
  "pw_in_sync st \<longleftrightarrow> stored_root (pw_nv st) = Some (mt_root (pw_tree st)) \<and>
     getvar (pw_nv st) PW_TREE_VAR = Some (bytes_of_long_term (pw_tree st)) \<and>
     length (key_derivation_nonce (pw_tree st)) = 16"

text \<open>A handler went through: its entry is in the log and its root is the root of the tree.\<close>

definition logged :: "pw_state \<Rightarrow> pw_state \<Rightarrow> bool" where
  "logged st st' \<longleftrightarrow> (\<exists>e nv. entry_wf e \<and> log_append (pw_nv st) e = (PW_SUCCESS, nv) \<and>
     st' = set_root (st\<lparr>pw_nv := nv\<rparr>) (e_root e))"

lemma pw_vars_distinct [simp]: "PW_LOG_VAR0 \<noteq> PW_TREE_VAR" "PW_TREE_VAR \<noteq> PW_LOG_VAR0"
  by (simp_all add: PW_LOG_VAR0_def PW_TREE_VAR_def)

lemma load_log_data_cong: "getvar nv' PW_LOG_VAR0 = getvar nv PW_LOG_VAR0 \<Longrightarrow> load_log_data nv' = load_log_data nv"
  by (simp add: load_log_data_def)

lemma load_log_data_wf: "load_log_data nv = Inr log \<Longrightarrow> log_wf log \<and> storage_version log = PW_STORAGE_VERSION"
  using log_of_bytes_wf by (auto simp: load_log_data_def split: option.splits if_splits)

lemma load_log_data_error: "load_log_data nv = Inl e \<Longrightarrow> e \<noteq> PW_SUCCESS"
  by (auto simp: load_log_data_def split: option.splits if_splits)

lemma load_log_of_bytes:
  assumes "getvar nv PW_LOG_VAR0 = Some (bytes_of_log log)" "log_wf log" "storage_version log = PW_STORAGE_VERSION"
  shows "load_log_data nv = Inr log"
  using assms by (simp add: load_log_data_def length_bytes_of_log log_roundtrip)

lemma bounded_log: "log_wf log \<Longrightarrow> bounded_var PW_LOG_VAR0 (bytes_of_log log)"
  by (simp add: bounded_var_def length_bytes_of_log PW_LOG_VAR0_def)

lemma store_log_data_spec:
  assumes "nv_ready nv" "log_wf log" "storage_version log = PW_STORAGE_VERSION"
    "store_log_data nv log = (ret, nv')" "\<not> nv_reset nv'"
  shows "ret = PW_SUCCESS \<Longrightarrow> load_log_data nv' = Inr log" "ret \<noteq> PW_SUCCESS \<Longrightarrow> load_log_data nv' = load_log_data nv"
    "getvar nv' PW_TREE_VAR = getvar nv PW_TREE_VAR" "nv_vars_ok nv' \<and> crypto_enabled nv'"
proof -
  obtain rv where r: "setvar nv PW_LOG_VAR0 (bytes_of_log log) = (rv, nv')" "ret = PW_EC rv"
    using assms(4) by (auto simp: store_log_data_def split: prod.splits)
  note b = bounded_log [OF assms(2)]
  have ne: "bytes_of_log log \<noteq> []" using length_bytes_of_log [OF assms(2)] by auto
  show "load_log_data nv' = Inr log" if "ret = PW_SUCCESS"
    using nv.read_back [OF assms(1) b ne _ assms(5)] r that assms(2,3) by (intro load_log_of_bytes) auto
  show "load_log_data nv' = load_log_data nv" if "ret \<noteq> PW_SUCCESS"
    using nv.update_error [OF assms(1) b r(1) _ assms(5)] r that by (intro load_log_data_cong) auto
  show "getvar nv' PW_TREE_VAR = getvar nv PW_TREE_VAR"
    by (rule nv.read_other [OF assms(1) b r(1) assms(5)]) simp
  show "nv_vars_ok nv' \<and> crypto_enabled nv'" using nv.update_consistent [OF assms(1) b r(1) assms(5)] .
qed

lemma roll_append_wf:
  assumes "log_wf log" "entry_wf e"
  shows "log_wf (log\<lparr>log_entries := (empty_log_entry # take (PW_LOG_ENTRY_COUNT - 1) (log_entries log))[0 := e]\<rparr>)"
  using assms by (auto simp: log_wf_def entry_wf_def PW_LOG_ENTRY_COUNT_def dest: in_set_takeD)

lemma log_append_spec:
  assumes "nv_ready nv" "entry_wf e" "log_append nv e = (ret, nv')" "\<not> nv_reset nv'"
  shows "ret = PW_SUCCESS \<Longrightarrow>
      (\<exists>log. load_log_data nv = Inr log \<and>
         load_log_data nv' = Inr (log\<lparr>log_entries := [e, log_entries log ! 0]\<rparr>))"
    "ret \<noteq> PW_SUCCESS \<Longrightarrow> load_log_data nv' = load_log_data nv"
    "getvar nv' PW_TREE_VAR = getvar nv PW_TREE_VAR" "nv_vars_ok nv' \<and> crypto_enabled nv'"
proof -
  have goal: "(ret = PW_SUCCESS \<longrightarrow> (\<exists>log. load_log_data nv = Inr log \<and>
         load_log_data nv' = Inr (log\<lparr>log_entries := [e, log_entries log ! 0]\<rparr>))) \<and>
    (ret \<noteq> PW_SUCCESS \<longrightarrow> load_log_data nv' = load_log_data nv) \<and>
    getvar nv' PW_TREE_VAR = getvar nv PW_TREE_VAR \<and> nv_vars_ok nv' \<and> crypto_enabled nv'"
  proof (cases "load_log_data nv")
    case (Inl x)
    then show ?thesis using assms load_log_data_error [OF Inl] by (auto simp: log_append_def log_roll_for_append_def nv_ready_def)
  next
    case (Inr log)
    let ?log = "log\<lparr>log_entries := (empty_log_entry # take (PW_LOG_ENTRY_COUNT - 1) (log_entries log))[0 := e]\<rparr>"
    have st: "store_log_data nv ?log = (ret, nv')" using assms(3) Inr by (simp add: log_append_def log_roll_for_append_def)
    have wf: "log_wf ?log" "storage_version ?log = PW_STORAGE_VERSION"
      using roll_append_wf [OF _ assms(2)] load_log_data_wf [OF Inr] by auto
    have "?log = log\<lparr>log_entries := [e, log_entries log ! 0]\<rparr>"
      using load_log_data_wf [OF Inr] by (cases "log_entries log") (auto simp: log_wf_def PW_LOG_ENTRY_COUNT_def)
    then show ?thesis using store_log_data_spec [OF assms(1) wf st assms(4)] Inr by auto
  qed
  from goal show "ret = PW_SUCCESS \<Longrightarrow> (\<exists>log. load_log_data nv = Inr log \<and>
         load_log_data nv' = Inr (log\<lparr>log_entries := [e, log_entries log ! 0]\<rparr>))"
    "ret \<noteq> PW_SUCCESS \<Longrightarrow> load_log_data nv' = load_log_data nv"
    "getvar nv' PW_TREE_VAR = getvar nv PW_TREE_VAR" "nv_vars_ok nv' \<and> crypto_enabled nv'" by auto
qed

lemma long_term_set_root [simp]: "bytes_of_long_term (t\<lparr>mt_root := r\<rparr>) = bytes_of_long_term t"
  by (simp add: bytes_of_long_term_def)

lemma logged_in_sync:
  assumes "logged st st'" "pw_in_sync st" "nv_ready (pw_nv st)" "\<not> nv_reset (pw_nv st')"
  shows "pw_in_sync st' \<and> nv_vars_ok (pw_nv st') \<and> crypto_enabled (pw_nv st')"
proof -
  obtain e nv where e: "entry_wf e" "log_append (pw_nv st) e = (PW_SUCCESS, nv)"
    "st' = set_root (st\<lparr>pw_nv := nv\<rparr>) (e_root e)" using assms(1) by (auto simp: logged_def)
  have "\<not> nv_reset nv" using assms(4) e(3) by (simp add: set_root_def)
  from log_append_spec [OF assms(3) e(1,2) this] assms(2) e(3) show ?thesis
    by (auto simp: pw_in_sync_def stored_root_def set_root_def)
qed

lemma not_logged_in_sync:
  assumes "not_logged st st'" "pw_in_sync st" "nv_ready (pw_nv st)" "\<not> nv_reset (pw_nv st')"
  shows "pw_in_sync st' \<and> nv_vars_ok (pw_nv st') \<and> crypto_enabled (pw_nv st')"
  using assms(1) unfolding not_logged_def
proof (elim disjE exE conjE)
  fix e ret nv assume e: "entry_wf e" "log_append (pw_nv st) e = (ret, nv)" "ret \<noteq> PW_SUCCESS" "st' = st\<lparr>pw_nv := nv\<rparr>"
  have "\<not> nv_reset nv" using assms(4) e(4) by simp
  from log_append_spec [OF assms(3) e(1,2) this] assms(2) e(3,4) show ?thesis
    by (auto simp: pw_in_sync_def stored_root_def)
qed (use assms in \<open>simp add: nv_ready_def\<close>)

section \<open>The handlers\<close>

lemma try_auth_logs:
  assumes "engines_ok env" "pw_handle_try_auth env st data n = (code, resp, st')"
  shows "not_logged st st' \<or> logged st st'"
  using assms
proof (cases rule: try_auth_cases)
  case (answered imp ld wait w root nv)
  show ?thesis
    using answered(6,8) log_auth_entry_wf [OF handle_leaf_update_root_length [OF assms(1) answered(5)]]
    by (force simp: logged_def log_auth_def)
qed auto

lemma log_entry_outcome:
  assumes "entry_wf e" "log_append (pw_nv st) e = (ret, nv)"
    "st' = (if ret \<noteq> PW_SUCCESS then st\<lparr>pw_nv := nv\<rparr> else set_root (st\<lparr>pw_nv := nv\<rparr>) (e_root e))"
  shows "not_logged st st' \<or> logged st st'"
  using assms by (cases "ret = PW_SUCCESS") (auto simp: not_logged_def logged_def)

lemma insert_leaf_logs:
  assumes "engines_ok env" "pw_handle_insert_leaf env st data n = (code, resp, st')"
  shows "not_logged st st' \<or> logged st st'"
proof (cases "handle_leaf_update env (pw_tree st) (insert_leaf_data data) (drop SIZEOF_INSERT_LEAF data) None")
  case (Inl e)
  then show ?thesis using assms(2) by (auto simp: pw_handle_insert_leaf_def Let_def split: if_splits)
next
  case (Inr p)
  obtain w root where p: "p = (w, root)" by fastforce
  note u = Inr [unfolded p]
  let ?e = "empty_log_entry\<lparr>e_type := PW_INSERT_LEAF, e_label := leaf_label (ld_pub (insert_leaf_data data)),
    e_root := root, e_union := w_hmac w\<rparr>"
  obtain ret nv where l: "log_append (pw_nv st) ?e = (ret, nv)" by fastforce
  have "length (w_hmac w) = PW_HASH_SIZE" by (rule handle_leaf_update_inr [OF u]) (rule compute_hmac_length [OF assms(1)])
  then have wf: "entry_wf ?e" using handle_leaf_update_root_length [OF assms(1) u] by (simp add: entry_wf_def pw_sizes)
  have "st' = st \<or> st' = (if ret \<noteq> PW_SUCCESS then st\<lparr>pw_nv := nv\<rparr> else set_root (st\<lparr>pw_nv := nv\<rparr>) (e_root ?e))"
    using assms(2) u l by (auto simp: pw_handle_insert_leaf_def log_insert_leaf_def Let_def split: if_splits)
  then show ?thesis using log_entry_outcome [OF wf l] by auto
qed

lemma remove_leaf_logs:
  assumes "engines_ok env" "pw_handle_remove_leaf env st data n = (code, resp, st')"
  shows "not_logged st st' \<or> logged st st'"
proof (cases "compute_root_hash env (pw_tree st) (of_le (field 0 8 data)) (drop SIZEOF_REMOVE_LEAF data)
    (replicate PW_HASH_SIZE 0)")
  case (Inl e)
  then show ?thesis using assms(2) by (auto simp: pw_handle_remove_leaf_def Let_def split: if_splits)
next
  case (Inr root)
  let ?e = "empty_log_entry\<lparr>e_type := PW_REMOVE_LEAF, e_label := of_le (field 0 8 data), e_root := root\<rparr>"
  obtain ret nv where l: "log_append (pw_nv st) ?e = (ret, nv)" by fastforce
  have wf: "entry_wf ?e" using compute_root_hash_length [OF assms(1) Inr] by (simp add: entry_wf_def pw_sizes empty_log_entry_def)
  have "st' = st \<or> st' = (if ret \<noteq> PW_SUCCESS then st\<lparr>pw_nv := nv\<rparr> else set_root (st\<lparr>pw_nv := nv\<rparr>) (e_root ?e))"
    using assms(2) Inr l by (auto simp: pw_handle_remove_leaf_def log_remove_leaf_def Let_def split: if_splits)
  then show ?thesis using log_entry_outcome [OF wf l] by auto
qed

lemma reset_auth_logs:
  assumes "engines_ok env" "pw_handle_reset_auth env st data n = (code, resp, st')"
  shows "not_logged st st' \<or> logged st st'"
proof (cases "presented_leaf env st data n")
  case (Inl e)
  then show ?thesis using assms(2) by (auto simp: pw_handle_reset_auth_def presented_leaf_def Let_def split: if_splits)
next
  case (Inr p)
  obtain imp ld where p: "p = (imp, ld)" by fastforce
  let ?ld = "ld\<lparr>ld_pub := (ld_pub ld)\<lparr>attempt_count := 0\<rparr>\<rparr>"
  note v = Inr [unfolded p presented_leaf_def]
  show ?thesis
  proof (cases "handle_leaf_update env (pw_tree st) ?ld (i_hashes imp) (Some imp)")
    case (Inl e)
    then show ?thesis using assms(2) v by (auto simp: pw_handle_reset_auth_def Let_def split: if_splits)
  next
    case u: (Inr q)
    obtain w root where q: "q = (w, root)" by fastforce
    let ?e = "empty_log_entry\<lparr>e_type := PW_TRY_AUTH, e_label := leaf_label (ld_pub ?ld), e_root := root,
       e_union := auth_union (leaf_timestamp (ld_pub ?ld)) (pw_code_value PW_SUCCESS)\<rparr>"
    obtain ret nv where l: "log_append (pw_nv st) ?e = (ret, nv)" by fastforce
    have wf: "entry_wf ?e" by (rule log_auth_entry_wf) (rule handle_leaf_update_root_length [OF assms(1) u [unfolded q]])
    have "st' = st \<or> st' = (if ret \<noteq> PW_SUCCESS then st\<lparr>pw_nv := nv\<rparr> else set_root (st\<lparr>pw_nv := nv\<rparr>) (e_root ?e))"
      using assms(2) v u l unfolding q
      by (auto simp: pw_handle_reset_auth_def log_auth_def Let_def split: if_splits)
    then show ?thesis using log_entry_outcome [OF wf l] by auto
  qed
qed

lemma get_log_state: "pw_handle_get_log env st data n = (code, resp, st') \<Longrightarrow> st' = st"
  by (auto simp: pw_handle_get_log_def Let_def split: if_splits sum.splits)

lemma log_replay_state: "pw_handle_log_replay env st data n = (code, resp, st') \<Longrightarrow> st' = st"
  by (auto simp: pw_handle_log_replay_def Let_def split: if_splits sum.splits)

section \<open>A new tree\<close>

lemma derive_keys_keeps:
  "derive_keys env tree = (ret, tree') \<Longrightarrow> mt_root tree' = mt_root tree \<and>
     key_derivation_nonce tree' = key_derivation_nonce tree \<and> bytes_of_long_term tree' = bytes_of_long_term tree"
  by (auto simp: derive_keys_def Let_def bytes_of_long_term_def split: if_splits option.splits)

lemma empty_root_length:
  "engines_ok env \<Longrightarrow> length t = PW_HASH_SIZE \<Longrightarrow> empty_root env k n t = Some r \<Longrightarrow> length r = PW_HASH_SIZE"
  by (induction n arbitrary: t) (auto split: option.splits dest: engines_okD(1))

lemma create_merkle_tree_lengths:
  assumes "engines_ok env" "create_merkle_tree env bits h t = (PW_SUCCESS, tree)"
  shows "length (mt_root tree) = PW_HASH_SIZE" "length (key_derivation_nonce tree) = 16"
proof -
  obtain root nonce where r: "empty_root env (2 ^ unat bits mod 2 ^ 16) (unat h) (replicate PW_HASH_SIZE 0) = Some root"
    "fips_rand env 16 = Some nonce"
    "derive_keys env (t\<lparr>bits_per_level := bits, height := h, mt_root := root, key_derivation_nonce := nonce\<rparr>) = (PW_SUCCESS, tree)"
    using assms(2) by (auto simp: create_merkle_tree_def Let_def split: option.splits)
  show "length (mt_root tree) = PW_HASH_SIZE"
    using derive_keys_keeps [OF r(3)] empty_root_length [OF assms(1) _ r(1)] by simp
  show "length (key_derivation_nonce tree) = 16"
    using derive_keys_keeps [OF r(3)] engines_okD(5) [OF assms(1) r(2)] by simp
qed

lemma new_tree_log_wf:
  "length (mt_root tree) = PW_HASH_SIZE \<Longrightarrow>
     log_wf (new_tree_log tree) \<and> storage_version (new_tree_log tree) = PW_STORAGE_VERSION"
  by (simp add: new_tree_log_def log_wf_def pw_sizes empty_log_entry_def)

lemma length_long_term: "length (key_derivation_nonce tree) = 16 \<Longrightarrow> length (bytes_of_long_term tree) = 20"
  by (simp add: bytes_of_long_term_def)

text \<open>Variables that are replaced by values of the same length cannot overflow the store.\<close>

lemma setvar_same_length:
  assumes "nv_ready nv" "bounded_var k v" "setvar nv k v = (rv, nv')" "\<not> nv_reset nv'"
    "getvar nv k = Some old" "length old = length v" "k \<noteq> []" "length k + length v \<le> MAX_VAR_BODY_SPACE"
  shows "rv = EC_SUCCESS"
proof -
  have "nv_var_map nv k = Some old" using assms(1,5) by (simp add: getvar_eq_map nv_ready_def)
  then have "setvar_code nv k v = EC_SUCCESS" using assms(6-8) by (auto simp: setvar_code_def)
  then show ?thesis using setvar_spec [OF assms(1-4)] by simp
qed

lemma pw_var_names: "length PW_TREE_VAR = 4" "length PW_LOG_VAR0 = 4" "PW_TREE_VAR \<noteq> []" "PW_LOG_VAR0 \<noteq> []"
  by (simp_all add: PW_TREE_VAR_def PW_LOG_VAR0_def)

lemma nv_ready_running: "nv_ready nv \<Longrightarrow> \<not> nv_reset nv"
  by (simp add: nv_ready_def nv_vars_ok_def nv_log_ok_def flash_ok_def)

text \<open>Storing a tree: two variables, written one after the other.\<close>

lemma store_merkle_tree_spec:
  assumes "nv_ready (pw_nv st)" "store_merkle_tree st tree = (ret, st')" "\<not> nv_reset (pw_nv st')"
    "length (mt_root tree) = PW_HASH_SIZE" "length (key_derivation_nonce tree) = 16"
    "nv_ready (snd (setvar (pw_nv st) PW_TREE_VAR (bytes_of_long_term tree)))"
  shows "ret = PW_SUCCESS \<Longrightarrow> pw_in_sync (st'\<lparr>pw_tree := tree\<rparr>)" "nv_vars_ok (pw_nv st') \<and> crypto_enabled (pw_nv st')"
    "pw_in_sync st \<Longrightarrow> ret = PW_SUCCESS"
proof -
  note ll = length_long_term [OF assms(5)]
  have b: "bounded_var PW_TREE_VAR (bytes_of_long_term tree)" using ll by (simp add: bounded_var_def pw_var_names)
  have ne: "bytes_of_long_term tree \<noteq> []" using ll by auto
  obtain rv nv where s1: "setvar (pw_nv st) PW_TREE_VAR (bytes_of_long_term tree) = (rv, nv)" by fastforce
  have rd: "nv_ready nv" using assms(6) s1 by simp
  note n1 = nv_ready_running [OF rd]
  obtain ret2 nv2 where s2: "store_log_data nv (new_tree_log tree) = (ret2, nv2)" by fastforce
  have wf: "log_wf (new_tree_log tree)" "storage_version (new_tree_log tree) = PW_STORAGE_VERSION"
    using new_tree_log_wf [OF assms(4)] by auto
  have st': "(ret, pw_nv st') = (if rv \<noteq> EC_SUCCESS then (PW_EC rv, nv) else (ret2, nv2))"
    using assms(2) s1 s2 by (auto simp: store_merkle_tree_def split: if_splits)
  have n2: "rv = EC_SUCCESS \<Longrightarrow> \<not> nv_reset nv2" using st' assms(3) by simp
  show "nv_vars_ok (pw_nv st') \<and> crypto_enabled (pw_nv st')"
    using nv.update_consistent [OF assms(1) b s1 n1] store_log_data_spec(4) [OF rd wf s2] n2 st'
    by (auto split: if_splits)
  show "pw_in_sync (st'\<lparr>pw_tree := tree\<rparr>)" if "ret = PW_SUCCESS"
  proof -
    have k: "rv = EC_SUCCESS" "ret2 = PW_SUCCESS" "pw_nv st' = nv2" using that st' by (auto split: if_splits)
    have "getvar nv PW_TREE_VAR = Some (bytes_of_long_term tree)"
      using nv.read_back [OF assms(1) b ne _ n1] s1 k(1) by simp
    then show ?thesis
      using store_log_data_spec(1,3) [OF rd wf s2 n2 [OF k(1)]] k assms(5)
      by (simp add: pw_in_sync_def stored_root_def new_tree_log_def)
  qed
  show "ret = PW_SUCCESS" if sy: "pw_in_sync st"
  proof -
    have len: "length (bytes_of_long_term (pw_tree st)) = 20" using sy by (simp add: pw_in_sync_def length_long_term)
    have rv: "rv = EC_SUCCESS"
      using setvar_same_length [OF assms(1) b s1 n1, of "bytes_of_long_term (pw_tree st)"] sy len ll
      by (simp add: pw_in_sync_def pw_var_names MAX_VAR_BODY_SPACE_def)
    obtain v where v: "getvar (pw_nv st) PW_LOG_VAR0 = Some v" "length v = 152"
      using sy by (auto simp: pw_in_sync_def stored_root_def load_log_data_def split: option.splits if_splits)
    have "getvar nv PW_LOG_VAR0 = Some v" using nv.read_other [OF assms(1) b s1 n1, of PW_LOG_VAR0] v by simp
    then have "ret2 = PW_SUCCESS"
      using setvar_same_length [OF rd bounded_log [OF wf(1)] _ n2 [OF rv], of _ v] s2 v length_bytes_of_log [OF wf(1)]
      by (auto simp: store_log_data_def pw_var_names MAX_VAR_BODY_SPACE_def split: prod.splits)
    then show ?thesis using st' rv by simp
  qed
qed

lemma reset_tree_cases:
  assumes "engines_ok env" "pw_handle_reset_tree env st data n = (code, resp, st')"
  obtains (rejected) "st' = st" "code \<noteq> PW_SUCCESS"
  | (store) tree ret st1 where "length (mt_root tree) = PW_HASH_SIZE" "length (key_derivation_nonce tree) = 16"
      "store_merkle_tree st tree = (ret, st1)" "code = ret" "st' = (if ret = PW_SUCCESS then st1\<lparr>pw_tree := tree\<rparr> else st1)"
proof (cases "n = 2 \<and> validate_tree_parameters (data ! 0) (data ! 1) = PW_SUCCESS")
  case False
  then show thesis using assms(2) by (intro rejected) (auto simp: pw_handle_reset_tree_def Let_def split: if_splits)
next
  case True
  obtain ret0 tree where c: "create_merkle_tree env (data ! 0) (data ! 1) zero_merkle_tree = (ret0, tree)" by fastforce
  obtain ret st1 where s: "store_merkle_tree st tree = (ret, st1)" by fastforce
  show thesis
  proof (cases "ret0 = PW_SUCCESS")
    case False
    then show thesis using assms(2) True c by (intro rejected) (auto simp: pw_handle_reset_tree_def Let_def)
  next
    case ok: True
    show thesis
      using assms(2) True c s ok create_merkle_tree_lengths [OF assms(1)]
      by (intro store [of tree ret st1]) (auto simp: pw_handle_reset_tree_def Let_def split: if_splits)
  qed
qed

section \<open>Requests and reboots\<close>

text \<open>The flash is ready for the writes of a request; a reset of the tree makes two.\<close>

definition flash_ready :: "pw_state \<Rightarrow> u8 \<Rightarrow> bool" where
  "flash_ready st ty \<longleftrightarrow> nv_ready (pw_nv st) \<and>
     (ty = PW_RESET_TREE \<longrightarrow> (\<forall>v. length v = 20 \<longrightarrow> nv_ready (snd (setvar (pw_nv st) PW_TREE_VAR v))))"

lemma reset_tree_sync:
  assumes "engines_ok env" "flash_ready st PW_RESET_TREE" "pw_handle_reset_tree env st data n = (code, resp, st')"
    "\<not> nv_reset (pw_nv st')" "pw_in_sync st \<or> code = PW_SUCCESS"
  shows "pw_in_sync st' \<and> nv_vars_ok (pw_nv st') \<and> crypto_enabled (pw_nv st')"
  using assms(1,3)
proof (cases rule: reset_tree_cases)
  case rejected
  then show ?thesis using assms(2,5) by (auto simp: flash_ready_def nv_ready_def)
next
  case (store tree ret st1)
  have r: "nv_ready (pw_nv st)" "nv_ready (snd (setvar (pw_nv st) PW_TREE_VAR (bytes_of_long_term tree)))"
    using assms(2) length_long_term [OF store(2)] by (auto simp: flash_ready_def)
  have n: "\<not> nv_reset (pw_nv st1)" using store(5) assms(4) by (simp split: if_splits)
  note sp = store_merkle_tree_spec [OF r(1) store(3) n store(1,2) r(2)]
  have "ret = PW_SUCCESS" using sp(3) assms(5) store(4) by auto
  then show ?thesis using sp(1,2) store(5) by simp
qed

lemma dispatch_sync:
  assumes "engines_ok env" "flash_ready st (rq_type rq)" "pw_dispatch env st rq = (code, resp, st')"
    "\<not> nv_reset (pw_nv st')" "pw_in_sync st"
  shows "pw_in_sync st' \<and> nv_vars_ok (pw_nv st') \<and> crypto_enabled (pw_nv st')"
proof (cases "rq_type rq = PW_RESET_TREE")
  case True
  then show ?thesis using assms reset_tree_sync by (simp add: pw_dispatch_def)
next
  case False
  have "not_logged st st' \<or> logged st st'"
    using assms(3) False try_auth_logs [OF assms(1)] insert_leaf_logs [OF assms(1)] remove_leaf_logs [OF assms(1)]
      reset_auth_logs [OF assms(1)] get_log_state log_replay_state
    by (simp add: pw_dispatch_def Let_def split: if_splits) (metis not_logged_refl)+
  then show ?thesis
    using logged_in_sync not_logged_in_sync assms(2,4,5) by (auto simp: flash_ready_def)
qed

lemma long_term_layout:
  assumes "length v = 20" "of_le (field 0 2 v) = PW_STORAGE_VERSION"
    "bits_per_level t = v ! 2" "height t = v ! 3" "key_derivation_nonce t = drop 4 v"
  shows "bytes_of_long_term t = v"
proof -
  have "field 0 2 v = to_le 2 PW_STORAGE_VERSION"
    using assms(1) arg_cong [OF assms(2), of "to_le 2"] by (simp add: to_le_of_le length_field)
  then have "bytes_of_long_term t = take 2 v @ [v ! 2, v ! 3] @ drop 4 v"
    using assms(3-5) by (simp add: bytes_of_long_term_def field_def)
  also have "\<dots> = v"
    using assms(1) Cons_nth_drop_Suc [of 2 v] Cons_nth_drop_Suc [of 3 v] append_take_drop_id [of 2 v]
    by (simp add: numeral_eq_Suc)
  finally show ?thesis .
qed

lemma load_tree_params_success:
  assumes "load_tree_params env st = (PW_SUCCESS, st1)"
  obtains v where "getvar (pw_nv st) PW_TREE_VAR = Some v" "length v = 20"
    "bytes_of_long_term (pw_tree st1) = v" "key_derivation_nonce (pw_tree st1) = drop 4 v" "pw_nv st1 = pw_nv st"
    "derive_keys env ((pw_tree st)\<lparr>bits_per_level := v ! 2, height := v ! 3, key_derivation_nonce := drop 4 v\<rparr>) =
       (PW_SUCCESS, pw_tree st1)" "st1 = st\<lparr>pw_tree := pw_tree st1\<rparr>"
proof -
  obtain v tree where v: "getvar (pw_nv st) PW_TREE_VAR = Some v" "length v = 20" "of_le (field 0 2 v) = PW_STORAGE_VERSION"
    "derive_keys env ((pw_tree st)\<lparr>bits_per_level := v ! 2, height := v ! 3, key_derivation_nonce := drop 4 v\<rparr>) =
       (PW_SUCCESS, tree)" "st1 = st\<lparr>pw_tree := tree\<rparr>"
    using assms by (auto simp: load_tree_params_def split: option.splits if_splits prod.splits)
  have "bytes_of_long_term ((pw_tree st)\<lparr>bits_per_level := v ! 2, height := v ! 3, key_derivation_nonce := drop 4 v\<rparr>) = v"
    by (rule long_term_layout [OF v(2,3)]) simp_all
  then show thesis using that [OF v(1,2)] derive_keys_keeps [OF v(4)] v(4,5) by simp
qed

lemma load_tree_root_success:
  assumes "nv_ready (pw_nv st)" "load_tree_root env st = (PW_SUCCESS, st')" "\<not> nv_reset (pw_nv st')"
  shows "stored_root (pw_nv st) = Some (mt_root (pw_tree st'))" "stored_root (pw_nv st') = Some (mt_root (pw_tree st'))"
    "pw_tree st' = (pw_tree st)\<lparr>mt_root := mt_root (pw_tree st')\<rparr>"
    "getvar (pw_nv st') PW_TREE_VAR = getvar (pw_nv st) PW_TREE_VAR"
    "\<exists>log. load_log_data (pw_nv st) = Inr log \<and> pw_restart_count st' =
       (if time_at_check env < RESTART_TIMER_THRESHOLD then restart_count log + 1 else restart_count log)"
proof -
  obtain log where l: "load_log_data (pw_nv st) = Inr log"
    using assms(2) by (auto simp: load_tree_root_def load_log_data_def split: option.splits if_splits)
  let ?log = "log\<lparr>restart_count := restart_count log + 1\<rparr>"
  let ?st = "st\<lparr>pw_tree := (pw_tree st)\<lparr>mt_root := e_root (log_entries log ! 0)\<rparr>\<rparr>"
  have run: "(if time_at_check env < RESTART_TIMER_THRESHOLD
      then (case store_log_data (pw_nv st) ?log of (ret, nv) \<Rightarrow>
             if ret \<noteq> PW_SUCCESS then (ret, ?st\<lparr>pw_nv := nv\<rparr>)
             else (PW_SUCCESS, ?st\<lparr>pw_nv := nv, pw_restart_count := restart_count ?log\<rparr>))
      else (PW_SUCCESS, ?st\<lparr>pw_restart_count := restart_count log\<rparr>)) = (PW_SUCCESS, st')"
    using assms(2) l by (auto simp: load_tree_root_def load_log_data_def Let_def split: option.splits if_splits)
  have wf: "log_wf ?log" "storage_version ?log = PW_STORAGE_VERSION"
    using load_log_data_wf [OF l] by (auto simp: log_wf_def)
  have "stored_root (pw_nv st) = Some (mt_root (pw_tree st')) \<and> stored_root (pw_nv st') = Some (mt_root (pw_tree st')) \<and>
    pw_tree st' = (pw_tree st)\<lparr>mt_root := mt_root (pw_tree st')\<rparr> \<and>
    getvar (pw_nv st') PW_TREE_VAR = getvar (pw_nv st) PW_TREE_VAR \<and> pw_restart_count st' =
       (if time_at_check env < RESTART_TIMER_THRESHOLD then restart_count log + 1 else restart_count log)"
  proof (cases "time_at_check env < RESTART_TIMER_THRESHOLD")
    case True
    then obtain nv where s: "store_log_data (pw_nv st) ?log = (PW_SUCCESS, nv)"
      "st' = ?st\<lparr>pw_nv := nv, pw_restart_count := restart_count ?log\<rparr>"
      using run by (auto split: prod.splits if_splits)
    have "\<not> nv_reset nv" using assms(3) s(2) by simp
    from store_log_data_spec(1,3) [OF assms(1) wf s(1) this] s(2) l True show ?thesis by (simp add: stored_root_def)
  next
    case False
    then show ?thesis using run l by (auto simp: stored_root_def)
  qed
  then show "stored_root (pw_nv st) = Some (mt_root (pw_tree st'))" "stored_root (pw_nv st') = Some (mt_root (pw_tree st'))"
    "pw_tree st' = (pw_tree st)\<lparr>mt_root := mt_root (pw_tree st')\<rparr>"
    "getvar (pw_nv st') PW_TREE_VAR = getvar (pw_nv st) PW_TREE_VAR"
    "\<exists>log. load_log_data (pw_nv st) = Inr log \<and> pw_restart_count st' =
       (if time_at_check env < RESTART_TIMER_THRESHOLD then restart_count log + 1 else restart_count log)"
    using l by auto
qed

text \<open>The log is rewritten in place, so the store cannot refuse it.\<close>

lemma store_log_data_total:
  assumes "nv_ready nv" "load_log_data nv = Inr log" "log_wf log'" "store_log_data nv log' = (ret, nv')" "\<not> nv_reset nv'"
  shows "ret = PW_SUCCESS"
proof -
  obtain v where v: "getvar nv PW_LOG_VAR0 = Some v" "length v = 152"
    using assms(2) by (auto simp: load_log_data_def split: option.splits if_splits)
  show ?thesis
    using setvar_same_length [OF assms(1) bounded_log [OF assms(3)] _ assms(5) v(1)] assms(4) v(2) length_bytes_of_log [OF assms(3)]
    by (auto simp: store_log_data_def pw_var_names MAX_VAR_BODY_SPACE_def split: prod.splits)
qed

lemma load_tree_root_total:
  assumes "nv_ready (pw_nv st)" "load_log_data (pw_nv st) = Inr log" "load_tree_root env st = (ret, st')"
    "\<not> nv_reset (pw_nv st')"
  shows "ret = PW_SUCCESS"
proof -
  have "log_wf (log\<lparr>restart_count := restart_count log + 1\<rparr>)" using load_log_data_wf [OF assms(2)] by (simp add: log_wf_def)
  note t = store_log_data_total [OF assms(1,2) this]
  show ?thesis
    using assms(2-4) t
    by (auto simp: load_tree_root_def load_log_data_def Let_def split: option.splits if_splits prod.splits)
qed

lemma derive_keys_nonce:
  "derive_keys env t = (PW_SUCCESS, t') \<Longrightarrow> key_derivation_nonce u = key_derivation_nonce t \<Longrightarrow>
     derive_keys env u = (PW_SUCCESS, u\<lparr>wrap_key := wrap_key t', hmac_key := hmac_key t'\<rparr>)"
  by (auto simp: derive_keys_def Let_def split: if_splits option.splits)

lemma long_term_fields:
  assumes "length (key_derivation_nonce t) = 16"
  shows "of_le (field 0 2 (bytes_of_long_term t)) = PW_STORAGE_VERSION" "bytes_of_long_term t ! 2 = bits_per_level t"
    "bytes_of_long_term t ! 3 = height t" "drop 4 (bytes_of_long_term t) = key_derivation_nonce t"
  by (simp_all add: bytes_of_long_term_def layout of_le_to_le nth_append)

lemma load_tree_params_sync:
  assumes "pw_in_sync st" "derive_keys env (pw_tree st) = (PW_SUCCESS, pw_tree st)" "pw_nv z = pw_nv st"
  shows "load_tree_params env z = (PW_SUCCESS, z\<lparr>pw_tree := (pw_tree st)\<lparr>mt_root := mt_root (pw_tree z)\<rparr>\<rparr>)"
proof -
  have l: "length (key_derivation_nonce (pw_tree st)) = 16" using assms(1) by (simp add: pw_in_sync_def)
  let ?u = "(pw_tree z)\<lparr>bits_per_level := bits_per_level (pw_tree st), height := height (pw_tree st),
    key_derivation_nonce := key_derivation_nonce (pw_tree st)\<rparr>"
  have "derive_keys env ?u = (PW_SUCCESS, ?u\<lparr>wrap_key := wrap_key (pw_tree st), hmac_key := hmac_key (pw_tree st)\<rparr>)"
    by (rule derive_keys_nonce [OF assms(2)]) simp
  moreover have "?u\<lparr>wrap_key := wrap_key (pw_tree st), hmac_key := hmac_key (pw_tree st)\<rparr> =
      (pw_tree st)\<lparr>mt_root := mt_root (pw_tree z)\<rparr>" by simp
  ultimately show ?thesis
    using assms(1,3) long_term_fields [OF l] length_long_term [OF l]
    by (simp add: load_tree_params_def pw_in_sync_def)
qed

lemma load_merkle_tree_sync:
  assumes "nv_ready (pw_nv st)" "load_merkle_tree env st = (PW_SUCCESS, st')" "\<not> nv_reset (pw_nv st')"
  shows "pw_in_sync st'"
proof -
  obtain st1 where s: "load_tree_params env st = (PW_SUCCESS, st1)" "load_tree_root env st1 = (PW_SUCCESS, st')"
    using assms(2) by (auto simp: load_merkle_tree_def split: prod.splits if_splits)
  obtain v where v: "getvar (pw_nv st) PW_TREE_VAR = Some v" "length v = 20"
    "bytes_of_long_term (pw_tree st1) = v" "key_derivation_nonce (pw_tree st1) = drop 4 v" "pw_nv st1 = pw_nv st"
    by (rule load_tree_params_success [OF s(1)])
  have r: "nv_ready (pw_nv st1)" using assms(1) v(5) by simp
  note t = load_tree_root_success [OF r s(2) assms(3)]
  have "bytes_of_long_term (pw_tree st') = v \<and> key_derivation_nonce (pw_tree st') = drop 4 v"
    by (subst t(3), subst t(3)) (simp add: v)
  then show ?thesis using t(2,4) v by (simp add: pw_in_sync_def)
qed

text \<open>The life of a chip: requests, each with what the engines and the clock do during it, and
  reboots, after which the tree in RAM is read from flash.\<close>

inductive pw_step :: "pw_state \<Rightarrow> pw_state \<Rightarrow> bool" where
  request: "engines_ok env \<Longrightarrow> flash_ready st (rq_type rq) \<Longrightarrow> pw_handle_request env st rq = (code, rs, st') \<Longrightarrow>
    \<not> nv_reset (pw_nv st') \<Longrightarrow> pw_step st st'"
| reboot: "nv_ready (pw_nv st) \<Longrightarrow>
    load_merkle_tree env (st\<lparr>pw_tree := zero_merkle_tree, pw_restart_count := 0\<rparr>) = (PW_SUCCESS, st') \<Longrightarrow>
    \<not> nv_reset (pw_nv st') \<Longrightarrow> pw_step st st'"

inductive_cases pw_stepE: "pw_step st st'"

lemma make_compatible_request_type: "make_compatible_request tree rq = Some rq1 \<Longrightarrow> rq_type rq1 = rq_type rq"
  by (auto simp: make_compatible_request_def Let_def split: if_splits)

lemma handle_request_state:
  assumes "pw_handle_request env st rq = (code, rs, st')"
  shows "st' = st \<or> (\<exists>rq1 resp. pw_dispatch env st rq1 = (code, resp, st') \<and> rq_type rq1 = rq_type rq)"
  using assms make_compatible_request_type
  by (auto simp: pw_handle_request_def split: option.splits prod.splits)

lemma pw_step_in_sync:
  assumes "pw_step st st'" "pw_in_sync st"
  shows "pw_in_sync st'"
  using assms
proof (cases rule: pw_step.cases)
  case (request env rq code rs)
  from handle_request_state [OF request(3)] show ?thesis
  proof (elim disjE exE conjE)
    fix rq1 resp assume d: "pw_dispatch env st rq1 = (code, resp, st')" "rq_type rq1 = rq_type rq"
    show ?thesis using dispatch_sync [OF request(1) _ d(1) request(4) assms(2)] request(2) d(2) by simp
  qed (use assms(2) in simp)
next
  case (reboot env)
  show ?thesis by (rule load_merkle_tree_sync [OF _ reboot(2,3)]) (use reboot(1) in simp)
qed

end
