(* ===== verification/Pw_Security.thy ===== *)
theory Pw_Security
  imports Pw_Log
begin

text \<open>
  The guarantees of PinWeaver: what an authentication attempt releases and records, that the rate
  limit is the schedule of the leaf, that the leaves the chip hands out are leaves it takes back, that
  flash and RAM agree on the root and that a lost answer can be replayed; and the places where the code
  falls short of its own comments.
\<close>

section \<open>The presented leaf\<close>

text \<open>The two leaf formats the chip has written: the current one and that without PCR criteria.\<close>

definition known_head :: "leaf_header \<Rightarrow> bool" where
  "known_head h \<longleftrightarrow> h = init_wrapped_leaf_data \<or>
     h = init_wrapped_leaf_data\<lparr>lv_minor := 0, pub_len := of_nat (PW_LEAF_PUBLIC_SIZE - PW_VALID_PCR_CRITERIA_SIZE)\<rparr>"

definition request_leaf :: "bytes \<Rightarrow> unimported_leaf_data" where
  "request_leaf data = unimported_of_bytes (drop PW_SECRET_SIZE data)"

lemma known_head_lens:
  assumes "known_head h"
  shows "unat (sec_len h) = PW_LEAF_SENSITIVE_SIZE" "8 \<le> unat (pub_len h)" "unat (pub_len h) \<le> PW_LEAF_PUBLIC_SIZE"
  using assms by (auto simp: known_head_def init_wrapped_leaf_data_def pw_sizes)

lemma validate_wrapped_inr:
  assumes "validate_request_with_wrapped_leaf env tree plen u = Inr (imp, ld)"
  obtains dec where "imp = import_leaf u"
    "validate_leaf_header (u_head u) plen (get_path_auxiliary_hash_count tree) = PW_SUCCESS" "plen = unat (pub_len (u_head u)) + unat (sec_len (u_head u)) +
      (get_path_auxiliary_hash_count tree mod 2 ^ 16) * PW_HASH_SIZE"
    "validate_request_with_path env tree (leaf_label (pub_of_bytes (i_pub imp))) (i_hashes imp) (i_hmac imp) = PW_SUCCESS"
    "compute_hmac env tree imp = Inr (u_hmac u)" "decrypt_leaf_data env tree imp = Inr dec"
    "ld = (if lv_minor (u_head u) = 0 \<and> lv_major (u_head u) = 0
           then dec\<lparr>ld_pub := (ld_pub dec)\<lparr>valid_pcr_criteria :=
                  criteria_of_bytes (replicate PW_VALID_PCR_CRITERIA_SIZE 0)\<rparr>\<rparr> else dec)"
  using assms
  by (auto simp: validate_request_with_wrapped_leaf_def validate_leaf_header_def Let_def
      split: if_splits sum.splits)

lemma zero_criteria_wf: "\<forall>v\<in>set (criteria_of_bytes (replicate PW_VALID_PCR_CRITERIA_SIZE 0)). length (pcr_digest v) = 32"
  "length (criteria_of_bytes (replicate PW_VALID_PCR_CRITERIA_SIZE 0)) = PW_MAX_PCR_CRITERIA_COUNT"
  by (simp_all add: criteria_of_bytes_def pcr_value_of_bytes_def pw_sizes field_def upt_rec)

lemma presented_leaf_usable:
  assumes "presented_leaf env st data n = Inr (imp, ld)" "known_head (u_head (request_leaf data))"
    "n \<le> length data" "SIZEOF_LEAF_REQUEST \<le> n"
  shows "validate_tree (pw_tree st) = PW_SUCCESS" "validate_label (pw_tree st) (leaf_label (ld_pub ld)) = PW_SUCCESS"
    "pub_wf (ld_pub ld)" "update_keeps_secrets env (pw_tree st) (ld\<lparr>ld_pub := p\<rparr>) (Some imp)"
proof -
  let ?u = "request_leaf data"
  obtain dec where d: "imp = import_leaf ?u" "n - SIZEOF_LEAF_REQUEST = unat (pub_len (u_head ?u)) +
      unat (sec_len (u_head ?u)) + (get_path_auxiliary_hash_count (pw_tree st) mod 2 ^ 16) * PW_HASH_SIZE"
    "validate_request_with_path env (pw_tree st) (leaf_label (pub_of_bytes (i_pub imp))) (i_hashes imp) (i_hmac imp) = PW_SUCCESS"
    "decrypt_leaf_data env (pw_tree st) imp = Inr dec"
    "ld = (if lv_minor (u_head ?u) = 0 \<and> lv_major (u_head ?u) = 0
           then dec\<lparr>ld_pub := (ld_pub dec)\<lparr>valid_pcr_criteria :=
                  criteria_of_bytes (replicate PW_VALID_PCR_CRITERIA_SIZE 0)\<rparr>\<rparr> else dec)"
    by (rule validate_wrapped_inr [OF assms(1) [unfolded presented_leaf_def, folded request_leaf_def]])
  note h = known_head_lens [OF assms(2)]
  let ?k = "unat (pub_len (u_head ?u))"
  have len: "?k + PW_LEAF_SENSITIVE_SIZE \<le> length (u_payload ?u)" "length (u_iv ?u) = PW_WRAP_BLOCK_SIZE"
    using d(2) assms(3,4) h(1)
    by (simp_all add: request_leaf_def unimported_of_bytes_def SIZEOF_LEAF_REQUEST_def field_def pw_sizes)
  let ?pub = "take ?k (u_payload ?u) @ replicate (PW_LEAF_PUBLIC_SIZE - ?k) 0"
  have i: "i_head imp = u_head ?u" "i_pub imp = u_payload ?u" "i_iv imp = u_iv ?u" "i_cipher_text imp = drop ?k (u_payload ?u)"
    by (simp_all add: d(1) import_leaf_def Let_def)
  have mn: "min ?k PW_LEAF_PUBLIC_SIZE = ?k" using h(3) by simp
  obtain b where b: "aes_ctr env (wrap_key (pw_tree st)) (i_iv imp) (take PW_LEAF_SENSITIVE_SIZE (i_cipher_text imp)) = Some b"
    "dec = \<lparr>ld_pub = pub_of_bytes ?pub, ld_sec = sec_of_bytes b\<rparr>"
    using d(4) by (auto simp: decrypt_leaf_data_def i mn Let_def split: option.splits)
  show "update_keeps_secrets env (pw_tree st) (ld\<lparr>ld_pub := p\<rparr>) (Some imp)"
    using b len d(5) by (auto simp: update_keeps_secrets_def i)
  have "PW_LEAF_PUBLIC_SIZE \<le> length ?pub" using len(1) h(3) by simp
  then have wf: "pub_wf (ld_pub dec)" using pub_of_bytes_wf b(2) by simp
  then show "pub_wf (ld_pub ld)" using d(5) zero_criteria_wf by (simp add: pub_wf_def)
  have "field 0 8 ?pub = field 0 8 (u_payload ?u)" using h(2) len(1) by (simp add: field_def)
  then have "leaf_label (ld_pub ld) = leaf_label (pub_of_bytes (i_pub imp))"
    using d(5) b(2) i(2) by (simp add: pub_of_bytes_def)
  then show "validate_tree (pw_tree st) = PW_SUCCESS" "validate_label (pw_tree st) (leaf_label (ld_pub ld)) = PW_SUCCESS"
    using d(3) by (auto simp: validate_request_with_path_def Let_def split: if_splits)
qed

section \<open>A concrete chip\<close>

text \<open>Engines with a constant digest, a tree of two leaves and its log in flash, for the examples.\<close>

definition flat_env :: pw_env where
  "flat_env = example_env\<lparr>hw_sha256 := (\<lambda>m. Some (replicate 32 0)), hw_hmac_sha256 := (\<lambda>k m. Some (replicate 32 0)),
     appkey_derive := (\<lambda>b. Some (replicate 32 5))\<rparr>"

lemma flat_engines: "engines_ok flat_env"
  by (simp add: engines_ok_def flat_env_def example_env_def pw_sizes o_def xor.assoc)

definition flat_tree :: merkle_tree where
  "flat_tree = \<lparr>bits_per_level = 1, height = 1, mt_root = replicate 32 0, key_derivation_nonce = replicate 16 7,
     hmac_key = replicate 32 5, wrap_key = replicate 32 5\<rparr>"

definition flat_nv :: nv_state where
  "flat_nv = snd (store_log_data (snd (setvar nv_example PW_TREE_VAR (bytes_of_long_term flat_tree))) (new_tree_log flat_tree))"

definition flat_state :: pw_state where
  "flat_state = \<lparr>pw_tree = flat_tree, pw_restart_count = 0, pw_nv = flat_nv\<rparr>"

text \<open>A leaf with one threshold: after two wrong guesses, one attempt a minute.\<close>

definition flat_leaf :: leaf_data where
  "flat_leaf = \<lparr>ld_pub = \<lparr>leaf_label = 1,
        delay_schedule = \<lparr>sched_attempts = 2, sched_time_diff = 60\<rparr> # replicate 15 \<lparr>sched_attempts = 0, sched_time_diff = 0\<rparr>,
        leaf_timestamp = \<lparr>boot_count = 0, timer_value = 10\<rparr>, attempt_count = 1,
        valid_pcr_criteria = replicate 2 \<lparr>pcr_bitmask0 = 0, pcr_bitmask1 = 0, pcr_digest = replicate 32 0\<rparr>\<rparr>,
     ld_sec = \<lparr>low_entropy_secret = replicate 32 10, high_entropy_secret = replicate 32 11, reset_secret = replicate 32 12\<rparr>\<rparr>"

definition flat_wrapped :: wrapped_leaf_data where
  "flat_wrapped = \<lparr>w_head = init_wrapped_leaf_data, w_hmac = replicate 32 0, w_iv = replicate 16 7,
     w_pub = ld_pub flat_leaf, w_cipher_text = map (\<lambda>b. b XOR 90) (bytes_of_sec (ld_sec flat_leaf))\<rparr>"

lemma flat_hashing [simp]:
  "compute_hmac flat_env tree imp = Inr (replicate 32 0)" "compute_root_hash flat_env flat_tree p hs c = Inr (replicate 32 0)"
  by (simp_all add: compute_hmac_def compute_root_hash_def compute_hash_def flat_env_def flat_tree_def Let_def)

lemma flat_update [simp]:
  "handle_leaf_update flat_env flat_tree ld hs (Some imp) =
     Inr (\<lparr>w_head = init_wrapped_leaf_data, w_hmac = replicate 32 0, w_iv = i_iv imp, w_pub = ld_pub ld,
           w_cipher_text = take PW_LEAF_SENSITIVE_SIZE (i_cipher_text imp)\<rparr>, replicate 32 0)"
  by (simp add: handle_leaf_update_def)

lemma flat_leaf_update: "handle_leaf_update flat_env flat_tree flat_leaf hs None = Inr (flat_wrapped, replicate 32 0)"
proof -
  have "encrypt_leaf_data flat_env flat_tree flat_leaf =
      Inr (replicate 16 7, map (\<lambda>b. b XOR 90) (bytes_of_sec (ld_sec flat_leaf)))"
    by (simp add: encrypt_leaf_data_def flat_env_def example_env_def PW_WRAP_BLOCK_SIZE_def)
  then show ?thesis by (simp add: handle_leaf_update_def flat_wrapped_def)
qed

lemma flat_wf: "pub_wf (ld_pub flat_leaf)" "sec_wf (ld_sec flat_leaf)" "validate_tree flat_tree = PW_SUCCESS"
  "validate_label flat_tree (leaf_label (ld_pub flat_leaf)) = PW_SUCCESS" "get_path_auxiliary_hash_count flat_tree = 1"
  by (simp_all add: pub_wf_def sec_wf_def flat_leaf_def pw_sizes flat_tree_def validate_tree_def
      validate_tree_parameters_def validate_label_def get_path_auxiliary_hash_count_def)

definition flat_request :: "bytes \<Rightarrow> bytes" where
  "flat_request secret = secret @ bytes_of_wrapped flat_wrapped @ replicate 32 0"

lemma flat_wrapped_ok: "wrapped_ok flat_wrapped"
  using update_then_validate(1) [OF flat_engines flat_wf(3,4,1) _ flat_leaf_update] flat_wf(2)
  by (simp add: update_keeps_secrets_def)

lemma flat_presented:
  assumes "length secret = 32" "pw_tree st = flat_tree"
  shows "presented_leaf flat_env st (flat_request secret) 436 =
    Inr (import_leaf (unimported_of_bytes (bytes_of_wrapped flat_wrapped @ replicate 32 0)), flat_leaf)"
proof -
  have r: "flat_tree\<lparr>mt_root := replicate 32 0\<rparr> = flat_tree" by (simp add: flat_tree_def)
  show ?thesis
    using update_then_validate(3) [OF flat_engines flat_wf(3,4,1) _ flat_leaf_update [of "replicate 32 0"]] flat_wf(2,5) assms r
    by (simp add: presented_leaf_def flat_request_def update_keeps_secrets_def SIZEOF_LEAF_REQUEST_def pw_sizes)
qed

lemma flat_request_simps:
  assumes "length secret = 32"
  shows "known_head (u_head (request_leaf (flat_request secret)))" "length (flat_request secret) = 436"
    "field 0 PW_SECRET_SIZE (flat_request secret) = secret"
  using assms length_bytes_of_wrapped [OF flat_wrapped_ok] unimported_of_bytes_of_wrapped [OF flat_wrapped_ok]
  by (simp_all add: known_head_def request_leaf_def flat_request_def pw_sizes field_def)

lemma setvar_ready:
  assumes "nv_ready nv" "bounded_var k v"
    "case setvar nv k v of (rv, nv') \<Rightarrow> rv = EC_SUCCESS \<and> \<not> nv_reset nv' \<and> \<not> compaction_needed nv'"
  shows "setvar nv k v = (EC_SUCCESS, snd (setvar nv k v))" "\<not> nv_reset (snd (setvar nv k v))" "nv_ready (snd (setvar nv k v))"
proof -
  obtain nv' where s: "setvar nv k v = (EC_SUCCESS, nv')" "\<not> nv_reset nv'" "\<not> compaction_needed nv'"
    using assms(3) by (auto split: prod.splits)
  then show "setvar nv k v = (EC_SUCCESS, snd (setvar nv k v))" "\<not> nv_reset (snd (setvar nv k v))"
    "nv_ready (snd (setvar nv k v))"
    using setvar_spec [OF assms(1,2) s(1,2)] by (simp_all add: nv_ready_def)
qed

definition flat_nv1 :: nv_state where
  "flat_nv1 = snd (setvar nv_example PW_TREE_VAR (bytes_of_long_term flat_tree))"

lemma flat_nv1_ready: "nv_ready flat_nv1" "getvar flat_nv1 PW_TREE_VAR = Some (bytes_of_long_term flat_tree)"
proof -
  have b: "bounded_var PW_TREE_VAR (bytes_of_long_term flat_tree)" by code_simp
  have c: "case setvar nv_example PW_TREE_VAR (bytes_of_long_term flat_tree) of (rv, nv') \<Rightarrow>
      rv = EC_SUCCESS \<and> \<not> nv_reset nv' \<and> \<not> compaction_needed nv'" by code_simp
  note s = setvar_ready [OF nv_example_ready b c]
  show "nv_ready flat_nv1" using s(3) by (simp add: flat_nv1_def)
  show "getvar flat_nv1 PW_TREE_VAR = Some (bytes_of_long_term flat_tree)"
    unfolding flat_nv1_def using nv.read_back [OF nv_example_ready b _ s(1,2)] by (simp add: bytes_of_long_term_def)
qed

lemma flat_nv_eq: "flat_nv = snd (setvar flat_nv1 PW_LOG_VAR0 (bytes_of_log (new_tree_log flat_tree)))"
  by (simp add: flat_nv_def flat_nv1_def store_log_data_def split: prod.split)

lemma flat_log_wf: "log_wf (new_tree_log flat_tree)" "storage_version (new_tree_log flat_tree) = PW_STORAGE_VERSION"
  using new_tree_log_wf [of flat_tree] by (simp_all add: flat_tree_def pw_sizes)

lemma flat_nv_ready: "nv_ready flat_nv" "load_log_data flat_nv = Inr (new_tree_log flat_tree)"
  "getvar flat_nv PW_TREE_VAR = Some (bytes_of_long_term flat_tree)"
proof -
  have c: "case setvar flat_nv1 PW_LOG_VAR0 (bytes_of_log (new_tree_log flat_tree)) of (rv, nv') \<Rightarrow>
      rv = EC_SUCCESS \<and> \<not> nv_reset nv' \<and> \<not> compaction_needed nv'" by code_simp
  note s = setvar_ready [OF flat_nv1_ready(1) bounded_log [OF flat_log_wf(1)] c, folded flat_nv_eq]
  have st: "store_log_data flat_nv1 (new_tree_log flat_tree) = (PW_SUCCESS, flat_nv)" by (simp add: store_log_data_def s(1))
  show "nv_ready flat_nv" by (rule s(3))
  show "load_log_data flat_nv = Inr (new_tree_log flat_tree)"
    using store_log_data_spec(1) [OF flat_nv1_ready(1) flat_log_wf st s(2)] by simp
  show "getvar flat_nv PW_TREE_VAR = Some (bytes_of_long_term flat_tree)"
    using store_log_data_spec(3) [OF flat_nv1_ready(1) flat_log_wf st s(2)] flat_nv1_ready(2) by simp
qed

lemma flat_in_sync: "pw_in_sync flat_state"
  using flat_nv_ready by (simp add: pw_in_sync_def stored_root_def flat_state_def new_tree_log_def) (simp add: flat_tree_def)

text \<open>The attempt with a wrong secret.\<close>

definition flat_entry :: pw_log_entry where
  "flat_entry = empty_log_entry\<lparr>e_type := PW_TRY_AUTH, e_label := 1, e_root := replicate 32 0,
     e_union := auth_union \<lparr>boot_count = 0, timer_value = 50\<rparr> (pw_code_value PW_ERR_LOWENT_AUTH_FAILED)\<rparr>"

definition flat_log :: "pw_log_entry \<Rightarrow> pw_log_storage" where
  "flat_log e = (new_tree_log flat_tree)\<lparr>log_entries := [e, log_entries (new_tree_log flat_tree) ! 0]\<rparr>"

lemma flat_append:
  assumes "entry_wf e"
    "case setvar flat_nv PW_LOG_VAR0 (bytes_of_log (flat_log e)) of (rv, nv') \<Rightarrow>
      rv = EC_SUCCESS \<and> \<not> nv_reset nv' \<and> \<not> compaction_needed nv'"
  shows "log_append flat_nv e = (PW_SUCCESS, snd (log_append flat_nv e))"
    "\<not> nv_reset (snd (log_append flat_nv e))" "nv_ready (snd (log_append flat_nv e))"
proof -
  have e: "log_append flat_nv e = store_log_data flat_nv (flat_log e)"
    by (simp add: log_append_def log_roll_for_append_def flat_nv_ready(2) flat_log_def PW_LOG_ENTRY_COUNT_def)
       (simp add: new_tree_log_def)
  have wf: "log_wf (flat_log e)"
    using flat_log_wf(1) assms(1) by (simp add: flat_log_def log_wf_def new_tree_log_def pw_sizes entry_wf_def)
  note s = setvar_ready [OF flat_nv_ready(1) bounded_log [OF wf] assms(2)]
  show "log_append flat_nv e = (PW_SUCCESS, snd (log_append flat_nv e))"
    "\<not> nv_reset (snd (log_append flat_nv e))" "nv_ready (snd (log_append flat_nv e))"
    using s by (cases "setvar flat_nv PW_LOG_VAR0 (bytes_of_log (flat_log e))"; simp add: e store_log_data_def)+
qed

lemma flat_log_append: "log_append flat_nv flat_entry = (PW_SUCCESS, snd (log_append flat_nv flat_entry))"
  "\<not> nv_reset (snd (log_append flat_nv flat_entry))" "nv_ready (snd (log_append flat_nv flat_entry))"
proof -
  have "entry_wf flat_entry" unfolding flat_entry_def by (rule log_auth_entry_wf) (simp add: pw_sizes)
  moreover have "case setvar flat_nv PW_LOG_VAR0 (bytes_of_log (flat_log flat_entry)) of (rv, nv') \<Rightarrow>
      rv = EC_SUCCESS \<and> \<not> nv_reset nv' \<and> \<not> compaction_needed nv'" by code_simp
  ultimately show "log_append flat_nv flat_entry = (PW_SUCCESS, snd (log_append flat_nv flat_entry))"
    "\<not> nv_reset (snd (log_append flat_nv flat_entry))" "nv_ready (snd (log_append flat_nv flat_entry))"
    by (rule flat_append)+
qed

definition flat_wrong :: bytes where "flat_wrong = flat_request (replicate 32 0)"

definition flat_after :: pw_state where
  "flat_after = flat_state\<lparr>pw_nv := snd (log_append flat_nv flat_entry)\<rparr>"

definition flat_updated :: wrapped_leaf_data where
  "flat_updated = flat_wrapped\<lparr>w_pub := (ld_pub flat_leaf)\<lparr>leaf_timestamp := \<lparr>boot_count = 0, timer_value = 50\<rparr>,
     attempt_count := 2\<rparr>\<rparr>"

lemma flat_try_auth:
  "pw_handle_try_auth flat_env flat_state flat_wrong 436 =
     (PW_ERR_LOWENT_AUTH_FAILED, try_auth_response 0 zeros zeros (bytes_of_wrapped flat_updated), flat_after)"
proof -
  let ?imp = "import_leaf (unimported_of_bytes (bytes_of_wrapped flat_wrapped @ replicate 32 0))"
  have p: "presented_leaf flat_env flat_state flat_wrong 436 = Inr (?imp, flat_leaf)"
    unfolding flat_wrong_def by (rule flat_presented) (simp_all add: flat_state_def)
  have i: "i_iv ?imp = replicate 16 7" "take PW_LEAF_SENSITIVE_SIZE (i_cipher_text ?imp) = w_cipher_text flat_wrapped"
  proof -
    have "w_iv flat_wrapped = replicate 16 7" by (simp add: flat_wrapped_def)
    moreover have "length (w_cipher_text flat_wrapped) = PW_LEAF_SENSITIVE_SIZE" using flat_wrapped_ok by (simp add: wrapped_ok_def)
    ultimately show "i_iv ?imp = replicate 16 7" "take PW_LEAF_SENSITIVE_SIZE (i_cipher_text ?imp) = w_cipher_text flat_wrapped"
      unfolding import_of_wrapped [OF flat_wrapped_ok] by simp_all
  qed
  have s: "field 0 PW_SECRET_SIZE flat_wrong = replicate 32 0" unfolding flat_wrong_def by (rule flat_request_simps) simp
  have ts: "update_timestamp (time_at_stamp flat_env) (pw_restart_count flat_state) = \<lparr>boot_count = 0, timer_value = 50\<rparr>"
    by (simp add: update_timestamp_def flat_env_def example_env_def flat_state_def SECOND_def)
  have r: "test_rate_limit flat_env (pw_restart_count flat_state) (ld_pub flat_leaf) = (PW_SUCCESS, 0)"
    by (simp add: test_rate_limit_def flat_leaf_def Let_def)
  have c: "validate_pcr_value flat_env (valid_pcr_criteria (ld_pub flat_leaf)) = PW_SUCCESS"
    by (simp add: validate_pcr_value_def flat_leaf_def numeral_2_eq_2)
  have a: "auth_row flat_leaf (replicate 32 0) = (PW_ERR_LOWENT_AUTH_FAILED, 2, zeros, zeros)"
    by (simp add: auth_row_def flat_leaf_def)
  have l: "log_auth (pw_nv flat_state) 1 (replicate 32 0) PW_ERR_LOWENT_AUTH_FAILED \<lparr>boot_count = 0, timer_value = 50\<rparr> =
      (PW_SUCCESS, snd (log_append flat_nv flat_entry))"
    using flat_log_append(1) by (simp add: log_auth_def flat_entry_def flat_state_def)
  have v: "validate_request_with_wrapped_leaf flat_env flat_tree (436 - SIZEOF_LEAF_REQUEST)
      (unimported_of_bytes (drop PW_SECRET_SIZE flat_wrong)) = Inr (?imp, flat_leaf)"
    using p by (simp add: presented_leaf_def flat_state_def)
  have lb: "leaf_label (ld_pub flat_leaf) = 1" by (simp add: flat_leaf_def)
  have t: "pw_tree flat_state = flat_tree" by (simp add: flat_state_def)
  have sr: "set_root (flat_state\<lparr>pw_nv := nv\<rparr>) (replicate 32 0) = flat_state\<lparr>pw_nv := nv\<rparr>" for nv
    by (simp add: set_root_def flat_state_def flat_tree_def)
  have sz: "\<not> 436 < SIZEOF_LEAF_REQUEST" by (simp add: SIZEOF_LEAF_REQUEST_def)
  show ?thesis
    unfolding pw_handle_try_auth_def Let_def t v
    using sz c r s ts a i l lb sr
    by (simp add: flat_updated_def flat_wrapped_def flat_after_def)
qed

lemma active_delay_nonzero:
  assumes "schedule_ok sched" "length sched = PW_SCHED_COUNT" "sched_active sched i"
  shows "sched_time_diff (sched ! i) \<noteq> 0"
proof (cases i)
  case 0
  then show ?thesis using assms(1) by (simp add: schedule_ok_def)
next
  case (Suc j)
  then have "sched_step_ok sched i" "sched_attempts (sched ! i) \<noteq> 0"
    using assms by (auto simp: schedule_ok_def sched_active_def)
  then show ?thesis by (auto simp: sched_step_ok_def)
qed

lemma block_is_max: "PW_BLOCK_ATTEMPTS \<le> d \<Longrightarrow> d = PW_BLOCK_ATTEMPTS"
proof -
  have "PW_BLOCK_ATTEMPTS = - 1" by (simp add: PW_BLOCK_ATTEMPTS_def)
  then have "d \<le> PW_BLOCK_ATTEMPTS" using word_order.extremum [of d] by (simp only:)
  then show "PW_BLOCK_ATTEMPTS \<le> d \<Longrightarrow> d = PW_BLOCK_ATTEMPTS" by (rule order.antisym)
qed

lemma delay_no_wrap:
  assumes "unat (t :: u64) < 2 ^ 63"
  shows "unat (ucast (d :: u32) + t) = unat d + unat t"
proof -
  have d: "unat d < 2 ^ LENGTH(32)" by (rule unsigned_less)
  then have "unat d + unat t < 2 ^ 64" using assms by simp
  moreover have u: "unat (ucast d :: u64) = unat d" using d by (simp add: unsigned_ucast_eq take_bit_nat_eq_self)
  ultimately show ?thesis by (simp add: unat_word_ariths u)
qed

lemma presented_update:
  assumes "engines_ok env" "presented_leaf env st data n = Inr (imp, ld)" "known_head (u_head (request_leaf data))"
    "n \<le> length data" "SIZEOF_LEAF_REQUEST \<le> n" "pub_wf p" "leaf_label p = leaf_label (ld_pub ld)"
    "handle_leaf_update env (pw_tree st) (ld\<lparr>ld_pub := p\<rparr>) (i_hashes imp) (Some imp) = Inr (w, root)"
    "length secret = PW_SECRET_SIZE" "pw_tree st' = (pw_tree st)\<lparr>mt_root := root\<rparr>"
  shows "\<exists>imp'. presented_leaf env st' (secret @ bytes_of_wrapped w @ i_hashes imp)
      (SIZEOF_LEAF_REQUEST + PW_LEAF_PAYLOAD_SIZE + get_path_auxiliary_hash_count (pw_tree st) * PW_HASH_SIZE) =
    Inr (imp', ld\<lparr>ld_pub := p\<rparr>)"
proof -
  note u = presented_leaf_usable [OF assms(2-5)]
  have "validate_label (pw_tree st) (leaf_label (ld_pub (ld\<lparr>ld_pub := p\<rparr>))) = PW_SUCCESS" using u(2) assms(7) by simp
  moreover have "pub_wf (ld_pub (ld\<lparr>ld_pub := p\<rparr>))" using assms(6) by simp
  ultimately show ?thesis
    using update_then_validate(3) [OF assms(1) u(1) _ _ u(4) assms(8)] assms(9,10)
    by (simp add: presented_leaf_def)
qed

lemma insert_leaf_success:
  assumes "pw_handle_insert_leaf env st data n = (PW_SUCCESS, resp, st')"
  obtains w root nv where "n = SIZEOF_INSERT_LEAF + get_path_auxiliary_hash_count (pw_tree st) * PW_HASH_SIZE"
    "validate_request_with_path env (pw_tree st) (leaf_label (ld_pub (insert_leaf_data data)))
       (drop SIZEOF_INSERT_LEAF data) (replicate PW_HASH_SIZE 0) = PW_SUCCESS"
    "validate_delay_schedule (delay_schedule (ld_pub (insert_leaf_data data))) = PW_SUCCESS"
    "handle_leaf_update env (pw_tree st) (insert_leaf_data data) (drop SIZEOF_INSERT_LEAF data) None = Inr (w, root)"
    "log_insert_leaf (pw_nv st) (leaf_label (ld_pub (insert_leaf_data data))) root (w_hmac w) = (PW_SUCCESS, nv)"
    "resp = bytes_of_wrapped w" "st' = set_root (st\<lparr>pw_nv := nv\<rparr>) root"
  using assms handle_leaf_update_error
  by (auto simp: pw_handle_insert_leaf_def Let_def split: if_splits sum.splits prod.splits)

lemma insert_leaf_data_wf:
  assumes "SIZEOF_INSERT_LEAF \<le> length data"
  shows "pub_wf (ld_pub (insert_leaf_data data))" "sec_wf (ld_sec (insert_leaf_data data))"
  using assms
  by (auto simp: insert_leaf_data_def pub_wf_def sec_wf_def schedule_of_bytes_def criteria_of_bytes_def
      pcr_value_of_bytes_def pw_sizes field_def upt_rec SIZEOF_INSERT_LEAF_def)

lemma reset_auth_success:
  assumes "pw_handle_reset_auth env st data n = (code, resp, st')" "resp \<noteq> [] \<or> code = PW_SUCCESS"
  obtains imp ld w root nv where "presented_leaf env st data n = Inr (imp, ld)" "SIZEOF_LEAF_REQUEST \<le> n"
    "field 0 PW_SECRET_SIZE data = reset_secret (ld_sec ld)" "code = PW_SUCCESS"
    "handle_leaf_update env (pw_tree st) (ld\<lparr>ld_pub := (ld_pub ld)\<lparr>attempt_count := 0\<rparr>\<rparr>) (i_hashes imp) (Some imp) =
       Inr (w, root)"
    "log_auth (pw_nv st) (leaf_label (ld_pub ld)) root PW_SUCCESS (leaf_timestamp (ld_pub ld)) = (PW_SUCCESS, nv)"
    "resp = high_entropy_secret (ld_sec ld) @ bytes_of_wrapped w" "st' = set_root (st\<lparr>pw_nv := nv\<rparr>) root"
proof (cases "presented_leaf env st data n")
  case (Inl e)
  then show thesis using assms
    by (auto simp: pw_handle_reset_auth_def presented_leaf_def Let_def split: if_splits dest: validate_wrapped_error)
next
  case (Inr q)
  obtain imp ld where q: "q = (imp, ld)" by fastforce
  note v = Inr [unfolded q presented_leaf_def]
  let ?ld = "ld\<lparr>ld_pub := (ld_pub ld)\<lparr>attempt_count := 0\<rparr>\<rparr>"
  show thesis
  proof (cases "handle_leaf_update env (pw_tree st) ?ld (i_hashes imp) (Some imp)")
    case (Inl e)
    then show thesis using assms v handle_leaf_update_error [OF Inl]
      by (auto simp: pw_handle_reset_auth_def Let_def split: if_splits)
  next
    case u: (Inr r)
    obtain w root where r: "r = (w, root)" by fastforce
    obtain ret nv where l: "log_auth (pw_nv st) (leaf_label (ld_pub ld)) root PW_SUCCESS (leaf_timestamp (ld_pub ld)) = (ret, nv)"
      by fastforce
    show thesis
      using assms v Inr q u r l
      by (intro that [of imp ld w root nv]) (auto simp: pw_handle_reset_auth_def Let_def split: if_splits)
  qed
qed

lemma rate_limit_code: "test_rate_limit env r pub = (code, wait) \<Longrightarrow> code \<noteq> PW_SUCCESS \<Longrightarrow> code = PW_ERR_RATE_LIMIT_REACHED"
  by (auto simp: test_rate_limit_def Let_def split: if_splits)

lemmas message_types = PW_RESET_TREE_def PW_INSERT_LEAF_def PW_REMOVE_LEAF_def PW_TRY_AUTH_def PW_RESET_AUTH_def
  PW_GET_LOG_def PW_LOG_REPLAY_def

lemma flat_leaf_facts: "leaf_label (ld_pub flat_leaf) = 1" "attempt_count (ld_pub flat_leaf) = 1"
  by (simp_all add: flat_leaf_def)

text \<open>The same chip resets the leaf, and a leaf is inserted into the empty tree.\<close>

definition flat_reset_entry :: pw_log_entry where
  "flat_reset_entry = empty_log_entry\<lparr>e_type := PW_TRY_AUTH, e_label := 1, e_root := replicate 32 0,
     e_union := auth_union \<lparr>boot_count = 0, timer_value = 10\<rparr> (pw_code_value PW_SUCCESS)\<rparr>"

definition flat_reset :: pw_state where
  "flat_reset = flat_state\<lparr>pw_nv := snd (log_append flat_nv flat_reset_entry)\<rparr>"

lemma flat_set_root: "set_root (flat_state\<lparr>pw_nv := nv\<rparr>) (replicate 32 0) = flat_state\<lparr>pw_nv := nv\<rparr>"
  by (simp add: set_root_def flat_state_def flat_tree_def)

lemma flat_import:
  "i_iv (import_leaf (unimported_of_bytes (bytes_of_wrapped flat_wrapped @ replicate 32 0))) = replicate 16 7"
  "take PW_LEAF_SENSITIVE_SIZE (i_cipher_text (import_leaf (unimported_of_bytes (bytes_of_wrapped flat_wrapped @ replicate 32 0)))) =
     w_cipher_text flat_wrapped"
proof -
  have "w_iv flat_wrapped = replicate 16 7" by (simp add: flat_wrapped_def)
  moreover have "length (w_cipher_text flat_wrapped) = PW_LEAF_SENSITIVE_SIZE" using flat_wrapped_ok by (simp add: wrapped_ok_def)
  ultimately show "i_iv (import_leaf (unimported_of_bytes (bytes_of_wrapped flat_wrapped @ replicate 32 0))) = replicate 16 7"
    "take PW_LEAF_SENSITIVE_SIZE (i_cipher_text (import_leaf (unimported_of_bytes (bytes_of_wrapped flat_wrapped @ replicate 32 0)))) =
     w_cipher_text flat_wrapped"
    unfolding import_of_wrapped [OF flat_wrapped_ok] by simp_all
qed

lemma flat_reset_auth:
  "pw_handle_reset_auth flat_env flat_state (flat_request (replicate 32 12)) 436 =
     (PW_SUCCESS, replicate 32 11 @ bytes_of_wrapped (flat_wrapped\<lparr>w_pub := (ld_pub flat_leaf)\<lparr>attempt_count := 0\<rparr>\<rparr>), flat_reset)"
proof -
  have wf: "entry_wf flat_reset_entry" unfolding flat_reset_entry_def by (rule log_auth_entry_wf) (simp add: pw_sizes)
  have c: "case setvar flat_nv PW_LOG_VAR0 (bytes_of_log (flat_log flat_reset_entry)) of (rv, nv') \<Rightarrow>
      rv = EC_SUCCESS \<and> \<not> nv_reset nv' \<and> \<not> compaction_needed nv'" by code_simp
  have l: "log_auth flat_nv 1 (replicate 32 0) PW_SUCCESS \<lparr>boot_count = 0, timer_value = 10\<rparr> =
      (PW_SUCCESS, snd (log_append flat_nv flat_reset_entry))"
    using flat_append(1) [OF wf c] by (simp add: log_auth_def flat_reset_entry_def)
  have p: "validate_request_with_wrapped_leaf flat_env flat_tree (436 - SIZEOF_LEAF_REQUEST)
      (unimported_of_bytes (drop PW_SECRET_SIZE (flat_request (replicate 32 12)))) =
      Inr (import_leaf (unimported_of_bytes (bytes_of_wrapped flat_wrapped @ replicate 32 0)), flat_leaf)"
    using flat_presented [of "replicate 32 12" flat_state] by (simp add: presented_leaf_def flat_state_def)
  have s: "field 0 PW_SECRET_SIZE (flat_request (replicate 32 12)) = replicate 32 12" by (rule flat_request_simps) simp
  have f: "reset_secret (ld_sec flat_leaf) = replicate 32 12" "high_entropy_secret (ld_sec flat_leaf) = replicate 32 11"
    "leaf_timestamp (ld_pub flat_leaf) = \<lparr>boot_count = 0, timer_value = 10\<rparr>" "leaf_label (ld_pub flat_leaf) = 1"
    by (simp_all add: flat_leaf_def)
  have t: "pw_tree flat_state = flat_tree" "pw_nv flat_state = flat_nv" by (simp_all add: flat_state_def)
  have sz: "\<not> 436 < SIZEOF_LEAF_REQUEST" by (simp add: SIZEOF_LEAF_REQUEST_def)
  show ?thesis
    unfolding pw_handle_reset_auth_def Let_def t p
    using sz s f l flat_import flat_set_root by (simp add: flat_wrapped_def flat_reset_def)
qed

definition flat_new_leaf :: leaf_data where
  "flat_new_leaf = flat_leaf\<lparr>ld_pub := (ld_pub flat_leaf)\<lparr>leaf_timestamp := \<lparr>boot_count = 0, timer_value = 0\<rparr>, attempt_count := 0\<rparr>\<rparr>"

definition flat_insert :: bytes where
  "flat_insert = to_le 8 (1 :: u64) @ bytes_of_schedule (delay_schedule (ld_pub flat_leaf)) @ bytes_of_sec (ld_sec flat_leaf) @
     bytes_of_criteria (valid_pcr_criteria (ld_pub flat_leaf)) @ replicate 32 0"

definition flat_insert_entry :: pw_log_entry where
  "flat_insert_entry = empty_log_entry\<lparr>e_type := PW_INSERT_LEAF, e_label := 1, e_root := replicate 32 0, e_union := replicate 32 0\<rparr>"

definition flat_inserted :: pw_state where
  "flat_inserted = flat_state\<lparr>pw_nv := snd (log_append flat_nv flat_insert_entry)\<rparr>"

lemma flat_lengths:
  "length (bytes_of_schedule (delay_schedule (ld_pub flat_leaf))) = 128"
  "length (bytes_of_criteria (valid_pcr_criteria (ld_pub flat_leaf))) = 68" "length (bytes_of_sec (ld_sec flat_leaf)) = 96"
  using flat_wf(1) length_bytes_of_sec [OF flat_wf(2)]
  by (simp_all add: pub_wf_def length_bytes_of_schedule length_bytes_of_criteria pw_sizes)

lemma flat_insert_length: "332 \<le> length flat_insert"
  by (simp add: flat_insert_def flat_lengths)

lemma flat_insert_leaf: "insert_leaf_data flat_insert = flat_new_leaf"
proof -
  have r: "schedule_of_bytes (bytes_of_schedule (delay_schedule (ld_pub flat_leaf))) = delay_schedule (ld_pub flat_leaf)"
    "criteria_of_bytes (bytes_of_criteria (valid_pcr_criteria (ld_pub flat_leaf))) = valid_pcr_criteria (ld_pub flat_leaf)"
    using flat_wf(1) by (simp_all add: pub_wf_def schedule_roundtrip criteria_roundtrip)
  have sec: "field 136 32 flat_insert = replicate 32 10" "field 168 32 flat_insert = replicate 32 11" "field 200 32 flat_insert = replicate 32 12"
    by (simp_all add: flat_insert_def field_skip flat_lengths)
       (simp_all add: bytes_of_sec_def flat_leaf_def field_def)
  show ?thesis
    using r sec by (simp add: insert_leaf_data_def flat_insert_def flat_lengths layout of_le_to_le flat_new_leaf_def)
       (simp add: flat_leaf_def)
qed

lemma flat_insert_run:
  "pw_handle_insert_leaf flat_env flat_state flat_insert 332 =
     (PW_SUCCESS, bytes_of_wrapped (flat_wrapped\<lparr>w_pub := ld_pub flat_new_leaf\<rparr>), flat_inserted)"
proof -
  have wf: "entry_wf flat_insert_entry" by (simp add: entry_wf_def flat_insert_entry_def)
  have c: "case setvar flat_nv PW_LOG_VAR0 (bytes_of_log (flat_log flat_insert_entry)) of (rv, nv') \<Rightarrow>
      rv = EC_SUCCESS \<and> \<not> nv_reset nv' \<and> \<not> compaction_needed nv'" by code_simp
  have l: "log_insert_leaf flat_nv 1 (replicate 32 0) (replicate 32 0) = (PW_SUCCESS, snd (log_append flat_nv flat_insert_entry))"
    using flat_append(1) [OF wf c] by (simp add: log_insert_leaf_def flat_insert_entry_def)
  have d: "validate_delay_schedule (delay_schedule (ld_pub flat_new_leaf)) = PW_SUCCESS" by code_simp
  have e: "encrypt_leaf_data flat_env flat_tree flat_new_leaf =
      Inr (replicate 16 7, map (\<lambda>b. b XOR 90) (bytes_of_sec (ld_sec flat_leaf)))"
    by (simp add: encrypt_leaf_data_def flat_env_def example_env_def PW_WRAP_BLOCK_SIZE_def flat_new_leaf_def)
  then have u: "handle_leaf_update flat_env flat_tree flat_new_leaf hs None =
      Inr (flat_wrapped\<lparr>w_pub := ld_pub flat_new_leaf\<rparr>, replicate 32 0)" for hs
    by (simp add: handle_leaf_update_def flat_wrapped_def)
  have f: "leaf_label (ld_pub flat_new_leaf) = 1" by (simp add: flat_new_leaf_def flat_leaf_def)
  have v: "validate_request_with_path flat_env flat_tree 1 hs h = PW_SUCCESS" for hs h
    using flat_wf(3,4) by (simp add: validate_request_with_path_def authenticate_path_def Let_def flat_leaf_facts)
      (simp add: flat_tree_def)
  have t: "pw_tree flat_state = flat_tree" "pw_nv flat_state = flat_nv" by (simp_all add: flat_state_def)
  have sz: "332 = SIZEOF_INSERT_LEAF + get_path_auxiliary_hash_count flat_tree * PW_HASH_SIZE"
    using flat_wf(5) by (simp add: SIZEOF_INSERT_LEAF_def pw_sizes)
  show ?thesis
    unfolding pw_handle_insert_leaf_def Let_def t flat_insert_leaf f
    using sz d u v l flat_set_root by (simp add: flat_inserted_def) (simp add: flat_wrapped_def)
qed

text \<open>Decrypting a leaf of the old format already yields empty criteria.\<close>

lemma old_format_criteria:
  assumes "decrypt_leaf_data env tree imp = Inr dec" "lv_minor (i_head imp) = 0" "known_head (i_head imp)"
    "PW_LEAF_PUBLIC_SIZE - PW_VALID_PCR_CRITERIA_SIZE \<le> length (i_pub imp)"
  shows "valid_pcr_criteria (ld_pub dec) = criteria_of_bytes (replicate PW_VALID_PCR_CRITERIA_SIZE 0)"
proof -
  have "unat (pub_len (i_head imp)) = 152"
    using assms(2,3) by (auto simp: known_head_def init_wrapped_leaf_data_def pw_sizes PW_LEAF_MINOR_VERSION_def)
  then show ?thesis
    using assms(1,4) by (auto simp: decrypt_leaf_data_def pub_of_bytes_def pw_sizes field_def Let_def split: option.splits)
qed

lemma presented_leaf_decrypts:
  assumes "presented_leaf env st data n = Inr (imp, ld)" "known_head (u_head (request_leaf data))"
    "n \<le> length data" "SIZEOF_LEAF_REQUEST \<le> n"
  shows "decrypt_leaf_data env (pw_tree st) imp = Inr ld" "imp = import_leaf (request_leaf data)"
    "compute_hmac env (pw_tree st) imp = Inr (u_hmac (request_leaf data))"
    "validate_leaf_header (u_head (request_leaf data)) (n - SIZEOF_LEAF_REQUEST)
       (get_path_auxiliary_hash_count (pw_tree st)) = PW_SUCCESS"
proof -
  let ?u = "request_leaf data"
  obtain dec where d: "imp = import_leaf ?u"
    "validate_leaf_header (u_head ?u) (n - SIZEOF_LEAF_REQUEST) (get_path_auxiliary_hash_count (pw_tree st)) = PW_SUCCESS"
    "n - SIZEOF_LEAF_REQUEST = unat (pub_len (u_head ?u)) +
      unat (sec_len (u_head ?u)) + (get_path_auxiliary_hash_count (pw_tree st) mod 2 ^ 16) * PW_HASH_SIZE"
    "compute_hmac env (pw_tree st) imp = Inr (u_hmac ?u)" "decrypt_leaf_data env (pw_tree st) imp = Inr dec"
    "ld = (if lv_minor (u_head ?u) = 0 \<and> lv_major (u_head ?u) = 0
           then dec\<lparr>ld_pub := (ld_pub dec)\<lparr>valid_pcr_criteria :=
                  criteria_of_bytes (replicate PW_VALID_PCR_CRITERIA_SIZE 0)\<rparr>\<rparr> else dec)"
    by (rule validate_wrapped_inr [OF assms(1) [unfolded presented_leaf_def, folded request_leaf_def]])
  have i: "i_head imp = u_head ?u" "i_pub imp = u_payload ?u" by (simp_all add: d(1) import_leaf_def Let_def)
  have "PW_LEAF_PUBLIC_SIZE - PW_VALID_PCR_CRITERIA_SIZE \<le> length (u_payload ?u)"
    using assms(2-4) d(3)
    by (auto simp: request_leaf_def unimported_of_bytes_def SIZEOF_LEAF_REQUEST_def pw_sizes known_head_def
        init_wrapped_leaf_data_def)
  then have "lv_minor (u_head ?u) = 0 \<Longrightarrow> valid_pcr_criteria (ld_pub dec) = criteria_of_bytes (replicate PW_VALID_PCR_CRITERIA_SIZE 0)"
    using old_format_criteria [OF d(5)] assms(2) by (simp add: i)
  then have "ld = dec" using d(6) by auto
  then show "decrypt_leaf_data env (pw_tree st) imp = Inr ld" using d(5) by simp
  show "imp = import_leaf ?u" "compute_hmac env (pw_tree st) imp = Inr (u_hmac ?u)"
    "validate_leaf_header (u_head ?u) (n - SIZEOF_LEAF_REQUEST) (get_path_auxiliary_hash_count (pw_tree st)) = PW_SUCCESS"
    by (rule d)+
qed

lemma handle_leaf_update_pub: "handle_leaf_update env tree ld hs old = Inr (w, root) \<Longrightarrow> w_pub w = ld_pub ld"
  by (auto simp: handle_leaf_update_def Let_def split: sum.splits)

lemma log_replay_eq:
  assumes "SIZEOF_LEAF_REQUEST \<le> n" "validate_tree (pw_tree st) = PW_SUCCESS"
    "validate_leaf_header (u_head (request_leaf data)) (n - SIZEOF_LEAF_REQUEST)
       (get_path_auxiliary_hash_count (pw_tree st)) = PW_SUCCESS"
    "load_log_data (pw_nv st) = Inr log" "log_entries log = entry # es" "e_type entry = PW_TRY_AUTH"
    "field 0 PW_HASH_SIZE data = e_root entry"
    "compute_hmac env (pw_tree st) (import_leaf (request_leaf data)) = Inr (u_hmac (request_leaf data))"
    "decrypt_leaf_data env (pw_tree st) (import_leaf (request_leaf data)) = Inr ld"
    "leaf_label (ld_pub ld) = e_label entry"
    "handle_leaf_update env (pw_tree st) (ld\<lparr>ld_pub := (ld_pub ld)\<lparr>attempt_count :=
         (if e_return_code entry = pw_code_value PW_SUCCESS then 0 else attempt_count (ld_pub ld) + 1),
         leaf_timestamp := e_timestamp entry\<rparr>\<rparr>)
       (i_hashes (import_leaf (request_leaf data))) (Some (import_leaf (request_leaf data))) = Inr (w, e_root entry)"
  shows "pw_handle_log_replay env st data n = (PW_SUCCESS, bytes_of_wrapped w, st)"
proof -
  have f: "find_relevant_entry log (e_root entry) = Inr 0"
    using assms(5,6) by (simp add: find_relevant_entry_def PW_MT_INVALID_def PW_TRY_AUTH_def)
  have u: "unimported_of_bytes (drop PW_HASH_SIZE data) = request_leaf data" by (simp add: request_leaf_def pw_sizes)
  show ?thesis
    unfolding pw_handle_log_replay_def Let_def u
    using assms f by (simp add: not_less cong: sum.case_cong)
qed

section \<open>Properties\<close>

text \<open>(C1) The secrets of a leaf are released to the holder of the low entropy secret only: an attempt
  that reports success presented a leaf of the tree whose low entropy secret is the one in the request,
  with the PCR criteria met and the rate limit passed, and its answer is that leaf's high entropy
  secret and reset secret; the answer of every other attempt is empty or carries zeros in their
  place.\<close>

theorem try_auth_secret_guard:
  assumes "engines_ok env" and "pw_handle_try_auth env st data n = (code, resp, st')"
  shows "if code = PW_SUCCESS
     then \<exists>imp ld wait leaf. presented_leaf env st data n = Inr (imp, ld) \<and>
       field 0 PW_SECRET_SIZE data = low_entropy_secret (ld_sec ld) \<and>
       validate_pcr_value env (valid_pcr_criteria (ld_pub ld)) = PW_SUCCESS \<and>
       test_rate_limit env (pw_restart_count st) (ld_pub ld) = (PW_SUCCESS, wait) \<and>
       resp = try_auth_response 0 (high_entropy_secret (ld_sec ld)) (reset_secret (ld_sec ld)) leaf
     else resp = [] \<or> (\<exists>wait leaf. resp = try_auth_response wait zeros zeros leaf)"
  using assms
proof (cases rule: try_auth_cases)
  case (answered imp ld wait w root nv)
  then show ?thesis by (auto simp: auth_row_def Let_def split: if_splits)
qed auto

theorem try_auth_secret_guard_witness:
  "\<exists>wait leaf. fst (snd (pw_handle_try_auth flat_env flat_state flat_wrong 436)) = try_auth_response wait zeros zeros leaf"
  using try_auth_secret_guard [OF flat_engines flat_try_auth] unfolding flat_try_auth by auto

text \<open>(C4) The rate limit is the one of the schedule: when the schedule passed the check on insertion
  and an attempt is let through, then for every active entry whose threshold the attempt counter has
  reached, attempts are not blocked and the delay of the entry has elapsed, since the last
  attempt or, after a restart of the chip, since the restart.\<close>

theorem rate_limit_enforced:
  assumes "validate_delay_schedule (delay_schedule pub) = PW_SUCCESS" and "pub_wf pub"
    and "unat (timer_value (leaf_timestamp pub)) < 2 ^ 63"
    and "test_rate_limit env restarts pub = (PW_SUCCESS, wait)"
    and "sched_active (delay_schedule pub) i" and "sched_attempts (delay_schedule pub ! i) \<le> attempt_count pub"
  shows "sched_time_diff (delay_schedule pub ! i) \<noteq> PW_BLOCK_ATTEMPTS \<and>
    (if boot_count (leaf_timestamp pub) = restarts then unat (timer_value (leaf_timestamp pub)) else 0) +
      unat (sched_time_diff (delay_schedule pub ! i)) \<le> unat (time_at_check env div SECOND)"
proof -
  let ?d = "applied_delay pub" and ?t = "timer_value (leaf_timestamp pub)" and ?e = "sched_time_diff (delay_schedule pub ! i)"
  have sc: "schedule_ok (delay_schedule pub)" "length (delay_schedule pub) = PW_SCHED_COUNT"
    using assms(1,2) by (auto simp: validate_delay_schedule_iff pub_wf_def)
  have le: "?e \<le> ?d" by (rule applied_delay_ge [OF sc assms(5,6)])
  have "?e \<noteq> 0" by (rule active_delay_nonzero [OF sc assms(5)])
  then have "?d \<noteq> 0" using le by auto
  then have ok: "?d \<noteq> PW_BLOCK_ATTEMPTS"
    "(if boot_count (leaf_timestamp pub) = restarts then ucast ?d + ?t else ucast ?d) \<le> time_at_check env div SECOND"
    using assms(4) by (auto simp: test_rate_limit_eq Let_def split: if_splits)
  have "?e \<noteq> PW_BLOCK_ATTEMPTS" using ok(1) le block_is_max [of ?d] by auto
  moreover have "(if boot_count (leaf_timestamp pub) = restarts then unat ?t else 0) + unat ?d \<le> unat (time_at_check env div SECOND)"
    using ok(2) delay_no_wrap [OF assms(3), of ?d] delay_no_wrap [of 0 ?d] by (auto simp: word_le_nat_alt split: if_splits)
  ultimately show ?thesis using le by (simp add: word_le_nat_alt)
qed

theorem rate_limit_enforced_witness:
  "sched_time_diff (delay_schedule ((ld_pub flat_leaf)\<lparr>attempt_count := 2\<rparr>) ! 0) \<noteq> PW_BLOCK_ATTEMPTS \<and>
   10 + unat (sched_time_diff (delay_schedule ((ld_pub flat_leaf)\<lparr>attempt_count := 2\<rparr>) ! 0)) \<le>
     unat (time_at_check (flat_env\<lparr>time_at_check := 80000000\<rparr>) div SECOND)"
proof -
  let ?pub = "(ld_pub flat_leaf)\<lparr>attempt_count := 2\<rparr>" and ?env = "flat_env\<lparr>time_at_check := 80000000\<rparr>"
  have s: "validate_delay_schedule (delay_schedule ?pub) = PW_SUCCESS" by code_simp
  have w: "pub_wf ?pub" using flat_wf(1) by (simp add: pub_wf_def)
  have t: "unat (timer_value (leaf_timestamp ?pub)) < 2 ^ 63" "boot_count (leaf_timestamp ?pub) = 0"
    "unat (timer_value (leaf_timestamp ?pub)) = 10"
    by (simp_all add: flat_leaf_def)
  have r: "test_rate_limit ?env 0 ?pub = (PW_SUCCESS, 0)"
    by code_simp
  have a: "sched_active (delay_schedule ?pub) 0" "sched_attempts (delay_schedule ?pub ! 0) \<le> attempt_count ?pub"
    by (simp_all add: sched_active_def flat_leaf_def)
  show ?thesis using rate_limit_enforced [OF s w t(1) r a] t(2,3) by simp
qed

text \<open>(C7) Every attempt is recorded in the leaf: the leaf in the answer of an attempt is what the chip
  accepts next, with the same path, and there it holds the same label, schedule and secrets, the time of
  the attempt and the new counter, which is zero after a success and one more, up to the largest
  value, after a wrong guess.\<close>

theorem attempt_is_recorded:
  assumes "engines_ok env" and "pw_handle_try_auth env st data n = (code, resp, st')"
    and "known_head (u_head (request_leaf data))" and "n \<le> length data"
    and "resp \<noteq> []" and "code \<noteq> PW_ERR_RATE_LIMIT_REACHED" and "length secret = PW_SECRET_SIZE"
  shows "\<exists>imp ld s r leaf imp'. presented_leaf env st data n = Inr (imp, ld) \<and> resp = try_auth_response 0 s r leaf \<and>
    presented_leaf env st' (secret @ leaf @ i_hashes imp)
      (SIZEOF_LEAF_REQUEST + PW_LEAF_PAYLOAD_SIZE + get_path_auxiliary_hash_count (pw_tree st) * PW_HASH_SIZE) =
    Inr (imp', ld\<lparr>ld_pub := (ld_pub ld)\<lparr>
      leaf_timestamp := update_timestamp (time_at_stamp env) (pw_restart_count st),
      attempt_count := (if code = PW_SUCCESS then 0
                        else if attempt_count (ld_pub ld) = 0xFFFFFFFF then 0xFFFFFFFF
                        else attempt_count (ld_pub ld) + 1)\<rparr>\<rparr>)"
  using assms(1,2)
proof (cases rule: try_auth_cases)
  case limited
  then show ?thesis using rate_limit_code assms(6) by blast
next
  case (answered imp ld wait w root nv)
  let ?p = "attempted_pub env st ld (field 0 PW_SECRET_SIZE data)"
  have p: "?p = (ld_pub ld)\<lparr>leaf_timestamp := update_timestamp (time_at_stamp env) (pw_restart_count st),
      attempt_count := (if code = PW_SUCCESS then 0 else if attempt_count (ld_pub ld) = 0xFFFFFFFF then 0xFFFFFFFF
                        else attempt_count (ld_pub ld) + 1)\<rparr>"
    using answered(4) by (auto simp: attempted_pub_def auth_row_def Let_def)
  have wf: "pub_wf ?p" "leaf_label ?p = leaf_label (ld_pub ld)"
    using presented_leaf_usable(3) [OF answered(1) assms(3,4) answered(9)] by (simp_all add: p pub_wf_def)
  have st: "pw_tree st' = (pw_tree st)\<lparr>mt_root := root\<rparr>" using answered(8) by (simp add: set_root_def)
  show ?thesis
    using presented_update [OF assms(1) answered(1) assms(3,4) answered(9) wf answered(5) assms(7) st] answered(1,7)
    unfolding p by blast
qed (use assms(5) in simp)

theorem attempt_is_recorded_witness:
  "\<exists>leaf hashes imp'. presented_leaf flat_env flat_after (replicate 32 10 @ leaf @ hashes) 436 =
     Inr (imp', flat_leaf\<lparr>ld_pub := (ld_pub flat_leaf)\<lparr>leaf_timestamp := \<lparr>boot_count = 0, timer_value = 50\<rparr>,
       attempt_count := 2\<rparr>\<rparr>)"
proof -
  have h: "known_head (u_head (request_leaf flat_wrong))" "436 \<le> length flat_wrong"
    unfolding flat_wrong_def using flat_request_simps [of "replicate 32 0"] by simp_all
  have r: "try_auth_response 0 zeros zeros (bytes_of_wrapped flat_updated) \<noteq> []" by (simp add: try_auth_response_def zeros_def pw_sizes)
  have l: "length (replicate 32 10 :: bytes) = PW_SECRET_SIZE" by (simp add: PW_SECRET_SIZE_def)
  have p: "presented_leaf flat_env flat_state flat_wrong 436 =
      Inr (import_leaf (unimported_of_bytes (bytes_of_wrapped flat_wrapped @ replicate 32 0)), flat_leaf)"
    unfolding flat_wrong_def by (rule flat_presented) (simp_all add: flat_state_def)
  have n: "SIZEOF_LEAF_REQUEST + PW_LEAF_PAYLOAD_SIZE + get_path_auxiliary_hash_count (pw_tree flat_state) * PW_HASH_SIZE = 436"
    using flat_wf(5) by (simp add: flat_state_def SIZEOF_LEAF_REQUEST_def pw_sizes)
  have ts: "update_timestamp (time_at_stamp flat_env) (pw_restart_count flat_state) = \<lparr>boot_count = 0, timer_value = 50\<rparr>"
    by (simp add: update_timestamp_def flat_env_def example_env_def flat_state_def SECOND_def)
  have c: "PW_ERR_LOWENT_AUTH_FAILED \<noteq> PW_ERR_RATE_LIMIT_REACHED" by simp
  show ?thesis
    using attempt_is_recorded [OF flat_engines flat_try_auth h r c l] unfolding n ts
    by (clarsimp simp: p flat_leaf_facts) blast
qed

text \<open>(C31) A leaf that was inserted can be used: after a successful insertion, which requires a free
  place on the path and a valid schedule, the leaf in the answer together with the path of the request is
  what the chip accepts, and it holds the data of the request with no attempts.\<close>

theorem inserted_leaf_is_accepted:
  assumes "engines_ok env" and "pw_handle_insert_leaf env st data n = (PW_SUCCESS, resp, st')" and "n \<le> length data"
    and "length secret = PW_SECRET_SIZE"
  shows "authenticate_path env (pw_tree st) (leaf_label (ld_pub (insert_leaf_data data)))
      (drop SIZEOF_INSERT_LEAF data) (replicate PW_HASH_SIZE 0) = PW_SUCCESS \<and>
    validate_delay_schedule (delay_schedule (ld_pub (insert_leaf_data data))) = PW_SUCCESS \<and>
    (\<exists>imp. presented_leaf env st' (secret @ resp @ drop SIZEOF_INSERT_LEAF data)
       (SIZEOF_LEAF_REQUEST + PW_LEAF_PAYLOAD_SIZE + get_path_auxiliary_hash_count (pw_tree st) * PW_HASH_SIZE) =
     Inr (imp, insert_leaf_data data))"
proof -
  obtain w root nv where i: "n = SIZEOF_INSERT_LEAF + get_path_auxiliary_hash_count (pw_tree st) * PW_HASH_SIZE"
    "validate_request_with_path env (pw_tree st) (leaf_label (ld_pub (insert_leaf_data data)))
       (drop SIZEOF_INSERT_LEAF data) (replicate PW_HASH_SIZE 0) = PW_SUCCESS"
    "validate_delay_schedule (delay_schedule (ld_pub (insert_leaf_data data))) = PW_SUCCESS"
    "handle_leaf_update env (pw_tree st) (insert_leaf_data data) (drop SIZEOF_INSERT_LEAF data) None = Inr (w, root)"
    "resp = bytes_of_wrapped w" "st' = set_root (st\<lparr>pw_nv := nv\<rparr>) root"
    by (rule insert_leaf_success [OF assms(2)])
  have v: "validate_tree (pw_tree st) = PW_SUCCESS"
    "validate_label (pw_tree st) (leaf_label (ld_pub (insert_leaf_data data))) = PW_SUCCESS"
    "authenticate_path env (pw_tree st) (leaf_label (ld_pub (insert_leaf_data data)))
      (drop SIZEOF_INSERT_LEAF data) (replicate PW_HASH_SIZE 0) = PW_SUCCESS"
    using i(2) by (auto simp: validate_request_with_path_def Let_def split: if_splits)
  have "SIZEOF_INSERT_LEAF \<le> length data" using i(1) assms(3) by simp
  note wf = insert_leaf_data_wf [OF this]
  have k: "update_keeps_secrets env (pw_tree st) (insert_leaf_data data) None" using wf(2) by (simp add: update_keeps_secrets_def)
  show ?thesis
    using update_then_validate(3) [OF assms(1) v(1,2) wf(1) k i(4)] v(3) i(3,5,6) assms(4)
    by (simp add: presented_leaf_def set_root_def)
qed

theorem inserted_leaf_is_accepted_witness:
  "\<exists>imp. presented_leaf flat_env flat_inserted
     (replicate 32 10 @ bytes_of_wrapped (flat_wrapped\<lparr>w_pub := ld_pub flat_new_leaf\<rparr>) @ drop SIZEOF_INSERT_LEAF flat_insert) 436 =
   Inr (imp, insert_leaf_data flat_insert)"
proof -
  have n: "332 \<le> length flat_insert" by (rule flat_insert_length)
  have l: "length (replicate 32 10 :: bytes) = PW_SECRET_SIZE" by (simp add: PW_SECRET_SIZE_def)
  have "SIZEOF_LEAF_REQUEST + PW_LEAF_PAYLOAD_SIZE + get_path_auxiliary_hash_count (pw_tree flat_state) * PW_HASH_SIZE = 436"
    using flat_wf(5) by (simp add: flat_state_def SIZEOF_LEAF_REQUEST_def pw_sizes)
  then show ?thesis using inserted_leaf_is_accepted [OF flat_engines flat_insert_run n l] by simp
qed

text \<open>(C32) The reset secret resets: a request to reset a leaf succeeds only with the reset secret of the
  leaf it presents; its answer is the high entropy secret and the leaf with the attempt counter
  at zero, which the chip accepts next.  Any other answer is empty.\<close>

theorem reset_auth_guard:
  assumes "engines_ok env" and "pw_handle_reset_auth env st data n = (code, resp, st')"
    and "known_head (u_head (request_leaf data))" and "n \<le> length data" and "length secret = PW_SECRET_SIZE"
  shows "if code = PW_SUCCESS
     then \<exists>imp ld leaf imp'. presented_leaf env st data n = Inr (imp, ld) \<and>
       field 0 PW_SECRET_SIZE data = reset_secret (ld_sec ld) \<and> resp = high_entropy_secret (ld_sec ld) @ leaf \<and>
       presented_leaf env st' (secret @ leaf @ i_hashes imp)
         (SIZEOF_LEAF_REQUEST + PW_LEAF_PAYLOAD_SIZE + get_path_auxiliary_hash_count (pw_tree st) * PW_HASH_SIZE) =
       Inr (imp', ld\<lparr>ld_pub := (ld_pub ld)\<lparr>attempt_count := 0\<rparr>\<rparr>)
     else resp = []"
proof (cases "resp \<noteq> [] \<or> code = PW_SUCCESS")
  case True
  obtain imp ld w root nv where r: "presented_leaf env st data n = Inr (imp, ld)" "SIZEOF_LEAF_REQUEST \<le> n"
    "field 0 PW_SECRET_SIZE data = reset_secret (ld_sec ld)" "code = PW_SUCCESS"
    "handle_leaf_update env (pw_tree st) (ld\<lparr>ld_pub := (ld_pub ld)\<lparr>attempt_count := 0\<rparr>\<rparr>) (i_hashes imp) (Some imp) =
       Inr (w, root)"
    "resp = high_entropy_secret (ld_sec ld) @ bytes_of_wrapped w" "st' = set_root (st\<lparr>pw_nv := nv\<rparr>) root"
    by (rule reset_auth_success [OF assms(2) True])
  let ?p = "(ld_pub ld)\<lparr>attempt_count := 0\<rparr>"
  have wf: "pub_wf ?p" "leaf_label ?p = leaf_label (ld_pub ld)"
    using presented_leaf_usable(3) [OF r(1) assms(3,4) r(2)] by (simp_all add: pub_wf_def)
  have st: "pw_tree st' = (pw_tree st)\<lparr>mt_root := root\<rparr>" using r(7) by (simp add: set_root_def)
  show ?thesis
    using presented_update [OF assms(1) r(1) assms(3,4) r(2) wf r(5) assms(5) st] r(1,3,4,6) by auto
qed simp

theorem reset_auth_guard_witness:
  "\<exists>leaf hashes imp'. presented_leaf flat_env flat_reset (replicate 32 10 @ leaf @ hashes) 436 =
     Inr (imp', flat_leaf\<lparr>ld_pub := (ld_pub flat_leaf)\<lparr>attempt_count := 0\<rparr>\<rparr>)"
proof -
  have h: "known_head (u_head (request_leaf (flat_request (replicate 32 12))))" "436 \<le> length (flat_request (replicate 32 12))"
    using flat_request_simps [of "replicate 32 12"] by simp_all
  have l: "length (replicate 32 10 :: bytes) = PW_SECRET_SIZE" by (simp add: PW_SECRET_SIZE_def)
  have p: "presented_leaf flat_env flat_state (flat_request (replicate 32 12)) 436 =
      Inr (import_leaf (unimported_of_bytes (bytes_of_wrapped flat_wrapped @ replicate 32 0)), flat_leaf)"
    by (rule flat_presented) (simp_all add: flat_state_def)
  have n: "SIZEOF_LEAF_REQUEST + PW_LEAF_PAYLOAD_SIZE + get_path_auxiliary_hash_count (pw_tree flat_state) * PW_HASH_SIZE = 436"
    using flat_wf(5) by (simp add: flat_state_def SIZEOF_LEAF_REQUEST_def pw_sizes)
  show ?thesis
    using reset_auth_guard [OF flat_engines flat_reset_auth h l] unfolding n by (clarsimp simp: p) blast
qed

text \<open>(C28) The root in RAM and the root in flash agree along every run of requests and restarts of \<open>pw_step\<close>:
  each request is handled on a flash that is ready for its updates (no write error, spare pages) and does not end in a
  reset of the chip, and each restart loads a tree.  Then the tree the chip works with is the one of its flash variables, so that
  a restart goes on with the last root that was answered.\<close>

theorem root_in_flash_invariant:
  assumes "pw_in_sync st" and "pw_step\<^sup>*\<^sup>* st st'"
  shows "stored_root (pw_nv st') = Some (mt_root (pw_tree st')) \<and>
    getvar (pw_nv st') PW_TREE_VAR = Some (bytes_of_long_term (pw_tree st'))"
proof -
  from assms(2) have "pw_in_sync st'" by (induction rule: rtranclp_induct) (use assms(1) pw_step_in_sync in auto)
  then show ?thesis by (simp add: pw_in_sync_def)
qed

theorem root_in_flash_invariant_witness:
  "stored_root (pw_nv flat_after) = Some (mt_root (pw_tree flat_after)) \<and>
   getvar (pw_nv flat_after) PW_TREE_VAR = Some (bytes_of_long_term (pw_tree flat_after))"
proof -
  let ?rq = "\<lparr>rq_version = 1, rq_type = PW_TRY_AUTH, rq_data_length = 436, rq_data = flat_wrong\<rparr>"
  have "flash_ready flat_state (rq_type ?rq)"
    using flat_nv_ready(1) by (simp add: flash_ready_def flat_state_def PW_TRY_AUTH_def PW_RESET_TREE_def)
  moreover have "\<exists>rs. pw_handle_request flat_env flat_state ?rq = (PW_ERR_LOWENT_AUTH_FAILED, rs, flat_after)"
    by (simp add: pw_handle_request_def make_compatible_request_def PW_PROTOCOL_VERSION_def pw_dispatch_def flat_try_auth
        message_types)
  moreover have "\<not> nv_reset (pw_nv flat_after)" using flat_log_append(2) by (simp add: flat_after_def)
  ultimately have "pw_step flat_state flat_after" using pw_step.request [OF flat_engines] by blast
  then show ?thesis using root_in_flash_invariant [OF flat_in_sync] by blast
qed

text \<open>(C29) A restart restores the tree: \<open>pinweaver_init\<close>, started with an empty tree on the flash of
  a chip whose tree was in use, derives the same keys and reads the same parameters and root, and the
  restart counter grows by one unless the chip has been running for ten seconds or more.\<close>

theorem restart_restores_tree:
  assumes "nv_ready (pw_nv st)" and "pw_in_sync st" and "derive_keys env (pw_tree st) = (PW_SUCCESS, pw_tree st)"
    and "pinweaver_init env (st\<lparr>pw_tree := zero_merkle_tree, pw_restart_count := 0\<rparr>) = st'"
    and "\<not> nv_reset (pw_nv st')"
  shows "pw_tree st' = pw_tree st \<and>
    (\<exists>log. load_log_data (pw_nv st) = Inr log \<and> pw_restart_count st' =
       (if time_at_check env < RESTART_TIMER_THRESHOLD then restart_count log + 1 else restart_count log))"
proof -
  let ?z = "st\<lparr>pw_tree := zero_merkle_tree, pw_restart_count := 0\<rparr>"
  let ?z1 = "?z\<lparr>pw_tree := (pw_tree st)\<lparr>mt_root := mt_root (pw_tree ?z)\<rparr>\<rparr>"
  obtain log where log: "load_log_data (pw_nv st) = Inr log" "e_root (log_entries log ! 0) = mt_root (pw_tree st)"
    using assms(2) by (auto simp: pw_in_sync_def stored_root_def split: sum.splits)
  have p: "load_tree_params env ?z = (PW_SUCCESS, ?z1)" by (rule load_tree_params_sync [OF assms(2,3)]) simp
  obtain ret where r: "load_tree_root env ?z1 = (ret, st')"
    using assms(4) p by (cases "load_tree_root env ?z1") (simp add: pinweaver_init_def load_merkle_tree_def)
  have nv: "nv_ready (pw_nv ?z1)" "load_log_data (pw_nv ?z1) = Inr log" using assms(1) log(1) by simp_all
  have "ret = PW_SUCCESS" by (rule load_tree_root_total [OF nv r assms(5)])
  note t = load_tree_root_success [OF nv(1) r [unfolded this] assms(5)]
  have "mt_root (pw_tree st') = mt_root (pw_tree st)" using t(1) log by (simp add: stored_root_def)
  then show ?thesis using t(3,5) log(1) by simp
qed

theorem restart_restores_tree_witness:
  "pw_tree (pinweaver_init flat_env (flat_after\<lparr>pw_tree := zero_merkle_tree, pw_restart_count := 0\<rparr>)) = pw_tree flat_after"
proof -
  let ?z = "flat_after\<lparr>pw_tree := zero_merkle_tree, pw_restart_count := 0\<rparr>"
  have r: "nv_ready (pw_nv flat_after)" using flat_log_append(3) by (simp add: flat_after_def)
  have "logged flat_state flat_after"
    using flat_log_append(1) log_auth_entry_wf [of "replicate 32 0"] unfolding logged_def
    by (intro exI [of _ flat_entry] exI [of _ "snd (log_append flat_nv flat_entry)"])
       (simp add: flat_after_def flat_entry_def set_root_def flat_state_def flat_tree_def pw_sizes)
  then have sy: "pw_in_sync flat_after"
    using logged_in_sync flat_in_sync flat_nv_ready(1) flat_log_append(2) by (simp add: flat_state_def flat_after_def)
  have k: "derive_keys flat_env (pw_tree flat_after) = (PW_SUCCESS, pw_tree flat_after)"
    by (simp add: derive_keys_def flat_env_def example_env_def flat_after_def flat_state_def flat_tree_def Let_def)
  have "\<not> time_at_check flat_env < RESTART_TIMER_THRESHOLD"
    by (simp add: flat_env_def example_env_def RESTART_TIMER_THRESHOLD_def SECOND_def)
  then have "pw_nv (pinweaver_init flat_env ?z) = pw_nv flat_after"
    using load_tree_params_sync [OF sy k, of ?z]
    by (simp add: pinweaver_init_def load_merkle_tree_def load_tree_root_def Let_def split: option.splits)
  then have n: "\<not> nv_reset (pw_nv (pinweaver_init flat_env ?z))" using nv_ready_running [OF r] by simp
  show ?thesis using restart_restores_tree [OF r sy k refl n] by simp
qed

text \<open>(C30) A lost answer can be replayed: after an attempt that the chip answered and logged, a replay
  request with the new root and the leaf of the attempt returns the very leaf of the lost answer and
  changes nothing, unless the attempt was a wrong guess at the largest counter value.\<close>

theorem log_replay_recovers_leaf:
  assumes "engines_ok env" and "pw_handle_try_auth env st data n = (code, resp, st')"
    and "known_head (u_head (request_leaf data))" and "n \<le> length data"
    and "resp \<noteq> []" and "code \<noteq> PW_ERR_RATE_LIMIT_REACHED"
    and "nv_ready (pw_nv st)" and "\<not> nv_reset (pw_nv st')" and "presented_leaf env st data n = Inr (imp, ld)"
    and "code = PW_SUCCESS \<or> attempt_count (ld_pub ld) \<noteq> 0xFFFFFFFF"
  shows "\<exists>s r leaf. resp = try_auth_response 0 s r leaf \<and>
    pw_handle_log_replay env st' (mt_root (pw_tree st') @ drop PW_SECRET_SIZE data) n = (PW_SUCCESS, leaf, st')"
  using assms(1,2)
proof (cases rule: try_auth_cases)
  case limited
  then show ?thesis using rate_limit_code assms(6) by blast
next
  case (answered imp' ld' wait w root nv)
  have eq: "imp' = imp" "ld' = ld" using answered(1) assms(9) by simp_all
  let ?ts = "update_timestamp (time_at_stamp env) (pw_restart_count st)" and ?d = "root @ drop PW_SECRET_SIZE data"
  let ?e = "empty_log_entry\<lparr>e_type := PW_TRY_AUTH, e_label := leaf_label (w_pub w), e_root := root,
       e_union := auth_union ?ts (pw_code_value code)\<rparr>"
  have len: "length root = PW_HASH_SIZE" by (rule handle_leaf_update_root_length [OF assms(1) answered(5)])
  have nv: "\<not> nv_reset nv" "pw_nv st' = nv" "pw_tree st' = (pw_tree st)\<lparr>mt_root := root\<rparr>"
    using assms(8) answered(8) by (simp_all add: set_root_def)
  obtain log where log: "load_log_data nv = Inr log" "log_entries log = [?e, log_entries log ! 1]"
    using log_append_spec(1) [OF assms(7) log_auth_entry_wf [OF len] answered(6) [unfolded log_auth_def] nv(1)]
    by auto
  have rq: "request_leaf ?d = request_leaf data" using len by (simp add: request_leaf_def pw_sizes)
  have hd: "field 0 PW_HASH_SIZE ?d = root" using len by (simp add: field_def)
  note p = presented_leaf_decrypts [OF assms(9,3,4) answered(9)]
  note u = presented_leaf_usable [OF assms(9,3,4) answered(9)]
  have ef: "e_timestamp ?e = ?ts" "e_return_code ?e = pw_code_value code"
    by (simp_all add: e_timestamp_def e_return_code_def auth_union_simps)
  have cv: "pw_code_value code = pw_code_value PW_SUCCESS \<longleftrightarrow> code = PW_SUCCESS"
    using answered(4) by (auto simp: auth_row_def Let_def)
  have pub: "attempted_pub env st ld (field 0 PW_SECRET_SIZE data) = (ld_pub ld)\<lparr>attempt_count :=
         (if e_return_code ?e = pw_code_value PW_SUCCESS then 0 else attempt_count (ld_pub ld) + 1),
         leaf_timestamp := e_timestamp ?e\<rparr>"
    unfolding ef cv using answered(4) assms(10) by (auto simp: attempted_pub_def auth_row_def Let_def eq)
  have lb: "leaf_label (ld_pub ld) = leaf_label (w_pub w)"
    using handle_leaf_update_pub [OF answered(5)] by (simp add: attempted_pub_def eq)
  have "pw_handle_log_replay env st' ?d n = (PW_SUCCESS, bytes_of_wrapped w, st')"
    by (rule log_replay_eq [where log = log and entry = ?e and ld = ld and es = "[log_entries log ! 1]"])
       (use answered(5,9) u(1) p log lb rq hd nv(2,3) pub eq in \<open>simp_all\<close>)
  then show ?thesis using answered(7) nv(3) by auto
qed (use assms(5) in simp)

theorem log_replay_recovers_leaf_witness:
  "\<exists>leaf. pw_handle_log_replay flat_env flat_after (mt_root (pw_tree flat_after) @ drop PW_SECRET_SIZE flat_wrong) 436 =
     (PW_SUCCESS, leaf, flat_after)"
proof -
  have h: "known_head (u_head (request_leaf flat_wrong))" "436 \<le> length flat_wrong"
    unfolding flat_wrong_def using flat_request_simps [of "replicate 32 0"] by simp_all
  have r: "try_auth_response 0 zeros zeros (bytes_of_wrapped flat_updated) \<noteq> []" by (simp add: try_auth_response_def zeros_def pw_sizes)
  have c: "PW_ERR_LOWENT_AUTH_FAILED \<noteq> PW_ERR_RATE_LIMIT_REACHED" by simp
  have p: "presented_leaf flat_env flat_state flat_wrong 436 =
      Inr (import_leaf (unimported_of_bytes (bytes_of_wrapped flat_wrapped @ replicate 32 0)), flat_leaf)"
    unfolding flat_wrong_def by (rule flat_presented) (simp_all add: flat_state_def)
  have n: "nv_ready (pw_nv flat_state)" "\<not> nv_reset (pw_nv flat_after)"
    using flat_nv_ready(1) flat_log_append(2) by (simp_all add: flat_state_def flat_after_def)
  have a: "PW_ERR_LOWENT_AUTH_FAILED = PW_SUCCESS \<or> attempt_count (ld_pub flat_leaf) \<noteq> 0xFFFFFFFF"
    by (simp add: flat_leaf_facts)
  show ?thesis using log_replay_recovers_leaf [OF flat_engines flat_try_auth h r c n p a] by blast
qed

text \<open>A request of protocol version 0 that fails in \<open>TRY_AUTH\<close> announces 65504 bytes of data: the
  length of its empty answer is reduced by the size of the reset secret and wraps around.\<close>

theorem failed_v0_try_auth_length:
  assumes "rq_version rq = 0" and "rq_type rq = PW_TRY_AUTH" and "unat (rq_data_length rq) < SIZEOF_LEAF_REQUEST"
  shows "\<exists>rs. pw_handle_request env st rq = (PW_ERR_LENGTH_INVALID, rs, st) \<and> rs_data_length rs = 65504"
proof -
  have "make_compatible_request (pw_tree st) rq = Some rq"
    using assms(1,2) by (simp add: make_compatible_request_def message_types)
  moreover have "pw_dispatch env st rq = (PW_ERR_LENGTH_INVALID, [], st)"
    using assms(2,3) by (simp add: pw_dispatch_def message_types pw_handle_try_auth_def)
  ultimately show ?thesis
    using assms(1,2)
    by (simp add: pw_handle_request_def make_compatible_response_def PW_PROTOCOL_VERSION_def pw_sizes Let_def)
qed

theorem failed_v0_try_auth_length_witness:
  "\<exists>rs. pw_handle_request flat_env flat_state \<lparr>rq_version = 0, rq_type = PW_TRY_AUTH, rq_data_length = 2, rq_data = [0, 0]\<rparr> =
     (PW_ERR_LENGTH_INVALID, rs, flat_state) \<and> rs_data_length rs = 65504"
  by (rule failed_v0_try_auth_length) (simp_all add: SIZEOF_LEAF_REQUEST_def)

end
