(* ===== verification/C_Memory.thy ===== *)
theory C_Memory
  imports Prelude
begin

text \<open>
  The block operations of \<open>src/common/util.c\<close> on byte-addressed memory: \<open>memcpy\<close>,
  \<open>memset\<close> and \<open>memmove\<close>, which work word by word between an unaligned head and tail, and
  \<open>reverse\<close>.  An address is a natural number; the objects a program passes do not wrap around
  the address space.  A word access reads or writes four bytes at once.
\<close>

type_synonym memory = "nat \<Rightarrow> u8"

section \<open>Model\<close>

definition align_down :: "nat \<Rightarrow> nat" where "align_down a = a - a mod 4"
definition align_up :: "nat \<Rightarrow> nat" where "align_up a = align_down (a + 3)"

definition store_word :: "memory \<Rightarrow> nat \<Rightarrow> (nat \<Rightarrow> u8) \<Rightarrow> memory" where
  "store_word m d w = m(d := w 0, d + 1 := w 1, d + 2 := w 2, d + 3 := w 3)"

definition load_word :: "memory \<Rightarrow> nat \<Rightarrow> nat \<Rightarrow> u8" where
  "load_word m s = (\<lambda>i. m (s + i))"

text \<open>The loops \<open>while (d < head) *(d++) = *(s++)\<close> and their word versions; \<open>body\<close> is
  word aligned when the word loop runs.\<close>

function copy_up :: "memory \<Rightarrow> nat \<Rightarrow> nat \<Rightarrow> nat \<Rightarrow> memory \<times> nat \<times> nat" where
  "copy_up m d s head = (if d < head then copy_up (m(d := m s)) (d + 1) (s + 1) head else (m, d, s))"
  by auto
termination by (relation "measure (\<lambda>(m, d, s, head). head - d)") auto

function copy_words_up :: "memory \<Rightarrow> nat \<Rightarrow> nat \<Rightarrow> nat \<Rightarrow> memory \<times> nat \<times> nat" where
  "copy_words_up m d s body =
     (if d < body then copy_words_up (store_word m d (load_word m s)) (d + 4) (s + 4) body else (m, d, s))"
  by auto
termination by (relation "measure (\<lambda>(m, d, s, body). body - d)") auto

definition memcpy :: "memory \<Rightarrow> nat \<Rightarrow> nat \<Rightarrow> nat \<Rightarrow> memory" where
  "memcpy m dest src len =
     (let tail = dest + len; body = align_down tail;
          head = (if dest mod 4 \<noteq> src mod 4 then tail
                  else if tail < align_up dest then tail else align_up dest)
      in case copy_up m dest src head of (m1, d1, s1) \<Rightarrow>
           case copy_words_up m1 d1 s1 body of (m2, d2, s2) \<Rightarrow> fst (copy_up m2 d2 s2 tail))"

function fill_up :: "memory \<Rightarrow> nat \<Rightarrow> u8 \<Rightarrow> nat \<Rightarrow> memory \<times> nat" where
  "fill_up m d c head = (if d < head then fill_up (m(d := c)) (d + 1) c head else (m, d))"
  by auto
termination by (relation "measure (\<lambda>(m, d, c, head). head - d)") auto

function fill_words_up :: "memory \<Rightarrow> nat \<Rightarrow> (nat \<Rightarrow> u8) \<Rightarrow> nat \<Rightarrow> memory \<times> nat" where
  "fill_words_up m d w body = (if d < body then fill_words_up (store_word m d w) (d + 4) w body else (m, d))"
  by auto
termination by (relation "measure (\<lambda>(m, d, w, body). body - d)") auto

text \<open>The pattern \<open>c | (c << 8) | (c << 16) | (c << 24)\<close> and its bytes in memory.\<close>

definition fill_pattern :: "u8 \<Rightarrow> u32" where
  "fill_pattern c = ucast c OR push_bit 8 (ucast c) OR push_bit 16 (ucast c) OR push_bit 24 (ucast c)"

definition word_bytes :: "u32 \<Rightarrow> nat \<Rightarrow> u8" where
  "word_bytes w = (\<lambda>i. ucast (drop_bit (8 * i) w))"

definition memset :: "memory \<Rightarrow> nat \<Rightarrow> u32 \<Rightarrow> nat \<Rightarrow> memory" where
  "memset m dest c0 len =
     (let c = ucast (c0 AND 0xFF); tail = dest + len; body = align_down tail;
          head = (if tail < align_up dest then tail else align_up dest)
      in case fill_up m dest c head of (m1, d1) \<Rightarrow>
           case fill_words_up m1 d1 (word_bytes (fill_pattern c)) body of (m2, d2) \<Rightarrow> fst (fill_up m2 d2 c tail))"

function copy_down :: "memory \<Rightarrow> nat \<Rightarrow> nat \<Rightarrow> nat \<Rightarrow> memory \<times> nat \<times> nat" where
  "copy_down m d s head =
     (if d > head then copy_down (m(d - 1 := m (s - 1))) (d - 1) (s - 1) head else (m, d, s))"
  by auto
termination by (relation "measure (\<lambda>(m, d, s, head). d)") auto

function copy_words_down :: "memory \<Rightarrow> nat \<Rightarrow> nat \<Rightarrow> nat \<Rightarrow> memory \<times> nat \<times> nat" where
  "copy_words_down m d s body =
     (if d > body then copy_words_down (store_word m (d - 4) (load_word m (s - 4))) (d - 4) (s - 4) body else (m, d, s))"
  by auto
termination by (relation "measure (\<lambda>(m, d, s, body). d)") auto

definition memmove :: "memory \<Rightarrow> nat \<Rightarrow> nat \<Rightarrow> nat \<Rightarrow> memory" where
  "memmove m dest src len =
     (if dest \<le> src \<or> dest \<ge> src + len then memcpy m dest src len
      else
        (let d = dest + len; s = src + len; tail = dest; body = align_up tail;
             head = (if dest mod 4 \<noteq> src mod 4 then tail
                     else if tail > align_down d then tail else align_down d)
         in case copy_down m d s head of (m1, d1, s1) \<Rightarrow>
              case copy_words_down m1 d1 s1 body of (m2, d2, s2) \<Rightarrow> fst (copy_down m2 d2 s2 tail)))"

fun reverse_loop :: "u8 list \<Rightarrow> nat \<Rightarrow> nat \<Rightarrow> nat \<Rightarrow> u8 list" where
  "reverse_loop buf start stop 0 = buf"
| "reverse_loop buf start stop (Suc n) =
     reverse_loop (buf[start := buf ! (stop - 1), stop - 1 := buf ! start]) (start + 1) (stop - 1) n"

definition reverse_bytes :: "u8 list \<Rightarrow> nat \<Rightarrow> u8 list" where
  "reverse_bytes buf len = reverse_loop buf 0 len (len div 2)"

section \<open>The reference: memory with a block moved or filled\<close>

definition moved :: "memory \<Rightarrow> nat \<Rightarrow> nat \<Rightarrow> nat \<Rightarrow> nat \<Rightarrow> memory" where
  "moved m dest src lo hi = (\<lambda>a. if dest + lo \<le> a \<and> a < dest + hi then m (src + (a - dest)) else m a)"

lemma moved_empty [simp]: "moved m dest src k k = m"
  by (auto simp: moved_def fun_eq_iff)

lemma align_down_le [simp]: "align_down a \<le> a" by (simp add: align_down_def)
lemma align_up_ge [simp]: "a \<le> align_up a" unfolding align_up_def align_down_def by linarith
lemma align_mod [simp]: "align_down a mod 4 = 0" "align_up a mod 4 = 0"
proof -
  show d: "align_down a mod 4 = 0" for a
    unfolding align_down_def by (metis minus_mod_eq_mult_div mod_mult_self1_is_0)
  show "align_up a mod 4 = 0" unfolding align_up_def by (rule d)
qed

declare copy_up.simps [simp del] copy_words_up.simps [simp del] fill_up.simps [simp del] fill_words_up.simps [simp del]
  copy_down.simps [simp del] copy_words_down.simps [simp del]

text \<open>Copying upwards is right when the source does not start inside the part already written.\<close>

lemma copy_up_moved:
  assumes "dest \<le> src \<or> src + n \<le> dest" "k \<le> h" "h \<le> n"
  shows "copy_up (moved m dest src 0 k) (dest + k) (src + k) (dest + h) = (moved m dest src 0 h, dest + h, src + h)"
  using assms(2)
proof (induction "h - k" arbitrary: k)
  case 0
  then show ?case by (subst copy_up.simps) simp
next
  case (Suc x)
  then have k: "k < h" by simp
  have "(moved m dest src 0 k)(dest + k := moved m dest src 0 k (src + k)) = moved m dest src 0 (k + 1)"
    using assms k by (auto simp: moved_def fun_eq_iff)
  then show ?case using Suc.hyps(1) [of "k + 1"] Suc.hyps(2) k by (subst copy_up.simps) (simp add: add.assoc)
qed

lemma store_word_eq: "store_word m d w = (\<lambda>a. if d \<le> a \<and> a < d + 4 then w (a - d) else m a)"
proof
  fix a
  consider "a < d" | "a = d" | "a = d + 1" | "a = d + 2" | "a = d + 3" | "d + 4 \<le> a" by linarith
  then show "store_word m d w a = (if d \<le> a \<and> a < d + 4 then w (a - d) else m a)"
    by cases (simp_all add: store_word_def)
qed

lemma store_word_moved:
  assumes "dest \<le> src \<or> src + n \<le> dest" "k + 4 \<le> n" "dest mod 4 = src mod 4"
  shows "store_word (moved m dest src 0 k) (dest + k) (load_word (moved m dest src 0 k) (src + k)) = moved m dest src 0 (k + 4)"
proof
  fix a
  have r: "moved m dest src 0 k (src + k + i) = m (src + k + i)" if "i < 4" for i
    using assms that by (auto simp: moved_def)
  consider (low) "a < dest + k" | (mid) "dest + k \<le> a" "a < dest + (k + 4)" | (high) "dest + (k + 4) \<le> a" by linarith
  then show "store_word (moved m dest src 0 k) (dest + k) (load_word (moved m dest src 0 k) (src + k)) a = moved m dest src 0 (k + 4) a"
  proof cases
    case mid
    then have "a - (dest + k) < 4" "src + k + (a - (dest + k)) = src + (a - dest)" by linarith+
    then show ?thesis using mid r [of "a - (dest + k)"] by (simp add: store_word_eq load_word_def) (simp add: moved_def)
  qed (simp_all add: store_word_eq moved_def)
qed

lemma copy_words_up_moved:
  assumes "dest \<le> src \<or> src + n \<le> dest" "k \<le> h" "h \<le> n" "(dest + k) mod 4 = 0" "(dest + h) mod 4 = 0" "dest mod 4 = src mod 4"
  shows "copy_words_up (moved m dest src 0 k) (dest + k) (src + k) (dest + h) = (moved m dest src 0 h, dest + h, src + h)"
  using assms(2,4)
proof (induction "h - k" arbitrary: k rule: less_induct)
  case less
  show ?case
  proof (cases "k = h")
    case True
    then show ?thesis by (subst copy_words_up.simps) simp
  next
    case False
    then have lt: "dest + k < dest + h" using less.prems by simp
    have "(dest + h) mod 4 = 0" by (rule assms(5))
    then have k4: "k + 4 \<le> h" using lt less.prems(2) by presburger
    have "copy_words_up (moved m dest src 0 (k + 4)) (dest + (k + 4)) (src + (k + 4)) (dest + h) =
        (moved m dest src 0 h, dest + h, src + h)"
      by (rule less.hyps) (use k4 less.prems in \<open>auto simp: add.assoc [symmetric]\<close>)
    then show ?thesis
      using lt store_word_moved [OF assms(1) _ assms(6), of k m] k4 assms(3)
      by (subst copy_words_up.simps) (simp add: add.assoc)
  qed
qed

lemma memcpy_moved:
  assumes "dest \<le> src \<or> src + len \<le> dest"
  shows "memcpy m dest src len = moved m dest src 0 len"
proof -
  let ?tail = "dest + len"
  let ?head = "if dest mod 4 \<noteq> src mod 4 then ?tail else if ?tail < align_up dest then ?tail else align_up dest"
  obtain h where h: "?head = dest + h" "h \<le> len"
  proof
    show "?head = dest + (?head - dest)" by simp
    show "?head - dest \<le> len" by auto
  qed
  have 1: "copy_up m dest src (dest + h) = (moved m dest src 0 h, dest + h, src + h)"
    using copy_up_moved [OF assms, of 0 h m] h(2) by simp
  obtain b where b: "copy_words_up (moved m dest src 0 h) (dest + h) (src + h) (align_down ?tail) =
      (moved m dest src 0 b, dest + b, src + b)" "b \<le> len"
  proof (cases "dest + h < align_down ?tail")
    case False
    then have "copy_words_up (moved m dest src 0 h) (dest + h) (src + h) (align_down ?tail) = (moved m dest src 0 h, dest + h, src + h)"
      by (subst copy_words_up.simps) simp
    then show thesis using that h(2) by blast
  next
    case True
    have "\<not> ?tail < align_down ?tail" by (simp add: not_less)
    then have al: "dest mod 4 = src mod 4" "dest + h = align_up dest"
      using True h by (auto split: if_splits)
    let ?b = "align_down ?tail - dest"
    have e: "align_down ?tail = dest + ?b" "?b \<le> len" using True by (simp_all add: le_diff_conv add.commute)
    have "copy_words_up (moved m dest src 0 h) (dest + h) (src + h) (dest + ?b) = (moved m dest src 0 ?b, dest + ?b, src + ?b)"
      by (rule copy_words_up_moved [OF assms]) (use True al e in \<open>auto simp flip: e(1)\<close>)
    then show thesis using that [of ?b] e by simp
  qed
  have 3: "copy_up (moved m dest src 0 b) (dest + b) (src + b) ?tail = (moved m dest src 0 len, ?tail, src + len)"
    using copy_up_moved [OF assms, of b len m] b(2) by simp
  show ?thesis unfolding memcpy_def Let_def h(1) 1 using b(1) 3 by simp
qed

text \<open>Copying downwards is right when the source starts below the destination.\<close>

lemma copy_down_moved:
  assumes "src < dest" "h \<le> k" "k \<le> n"
  shows "copy_down (moved m dest src k n) (dest + k) (src + k) (dest + h) = (moved m dest src h n, dest + h, src + h)"
  using assms(2,3)
proof (induction k)
  case 0
  then show ?case by (subst copy_down.simps) simp
next
  case (Suc k)
  show ?case
  proof (cases "h = Suc k")
    case True
    then show ?thesis by (subst copy_down.simps) simp
  next
    case False
    have "(moved m dest src (Suc k) n)(dest + k := moved m dest src (Suc k) n (src + k)) = moved m dest src k n"
      using assms(1) Suc.prems(2) by (auto simp: moved_def fun_eq_iff)
    then show ?thesis using Suc False by (subst copy_down.simps) simp
  qed
qed

lemma store_word_moved_down:
  assumes "src < dest" "k + 4 \<le> n"
  shows "store_word (moved m dest src (k + 4) n) (dest + k) (load_word (moved m dest src (k + 4) n) (src + k)) = moved m dest src k n"
proof
  fix a
  have r: "moved m dest src (k + 4) n (src + k + i) = m (src + k + i)" if "i < 4" for i
    using assms that by (auto simp: moved_def)
  consider (low) "a < dest + k" | (mid) "dest + k \<le> a" "a < dest + (k + 4)" | (high) "dest + (k + 4) \<le> a" by linarith
  then show "store_word (moved m dest src (k + 4) n) (dest + k) (load_word (moved m dest src (k + 4) n) (src + k)) a = moved m dest src k n a"
  proof cases
    case mid
    then have "a - (dest + k) < 4" "src + k + (a - (dest + k)) = src + (a - dest)" by linarith+
    then show ?thesis using mid r [of "a - (dest + k)"] assms(2) by (simp add: store_word_eq load_word_def) (simp add: moved_def)
  qed (simp_all add: store_word_eq moved_def)
qed

lemma copy_words_down_moved:
  assumes "src < dest" "h \<le> k" "k \<le> n" "(dest + k) mod 4 = 0" "(dest + h) mod 4 = 0"
  shows "copy_words_down (moved m dest src k n) (dest + k) (src + k) (dest + h) = (moved m dest src h n, dest + h, src + h)"
  using assms(2-4)
proof (induction k rule: less_induct)
  case (less k)
  show ?case
  proof (cases "k = h")
    case True
    then show ?thesis by (subst copy_words_down.simps) simp
  next
    case False
    then have lt: "dest + h < dest + k" using less.prems by simp
    then have k4: "h + 4 \<le> k" using less.prems(3) assms(5) by presburger
    then obtain j where j: "k = j + 4" using le_Suc_ex by (metis add.commute le_add1 le_trans le_iff_add)
    have m: "(dest + j) mod 4 = 0" using less.prems(3) by (simp add: j flip: add.assoc)
    have "copy_words_down (moved m dest src j n) (dest + j) (src + j) (dest + h) = (moved m dest src h n, dest + h, src + h)"
      by (rule less.IH) (use k4 less.prems m j in auto)
    then show ?thesis
      using lt store_word_moved_down [OF assms(1), of j n m] less.prems(2) unfolding j
      by (subst copy_words_down.simps) (simp flip: add.assoc)
  qed
qed

lemma memmove_moved: "memmove m dest src len = moved m dest src 0 len"
proof (cases "dest \<le> src \<or> dest \<ge> src + len")
  case True
  then show ?thesis by (auto simp: memmove_def memcpy_moved)
next
  case False
  then have lt: "src < dest" by simp
  let ?d = "dest + len"
  let ?head = "if dest mod 4 \<noteq> src mod 4 then dest else if dest > align_down ?d then dest else align_down ?d"
  obtain h where h: "?head = dest + h" "h \<le> len"
  proof
    show "?head = dest + (?head - dest)" by simp
    show "?head - dest \<le> len" by (auto simp: le_diff_conv add.commute)
  qed
  have 1: "copy_down m ?d (src + len) (dest + h) = (moved m dest src h len, dest + h, src + h)"
    using copy_down_moved [OF lt h(2), of len m] by simp
  obtain b where b: "copy_words_down (moved m dest src h len) (dest + h) (src + h) (align_up dest) =
      (moved m dest src b len, dest + b, src + b)" "b \<le> len"
  proof (cases "dest + h > align_up dest")
    case False
    then have "copy_words_down (moved m dest src h len) (dest + h) (src + h) (align_up dest) = (moved m dest src h len, dest + h, src + h)"
      by (subst copy_words_down.simps) simp
    then show thesis using that h(2) by blast
  next
    case True
    have "\<not> align_up dest < dest" by (simp add: not_less)
    then have al: "dest + h = align_down ?d" using True h(1) by (auto split: if_splits)
    let ?b = "align_up dest - dest"
    have e: "align_up dest = dest + ?b" by simp
    have bh: "?b \<le> h" using True by simp
    have "copy_words_down (moved m dest src h len) (dest + h) (src + h) (dest + ?b) = (moved m dest src ?b len, dest + ?b, src + ?b)"
      by (rule copy_words_down_moved [OF lt bh h(2)]) (simp_all add: al flip: e)
    then show thesis using that [of ?b] bh h(2) by (simp flip: e)
  qed
  have 3: "copy_down (moved m dest src b len) (dest + b) (src + b) dest = (moved m dest src 0 len, dest, src)"
    using copy_down_moved [OF lt _ b(2), of 0 m] by simp
  show ?thesis using False unfolding memmove_def Let_def h(1) 1 using b(1) 3 by simp
qed

definition filled :: "memory \<Rightarrow> nat \<Rightarrow> u8 \<Rightarrow> nat \<Rightarrow> memory" where
  "filled m dest c n = (\<lambda>a. if dest \<le> a \<and> a < dest + n then c else m a)"

lemma filled_0 [simp]: "filled m dest c 0 = m"
  by (auto simp: filled_def fun_eq_iff)

lemma fill_up_filled:
  assumes "k \<le> h"
  shows "fill_up (filled m dest c k) (dest + k) c (dest + h) = (filled m dest c h, dest + h)"
  using assms
proof (induction "h - k" arbitrary: k)
  case 0
  then show ?case by (subst fill_up.simps) simp
next
  case (Suc x)
  then have "k < h" by simp
  moreover have "(filled m dest c k)(dest + k := c) = filled m dest c (k + 1)" by (auto simp: filled_def fun_eq_iff)
  ultimately show ?case using Suc.hyps(1) [of "k + 1"] Suc.hyps(2) by (subst fill_up.simps) (simp add: add.assoc)
qed

lemma store_word_filled: "\<forall>i<4. w i = c \<Longrightarrow> store_word (filled m dest c k) (dest + k) w = filled m dest c (k + 4)"
  by (auto simp: store_word_eq filled_def fun_eq_iff)

lemma fill_words_up_filled:
  assumes "k \<le> h" "(dest + k) mod 4 = 0" "(dest + h) mod 4 = 0" "\<forall>i<4. w i = c"
  shows "fill_words_up (filled m dest c k) (dest + k) w (dest + h) = (filled m dest c h, dest + h)"
  using assms(1,2)
proof (induction "h - k" arbitrary: k rule: less_induct)
  case less
  show ?case
  proof (cases "k = h")
    case True
    then show ?thesis by (subst fill_words_up.simps) simp
  next
    case False
    then have lt: "dest + k < dest + h" using less.prems by simp
    then have k4: "k + 4 \<le> h" using less.prems(2) assms(3) by presburger
    have "fill_words_up (filled m dest c (k + 4)) (dest + (k + 4)) w (dest + h) = (filled m dest c h, dest + h)"
      by (rule less.hyps) (use k4 less.prems in \<open>auto simp: add.assoc [symmetric]\<close>)
    then show ?thesis using lt store_word_filled [OF assms(4), of m dest k] by (subst fill_words_up.simps) (simp add: add.assoc)
  qed
qed

lemma fill_pattern_bytes: "i < 4 \<Longrightarrow> word_bytes (fill_pattern c) i = c"
proof -
  assume "i < 4"
  then consider "i = 0" | "i = 1" | "i = 2" | "i = 3" by linarith
  then show ?thesis
    by cases (rule bit_word_eqI; auto simp: word_bytes_def fill_pattern_def bit_simps dest: bit_imp_le_length)+
qed

lemma memset_filled: "memset m dest c len = filled m dest (ucast c) len"
proof -
  let ?c = "ucast (c AND 0xFF) :: u8" and ?tail = "dest + len"
  let ?head = "if ?tail < align_up dest then ?tail else align_up dest"
  have m: "(0xFF :: u32) = mask 8" by (simp add: mask_eq_exp_minus_1)
  have c: "?c = ucast c" unfolding m by (rule bit_word_eqI) (auto simp: bit_simps)
  obtain h where h: "?head = dest + h" "h \<le> len"
  proof
    show "?head = dest + (?head - dest)" by simp
    show "?head - dest \<le> len" by auto
  qed
  have 1: "fill_up m dest ?c (dest + h) = (filled m dest ?c h, dest + h)" using fill_up_filled [of 0 h m dest ?c] by simp
  obtain b where b: "fill_words_up (filled m dest ?c h) (dest + h) (word_bytes (fill_pattern ?c)) (align_down ?tail) =
      (filled m dest ?c b, dest + b)" "b \<le> len"
  proof (cases "dest + h < align_down ?tail")
    case False
    then have "fill_words_up (filled m dest ?c h) (dest + h) (word_bytes (fill_pattern ?c)) (align_down ?tail) = (filled m dest ?c h, dest + h)"
      by (subst fill_words_up.simps) simp
    then show thesis using that h(2) by blast
  next
    case True
    have "\<not> ?tail < align_down ?tail" by (simp add: not_less)
    then have al: "dest + h = align_up dest" using True h(1) by (auto split: if_splits)
    let ?b = "align_down ?tail - dest"
    have e: "align_down ?tail = dest + ?b" using True by simp
    have "fill_words_up (filled m dest ?c h) (dest + h) (word_bytes (fill_pattern ?c)) (dest + ?b) = (filled m dest ?c ?b, dest + ?b)"
      by (rule fill_words_up_filled) (use True al e fill_pattern_bytes in \<open>auto simp flip: e\<close>)
    then show thesis using that [of ?b] e align_down_le [of ?tail] by simp
  qed
  have 3: "fill_up (filled m dest ?c b) (dest + b) ?c ?tail = (filled m dest ?c len, ?tail)"
    using fill_up_filled [OF b(2), of m dest ?c] by simp
  show ?thesis unfolding memset_def Let_def h(1) 1 using b(1) 3 c by simp
qed

section \<open>Reversal in place\<close>

lemma reverse_loop_nth:
  assumes "start + n \<le> stop - n" "stop \<le> length buf" "i < length buf"
  shows "reverse_loop buf start stop n ! i =
    (if start \<le> i \<and> i < start + n \<or> stop - n \<le> i \<and> i < stop then buf ! (start + stop - 1 - i) else buf ! i)"
  using assms
proof (induction n arbitrary: buf start stop)
  case (Suc n)
  let ?buf = "buf[start := buf ! (stop - 1), stop - 1 := buf ! start]"
  have ih: "reverse_loop ?buf (start + 1) (stop - 1) n ! i =
    (if start + 1 \<le> i \<and> i < start + 1 + n \<or> stop - 1 - n \<le> i \<and> i < stop - 1
     then ?buf ! (start + 1 + (stop - 1) - 1 - i) else ?buf ! i)"
    using Suc.prems by (intro Suc.IH) auto
  have st: "start < stop - 1" using Suc.prems by linarith
  consider (first) "i = start" | (last) "i = stop - 1" | (inside) "start < i" "i < stop - 1" | (outside) "i < start \<or> stop \<le> i"
    by linarith
  then show ?case
  proof cases
    case inside
    have e: "start + 1 + (stop - 1) - 1 - i = start + stop - 1 - i" using st by linarith
    have "start + stop - 1 - i \<noteq> start" "start + stop - 1 - i \<noteq> stop - 1" using inside by linarith+
    then have "?buf ! (start + stop - 1 - i) = buf ! (start + stop - 1 - i)" "?buf ! i = buf ! i" using inside by simp_all
    then show ?thesis using ih unfolding e using inside by auto
  qed (use ih st Suc.prems in auto)
qed auto

lemma length_reverse_loop [simp]: "length (reverse_loop buf start stop n) = length buf"
  by (induction n arbitrary: buf start stop) auto

lemma reverse_bytes_rev:
  assumes "len \<le> length buf"
  shows "reverse_bytes buf len = rev (take len buf) @ drop len buf"
proof (rule nth_equalityI)
  show "length (reverse_bytes buf len) = length (rev (take len buf) @ drop len buf)"
    using assms by (simp add: reverse_bytes_def)
next
  fix i assume "i < length (reverse_bytes buf len)"
  then have i: "i < length buf" by (simp add: reverse_bytes_def)
  have h: "len div 2 \<le> len - len div 2" by simp
  show "reverse_bytes buf len ! i = (rev (take len buf) @ drop len buf) ! i"
  proof (cases "i < len div 2 \<or> len - len div 2 \<le> i")
    case True
    then show ?thesis
      using reverse_loop_nth [of 0 "len div 2" len buf i] i h assms by (auto simp: reverse_bytes_def nth_append rev_nth)
  next
    case False
    then have "i = len - 1 - i" "i < len" by linarith+
    then show ?thesis
      using reverse_loop_nth [of 0 "len div 2" len buf i] i h assms False by (auto simp: reverse_bytes_def nth_append rev_nth)
  qed
qed

section \<open>Properties\<close>

text \<open>(C37) \<open>memmove\<close> moves: whatever the alignment of the two blocks and however they overlap, the
  destination holds afterwards what the source held before, and nothing else in memory changes.\<close>

theorem memmove_correct:
  "memmove m dest src len a = (if dest \<le> a \<and> a < dest + len then m (src + (a - dest)) else m a)"
  by (simp add: memmove_moved moved_def)

text \<open>\<open>memcpy\<close> copies blocks that do not overlap, and also blocks whose destination starts at or
  below the source, which is what \<open>memmove\<close> and \<open>make_compatible_response\<close> rely on.\<close>

theorem memcpy_correct:
  assumes "dest \<le> src \<or> src + len \<le> dest"
  shows "memcpy m dest src len a = (if dest \<le> a \<and> a < dest + len then m (src + (a - dest)) else m a)"
  by (simp add: memcpy_moved [OF assms] moved_def)

theorem memcpy_correct_witness: "memcpy (\<lambda>a. of_nat a) 5 9 7 6 = (10 :: u8)"
  using memcpy_correct [of 5 9 7 "\<lambda>a. of_nat a" 6] by simp

text \<open>\<open>memset\<close> fills the block with the low byte of its argument and nothing else.\<close>

theorem memset_correct:
  "memset m dest c len a = (if dest \<le> a \<and> a < dest + len then ucast c else m a)"
  by (simp add: memset_filled filled_def)

end
