(* ===== verification/C_Strings.thy ===== *)
theory C_Strings
  imports Prelude
begin

text \<open>
  Strings, numbers and small helpers of \<open>src/common/util.c\<close>.  A string is the list of bytes a
  pointer reaches; reading at its end yields the terminating zero, and a zero inside it ends the
  string too.  \<open>char\<close> is unsigned on the target and signed arithmetic wraps, as the build
  asks for with \<open>-fno-strict-overflow\<close>.  A pointer that is handed back is the rest of the list
  from there on.
\<close>

section \<open>Model\<close>

definition cur :: "bytes \<Rightarrow> u8" where
  "cur s = (case s of [] \<Rightarrow> 0 | c # _ \<Rightarrow> c)"

text \<open>The character a pointer reads, promoted to \<open>int\<close>.\<close>

definition chr :: "bytes \<Rightarrow> int" where "chr s = uint (cur s)"

lemma cur_nonzero [termination_simp]: "cur s \<noteq> 0 \<Longrightarrow> length s - Suc 0 < length s"
  by (cases s) (simp_all add: cur_def)

fun strlen :: "bytes \<Rightarrow> nat" where
  "strlen [] = 0"
| "strlen (c # s) = (if c = 0 then 0 else strlen s + 1)"

fun memcmp :: "bytes \<Rightarrow> bytes \<Rightarrow> nat \<Rightarrow> int" where
  "memcmp sa sb 0 = 0"
| "memcmp sa sb (Suc n) =
     (let diff = chr sa - chr sb in if diff \<noteq> 0 then diff else memcmp (tl sa) (tl sb) n)"

fun strncmp :: "bytes \<Rightarrow> bytes \<Rightarrow> nat \<Rightarrow> int" where
  "strncmp s1 s2 0 = 0"
| "strncmp s1 s2 (Suc n) =
     (if cur s1 \<noteq> cur s2 then chr s1 - chr s2
      else if cur s1 = 0 then 0
      else strncmp (tl s1) (tl s2) n)"

fun strnlen_from :: "bytes \<Rightarrow> nat \<Rightarrow> nat \<Rightarrow> nat" where
  "strnlen_from s len 0 = len"
| "strnlen_from s len (Suc n) = (if cur s \<noteq> 0 then strnlen_from (tl s) (len + 1) n else len)"

definition strnlen :: "bytes \<Rightarrow> nat \<Rightarrow> nat" where "strnlen s maxlen = strnlen_from s 0 maxlen"

definition isspace :: "int \<Rightarrow> bool" where "isspace c \<longleftrightarrow> c = 32 \<or> c = 9 \<or> c = 13 \<or> c = 10"
definition isdigit :: "int \<Rightarrow> bool" where "isdigit c \<longleftrightarrow> c \<ge> 48 \<and> c \<le> 57"
definition isalpha :: "int \<Rightarrow> bool" where "isalpha c \<longleftrightarrow> (c \<ge> 65 \<and> c \<le> 90) \<or> (c \<ge> 97 \<and> c \<le> 122)"
definition isprint :: "int \<Rightarrow> bool" where "isprint c \<longleftrightarrow> c \<ge> 32 \<and> c \<le> 126"
definition tolower :: "int \<Rightarrow> int" where "tolower c = (if c \<ge> 65 \<and> c \<le> 90 then c + 97 - 65 else c)"

function strcasecmp :: "bytes \<Rightarrow> bytes \<Rightarrow> int" where
  "strcasecmp s1 s2 =
     (let diff = tolower (chr s1) - tolower (chr s2)
      in if diff \<noteq> 0 then diff
         else if cur s1 \<noteq> 0 \<and> cur s2 \<noteq> 0 then strcasecmp (tl s1) (tl s2) else 0)"
  by auto
termination by (relation "measure (\<lambda>(s1, s2). length s1)") (auto simp: cur_nonzero)

fun strncasecmp :: "bytes \<Rightarrow> bytes \<Rightarrow> nat \<Rightarrow> int" where
  "strncasecmp s1 s2 0 = 0"
| "strncasecmp s1 s2 (Suc n) =
     (let diff = tolower (chr s1) - tolower (chr s2)
      in if diff \<noteq> 0 then diff
         else if cur s1 \<noteq> 0 \<and> cur s2 \<noteq> 0 \<and> n \<noteq> 0 then strncasecmp (tl s1) (tl s2) n else 0)"

text \<open>\<open>while ((c = *nptr++) && isspace(c));\<close> leaves the first character that is no space and the
  rest after it.\<close>

function skip_space :: "bytes \<Rightarrow> int \<times> bytes" where
  "skip_space s = (if cur s \<noteq> 0 \<and> isspace (chr s) then skip_space (tl s) else (chr s, tl s))"
  by auto
termination by (relation "measure length") (auto simp: cur_nonzero)

function atoi_digits :: "u32 \<Rightarrow> int \<Rightarrow> bytes \<Rightarrow> u32" where
  "atoi_digits result c s =
     (if isdigit c then atoi_digits (result * 10 + of_int (c - 48)) (chr s) (tl s) else result)"
  by auto
termination
proof (relation "measure (\<lambda>(r, c, s). length s + (if isdigit c then 1 else 0))", goal_cases)
  case (2 result c s)
  then show ?case by (cases s) (auto simp: chr_def cur_def isdigit_def)
qed simp

definition atoi :: "bytes \<Rightarrow> u32" where
  "atoi nptr =
     (case skip_space nptr of (c, s) \<Rightarrow>
        if c = 45 then - atoi_digits 0 (chr s) (tl s) else atoi_digits 0 c s)"

text \<open>The value of a digit of a base, as the three comparisons of the loop select it.\<close>

definition digit_value :: "int \<Rightarrow> int \<Rightarrow> int option" where
  "digit_value base c =
     (if c \<ge> 48 \<and> c < 48 + min base 10 then Some (c - 48)
      else if c \<ge> 65 \<and> c < 65 + base - 10 then Some (c - 65 + 10)
      else if c \<ge> 97 \<and> c < 97 + base - 10 then Some (c - 97 + 10)
      else None)"

function number_loop :: "int \<Rightarrow> 'a::len word \<Rightarrow> int \<Rightarrow> bytes \<Rightarrow> bytes \<Rightarrow> 'a word \<times> bytes" where
  "number_loop base result c s endptr =
     (if c = 0 then (result, endptr)
      else case digit_value base c of
             None \<Rightarrow> (result, endptr)
           | Some v \<Rightarrow> number_loop base (result * of_int base + of_int v) (chr s) (tl s) s)"
  by auto
termination
proof (relation "measure (\<lambda>(b, r, c, s, e). length s + (if c = 0 then 0 else 1))", goal_cases)
  case (2 base result c s endptr v)
  then show ?case by (cases s) (auto simp: chr_def cur_def)
qed simp

definition strtoi :: "bytes \<Rightarrow> int \<Rightarrow> u32 \<times> bytes" where
  "strtoi nptr base =
     (case skip_space nptr of (c, s) \<Rightarrow>
        if c = 48 \<and> cur s = 120 then number_loop 16 0 (chr (tl s)) (tl (tl s)) nptr
        else if base = 0
        then if c = 45
             then (case number_loop 10 0 (chr s) (tl s) nptr of (r, e) \<Rightarrow> (- r, e))
             else number_loop 10 0 c s nptr
        else number_loop base 0 c s nptr)"

definition strtoul :: "bytes \<Rightarrow> int \<Rightarrow> u64 \<times> bytes" where
  "strtoul nptr base =
     (case skip_space nptr of (c, s) \<Rightarrow>
        if c = 48 \<and> cur s = 120 then number_loop 16 0 (chr (tl s)) (tl (tl s)) nptr
        else if base = 0
        then if c = 45 then (0, nptr) else number_loop 10 0 c s nptr
        else number_loop base 0 c s nptr)"

definition c_string :: "string \<Rightarrow> bytes" where "c_string s = map (\<lambda>c. of_nat (of_char c)) s"

definition parse_bool :: "bytes \<Rightarrow> bool option" where
  "parse_bool s =
     (if strcasecmp s (c_string ''off'') = 0 \<or> strncasecmp s (c_string ''dis'') 3 = 0 \<or>
         tolower (chr s) = 102 \<or> tolower (chr s) = 110
      then Some False
      else if strcasecmp s (c_string ''on'') = 0 \<or> strncasecmp s (c_string ''ena'') 3 = 0 \<or>
              tolower (chr s) = 116 \<or> tolower (chr s) = 121
      then Some True
      else None)"

fun memcmp_or :: "bytes \<Rightarrow> bytes \<Rightarrow> nat \<Rightarrow> u32 \<Rightarrow> u32" where
  "memcmp_or us1 us2 0 result = result"
| "memcmp_or us1 us2 (Suc n) result = memcmp_or (tl us1) (tl us2) n (result OR ucast (cur us1 XOR cur us2))"

definition safe_memcmp :: "bytes \<Rightarrow> bytes \<Rightarrow> nat \<Rightarrow> bool" where
  "safe_memcmp s1 s2 n = (if n = 0 then False else memcmp_or s1 s2 n 0 \<noteq> 0)"

text \<open>\<open>memchr\<close> returns the index of the byte.\<close>

fun memchr_from :: "nat \<Rightarrow> bytes \<Rightarrow> int \<Rightarrow> nat \<Rightarrow> nat option" where
  "memchr_from i s c 0 = None"
| "memchr_from i s c (Suc n) = (if chr s = c then Some i else memchr_from (i + 1) (tl s) c n)"

definition memchr :: "bytes \<Rightarrow> int \<Rightarrow> nat \<Rightarrow> nat option" where "memchr s c n = memchr_from 0 s c n"

fun strzcpy_loop :: "bytes \<Rightarrow> nat \<Rightarrow> bytes \<Rightarrow> nat \<Rightarrow> bytes" where
  "strzcpy_loop dest d src (Suc (Suc n)) =
     (if cur src \<noteq> 0 then strzcpy_loop (dest[d := cur src]) (d + 1) (tl src) (Suc n) else dest[d := 0])"
| "strzcpy_loop dest d src n = dest[d := 0]"

definition strzcpy :: "bytes \<Rightarrow> bytes \<Rightarrow> int \<Rightarrow> bytes" where
  "strzcpy dest src len = (if len \<le> 0 then dest else strzcpy_loop dest 0 src (nat len))"

fun strncpy_loop :: "bytes \<Rightarrow> nat \<Rightarrow> bytes \<Rightarrow> nat \<Rightarrow> bytes" where
  "strncpy_loop dest d src 0 = dest"
| "strncpy_loop dest d src (Suc n) =
     (if cur src \<noteq> 0 then strncpy_loop (dest[d := cur src]) (d + 1) (tl src) n else dest[d := 0])"

definition strncpy :: "bytes \<Rightarrow> bytes \<Rightarrow> nat \<Rightarrow> bytes" where "strncpy dest src n = strncpy_loop dest 0 src n"

text \<open>Long division: bit \<open>i\<close> of the mask, the remainder a signed 32-bit integer.\<close>

fun divmod_loop :: "u64 \<Rightarrow> u32 \<Rightarrow> nat \<Rightarrow> u32 \<Rightarrow> u64 \<Rightarrow> u32 \<times> u64" where
  "divmod_loop n d 0 r q = (r, q)"
| "divmod_loop n d (Suc i) r q =
     (let r1 = push_bit 1 r; r2 = (if bit n i then r1 OR 1 else r1)
      in if d <=s r2 then divmod_loop n d i (r2 - d) (q OR push_bit i 1) else divmod_loop n d i r2 q)"

definition uint64divmod :: "u64 \<Rightarrow> u32 \<Rightarrow> u32 \<times> u64" where
  "uint64divmod n d =
     (if d = 0 then (0, 0)
      else if d = 2 then (ucast (n AND 1), drop_bit 1 n)
      else if d = 16 then (ucast (n AND 0xF), drop_bit 4 n)
      else if n \<le> 0xFFFFFFFF then (ucast n mod d, ucast (ucast n div d :: u32))
      else divmod_loop n d 64 0 0)"

definition clz :: "u32 \<Rightarrow> nat" where
  "clz w = length (takeWhile (\<lambda>i. \<not> bit w i) (rev [0..<32]))"

definition get_next_bit :: "u32 \<Rightarrow> nat \<times> u32" where
  "get_next_bit m = (let b = 31 - clz m in (b, m AND NOT (push_bit b 1)))"

fun trivial_loop :: "bytes \<Rightarrow> nat \<Rightarrow> u8 \<Rightarrow> u8 \<Rightarrow> u8 \<times> u8" where
  "trivial_loop s 0 r0 r1 = (r0, r1)"
| "trivial_loop s (Suc n) r0 r1 = trivial_loop (tl s) n (r0 OR (cur s XOR 0)) (r1 OR (cur s XOR 0xFF))"

definition bytes_are_trivial :: "bytes \<Rightarrow> nat \<Rightarrow> bool" where
  "bytes_are_trivial s n = (case trivial_loop s n 0 0 of (r0, r1) \<Rightarrow> r0 = 0 \<or> r1 = 0)"

definition cond_init :: "bool \<Rightarrow> u8" where "cond_init val = (if val then 1 else 0)"
definition cond_is :: "u8 \<Rightarrow> bool \<Rightarrow> bool" where
  "cond_is c val = (if val then c AND 1 \<noteq> 0 else c AND 1 = 0)"
definition cond_set :: "u8 \<Rightarrow> bool \<Rightarrow> u8" where
  "cond_set c val =
     (let c1 = (if val \<and> cond_is c False then c OR 2 else if \<not> val \<and> cond_is c True then c OR 4 else c)
      in if val then c1 OR 1 else c1 AND NOT 1)"
definition cond_went :: "u8 \<Rightarrow> bool \<Rightarrow> bool \<times> u8" where
  "cond_went c val = (if val then (c AND 2 \<noteq> 0, c AND NOT 2) else (c AND 4 \<noteq> 0, c AND NOT 4))"

text \<open>\<open>Inl\<close> the error code, or the two parsed values; arguments start at \<open>argv[shift]\<close>.\<close>

definition parse_offset_size :: "bytes list \<Rightarrow> nat \<Rightarrow> u32 \<Rightarrow> u32 \<Rightarrow> ec_error + u32 \<times> u32" where
  "parse_offset_size argv shift offset sz =
     (let size_part = (\<lambda>off.
            if length argv > shift + 1
            then (case strtoi (argv ! (shift + 1)) 0 of (i, e) \<Rightarrow>
                    if cur e \<noteq> 0 then Inl EC_ERROR_PARAM2 else Inr (off, i))
            else if sz <s 0 then Inl EC_ERROR_PARAM_COUNT else Inr (off, sz))
      in if length argv > shift
         then (case strtoi (argv ! shift) 0 of (i, e) \<Rightarrow>
                 if cur e \<noteq> 0 then Inl EC_ERROR_PARAM1 else size_part i)
         else if offset <s 0 then Inl EC_ERROR_PARAM_COUNT else size_part offset)"

section \<open>Strings up to their terminator\<close>

declare strcasecmp.simps [simp del] skip_space.simps [simp del] atoi_digits.simps [simp del] number_loop.simps [simp del]

definition cstr :: "bytes \<Rightarrow> bytes" where "cstr s = takeWhile (\<lambda>c. c \<noteq> 0) s"

definition lower :: "u8 \<Rightarrow> int" where "lower c = tolower (uint c)"

lemma strlen_cstr: "strlen s = length (cstr s)"
  by (induction s rule: strlen.induct) (simp_all add: cstr_def)

lemma cstr_cur: "cstr s = (if cur s = 0 then [] else cur s # cstr (tl s))"
  by (cases s) (simp_all add: cstr_def cur_def)

lemma cur_cstr: "cur s = 0 \<longleftrightarrow> cstr s = []"
  by (cases s) (simp_all add: cstr_def cur_def)

lemma lower_0 [simp]: "lower c = 0 \<longleftrightarrow> c = 0"
  by (auto simp: lower_def tolower_def uint_0_iff)

lemma lower_chr: "tolower (chr s) = lower (cur s)"
  by (simp add: chr_def lower_def)

lemma strcasecmp_eq_0: "strcasecmp s1 s2 = 0 \<longleftrightarrow> map lower (cstr s1) = map lower (cstr s2)"
proof (induction s1 s2 rule: strcasecmp.induct)
  case (1 s1 s2)
  show ?case
  proof (cases "lower (cur s1) = lower (cur s2)")
    case False
    then show ?thesis
      using cstr_cur [of s1] cstr_cur [of s2]
      by (subst strcasecmp.simps) (auto simp: lower_chr Let_def split: if_splits)
  next
    case True
    then have z: "cur s1 = 0 \<longleftrightarrow> cur s2 = 0" using lower_0 by metis
    show ?thesis
      using True z 1 cstr_cur [of s1] cstr_cur [of s2]
      by (subst strcasecmp.simps) (auto simp: lower_chr Let_def)
  qed
qed

lemma strncasecmp_eq_0: "strncasecmp s1 s2 n = 0 \<longleftrightarrow> map lower (take n (cstr s1)) = map lower (take n (cstr s2))"
proof (induction s1 s2 n rule: strncasecmp.induct)
  case (2 s1 s2 n)
  show ?case
  proof (cases "lower (cur s1) = lower (cur s2)")
    case False
    then show ?thesis
      using cstr_cur [of s1] cstr_cur [of s2] by (auto simp: lower_chr Let_def split: if_splits)
  next
    case True
    then have z: "cur s1 = 0 \<longleftrightarrow> cur s2 = 0" using lower_0 by metis
    have ih: "cur s1 \<noteq> 0 \<Longrightarrow> n \<noteq> 0 \<Longrightarrow> strncasecmp (tl s1) (tl s2) n = 0 \<longleftrightarrow>
        map lower (take n (cstr (tl s1))) = map lower (take n (cstr (tl s2)))"
      using 2 True z by (simp add: lower_chr)
    show ?thesis
    proof (cases "cur s1 = 0")
      case True
      then show ?thesis using z cstr_cur [of s1] cstr_cur [of s2] by (simp add: Let_def lower_chr)
    next
      case False
      then have "cstr s1 = cur s1 # cstr (tl s1)" "cstr s2 = cur s2 # cstr (tl s2)" using z cstr_cur by metis+
      then show ?thesis using True False z ih by (cases "n = 0") (simp_all add: Let_def lower_chr)
    qed
  qed
qed simp

lemma xor_zero: "(a :: u8) XOR b = 0 \<longleftrightarrow> a = b"
proof
  assume "a XOR b = 0"
  then have "(a XOR b) XOR b = 0 XOR b" by simp
  then show "a = b" by (simp add: xor.assoc)
qed simp

lemma ucast_u8_0: "ucast (w :: u8) = (0 :: u32) \<longleftrightarrow> w = 0"
proof
  assume z: "ucast w = (0 :: u32)"
  show "w = 0"
  proof (rule bit_word_eqI)
    fix n assume "n < LENGTH(8)"
    then show "bit w n = bit 0 n" using arg_cong [OF z, of "\<lambda>v. bit v n"] by (simp add: bit_simps)
  qed
qed simp

lemma memcmp_or_zero: "memcmp_or a b n r = 0 \<longleftrightarrow> r = 0 \<and> (\<forall>i<n. cur (drop i a) = cur (drop i b))"
proof (induction n arbitrary: a b r)
  case (Suc n)
  have x: "ucast (cur a XOR cur b) = (0 :: u32) \<longleftrightarrow> cur a = cur b"
    using ucast_u8_0 [of "cur a XOR cur b"] by (simp add: xor_zero)
  have "(\<forall>i<Suc n. cur (drop i a) = cur (drop i b)) \<longleftrightarrow> cur a = cur b \<and> (\<forall>i<n. cur (drop i (tl a)) = cur (drop i (tl b)))"
    by (auto simp: less_Suc_eq_0_disj drop_Suc)
  then show ?case using Suc.IH [of "tl a" "tl b" "r OR ucast (cur a XOR cur b)"] x by (auto simp: or_eq_0_iff)
qed simp

lemma safe_memcmp_take:
  assumes "n \<le> length a" "n \<le> length b"
  shows "safe_memcmp a b n \<longleftrightarrow> take n a \<noteq> take n b"
proof (cases "n = 0")
  case False
  have c: "cur (drop i a) = a ! i \<and> cur (drop i b) = b ! i" if "i < n" for i
    using that assms by (simp add: cur_def flip: Cons_nth_drop_Suc)
  have "safe_memcmp a b n \<longleftrightarrow> \<not> (\<forall>i<n. a ! i = b ! i)"
    using False c by (auto simp: safe_memcmp_def memcmp_or_zero)
  also have "\<dots> \<longleftrightarrow> take n a \<noteq> take n b" using assms by (auto simp: list_eq_iff_nth_eq)
  finally show ?thesis .
qed (simp add: safe_memcmp_def)

section \<open>Numbers\<close>

text \<open>The decimal and hexadecimal numerals of a number.\<close>

definition digit_char :: "nat \<Rightarrow> u8" where
  "digit_char v = (if v < 10 then of_nat (48 + v) else of_nat (87 + v))"

fun numeral_of :: "nat \<Rightarrow> nat \<Rightarrow> bytes" where
  "numeral_of base n = (if base \<le> 1 \<or> n < base then [digit_char n] else numeral_of base (n div base) @ [digit_char (n mod base)])"

declare numeral_of.simps [simp del]

lemma uint_digit_char: "v < 36 \<Longrightarrow> uint (digit_char v) = (if v < 10 then 48 + int v else 87 + int v)"
  unfolding digit_char_def
  by (simp add: unsigned_of_nat take_bit_nat_eq_self del: of_nat_add)

lemma digit_value_char:
  assumes "v < nat base" "base \<le> 36"
  shows "digit_value base (uint (digit_char v)) = Some (int v)"
proof -
  have "v < 36" using assms by linarith
  then show ?thesis using assms by (auto simp: digit_value_def uint_digit_char)
qed

lemma number_loop_step:
  assumes "v < nat base" "base \<le> 36"
  shows "number_loop base r (chr (digit_char v # s)) s e = number_loop base (r * of_int base + of_int (int v)) (chr s) (tl s) s"
proof -
  have "v < 36" using assms by linarith
  then have "uint (digit_char v) \<noteq> 0" by (simp add: uint_digit_char)
  then show ?thesis
    using digit_value_char [OF assms] by (subst number_loop.simps) (simp add: chr_def cur_def)
qed

text \<open>The loop over the numeral of \<open>n\<close>, from the accumulated \<open>r\<close>; \<open>k\<close> is the weight it shifts
  \<open>r\<close> by.\<close>

lemma number_loop_numeral:
  assumes "2 \<le> base" "base \<le> 36"
  shows "\<exists>k. \<forall>(r :: 'a::len word) e rest. number_loop (int base) r (chr (numeral_of base n @ rest)) (tl (numeral_of base n @ rest)) e =
    number_loop (int base) (r * of_nat k + of_nat n) (chr rest) (tl rest) rest"
proof (induction n rule: less_induct)
  case (less n)
  show ?case
  proof (cases "n < base")
    case True
    then have "numeral_of base n = [digit_char n]" by (simp add: numeral_of.simps)
    then show ?thesis using True assms by (intro exI [of _ base]) (simp add: number_loop_step)
  next
    case False
    then have d: "n div base < n" using assms by simp
    from less.IH [OF d] obtain k where k: "\<forall>(r :: 'a word) e rest. number_loop (int base) r (chr (numeral_of base (n div base) @ rest))
        (tl (numeral_of base (n div base) @ rest)) e =
      number_loop (int base) (r * of_nat k + of_nat (n div base)) (chr rest) (tl rest) rest" by blast
    have num: "numeral_of base n @ rest = numeral_of base (n div base) @ digit_char (n mod base) # rest" for rest
      using False assms by (subst numeral_of.simps) simp
    have m: "n mod base < nat (int base)" using assms by simp
    have "(of_nat n :: 'a word) = of_nat (n div base) * of_nat base + of_nat (n mod base)"
      by (metis of_nat_add of_nat_mult div_mult_mod_eq)
    then have "number_loop (int base) r (chr (numeral_of base n @ rest)) (tl (numeral_of base n @ rest)) e =
      number_loop (int base) (r * of_nat (k * base) + of_nat n) (chr rest) (tl rest) rest" for r :: "'a word" and e rest
      unfolding num using k assms by (simp add: number_loop_step [OF m] algebra_simps)
    then show ?thesis by (intro exI [of _ "k * base"]) blast
  qed
qed

lemma number_loop_end:
  assumes "digit_value base (chr s) = None"
  shows "number_loop base r (chr s) (tl s) e = (r, e)"
  using assms by (subst number_loop.simps) simp

lemma numeral_of_head:
  assumes "2 \<le> base" "base \<le> 36"
  obtains v where "cur (numeral_of base n @ rest) = digit_char v" "v < base" "n \<noteq> 0 \<Longrightarrow> v \<noteq> 0" "numeral_of base n \<noteq> []"
    "n = 0 \<Longrightarrow> numeral_of base n = [digit_char 0]"
proof (induction n arbitrary: thesis rest rule: less_induct)
  case (less n)
  show ?case
  proof (cases "n < base")
    case True
    then have "numeral_of base n = [digit_char n]" by (simp add: numeral_of.simps)
    then show ?thesis using less.prems [of n] True by (auto simp: cur_def)
  next
    case False
    have n1: "numeral_of base n = numeral_of base (n div base) @ [digit_char (n mod base)]"
      using assms False by (subst numeral_of.simps) simp
    have n: "n div base < n" "n div base \<noteq> 0" "n \<noteq> 0" using assms False by (simp_all add: div_eq_0_iff)
    show ?thesis
    proof (rule less.IH [OF n(1), of "digit_char (n mod base) # rest"])
      fix v assume "cur (numeral_of base (n div base) @ digit_char (n mod base) # rest) = digit_char v" "v < base"
        "n div base \<noteq> 0 \<Longrightarrow> v \<noteq> 0"
      then show ?thesis using less.prems [of v] n n1 by simp
    qed
  qed
qed

lemma chr_digit: "v < 36 \<Longrightarrow> cur s = digit_char v \<Longrightarrow> chr s = (if v < 10 then 48 + int v else 87 + int v)"
  by (simp add: chr_def uint_digit_char)

lemma number_loop_reads:
  assumes "2 \<le> base" "base \<le> 36" "digit_value (int base) (chr rest) = None"
  shows "number_loop (int base) 0 (chr (numeral_of base n @ rest)) (tl (numeral_of base n @ rest)) e = (of_nat n, rest)"
proof -
  from number_loop_numeral [OF assms(1,2), of n] obtain k where
    "\<forall>(r :: 'a word) e rest. number_loop (int base) r (chr (numeral_of base n @ rest)) (tl (numeral_of base n @ rest)) e =
      number_loop (int base) (r * of_nat k + of_nat n) (chr rest) (tl rest) rest" by blast
  then show ?thesis using number_loop_end [OF assms(3)] by simp
qed

lemma skip_space_none: "\<not> isspace (chr s) \<Longrightarrow> skip_space s = (chr s, tl s)"
  by (subst skip_space.simps) simp

section \<open>Long division\<close>

lemma sint_small: "unat (w :: u32) < 2 ^ 31 \<Longrightarrow> sint w = int (unat w)"
proof -
  assume w: "unat w < 2 ^ 31"
  have "int (unat w) < int (2 ^ 31)" using w by (simp only: of_nat_less_iff)
  then have u: "uint w < 2 ^ 31" by simp
  have "sint w = signed_take_bit 31 (uint w)" by (simp add: sint_uint)
  also have "\<dots> = uint w" by (rule signed_take_bit_int_eq_self) (use u uint_ge_0 [of w] in linarith, use u in simp)
  finally show ?thesis by simp
qed

lemma unat_lt64: "unat (w :: u64) < 18446744073709551616"
proof -
  have "unat w < 2 ^ LENGTH(64)" by (rule unsigned_less)
  then show ?thesis by simp
qed

lemma unat_double:
  assumes "unat (r :: u32) < 2 ^ 30"
  shows "unat (push_bit 1 r) = 2 * unat r" "unat (push_bit 1 r OR 1) = 2 * unat r + 1"
proof -
  have m: "push_bit 1 r = 2 * r" by (simp add: push_bit_eq_mult mult.commute)
  show d: "unat (push_bit 1 r) = 2 * unat r" unfolding m using assms by (subst unat_mult_lem [THEN iffD1]) simp_all
  have "push_bit 1 r OR 1 = push_bit 1 r + 1"
    by (subst disjunctive_add [symmetric]) (auto simp only: bit_push_bit_iff bit_1_iff)
  moreover have "unat (push_bit 1 r + 1) = unat (push_bit 1 r) + 1" using d assms by (subst unat_add_lem [THEN iffD1]) simp_all
  ultimately show "unat (push_bit 1 r OR 1) = 2 * unat r + 1" using d by simp
qed

lemma quotient_bit: "push_bit (Suc j) (of_nat Q) OR push_bit j 1 = push_bit j (of_nat (2 * Q + 1) :: u64)"
proof -
  have "push_bit (Suc j) (of_nat Q) OR push_bit j 1 = push_bit j (push_bit 1 (of_nat Q) OR 1 :: u64)"
    by (simp add: push_bit_or)
  also have "push_bit 1 (of_nat Q) OR 1 = (push_bit 1 (of_nat Q) + 1 :: u64)"
    by (subst disjunctive_add [symmetric]) (auto simp only: bit_push_bit_iff bit_1_iff)
  also have "\<dots> = of_nat (2 * Q + 1)" by (simp add: push_bit_eq_mult mult.commute)
  finally show ?thesis .
qed

lemma div_pow_Suc: "N div 2 ^ j = 2 * (N div 2 ^ Suc j) + (if odd (N div 2 ^ j) then 1 else 0)" for N :: nat
proof -
  have "N div 2 ^ Suc j = N div 2 ^ j div 2" by (simp only: power_Suc2 div_mult2_eq)
  then show ?thesis by (cases "odd (N div 2 ^ j)") (auto elim: oddE)
qed

lemma divmod_loop_correct:
  assumes "0 < unat d" "unat d \<le> 2 ^ 30" "unat r < unat d" "q = push_bit i (of_nat Q)"
    "Q * unat d + unat r = unat n div 2 ^ i"
  shows "divmod_loop n d i r q = (of_nat (unat n mod unat d), of_nat (unat n div unat d))"
  using assms(3-5)
proof (induction i arbitrary: r q Q)
  case 0
  then have n: "unat n = Q * unat d + unat r" by simp
  then have "unat n mod unat d = unat r" "unat n div unat d = Q" using 0(1) by simp_all
  then show ?case using 0(2) by simp
next
  case (Suc j)
  let ?b = "if bit n j then 1 else 0 :: nat" and ?r = "if bit n j then push_bit 1 r OR 1 else push_bit 1 r"
  have "unat r < 2 ^ 30" using Suc.prems(1) assms(2) by linarith
  note db = unat_double [OF this]
  have ur: "unat ?r = 2 * unat r + ?b" using db by simp
  have "bit (unat n) j \<longleftrightarrow> bit n j" by (simp add: bit_unsigned_iff)
  then have "bit n j \<longleftrightarrow> odd (unat n div 2 ^ j)" by (simp add: bit_iff_odd [of "unat n"])
  then have nj: "unat n div 2 ^ j = (2 * Q) * unat d + unat ?r"
    using div_pow_Suc [of "unat n" j] Suc.prems(3) ur by (simp add: algebra_simps)
  have small: "unat ?r < 2 ^ 31" "unat d < 2 ^ 31" using ur Suc.prems(1) assms(2) by auto
  have cmp: "d <=s ?r \<longleftrightarrow> unat d \<le> unat ?r" unfolding word_sle_eq sint_small [OF small(1)] sint_small [OF small(2)] by (simp only: of_nat_le_iff)
  have q: "q = push_bit j (of_nat (2 * Q))" using Suc.prems(2) by (simp add: push_bit_eq_mult)
  show ?case
  proof (cases "unat d \<le> unat ?r")
    case True
    have sub: "unat (?r - d) = unat ?r - unat d" using True by (simp add: unat_sub word_le_nat_alt)
    have "divmod_loop n d j (?r - d) (q OR push_bit j 1) = (of_nat (unat n mod unat d), of_nat (unat n div unat d))"
    proof (rule Suc.IH [where Q = "2 * Q + 1"])
      show "unat (?r - d) < unat d" unfolding sub using ur Suc.prems(1) by (simp split: if_splits)
      show "q OR push_bit j 1 = push_bit j (of_nat (2 * Q + 1))" unfolding Suc.prems(2) by (rule quotient_bit)
      show "(2 * Q + 1) * unat d + unat (?r - d) = unat n div 2 ^ j" unfolding sub nj using True by (simp add: algebra_simps)
    qed
    then show ?thesis using True cmp by (simp only: divmod_loop.simps Let_def if_True)
  next
    case False
    have "divmod_loop n d j ?r q = (of_nat (unat n mod unat d), of_nat (unat n div unat d))"
      by (rule Suc.IH [where Q = "2 * Q"]) (use False q nj in simp_all)
    then show ?thesis using False cmp by (simp only: divmod_loop.simps Let_def if_False)
  qed
qed

lemma ucast_of_unat: "ucast w = word_of_nat (unat w)"
  by (metis ucast_eq of_nat_unat of_int_of_nat_eq)

lemma uint64divmod_small:
  assumes "(n :: u64) \<le> 0xFFFFFFFF"
  shows "ucast n mod d = (of_nat (unat n mod unat d) :: u32)" "ucast (ucast n div d :: u32) = (of_nat (unat n div unat d) :: u64)"
proof -
  have "unat n \<le> 0xFFFFFFFF" using assms by (simp add: word_le_nat_alt)
  then have u: "unat (ucast n :: u32) = unat n" by (simp add: unsigned_ucast_eq take_bit_nat_eq_self)
  show "ucast n mod d = (of_nat (unat n mod unat d) :: u32)" by (simp only: word_arith_nat_mod u)
  have "unat (ucast n div d) = unat n div unat d" by (simp only: unat_div u)
  then show "ucast (ucast n div d :: u32) = (of_nat (unat n div unat d) :: u64)" by (simp only: ucast_of_unat)
qed

lemma low_bits_mod: "ucast ((n :: u64) AND mask k) = (of_nat (unat n mod 2 ^ k) :: u32)"
proof -
  have "unat (n AND mask k) = take_bit k (unat n)" by (simp only: take_bit_eq_mask [symmetric] unsigned_take_bit_eq)
  then show ?thesis by (simp only: ucast_of_unat take_bit_eq_mod)
qed

lemma drop_bits_div: "drop_bit k (n :: u64) = of_nat (unat n div 2 ^ k)"
proof -
  have "take_bit 64 (unat n) = unat n" using unat_lt64 [of n] by (intro take_bit_nat_eq_self) simp
  then have "unat (drop_bit k n) = unat n div 2 ^ k" by (simp only: unsigned_drop_bit_eq) (simp add: drop_bit_eq_div)
  then show ?thesis by (metis ucast_of_unat ucast_id)
qed

text \<open>Leading zeros of the dividend leave the loop as it is.\<close>

lemma divmod_idle:
  assumes "d \<noteq> 0" "\<not> d <=s 0" "\<forall>j. k \<le> j \<and> j < i \<longrightarrow> \<not> bit n j" "k \<le> i"
  shows "divmod_loop n d i 0 q = divmod_loop n d k 0 q"
  using assms(3,4)
proof (induction i)
  case (Suc i)
  then show ?case using assms(1,2) by (cases "k = Suc i") (auto simp: Let_def)
qed simp

section \<open>Properties\<close>

text \<open>\<open>strcasecmp\<close> compares up to the case of letters: it returns zero exactly when the two strings,
  each up to its terminator, agree letter by letter in lower case, and so does \<open>strncasecmp\<close> for
  their first \<open>n\<close> characters.\<close>

theorem strcasecmp_correct:
  "(strcasecmp s1 s2 = 0 \<longleftrightarrow> map lower (cstr s1) = map lower (cstr s2)) \<and>
   (strncasecmp s1 s2 n = 0 \<longleftrightarrow> map lower (take n (cstr s1)) = map lower (take n (cstr s2)))"
  by (simp add: strcasecmp_eq_0 strncasecmp_eq_0)

text \<open>\<open>strtoi\<close> reads back numerals: the decimal numeral of a number, the same after a minus sign, and
  its hexadecimal numeral after \<open>0x\<close> are read as that number modulo \<open>2\<^sup>3\<^sup>2\<close>, and the end
  pointer is left where the numeral ends.\<close>

theorem strtoi_reads_numerals:
  assumes "digit_value 10 (chr rest) = None" and "digit_value 16 (chr rest') = None" and "cur rest \<noteq> 120"
  shows "strtoi (numeral_of 10 n @ rest) 0 = (of_nat n, rest) \<and>
    strtoi (45 # numeral_of 10 n @ rest) 0 = (- of_nat n, rest) \<and>
    strtoi (48 # 120 # numeral_of 16 n @ rest') 0 = (of_nat n, rest')"
proof (intro conjI)
  obtain v where v: "cur (numeral_of 10 n @ rest) = digit_char v" "v < 10" "n \<noteq> 0 \<Longrightarrow> v \<noteq> 0" "numeral_of 10 n \<noteq> []"
    "n = 0 \<Longrightarrow> numeral_of 10 n = [digit_char 0]"
    by (rule numeral_of_head [of 10 n rest]) auto
  have c: "chr (numeral_of 10 n @ rest) = 48 + int v" using v(2) chr_digit [of v, OF _ v(1)] by simp
  have sk: "skip_space (numeral_of 10 n @ rest) = (chr (numeral_of 10 n @ rest), tl (numeral_of 10 n @ rest))"
    by (rule skip_space_none) (use c v(2) in \<open>simp add: isspace_def\<close>)
  have "\<not> (chr (numeral_of 10 n @ rest) = 48 \<and> cur (tl (numeral_of 10 n @ rest)) = 120)"
    using c v(3,5) assms(3) by (cases "n = 0") auto
  then show "strtoi (numeral_of 10 n @ rest) 0 = (of_nat n, rest)"
    using number_loop_reads [of 10 rest n "numeral_of 10 n @ rest"] assms(1) sk c
    by (auto simp: strtoi_def)
  have m: "skip_space (45 # numeral_of 10 n @ rest) = (45, numeral_of 10 n @ rest)"
    by (subst skip_space_none) (simp_all add: isspace_def chr_def cur_def)
  show "strtoi (45 # numeral_of 10 n @ rest) 0 = (- of_nat n, rest)"
    using number_loop_reads [of 10 rest n "45 # numeral_of 10 n @ rest", where 'a = 32] assms(1) m
    by (simp add: strtoi_def)
  have x: "skip_space (48 # 120 # numeral_of 16 n @ rest') = (48, 120 # numeral_of 16 n @ rest')"
    by (subst skip_space_none) (simp_all add: isspace_def chr_def cur_def)
  show "strtoi (48 # 120 # numeral_of 16 n @ rest') 0 = (of_nat n, rest')"
    using number_loop_reads [of 16 rest' n "48 # 120 # numeral_of 16 n @ rest'"] assms(2) x
    by (simp add: strtoi_def cur_def)
qed

theorem strtoi_reads_numerals_witness: "strtoi (numeral_of 10 4711 @ c_string '', 5'') 0 = (4711, c_string '', 5'')"
proof -
  have "digit_value 10 (chr (c_string '', 5'')) = None" "digit_value 16 (chr []) = None" "cur (c_string '', 5'') \<noteq> 120"
    by code_simp+
  from strtoi_reads_numerals [OF this] show ?thesis by simp
qed

text \<open>\<open>uint64divmod\<close> divides: for every divisor from 1 to \<open>2\<^sup>3\<^sup>0\<close> the results are the quotient
  and the remainder, on the shortcuts for 2, 16 and small dividends and in the long division alike.\<close>

theorem uint64divmod_correct:
  assumes "0 < unat d" and "unat d \<le> 2 ^ 30"
  shows "uint64divmod n d = (of_nat (unat n mod unat d), of_nat (unat n div unat d))"
proof -
  have e: "unat (2 :: u32) = 2" "unat (16 :: u32) = 16" by simp_all
  have m: "ucast (n AND 1) = (of_nat (unat n mod 2) :: u32)" "ucast (n AND 0xF) = (of_nat (unat n mod 16) :: u32)"
    using low_bits_mod [of n 1] low_bits_mod [of n 4] by (simp_all add: mask_eq_exp_minus_1)
  have d: "d \<noteq> 0" using assms(1) by auto
  consider "d = 2" | "d = 16" | "d \<noteq> 2" "d \<noteq> 16" "n \<le> 0xFFFFFFFF" | "d \<noteq> 2" "d \<noteq> 16" "\<not> n \<le> 0xFFFFFFFF" by blast
  then show ?thesis
  proof cases
    case 1
    then show ?thesis using m drop_bits_div [of 1 n] by (simp add: uint64divmod_def e)
  next
    case 2
    then show ?thesis using m drop_bits_div [of 4 n] by (simp add: uint64divmod_def e)
  next
    case 3
    then show ?thesis using d uint64divmod_small [OF 3(3)] by (simp add: uint64divmod_def)
  next
    case 4
    have "divmod_loop n d 64 0 0 = (of_nat (unat n mod unat d), of_nat (unat n div unat d))"
      by (rule divmod_loop_correct [OF assms, where Q = 0]) (use assms(1) unat_lt64 [of n] in simp_all)
    then show ?thesis using 4 d by (simp add: uint64divmod_def)
  qed
qed

theorem uint64divmod_correct_witness: "uint64divmod 10000000000000 1000000 = (0, 10000000)"
  using uint64divmod_correct [of 1000000 10000000000000] by simp

text \<open>The remainder of the long division is a signed 32-bit integer: for divisors above \<open>2\<^sup>3\<^sup>0\<close>
  shifting it overflows, and the results can be wrong.  Dividing \<open>2\<^sup>3\<^sup>2\<close> by \<open>2\<^sup>3\<^sup>1 - 1\<close>, quotient
  and remainder 2, yields 0 for both.\<close>

theorem uint64divmod_large_divisor:
  "uint64divmod 0x100000000 0x7FFFFFFF = (0, 0) \<and> (0x100000000 :: nat) = 2 * 0x7FFFFFFF + 2"
proof -
  have b: "\<not> bit (0x100000000 :: u64) j" if "33 \<le> j" for j
  proof -
    have "(0x100000000 :: u64) = push_bit 32 1" by (simp add: push_bit_eq_mult)
    then show ?thesis using that by (simp only: bit_push_bit_iff bit_1_iff) simp
  qed
  have s: "\<not> (0x7FFFFFFF :: u32) <=s 0" by code_simp
  have "divmod_loop 0x100000000 0x7FFFFFFF 64 0 0 = divmod_loop 0x100000000 0x7FFFFFFF 33 0 0"
    by (rule divmod_idle) (use b s in auto)
  also have "\<dots> = (0, 0)" by code_simp
  finally show ?thesis by (simp add: uint64divmod_def)
qed

end
