(* ===== verification/Base32.thy ===== *)
theory Base32
  imports C_Strings
begin

text \<open>
  The base-32 coder of \<open>src/common/base32.c\<close>, with an optional 5-bit CRC after every group of symbols.  Strings are
  lists of bytes without the terminator; the destination of the decoder is the byte buffer it writes to.
\<close>

section \<open>Model\<close>

definition crc5_table1 :: "u8 list" where
  "crc5_table1 = [0x00, 0x0E, 0x1C, 0x12, 0x11, 0x1F, 0x0D, 0x03, 0x0B, 0x05, 0x17, 0x19, 0x1A, 0x14, 0x06, 0x08]"

definition crc5_table0 :: "u8 list" where
  "crc5_table0 = [0x00, 0x16, 0x05, 0x13, 0x0A, 0x1C, 0x0F, 0x19, 0x14, 0x02, 0x11, 0x07, 0x1E, 0x08, 0x1B, 0x0D]"

definition crc5_sym :: "u8 \<Rightarrow> u8 \<Rightarrow> u8" where
  "crc5_sym symb previous_crc =
     (let tmp = symb XOR previous_crc
      in crc5_table1 ! unat (tmp AND 0x0F) XOR crc5_table0 ! unat (drop_bit 4 tmp AND 0x0F))"

definition base32_map :: bytes where
  "base32_map = c_string ''ABCDEFGHJKLMNPQRSTUVWXYZ23456789''"

definition decode_sym :: "u8 \<Rightarrow> u8 option" where
  "decode_sym symb = map_option of_nat (find (\<lambda>i. symb = base32_map ! i) [0..<32])"

text \<open>The symbol of the five bits from bit \<open>i\<close> on; bytes are numbered from their top bit.  The byte behind the
  source, which the code may read for the last symbol, is \<open>cur\<close> of the rest of the list.\<close>

definition encode_sym :: "bytes \<Rightarrow> nat \<Rightarrow> nat \<Rightarrow> u8" where
  "encode_sym src srclen_bits i =
     (let sidx = i div 8; bit_offs = i mod 8; byte = (\<lambda>k. ucast (cur (drop k src)) :: u32);
          sym0 = (if bit_offs \<le> 3 then drop_bit (3 - bit_offs) (byte sidx)
                  else push_bit (bit_offs - 3) (byte sidx) OR
                       (if i + 1 < srclen_bits then drop_bit (11 - bit_offs) (byte (sidx + 1)) else 0));
          sym1 = sym0 AND 0x1F
      in ucast (if srclen_bits - i < 5 then sym1 AND push_bit (5 + i - srclen_bits) 0x1F else sym1))"

function encode_loop :: "bytes \<Rightarrow> nat \<Rightarrow> nat \<Rightarrow> nat \<Rightarrow> u8 \<Rightarrow> nat \<Rightarrow> bytes" where
  "encode_loop src srclen_bits every i crc crc_count =
     (if i < srclen_bits
      then
        (let symb = encode_sym src srclen_bits i; out = base32_map ! unat symb; crc' = crc5_sym symb crc
         in if every \<noteq> 0
            then if crc_count + 1 = every
                 then out # base32_map ! unat crc' # encode_loop src srclen_bits every (i + 5) 0 0
                 else out # encode_loop src srclen_bits every (i + 5) crc' (crc_count + 1)
            else out # encode_loop src srclen_bits every (i + 5) crc crc_count)
      else [])"
  by auto
termination by (relation "measure (\<lambda>(src, n, every, i, crc, cnt). n - i)") auto

definition base32_encode :: "nat \<Rightarrow> bytes \<Rightarrow> nat \<Rightarrow> nat \<Rightarrow> ec_error \<times> bytes" where
  "base32_encode destlen_chars src srclen_bits add_crc_every =
     (let syms = (srclen_bits + 4) div 5
      in if add_crc_every \<noteq> 0 \<and> syms mod add_crc_every \<noteq> 0 then (EC_ERROR_INVAL, [])
         else
           (let destlen_needed = (if add_crc_every \<noteq> 0 then syms + syms div add_crc_every else syms) + 1
            in if destlen_chars < destlen_needed then (EC_ERROR_INVAL, [])
               else (EC_SUCCESS, encode_loop src srclen_bits add_crc_every 0 0 0)))"

text \<open>Store up to five bits of a symbol at bit \<open>out_bits\<close> of the destination.\<close>

definition decode_store :: "bytes \<Rightarrow> nat \<Rightarrow> u8 \<Rightarrow> nat \<Rightarrow> bytes \<times> nat" where
  "decode_store dest destlen_bits sym0 out_bits =
     (let sbits = min 5 (destlen_bits - out_bits);
          symb = (if sbits < 5 then drop_bit (5 - sbits) (ucast sym0 :: u32) else ucast sym0);
          dbits = 8 - out_bits mod 8;
          b = min dbits sbits;
          dest1 = (if dbits = 8 then dest[out_bits div 8 := 0] else dest);
          dest2 = dest1[out_bits div 8 := dest1 ! (out_bits div 8) OR
                          ucast (drop_bit (sbits - b) (push_bit (dbits - b) symb))];
          out1 = out_bits + b;
          sbits1 = sbits - b
      in if sbits1 > 0 then (dest2[out1 div 8 := ucast (push_bit (8 - sbits1) symb)], out1 + sbits1)
         else (dest2, out1))"

text \<open>\<open>None\<close> is the result \<open>-1\<close>; otherwise the number of bits and the destination.\<close>

fun decode_loop :: "bytes \<Rightarrow> nat \<Rightarrow> nat \<Rightarrow> bytes \<Rightarrow> u8 \<Rightarrow> nat \<Rightarrow> nat \<Rightarrow> (nat \<times> bytes) option" where
  "decode_loop dest destlen_bits every [] crc crc_count out_bits =
     (if every \<noteq> 0 \<and> crc_count \<noteq> 0 then None else Some (out_bits, dest))"
| "decode_loop dest destlen_bits every (c # src) crc crc_count out_bits =
     (if c = 0 then (if every \<noteq> 0 \<and> crc_count \<noteq> 0 then None else Some (out_bits, dest))
      else if isspace (uint c) \<or> c = 45 then decode_loop dest destlen_bits every src crc crc_count out_bits
      else case decode_sym c of
             None \<Rightarrow> None
           | Some symb \<Rightarrow>
               (if every \<noteq> 0 \<and> crc_count = every
                then if crc \<noteq> symb then None else decode_loop dest destlen_bits every src 0 0 out_bits
                else
                  (let crc' = (if every \<noteq> 0 then crc5_sym symb crc else crc);
                       crc_count' = (if every \<noteq> 0 then crc_count + 1 else crc_count)
                   in if out_bits \<ge> destlen_bits
                      then (if every \<noteq> 0 \<and> crc_count' \<noteq> 0 then None else Some (out_bits, dest))
                      else case decode_store dest destlen_bits symb out_bits of
                             (dest', out') \<Rightarrow> decode_loop dest' destlen_bits every src crc' crc_count' out')))"

definition base32_decode :: "bytes \<Rightarrow> nat \<Rightarrow> bytes \<Rightarrow> nat \<Rightarrow> (nat \<times> bytes) option" where
  "base32_decode dest destlen_bits src crc_after_every = decode_loop dest destlen_bits crc_after_every src 0 0 0"

section \<open>Bits\<close>

text \<open>Bit \<open>k\<close> of a buffer, from the top bit of the first byte.\<close>

definition bit_at :: "bytes \<Rightarrow> nat \<Rightarrow> bool" where
  "bit_at bs k \<longleftrightarrow> bit (cur (drop (k div 8) bs)) (7 - k mod 8)"

lemma bit_at_nth: "k div 8 < length bs \<Longrightarrow> bit_at bs k \<longleftrightarrow> bit (bs ! (k div 8)) (7 - k mod 8)"
  by (simp add: bit_at_def cur_def flip: Cons_nth_drop_Suc)

lemma bit_0x1F: "bit (0x1F :: u32) n \<longleftrightarrow> n < 5"
proof -
  have a: "(mask 5 :: u32) = 0x1F" by (simp add: mask_eq_exp_minus_1)
  have "bit (mask 5 :: u32) n \<longleftrightarrow> n < 5" by (simp only: bit_mask_iff) auto
  then show ?thesis unfolding a .
qed

lemma bit_u8: "bit (b :: u8) n \<Longrightarrow> n < 8"
  using bit_imp_le_length [of b n] by simp

text \<open>The symbol at \<open>i\<close> holds the next five bits, zero beyond the end.\<close>

lemma bit_encode_sym_cases:
  assumes "m < 5"
  shows
  "bit (encode_sym src n i) m \<longleftrightarrow>
     (n - i < 5 \<longrightarrow> 5 + i - n \<le> m) \<and>
     (if i mod 8 \<le> 3 then bit (cur (drop (i div 8) src)) (3 - i mod 8 + m)
      else i mod 8 - 3 \<le> m \<and> bit (cur (drop (i div 8) src)) (m - (i mod 8 - 3)) \<or>
           i + 1 < n \<and> bit (cur (drop (i div 8 + 1) src)) (11 - i mod 8 + m))"
proof -
  have hi: "bit (ucast (b :: u8) :: u32) k = bit b k" for b k
    using bit_u8 [of b k] by (auto simp: bit_ucast_iff)
  have lo: "bit (ucast (w :: u32) :: u8) m = bit w m" if "m < 5" for w using that by (simp add: bit_ucast_iff)
  have ms: "bit (w AND 0x1F) m = bit w m" if "m < 5" for w :: u32 using that by (simp only: bit_and_iff bit_0x1F simp_thms)
  have pad: "bit (w AND push_bit k 0x1F) m = (bit w m \<and> k \<le> m)" if "m < 5" for w :: u32 and k
    using that by (auto simp only: bit_and_iff bit_push_bit_iff bit_0x1F possible_bit_word) simp
  show ?thesis
    unfolding encode_sym_def Let_def lo [OF assms] if_distrib [of "\<lambda>w. bit w m"] pad [OF assms] ms [OF assms]
      bit_or_iff bit_drop_bit_eq bit_push_bit_iff hi comp_def
    using assms by auto
qed

lemma near_byte: "(i :: nat) mod 8 + k < 8 \<Longrightarrow> (i + k) div 8 = i div 8 \<and> (i + k) mod 8 = i mod 8 + k"
proof -
  assume lt: "i mod 8 + k < 8"
  have "i + k = 8 * (i div 8) + (i mod 8 + k)" by simp
  with lt show ?thesis by (simp only: div_mult_self4 mod_mult_self4 div_less mod_less) simp
qed

lemma far_byte:
  assumes "\<not> (i :: nat) mod 8 + k < 8" "k < 9"
  shows "(i + k) div 8 = i div 8 + 1 \<and> (i + k) mod 8 = i mod 8 + k - 8"
proof -
  define j where "j = i mod 8 + k - 8"
  with assms have j: "i mod 8 + k = j + 8" "j < 8" by (auto simp: less_diff_conv2 intro: add_less_mono)
  then have "i + k = 8 * (i div 8 + 1) + j" by (metis div_mult_mod_eq add.assoc add.commute mult.commute
        distrib_left mult_1)
  with j show ?thesis by (simp only: div_mult_self4 mod_mult_self4 div_less mod_less) simp
qed

lemma bit_encode_sym:
  assumes "i < n"
  shows "bit (encode_sym src n i) m \<longleftrightarrow> m < 5 \<and> i + (4 - m) < n \<and> bit_at src (i + (4 - m))"
proof (cases "m < 5")
  case True
  define r where "r = i mod 8"
  have r: "r < 8" by (simp add: r_def)
  have top: "(n - i < 5 \<longrightarrow> 5 + i - n \<le> m) \<longleftrightarrow> i + (4 - m) < n" using True assms by auto
  show ?thesis
  proof (cases "r + (4 - m) < 8")
    case near: True
    have x: "7 - (r + (4 - m)) = (if r \<le> 3 then 3 - r + m else m - (r - 3))" using True near by auto
    have y: "r - 3 \<le> m \<and> \<not> bit (b :: u8) (11 - r + m)" if "\<not> r \<le> 3" for b
      using True near that bit_u8 [of b "11 - r + m"] by auto
    have "bit_at src (i + (4 - m)) = bit (cur (drop (i div 8) src)) (7 - (r + (4 - m)))"
      using near_byte [of i "4 - m"] near by (simp only: bit_at_def flip: r_def) 
    then show ?thesis
      unfolding bit_encode_sym_cases [OF True] top r_def [symmetric] x using y True by (cases "r \<le> 3") auto
  next
    case far: False
    have x: "\<not> r \<le> 3" "7 - (r + (4 - m) - 8) = 11 - r + m" "\<not> r - 3 \<le> m" using True far r by auto
    have z: "i + 1 < n" if "i + (4 - m) < n" using that far r by auto
    have "bit_at src (i + (4 - m)) = bit (cur (drop (i div 8 + 1) src)) (7 - (r + (4 - m) - 8))"
      using far_byte [of i "4 - m"] far by (simp only: bit_at_def flip: r_def) auto
    then show ?thesis
      unfolding bit_encode_sym_cases [OF True] top r_def [symmetric] x(2) using x(1,3) z True by auto
  qed
next
  case False
  then have "\<not> bit (w AND 0x1F) m" for w :: u32 by (simp only: bit_and_iff bit_0x1F simp_thms)
  with False show ?thesis
    by (simp only: encode_sym_def Let_def bit_ucast_iff if_distrib [of "\<lambda>w. bit w m"] bit_and_iff [of _ "push_bit _ _"]
        if_cancel simp_thms)
qed

section \<open>Storing the bits of a symbol\<close>

lemma bit_at_update:
  "q < length bs \<Longrightarrow> bit_at (bs[q := v]) k \<longleftrightarrow> (if k div 8 = q then bit v (7 - k mod 8) else bit_at bs k)"
  by (cases "k div 8 < length bs") (auto simp: bit_at_nth, auto simp: bit_at_def cur_def)

lemma symbol_lt: "(s :: u8) < 32 \<longleftrightarrow> unat s < 32"
  by (simp add: word_less_nat_alt)

lemma symbol_take_bit: "(s :: u8) < 32 \<longleftrightarrow> take_bit 5 s = s"
proof -
  have "unat (take_bit 5 s) = take_bit 5 (unat s)" by (simp add: unsigned_take_bit_eq)
  then have "take_bit 5 s = s \<longleftrightarrow> take_bit 5 (unat s) = unat s" by (simp add: word_unat_eq_iff)
  also have "\<dots> \<longleftrightarrow> unat s < 2 ^ 5" by (simp only: take_bit_nat_eq_self_iff)
  finally show ?thesis by (simp add: symbol_lt)
qed

lemma five_bits: "bit (s :: u8) n \<Longrightarrow> s < 32 \<Longrightarrow> n < 5"
  by (metis symbol_take_bit bit_take_bit_iff)

lemma xor_symbols: "(s :: u8) < 32 \<Longrightarrow> c < 32 \<Longrightarrow> s XOR c < 32"
  by (simp add: symbol_take_bit)

lemma bit_u8_u32: "bit (ucast (b :: u8) :: u32) k = bit b k"
  using bit_u8 [of b k] by (auto simp: bit_ucast_iff)

lemma bit_head_byte:
  assumes "(s :: u8) < 32" "sb \<le> 5" "0 < sb" "r < 8" "j < 8"
  defines "b \<equiv> min (8 - r) sb"
  shows "bit (ucast (drop_bit (sb - b) (push_bit (8 - r - b) (drop_bit (5 - sb) (ucast s :: u32)))) :: u8) j \<longleftrightarrow>
           8 \<le> j + r + sb \<and> bit s (j + r - 3)"
proof (cases "8 - r \<le> sb")
  case True
  then have "5 - sb + (sb - b + j - (8 - r - b)) = j + r - 3" "8 - r - b \<le> sb - b + j" "8 \<le> j + r + sb" "sb - b + j < 32"
    using assms by auto
  then show ?thesis
    using assms(5) bit_u8 [of s "j + r - 3"]
    by (auto simp: bit_ucast_iff bit_drop_bit_eq bit_push_bit_iff bit_u8_u32 comp_def simp del: diff_diff_left)
next
  case False
  then have "5 - sb + (sb - b + j - (8 - r - b)) = j + r - 3" if "8 \<le> j + r + sb" using that assms by auto
  moreover have "8 - r - b \<le> sb - b + j \<longleftrightarrow> 8 \<le> j + r + sb" "sb - b + j < 32" using False assms by auto
  ultimately show ?thesis
    using assms(5) bit_u8 [of s "j + r - 3"]
    by (auto simp: bit_ucast_iff bit_drop_bit_eq bit_push_bit_iff bit_u8_u32 comp_def simp del: diff_diff_left)
qed

lemma bit_tail_byte:
  assumes "s < 32" "sb \<le> 5" "8 - r < sb" "r < 8" "j < 8"
  shows "bit (ucast (push_bit (8 - (sb - (8 - r))) (drop_bit (5 - sb) (ucast (s :: u8) :: u32))) :: u8) j \<longleftrightarrow>
           16 \<le> j + r + sb \<and> bit s (j + r - 11)"
proof -
  have "5 - sb + (j - (8 - (sb - (8 - r)))) = j + r - 11" if "16 \<le> j + r + sb" using that assms by auto
  moreover have "8 - (sb - (8 - r)) \<le> j \<longleftrightarrow> 16 \<le> j + r + sb" using assms by auto
  ultimately show ?thesis
    using assms(5) by (auto simp: bit_ucast_iff bit_drop_bit_eq bit_push_bit_iff bit_u8_u32 comp_def simp del: diff_diff_left)
qed

text \<open>A symbol changes the byte that is being filled and, if it does not fit, starts the next one.\<close>

definition head_byte :: "u8 \<Rightarrow> nat \<Rightarrow> nat \<Rightarrow> u8 \<Rightarrow> u8" where
  "head_byte old r sb s =
     (let b = min (8 - r) sb
      in (if r = 0 then 0 else old) OR
         ucast (drop_bit (sb - b) (push_bit (8 - r - b) (drop_bit (5 - sb) (ucast s :: u32)))))"

definition tail_byte :: "nat \<Rightarrow> nat \<Rightarrow> u8 \<Rightarrow> u8" where
  "tail_byte r sb s = ucast (push_bit (8 - (sb - (8 - r))) (drop_bit (5 - sb) (ucast s :: u32)))"

definition stored :: "bytes \<Rightarrow> nat \<Rightarrow> nat \<Rightarrow> u8 \<Rightarrow> bytes" where
  "stored dest out sb s =
     (let q = out div 8; r = out mod 8; d = dest[q := head_byte (dest ! q) r sb s]
      in if 8 - r < sb then d[q + 1 := tail_byte r sb s] else d)"

lemma length_stored [simp]: "length (stored dest out sb s) = length dest"
  by (simp add: stored_def Let_def)

lemma decode_store_stored:
  assumes "sb = min 5 (n - out)" "out < n" "n \<le> 8 * length dest"
  shows "decode_store dest n s out = (stored dest out sb s, out + sb)"
proof -
  define q r where "q = out div 8" and "r = out mod 8"
  have r: "r < 8" "out = 8 * q + r" by (simp_all add: q_def r_def)
  have q: "q < length dest" using assms r by auto
  have cut: "(if sb < 5 then drop_bit (5 - sb) (ucast s :: u32) else ucast s) = drop_bit (5 - sb) (ucast s)"
    using assms(1) by auto
  have old: "(if 8 - r = 8 then dest[q := 0] else dest)[q := (if 8 - r = 8 then dest[q := 0] else dest) ! q OR w] =
             dest[q := (if r = 0 then 0 else dest ! q) OR w]" for w using r q by auto
  have nxt: "(out + (8 - r)) div 8 = q + 1" using r by simp
  show ?thesis
  proof (cases "8 - r < sb")
    case True
    then have b: "min (8 - r) sb = 8 - r" "0 < sb - (8 - r)" by simp_all
    show ?thesis
      unfolding decode_store_def stored_def Let_def assms(1) [symmetric] q_def [symmetric] r_def [symmetric] cut old b(1)
        nxt head_byte_def tail_byte_def
      using True b by simp
  next
    case False
    then have b: "min (8 - r) sb = sb" by simp
    show ?thesis
      unfolding decode_store_def stored_def Let_def assms(1) [symmetric] q_def [symmetric] r_def [symmetric] cut old b
        head_byte_def
      using False by simp
  qed
qed

lemma bit_head: "\<lbrakk>s < 32; sb \<le> 5; 0 < sb; r < 8; j < 8\<rbrakk> \<Longrightarrow>
  bit (head_byte old r sb s) j \<longleftrightarrow> r \<noteq> 0 \<and> bit old j \<or> 8 \<le> j + r + sb \<and> bit s (j + r - 3)"
  unfolding head_byte_def Let_def bit_or_iff by (subst bit_head_byte) auto

lemma bit_tail: "\<lbrakk>s < 32; sb \<le> 5; 8 - r < sb; r < 8; j < 8\<rbrakk> \<Longrightarrow>
  bit (tail_byte r sb s) j \<longleftrightarrow> 16 \<le> j + r + sb \<and> bit s (j + r - 11)"
  unfolding tail_byte_def by (rule bit_tail_byte)

text \<open>\<open>clean_rest dest out\<close>: the rest of a byte that has been started is zero.  \<open>room\<close> says that the bits of the
  symbol fit.\<close>

definition clean_rest :: "bytes \<Rightarrow> nat \<Rightarrow> bool" where
  "clean_rest dest out \<longleftrightarrow> (\<forall>j. out mod 8 \<noteq> 0 \<longrightarrow> j < 8 - out mod 8 \<longrightarrow> \<not> bit (dest ! (out div 8)) j)"

definition room :: "bytes \<Rightarrow> nat \<Rightarrow> nat \<Rightarrow> u8 \<Rightarrow> bool" where
  "room dest out sb s \<longleftrightarrow> 0 < sb \<and> sb \<le> 5 \<and> s < 32 \<and> out + sb \<le> 8 * length dest"

lemma stored_at:
  assumes "room dest out sb s"
  shows "bit_at (stored dest out sb s) k = (let q = out div 8; r = out mod 8; j = 7 - k mod 8
    in if k div 8 = q then r \<noteq> 0 \<and> bit (dest ! q) j \<or> 8 \<le> j + r + sb \<and> bit s (j + r - 3)
       else if k div 8 = q + 1 \<and> 8 - r < sb then 16 \<le> j + r + sb \<and> bit s (j + r - 11) else bit_at dest k)"
proof -
  define q r where "q = out div 8" and "r = out mod 8"
  have r: "r < 8" "out = 8 * q + r" by (simp_all add: q_def r_def)
  note f = assms [unfolded room_def]
  have q: "q < length dest" "8 - r < sb \<Longrightarrow> q + 1 < length dest" using f r by auto
  have j: "7 - k mod 8 < 8" by simp
  show ?thesis
    unfolding stored_def Let_def q_def [symmetric] r_def [symmetric] using q f j r(1)
    by (auto simp: bit_at_update bit_head bit_tail)
qed

lemma stored_old:
  assumes "room dest out sb s" "k < out"
  shows "bit_at (stored dest out sb s) k = bit_at dest k"
proof (cases "k div 8 = out div 8")
  case True
  then have k: "k mod 8 < out mod 8" using assms(2) by (metis div_mult_mod_eq nat_add_left_cancel_less)
  then have "\<not> bit s (7 - k mod 8 + out mod 8 - 3)"
    using assms(1) five_bits [of s "7 - k mod 8 + out mod 8 - 3"] by (auto simp: room_def)
  moreover have "k div 8 < length dest" using True assms by (auto simp: room_def)
  ultimately show ?thesis using True k by (simp add: stored_at [OF assms(1)] Let_def bit_at_nth)
next
  case False
  moreover have "k div 8 \<noteq> out div 8 + 1" using div_le_mono [of k out 8] assms(2) by simp
  ultimately show ?thesis by (simp add: stored_at [OF assms(1)] Let_def)
qed

lemma stored_new:
  assumes "room dest out sb s" "clean_rest dest out" "out \<le> k" "k < out + sb"
  shows "bit_at (stored dest out sb s) k = bit s (4 - (k - out))"
proof -
  define q r j where "q = out div 8" and "r = out mod 8" and "j = k mod 8"
  have r: "r < 8" "out = 8 * q + r" and j: "j < 8" by (simp_all add: q_def r_def j_def)
  have sb: "0 < sb" "sb \<le> 5" using assms(1) by (simp_all add: room_def)
  show ?thesis
  proof (cases "k div 8 = q")
    case True
    then have "k = 8 * q + j" by (metis j_def mult_div_mod_eq)
    with assms(3,4) r j have "7 - j + r - 3 = 4 - (k - out)" "7 - j < 8 - r" "8 \<le> 7 - j + r + sb" by auto
    with True assms(2) show ?thesis
      by (auto simp: stored_at [OF assms(1)] Let_def clean_rest_def simp flip: j_def q_def r_def)
  next
    case False
    then have q1: "k div 8 = q + 1" using assms(3,4) r sb by auto
    then have "k = 8 * (q + 1) + j" by (metis j_def mult_div_mod_eq)
    with assms(3,4) r j have "7 - j + r - 11 = 4 - (k - out)" "16 \<le> 7 - j + r + sb" "8 - r < sb" by auto
    with False q1 show ?thesis by (simp add: stored_at [OF assms(1)] Let_def flip: j_def q_def r_def)
  qed
qed

lemma stored_clean:
  assumes "room dest out sb s" "clean_rest dest out"
  shows "clean_rest (stored dest out sb s) (out + sb)"
proof -
  define q r where "q = out div 8" and "r = out mod 8"
  have r: "r < 8" "out = 8 * q + r" by (simp_all add: q_def r_def)
  note f = assms(1) [unfolded room_def]
  have q: "q < length dest" "8 - r < sb \<Longrightarrow> q + 1 < length dest" using f r by auto
  consider "8 - r < sb" | "sb = 8 - r" | "sb < 8 - r" by linarith
  then show ?thesis
  proof cases
    case 1
    then have e: "out + sb = 8 * (q + 1) + (r + sb - 8)" "r + sb - 8 < 8" using f r by auto
    have "(out + sb) div 8 = q + 1" "(out + sb) mod 8 = r + sb - 8"
      unfolding e(1) using e(2) by (simp_all only: div_mult_self4 mod_mult_self4 div_less mod_less)
    then show ?thesis using 1 q f r(1) by (auto simp: clean_rest_def stored_def Let_def bit_tail simp flip: q_def r_def)
  next
    case 2
    then have "out + sb = 8 * (q + 1)" using r by auto
    then have "(out + sb) mod 8 = 0" by (simp only: mod_mult_self1_is_0)
    then show ?thesis by (simp add: clean_rest_def)
  next
    case 3
    then have e: "out + sb = 8 * q + (r + sb)" "r + sb < 8" using r by auto
    have "(out + sb) div 8 = q" "(out + sb) mod 8 = r + sb"
      unfolding e(1) using e(2) by (simp_all only: div_mult_self4 mod_mult_self4 div_less mod_less)
    moreover have "\<not> bit (head_byte (dest ! q) r sb s) j" if "j < 8 - (r + sb)" for j
      using that assms(2) f r(1) by (subst bit_head) (auto simp: clean_rest_def simp flip: q_def r_def)
    ultimately show ?thesis using 3 q by (simp add: clean_rest_def stored_def Let_def flip: q_def r_def)
  qed
qed

lemma decode_store_ok:
  assumes "out < n" "n \<le> 8 * length dest" "s < 32" "clean_rest dest out"
  obtains d where "decode_store dest n s out = (d, min (out + 5) n)" "length d = length dest"
    "\<And>k. k < out \<Longrightarrow> bit_at d k = bit_at dest k"
    "\<And>k. out \<le> k \<Longrightarrow> k < min (out + 5) n \<Longrightarrow> bit_at d k = bit s (4 - (k - out))"
    "clean_rest d (min (out + 5) n)"
proof -
  define sb where "sb = min 5 (n - out)"
  have room: "room dest out sb s" and e: "min (out + 5) n = out + sb" using assms by (auto simp: room_def sb_def)
  show thesis
    using decode_store_stored [OF sb_def assms(1,2)] stored_old [OF room] stored_new [OF room assms(4)]
      stored_clean [OF room assms(4)] e by (intro that [of "stored dest out sb s"]) auto
qed

section \<open>Symbols and the CRC\<close>

lemma base32_map_bytes:
  "base32_map = [65, 66, 67, 68, 69, 70, 71, 72, 74, 75, 76, 77, 78, 80, 81, 82, 83, 84, 85, 86, 87, 88, 89, 90,
     50, 51, 52, 53, 54, 55, 56, 57]"
  by (simp add: base32_map_def c_string_def)

lemma base32_map_distinct: "distinct base32_map" "length base32_map = 32"
  by (simp_all add: base32_map_bytes)

lemma decode_map:
  assumes "s < 32"
  shows "decode_sym (base32_map ! unat s) = Some s"
proof -
  have "find (\<lambda>i. base32_map ! unat s = base32_map ! i) [0..<32] = Some (unat s)"
    using assms base32_map_distinct by (auto simp: find_Some_iff symbol_lt nth_eq_iff_index_eq intro!: exI [of _ "unat s"])
  then show ?thesis by (simp add: decode_sym_def)
qed

lemma map_printable:
  assumes "(s :: u8) < 32"
  defines "c \<equiv> base32_map ! unat s"
  shows "c \<noteq> 0" "\<not> isspace (uint c)" "c \<noteq> 45"
proof -
  have "c \<in> set base32_map" unfolding c_def using assms(1) by (intro nth_mem) (simp add: symbol_lt base32_map_distinct)
  moreover have "\<forall>c\<in>set base32_map. c \<noteq> 0 \<and> \<not> isspace (uint c) \<and> c \<noteq> 45" by (simp add: base32_map_bytes isspace_def)
  ultimately show "c \<noteq> 0" "\<not> isspace (uint c)" "c \<noteq> 45" by blast+
qed

lemma decode_sym_range:
  assumes "decode_sym c = Some s"
  shows "s < 32 \<and> c = base32_map ! unat s"
proof -
  obtain i where i: "i < 32" "c = base32_map ! i" "s = of_nat i"
    using assms by (auto simp: decode_sym_def find_Some_iff)
  then have "unat s = i" by (simp add: unat_of_nat)
  with i show ?thesis by (simp add: symbol_lt)
qed

text \<open>The CRC step depends on the exclusive or of the symbol and the register and is a permutation of the 32
  symbols, so a changed symbol changes the register and no later symbol hides it.\<close>

lemma crc5_values:
  "map (\<lambda>i. crc5_sym (of_nat i) 0) [0..<32] =
     [0, 14, 28, 18, 17, 31, 13, 3, 11, 5, 23, 25, 26, 20, 6, 8, 22, 24, 10, 4, 7, 9, 27, 21, 29, 19, 1, 15, 12, 2, 16, 30]"
  by (simp add: upt_rec crc5_sym_def crc5_table0_def crc5_table1_def)

lemma crc5_nth: "x < 32 \<Longrightarrow> crc5_sym x 0 = map (\<lambda>i. crc5_sym (of_nat i) 0) [0..<32] ! unat x"
  by (simp add: symbol_lt)

lemma crc5_xor: "crc5_sym s c = crc5_sym (s XOR c) 0"
  by (simp add: crc5_sym_def)

lemma crc5_range: 
  assumes "s < 32" "c < 32"
  shows "crc5_sym s c < 32"
proof -
  have "crc5_sym s c \<in> set (map (\<lambda>i. crc5_sym (of_nat i) 0) [0..<32])"
    using xor_symbols [OF assms] by (subst crc5_xor, subst crc5_nth) (simp_all only: symbol_lt nth_mem length_map length_upt diff_zero)
  then show ?thesis unfolding crc5_values by auto
qed

lemma crc5_inj:
  assumes "s < 32" "c < 32" "s' < 32" "c' < 32" "crc5_sym s c = crc5_sym s' c'"
  shows "s XOR c = s' XOR c'"
proof -
  have "distinct (map (\<lambda>i. crc5_sym (of_nat i :: u8) 0) [0..<32])" unfolding crc5_values by simp
  moreover note xor_symbols [OF assms(1,2)] xor_symbols [OF assms(3,4)] assms(5)
  ultimately have "unat (s XOR c) = unat (s' XOR c')"
    by (simp only: crc5_xor [of s c] crc5_xor [of s' c'] crc5_nth nth_eq_iff_index_eq symbol_lt length_map length_upt)
  then show ?thesis by (simp add: word_unat_eq_iff)
qed

section \<open>The decoder undoes the encoder\<close>

declare encode_loop.simps [simp del]

lemma encode_sym_range: "i < n \<Longrightarrow> encode_sym src n i < 32"
  unfolding symbol_take_bit by (rule bit_word_eqI) (auto simp: bit_take_bit_iff bit_encode_sym)

lemma decode_loop_store:
  "\<lbrakk>s < 32; every \<noteq> 0 \<Longrightarrow> cnt < every; out < n; decode_store dest n s out = (d, out')\<rbrakk> \<Longrightarrow>
   decode_loop dest n every (base32_map ! unat s # src) crc cnt out =
   decode_loop d n every src (if every \<noteq> 0 then crc5_sym s crc else crc) (if every \<noteq> 0 then cnt + 1 else cnt) out'"
  using map_printable [of s] by (auto simp: decode_map Let_def)

lemma decode_loop_crc:
  "\<lbrakk>s < 32; every \<noteq> 0\<rbrakk> \<Longrightarrow>
   decode_loop dest n every (base32_map ! unat s # src) crc every out =
   (if crc \<noteq> s then None else decode_loop dest n every src 0 0 out)"
  using map_printable [of s] by (simp add: decode_map)

declare decode_loop.simps(2) [simp del]

text \<open>The symbols that are left, and that they end with a full group.\<close>

definition symbols_left :: "nat \<Rightarrow> nat \<Rightarrow> nat" where
  "symbols_left n i = (n - i + 4) div 5"

lemma symbols_left_step:
  assumes "i < n"
  shows "symbols_left n i = Suc (symbols_left n (i + 5))"
proof (cases "n - i < 5")
  case True
  with assms have "(n - i + 4) div 5 = 1" "n - (i + 5) = 0" by (auto intro!: div_nat_eqI)
  then show ?thesis by (simp add: symbols_left_def)
next
  case False
  then have "n - i + 4 = (n - (i + 5) + 4) + 5" by auto
  then show ?thesis unfolding symbols_left_def by (simp only: div_add_self2)
qed

definition groups_fit :: "nat \<Rightarrow> nat \<Rightarrow> nat \<Rightarrow> nat \<Rightarrow> bool" where
  "groups_fit every n i cnt \<longleftrightarrow> every \<noteq> 0 \<longrightarrow> cnt < every \<and> every dvd symbols_left n i + cnt"

lemma groups_fit_next:
  assumes "groups_fit every n i cnt" "i < n" "every \<noteq> 0"
  shows "cnt + 1 = every \<Longrightarrow> groups_fit every n (i + 5) 0"
    "cnt + 1 \<noteq> every \<Longrightarrow> groups_fit every n (i + 5) (cnt + 1)"
proof -
  have e: "symbols_left n i + cnt = symbols_left n (i + 5) + (cnt + 1)" using assms(2) by (simp add: symbols_left_step)
  show "cnt + 1 = every \<Longrightarrow> groups_fit every n (i + 5) 0" "cnt + 1 \<noteq> every \<Longrightarrow> groups_fit every n (i + 5) (cnt + 1)"
    using assms(1,3) unfolding groups_fit_def e by (auto simp: dvd_add_left_iff)
qed

lemma groups_fit_end: "groups_fit every n i cnt \<Longrightarrow> \<not> i < n \<Longrightarrow> every \<noteq> 0 \<Longrightarrow> cnt = 0"
  by (auto simp: groups_fit_def symbols_left_def dest: dvd_imp_le)

lemma encode_loop_step:
  "i < n \<Longrightarrow>
   encode_loop src n every i crc cnt =
   (let s = encode_sym src n i
    in base32_map ! unat s #
       (if every = 0 then encode_loop src n every (i + 5) crc cnt
        else if cnt + 1 = every
        then base32_map ! unat (crc5_sym s crc) # encode_loop src n every (i + 5) 0 0
        else encode_loop src n every (i + 5) (crc5_sym s crc) (cnt + 1)))"
  by (simp add: encode_loop.simps [of src n every i] Let_def)

lemma encode_loop_end: "\<not> i < n \<Longrightarrow> encode_loop src n every i crc cnt = []"
  by (simp add: encode_loop.simps)

text \<open>The number of characters the encoder writes with CRC symbols.\<close>

lemma length_encode_loop:
  assumes "cnt < every"
  shows "length (encode_loop src n every i crc cnt) = symbols_left n i + (symbols_left n i + cnt) div every"
  using assms
proof (induction "n - i" arbitrary: i crc cnt rule: less_induct)
  case less
  show ?case
  proof (cases "i < n")
    case True
    let ?m = "symbols_left n (i + 5)"
    have m: "symbols_left n i = Suc ?m" using True by (rule symbols_left_step)
    show ?thesis
    proof (cases "cnt + 1 = every")
      case group: True
      have "(Suc ?m + cnt) div every = Suc (?m div every)"
        using group less.prems by (metis Suc_eq_plus1 add.commute add_Suc_shift div_add_self2 less_nat_zero_code)
      then show ?thesis using less.hyps [of "i + 5" 0] less.prems True group m by (simp add: encode_loop_step Let_def)
    next
      case False
      then show ?thesis using less.hyps [of "i + 5" "cnt + 1"] less.prems True m by (simp add: encode_loop_step Let_def)
    qed
  next
    case False
    then have "symbols_left n i = 0" by (simp add: symbols_left_def)
    then show ?thesis using less.prems False by (simp add: encode_loop_end)
  qed
qed

text \<open>One symbol of the encoder, and the CRC behind a full group, through the decoder.\<close>

lemma decode_encode_step:
  assumes "i < n" "crc < 32" "groups_fit every n i cnt" "decode_store dest n (encode_sym src n i) i = (d, out)"
  obtains crc' cnt' where "crc' < 32" "groups_fit every n (i + 5) cnt'"
    "decode_loop dest n every (encode_loop src n every i crc cnt) crc cnt i =
     decode_loop d n every (encode_loop src n every (i + 5) crc' cnt') crc' cnt' out"
proof -
  define s where "s = encode_sym src n i"
  have s: "s < 32" "crc5_sym s crc < 32"
    using encode_sym_range [OF assms(1)] crc5_range [OF _ assms(2)] by (simp_all add: s_def)
  note step = decode_loop_store [OF s(1) _ assms(1) assms(4) [folded s_def], of every cnt]
  consider "every = 0" | "every \<noteq> 0" "cnt + 1 = every" | "every \<noteq> 0" "cnt + 1 \<noteq> every" "cnt < every"
    using assms(3) by (auto simp: groups_fit_def)
  then show thesis
  proof cases
    case 1
    then show thesis
      using assms(2) step by (intro that [of crc cnt]) (simp_all add: encode_loop_step assms(1) groups_fit_def flip: s_def)
  next
    case 2
    then show thesis
      using s(2) step groups_fit_next(1) [OF assms(3,1) 2]
      by (intro that [of 0 0]) (simp_all add: encode_loop_step assms(1) Let_def decode_loop_crc flip: s_def)
  next
    case 3
    then show thesis
      using s(2) step groups_fit_next(2) [OF assms(3,1) 3(1,2)]
      by (intro that [of "crc5_sym s crc" "cnt + 1"]) (simp_all add: encode_loop_step assms(1) Let_def flip: s_def)
  qed
qed

lemma decode_encode_loop:
  assumes "n \<le> 8 * length dest" "crc < 32" "groups_fit every n i cnt"
    and "\<forall>k<min i n. bit_at dest k = bit_at src k" "clean_rest dest (min i n)"
  shows "\<exists>d. decode_loop dest n every (encode_loop src n every i crc cnt) crc cnt (min i n) = Some (n, d) \<and>
           length d = length dest \<and> (\<forall>k<n. bit_at d k = bit_at src k)"
  using assms
proof (induction "n - i" arbitrary: i crc cnt dest rule: less_induct)
  case less
  show ?case
  proof (cases "i < n")
    case False
    then show ?thesis
      using less.prems groups_fit_end [OF less.prems(3) False] by (auto simp: encode_loop_end min_absorb2)
  next
    case True
    let ?s = "encode_sym src n i"
    have out: "min i n = i" using True by simp
    obtain d where d: "decode_store dest n ?s i = (d, min (i + 5) n)" "length d = length dest"
      "\<And>k. k < i \<Longrightarrow> bit_at d k = bit_at dest k"
      "\<And>k. i \<le> k \<Longrightarrow> k < min (i + 5) n \<Longrightarrow> bit_at d k = bit ?s (4 - (k - i))" "clean_rest d (min (i + 5) n)"
      using decode_store_ok [OF True less.prems(1) encode_sym_range [OF True]] less.prems(5) out by metis
    have copied: "\<forall>k<min (i + 5) n. bit_at d k = bit_at src k"
    proof (intro allI impI)
      fix k assume "k < min (i + 5) n"
      then show "bit_at d k = bit_at src k"
        using less.prems(4) out d(3,4) by (cases "k < i") (auto simp: bit_encode_sym [OF True])
    qed
    obtain crc' cnt' where "crc' < 32" "groups_fit every n (i + 5) cnt'"
      "decode_loop dest n every (encode_loop src n every i crc cnt) crc cnt i =
       decode_loop d n every (encode_loop src n every (i + 5) crc' cnt') crc' cnt' (min (i + 5) n)"
      using decode_encode_step [OF True less.prems(2,3) d(1)] .
    then show ?thesis using less.hyps [of "i + 5" d crc' cnt'] True less.prems(1) d(2,5) copied out by simp
  qed
qed

section \<open>The CRC finds a changed symbol\<close>

lemma decode_store_out:
  assumes "out < n"
  shows "snd (decode_store dest n s out) = min (out + 5) n"
proof -
  define sb b where "sb = min 5 (n - out)" and "b = min (8 - out mod 8) sb"
  have "snd (decode_store dest n s out) = (if sb - b > 0 then out + b + (sb - b) else out + b)"
    by (simp only: decode_store_def Let_def if_distrib [of snd] snd_conv sb_def b_def)
  moreover have "b \<le> sb" by (simp add: b_def)
  ultimately have "snd (decode_store dest n s out) = out + sb" by (simp split: if_splits)
  then show ?thesis using assms by (auto simp: sb_def)
qed

lemma xor_left_cancel: "(s XOR c = s XOR c') \<longleftrightarrow> c = (c' :: 'a::len word)"
  by (metis xor.assoc xor_self_eq xor.left_neutral)

lemma crc5_changed:
  assumes "s < 32" "c < 32" "c' < 32" "c \<noteq> c'"
  shows "crc5_sym s c \<noteq> crc5_sym s c'" "crc5_sym c s \<noteq> crc5_sym c' s"
  using crc5_inj [OF assms(1,2,1,3)] crc5_inj [OF assms(2,1,3,1)] assms(4)
  by (metis xor_left_cancel xor.commute)+

text \<open>Once the registers of the two sides differ, the group is rejected at its end.\<close>

lemma crc_diverged:
  assumes "groups_fit every n i cnt" "every \<noteq> 0" "cnt \<noteq> 0" "crc < 32" "crc' < 32" "crc \<noteq> crc'"
  shows "decode_loop dest n every (encode_loop src n every i crc cnt) crc' cnt (min i n) = None"
  using assms
proof (induction "n - i" arbitrary: i crc crc' cnt dest rule: less_induct)
  case less
  have i: "i < n" using groups_fit_end [OF less.prems(1)] less.prems(2,3) by blast
  define s where "s = encode_sym src n i"
  have s: "s < 32" using encode_sym_range [OF i] by (simp add: s_def)
  have lt: "cnt < every" using less.prems(1,2) by (simp add: groups_fit_def)
  obtain d where d: "decode_store dest n s i = (d, min (i + 5) n)"
    using decode_store_out [OF i] by (metis prod.collapse)
  have ne: "crc5_sym s crc \<noteq> crc5_sym s crc'"
    using crc5_changed(1) [OF s less.prems(4,5,6)] .
  have c: "crc5_sym s crc < 32" "crc5_sym s crc' < 32" using crc5_range s less.prems(4,5) by auto
  note step = decode_loop_store [OF s lt i d]
  show ?case
  proof (cases "cnt + 1 = every")
    case True
    then show ?thesis
      using step less.prems(2) c ne i by (simp add: encode_loop_step Let_def decode_loop_crc min_absorb1 flip: s_def)
  next
    case False
    then show ?thesis
      using step less.prems(2) i less.hyps [of "i + 5" "cnt + 1" "crc5_sym s crc" "crc5_sym s crc'" d] c ne
        groups_fit_next(2) [OF less.prems(1) i less.prems(2) False]
      by (simp add: encode_loop_step Let_def min_absorb1 flip: s_def)
  qed
qed

text \<open>A character that is not skipped either is no symbol or changes the register.\<close>

definition significant :: "u8 \<Rightarrow> bool" where
  "significant c \<longleftrightarrow> c \<noteq> 0 \<and> \<not> isspace (uint c) \<and> c \<noteq> 45"

lemma significant_cases:
  assumes "significant c" "c \<noteq> base32_map ! unat s" "(s :: u8) < 32"
  obtains "decode_sym c = None" | s' where "s' < 32" "s' \<noteq> s" "c = base32_map ! unat s'"
proof (cases "decode_sym c")
  case None
  then show thesis by (rule that(1))
next
  case (Some s')
  with decode_sym_range [OF Some] assms(2) show thesis by (intro that(2) [of s']) auto
qed

lemma decode_loop_bad: "significant c \<Longrightarrow> decode_sym c = None \<Longrightarrow> decode_loop dest n every (c # src) crc cnt out = None"
  by (simp add: decode_loop.simps significant_def)

lemma changed_crc:
  assumes "every \<noteq> 0" "significant c" "crc < 32" "c \<noteq> base32_map ! unat crc"
  shows "decode_loop dest n every (c # src) crc every out = None"
proof (rule significant_cases [OF assms(2,4,3)])
  show ?thesis if "decode_sym c = None" by (rule decode_loop_bad [OF assms(2) that])
  show ?thesis if "s' < 32" "s' \<noteq> crc" "c = base32_map ! unat s'" for s'
    using that assms(1) by (simp add: decode_loop_crc)
qed

lemma changed_head:
  assumes "groups_fit every n i cnt" "every \<noteq> 0" "crc < 32" "significant c" "i < n"
    "encode_loop src n every i crc cnt = h # t" "c \<noteq> h"
  shows "decode_loop dest n every (c # t) crc cnt i = None"
proof -
  define s where "s = encode_sym src n i"
  have e: "h = base32_map ! unat s" "t = (if cnt + 1 = every
        then base32_map ! unat (crc5_sym s crc) # encode_loop src n every (i + 5) 0 0
        else encode_loop src n every (i + 5) (crc5_sym s crc) (cnt + 1))"
    using assms(2,6) by (auto simp: encode_loop_step assms(5) s_def Let_def)
  have s: "s < 32" using encode_sym_range [OF assms(5)] by (simp add: s_def)
  have lt: "cnt < every" using assms(1,2) by (simp add: groups_fit_def)
  note fit = groups_fit_next(2) [OF assms(1,5,2)]
  show ?thesis
  proof (rule significant_cases [OF assms(4) assms(7) [unfolded e(1)] s])
    show ?thesis if "decode_sym c = None" by (rule decode_loop_bad [OF assms(4) that])
  next
    fix s' assume s': "s' < 32" "s' \<noteq> s" "c = base32_map ! unat s'"
    obtain d where "decode_store dest n s' i = (d, min (i + 5) n)"
      using decode_store_out [OF assms(5)] by (metis prod.collapse)
    note step = decode_loop_store [OF s'(1) lt assms(5) this]
    have ne: "crc5_sym s crc \<noteq> crc5_sym s' crc" using crc5_changed(2) [OF assms(3) s s'(1)] s'(2) by blast
    have c: "crc5_sym s crc < 32" "crc5_sym s' crc < 32" using crc5_range s s'(1) assms(3) by auto
    show ?thesis
    proof (cases "cnt + 1 = every")
      case True
      then show ?thesis using step s'(3) assms(2) ne c by (simp add: e decode_loop_crc)
    next
      case False
      then show ?thesis using step s'(3) assms(2) crc_diverged [OF fit assms(2) _ c ne] by (simp add: e)
    qed
  qed
qed

lemma changed_symbol:
  assumes "groups_fit every n i cnt" "every \<noteq> 0" "crc < 32" "significant c"
    "j < length (encode_loop src n every i crc cnt)" "c \<noteq> encode_loop src n every i crc cnt ! j"
  shows "decode_loop dest n every ((encode_loop src n every i crc cnt)[j := c]) crc cnt (min i n) = None"
  using assms
proof (induction "n - i" arbitrary: i crc cnt dest j rule: less_induct)
  case less
  have i: "i < n" "min i n = i" using less.prems(5) encode_loop_end [of i n] by fastforce+
  define s where "s = encode_sym src n i"
  have e: "encode_loop src n every i crc cnt = base32_map ! unat s # (if cnt + 1 = every
      then base32_map ! unat (crc5_sym s crc) # encode_loop src n every (i + 5) 0 0
      else encode_loop src n every (i + 5) (crc5_sym s crc) (cnt + 1))"
    using less.prems(2) by (simp add: encode_loop_step i s_def Let_def)
  have s: "s < 32" "crc5_sym s crc < 32"
    using encode_sym_range [OF i(1)] crc5_range less.prems(3) by (auto simp: s_def)
  have lt: "cnt < every" using less.prems(1,2) by (simp add: groups_fit_def)
  obtain d where "decode_store dest n s i = (d, min (i + 5) n)"
    using decode_store_out [OF i(1)] by (metis prod.collapse)
  note step = decode_loop_store [OF s(1) lt i(1) this]
  note fit = groups_fit_next [OF less.prems(1) i(1) less.prems(2)]
  note ih = less.hyps [of "i + 5" _ _ _ d, OF _ _ less.prems(2) _ less.prems(4)]
  consider "j = 0" | "j = 1" "cnt + 1 = every" | k where "j = k + 2" "cnt + 1 = every" | k where "j = k + 1" "cnt + 1 \<noteq> every"
    by (metis One_nat_def Suc_eq_plus1 add_2_eq_Suc' not0_implies_Suc)
  then show ?case
  proof cases
    case 1
    then show ?thesis using changed_head [OF less.prems(1-4) i(1) e] less.prems(6) i(2) by (simp add: e)
  next
    case 2
    then show ?thesis
      using step less.prems(2,6) i changed_crc [OF less.prems(2,4) s(2)] by (simp add: e)
  next
    case 3
    then show ?thesis
      using step less.prems(2,5,6) i s(2) fit(1) ih [of 0 0 k] by (simp add: e decode_loop_crc)
  next
    case 4
    then show ?thesis
      using step less.prems(2,5,6) i s(2) fit(2) ih [of "cnt + 1" "crc5_sym s crc" k] by (simp add: e)
  qed
qed

section \<open>Properties\<close>

lemma base32_encode_ok:
  assumes "base32_encode destlen src n every = (EC_SUCCESS, code)"
  shows "code = encode_loop src n every 0 0 0" "groups_fit every n 0 0"
  using assms by (auto simp: base32_encode_def Let_def groups_fit_def symbols_left_def ec_defs split: if_splits)

lemma clean_start [simp]: "clean_rest dest 0"
  by (simp add: clean_rest_def)

text \<open>Decoding undoes encoding: what \<open>base32_encode\<close> writes, with or without CRC symbols, \<open>base32_decode\<close> accepts,
  it reports the number of bits that were encoded, and the bits it stores are those of the source; nothing
  is stored behind the destination.\<close>

theorem base32_round_trip:
  assumes "base32_encode destlen src n every = (EC_SUCCESS, code)" and "n \<le> 8 * length dest"
  shows "\<exists>d. base32_decode dest n code every = Some (n, d) \<and> length d = length dest \<and> (\<forall>k<n. bit_at d k = bit_at src k)"
  using decode_encode_loop [of n dest 0 every 0 0 src] base32_encode_ok [OF assms(1)] assms(2)
  by (simp add: base32_decode_def)

theorem base32_round_trip_witness:
  "\<exists>d. base32_decode [0, 0, 0] 20 (snd (base32_encode 7 [0xC3, 0x5A, 0x90] 20 2)) 2 = Some (20, d) \<and> length d = 3 \<and>
     (\<forall>k<20. bit_at d k = bit_at [0xC3, 0x5A, 0x90] k)"
proof -
  have "base32_encode 7 [0xC3, 0x5A, 0x90] 20 2 = (EC_SUCCESS, snd (base32_encode 7 [0xC3, 0x5A, 0x90] 20 2))"
    by (simp add: base32_encode_def)
  from base32_round_trip [OF this, of "[0, 0, 0]"] show ?thesis by (simp add: numeral_3_eq_3)
qed

text \<open>(C35) The CRC symbols find every single change: if one character of a string encoded with a CRC is replaced by any
  other that is not ignored (a space or a dash) and does not end the string, \<open>base32_decode\<close> reports an
  error.\<close>

theorem base32_detects_change:
  assumes "base32_encode destlen src n every = (EC_SUCCESS, code)" and "every \<noteq> 0" and "j < length code"
    and "c \<noteq> code ! j" and "c \<noteq> 0" and "\<not> isspace (uint c)" and "c \<noteq> 45"
  shows "base32_decode dest n (code[j := c]) every = None"
  using changed_symbol [of every n 0 0 0 c j src dest] base32_encode_ok [OF assms(1)] assms(2-)
  by (simp add: base32_decode_def significant_def)

theorem base32_detects_change_witness:
  "base32_decode [0, 0, 0] 20 ((snd (base32_encode 7 [0xC3, 0x5A, 0x90] 20 2))[2 := 81]) 2 = None"
proof -
  have e: "base32_encode 7 [0xC3, 0x5A, 0x90] 20 2 = (EC_SUCCESS, snd (base32_encode 7 [0xC3, 0x5A, 0x90] 20 2))"
    by (simp add: base32_encode_def)
  have "length (snd (base32_encode 7 [0xC3, 0x5A, 0x90] 20 2)) = 6 \<and> snd (base32_encode 7 [0xC3, 0x5A, 0x90] 20 2) ! 2 \<noteq> 81"
    by code_simp
  then show ?thesis using base32_detects_change [OF e, of 2 81 "[0, 0, 0]"] by (simp add: isspace_def)
qed

end
