(* ===== verification/Digits.thy ===== *)
theory Digits
  imports Prelude
begin

text \<open>
  Numbers as lists of 32-bit digits, the least significant first: what \<open>struct LITE_BIGNUM\<close> and
  \<open>p256_int\<close> of \<open>src/board/cr50/dcrypto\<close> stand for.  \<open>radix\<close> is the base of the digits.  The lemmas are the
  ones the carry loops share: how a 64-bit accumulator splits into a digit and a carry.
\<close>

datatype dcrypto_result = DCRYPTO_OK | DCRYPTO_FAIL | DCRYPTO_RETRY | DCRYPTO_RESEED_NEEDED

definition radix :: nat where "radix = 2 ^ 32"

fun num :: "u32 list \<Rightarrow> nat" where
  "num [] = 0"
| "num (d # ds) = unat d + radix * num ds"

lemma radix_pos [simp]: "0 < radix" "radix \<noteq> 0"
  by (simp_all add: radix_def)

lemma one_less_radix [simp]: "Suc 0 < radix" "1 < radix"
  by (simp_all add: radix_def)

lemma even_radix [simp]: "even radix"
  by (simp add: radix_def)

lemma digit_less [simp]: "unat (d :: u32) < radix"
  using unsigned_less [of d] by (simp add: radix_def)

lemma digit_le: "unat (d :: u32) \<le> radix - 1"
  using digit_less [of d] by linarith

lemma num_less: "num ds < radix ^ length ds"
proof (induction ds)
  case (Cons d ds)
  then have "num ds + 1 \<le> radix ^ length ds" by simp
  then have "radix * (num ds + 1) \<le> radix * radix ^ length ds" by (rule mult_le_mono2)
  moreover have "unat d + radix * num ds < radix * (num ds + 1)" by simp
  ultimately show ?case unfolding num.simps length_Cons power_Suc by linarith
qed simp

lemma num_append: "num (xs @ ys) = num xs + radix ^ length xs * num ys"
  by (induction xs) (simp_all add: algebra_simps)

lemma num_replicate_0 [simp]: "num (replicate n 0) = 0"
  by (induction n) simp_all

lemma num_snoc: "num (xs @ [d]) = num xs + radix ^ length xs * unat d"
  by (simp add: num_append)

lemma digit_split_unique:
  assumes "unat (d :: u32) + radix * m = unat (e :: u32) + radix * n"
  shows "d = e" "m = n"
proof -
  have "unat d = unat e"
    using arg_cong [OF assms, of "\<lambda>k. k mod radix"] by simp
  then show "d = e" by (simp add: word_unat_eq_iff)
  with assms show "m = n" by simp
qed

lemma num_inj: "length xs = length ys \<Longrightarrow> num xs = num ys \<Longrightarrow> xs = ys"
  by (induction xs ys rule: list_induct2) (auto dest: digit_split_unique)

lemma num_0_iff: "num ds = 0 \<longleftrightarrow> (\<forall>d\<in>set ds. d = 0)"
  by (induction ds) (auto simp: unat_eq_zero)

section \<open>Accumulators\<close>

text \<open>One step of a carry loop: \<open>d\<close> is the digit and \<open>k\<close> the carry of the accumulator \<open>v\<close>, and the rest of the loop
  turns \<open>m\<close> and \<open>k\<close> into \<open>n\<close> and the carry \<open>r\<close>.\<close>

lemma carry_chain:
  fixes d :: "'a::comm_semiring_1"
  assumes "d + B * k = v" "n + p * r = m + k"
  shows "d + B * n + B * p * r = v + B * m"
proof -
  have "d + B * n + B * p * r = d + B * (n + p * r)" by (simp add: algebra_simps)
  also have "\<dots> = d + B * k + B * m" unfolding assms(2) by (simp add: algebra_simps)
  finally show ?thesis unfolding assms(1) .
qed

lemma unat_ucast_digit: "unat (ucast (w :: u64) :: u32) = unat w mod radix"
  by (simp add: unsigned_ucast_eq take_bit_eq_mod radix_def)

lemma split_u64: "unat (ucast w :: u32) + radix * unat (drop_bit 32 (w :: u64)) = unat w"
proof -
  have "unat (ucast w :: u32) = unat w mod radix" by (rule unat_ucast_digit)
  moreover have "unat (drop_bit 32 w) = unat w div radix" unfolding unat_drop_bit_eq radix_def by (rule drop_bit_eq_div)
  ultimately show ?thesis by simp
qed

lemma unat_u32_u64 [simp]: "unat (ucast (d :: u32) :: u64) = unat d"
proof -
  have "unat d < 2 ^ 64" using digit_less [of d] by (simp add: radix_def)
  then show ?thesis by (simp add: unsigned_ucast_eq take_bit_nat_eq_self_iff)
qed

lemma u64_bound: "unat (w :: u64) < radix * radix"
  using unsigned_less [of w] by (simp add: radix_def)

lemma u64_add: "unat v + unat w < radix * radix \<Longrightarrow> unat (v + w :: u64) = unat v + unat w"
  by (simp add: unat_word_ariths radix_def)

lemma u64_mult: "unat v * unat w < radix * radix \<Longrightarrow> unat (v * w :: u64) = unat v * unat w"
  by (simp add: unat_word_ariths radix_def)

lemma small_sum: "m < 4 * radix \<Longrightarrow> m < radix * radix"
  by (simp add: radix_def)

lemma acc_step: "unat w < k * radix \<Longrightarrow> unat (drop_bit 32 (w :: u64)) < k"
  using split_u64 [of w] by (metis add_lessD1 add.commute mult.commute mult_less_cancel1)

lemma digit_product: "unat (a :: u32) * unat (b :: u32) + 2 * (radix - 1) < radix * radix"
proof -
  have "unat a * unat b \<le> (radix - 1) * (radix - 1)" by (intro mult_le_mono digit_le)
  moreover have "(radix - 1) * (radix - 1) + 2 * (radix - 1) < radix * radix" by (simp add: radix_def)
  ultimately show ?thesis by linarith
qed

text \<open>A signed accumulator, shifted arithmetically.\<close>

lemma split_i64: "uint (ucast w :: u32) + int radix * sint (signed_drop_bit 32 (w :: u64)) = sint w"
proof -
  have "uint (ucast w :: u32) = sint w mod int radix"
  proof -
    have "uint (ucast w :: u32) = take_bit 32 (sint w)" by (simp add: unsigned_ucast_eq sint_uint take_bit_signed_take_bit)
    then show ?thesis by (simp add: take_bit_eq_mod radix_def)
  qed
  moreover have "sint (signed_drop_bit 32 w) = sint w div int radix"
    by (simp add: sint_signed_drop_bit_eq drop_bit_eq_div radix_def)
  ultimately show ?thesis by simp
qed

lemma uint_digit_less [simp]: "uint (d :: u32) < int radix"
  using unsigned_less [of d, where ?'a = int] by (simp add: radix_def)

lemma sint_u32_u64 [simp]: "sint (ucast (d :: u32) :: u64) = uint d"
proof -
  have "uint d < 2 ^ 63" using uint_digit_less [of d] by (simp add: radix_def del: uint_digit_less)
  moreover have "- (2 ^ 63) \<le> uint d" by (rule order_trans [OF _ unsigned_greater_eq]) simp
  ultimately have "signed_take_bit 63 (uint d) = uint d" by (rule signed_take_bit_int_eq_self [rotated])
  moreover have "uint (ucast d :: u64) = uint d" by (metis unat_u32_u64 uint_nat)
  ultimately show ?thesis by (simp add: sint_uint)
qed

lemma i64_add: "- (2 ^ 63) \<le> sint v + sint w \<Longrightarrow> sint v + sint w < 2 ^ 63 \<Longrightarrow> sint (v + w :: u64) = sint v + sint w"
  by (simp add: sint_word_ariths signed_take_bit_int_eq_self)

lemma i64_diff: "- (2 ^ 63) \<le> sint v - sint w \<Longrightarrow> sint v - sint w < 2 ^ 63 \<Longrightarrow> sint (v - w :: u64) = sint v - sint w"
  by (simp add: sint_word_ariths signed_take_bit_int_eq_self)

lemma ucast_minus_1 [simp]: "ucast (- 1 :: u64) = (- 1 :: u32)"
  by (rule bit_word_eqI) (simp add: bit_ucast_iff)

text \<open>Splitting a number at a digit.\<close>

lemma num_split: "num ds = num (take n ds) + radix ^ min n (length ds) * num (drop n ds)"
  using num_append [of "take n ds" "drop n ds"] by (simp add: min.commute)

lemma num_split_min: "num a = num (take (min (length a) n) a) + radix ^ min (length a) n * num (drop n a)"
proof -
  have "take (min (length a) n) a = take n a" by (simp add: min_def)
  then show ?thesis using num_append [of "take n a" "drop n a"] by (simp only: append_take_drop_id length_take)
qed

lemma num_update:
  assumes "i < length ds" "ds ! i = 0"
  shows "num (ds[i := d]) = num ds + radix ^ i * unat d"
proof -
  have "ds = take i ds @ 0 # drop (Suc i) ds" using assms id_take_nth_drop [of i ds] by simp
  then have "num ds = num (take i ds) + radix ^ i * (radix * num (drop (Suc i) ds))"
    using num_append [of "take i ds" "0 # drop (Suc i) ds"] assms(1) by (simp add: min_absorb2)
  moreover have "num (ds[i := d]) = num (take i ds) + radix ^ i * (unat d + radix * num (drop (Suc i) ds))"
    using assms(1) by (simp add: upd_conv_take_nth_drop num_append min_absorb2)
  ultimately show ?thesis by (simp add: algebra_simps)
qed

end
