(* ===== verification/Bignum.thy ===== *)
theory Bignum
  imports Digits
begin

text \<open>
  The big number arithmetic of \<open>src/board/cr50/dcrypto/bn.c\<close>.  A \<open>struct LITE_BIGNUM\<close> is the list of its
  digits, its \<open>dmax\<close> the length.  A function that writes through a pointer returns the new digits; where the code
  relies on one operand being at least as long as another, the definitions stop at the end of the shorter one and the
  lemmas assume the lengths.  64-bit accumulators are words; a signed one is shifted arithmetically.
\<close>

type_synonym bignum = "u32 list"

section \<open>Comparisons and bits\<close>

definition bn_check_topbit :: "bignum \<Rightarrow> u32" where
  "bn_check_topbit N = drop_bit 31 (N ! (length N - 1))"

definition bn_is_bit_set :: "bignum \<Rightarrow> nat \<Rightarrow> bool" where
  "bn_is_bit_set a n =
     (let i = n div 32; j = n mod 32
      in if length a \<le> i then False else drop_bit j (a ! i) AND 1 \<noteq> 0)"

definition bn_set_bit :: "bignum \<Rightarrow> nat \<Rightarrow> bignum" where
  "bn_set_bit a n =
     (let i = n div 32; j = n mod 32 in if i < length a then a[i := a ! i OR push_bit j 1] else a)"

definition or_digits :: "bignum \<Rightarrow> u32" where
  "or_digits ds = foldr (OR) ds 0"

fun bn_eq_loop :: "bignum \<Rightarrow> bignum \<Rightarrow> nat \<Rightarrow> bool" where
  "bn_eq_loop a b 0 = True"
| "bn_eq_loop a b (Suc i) = (if a ! i \<noteq> b ! i then False else bn_eq_loop a b i)"

definition bn_eq :: "bignum \<Rightarrow> bignum \<Rightarrow> bool" where
  "bn_eq a b =
     (if or_digits (drop (length b) a) \<noteq> 0 then False
      else if or_digits (drop (length a) b) \<noteq> 0 then False
      else bn_eq_loop a b (min (length a) (length b)))"

fun bn_gte_scan :: "bignum \<Rightarrow> bignum \<Rightarrow> nat \<Rightarrow> bool" where
  "bn_gte_scan a b 0 = (a ! 0 \<ge> b ! 0)"
| "bn_gte_scan a b (Suc i) = (if a ! Suc i = b ! Suc i then bn_gte_scan a b i else a ! Suc i \<ge> b ! Suc i)"

definition bn_gte :: "bignum \<Rightarrow> bignum \<Rightarrow> bool" where
  "bn_gte a b =
     (if or_digits (drop (length b) a) \<noteq> 0 then True
      else if or_digits (drop (length a) b) \<noteq> 0 then False
      else bn_gte_scan a b (min (length a) (length b) - 1))"

section \<open>Addition and subtraction\<close>

fun bn_sub_borrow :: "u64 \<Rightarrow> bignum \<Rightarrow> bignum \<times> u64" where
  "bn_sub_borrow A [] = ([], A)"
| "bn_sub_borrow A (c # cs) =
     (if A = 0 then (c # cs, A)
      else let A1 = A + ucast c in case bn_sub_borrow (signed_drop_bit 32 A1) cs of (ds, r) \<Rightarrow> (ucast A1 # ds, r))"

fun bn_sub_loop :: "u64 \<Rightarrow> bignum \<Rightarrow> bignum \<Rightarrow> bignum \<times> u64" where
  "bn_sub_loop A cs [] = bn_sub_borrow A cs"
| "bn_sub_loop A [] (a # as) = ([], A)"
| "bn_sub_loop A (c # cs) (a # as) =
     (let A1 = A + (ucast c - ucast a)
      in case bn_sub_loop (signed_drop_bit 32 A1) cs as of (ds, r) \<Rightarrow> (ucast A1 # ds, r))"

definition bn_sub :: "bignum \<Rightarrow> bignum \<Rightarrow> bignum \<times> u32" where
  "bn_sub c a = (case bn_sub_loop 0 c a of (ds, A) \<Rightarrow> (ds, ucast A))"

fun bn_add_carry :: "u64 \<Rightarrow> bignum \<Rightarrow> bignum \<times> u64" where
  "bn_add_carry A [] = ([], A)"
| "bn_add_carry A (c # cs) =
     (if A = 0 then (c # cs, A)
      else let A1 = A + ucast c in case bn_add_carry (drop_bit 32 A1) cs of (ds, r) \<Rightarrow> (ucast A1 # ds, r))"

fun bn_add_loop :: "u64 \<Rightarrow> bignum \<Rightarrow> bignum \<Rightarrow> bignum \<times> u64" where
  "bn_add_loop A cs [] = bn_add_carry A cs"
| "bn_add_loop A [] (a # as) = ([], A)"
| "bn_add_loop A (c # cs) (a # as) =
     (let A1 = A + (ucast c + ucast a)
      in case bn_add_loop (drop_bit 32 A1) cs as of (ds, r) \<Rightarrow> (ucast A1 # ds, r))"

definition bn_add :: "bignum \<Rightarrow> bignum \<Rightarrow> bignum \<times> u32" where
  "bn_add c a = (case bn_add_loop 0 c a of (ds, A) \<Rightarrow> (ds, ucast A))"

text \<open>Two's complement, with the sign beside the digits.\<close>

fun bn_signed_sub_rest :: "u64 \<Rightarrow> bignum \<Rightarrow> bignum \<times> u64" where
  "bn_signed_sub_rest A [] = ([], A)"
| "bn_signed_sub_rest A (c # cs) =
     (let A1 = A + (ucast c + 0xFFFFFFFF)
      in case bn_signed_sub_rest (drop_bit 32 A1) cs of (ds, r) \<Rightarrow> (ucast A1 # ds, r))"

fun bn_signed_sub_loop :: "u64 \<Rightarrow> bignum \<Rightarrow> bignum \<Rightarrow> bignum \<times> u64" where
  "bn_signed_sub_loop A cs [] = bn_signed_sub_rest A cs"
| "bn_signed_sub_loop A [] (a # as) = ([], A)"
| "bn_signed_sub_loop A (c # cs) (a # as) =
     (let A1 = A + (ucast c + ucast (NOT a))
      in case bn_signed_sub_loop (drop_bit 32 A1) cs as of (ds, r) \<Rightarrow> (ucast A1 # ds, r))"

text \<open>The sum \<open>(x + y + z) & 1\<close> of three truth values.\<close>

definition odd_of :: "bool \<Rightarrow> bool \<Rightarrow> bool \<Rightarrow> bool" where
  "odd_of x y z \<longleftrightarrow> (x \<noteq> y) \<noteq> z"

definition bn_signed_sub :: "bignum \<Rightarrow> bool \<Rightarrow> bignum \<Rightarrow> bool \<Rightarrow> bignum \<times> bool \<times> bool" where
  "bn_signed_sub c c_neg a a_neg =
     (case bn_signed_sub_loop 1 c a of (ds, A0) \<Rightarrow>
        (let A = (A0 AND 1 \<noteq> 0);
             carry = (\<not> c_neg \<and> a_neg \<and> A \<or> c_neg \<and> \<not> a_neg \<and> \<not> A)
         in (ds, if carry then c_neg else odd_of c_neg (\<not> a_neg) A, carry)))"

definition bn_signed_add :: "bignum \<Rightarrow> bool \<Rightarrow> bignum \<Rightarrow> bool \<Rightarrow> bignum \<times> bool \<times> bool" where
  "bn_signed_add c c_neg a a_neg =
     (case bn_add c a of (ds, A0) \<Rightarrow>
        (let A = (A0 \<noteq> 0);
             carry = (\<not> c_neg \<and> \<not> a_neg \<and> A \<or> c_neg \<and> a_neg \<and> \<not> A)
         in (ds, if carry then c_neg else odd_of c_neg a_neg A, carry)))"

section \<open>Shifts\<close>

fun bn_lshift_loop :: "u32 \<Rightarrow> bignum \<Rightarrow> bignum \<times> u32" where
  "bn_lshift_loop carry [] = ([], carry)"
| "bn_lshift_loop carry (r # rs) =
     (case bn_lshift_loop (drop_bit 31 r) rs of (ds, c) \<Rightarrow> ((push_bit 1 r OR carry) # ds, c))"

definition bn_lshift :: "bignum \<Rightarrow> bignum \<times> u32" where
  "bn_lshift r = bn_lshift_loop 0 r"

fun bn_rshift_loop :: "u32 \<Rightarrow> bignum \<Rightarrow> bignum" where
  "bn_rshift_loop highbit [] = []"
| "bn_rshift_loop highbit [r] = [drop_bit 1 r OR push_bit 31 highbit]"
| "bn_rshift_loop highbit (r # r' # rs) = (drop_bit 1 r OR push_bit 31 r') # bn_rshift_loop highbit (r' # rs)"

definition bn_rshift :: "bignum \<Rightarrow> bool \<Rightarrow> bool \<Rightarrow> bignum" where
  "bn_rshift r carry neg =
     (let highbit = (\<not> carry \<and> neg \<or> carry \<and> \<not> neg);
          ones = foldr (AND) r (NOT 0)
      in if ones = NOT 0 \<and> highbit \<and> neg then replicate (length r) 0
         else bn_rshift_loop (if highbit then 1 else 0) r)"

section \<open>Multiplication\<close>

text \<open>\<open>bn_mul_add\<close> adds \<open>a * b\<close> to the digits of \<open>c\<close> from \<open>offset\<close> on.\<close>

fun bn_mul_add_loop :: "u64 \<Rightarrow> bignum \<Rightarrow> u32 \<Rightarrow> bignum \<Rightarrow> bignum \<times> u64" where
  "bn_mul_add_loop carry cs a [] = (cs, carry)"
| "bn_mul_add_loop carry [] a (b # bs) = ([], carry)"
| "bn_mul_add_loop carry (c # cs) a (b # bs) =
     (let carry1 = carry + (ucast c + ucast b * ucast a)
      in case bn_mul_add_loop (drop_bit 32 carry1) cs a bs of (ds, r) \<Rightarrow> (ucast carry1 # ds, r))"

definition bn_mul_add :: "bignum \<Rightarrow> u32 \<Rightarrow> bignum \<Rightarrow> nat \<Rightarrow> bignum \<times> u32" where
  "bn_mul_add c a b offset =
     (case bn_mul_add_loop 0 (drop offset c) a b of (ds, carry) \<Rightarrow> (take offset c @ ds, ucast carry))"

fun bn_mul_loop :: "bignum \<Rightarrow> u32 \<Rightarrow> nat \<Rightarrow> bignum \<Rightarrow> bignum \<Rightarrow> bignum" where
  "bn_mul_loop c carry i [] b = c[i + length b - 1 := carry]"
| "bn_mul_loop c carry i (a # as) b =
     (case bn_mul_add (c[i + length b - 1 := carry]) a b i of (c', carry') \<Rightarrow> bn_mul_loop c' carry' (i + 1) as b)"

text \<open>\<open>c\<close> is the buffer of the result, whose old contents are cleared; \<open>bn_mul_ex\<close> uses the first
  \<open>a_len\<close> digits of \<open>a\<close>.\<close>

definition DCRYPTO_bn_mul :: "bignum \<Rightarrow> bignum \<Rightarrow> bignum \<Rightarrow> bignum" where
  "DCRYPTO_bn_mul c a b = bn_mul_loop (replicate (length c) 0) 0 0 a b"

definition bn_mul_ex :: "bignum \<Rightarrow> bignum \<Rightarrow> nat \<Rightarrow> bignum \<Rightarrow> bignum" where
  "bn_mul_ex c a a_len b = bn_mul_loop (replicate (length c) 0) 0 0 (take a_len a) b"

definition bn_set_bn :: "bignum \<Rightarrow> bignum \<Rightarrow> nat \<Rightarrow> bignum" where
  "bn_set_bn d src n = map (\<lambda>i. if i < n then src ! i else 0) [0..<length d]"

fun bn_digits_loop :: "bignum \<Rightarrow> nat \<Rightarrow> nat" where
  "bn_digits_loop a 0 = 1"
| "bn_digits_loop a (Suc n) = (if a ! Suc n = 0 then bn_digits_loop a n else Suc n + 1)"

definition bn_digits :: "bignum \<Rightarrow> nat" where
  "bn_digits a = bn_digits_loop a (length a - 1)"

section \<open>Addition and subtraction are exact\<close>

lemma bn_add_carry_correct:
  assumes "bn_add_carry A cs = (ds, r)" "unat A < 2"
  shows "num ds + radix ^ length cs * unat r = num cs + unat A \<and> length ds = length cs \<and> unat r < 2"
  using assms
proof (induction cs arbitrary: A ds r)
  case (Cons c cs)
  show ?case
  proof (cases "A = 0")
    case False
    define A1 where "A1 = A + ucast c"
    have b: "unat A + unat c < 2 * radix" using Cons.prems(2) digit_less [of c] by linarith
    then have A1: "unat A1 = unat A + unat c" by (simp add: A1_def u64_add small_sum)
    obtain es where es: "bn_add_carry (drop_bit 32 A1) cs = (es, r)" "ds = ucast A1 # es"
      using Cons.prems(1) False by (auto simp: A1_def Let_def split: prod.splits)
    note ih = Cons.IH [OF es(1) acc_step [OF b [folded A1]]]
    show ?thesis using carry_chain [OF split_u64 ih [THEN conjunct1]] A1 es(2) ih by simp
  qed (use Cons.prems in auto)
qed simp

lemma bn_add_loop_correct:
  assumes "bn_add_loop A cs as = (ds, r)" "unat A < 2" "length as \<le> length cs"
  shows "num ds + radix ^ length cs * unat r = num cs + num as + unat A \<and> length ds = length cs \<and> unat r < 2"
  using assms
proof (induction A cs as arbitrary: ds r rule: bn_add_loop.induct)
  case (3 A c cs a as)
  define A1 where "A1 = A + (ucast c + ucast a)"
  have b: "unat A + (unat c + unat a) < 3 * radix" "unat A + (unat c + unat a) < 2 * radix"
    using "3.prems"(2) digit_less [of c] digit_less [of a] by linarith+
  then have A1: "unat A1 = unat A + (unat c + unat a)" by (simp add: A1_def u64_add small_sum)
  obtain es where es: "bn_add_loop (drop_bit 32 A1) cs as = (es, r)" "ds = ucast A1 # es"
    using "3.prems"(1) by (auto simp: A1_def Let_def split: prod.splits)
  have l: "length as \<le> length cs" using "3.prems"(3) by simp
  note ih = "3.IH" [OF A1_def es(1) acc_step [OF b(2) [folded A1]] l]
  have "num es + radix ^ length cs * unat r = num cs + num as + unat (drop_bit 32 A1)" using ih by simp
  from carry_chain [OF split_u64 this] show ?case using A1 es(2) ih by (simp add: distrib_left)
qed (auto dest: bn_add_carry_correct)

lemma small_u64_u32: "unat (w :: u64) < radix \<Longrightarrow> unat (ucast w :: u32) = unat w"
  using acc_step [of w 1] split_u64 [of w] by simp

lemma bn_add_correct:
  assumes "bn_add c a = (ds, r)" "length a \<le> length c"
  shows "num ds + radix ^ length c * unat r = num c + num a" "length ds = length c" "unat r < 2"
proof -
  obtain A where A: "bn_add_loop 0 c a = (ds, A)" "r = ucast A"
    using assms(1) by (auto simp: bn_add_def split: prod.splits)
  note l = bn_add_loop_correct [OF A(1) _ assms(2)]
  then have "unat r = unat A" using A(2) by (simp add: small_u64_u32 radix_def)
  with l show "num ds + radix ^ length c * unat r = num c + num a" "length ds = length c" "unat r < 2" by simp_all
qed

text \<open>The borrow of a subtraction is 0 or -1.\<close>

lemma borrow_step:
  assumes "sint w = v" "- int radix \<le> v" "v < int radix"
  shows "- 1 \<le> sint (signed_drop_bit 32 (w :: u64))" "sint (signed_drop_bit 32 w) \<le> 0"
proof -
  have "0 \<le> uint (ucast w :: u32)" "uint (ucast w :: u32) < int radix" by (rule unsigned_greater_eq, rule uint_digit_less)
  then have "int radix * sint (signed_drop_bit 32 w) < int radix * 1" "int radix * - 2 < int radix * sint (signed_drop_bit 32 w)"
    using split_i64 [of w] assms by linarith+
  then show "- 1 \<le> sint (signed_drop_bit 32 w)" "sint (signed_drop_bit 32 w) \<le> 0"
    by (simp_all only: mult_less_cancel_left) auto
qed

lemma bn_sub_borrow_correct:
  assumes "bn_sub_borrow A cs = (ds, r)" "- 1 \<le> sint A" "sint A \<le> 0"
  shows "int (num ds) + int radix ^ length cs * sint r = int (num cs) + sint A \<and> length ds = length cs \<and> - 1 \<le> sint r \<and> sint r \<le> 0"
  using assms
proof (induction cs arbitrary: A ds r)
  case (Cons c cs)
  show ?case
  proof (cases "A = 0")
    case False
    define A1 where "A1 = A + ucast c"
    have b: "- int radix \<le> sint A + uint c" "sint A + uint c < int radix"
      using Cons.prems(2,3) uint_digit_less [of c] unsigned_greater_eq [of c, where 'a = int] by linarith+
    then have A1: "sint A1 = sint A + uint c"
      unfolding A1_def by (subst i64_add) (simp_all add: radix_def)
    obtain es where es: "bn_sub_borrow (signed_drop_bit 32 A1) cs = (es, r)" "ds = ucast A1 # es"
      using Cons.prems(1) False by (auto simp: A1_def Let_def split: prod.splits)
    note ih = Cons.IH [OF es(1) borrow_step [OF A1 b]]
    show ?thesis using carry_chain [OF split_i64 ih [THEN conjunct1]] A1 es(2) ih by simp
  qed (use Cons.prems in auto)
qed simp

lemma bn_sub_loop_correct:
  assumes "bn_sub_loop A cs as = (ds, r)" "- 1 \<le> sint A" "sint A \<le> 0" "length as \<le> length cs"
  shows "int (num ds) + int radix ^ length cs * sint r = int (num cs) - int (num as) + sint A \<and> length ds = length cs \<and>
    - 1 \<le> sint r \<and> sint r \<le> 0"
  using assms
proof (induction A cs as arbitrary: ds r rule: bn_sub_loop.induct)
  case (3 A c cs a as)
  define A1 where "A1 = A + (ucast c - ucast a)"
  have b: "- int radix \<le> sint A + (uint c - uint a)" "sint A + (uint c - uint a) < int radix"
    "- int radix \<le> uint c - uint a" "uint c - uint a < int radix"
    using "3.prems"(2,3) uint_digit_less [of c] unsigned_greater_eq [of c, where 'a = int]
      uint_digit_less [of a] unsigned_greater_eq [of a, where 'a = int] by linarith+
  then have "sint (ucast c - ucast a :: u64) = uint c - uint a" by (subst i64_diff) (simp_all add: radix_def)
  then have A1: "sint A1 = sint A + (uint c - uint a)"
    unfolding A1_def using b by (subst i64_add) (simp_all add: radix_def)
  obtain es where es: "bn_sub_loop (signed_drop_bit 32 A1) cs as = (es, r)" "ds = ucast A1 # es"
    using "3.prems"(1) by (auto simp: A1_def Let_def split: prod.splits)
  have l: "length as \<le> length cs" using "3.prems"(4) by simp
  note ih = "3.IH" [OF A1_def es(1) borrow_step [OF A1 b(1,2)] l]
  from carry_chain [OF split_i64 ih [THEN conjunct1]] show ?case using A1 es(2) ih by (simp add: algebra_simps)
qed (auto dest: bn_sub_borrow_correct)

text \<open>\<open>bn_sub\<close> returns 0, or -1 when it had to borrow.\<close>

lemma bn_sub_correct:
  assumes "bn_sub c a = (ds, r)" "length a \<le> length c"
  shows "length ds = length c"
    and "num a \<le> num c \<Longrightarrow> num ds = num c - num a \<and> r = 0"
    and "num c < num a \<Longrightarrow> num ds = num c + radix ^ length c - num a \<and> r = - 1"
proof -
  obtain A where A: "bn_sub_loop 0 c a = (ds, A)" "r = ucast A"
    using assms(1) by (auto simp: bn_sub_def split: prod.splits)
  note l = bn_sub_loop_correct [OF A(1) _ _ assms(2), simplified]
  then show len: "length ds = length c" by simp
  have d: "num ds < radix ^ length c" using num_less [of ds] len by simp
  consider "sint A = 0" | "sint A = - 1" using l by linarith
  then have "num a \<le> num c \<and> num ds = num c - num a \<and> A = 0 \<or>
             num c < num a \<and> num ds = num c + radix ^ length c - num a \<and> A = - 1"
  proof cases
    case 1
    then have "int (num ds) = int (num c) - int (num a)" using l by simp
    then show ?thesis using 1 by (auto simp: signed_eq_0_iff)
  next
    case 2
    have "A = - 1" using 2 by (metis signed_minus_1 signed_word_eqI)
    moreover have "int (num ds) = int (num c) + int radix ^ length c - int (num a)" using l 2 by simp
    moreover have "int (num ds) < int radix ^ length c" using d by (metis of_nat_less_iff of_nat_power)
    moreover have "int (num c) + int radix ^ length c = int (num c + radix ^ length c)" by simp
    ultimately show ?thesis by linarith
  qed
  then show "num a \<le> num c \<Longrightarrow> num ds = num c - num a \<and> r = 0"
    "num c < num a \<Longrightarrow> num ds = num c + radix ^ length c - num a \<and> r = - 1" using A(2) by auto
qed

section \<open>Products\<close>

lemma bn_mul_add_loop_correct:
  assumes "bn_mul_add_loop k cs a bs = (ds, r)" "unat k < radix" "length bs \<le> length cs"
  shows "num ds + radix ^ length bs * unat r = num cs + num bs * unat a + unat k \<and> length ds = length cs \<and>
    unat r < radix \<and> drop (length bs) ds = drop (length bs) cs"
  using assms
proof (induction k cs a bs arbitrary: ds r rule: bn_mul_add_loop.induct)
  case (3 k c cs a b bs)
  define k1 where "k1 = k + (ucast c + ucast b * ucast a)"
  have b: "unat k + (unat c + unat b * unat a) < radix * radix"
    using "3.prems"(2) digit_le [of c] digit_product [of b a] by linarith
  then have "unat (ucast b * ucast a :: u64) = unat b * unat a" by (simp add: u64_mult)
  then have "unat (ucast c + ucast b * ucast a :: u64) = unat c + unat b * unat a" using b by (simp add: u64_add)
  then have k1: "unat k1 = unat k + (unat c + unat b * unat a)" using b by (simp add: k1_def u64_add)
  obtain es where es: "bn_mul_add_loop (drop_bit 32 k1) cs a bs = (es, r)" "ds = ucast k1 # es"
    using "3.prems"(1) by (auto simp: k1_def Let_def split: prod.splits)
  have l: "length bs \<le> length cs" using "3.prems"(3) by simp
  note ih = "3.IH" [OF k1_def es(1) acc_step [OF b [folded k1]] l]
  from carry_chain [OF split_u64 ih [THEN conjunct1]] show ?case using k1 es(2) ih by (simp add: algebra_simps)
qed auto

lemma bn_mul_add_correct:
  assumes "bn_mul_add c a b i = (d, r)" "i + length b \<le> length c"
  shows "num d + radix ^ (i + length b) * unat r = num c + radix ^ i * (num b * unat a)"
    "length d = length c" "drop (i + length b) d = drop (i + length b) c"
proof -
  obtain ds k where l: "bn_mul_add_loop 0 (drop i c) a b = (ds, k)" "d = take i c @ ds" "r = ucast k"
    using assms(1) by (auto simp: bn_mul_add_def split: prod.splits)
  have i: "min i (length c) = i" "i \<le> length c" using assms(2) by simp_all
  note m = bn_mul_add_loop_correct [OF l(1)]
  then have r: "unat r = unat k" "length ds = length c - i" using l(3) assms(2) by (simp_all add: small_u64_u32)
  have e: "num ds + radix ^ length b * unat r = num (drop i c) + num b * unat a" using m r assms(2) by simp
  have "num d + radix ^ (i + length b) * unat r = num (take i c) + radix ^ i * (num ds + radix ^ length b * unat r)"
    using i by (simp add: l(2) num_append power_add algebra_simps)
  also have "\<dots> = num c + radix ^ i * (num b * unat a)"
    unfolding e using num_split [of c i] i by (simp add: algebra_simps)
  finally show "num d + radix ^ (i + length b) * unat r = num c + radix ^ i * (num b * unat a)" .
  show "length d = length c" using l(2) r(2) i by simp
  show "drop (i + length b) d = drop (i + length b) c"
    using m l(2) i assms(2) by (simp add: drop_append add.commute)
qed

lemma bn_mul_loop_correct:
  assumes "b \<noteq> []" "i + length as + length b \<le> length c" "\<forall>d\<in>set (drop (i + length b - 1) c). d = 0"
  shows "num (bn_mul_loop c carry i as b) = num c + radix ^ (i + length b - 1) * unat carry + radix ^ i * (num as * num b) \<and>
    length (bn_mul_loop c carry i as b) = length c"
  using assms
proof (induction as arbitrary: c carry i)
  case Nil
  have p: "i + length b - 1 < length c" using Nil.prems by (cases b) auto
  then have "c ! (i + length b - 1) = 0" using Nil.prems(3) by (metis Cons_nth_drop_Suc list.set_intros(1))
  with p show ?case by (simp add: num_update)
next
  case (Cons a as)
  let ?j = "i + length b - 1"
  have j: "?j < length c" "?j + 1 = i + length b" using Cons.prems by (cases b; simp)+
  then have z: "c ! ?j = 0" using Cons.prems(3) by (metis Cons_nth_drop_Suc list.set_intros(1))
  obtain d r where d: "bn_mul_add (c[?j := carry]) a b i = (d, r)" by fastforce
  note m = bn_mul_add_correct [OF d]
  have "drop (i + length b) d = drop (i + length b) c" using m(3) Cons.prems(2) j by (simp add: drop_update_cancel)
  then have "\<forall>e\<in>set (drop (i + 1 + length b - 1) d). e = 0"
    using Cons.prems(3) set_drop_subset_set_drop [of ?j "i + length b" c] by auto
  then have ih: "num (bn_mul_loop d r (i + 1) as b) =
      num d + radix ^ (i + length b) * unat r + radix ^ (i + 1) * (num as * num b) \<and>
    length (bn_mul_loop d r (i + 1) as b) = length d"
    using Cons.IH [of "i + 1" d r] Cons.prems(1,2) m(2) by simp
  have "num d + radix ^ (i + length b) * unat r = num c + radix ^ ?j * unat carry + radix ^ i * (num b * unat a)"
    using m(1) Cons.prems(2) num_update [OF j(1) z] by simp
  with ih show ?case using d m(2) Cons.prems(2) by (simp add: algebra_simps)
qed

lemma bn_mul_correct:
  assumes "b \<noteq> []" "length a + length b \<le> length c"
  shows "num (DCRYPTO_bn_mul c a b) = num a * num b" "length (DCRYPTO_bn_mul c a b) = length c"
  using bn_mul_loop_correct [of b 0 a "replicate (length c) 0" 0] assms by (simp_all add: DCRYPTO_bn_mul_def)

section \<open>Comparisons and the left shift\<close>

lemma or_digits_0: "or_digits ds = 0 \<longleftrightarrow> num ds = 0"
  by (induction ds) (auto simp: or_digits_def or_eq_0_iff unat_eq_zero)

lemma num_take_Suc: "i < length a \<Longrightarrow> num (take (Suc i) a) = num (take i a) + radix ^ i * unat (a ! i)"
  by (simp add: take_Suc_conv_app_nth num_snoc)

lemma num_take_less: "num (take i a) < radix ^ i"
proof -
  have "num (take i a) < radix ^ min (length a) i" using num_less [of "take i a"] by simp
  also have "\<dots> \<le> radix ^ i" by (simp add: power_increasing)
  finally show ?thesis .
qed

lemma top_digit_decides:
  assumes "(x :: nat) < p" "y < p" "m \<noteq> n"
  shows "x + p * m \<ge> y + p * n \<longleftrightarrow> m \<ge> n"
proof
  assume "x + p * m \<ge> y + p * n"
  then have "p * n < p * (m + 1)" using assms by simp
  then show "m \<ge> n" by (simp only: mult_less_cancel1) simp
next
  assume "m \<ge> n"
  then have "p * (n + 1) \<le> p * m" using assms(3) by (intro mult_le_mono2) simp
  then show "x + p * m \<ge> y + p * n" using assms(2) by simp
qed

lemma bn_gte_scan_correct:
  "i < length a \<Longrightarrow> i < length b \<Longrightarrow> bn_gte_scan a b i \<longleftrightarrow> num (take (Suc i) a) \<ge> num (take (Suc i) b)"
proof (induction i)
  case 0
  then show ?case by (cases a; cases b) (simp_all add: word_le_nat_alt)
next
  case (Suc i)
  show ?case
  proof (cases "a ! Suc i = b ! Suc i")
    case True
    then show ?thesis using Suc by (simp add: num_take_Suc [of "Suc i"])
  next
    case False
    then have "unat (a ! Suc i) \<noteq> unat (b ! Suc i)" by (simp add: word_unat_eq_iff)
    from top_digit_decides [OF num_take_less [of "Suc i" a] num_take_less [of "Suc i" b] this]
    show ?thesis using Suc.prems False by (simp add: num_take_Suc [of "Suc i"] word_le_nat_alt del: take_Suc power_Suc)
  qed
qed

lemma bn_gte_correct:
  assumes "a \<noteq> []" "b \<noteq> []"
  shows "bn_gte a b \<longleftrightarrow> num a \<ge> num b"
proof -
  define m where "m = min (length a) (length b)"
  have m: "m - 1 < length a" "m - 1 < length b" "Suc (m - 1) = m" "m \<le> length a" "m \<le> length b"
    using assms by (cases a; cases b; auto simp: m_def min_def)+
  have a: "num a = num (take m a) + radix ^ m * num (drop (length b) a)"
    and b: "num b = num (take m b) + radix ^ m * num (drop (length a) b)"
    using num_split_min [of a "length b"] num_split_min [of b "length a"] by (simp_all only: m_def min.commute)
  have one: "num (drop (length b) a) = 0 \<or> num (drop (length a) b) = 0" by (cases "length a \<le> length b") simp_all
  show ?thesis
  proof (cases "num (drop (length b) a) = 0 \<and> num (drop (length a) b) = 0")
    case True
    then show ?thesis
      unfolding a b using bn_gte_scan_correct [OF m(1,2)] m(3) by (simp add: bn_gte_def or_digits_0 flip: m_def)
  next
    case False
    then have "num (drop (length b) a) \<noteq> num (drop (length a) b)" using one by auto
    from top_digit_decides [OF num_take_less [of m a] num_take_less [of m b] this]
    show ?thesis unfolding a b using one False by (auto simp: bn_gte_def or_digits_0)
  qed
qed

lemma bn_eq_loop_correct: "bn_eq_loop a b n \<longleftrightarrow> (\<forall>i<n. a ! i = b ! i)"
  by (induction n) (auto simp: less_Suc_eq)

lemma bn_eq_correct: "bn_eq a b \<longleftrightarrow> num a = num b"
proof -
  define m where "m = min (length a) (length b)"
  have a: "num a = num (take m a) + radix ^ m * num (drop (length b) a)"
    and b: "num b = num (take m b) + radix ^ m * num (drop (length a) b)"
    using num_split_min [of a "length b"] num_split_min [of b "length a"] by (simp_all only: m_def min.commute)
  have one: "num (drop (length b) a) = 0 \<or> num (drop (length a) b) = 0" by (cases "length a \<le> length b") simp_all
  have "m \<le> length a" "m \<le> length b" by (simp_all add: m_def)
  then have "bn_eq_loop a b m \<longleftrightarrow> take m a = take m b"
    by (simp add: bn_eq_loop_correct list_eq_iff_nth_eq min_absorb2)
  also have "\<dots> \<longleftrightarrow> num (take m a) = num (take m b)" using num_inj [of "take m a" "take m b"] by (auto simp: m_def)
  finally have low: "bn_eq_loop a b m \<longleftrightarrow> num (take m a) = num (take m b)" .
  have "num a = num b \<longleftrightarrow> num (take m a) = num (take m b) \<and> num (drop (length b) a) = num (drop (length a) b)"
  proof
    assume e: "num a = num b"
    then have "num a div radix ^ m = num b div radix ^ m" "num a mod radix ^ m = num b mod radix ^ m" by simp_all
    then show "num (take m a) = num (take m b) \<and> num (drop (length b) a) = num (drop (length a) b)"
      unfolding a b using num_take_less [of m a] num_take_less [of m b] by simp
  qed (simp add: a b)
  with low one show ?thesis by (auto simp: bn_eq_def or_digits_0 simp flip: m_def)
qed

lemma lshift_digit:
  assumes "carry < 2"
  shows "unat (push_bit 1 r OR carry :: u32) + radix * unat (drop_bit 31 r) = 2 * unat r + unat carry"
    "drop_bit 31 r < 2"
proof -
  have c: "carry = 0 \<or> carry = 1" using assms by (auto simp: word_less_nat_alt word_unat_eq_iff)
  have "push_bit 1 r AND carry = 0"
  proof (rule bit_word_eqI)
    show "bit (push_bit 1 r AND carry) n \<longleftrightarrow> bit 0 n" for n
      using c by (auto simp only: bit_and_iff bit_push_bit_iff bit_1_iff bit_0_eq bot_apply bot_bool_def)
  qed
  then have "push_bit 1 r OR carry = push_bit 1 r + carry" by (simp only: disjunctive_add_eq_or)
  also have "\<dots> = 2 * r + carry" by (simp add: mult.commute)
  finally have e: "unat (push_bit 1 r OR carry) = (2 * unat r + unat carry) mod radix"
    by (simp add: unat_word_ariths radix_def mod_simps)
  have d: "unat (drop_bit 31 r) = unat r div 2 ^ 31" unfolding unat_drop_bit_eq by (rule drop_bit_eq_div)
  have r: "unat r < 2 * 2 ^ 31" "radix = 2 * 2 ^ 31" using digit_less [of r] by (simp_all add: radix_def)
  have "unat carry < 2" using assms by (simp add: word_less_nat_alt)
  then have "(2 * unat r + unat carry) div radix = unat r div 2 ^ 31" unfolding r(2) by (simp add: div_mult2_eq)
  with e d show "unat (push_bit 1 r OR carry :: u32) + radix * unat (drop_bit 31 r) = 2 * unat r + unat carry"
    by (metis mod_mult_div_eq add.commute)
  have "unat (drop_bit 31 r) < 2" unfolding d using r(1) by (rule less_mult_imp_div_less)
  then show "drop_bit 31 r < 2" by (simp only: word_less_nat_alt) simp
qed

lemma bn_lshift_loop_correct:
  assumes "bn_lshift_loop k rs = (ds, c)" "k < 2"
  shows "num ds + radix ^ length rs * unat c = 2 * num rs + unat k \<and> length ds = length rs \<and> c < 2"
  using assms
proof (induction rs arbitrary: k ds)
  case (Cons r rs)
  obtain es where es: "bn_lshift_loop (drop_bit 31 r) rs = (es, c)" "ds = (push_bit 1 r OR k) # es"
    using Cons.prems(1) by (auto split: prod.splits)
  note ih = Cons.IH [OF es(1) lshift_digit(2) [OF Cons.prems(2)]]
  from carry_chain [OF lshift_digit(1) [OF Cons.prems(2)] ih [THEN conjunct1]] show ?case using es(2) ih by simp
qed simp

lemma bn_lshift_correct:
  assumes "bn_lshift r = (ds, c)"
  shows "num ds + radix ^ length r * unat c = 2 * num r" "length ds = length r" "c = 0 \<or> c = 1"
  using bn_lshift_loop_correct [of 0 r ds c] assms by (auto simp: bn_lshift_def word_less_nat_alt word_unat_eq_iff)

section \<open>Properties\<close>

text \<open>The product of two numbers: \<open>DCRYPTO_bn_mul\<close> writes all digits of the product into a buffer that holds the digits of
  both factors, whatever was in it before.\<close>

theorem bn_mul_exact:
  assumes "b \<noteq> []" and "length a + length b \<le> length c"
  shows "num (DCRYPTO_bn_mul c a b) = num a * num b \<and> length (DCRYPTO_bn_mul c a b) = length c"
  using bn_mul_correct [OF assms] by simp

theorem bn_mul_exact_witness:
  "num (DCRYPTO_bn_mul [1, 2, 3] [0xFFFFFFFF, 0xFFFFFFFF] [0xFFFFFFFF]) = 0xFFFFFFFFFFFFFFFF * 0xFFFFFFFF"
  using bn_mul_exact [of "[0xFFFFFFFF]" "[0xFFFFFFFF, 0xFFFFFFFF]" "[1, 2, 3]"] by (simp add: radix_def)

end
