(* ===== verification/Montgomery.thy ===== *)
theory Montgomery
  imports Bignum
begin

text \<open>
  Modular exponentiation of \<open>src/board/cr50/dcrypto/bn.c\<close> by Montgomery multiplication: \<open>bn_mont_mul\<close> multiplies modulo
  \<open>N\<close> up to a factor \<open>R\<close>, the radix to the number of digits of \<open>N\<close>.
\<close>

section \<open>Model\<close>

text \<open>The loop of \<open>bn_mont_mul_add\<close> over the digits of \<open>b\<close>, \<open>N\<close> and \<open>c\<close> from the second on; it yields the new digits
  of \<open>c\<close> from the first on and the two carries.\<close>

fun mont_mul_add_loop :: "u32 \<Rightarrow> u32 \<Rightarrow> u32 \<Rightarrow> u32 \<Rightarrow> bignum \<Rightarrow> bignum \<Rightarrow> bignum \<Rightarrow> bignum \<times> u32 \<times> u32" where
  "mont_mul_add_loop A B a d0 (b # bs) (n # ns) (c # cs) =
     (let tmp1 = ucast A + ucast a * ucast b + ucast c :: u64;
          tmp2 = ucast B + ucast d0 * ucast n + ucast (ucast tmp1 :: u32) :: u64
      in case mont_mul_add_loop (ucast (drop_bit 32 tmp1)) (ucast (drop_bit 32 tmp2)) a d0 bs ns cs of
           (ds, A', B') \<Rightarrow> (ucast tmp2 # ds, A', B'))"
| "mont_mul_add_loop A B a d0 _ _ _ = ([], A, B)"

definition bn_mont_mul_add :: "bignum \<Rightarrow> u32 \<Rightarrow> bignum \<Rightarrow> u32 \<Rightarrow> bignum \<Rightarrow> bignum" where
  "bn_mont_mul_add c a b nprime N =
     (let tmp1 = ucast (c ! 0) + ucast a * ucast (b ! 0) :: u64;
          A = ucast (drop_bit 32 tmp1);
          d0 = ucast tmp1 * nprime;
          tmp2 = ucast (ucast tmp1 :: u32) + ucast d0 * ucast (N ! 0) :: u64;
          B = ucast (drop_bit 32 tmp2)
      in case mont_mul_add_loop A B a d0 (tl b) (tl N) (tl c) of
           (ds, A', B') \<Rightarrow>
             (let tmp = ucast A' + ucast B' :: u64; c' = ds @ [ucast tmp]
              in if drop_bit 32 tmp \<noteq> 0 then fst (bn_sub c' N) else c'))"

text \<open>\<open>None\<close> for the operand \<open>a\<close> is the null pointer, which stands for 1.  The result replaces the first digits of the
  buffer \<open>c\<close>.\<close>

fun mont_mul_loop :: "bignum \<Rightarrow> bignum \<Rightarrow> bignum \<Rightarrow> u32 \<Rightarrow> bignum \<Rightarrow> bignum" where
  "mont_mul_loop c [] b nprime N = c"
| "mont_mul_loop c (a # as) b nprime N = mont_mul_loop (bn_mont_mul_add c a b nprime N) as b nprime N"

definition mont_operand :: "bignum option \<Rightarrow> nat \<Rightarrow> bignum" where
  "mont_operand a n = (case a of None \<Rightarrow> map (\<lambda>i. if i = 0 then 1 else 0) [0..<n] | Some ds \<Rightarrow> take n ds)"

definition bn_mont_mul :: "bignum option \<Rightarrow> bignum \<Rightarrow> u32 \<Rightarrow> bignum \<Rightarrow> bignum" where
  "bn_mont_mul a b nprime N = mont_mul_loop (replicate (length N) 0) (mont_operand a (length N)) b nprime N"

text \<open>The flag says that the check of the borrow has called \<open>fips_throw_err\<close>.\<close>

fun compute_RR_loop :: "nat \<Rightarrow> bignum \<Rightarrow> bignum \<Rightarrow> bool \<Rightarrow> bignum \<times> bool" where
  "compute_RR_loop 0 RR N err = (RR, err)"
| "compute_RR_loop (Suc k) RR N err =
     (case bn_lshift RR of (RR1, carry) \<Rightarrow>
        (let (RR2, err') = (if carry \<noteq> 0
                            then (case bn_sub RR1 N of (d, r) \<Rightarrow> (d, err \<or> r \<noteq> - 1)) else (RR1, err))
         in compute_RR_loop k (if bn_gte RR2 N then fst (bn_sub RR2 N) else RR2) N err'))"

definition bn_compute_RR :: "bignum \<Rightarrow> bignum \<Rightarrow> bignum \<times> bool" where
  "bn_compute_RR RR N = compute_RR_loop (length N * 32) (fst (bn_sub RR N)) N False"

definition bn_compute_nprime :: "u32 \<Rightarrow> u32" where
  "bn_compute_nprime n0 = NOT (((\<lambda>ninv. ninv * (2 - n0 * ninv)) ^^ 5) 1) + 1"

text \<open>\<open>bn_modexp_internal\<close> exchanges the structures of \<open>output\<close> and \<open>acc\<close>, that is their buffers and sizes.  \<open>me_obuf\<close> is the buffer
  the caller passed for the result, \<open>me_abuf\<close> the first third of the local one; \<open>me_swapped\<close> says that \<open>output\<close> points to the
  latter.  The caller's buffers for input, exponent and modulus are distinct from that of the result.\<close>

record modexp_state =
  me_obuf :: bignum
  me_abuf :: bignum
  me_swapped :: bool
  me_out_dmax :: nat
  me_acc_dmax :: nat

definition store_digits :: "bignum \<Rightarrow> bignum \<Rightarrow> bignum" where
  "store_digits buf ds = ds @ drop (length ds) buf"

definition me_out :: "modexp_state \<Rightarrow> bignum" where
  "me_out s = take (me_out_dmax s) (if me_swapped s then me_abuf s else me_obuf s)"

definition me_acc :: "modexp_state \<Rightarrow> bignum" where
  "me_acc s = take (me_acc_dmax s) (if me_swapped s then me_obuf s else me_abuf s)"

definition me_set_out :: "bignum \<Rightarrow> modexp_state \<Rightarrow> modexp_state" where
  "me_set_out ds s =
     (if me_swapped s then s\<lparr>me_abuf := store_digits (me_abuf s) ds\<rparr> else s\<lparr>me_obuf := store_digits (me_obuf s) ds\<rparr>)"

definition me_set_acc :: "bignum \<Rightarrow> modexp_state \<Rightarrow> modexp_state" where
  "me_set_acc ds s =
     (if me_swapped s then s\<lparr>me_obuf := store_digits (me_obuf s) ds\<rparr> else s\<lparr>me_abuf := store_digits (me_abuf s) ds\<rparr>)"

definition modexp_bit :: "u32 \<Rightarrow> bignum \<Rightarrow> bignum \<Rightarrow> bool \<Rightarrow> modexp_state \<Rightarrow> modexp_state" where
  "modexp_bit nprime N aR b s =
     (let s1 = me_set_out (bn_mont_mul (Some (me_acc s)) (me_acc s) nprime N) s
      in if b then me_set_acc (bn_mont_mul (Some (me_out s1)) aR nprime N) s1
         else s1\<lparr>me_swapped := \<not> me_swapped s1, me_out_dmax := me_acc_dmax s1, me_acc_dmax := me_out_dmax s1\<rparr>)"

fun modexp_loop :: "u32 \<Rightarrow> bignum \<Rightarrow> bignum \<Rightarrow> bignum \<Rightarrow> nat \<Rightarrow> modexp_state \<Rightarrow> modexp_state" where
  "modexp_loop nprime N aR e 0 s = s"
| "modexp_loop nprime N aR e (Suc i) s =
     modexp_loop nprime N aR e i (modexp_bit nprime N aR (bn_is_bit_set e i) s)"

definition modexp_finish :: "u32 \<Rightarrow> bignum \<Rightarrow> modexp_state \<Rightarrow> bignum" where
  "modexp_finish nprime N s =
     (let s1 = me_set_out (bn_mont_mul None (me_acc s) nprime N) s;
          s2 = (if me_swapped s1
                then s1\<lparr>me_obuf := store_digits (me_obuf s1) (take (me_out_dmax s1) (me_abuf s1)), me_swapped := False,
                        me_out_dmax := me_acc_dmax s1\<rparr>
                else s1)
      in case bn_sub (me_out s2) N of
           (d, r) \<Rightarrow> take (length N) (if r \<noteq> 0 then fst (bn_add d N) else d))"

text \<open>The digits of the result, and whether \<open>bn_compute_RR\<close> has reported an error.\<close>

definition bn_modexp_internal :: "bignum \<Rightarrow> bignum \<Rightarrow> bignum \<Rightarrow> bignum \<Rightarrow> bignum \<times> bool" where
  "bn_modexp_internal output input e N =
     (let n = length N;
          nprime = bn_compute_nprime (N ! 0);
          (RR, err) = bn_compute_RR (replicate n 0) N;
          acc = bn_mont_mul None RR nprime N;
          aR = bn_mont_mul (Some input) RR nprime N;
          s = modexp_loop nprime N aR e (length e * 32)
                \<lparr>me_obuf = output, me_abuf = acc, me_swapped = False, me_out_dmax = length output, me_acc_dmax = n\<rparr>
      in (modexp_finish nprime N s, err))"

text \<open>Moduli of a multiple of 256 bits go to the accelerator, the parameter \<open>hw\<close>.\<close>

definition bn_modexp ::
  "(bignum \<Rightarrow> bignum \<Rightarrow> bignum \<Rightarrow> bignum \<Rightarrow> dcrypto_result \<times> bignum) \<Rightarrow> bignum \<Rightarrow> bignum \<Rightarrow> bignum \<Rightarrow> bignum \<Rightarrow>
   dcrypto_result \<times> bignum" where
  "bn_modexp hw output input e N =
     (if (length N * 32) mod 256 = 0 then hw output input e N
      else (DCRYPTO_OK, fst (bn_modexp_internal output input e N)))"

definition bn_modexp_word ::
  "(bignum \<Rightarrow> bignum \<Rightarrow> u32 \<Rightarrow> bignum \<Rightarrow> dcrypto_result \<times> bignum) \<Rightarrow> bignum \<Rightarrow> bignum \<Rightarrow> u32 \<Rightarrow> bignum \<Rightarrow>
   dcrypto_result \<times> bignum" where
  "bn_modexp_word hw output input e N =
     (if (length N * 32) mod 256 = 0 then hw output input e N
      else (DCRYPTO_OK, fst (bn_modexp_internal output input [e] N)))"

section \<open>The Montgomery inverse\<close>

text \<open>Each lifting step squares the error \<open>1 - n0 * ninv\<close>, which starts out even.\<close>

lemma nprime_correct:
  assumes "odd (unat n0)"
  shows "n0 * bn_compute_nprime n0 = - 1"
proof -
  define f where "f = (\<lambda>ninv :: u32. ninv * (2 - n0 * ninv))"
  have step: "1 - n0 * f v = (1 - n0 * v) ^ 2" for v by (simp add: f_def power2_eq_square algebra_simps)
  have err: "1 - n0 * (f ^^ k) 1 = (1 - n0) ^ (2 ^ k)" for k
    by (induction k) (simp_all add: step power_mult [symmetric] mult.commute)
  obtain t where "n0 = 2 * t + 1"
  proof -
    from assms obtain k where "unat n0 = 2 * k + 1" by (auto elim: oddE)
    then have "of_nat (unat n0) = (of_nat (2 * k + 1) :: u32)" by simp
    then show thesis using that [of "of_nat k"] by simp
  qed
  then have "1 - n0 = 2 * (- t)" by simp
  then have "(1 - n0) ^ 32 = 2 ^ 32 * (- t) ^ 32" by (simp only: power_mult_distrib)
  moreover have "(2 :: u32) ^ 32 = 0" using word_exp_length_eq_0 [where 'a = 32] by simp
  ultimately have "(1 - n0) ^ 32 = 0" by (simp only: mult_zero_left)
  then have "1 - n0 * (f ^^ 5) 1 = 0" using err [of 5] by simp
  then have "n0 * (f ^^ 5) 1 = 1" by simp
  moreover have "bn_compute_nprime n0 = - ((f ^^ 5) 1)" by (simp add: bn_compute_nprime_def f_def minus_eq_not_plus_1)
  ultimately show ?thesis by simp
qed

section \<open>One digit\<close>

lemma mul_acc:
  fixes x y z w :: u32
  shows "unat (ucast x + ucast y * ucast z + ucast w :: u64) = unat x + unat y * unat z + unat w"
proof -
  have "unat x + unat y * unat z + unat w < radix * radix"
    using digit_product [of y z] digit_le [of x] digit_le [of w] by linarith
  moreover from this have "unat (ucast y * ucast z :: u64) = unat y * unat z" by (simp add: u64_mult)
  ultimately show ?thesis by (simp add: u64_add)
qed

lemma high_digit: "unat (ucast (drop_bit 32 w) :: u32) = unat (drop_bit 32 (w :: u64))"
  using acc_step [OF u64_bound [of w]] by (rule small_u64_u32)

lemma mont_mul_add_loop_correct:
  assumes "mont_mul_add_loop A B a d0 bs ns cs = (ds, A', B')" "length bs = k" "length ns = k" "length cs = k"
  shows "num ds + radix ^ k * (unat A' + unat B') =
      num cs + unat a * num bs + unat d0 * num ns + (unat A + unat B) \<and> length ds = k"
  using assms
proof (induction k arbitrary: A B bs ns cs ds)
  case (Suc k)
  obtain b bs' n ns' c cs' where l: "bs = b # bs'" "ns = n # ns'" "cs = c # cs'"
    using Suc.prems(2-4) by (auto simp: length_Suc_conv)
  define tmp1 :: u64 where "tmp1 = ucast A + ucast a * ucast b + ucast c"
  define tmp2 :: u64 where "tmp2 = ucast B + ucast d0 * ucast n + ucast (ucast tmp1 :: u32)"
  obtain es where es: "mont_mul_add_loop (ucast (drop_bit 32 tmp1)) (ucast (drop_bit 32 tmp2)) a d0 bs' ns' cs' = (es, A', B')"
    "ds = ucast tmp2 # es"
    using Suc.prems(1) unfolding l tmp1_def tmp2_def by (auto simp: Let_def split: prod.splits)
  note ih = Suc.IH [OF es(1)]
  have e: "num es + radix ^ k * (unat A' + unat B') = (num cs' + unat a * num bs' + unat d0 * num ns') +
      (unat (drop_bit 32 tmp1) + unat (drop_bit 32 tmp2))"
    using ih Suc.prems(2-4) by (simp add: l high_digit)
  have v: "unat (ucast tmp2 :: u32) + radix * (unat (drop_bit 32 tmp1) + unat (drop_bit 32 tmp2)) =
      unat c + unat a * unat b + unat d0 * unat n + (unat A + unat B)"
    using split_u64 [of tmp1] split_u64 [of tmp2] mul_acc [of A a b c] mul_acc [of B d0 n "ucast tmp1"]
    by (simp add: distrib_left flip: tmp1_def tmp2_def)
  from carry_chain [OF v e] show ?case using es(2) ih Suc.prems(2-4) by (simp add: l algebra_simps)
qed simp

text \<open>The result is an exact quotient by the radix, less the modulus if it would not fit.\<close>

lemma bn_mont_mul_add_correct:
  assumes n: "length N = n" "length c = n" "length b = n" "0 < n"
    and inv: "N ! 0 * nprime = - 1" and bound: "num c < num N + num b"
  obtains d s where "d < radix" "s \<le> (1 :: nat)"
    "radix * (num (bn_mont_mul_add c a b nprime N) + s * num N) = num c + unat a * num b + d * num N"
    "length (bn_mont_mul_add c a b nprime N) = n"
proof -
  obtain c0 cs b0 bs n0 ns where l: "c = c0 # cs" "b = b0 # bs" "N = n0 # ns"
    using n by (cases c; cases b; cases N) auto
  obtain k where k: "n = Suc k" using n(4) by (cases n) auto
  define tmp1 :: u64 where "tmp1 = ucast c0 + ucast a * ucast b0"
  define d0 :: u32 where "d0 = ucast tmp1 * nprime"
  define tmp2 :: u64 where "tmp2 = ucast (ucast tmp1 :: u32) + ucast d0 * ucast n0"
  obtain ds A B where m: "mont_mul_add_loop (ucast (drop_bit 32 tmp1)) (ucast (drop_bit 32 tmp2)) a d0 bs ns cs = (ds, A, B)"
    by (metis prod_cases3)
  define tmp :: u64 where "tmp = ucast A + ucast B"
  define c' where "c' = ds @ [ucast tmp]"
  have res: "bn_mont_mul_add c a b nprime N = (if drop_bit 32 tmp \<noteq> 0 then fst (bn_sub c' N) else c')"
    using m by (simp add: bn_mont_mul_add_def l Let_def c'_def tmp_def d0_def tmp2_def tmp1_def)
  note loop = mont_mul_add_loop_correct [OF m, of k]
  have t1: "unat tmp1 = unat c0 + unat a * unat b0" using mul_acc [of c0 a b0 0] by (simp add: tmp1_def)
  have t2: "unat tmp2 = unat (ucast tmp1 :: u32) + unat d0 * unat n0"
    using mul_acc [of "ucast tmp1" d0 n0 0] by (simp add: tmp2_def)
  have t: "unat tmp = unat A + unat B" using mul_acc [of A 0 0 B] by (simp add: tmp_def)
  have low: "unat (ucast tmp2 :: u32) = 0"
  proof -
    define lo :: u32 where "lo = ucast tmp1"
    have "unat (ucast tmp2 :: u32) = unat (lo + d0 * n0)"
      unfolding unat_ucast_digit [of tmp2] t2 lo_def by (simp add: unat_word_ariths radix_def mod_simps)
    also have "lo + d0 * n0 = lo * (1 + n0 * nprime)" by (simp add: d0_def lo_def algebra_simps)
    also have "\<dots> = 0" using inv by (simp add: l)
    finally show ?thesis by simp
  qed
  define S where "S = num c + unat a * num b + unat d0 * num N"
  have lc: "length c' = n" "length ds = k" using loop n k by (auto simp: l c'_def)
  have v: "0 + radix * (unat (drop_bit 32 tmp1) + unat (drop_bit 32 tmp2)) = unat c0 + unat a * unat b0 + unat d0 * unat n0"
    using split_u64 [of tmp1] split_u64 [of tmp2] t1 t2 low by (simp add: distrib_left)
  have w: "num ds + radix ^ k * unat tmp = (num cs + unat a * num bs + unat d0 * num ns) +
      (unat (drop_bit 32 tmp1) + unat (drop_bit 32 tmp2))"
    using loop n k t by (simp add: l high_digit)
  have "S = radix * (num ds + radix ^ k * unat tmp)"
    using carry_chain [OF v w] by (simp add: S_def l algebra_simps)
  also have "num ds + radix ^ k * unat tmp = num c' + radix ^ n * unat (drop_bit 32 tmp)"
    unfolding c'_def num_snoc lc(2) k split_u64 [of tmp, symmetric] by (simp add: algebra_simps)
  finally have S: "S = radix * (num c' + radix ^ n * unat (drop_bit 32 tmp))" .
  have "S < radix * (num N + num b)"
  proof -
    have "unat a * num b \<le> (radix - 1) * num b" "unat d0 * num N \<le> (radix - 1) * num N"
      by (intro mult_le_mono digit_le order_refl)+
    then have "S < num N + num b + (radix - 1) * num b + (radix - 1) * num N" using bound unfolding S_def by linarith
    moreover have "x + (radix - 1) * x = radix * x" for x by (metis Suc_pred' mult_Suc radix_pos(1))
    ultimately show ?thesis by (simp only: distrib_left) (metis add.assoc add.commute add.left_commute)
  qed
  then have "radix * (num c' + radix ^ n * unat (drop_bit 32 tmp)) < radix * (num N + num b)" unfolding S .
  then have fits: "num c' + radix ^ n * unat (drop_bit 32 tmp) < num N + num b" by simp
  show thesis
  proof (cases "drop_bit 32 tmp = 0")
    case True
    then show thesis using that [of "unat d0" 0] S lc(1) by (simp add: res S_def)
  next
    case False
    have "unat (drop_bit 32 tmp) < 2" using acc_step [of tmp 2] t digit_less [of A] digit_less [of B] by simp
    then have one: "unat (drop_bit 32 tmp) = 1" using False by (simp add: word_unat_eq_iff)
    obtain e r where e: "bn_sub c' N = (e, r)" by fastforce
    have "num b < radix ^ n" using num_less [of b] n by simp
    then have "num c' < num N" using fits one by simp
    then have "num e = num c' + radix ^ n - num N" "length e = n"
      using bn_sub_correct [OF e] lc(1) n by simp_all
    moreover have "num N < radix ^ n" using num_less [of N] n by simp
    ultimately show thesis using that [of "unat d0" 1] S one False e by (simp add: res S_def)
  qed
qed

section \<open>Montgomery multiplication\<close>

text \<open>After \<open>i\<close> digits of \<open>a\<close> with the value \<open>x\<close>: the buffer times \<open>radix ^ i\<close> is \<open>x * b\<close> up to a multiple of the modulus
  less than \<open>radix ^ i\<close>.\<close>

definition mont_inv :: "nat \<Rightarrow> nat \<Rightarrow> nat \<Rightarrow> nat \<Rightarrow> nat \<Rightarrow> bool" where
  "mont_inv N b i x c \<longleftrightarrow> (\<exists>k. int c * int radix ^ i = int x * int b + k * int N \<and> k < int radix ^ i)"

lemma mont_inv_bound:
  assumes "mont_inv N b i x c" "x < radix ^ i" "0 < N"
  shows "c < N + b"
proof -
  obtain k where k: "int c * int radix ^ i = int x * int b + k * int N" "k < int radix ^ i"
    using assms(1) by (auto simp: mont_inv_def)
  let ?R = "int radix ^ i"
  have "int x < ?R" using assms(2) by (metis of_nat_less_iff of_nat_power)
  then have "int x * int b \<le> ?R * int b" by (intro mult_right_mono) auto
  moreover have "k * int N < ?R * int N" using k(2) assms(3) by simp
  ultimately have "int c * ?R < (int N + int b) * ?R" unfolding k(1) by (simp add: algebra_simps)
  moreover have "0 < ?R" by simp
  ultimately have "int c < int N + int b" by (simp only: mult_less_cancel_right_pos)
  then show ?thesis by linarith
qed

lemma mont_inv_step:
  assumes "mont_inv N b i x c" "d < radix" "radix * (c' + s * N) = c + a * b + d * N"
  shows "mont_inv N b (Suc i) (x + radix ^ i * a) c'"
proof -
  obtain k where k: "int c * int radix ^ i = int x * int b + k * int N" "k < int radix ^ i"
    using assms(1) by (auto simp: mont_inv_def)
  have e: "int radix * (int c' + int s * int N) = int c + int a * int b + int d * int N"
    using arg_cong [OF assms(3), of int] by simp
  have "int c' * int radix ^ Suc i = int radix * (int c' + int s * int N) * int radix ^ i - int s * int N * int radix ^ Suc i"
    by (simp add: algebra_simps)
  also have "\<dots> = int c * int radix ^ i + (int a * int b + int d * int N) * int radix ^ i - int s * int N * int radix ^ Suc i"
    unfolding e by (simp add: algebra_simps)
  also have "\<dots> = int (x + radix ^ i * a) * int b + (k + int d * int radix ^ i - int s * int radix ^ Suc i) * int N"
    unfolding k(1) by (simp add: algebra_simps)
  finally have "int c' * int radix ^ Suc i = \<dots>" .
  moreover have "k + int d * int radix ^ i - int s * int radix ^ Suc i < int radix ^ Suc i"
  proof -
    have "(int d + 1) * int radix ^ i \<le> int radix * int radix ^ i" using assms(2) by (intro mult_right_mono) auto
    then have "int d * int radix ^ i + int radix ^ i \<le> int radix ^ Suc i" by (simp add: distrib_right)
    moreover have "0 \<le> int s * int radix ^ Suc i" by simp
    ultimately show ?thesis using k(2) by linarith
  qed
  ultimately show ?thesis unfolding mont_inv_def by blast
qed

lemma mont_mul_loop_correct:
  assumes "length N = n" "length c = n" "length b = n" "0 < n" "N ! 0 * nprime = - 1" "0 < num N"
    and "mont_inv (num N) (num b) i x (num c)" "x < radix ^ i"
  shows "mont_inv (num N) (num b) (i + length as) (x + radix ^ i * num as) (num (mont_mul_loop c as b nprime N)) \<and>
    length (mont_mul_loop c as b nprime N) = n"
  using assms
proof (induction as arbitrary: c i x)
  case (Cons a as)
  have "num c < num N + num b" using mont_inv_bound [OF Cons.prems(7,8,6)] .
  from bn_mont_mul_add_correct [OF Cons.prems(1-5) this]
  obtain d s where ds: "d < radix"
    "radix * (num (bn_mont_mul_add c a b nprime N) + s * num N) = num c + unat a * num b + d * num N"
    "length (bn_mont_mul_add c a b nprime N) = n" by metis
  have "x + radix ^ i * unat a < radix ^ i * (1 + unat a)" using Cons.prems(8) by simp
  also have "\<dots> \<le> radix ^ i * radix" using digit_less [of a] by (intro mult_le_mono2) linarith
  finally have "x + radix ^ i * unat a < radix ^ Suc i" by (simp add: mult.commute)
  with Cons.IH [OF Cons.prems(1) ds(3) Cons.prems(3-6) mont_inv_step [OF Cons.prems(7) ds(1,2)]]
  show ?case by (simp add: algebra_simps)
qed simp

lemma num_mont_operand: "length a \<ge> n \<Longrightarrow> num (mont_operand (Some a) n) = num (take n a)"
  by (simp add: mont_operand_def)

lemma num_one: "0 < n \<Longrightarrow> num (mont_operand None n) = 1"
  by (cases n) (auto simp: mont_operand_def num_0_iff upt_conv_Cons simp del: upt_Suc)

lemma bn_mont_mul_inv:
  assumes "length N = n" "length b = n" "0 < n" "N ! 0 * nprime = - 1" "0 < num N" "length (mont_operand a n) = n"
  shows "mont_inv (num N) (num b) n (num (mont_operand a n)) (num (bn_mont_mul a b nprime N))"
    "length (bn_mont_mul a b nprime N) = n"
proof -
  have "mont_inv (num N) (num b) 0 0 (num (replicate n 0))" by (simp add: mont_inv_def exI [of _ 0])
  from mont_mul_loop_correct [OF assms(1) _ assms(2-5) this, of "mont_operand a n"]
  show "mont_inv (num N) (num b) n (num (mont_operand a n)) (num (bn_mont_mul a b nprime N))"
    "length (bn_mont_mul a b nprime N) = n" using assms(1,6) by (simp_all add: bn_mont_mul_def)
qed

section \<open>Congruences\<close>

lemma nat_mod_eq_dvd: "x mod N = y mod N \<longleftrightarrow> int N dvd int x - int y"
  by (metis mod_eq_dvd_iff of_nat_eq_iff zmod_int)

lemma mod_mult_cancel:
  assumes "x * R mod N = y * R mod N" "coprime N (R :: nat)"
  shows "x mod N = y mod N"
proof -
  have "int N dvd (int x - int y) * int R" using assms(1) unfolding nat_mod_eq_dvd by (simp add: algebra_simps)
  moreover have "coprime (int N) (int R)" using assms(2) by simp
  ultimately show ?thesis unfolding nat_mod_eq_dvd by (simp add: coprime_dvd_mult_left_iff)
qed

lemma mont_inv_mod: "mont_inv N b n x c \<Longrightarrow> c * radix ^ n mod N = x * b mod N"
  unfolding nat_mod_eq_dvd by (auto simp: mont_inv_def)

lemma mont_inv_one:
  assumes "mont_inv N b n 1 c" "b < radix ^ n" "0 < N"
  shows "c \<le> N"
proof -
  let ?R = "int radix ^ n"
  obtain k where k: "int c * ?R = int b + k * int N" "k < ?R" using assms(1) by (auto simp: mont_inv_def)
  have "int b < ?R" using assms(2) by (metis of_nat_less_iff of_nat_power)
  moreover have "k * int N \<le> (?R - 1) * int N" using k(2) by (intro mult_right_mono) auto
  then have "k * int N + int N \<le> ?R * int N" by (simp add: left_diff_distrib)
  ultimately have "int b + k * int N < ?R * int N + ?R" using assms(3) by linarith
  then have "int c * ?R < (int N + 1) * ?R" unfolding k(1) by (simp add: algebra_simps)
  then have "int c < int N + 1" by (simp only: mult_less_cancel_right_pos zero_less_power of_nat_0_less_iff radix_pos)
  then show ?thesis by linarith
qed

lemma odd_coprime_radix: "odd N \<Longrightarrow> coprime N (radix ^ n)"
  by (simp only: radix_def coprime_power_right_iff coprime_right_2_iff_odd simp_thms)

lemma odd_num: "ds \<noteq> [] \<Longrightarrow> odd (num ds) \<longleftrightarrow> odd (unat (ds ! 0))"
  by (cases ds) simp_all

section \<open>\<open>R * R\<close> modulo \<open>N\<close>\<close>

lemma topbit_half:
  assumes "N \<noteq> []" "bn_check_topbit N \<noteq> 0"
  shows "radix ^ length N \<le> 2 * num N"
proof -
  obtain ds d where N: "N = ds @ [d]" using assms(1) by (cases N rule: rev_cases) auto
  have "drop_bit 31 d \<noteq> 0" using assms(2) by (simp add: bn_check_topbit_def N nth_append)
  then have "unat d div 2 ^ 31 \<noteq> 0"
    by (metis drop_bit_eq_div unat_drop_bit_eq unat_eq_zero)
  then have "radix \<le> 2 * unat d" by (simp add: radix_def div_eq_0_iff)
  then have "radix ^ length ds * radix \<le> radix ^ length ds * (2 * unat d)" by (rule mult_le_mono2)
  moreover have "2 * num N = 2 * num ds + radix ^ length ds * (2 * unat d)" by (simp add: N num_snoc algebra_simps)
  moreover have "radix ^ length N = radix ^ length ds * radix" by (simp add: N)
  ultimately show ?thesis by linarith
qed

lemma double_mod: "x mod N = 2 * y mod N \<Longrightarrow> x * 2 ^ k mod N = y * 2 ^ Suc k mod (N :: nat)"
  using mod_mult_cong [of x N "2 * y" "2 ^ k" "2 ^ k"] by (simp add: mult.assoc mult.left_commute)

lemma compute_RR_loop_correct:
  assumes "compute_RR_loop k RR N err = (RR', err')" "length RR = length N" "N \<noteq> []" "num RR < num N"
  shows "num RR' mod num N = num RR * 2 ^ k mod num N \<and> num RR' < num N \<and> length RR' = length N \<and> err' = err"
  using assms
proof (induction k arbitrary: RR err)
  case (Suc k)
  obtain R1 c where R1: "bn_lshift RR = (R1, c)" by fastforce
  obtain R2 r2 where R2: "bn_sub R1 N = (R2, r2)" by fastforce
  note sh = bn_lshift_correct [OF R1] and sb = bn_sub_correct [OF R2]
  have N: "num N < radix ^ length N" by (rule num_less)
  show ?case
  proof (cases "c = 0")
    case True
    then have v: "num R1 = 2 * num RR" "length R1 = length N" using sh Suc.prems(2) by simp_all
    define R3 where "R3 = (if bn_gte R1 N then fst (bn_sub R1 N) else R1)"
    have R3: "num R3 mod num N = 2 * num RR mod num N" "num R3 < num N" "length R3 = length N"
    proof -
      have g: "bn_gte R1 N \<longleftrightarrow> num N \<le> num R1" using v(2) Suc.prems(3) by (intro bn_gte_correct) auto
      have "num R3 = (if num N \<le> num R1 then num R1 - num N else num R1)" "length R3 = length N"
        using sb v(2) R2 by (simp_all add: R3_def g)
      then show "num R3 mod num N = 2 * num RR mod num N" "num R3 < num N" "length R3 = length N"
        using v(1) Suc.prems(4) le_mod_geq [of "num N" "num R1"] by (simp_all split: if_splits)
    qed
    have "compute_RR_loop k R3 N err = (RR', err')" using Suc.prems(1) True R1 by (simp add: R3_def)
    from Suc.IH [OF this R3(3) Suc.prems(3) R3(2)] show ?thesis unfolding double_mod [OF R3(1)] .
  next
    case False
    then have c: "c = 1" using sh(3) by blast
    have v: "num R1 + radix ^ length N = 2 * num RR" "length R1 = length N" using sh Suc.prems(2) c by simp_all
    have "num R1 < num N" using v(1) Suc.prems(4) N by linarith
    then have b: "num R2 = num R1 + radix ^ length N - num N" "r2 = - 1" "length R2 = length N" using sb v by simp_all
    then have R3: "num R2 + num N = 2 * num RR" "num R2 < num N" using v(1) N Suc.prems(4) by linarith+
    then have "\<not> bn_gte R2 N" using b(3) Suc.prems(3) by (subst bn_gte_correct) auto
    then have "compute_RR_loop k R2 N err = (RR', err')" using Suc.prems(1) False R1 R2 b(2) by simp
    moreover have "num R2 mod num N = 2 * num RR mod num N" using R3(1) by (metis mod_add_self2)
    ultimately show ?thesis using Suc.IH [OF _ b(3) Suc.prems(3) R3(2)] double_mod by metis
  qed
qed simp

lemma compute_RR_correct:
  assumes "bn_compute_RR (replicate (length N) 0) N = (RR, err)" "N \<noteq> []" "odd (num N)" "bn_check_topbit N \<noteq> 0"
  shows "num RR mod num N = radix ^ length N * radix ^ length N mod num N" "length RR = length N" "\<not> err"
proof -
  let ?n = "length N"
  obtain R0 r where R0: "bn_sub (replicate ?n 0) N = (R0, r)" by fastforce
  have N: "0 < num N" "num N < radix ^ ?n" using assms(3) num_less [of N] by (auto intro: odd_pos)
  have v: "num R0 = radix ^ ?n - num N" "length R0 = ?n" using bn_sub_correct [OF R0] N by simp_all
  have "4 dvd radix ^ ?n" using assms(2) by (cases N) (simp_all add: radix_def)
  then have "radix ^ ?n \<noteq> 2 * num N" using assms(3) by presburger
  then have lt: "num R0 < num N" using topbit_half [OF assms(2,4)] v(1) N assms(2) by auto
  have "compute_RR_loop (?n * 32) R0 N False = (RR, err)" using assms(1) R0 by (simp add: bn_compute_RR_def)
  note l = compute_RR_loop_correct [OF this v(2) assms(2) lt]
  have "num R0 mod num N = radix ^ ?n mod num N" using v(1) N by (metis le_add_diff_inverse2 less_imp_le mod_add_self2)
  then have "num R0 * 2 ^ (?n * 32) mod num N = radix ^ ?n * radix ^ ?n mod num N"
    by (metis mod_mult_left_eq mult.commute power_mult radix_def)
  with l show "num RR mod num N = radix ^ length N * radix ^ length N mod num N" "length RR = length N" "\<not> err" by simp_all
qed

section \<open>Exponentiation\<close>

lemma bit_digit: "bit (d :: u32) n \<Longrightarrow> n < 32"
  using bit_imp_le_length [of d n] by simp

lemma bit_num_Cons: "bit (num (d # ds)) n \<longleftrightarrow> (if n < 32 then bit d n else bit (num ds) (n - 32))"
proof -
  have "unat d AND push_bit 32 (num ds) = 0"
    by (rule bit_eqI) (auto simp: bit_and_iff bit_push_bit_iff_nat bit_unsigned_iff dest: bit_digit)
  then have "unat d + push_bit 32 (num ds) = unat d OR push_bit 32 (num ds)" by (rule disjunctive_add_eq_or)
  moreover have "num (d # ds) = unat d + push_bit 32 (num ds)" by (simp add: push_bit_eq_mult radix_def)
  ultimately have "bit (num (d # ds)) n \<longleftrightarrow> bit (unat d) n \<or> bit (push_bit 32 (num ds)) n" by (simp only: bit_or_iff)
  then show ?thesis by (auto simp: bit_push_bit_iff_nat bit_unsigned_iff dest: bit_digit)
qed

lemma bit_num: "bit (num ds) n \<longleftrightarrow> n div 32 < length ds \<and> bit (ds ! (n div 32)) (n mod 32)"
proof (induction ds arbitrary: n)
  case (Cons d ds)
  show ?case
  proof (cases "n < 32")
    case False
    then have "n div 32 = Suc ((n - 32) div 32)" "n mod 32 = (n - 32) mod 32" by (simp_all add: le_div_geq le_mod_geq)
    then show ?thesis using False Cons [of "n - 32"] by (simp add: bit_num_Cons del: num.simps)
  qed (simp add: bit_num_Cons del: num.simps)
qed simp

lemma bn_is_bit_set_num: "bn_is_bit_set a n \<longleftrightarrow> odd (num a div 2 ^ n)"
proof -
  have "drop_bit j (w :: u32) AND 1 \<noteq> 0 \<longleftrightarrow> bit w j" for w j by (simp add: and_one_eq bit_iff_odd_drop_bit odd_iff_mod_2_eq_one)
  then have "bn_is_bit_set a n \<longleftrightarrow> bit (num a) n" by (auto simp: bn_is_bit_set_def bit_num Let_def not_le)
  then show ?thesis by (simp add: bit_iff_odd)
qed

text \<open>A modulus with its inverse and \<open>RR\<close>, as \<open>bn_modexp_internal\<close> sets them up.\<close>

lemma bn_mont_mul_mod:
  assumes "length N = n" "0 < n" "N ! 0 * nprime = - 1" "odd (num N)" "length b = n" "length (mont_operand a n) = n"
  shows "num (bn_mont_mul a b nprime N) * radix ^ n mod num N = num (mont_operand a n) * num b mod num N"
    "length (bn_mont_mul a b nprime N) = n"
  using bn_mont_mul_inv [OF assms(1,5,2,3) odd_pos [OF assms(4)] assms(6)] mont_inv_mod by blast+

text \<open>The Montgomery form of \<open>x\<close>.\<close>

definition mont_form :: "bignum \<Rightarrow> nat \<Rightarrow> bignum \<Rightarrow> bool" where
  "mont_form N x a \<longleftrightarrow> length a = length N \<and> num a mod num N = x * radix ^ length N mod num N"

lemma mont_form_mult:
  assumes "N \<noteq> []" "N ! 0 * nprime = - 1" "odd (num N)" "mont_form N x a" "mont_form N y b"
  shows "mont_form N (x * y) (bn_mont_mul (Some a) b nprime N)"
proof -
  let ?R = "radix ^ length N" and ?c = "bn_mont_mul (Some a) b nprime N"
  have o: "mont_operand (Some a) (length N) = a" using assms(4) by (simp add: mont_operand_def mont_form_def)
  have m: "num ?c * ?R mod num N = num a * num b mod num N" "length ?c = length N"
    using bn_mont_mul_mod [of N "length N" nprime b "Some a"] assms o by (simp_all add: mont_form_def)
  have "num a * num b mod num N = (x * ?R) * (y * ?R) mod num N"
    using assms(4,5) unfolding mont_form_def by (intro mod_mult_cong) auto
  then have "num ?c * ?R mod num N = (x * y * ?R) * ?R mod num N" using m(1) by (simp add: mult_ac)
  from mod_mult_cancel [OF this odd_coprime_radix [OF assms(3)]] m(2) show ?thesis by (simp add: mont_form_def)
qed

lemma mont_form_enter:
  assumes "N \<noteq> []" "N ! 0 * nprime = - 1" "odd (num N)" "length RR = length N"
    "num RR mod num N = radix ^ length N * radix ^ length N mod num N" "length (mont_operand a (length N)) = length N"
  shows "mont_form N (num (mont_operand a (length N))) (bn_mont_mul a RR nprime N)"
proof -
  let ?R = "radix ^ length N" and ?c = "bn_mont_mul a RR nprime N" and ?x = "num (mont_operand a (length N))"
  have m: "num ?c * ?R mod num N = ?x * num RR mod num N" "length ?c = length N"
    using bn_mont_mul_mod [of N "length N" nprime RR a] assms by simp_all
  have "?x * num RR mod num N = ?x * (?R * ?R) mod num N" using assms(5) by (intro mod_mult_cong) auto
  then have "num ?c * ?R mod num N = (?x * ?R) * ?R mod num N" using m(1) by (simp add: mult_ac)
  from mod_mult_cancel [OF this odd_coprime_radix [OF assms(3)]] m(2) show ?thesis by (simp add: mont_form_def)
qed

lemma mont_form_leave:
  assumes "N \<noteq> []" "N ! 0 * nprime = - 1" "odd (num N)" "mont_form N x a"
  defines "c \<equiv> bn_mont_mul None a nprime N"
  shows "num c mod num N = x mod num N" "num c \<le> num N" "length c = length N"
proof -
  have l: "length a = length N" using assms(4) by (simp add: mont_form_def)
  have one: "num (mont_operand None (length N)) = 1" "length (mont_operand None (length N)) = length N"
    using assms(1) by (simp add: num_one) (simp add: mont_operand_def)
  note i = bn_mont_mul_inv [OF HOL.refl l _ assms(2) odd_pos [OF assms(3)] one(2), unfolded one(1), folded c_def]
  show "length c = length N" using i(2) assms(1) by simp
  show "num c \<le> num N"
    using mont_inv_one [OF i(1) _ odd_pos [OF assms(3)]] num_less [of a] l assms(1) by simp
  have "num c * radix ^ length N mod num N = num a mod num N" using mont_inv_mod [OF i(1)] assms(1) by simp
  also have "\<dots> = x * radix ^ length N mod num N" using assms(4) by (simp add: mont_form_def)
  finally show "num c mod num N = x mod num N" using mod_mult_cancel odd_coprime_radix [OF assms(3)] by blast
qed

text \<open>With a result buffer of the size of the modulus, exchanging the structures exchanges two numbers.\<close>

definition me_ok :: "nat \<Rightarrow> modexp_state \<Rightarrow> bool" where
  "me_ok n s \<longleftrightarrow> length (me_obuf s) = n \<and> length (me_abuf s) = n \<and> me_out_dmax s = n \<and> me_acc_dmax s = n"

lemma me_set_out_simps:
  assumes "me_ok n s" "length ds = n"
  shows "me_ok n (me_set_out ds s)" "me_out (me_set_out ds s) = ds" "me_acc (me_set_out ds s) = me_acc s"
    "me_swapped (me_set_out ds s) = me_swapped s"
  using assms by (auto simp: me_ok_def me_set_out_def me_out_def me_acc_def store_digits_def)

lemma me_set_acc_simps:
  assumes "me_ok n s" "length ds = n"
  shows "me_ok n (me_set_acc ds s)" "me_acc (me_set_acc ds s) = ds"
  using assms by (auto simp: me_ok_def me_set_acc_def me_acc_def store_digits_def)

lemma me_swap_simps:
  fixes s :: modexp_state
  defines "s' \<equiv> s\<lparr>me_swapped := \<not> me_swapped s, me_out_dmax := me_acc_dmax s, me_acc_dmax := me_out_dmax s\<rparr>"
  assumes "me_ok n s"
  shows "me_ok n s'" "me_acc s' = me_out s"
  using assms by (auto simp: me_ok_def me_acc_def me_out_def)

lemma modexp_bit_correct:
  assumes "N \<noteq> []" "N ! 0 * nprime = - 1" "odd (num N)" "mont_form N g aR"
    "me_ok (length N) s" "mont_form N (g ^ k) (me_acc s)"
  shows "me_ok (length N) (modexp_bit nprime N aR b s) \<and>
    mont_form N (g ^ (2 * k + of_bool b)) (me_acc (modexp_bit nprime N aR b s))"
proof -
  define sq where "sq = bn_mont_mul (Some (me_acc s)) (me_acc s) nprime N"
  define s1 where "s1 = me_set_out sq s"
  have sq: "mont_form N (g ^ (2 * k)) sq"
    using mont_form_mult [OF assms(1-3,6,6)] by (simp add: sq_def power_mult power2_eq_square power_mult_distrib flip: power_mult power_add mult_2)
  then have l: "length sq = length N" by (simp add: mont_form_def)
  note o = me_set_out_simps [OF assms(5) l, folded s1_def]
  show ?thesis
  proof (cases b)
    case True
    have m: "mont_form N (g ^ (2 * k) * g) (bn_mont_mul (Some sq) aR nprime N)" by (rule mont_form_mult [OF assms(1-3) sq assms(4)])
    then have "length (bn_mont_mul (Some sq) aR nprime N) = length N" by (simp add: mont_form_def)
    from me_set_acc_simps [OF o(1) this] show ?thesis
      using True m o(2) by (simp add: modexp_bit_def Let_def mult.commute flip: sq_def s1_def)
  next
    case False
    then show ?thesis using me_swap_simps [OF o(1)] o(2) sq by (simp add: modexp_bit_def Let_def flip: sq_def s1_def)
  qed
qed

lemma modexp_loop_correct:
  assumes "N \<noteq> []" "N ! 0 * nprime = - 1" "odd (num N)" "mont_form N g aR"
    "me_ok (length N) s" "mont_form N (g ^ (num e div 2 ^ i)) (me_acc s)"
  shows "me_ok (length N) (modexp_loop nprime N aR e i s) \<and>
    mont_form N (g ^ num e) (me_acc (modexp_loop nprime N aR e i s))"
  using assms
proof (induction i arbitrary: s)
  case (Suc i)
  have "num e div 2 ^ i = 2 * (num e div 2 ^ Suc i) + of_bool (bn_is_bit_set e i)"
    by (simp add: bn_is_bit_set_num div_mult2_eq mult.commute [of 2] flip: mod_2_eq_odd)
  with modexp_bit_correct [OF Suc.prems] Suc.IH [OF Suc.prems(1-4)] show ?case by simp
qed simp

lemma modexp_finish_correct:
  assumes "N \<noteq> []" "N ! 0 * nprime = - 1" "odd (num N)" "me_ok (length N) s" "mont_form N x (me_acc s)"
  shows "num (modexp_finish nprime N s) = x mod num N \<and> length (modexp_finish nprime N s) = length N"
proof -
  define c where "c = bn_mont_mul None (me_acc s) nprime N"
  note c = mont_form_leave [OF assms(1-3,5), folded c_def]
  define s1 where "s1 = me_set_out c s"
  note o = me_set_out_simps [OF assms(4) c(3), folded s1_def]
  define s2 where "s2 = (if me_swapped s1
      then s1\<lparr>me_obuf := store_digits (me_obuf s1) (take (me_out_dmax s1) (me_abuf s1)), me_swapped := False,
              me_out_dmax := me_acc_dmax s1\<rparr> else s1)"
  have s2: "me_out s2 = c" using o(1,2) by (auto simp: s2_def me_ok_def me_out_def store_digits_def)
  obtain d r where d: "bn_sub c N = (d, r)" by fastforce
  obtain e q where e: "bn_add d N = (e, q)" by fastforce
  note sub = bn_sub_correct [OF d] and add = bn_add_correct [OF e]
  have f: "modexp_finish nprime N s = take (length N) (if r \<noteq> 0 then e else d)"
    using d e s2 by (simp add: modexp_finish_def Let_def flip: c_def s1_def s2_def)
  show ?thesis
  proof (cases "num N \<le> num c")
    case True
    then have "num c = num N" using c(2) by simp
    then show ?thesis using sub c(1,3) f by (simp add: mod_eq_0_iff_dvd)
  next
    case False
    have "num N < radix ^ length N" by (rule num_less)
    with False sub c(3) have v: "num d + num N = num c + radix ^ length N" "r = - 1" "length d = length N" by simp_all
    have "num e + radix ^ length N * unat q = num c + radix ^ length N" "length e = length N" using add v by simp_all
    moreover have "num c < radix ^ length N" "num e < radix ^ length N" using num_less [of c] num_less [of e] c(3) add v by simp_all
    ultimately have "num e = num c" by (metis mod_less mod_mult_self2 mod_add_self2)
    then show ?thesis using f v add c(1) False by simp
  qed
qed

section \<open>Properties\<close>

text \<open>(C12) Modular exponentiation: for an odd modulus whose top bit is set, and a result buffer of its size,
  \<open>bn_modexp_internal\<close> returns the power of the input modulo the modulus, for every exponent, and the
  check inside \<open>bn_compute_RR\<close> never reports an error.\<close>

theorem modexp_correct:
  assumes "N \<noteq> []" and "odd (num N)" and "bn_check_topbit N \<noteq> 0"
    and "length input = length N" and "length output = length N"
  shows "num (fst (bn_modexp_internal output input e N)) = num input ^ num e mod num N \<and>
    length (fst (bn_modexp_internal output input e N)) = length N \<and> \<not> snd (bn_modexp_internal output input e N)"
proof -
  define nprime where "nprime = bn_compute_nprime (N ! 0)"
  have inv: "N ! 0 * nprime = - 1" using nprime_correct odd_num [OF assms(1)] assms(2) by (simp add: nprime_def)
  obtain RR err where RR: "bn_compute_RR (replicate (length N) 0) N = (RR, err)" by fastforce
  note rr = compute_RR_correct [OF RR assms(1,2,3)]
  define acc where "acc = bn_mont_mul None RR nprime N"
  define aR where "aR = bn_mont_mul (Some input) RR nprime N"
  have acc: "mont_form N 1 acc"
    using mont_form_enter [OF assms(1) inv assms(2) rr(2,1), of None] assms(1)
    by (simp add: acc_def num_one) (simp add: mont_operand_def)
  have aR: "mont_form N (num input) aR"
    using mont_form_enter [OF assms(1) inv assms(2) rr(2,1), of "Some input"] assms(4)
    by (simp add: aR_def mont_operand_def)
  define s where "s = \<lparr>me_obuf = output, me_abuf = acc, me_swapped = False, me_out_dmax = length output,
      me_acc_dmax = length N\<rparr>"
  have ok: "me_ok (length N) s" "me_acc s = acc" using acc assms(5) by (simp_all add: s_def me_ok_def me_acc_def mont_form_def)
  have "num e < 2 ^ (length e * 32)" using num_less [of e] by (simp only: radix_def power_mult [symmetric] mult.commute)
  then have "num e div 2 ^ (length e * 32) = 0" by simp
  then have "mont_form N (num input ^ (num e div 2 ^ (length e * 32))) (me_acc s)" using acc ok(2) by simp
  from modexp_loop_correct [OF assms(1) inv assms(2) aR ok(1) this]
  have "me_ok (length N) (modexp_loop nprime N aR e (length e * 32) s)"
    "mont_form N (num input ^ num e) (me_acc (modexp_loop nprime N aR e (length e * 32) s))" by simp_all
  note fin = modexp_finish_correct [OF assms(1) inv assms(2) this]
  have "bn_modexp_internal output input e N = (modexp_finish nprime N (modexp_loop nprime N aR e (length e * 32) s), err)"
    using RR by (simp add: bn_modexp_internal_def Let_def s_def acc_def aR_def nprime_def)
  then show ?thesis using fin rr(3) by simp
qed

theorem modexp_correct_witness:
  "num (fst (bn_modexp_internal [0, 0] [7, 0] [3] [0x12345679, 0xC0000001])) = 343"
proof -
  have N: "num [0x12345679, 0xC0000001] = 0xC000000112345679" by (simp add: radix_def)
  show ?thesis
    using modexp_correct [of "[0x12345679, 0xC0000001]" "[7, 0]" "[0, 0]" "[3]"]
    unfolding N by (simp add: bn_check_topbit_def)
qed

end
