(* ===== verification/Udiv.thy ===== *)
theory Udiv
  imports Bignum
begin

text \<open>
  Long division of \<open>src/board/cr50/dcrypto/bn.c\<close>: the division of a 64-bit number by a digit that the target's
  processor lacks, and Knuth's algorithm D over it.  Buffers the code writes are lists that are passed in and
  returned; \<open>un\<close> and \<open>vn\<close> are the normalized copies on the stack.
\<close>

section \<open>Division by one digit\<close>

definition lo16 :: "u32 \<Rightarrow> u32" where "lo16 v = v AND 0xffff"
definition hi16 :: "u32 \<Rightarrow> u32" where "hi16 v = drop_bit 16 v"
definition lo32 :: "u64 \<Rightarrow> u32" where "lo32 v = ucast v"
definition hi32 :: "u64 \<Rightarrow> u32" where "hi32 v = ucast (drop_bit 32 v)"
definition make64 :: "u32 \<Rightarrow> u32 \<Rightarrow> u64" where "make64 hi lo = push_bit 32 (ucast hi) OR ucast lo"

text \<open>The bits above the top set bit; \<open>clz_from x i\<close> looks from bit \<open>i - 1\<close> down.\<close>

fun clz_from :: "u32 \<Rightarrow> nat \<Rightarrow> nat" where
  "clz_from x 0 = 0"
| "clz_from x (Suc i) = (if bit x i then 0 else Suc (clz_from x i))"

definition count_leading_zeros :: "u32 \<Rightarrow> nat" where
  "count_leading_zeros x = (if x \<noteq> 0 then clz_from x 32 else 32)"

text \<open>One half of \<open>udiv_qrnnd\<close>: a quotient of 16 bits and the remainder.\<close>

definition qrnnd_half :: "u32 \<Rightarrow> u32 \<Rightarrow> u32 \<Rightarrow> u32 \<times> u32" where
  "qrnnd_half n x d =
     (let d1 = hi16 d; d0 = lo16 d; q = n div d1; r = n - q * d1; m = q * d0; r1 = push_bit 16 r OR x
      in if r1 < m
         then (let q' = q - 1; r2 = r1 + d
               in if r2 \<ge> d then if r2 < m then (q' - 1, r2 + d - m) else (q', r2 - m) else (q', r2 - m))
         else (q, r1 - m))"

definition udiv_qrnnd :: "u32 \<Rightarrow> u32 \<Rightarrow> u32 \<Rightarrow> u32 \<times> u32" where
  "udiv_qrnnd n1 n0 d =
     (case qrnnd_half n1 (hi16 n0) d of
        (q1, r1) \<Rightarrow> case qrnnd_half r1 (lo16 n0) d of (q0, r0) \<Rightarrow> (push_bit 16 q1 OR q0, r0))"

definition udiv32 :: "u64 \<Rightarrow> u32 \<Rightarrow> u64" where
  "udiv32 n d0 =
     (let n0 = lo32 n; n1 = hi32 n
      in if d0 = 0 \<or> n1 = 0 then ucast (n0 div d0)
         else
           (let bm = count_leading_zeros d0
            in if d0 > n1
               then if bm \<noteq> 0
                    then make64 0 (fst (udiv_qrnnd (push_bit bm n1 OR drop_bit (32 - bm) n0) (push_bit bm n0) (push_bit bm d0)))
                    else make64 0 (fst (udiv_qrnnd n1 n0 d0))
               else if bm = 0 then make64 1 (fst (udiv_qrnnd (n1 - d0) n0 d0))
               else case udiv_qrnnd (drop_bit (32 - bm) n1) (push_bit bm n1 OR drop_bit (32 - bm) n0) (push_bit bm d0) of
                      (q1, r1) \<Rightarrow> make64 q1 (fst (udiv_qrnnd r1 (push_bit bm n0) (push_bit bm d0)))))"

section \<open>Words as numbers\<close>

lemma nat_or_add: "(x :: nat) < 2 ^ k \<Longrightarrow> push_bit k a OR x = a * 2 ^ k + x"
proof -
  assume "x < 2 ^ k"
  then have x: "x = take_bit k x" by (simp add: take_bit_nat_eq_self)
  have "push_bit k a AND take_bit k x = 0" by (rule bit_eqI) (auto simp: bit_and_iff bit_push_bit_iff bit_take_bit_iff)
  then have "push_bit k a OR x = push_bit k a + x" using x by (metis disjunctive_add_eq_or)
  then show ?thesis by (simp add: push_bit_eq_mult)
qed

lemma unat_drop: "unat (drop_bit k (v :: 'a::len word)) = unat v div 2 ^ k"
  unfolding unat_drop_bit_eq by (rule drop_bit_eq_div)

lemma unat_push: "unat (v :: 'a::len word) * 2 ^ k < 2 ^ LENGTH('a) \<Longrightarrow> unat (push_bit k v) = push_bit k (unat v)"
  unfolding unsigned_push_bit_eq by (rule take_bit_nat_eq_self) (simp add: push_bit_eq_mult)

lemma unat_push_or:
  assumes "unat (x :: u32) < 2 ^ k" "unat (a :: u32) * 2 ^ k < 2 ^ 32"
  shows "unat (push_bit k a OR x) = unat a * 2 ^ k + unat x"
proof -
  have "unat (push_bit k a) = push_bit k (unat a)" by (rule unat_push) (use assms(2) in simp)
  then show ?thesis using nat_or_add [OF assms(1)] by (simp only: unsigned_or_eq)
qed

lemma unat_make64: "unat (make64 hi lo) = unat hi * radix + unat lo"
proof -
  have "unat (push_bit 32 (ucast hi :: u64)) = push_bit 32 (unat hi)"
    using unat_push [of "ucast hi :: u64" 32] digit_less [of hi] by (simp only: unat_u32_u64) (simp add: radix_def)
  then show ?thesis
    using nat_or_add [of "unat lo" 32 "unat hi"] digit_less [of lo]
    by (simp only: make64_def unsigned_or_eq unat_u32_u64 radix_def)
qed

lemma unat_hi16: "unat (hi16 v) = unat v div 2 ^ 16" and unat_lo16: "unat (lo16 v) = unat v mod 2 ^ 16"
proof -
  show "unat (hi16 v) = unat v div 2 ^ 16" unfolding hi16_def by (rule unat_drop)
  have "lo16 v = take_bit 16 v" by (simp add: lo16_def take_bit_eq_mask mask_eq_exp_minus_1)
  then have "unat (lo16 v) = take_bit 16 (unat v)" by (simp only: unsigned_take_bit_eq)
  then show "unat (lo16 v) = unat v mod 2 ^ 16" by (simp only: take_bit_eq_mod)
qed

lemma unat_hi_lo: "unat n = unat (hi32 n) * radix + unat (lo32 n)"
proof -
  have "unat (drop_bit 32 n) < radix" using acc_step [of n radix] u64_bound [of n] by simp
  then have "unat (hi32 n) = unat (drop_bit 32 n)" by (simp add: hi32_def small_u64_u32)
  then show ?thesis using split_u64 [of n] by (simp add: lo32_def algebra_simps)
qed

lemma digit_pair_less:
  assumes "m < v"
  shows "m * radix + unat (b :: u32) < v * radix"
proof -
  have "(m + 1) * radix \<le> v * radix" using assms by (intro mult_le_mono1) simp
  then have "m * radix + radix \<le> v * radix" by (simp add: algebra_simps)
  then show ?thesis using digit_less [of b] by linarith
qed

text \<open>Shifting two adjacent digits.\<close>

lemma unat_push_mod: "s < 32 \<Longrightarrow> unat (push_bit s (d :: u32)) = push_bit s (unat d mod 2 ^ (32 - s))"
  unfolding unsigned_push_bit_eq by (simp only: take_bit_push_bit) (simp add: take_bit_eq_mod)

lemma unat_drop_less:
  assumes "s < 32"
  shows "unat (p :: u32) div 2 ^ (32 - s) < 2 ^ s" "(2 :: nat) ^ (32 - s) * 2 ^ s = radix"
proof -
  show two: "(2 :: nat) ^ (32 - s) * 2 ^ s = radix" using assms by (simp add: radix_def flip: power_add)
  show "unat p div 2 ^ (32 - s) < 2 ^ s"
    using digit_less [of p] unfolding two [symmetric] by (subst div_less_iff_less_mult) (simp_all add: mult.commute)
qed

lemma mod_div_times: "unat d mod c * t + c * t * (unat d div c) = unat d * (t :: nat)"
proof -
  have "unat d mod c * t + c * t * (unat d div c) = (unat d mod c + c * (unat d div c)) * t"
    by (simp only: add_mult_distrib mult.assoc mult.commute [of t])
  then show ?thesis by simp
qed

lemma unat_shift_digit:
  assumes "s < 32"
  shows "unat (push_bit s d OR drop_bit (32 - s) p :: u32) + radix * (unat d div 2 ^ (32 - s)) =
         unat d * 2 ^ s + unat p div 2 ^ (32 - s)"
proof -
  have "unat (push_bit s d OR drop_bit (32 - s) p) = unat d mod 2 ^ (32 - s) * 2 ^ s + unat p div 2 ^ (32 - s)"
    using nat_or_add [OF unat_drop_less(1) [OF assms]] by (simp only: unsigned_or_eq unat_push_mod [OF assms] unat_drop)
  then show ?thesis using mod_div_times [of d "2 ^ (32 - s)" "2 ^ s"] unfolding unat_drop_less(2) [OF assms] by simp
qed

text \<open>The digits of a number shifted down.\<close>

lemma unat_unshift_digit:
  assumes "0 < s" "s < 32"
  shows "unat (drop_bit s d OR push_bit (32 - s) p :: u32) * 2 ^ s + unat d mod 2 ^ s = unat d + radix * (unat p mod 2 ^ s)"
proof -
  have t: "32 - s < 32" "32 - (32 - s) = s" using assms by simp_all
  have "unat (push_bit (32 - s) p OR drop_bit s d) = unat p mod 2 ^ s * 2 ^ (32 - s) + unat d div 2 ^ s"
    using nat_or_add [OF unat_drop_less(1) [OF t(1), unfolded t(2)]] unat_push_mod [OF t(1), of p]
    by (simp only: unsigned_or_eq unat_drop t(2))
  then have "unat (drop_bit s d OR push_bit (32 - s) p) = unat p mod 2 ^ s * 2 ^ (32 - s) + unat d div 2 ^ s"
    by (simp only: or.commute)
  moreover have "unat d div 2 ^ s * 2 ^ s + unat d mod 2 ^ s = unat d" by (rule div_mult_mod_eq)
  moreover have "unat p mod 2 ^ s * 2 ^ (32 - s) * 2 ^ s = radix * (unat p mod 2 ^ s)"
    unfolding unat_drop_less(2) [OF assms(2), symmetric] by (simp add: ac_simps)
  ultimately show ?thesis by (simp only: add_mult_distrib)
qed

section \<open>The 64-bit division\<close>

text \<open>The arithmetic of one half: \<open>q\<close> is an estimate of the quotient that is at most two too large.\<close>

lemma half_cases:
  fixes n x d1 d0 :: int
  assumes d1: "2 ^ 15 \<le> d1" "d1 < 2 ^ 16" and d0: "0 \<le> d0" "d0 < 2 ^ 16" and n: "0 \<le> n" "n < d1 * 2 ^ 16 + d0"
    and x: "0 \<le> x" "x < 2 ^ 16" and q: "q = n div d1" and r1: "r1 = n mod d1 * 2 ^ 16 + x"
  shows "n * 2 ^ 16 + x = q * (d1 * 2 ^ 16 + d0) + (r1 - q * d0)" "0 \<le> q * d0" "q * d0 < 2 ^ 32"
    "0 \<le> r1" "r1 < d1 * 2 ^ 16" "0 \<le> q" "q \<le> 2 ^ 16 + 1"
proof -
  have n': "n = q * d1 + n mod d1" unfolding q by simp
  show "n * 2 ^ 16 + x = q * (d1 * 2 ^ 16 + d0) + (r1 - q * d0)"
    unfolding r1 by (subst n') (simp add: algebra_simps)
  have m: "0 \<le> n mod d1" "n mod d1 \<le> d1 - 1" using d1 by (simp_all add: zle_diff1_eq)
  show "0 \<le> q" using n d1 unfolding q by (simp add: pos_imp_zdiv_nonneg_iff)
  then show "0 \<le> q * d0" using d0 by simp
  have "n < (2 ^ 16 + 2) * d1" using n(2) d0(2) d1(1) by simp
  then have "q * d1 < (2 ^ 16 + 2) * d1" using n' m by linarith
  then have "q < 2 ^ 16 + 2" using d1 by (simp only: mult_less_cancel_right) simp
  then show q': "q \<le> 2 ^ 16 + 1" by simp
  then have "q * d0 \<le> (2 ^ 16 + 1) * (2 ^ 16 - 1)" using d0 by (intro mult_mono) simp_all
  then show "q * d0 < 2 ^ 32" by simp
  show "0 \<le> r1" unfolding r1 using m x by simp
  have "n mod d1 * 2 ^ 16 \<le> (d1 - 1) * 2 ^ 16" using m by (intro mult_right_mono) simp_all
  then show "r1 < d1 * 2 ^ 16" unfolding r1 using x by simp
qed

lemma uint_of_int_eq: "0 \<le> v \<Longrightarrow> v < 2 ^ 32 \<Longrightarrow> uint (word_of_int v :: u32) = v"
  by (simp add: uint_word_of_int_eq take_bit_int_eq_self)

lemma uint_unat: "uint (w :: 'a::len word) = int (unat w)"
  by simp

lemma unat_less_int: "unat (w :: 'a::len word) < 2 ^ k \<Longrightarrow> uint w < 2 ^ k"
  unfolding uint_unat by (simp only: of_nat_less_numeral_power_cancel_iff)

text \<open>A quotient and a remainder in range.\<close>

lemma half_result:
  fixes N D :: int
  assumes "N = q * D + r" "0 \<le> r" "r < D" "0 \<le> N" "N < 2 ^ 16 * D"
  shows "0 \<le> q" "q < 2 ^ 16"
proof -
  have D: "0 < D" using assms by linarith
  show "0 \<le> q"
  proof (rule ccontr)
    assume "\<not> 0 \<le> q"
    then have "q * D \<le> - 1 * D" using D by (intro mult_right_mono) simp_all
    then show False using assms by linarith
  qed
  have "q * D < 2 ^ 16 * D" using assms by linarith
  then show "q < 2 ^ 16" using D by (simp only: mult_less_cancel_right)
qed

lemma qrnnd_half_correct:
  assumes "2 ^ 31 \<le> unat d" "n < d" "unat x < 2 ^ 16" "qrnnd_half n x d = (q, r)"
  shows "unat n * 2 ^ 16 + unat x = unat q * unat d + unat r \<and> unat r < unat d \<and> unat q < 2 ^ 16"
proof -
  define D d1 d0 qe r1 where "D = uint d" and "d1 = uint (hi16 d)" and "d0 = uint (lo16 d)" and "qe = uint n div d1"
    and "r1 = uint n mod d1 * 2 ^ 16 + uint x"
  define N where "N = uint n * 2 ^ 16 + uint x"
  have "unat d = unat (hi16 d) * 2 ^ 16 + unat (lo16 d)" unfolding unat_hi16 unat_lo16 by (rule div_mult_mod_eq [symmetric])
  then have D: "D = d1 * 2 ^ 16 + d0" unfolding D_def d1_def d0_def uint_unat by simp
  have b: "2 ^ 15 \<le> d1" "d1 < 2 ^ 16" "0 \<le> d0" "d0 < 2 ^ 16"
    using assms(1) digit_less [of d] unat_hi16 [of d] unat_lo16 [of d] unfolding d1_def d0_def uint_unat by (simp_all add: radix_def)
  have nx: "0 \<le> uint n" "uint n < d1 * 2 ^ 16 + d0" "0 \<le> uint x" "uint x < 2 ^ 16"
    using assms(2) unat_less_int [OF assms(3)] unfolding D [symmetric] D_def by (simp_all add: word_less_def)
  note h = half_cases [OF b nx qe_def r1_def, folded D N_def]
  have N: "0 \<le> N" "N < 2 ^ 16 * D" using nx unfolding N_def D by simp_all
  define qw mw rw where "qw = n div hi16 d" and "mw = qw * lo16 d" and "rw = push_bit 16 (n - qw * hi16 d) OR x"
  have qw: "uint qw = qe" by (simp add: qw_def uint_div qe_def d1_def)
  have mw: "uint mw = qe * d0" using h(2,3) uint_word_arith_bintrs(3) [of qw "lo16 d"] by (simp add: mw_def qw d0_def take_bit_int_eq_self)
  have rm: "n - qw * hi16 d = n mod hi16 d" unfolding qw_def by (rule minus_div_mult_eq_mod)
  have "2 ^ 15 \<le> unat (hi16 d)" "unat (hi16 d) < 2 ^ 16"
    using assms(1) digit_less [of d] unfolding unat_hi16 radix_def by simp_all
  moreover from this have "unat n mod unat (hi16 d) < unat (hi16 d)" by (intro mod_less_divisor) simp
  ultimately have "unat (n mod hi16 d) < 2 ^ 16" unfolding unat_mod by linarith
  then have "unat rw = unat (n mod hi16 d) * 2 ^ 16 + unat x"
    unfolding rw_def rm by (intro unat_push_or) (use assms(3) in simp_all)
  then have "int (unat rw) = int (unat (n mod hi16 d)) * 2 ^ 16 + int (unat x)" by (simp only: of_nat_add of_nat_mult) simp
  then have "uint rw = uint (n mod hi16 d) * 2 ^ 16 + uint x" by (simp only: uint_unat)
  then have rw: "uint rw = r1" by (simp add: uint_mod r1_def d1_def)
  have word: "uint (word_of_int v :: u32) = v" if "0 \<le> v" "v < D" for v
    using uint_of_int_eq [of v] that uint_digit_less [of d] by (simp add: D_def radix_def)
  have q: "uint (word_of_int v :: u32) = v" if "0 \<le> v" "v < 2 ^ 16" for v
    using uint_of_int_eq [of v] that by simp
  have goal: ?thesis if "q = word_of_int k" "r = word_of_int v" "N = k * D + v" "0 \<le> v" "v < D" for k v
  proof -
    have "uint q = k" "uint r = v" "k < 2 ^ 16" using half_result [OF that(3-5) N] q word that by auto
    then have "uint n * 2 ^ 16 + uint x = uint q * uint d + uint r \<and> uint r < uint d \<and> uint q < 2 ^ 16"
      using that unfolding N_def D_def by simp
    then have "int (unat n * 2 ^ 16 + unat x) = int (unat q * unat d + unat r)" "int (unat r) < int (unat d)" "int (unat q) < int (2 ^ 16)"
      by simp_all
    then show ?thesis unfolding of_nat_eq_iff of_nat_less_iff by simp
  qed
  have split: "(q, r) = (if rw < mw then if rw + d \<ge> d then if rw + d < mw then (qw - 1 - 1, rw + d + d - mw) else (qw - 1, rw + d - mw)
      else (qw - 1, rw + d - mw) else (qw, rw - mw))"
    using assms(4) unfolding qrnnd_half_def Let_def qw_def [symmetric] mw_def [symmetric] rw_def [symmetric] by (simp only:)
  have carry: "rw + d \<ge> d \<longleftrightarrow> r1 + D < 2 ^ 32"
    using rw uint_plus_if' [of rw d] uint_lt2p [of rw] uint_lt2p [of d] unfolding word_le_def D_def by auto
  have sum: "rw + d < mw \<longleftrightarrow> r1 + D < qe * d0" if "r1 + D < 2 ^ 32"
    using that uint_plus_if' [of rw d] by (simp add: word_less_def rw mw D_def)
  have D31: "2 ^ 31 \<le> D" using b unfolding D by simp
  have lt: "rw < mw \<longleftrightarrow> r1 < qe * d0" by (simp add: word_less_def rw mw)
  have w: "qw = word_of_int qe" "rw = word_of_int r1" "mw = word_of_int (qe * d0)" "d = word_of_int D"
    using qw rw mw D_def by (metis word_of_int_uint)+
  consider (exact) "qe * d0 \<le> r1" | (one) "r1 < qe * d0" "2 ^ 32 \<le> r1 + D \<or> qe * d0 \<le> r1 + D"
    | (two) "r1 + D < 2 ^ 32" "r1 + D < qe * d0" by linarith
  then show ?thesis
  proof cases
    case exact
    then have "q = word_of_int qe" "r = word_of_int (r1 - qe * d0)"
      using split lt by (simp_all add: w)
    then show ?thesis by (rule goal) (use h(1,2,5) exact D b(3) in linarith)+
  next
    case one
    then have "q = qw - 1" "r = rw + d - mw" using split lt carry sum by (auto split: if_splits)
    then have "q = word_of_int (qe - 1)" "r = word_of_int (r1 + D - qe * d0)" by (simp_all add: w)
    then show ?thesis by (rule goal) (use h(1,3) one in \<open>linarith | simp add: algebra_simps\<close>)+
  next
    case two
    then have "r1 < qe * d0" using D31 by simp
    with two have "q = qw - 1 - 1" "r = rw + d + d - mw" using split lt carry sum by (auto split: if_splits)
    then have "q = word_of_int (qe - 2)" "r = word_of_int (r1 + 2 * D - qe * d0)" by (simp_all add: w)
    then show ?thesis by (rule goal) (use h(1,3,4) two D31 in \<open>linarith | simp add: algebra_simps\<close>)+
  qed
qed

lemma udiv_qrnnd_correct:
  assumes "2 ^ 31 \<le> unat d" "n1 < d" "udiv_qrnnd n1 n0 d = (q, r)"
  shows "unat n1 * radix + unat n0 = unat q * unat d + unat r" "r < d"
proof -
  obtain q1 r1 q0 where 1: "qrnnd_half n1 (hi16 n0) d = (q1, r1)" and 2: "qrnnd_half r1 (lo16 n0) d = (q0, r)"
    and q: "q = push_bit 16 q1 OR q0"
    using assms(3) by (auto simp: udiv_qrnnd_def split: prod.splits)
  have x: "unat (hi16 n0) < 2 ^ 16" "unat (lo16 n0) < 2 ^ 16"
    using digit_less [of n0] unfolding unat_hi16 unat_lo16 radix_def by simp_all
  note h1 = qrnnd_half_correct [OF assms(1,2) x(1) 1]
  have "r1 < d" using h1 by (simp add: word_less_nat_alt)
  note h2 = qrnnd_half_correct [OF assms(1) this x(2) 2]
  have "unat q = unat q1 * 2 ^ 16 + unat q0" unfolding q by (rule unat_push_or) (use h1 h2 in simp_all)
  then have "unat q * unat d + unat r = (unat q1 * unat d) * 2 ^ 16 + (unat q0 * unat d + unat r)" by (simp add: algebra_simps)
  also have "\<dots> = (unat q1 * unat d + unat r1) * 2 ^ 16 + unat (lo16 n0)" using h2 by simp
  also have "\<dots> = (unat n1 * 2 ^ 16 + unat (hi16 n0)) * 2 ^ 16 + unat (lo16 n0)" using h1 by simp
  also have "\<dots> = unat n1 * radix + (unat (hi16 n0) * 2 ^ 16 + unat (lo16 n0))" by (simp add: radix_def algebra_simps)
  also have "unat (hi16 n0) * 2 ^ 16 + unat (lo16 n0) = unat n0" unfolding unat_hi16 unat_lo16 by (rule div_mult_mod_eq)
  finally show "unat n1 * radix + unat n0 = unat q * unat d + unat r" by simp
  show "r < d" using h2 by (simp add: word_less_nat_alt)
qed

lemma clz_from_spec:
  "i \<le> 32 \<Longrightarrow> unat x < 2 ^ i \<Longrightarrow> x \<noteq> 0 \<Longrightarrow>
   clz_from x i < i \<and> 2 ^ (i - 1) \<le> unat x * 2 ^ clz_from x i \<and> unat x * 2 ^ clz_from x i < 2 ^ i"
proof (induction i)
  case 0
  then show ?case by (simp add: unat_eq_zero)
next
  case (Suc i)
  have b: "bit x i \<longleftrightarrow> 2 ^ i \<le> unat x"
  proof -
    have "odd (unat x div 2 ^ i) \<longleftrightarrow> bit (unat x) i" by (simp only: bit_iff_odd)
    also have "\<dots> \<longleftrightarrow> bit x i" by (simp add: bit_unsigned_iff)
    finally have "bit x i \<longleftrightarrow> odd (unat x div 2 ^ i)" ..
    moreover have "unat x div 2 ^ i = 1" if "2 ^ i \<le> unat x" using that Suc.prems(2) by (intro div_nat_eqI) simp_all
    ultimately show ?thesis by (cases "2 ^ i \<le> unat x") (simp_all add: not_le)
  qed
  show ?case
  proof (cases "bit x i")
    case True
    then show ?thesis using b Suc.prems by simp
  next
    case False
    then have "unat x < 2 ^ i" using b by simp
    then show ?thesis using Suc False by (cases i) (auto simp: unat_eq_zero)
  qed
qed

lemma count_leading_zeros_spec:
  assumes "x \<noteq> 0"
  shows "count_leading_zeros x < 32" "2 ^ 31 \<le> unat x * 2 ^ count_leading_zeros x"
    "unat x * 2 ^ count_leading_zeros x < radix"
  using clz_from_spec [of 32 x] assms digit_less [of x] by (simp_all add: count_leading_zeros_def radix_def)

lemma udiv_qrnnd_div:
  assumes "2 ^ 31 \<le> unat d" "n1 < d"
  shows "unat (fst (udiv_qrnnd n1 n0 d)) = (unat n1 * radix + unat n0) div unat d"
    "unat (snd (udiv_qrnnd n1 n0 d)) = (unat n1 * radix + unat n0) mod unat d"
proof -
  obtain q r where q: "udiv_qrnnd n1 n0 d = (q, r)" by fastforce
  note u = udiv_qrnnd_correct [OF assms q]
  have "unat r < unat d" using u(2) by (simp add: word_less_nat_alt)
  with u(1) show "unat (fst (udiv_qrnnd n1 n0 d)) = (unat n1 * radix + unat n0) div unat d"
    "unat (snd (udiv_qrnnd n1 n0 d)) = (unat n1 * radix + unat n0) mod unat d" using q by simp_all
qed

text \<open>The normalized divisor and dividend; \<open>k\<close> is the shift.\<close>

lemma udiv32_shift:
  assumes d: "d \<noteq> (0 :: u32)" and k: "k = count_leading_zeros d" "k \<noteq> 0"
  shows "unat (push_bit k d) = unat d * 2 ^ k" "2 ^ 31 \<le> unat (push_bit k d)"
    and "unat (push_bit k n1 OR drop_bit (32 - k) n0 :: u32) * radix + unat (push_bit k n0) + radix * radix * (unat n1 div 2 ^ (32 - k))
         = (unat n1 * radix + unat n0) * 2 ^ k"
    and "unat (drop_bit (32 - k) n1) < unat d * 2 ^ k"
proof -
  note c = count_leading_zeros_spec [OF d, folded k(1)]
  show p: "unat (push_bit k d) = unat d * 2 ^ k"
    using unat_push [of d k] c(3) by (simp add: radix_def push_bit_eq_mult)
  show "2 ^ 31 \<le> unat (push_bit k d)" unfolding p by (rule c(2))
  have 1: "unat (push_bit k n1 OR drop_bit (32 - k) n0) + radix * (unat n1 div 2 ^ (32 - k)) = unat n1 * 2 ^ k + unat n0 div 2 ^ (32 - k)"
    using unat_shift_digit [of k n1 n0] c(1) by simp
  have 0: "unat (push_bit k n0) + radix * (unat n0 div 2 ^ (32 - k)) = unat n0 * 2 ^ k"
    using unat_shift_digit [of k n0 0] c(1) by simp
  have "unat (push_bit k n1 OR drop_bit (32 - k) n0) * radix + unat (push_bit k n0) + radix * radix * (unat n1 div 2 ^ (32 - k)) =
      radix * (unat (push_bit k n1 OR drop_bit (32 - k) n0) + radix * (unat n1 div 2 ^ (32 - k))) + unat (push_bit k n0)"
    by (simp add: algebra_simps)
  also have "\<dots> = radix * (unat n1 * 2 ^ k) + (unat (push_bit k n0) + radix * (unat n0 div 2 ^ (32 - k)))"
    unfolding 1 by (simp add: algebra_simps)
  finally show "unat (push_bit k n1 OR drop_bit (32 - k) n0) * radix + unat (push_bit k n0) + radix * radix * (unat n1 div 2 ^ (32 - k))
      = (unat n1 * radix + unat n0) * 2 ^ k" unfolding 0 by (simp add: algebra_simps)
  have "unat n1 div 2 ^ (32 - k) < 2 ^ k"
    using digit_less [of n1] c(1) by (simp add: div_less_iff_less_mult radix_def flip: power_add)
  also have "\<dots> \<le> unat d * 2 ^ k" using d by (cases "unat d") (simp_all add: unat_eq_zero)
  finally show "unat (drop_bit (32 - k) n1) < unat d * 2 ^ k" unfolding unat_drop .
qed

text \<open>The quotient fits into one digit.\<close>

lemma udiv32_narrow:
  assumes "d \<noteq> 0" "n1 < d" "k = count_leading_zeros d"
  shows "k = 0 \<Longrightarrow> unat (fst (udiv_qrnnd n1 n0 d)) = (unat n1 * radix + unat n0) div unat d"
    and "k \<noteq> 0 \<Longrightarrow> unat (fst (udiv_qrnnd (push_bit k n1 OR drop_bit (32 - k) n0) (push_bit k n0) (push_bit k d))) =
         (unat n1 * radix + unat n0) div unat d"
proof -
  note c = count_leading_zeros_spec [OF assms(1), folded assms(3)]
  show "unat (fst (udiv_qrnnd n1 n0 d)) = (unat n1 * radix + unat n0) div unat d" if "k = 0"
    using udiv_qrnnd_div(1) [OF _ assms(2)] c(2) that by simp
  assume k: "k \<noteq> 0"
  define m1 m0 e where "m1 = push_bit k n1 OR drop_bit (32 - k) n0" and "m0 = push_bit k n0" and "e = push_bit k d"
  note f = udiv32_shift(1,2) [OF assms(1,3) k, folded e_def]
    udiv32_shift(3) [OF assms(1,3) k, where ?n1.0 = n1 and ?n0.0 = n0, folded m1_def m0_def]
  have two: "radix = 2 ^ (32 - k) * 2 ^ k" using c(1) by (simp add: radix_def flip: power_add)
  have "unat d < 2 ^ (32 - k)" using c(3) unfolding two by (simp only: mult_less_cancel2)
  then have "unat n1 div 2 ^ (32 - k) = 0" using assms(2) by (simp add: word_less_nat_alt)
  then have m: "unat m1 * radix + unat m0 = (unat n1 * radix + unat n0) * 2 ^ k" using f(3) by simp
  have "unat n1 * radix + unat n0 < unat d * radix"
    by (rule digit_pair_less) (use assms(2) in \<open>simp add: word_less_nat_alt\<close>)
  then have "(unat n1 * radix + unat n0) * 2 ^ k < unat d * radix * 2 ^ k" by (simp only: mult_less_cancel2) simp
  then have "unat m1 * radix + unat m0 < unat e * radix" using m f(1) by (simp add: algebra_simps)
  then have "unat m1 * radix < unat e * radix" by linarith
  then have "m1 < e" by (simp add: word_less_nat_alt)
  from udiv_qrnnd_div(1) [OF f(2) this, of m0]
  show "unat (fst (udiv_qrnnd m1 m0 e)) = (unat n1 * radix + unat n0) div unat d"
    using m f(1) by (simp add: div_mult_mult2)
qed

text \<open>The quotient has two digits.\<close>

lemma udiv32_wide_top:
  assumes "2 ^ 31 \<le> unat d" "d \<le> n1"
  shows "unat (fst (udiv_qrnnd (n1 - d) n0 d)) + radix = (unat n1 * radix + unat n0) div unat d"
proof -
  have s: "unat (n1 - d) = unat n1 - unat d" using assms(2) by (simp add: unat_sub word_le_nat_alt)
  then have "n1 - d < d" using assms(1) digit_less [of n1] by (simp add: word_less_nat_alt radix_def)
  then have "unat (fst (udiv_qrnnd (n1 - d) n0 d)) = ((unat n1 - unat d) * radix + unat n0) div unat d"
    using udiv_qrnnd_div(1) [OF assms(1)] s by simp
  moreover have "unat n1 * radix = (unat n1 - unat d) * radix + unat d * radix"
    using assms(2) unfolding word_le_nat_alt by (metis add_mult_distrib le_add_diff_inverse2)
  then have e: "unat n1 * radix + unat n0 = ((unat n1 - unat d) * radix + unat n0) + unat d * radix" by linarith
  have "unat d \<noteq> 0" using assms(1) by simp
  then have "(unat n1 * radix + unat n0) div unat d = radix + ((unat n1 - unat d) * radix + unat n0) div unat d"
    unfolding e by (rule div_mult_self2)
  ultimately show ?thesis by simp
qed

lemma udiv32_wide:
  assumes "d \<noteq> 0" "k = count_leading_zeros d" "k \<noteq> 0"
    and "udiv_qrnnd (drop_bit (32 - k) n1) (push_bit k n1 OR drop_bit (32 - k) n0) (push_bit k d) = (q1, r1)"
  shows "unat q1 * radix + unat (fst (udiv_qrnnd r1 (push_bit k n0) (push_bit k d))) = (unat n1 * radix + unat n0) div unat d"
proof -
  define m1 m0 e m2 where "m1 = push_bit k n1 OR drop_bit (32 - k) n0" and "m0 = push_bit k n0" and "e = push_bit k d"
    and "m2 = drop_bit (32 - k) n1"
  note f = udiv32_shift(1,2) [OF assms(1-3), folded e_def]
    udiv32_shift(3) [OF assms(1-3), where ?n1.0 = n1 and ?n0.0 = n0, folded m1_def m0_def]
    udiv32_shift(4) [OF assms(1-3), where ?n1.0 = n1, folded m2_def]
  have m2: "m2 < e" "unat m2 = unat n1 div 2 ^ (32 - k)" using f(1,4) by (simp_all add: word_less_nat_alt m2_def unat_drop)
  obtain q0 r0 where q0: "udiv_qrnnd r1 m0 e = (q0, r0)" by fastforce
  note u1 = udiv_qrnnd_correct [OF f(2) m2(1) assms(4) [folded m1_def m2_def e_def]]
  note u0 = udiv_qrnnd_correct [OF f(2) u1(2) q0]
  have "(unat n1 * radix + unat n0) * 2 ^ k = (unat m2 * radix + unat m1) * radix + unat m0"
    using f(3) m2(2) by (simp add: algebra_simps)
  also have "\<dots> = (unat q1 * unat e) * radix + (unat r1 * radix + unat m0)" unfolding u1(1) by (simp add: algebra_simps)
  also have "\<dots> = (unat q1 * radix + unat q0) * unat e + unat r0" unfolding u0(1) by (simp add: algebra_simps)
  finally have "(unat n1 * radix + unat n0) * 2 ^ k div unat e = unat q1 * radix + unat q0"
    using u0(2) by (simp add: word_less_nat_alt)
  then show ?thesis using f(1) q0 by (simp add: div_mult_mult2 m0_def e_def)
qed

lemma udiv32_div:
  assumes "d \<noteq> 0"
  shows "unat (udiv32 n d) = unat n div unat d"
proof -
  define n0 n1 k where "n0 = lo32 n" and "n1 = hi32 n" and "k = count_leading_zeros d"
  note defs = udiv32_def Let_def n0_def [symmetric] n1_def [symmetric] k_def [symmetric]
  have n: "unat n = unat n1 * radix + unat n0" unfolding n0_def n1_def by (rule unat_hi_lo)
  consider "n1 = 0" | (narrow) "n1 \<noteq> 0" "n1 < d" | (wide) "n1 \<noteq> 0" "d \<le> n1" by force
  then show ?thesis
  proof cases
    case 1
    then show ?thesis using n unfolding defs by (simp add: unat_div)
  next
    case narrow
    then show ?thesis using udiv32_narrow [OF assms _ k_def, of n1 n0] n assms unfolding defs by (simp add: unat_make64)
  next
    case wide
    have "2 ^ 31 \<le> unat d" if "k = 0" using count_leading_zeros_spec(2) [OF assms, folded k_def] that by simp
    then show ?thesis
      using wide(1) leD [OF wide(2)] assms udiv32_wide [OF assms k_def, of n1 n0] udiv32_wide_top [OF _ wide(2), of n0] n
      unfolding defs by (auto simp: unat_make64 split: prod.splits)
  qed
qed

end
