(* ===== verification/Bn_Div.thy ===== *)
theory Bn_Div
  imports Udiv
begin

text \<open>
  Knuth's long division of \<open>src/board/cr50/dcrypto/bn.c\<close>, \<open>bn_div_ex\<close> and \<open>DCRYPTO_bn_div\<close>.  The
  buffers for quotient and remainder are passed in and returned; \<open>un\<close> and \<open>vn\<close> are the normalized copies on
  the stack.
\<close>

section \<open>Model\<close>

fun div_word_loop :: "bignum \<Rightarrow> u32 \<Rightarrow> nat \<Rightarrow> u32 \<Rightarrow> bignum \<Rightarrow> bignum \<times> u32" where
  "div_word_loop u d 0 rem q = (q, rem)"
| "div_word_loop u d (Suc i) rem q =
     (let tmp = push_bit 32 (ucast rem) + ucast (u ! i); qd = ucast (udiv32 tmp d)
      in div_word_loop u d i (ucast (tmp - ucast qd * ucast d)) (q[i := qd]))"

definition bn_div_word_ex :: "bignum \<Rightarrow> bignum option \<Rightarrow> bignum \<Rightarrow> nat \<Rightarrow> u32 \<Rightarrow> bignum \<times> bignum option" where
  "bn_div_word_ex q r u m d =
     (case div_word_loop u d m 0 q of (q', rem) \<Rightarrow> (q', map_option (\<lambda>b. b[0 := rem]) r))"

text \<open>The first \<open>n\<close> digits of \<open>v\<close>, shifted up by \<open>s\<close> bits, and shifted back.\<close>

definition normalized :: "nat \<Rightarrow> bignum \<Rightarrow> nat \<Rightarrow> bignum" where
  "normalized s v n =
     (if s \<noteq> 0 then map (\<lambda>i. if 0 < i then push_bit s (v ! i) OR drop_bit (32 - s) (v ! (i - 1)) else push_bit s (v ! 0)) [0..<n]
      else take n v)"

definition denormalized :: "nat \<Rightarrow> bignum \<Rightarrow> nat \<Rightarrow> bignum" where
  "denormalized s un n =
     (if s \<noteq> 0
      then map (\<lambda>i. drop_bit s (un ! i) OR push_bit (32 - s) (un ! (i + 1))) [0..<n - 1] @ [drop_bit s (un ! (n - 1))]
      else take n un)"

text \<open>The correction of the estimated digit; \<open>v1\<close>, \<open>v2\<close> are the top digits of the divisor.\<close>

function (sequential) fine_tune :: "u32 \<Rightarrow> u32 \<Rightarrow> u32 \<Rightarrow> u32 \<Rightarrow> u64 \<Rightarrow> u32" where
  "fine_tune v1 v2 u0 qd rhat =
     (if drop_bit 32 rhat = 0 \<and> ucast qd * ucast v2 > push_bit 32 rhat + ucast u0
      then fine_tune v1 v2 u0 (qd - 1) (rhat + ucast v1) else qd)"
  by pat_completeness auto
termination
proof (relation "measure (\<lambda>(v1, v2, u0, qd, rhat). unat qd)")
  fix v1 v2 u0 qd :: u32 and rhat :: u64
  assume "drop_bit 32 rhat = 0 \<and> (push_bit 32 rhat + ucast u0 :: u64) < ucast qd * ucast v2"
  then have "qd \<noteq> 0" by auto
  then show "((v1, v2, u0, qd - 1, rhat + ucast v1), v1, v2, u0, qd, rhat) \<in> measure (\<lambda>(v1, v2, u0, qd, rhat). unat qd)"
    by (simp add: measure_unat)
qed simp

declare fine_tune.simps [simp del]

text \<open>The \<open>n + 1\<close> digits \<open>us\<close> of the dividend from position \<open>j\<close> on.\<close>

definition estimate_digit :: "bignum \<Rightarrow> nat \<Rightarrow> bignum \<Rightarrow> u32" where
  "estimate_digit vn n us =
     (if us ! n = vn ! (n - 1) then 0xFFFFFFFF
      else
        (let rhat = push_bit 32 (ucast (us ! n)) + ucast (us ! (n - 1)); qd = ucast (udiv32 rhat (vn ! (n - 1)))
         in fine_tune (vn ! (n - 1)) (vn ! (n - 2)) (us ! (n - 2)) qd (rhat - ucast qd * ucast (vn ! (n - 1)))))"

fun mul_sub_loop :: "u64 \<Rightarrow> u32 \<Rightarrow> bignum \<Rightarrow> bignum \<Rightarrow> bignum \<times> u64" where
  "mul_sub_loop k qd (u # us) (v # vs) =
     (let p = ucast qd * ucast v; t = ucast u - k - (p AND 0xFFFFFFFF)
      in case mul_sub_loop (drop_bit 32 p - signed_drop_bit 32 t) qd us vs of (ds, k') \<Rightarrow> (ucast t # ds, k'))"
| "mul_sub_loop k qd us vs = (us, k)"

fun add_back_loop :: "u64 \<Rightarrow> bignum \<Rightarrow> bignum \<Rightarrow> bignum \<times> u64" where
  "add_back_loop k (u # us) (v # vs) =
     (let t = ucast u + ucast v + k
      in case add_back_loop (signed_drop_bit 32 t) us vs of (ds, k') \<Rightarrow> (ucast t # ds, k'))"
| "add_back_loop k us vs = (us, k)"

definition div_digit :: "bignum \<Rightarrow> nat \<Rightarrow> bignum \<Rightarrow> u32 \<times> bignum" where
  "div_digit vn n us =
     (let qd = estimate_digit vn n us
      in case mul_sub_loop 0 qd (take n us) vn of
           (ds, k) \<Rightarrow>
             (let t = ucast (us ! n) - k
              in if t <s 0
                 then case add_back_loop 0 ds vn of (es, k2) \<Rightarrow> (qd - 1, es @ [ucast t + ucast k2])
                 else (qd, ds @ [ucast t])))"

fun div_loop :: "bignum \<Rightarrow> nat \<Rightarrow> nat \<Rightarrow> bignum \<Rightarrow> bignum \<Rightarrow> bignum \<times> bignum" where
  "div_loop vn n 0 un q = (un, q)"
| "div_loop vn n (Suc j) un q =
     (case div_digit vn n (take (n + 1) (drop j un)) of
        (qd, us) \<Rightarrow> div_loop vn n j (take j un @ us @ drop (j + n + 1) un) (q[j := qd]))"

text \<open>\<open>None\<close> is the result 0, an error.\<close>

definition bn_div_ex ::
  "bignum \<Rightarrow> bignum option \<Rightarrow> bignum \<Rightarrow> nat \<Rightarrow> bignum \<Rightarrow> nat \<Rightarrow> (bignum \<times> bignum option) option" where
  "bn_div_ex q r u m v n =
     (if m < n \<or> n = 0 then None
      else
        (let vtop = v ! (n - 1)
         in if vtop = 0 then None
            else if n = 1 then Some (bn_div_word_ex q r u m vtop)
            else
              (let s = count_leading_zeros vtop;
                   vn = normalized s v n;
                   un = normalized s u m @ [if s \<noteq> 0 then drop_bit (32 - s) (u ! (m - 1)) else 0]
               in case div_loop vn n (m - n + 1) un q of
                    (un', q') \<Rightarrow> Some (q', map_option (\<lambda>b. denormalized s un' n @ drop n b) r))))"

definition DCRYPTO_bn_div ::
  "bignum \<Rightarrow> bignum option \<Rightarrow> bignum \<Rightarrow> bignum \<Rightarrow> (bignum \<times> bignum option) option" where
  "DCRYPTO_bn_div quot remainder src divisor =
     (let src_len = bn_digits src; div_len = bn_digits divisor
      in if src_len < div_len then None
         else case bn_div_ex quot remainder src src_len divisor div_len of
                None \<Rightarrow> None
              | Some (q, r) \<Rightarrow>
                  (let ql = src_len - div_len + 1
                   in Some (take ql q @ replicate (length q - ql) 0,
                            map_option (\<lambda>b. take div_len b @ replicate (length b - div_len) 0) r)))"

section \<open>The estimate\<close>

text \<open>The digits of dividend and divisor that the estimate looks at: \<open>u2 u1 u0\<close> over \<open>v1 v2\<close>, with the lower
  digits \<open>ul\<close> and \<open>vl\<close> below \<open>p\<close>.\<close>

lemma estimate_maxed:
  fixes B :: nat
  assumes "vl < p" "v2 < B" "B \<le> 2 * v1" "2 \<le> B"
  shows "(B - 2) * (vl + p * (v2 + B * v1)) \<le> ul + p * (u0 + B * u1 + B * B * v1)"
proof -
  have "vl + p * v2 \<le> p + p * v2" using assms(1) by simp
  also have "\<dots> = p * (v2 + 1)" by simp
  also have "\<dots> \<le> p * B" using assms(2) by (intro mult_le_mono2) simp
  finally have "(B - 2) * (vl + p * v2) \<le> B * (p * B)" by (intro mult_le_mono) simp_all
  also have "\<dots> \<le> (2 * v1) * (p * B)" using assms(3) by (rule mult_le_mono1)
  finally have low: "(B - 2) * (vl + p * v2) \<le> 2 * (p * B * v1)" by (simp add: algebra_simps)
  have "(B - 2) * (vl + p * (v2 + B * v1)) = (B - 2) * (vl + p * v2) + (B - 2) * (p * B * v1)" by (simp add: algebra_simps)
  also have "\<dots> \<le> 2 * (p * B * v1) + (B - 2) * (p * B * v1)" using low by simp
  also have "\<dots> = (2 + (B - 2)) * (p * B * v1)" by (rule add_mult_distrib [symmetric])
  also have "2 + (B - 2) = B" using assms(4) by simp
  finally show ?thesis by (simp add: algebra_simps)
qed

lemma estimate_top:
  fixes B :: nat
  assumes "vl < p" "v2 < B" "ul + p * (u0 + B * u1 + B * B * u2) < B * (vl + p * (v2 + B * v1))"
  shows "u2 \<le> v1"
proof (rule ccontr)
  assume "\<not> u2 \<le> v1"
  then have "p * (B * B) * (v1 + 1) \<le> p * (B * B) * u2" by (intro mult_le_mono2) simp
  moreover have "B * (vl + p * v2) \<le> B * (p * B)"
  proof -
    have "p * (v2 + 1) \<le> p * B" using assms(2) by (intro mult_le_mono2) simp
    then show ?thesis using assms(1) by (intro mult_le_mono2) simp
  qed
  ultimately show False using assms(3) by (simp add: algebra_simps)
qed

lemma estimate_initial:
  fixes B :: nat
  assumes "ul < p" "u0 < B" "q = (u2 * B + u1) div v1" "0 < v1"
  shows "ul + p * (u0 + B * u1 + B * B * u2) < (q + 1) * (vl + p * (v2 + B * v1))"
proof -
  have "u2 * B + u1 < (q + 1) * v1" unfolding assms(3) using assms(4) by (simp add: dividend_less_div_times)
  then have "p * B * (u2 * B + u1 + 1) \<le> p * B * ((q + 1) * v1)" by (intro mult_le_mono2) simp
  moreover have "p * (u0 + 1) \<le> p * B" using assms(2) by (intro mult_le_mono2) simp
  then have "ul + p * u0 < p * B" using assms(1) by simp
  moreover have "(q + 1) * (p * (B * v1)) \<le> (q + 1) * (vl + p * (v2 + B * v1))" by (intro mult_le_mono2) (simp add: algebra_simps)
  ultimately show ?thesis by (simp add: algebra_simps)
qed

lemma estimate_decrement:
  fixes B :: nat
  assumes "ul < p" "rh + q * v1 = u2 * B + u1" "rh * B + u0 < q * v2"
  shows "ul + p * (u0 + B * u1 + B * B * u2) < q * (vl + p * (v2 + B * v1))"
proof -
  have "u0 + B * u1 + B * B * u2 = B * (u2 * B + u1) + u0" by (simp add: algebra_simps)
  also have "\<dots> = q * (B * v1) + (rh * B + u0)" unfolding assms(2) [symmetric] by (simp add: algebra_simps)
  also have "\<dots> < q * (v2 + B * v1)" using assms(3) by (simp add: algebra_simps)
  finally have "p * (u0 + B * u1 + B * B * u2 + 1) \<le> p * (q * (v2 + B * v1))" by (intro mult_le_mono2) simp
  then show ?thesis using assms(1) by (simp add: algebra_simps)
qed

lemma estimate_done:
  fixes B :: nat
  assumes "vl < p" "v2 < B" "q < B" "rh + q * v1 = u2 * B + u1" "B \<le> rh \<or> q * v2 \<le> rh * B + u0" "0 < v1"
  shows "(q - 1) * (vl + p * (v2 + B * v1)) \<le> ul + p * (u0 + B * u1 + B * B * u2)"
proof -
  let ?V = "vl + p * (v2 + B * v1)"
  have U: "p * (u0 + B * u1 + B * B * u2) = p * (q * (B * v1)) + p * (rh * B + u0)"
    using arg_cong [OF assms(4), of "\<lambda>x. p * (B * x)"] by (simp add: algebra_simps)
  from assms(5) show ?thesis
  proof
    assume "B \<le> rh"
    then have hi: "B * (B * p) \<le> B * (p * rh)" by simp
    have "p * (v2 + 1) \<le> p * B" using assms(2) by (intro mult_le_mono2) simp
    then have "vl + p * v2 \<le> p * B" using assms(1) by simp
    then have "q * (vl + p * v2) \<le> B * (p * B)" using assms(3) by (intro mult_le_mono) simp_all
    then have lo: "q * vl + p * (q * v2) \<le> B * (B * p)" by (simp add: algebra_simps)
    have "q * vl + p * (q * v2) \<le> ul + (p * u0 + B * (p * rh))" using hi lo by linarith
    then have "q * ?V \<le> ul + p * (u0 + B * u1 + B * B * u2)" unfolding U by (simp add: algebra_simps)
    moreover have "(q - 1) * ?V \<le> q * ?V" by (intro mult_le_mono1) simp
    ultimately show ?thesis by (rule order_trans [rotated])
  next
    assume "q * v2 \<le> rh * B + u0"
    then have "p * (q * v2) \<le> p * (rh * B + u0)" by (rule mult_le_mono2)
    then have "q * ?V \<le> q * vl + p * (u0 + B * u1 + B * B * u2)" unfolding U by (simp add: algebra_simps)
    moreover have "q * vl \<le> B * p" using assms(1,3) by (intro mult_le_mono) simp_all
    moreover have "B * p \<le> ?V"
    proof -
      have "B * p * 1 \<le> B * p * v1" using assms(6) by (intro mult_le_mono2) simp
      also have "\<dots> \<le> ?V" by (simp add: algebra_simps)
      finally show ?thesis by simp
    qed
    ultimately have "q * ?V - ?V \<le> p * (u0 + B * u1 + B * B * u2)" by linarith
    then show ?thesis by (simp add: diff_mult_distrib)
  qed
qed

text \<open>The accumulators of the estimate as numbers.\<close>

lemma unat_pair: "unat (push_bit 32 (ucast (h :: u32)) + ucast (l :: u32) :: u64) = unat h * radix + unat l"
proof -
  have "make64 h l = push_bit 32 (ucast h) + ucast l"
  proof -
    have "push_bit 32 (ucast h :: u64) AND ucast l = 0"
      by (rule bit_word_eqI) (auto simp: bit_and_iff bit_push_bit_iff bit_ucast_iff dest: bit_imp_le_length [of l])
    then show ?thesis unfolding make64_def by (simp only: disjunctive_add_eq_or)
  qed
  then show ?thesis using unat_make64 [of h l] by simp
qed

lemma small_digit: "drop_bit 32 (w :: u64) = 0 \<longleftrightarrow> unat w < radix"
proof -
  have "drop_bit 32 w = 0 \<longleftrightarrow> unat (drop_bit 32 w) = 0" by (simp only: unat_eq_zero)
  also have "\<dots> \<longleftrightarrow> unat w < radix" unfolding unat_drop by (simp add: div_eq_0_iff radix_def)
  finally show ?thesis .
qed

lemma digit_square: "unat (a :: u32) * unat (b :: u32) < radix * radix"
  using digit_product [of a b] by linarith

lemma fine_tune_test:
  assumes "unat (rhat :: u64) < radix"
  shows "ucast qd * ucast v2 > push_bit 32 rhat + ucast u0 \<longleftrightarrow> unat rhat * radix + unat (u0 :: u32) < unat (qd :: u32) * unat (v2 :: u32)"
proof -
  define h :: u32 where "h = ucast rhat"
  have h: "unat h = unat rhat" using small_u64_u32 [OF assms] by (simp add: h_def)
  then have "(ucast h :: u64) = rhat" by (simp add: word_unat_eq_iff)
  then have "unat (push_bit 32 rhat + ucast u0) = unat rhat * radix + unat u0" using unat_pair [of h u0] h by simp
  moreover have "unat (ucast qd * ucast v2 :: u64) = unat qd * unat v2" using digit_square [of qd v2] by (simp add: u64_mult)
  ultimately show ?thesis by (simp add: word_less_nat_alt)
qed

lemma fine_tune_correct:
  fixes u0 v1 v2 :: u32 and u1 u2 ul vl p :: nat
  defines "U \<equiv> ul + p * (unat u0 + radix * u1 + radix * radix * u2)"
    and "V \<equiv> vl + p * (unat v2 + radix * unat v1)"
  assumes low: "ul < p" "vl < p" "v1 \<noteq> 0"
    and "unat rhat + unat qd * unat v1 = u2 * radix + u1" "unat rhat < radix + unat v1" "U < (unat qd + 1) * V"
  shows "U < (unat (fine_tune v1 v2 u0 qd rhat) + 1) * V \<and> (unat (fine_tune v1 v2 u0 qd rhat) - 1) * V \<le> U"
  using assms(6-)
proof (induction "unat qd" arbitrary: qd rhat rule: less_induct)
  case less
  have v1: "0 < unat v1" using low(3) by (simp add: unat_gt_0)
  show ?case
  proof (cases "unat rhat < radix \<and> unat rhat * radix + unat u0 < unat qd * unat v2")
    case True
    then have qd: "qd \<noteq> 0" by auto
    then have dec: "unat (qd - 1) = unat qd - 1" "0 < unat qd" by (simp_all add: unat_minus_one unat_gt_0)
    have "unat rhat + unat v1 < radix * radix" using True digit_less [of v1] by (simp add: radix_def)
    then have rh: "unat (rhat + ucast v1) = unat rhat + unat v1" by (simp add: u64_add)
    have "unat qd * unat v1 = unat (qd - 1) * unat v1 + unat v1" using dec by (simp add: algebra_simps)
    then have "unat (rhat + ucast v1) + unat (qd - 1) * unat v1 = u2 * radix + u1" using less.prems(1) rh by linarith
    moreover have "unat (rhat + ucast v1) < radix + unat v1" using rh True by simp
    moreover have "U < (unat (qd - 1) + 1) * V"
      using estimate_decrement [OF low(1) less.prems(1), of "unat u0" "unat v2" vl] True dec unfolding U_def V_def by simp
    ultimately have "U < (unat (fine_tune v1 v2 u0 (qd - 1) (rhat + ucast v1)) + 1) * V \<and>
        (unat (fine_tune v1 v2 u0 (qd - 1) (rhat + ucast v1)) - 1) * V \<le> U"
      using less.hyps [of "qd - 1"] dec by simp
    then show ?thesis using True by (subst (1 2) fine_tune.simps) (simp add: small_digit fine_tune_test)
  next
    case False
    then have "fine_tune v1 v2 u0 qd rhat = qd" by (subst fine_tune.simps) (auto simp: small_digit fine_tune_test)
    moreover have "radix \<le> unat rhat \<or> unat qd * unat v2 \<le> unat rhat * radix + unat u0" using False by linarith
    from estimate_done [OF low(2) digit_less digit_less less.prems(1) this v1, of ul] have "(unat qd - 1) * V \<le> U"
      unfolding U_def V_def .
    ultimately show ?thesis using less.prems(3) by simp
  qed
qed

text \<open>A number of at least two digits, with its two or three top digits taken off.\<close>

lemma num_top2:
  assumes "length vs = n" "2 \<le> n"
  shows "num vs = num (take (n - 2) vs) + radix ^ (n - 2) * (unat (vs ! (n - 2)) + radix * unat (vs ! (n - 1)))"
    "num (take (n - 2) vs) < radix ^ (n - 2)"
proof -
  have n: "n = Suc (Suc (n - 2))" using assms(2) by simp
  have "num vs = num (take (Suc (Suc (n - 2))) vs)" using assms n by simp
  also have "\<dots> = num (take (n - 2) vs) + radix ^ (n - 2) * unat (vs ! (n - 2)) + radix ^ Suc (n - 2) * unat (vs ! Suc (n - 2))"
    using assms n by (subst num_take_Suc; simp; subst num_take_Suc) simp_all
  also have "Suc (n - 2) = n - 1" using assms(2) by simp
  finally show "num vs = num (take (n - 2) vs) + radix ^ (n - 2) * (unat (vs ! (n - 2)) + radix * unat (vs ! (n - 1)))"
    using assms(2) by (simp add: algebra_simps power_eq_if)
  show "num (take (n - 2) vs) < radix ^ (n - 2)" by (rule num_take_less)
qed

lemma num_top3:
  assumes "length us = n + 1" "2 \<le> n"
  shows "num us = num (take (n - 2) us) +
    radix ^ (n - 2) * (unat (us ! (n - 2)) + radix * unat (us ! (n - 1)) + radix * radix * unat (us ! n))"
proof -
  have "num us = num (take n us) + radix ^ n * unat (us ! n)" using num_take_Suc [of n us] assms(1) by simp
  moreover have "num (take n us) = num (take (n - 2) us) + radix ^ (n - 2) * (unat (us ! (n - 2)) + radix * unat (us ! (n - 1)))"
    using num_top2(1) [of "take n us" n] assms by (simp add: min_def)
  moreover have "radix ^ n = radix ^ (n - 2) * (radix * radix)"
    using assms(2) by (metis add_diff_inverse_nat not_less power2_eq_square power_add mult.commute)
  ultimately show ?thesis by (simp add: algebra_simps)
qed

lemma estimate_digit_correct:
  assumes len: "length vn = n" "length us = n + 1" "2 \<le> n" and top: "2 ^ 31 \<le> unat (vn ! (n - 1))"
    and lt: "num us < radix * num vn"
  shows "num us < (unat (estimate_digit vn n us) + 1) * num vn \<and> (unat (estimate_digit vn n us) - 1) * num vn \<le> num us"
proof -
  let ?v1 = "vn ! (n - 1)" and ?v2 = "vn ! (n - 2)" and ?u2 = "us ! n" and ?u1 = "us ! (n - 1)" and ?u0 = "us ! (n - 2)"
  note V = num_top2 [OF len(1,3)]
  note U = num_top3 [OF len(2,3)] num_take_less [of "n - 2" us]
  show ?thesis
  proof (cases "?u2 = ?v1")
    case True
    have "(radix - 2) * num vn \<le> num us"
      using estimate_maxed [OF V(2) digit_less [of ?v2], of "unat ?v1"] top True unfolding U(1) V(1) by (simp add: radix_def)
    moreover have "unat (0xFFFFFFFF :: u32) = radix - 1" by (simp add: radix_def)
    ultimately show ?thesis using True lt by (simp add: estimate_digit_def radix_def)
  next
    case False
    have v1: "?v1 \<noteq> 0" "0 < unat ?v1" using top by auto
    have "unat ?u2 \<le> unat ?v1" by (rule estimate_top [OF V(2) digit_less]) (use lt in \<open>simp only: U(1) V(1)\<close>)
    moreover have "unat ?u2 \<noteq> unat ?v1" using False by (simp add: word_unat_eq_iff)
    ultimately have u2: "unat ?u2 < unat ?v1" by simp
    define rh :: u64 where "rh = push_bit 32 (ucast ?u2) + ucast ?u1"
    define qd :: u32 where "qd = ucast (udiv32 rh ?v1)"
    have rh: "unat rh = unat ?u2 * radix + unat ?u1" unfolding rh_def by (rule unat_pair)
    have "unat rh < radix * unat ?v1" unfolding rh using digit_pair_less [OF u2] by (simp add: mult.commute)
    then have "unat rh div unat ?v1 < radix" by (rule less_mult_imp_div_less)
    then have qd: "unat qd = unat rh div unat ?v1"
      unfolding qd_def using udiv32_div [OF v1(1), of rh] by (simp add: small_u64_u32)
    have le: "unat qd * unat ?v1 \<le> unat rh" unfolding qd by (rule div_times_less_eq_dividend)
    have "unat (ucast qd * ucast ?v1 :: u64) = unat qd * unat ?v1" using digit_square [of qd ?v1] by (simp add: u64_mult)
    then have r: "unat (rh - ucast qd * ucast ?v1) = unat rh - unat qd * unat ?v1" using le by (simp add: unat_sub word_le_nat_alt)
    have e: "estimate_digit vn n us = fine_tune ?v1 ?v2 ?u0 qd (rh - ucast qd * ucast ?v1)"
      using False by (simp add: estimate_digit_def Let_def rh_def qd_def)
    have "unat rh - unat qd * unat ?v1 = unat rh mod unat ?v1" unfolding qd by (simp add: minus_div_mult_eq_mod)
    then have "unat rh - unat qd * unat ?v1 < radix + unat ?v1" using v1(2) by (simp add: trans_less_add2)
    then show ?thesis
      unfolding e U(1) V(1)
      by (intro fine_tune_correct [OF U(2) V(2) v1(1)] estimate_initial [OF U(2) digit_less qd [unfolded rh] v1(2)])
        (use r le rh in simp_all)
  qed
qed

section \<open>Multiply and subtract, add back\<close>

lemma low_half: "uint ((p :: u64) AND 0xFFFFFFFF) = uint p mod int radix"
proof -
  have "p AND 0xFFFFFFFF = take_bit 32 p" by (simp add: take_bit_eq_mask mask_eq_exp_minus_1)
  then have "uint (p AND 0xFFFFFFFF) = take_bit 32 (uint p)" by (simp only: unsigned_take_bit_eq)
  then show ?thesis by (simp only: take_bit_eq_mod radix_def) simp
qed

lemma sint_small64: "uint (w :: u64) < 2 ^ 63 \<Longrightarrow> sint w = uint w"
  by (simp add: sint_uint signed_take_bit_int_eq_self order_trans [OF _ unsigned_greater_eq])

lemma high_half:
  fixes p :: u64
  shows "sint (drop_bit 32 p) = uint p div int radix" and "0 \<le> sint (drop_bit 32 p)"
proof -
  have u: "uint (drop_bit 32 p) = uint p div int radix" unfolding uint_unat unat_drop radix_def by (rule zdiv_int)
  have "unat p div radix < radix" using u64_bound [of p] by (rule less_mult_imp_div_less)
  then have "uint p div int radix < int radix" unfolding uint_unat by (simp only: of_nat_less_iff flip: zdiv_int)
  then have "uint (drop_bit 32 p) < 2 ^ 63" unfolding u by (simp add: radix_def)
  then have s: "sint (drop_bit 32 p) = uint (drop_bit 32 p)" by (rule sint_small64)
  then show "sint (drop_bit 32 p) = uint p div int radix" unfolding u .
  show "0 \<le> sint (drop_bit 32 p)" unfolding s by (rule unsigned_greater_eq)
qed

lemma i64_range: "- 3 * int radix \<le> x \<Longrightarrow> x \<le> 3 * int radix \<Longrightarrow> - (2 ^ 63) \<le> x \<and> x < 2 ^ 63"
  by (simp add: radix_def)

text \<open>One step of the multiplication and subtraction.\<close>

lemma mul_sub_step:
  fixes u v qd :: u32 and k :: u64
  defines "p \<equiv> ucast qd * ucast v :: u64"
  defines "t \<equiv> ucast u - k - (p AND 0xFFFFFFFF)"
  defines "k1 \<equiv> drop_bit 32 p - signed_drop_bit 32 t"
  assumes k: "0 \<le> sint k" "sint k \<le> int radix"
  shows "uint (ucast t :: u32) = uint u - sint k - uint qd * uint v + int radix * sint k1"
    and "0 \<le> sint k1" "sint k1 \<le> int radix"
proof -
  have pn: "unat p = unat qd * unat v" using digit_square [of qd v] by (simp add: p_def u64_mult)
  then have p: "uint p = uint qd * uint v" unfolding uint_unat by simp
  have lo: "sint (p AND 0xFFFFFFFF) = uint p mod int radix"
    using sint_small64 [of "p AND 0xFFFFFFFF"] pos_mod_bound [of "int radix" "uint p"] unfolding low_half by (simp add: radix_def)
  have b: "0 \<le> uint p mod int radix" "uint p mod int radix < int radix" by simp_all
  have u: "0 \<le> uint u" "uint u < int radix" by (rule unsigned_greater_eq, rule uint_digit_less)
  have "- 3 * int radix \<le> uint u - sint k" "uint u - sint k \<le> 3 * int radix" using u k by linarith+
  then have "sint (ucast u - k) = uint u - sint k" using i64_diff [of "ucast u" k] i64_range by simp
  moreover have "- 3 * int radix \<le> uint u - sint k - uint p mod int radix" "uint u - sint k - uint p mod int radix \<le> 3 * int radix"
    using u k b by linarith+
  ultimately have t: "sint t = uint u - sint k - uint p mod int radix"
    using i64_diff [of "ucast u - k" "p AND 0xFFFFFFFF"] i64_range lo unfolding t_def by simp
  define h where "h = sint (signed_drop_bit 32 t)"
  have split: "uint (ucast t :: u32) + int radix * h = sint t" unfolding h_def by (rule split_i64)
  have d: "0 \<le> uint (ucast t :: u32)" "uint (ucast t :: u32) < int radix" by (rule unsigned_greater_eq, rule uint_digit_less)
  have "int radix * h < int radix * 1" "int radix * - 3 < int radix * h" using split d t u k b by linarith+
  then have h: "- 2 \<le> h" "h \<le> 0" by (simp_all only: mult_less_cancel_left) auto
  have "unat p < (radix - 1) * radix"
    using mult_le_mono [OF digit_le [of qd] digit_le [of v]] unfolding pn by (rule order.strict_trans1) (simp add: radix_def)
  then have "unat p div radix < radix - 1" by (rule less_mult_imp_div_less)
  then have "int (unat p div radix) \<le> int radix - 2" by linarith
  then have hi: "uint p div int radix \<le> int radix - 2" unfolding uint_unat zdiv_int .
  have "- 3 * int radix \<le> uint p div int radix - h" "uint p div int radix - h \<le> 3 * int radix"
    using high_half [of p] hi h by linarith+
  then have k1: "sint k1 = uint p div int radix - h"
    using i64_diff [of "drop_bit 32 p" "signed_drop_bit 32 t"] i64_range high_half(1) [of p] unfolding k1_def h_def by simp
  show "0 \<le> sint k1" "sint k1 \<le> int radix" using k1 h hi high_half [of p] by linarith+
  have "uint p = int radix * (uint p div int radix) + uint p mod int radix" by simp
  moreover have "int radix * sint k1 = int radix * (uint p div int radix) - int radix * h" unfolding k1 by (rule right_diff_distrib)
  ultimately show "uint (ucast t :: u32) = uint u - sint k - uint qd * uint v + int radix * sint k1"
    using split t p by linarith
qed

lemma mul_sub_loop_correct:
  assumes "mul_sub_loop k qd us vs = (ds, k')" "length us = length vs" "0 \<le> sint k" "sint k \<le> int radix"
  shows "int (num ds) = int (num us) - uint qd * int (num vs) - sint k + int radix ^ length us * sint k' \<and>
    length ds = length us \<and> 0 \<le> sint k' \<and> sint k' \<le> int radix"
  using assms
proof (induction k qd us vs arbitrary: ds k' rule: mul_sub_loop.induct)
  case (1 k qd u us v vs)
  define p :: u64 where "p = ucast qd * ucast v"
  define t where "t = ucast u - k - (p AND 0xFFFFFFFF)"
  define k1 where "k1 = drop_bit 32 p - signed_drop_bit 32 t"
  obtain es where es: "mul_sub_loop k1 qd us vs = (es, k')" "ds = ucast t # es"
    using "1.prems"(1) by (auto simp: Let_def p_def t_def k1_def split: prod.splits)
  note st = mul_sub_step [OF "1.prems"(3,4), where u = u and qd = qd and v = v, folded p_def, folded t_def, folded k1_def]
  have ih: "int (num es) = int (num us) - uint qd * int (num vs) - sint k1 + int radix ^ length us * sint k' \<and>
    length es = length us \<and> 0 \<le> sint k' \<and> sint k' \<le> int radix"
    using "1.IH" [OF p_def t_def es(1) [unfolded k1_def]] "1.prems"(2) st(2,3) unfolding k1_def by simp
  have "uint (ucast t :: u32) + int radix * - sint k1 = uint u - sint k - uint qd * uint v" using st(1) by simp
  moreover have "int (num es) + int radix ^ length us * - sint k' = int (num us) - uint qd * int (num vs) + - sint k1" using ih by simp
  ultimately have "uint (ucast t :: u32) + int radix * int (num es) + int radix * int radix ^ length us * - sint k' =
      uint u - sint k - uint qd * uint v + int radix * (int (num us) - uint qd * int (num vs))" by (rule carry_chain)
  then have "int (num ds) = int (num (u # us)) - uint qd * int (num (v # vs)) - sint k + int radix ^ length (u # us) * sint k'"
    using es(2) by (simp add: algebra_simps)
  then show ?case using ih es(2) by (simp only: length_Cons)
qed auto

lemma add_back_loop_correct:
  assumes "add_back_loop k us vs = (ds, k')" "length us = length vs" "0 \<le> sint k" "sint k \<le> 1"
  shows "int (num ds) + int radix ^ length us * sint k' = int (num us) + int (num vs) + sint k \<and>
    length ds = length us \<and> 0 \<le> sint k' \<and> sint k' \<le> 1"
  using assms
proof (induction k us vs arbitrary: ds k' rule: add_back_loop.induct)
  case (1 k u us v vs)
  define t :: u64 where "t = ucast u + ucast v + k"
  obtain es where es: "add_back_loop (signed_drop_bit 32 t) us vs = (es, k')" "ds = ucast t # es"
    using "1.prems"(1) by (auto simp: Let_def t_def split: prod.splits)
  have b: "0 \<le> uint u" "uint u < int radix" "0 \<le> uint v" "uint v < int radix"
    by (rule unsigned_greater_eq, rule uint_digit_less, rule unsigned_greater_eq, rule uint_digit_less)
  have "- 3 * int radix \<le> uint u + uint v" "uint u + uint v \<le> 3 * int radix" using b by linarith+
  then have "sint (ucast u + ucast v :: u64) = uint u + uint v" using i64_add [of "ucast u" "ucast v"] i64_range by simp
  moreover have "- 3 * int radix \<le> uint u + uint v + sint k" "uint u + uint v + sint k \<le> 3 * int radix"
    using b "1.prems"(3,4) by linarith+
  ultimately have t: "sint t = uint u + uint v + sint k"
    using i64_add [of "ucast u + ucast v" k] i64_range unfolding t_def by simp
  define h where "h = sint (signed_drop_bit 32 t)"
  have split: "uint (ucast t :: u32) + int radix * h = sint t" unfolding h_def by (rule split_i64)
  have d: "0 \<le> uint (ucast t :: u32)" "uint (ucast t :: u32) < int radix" by (rule unsigned_greater_eq, rule uint_digit_less)
  have "int radix * h < int radix * 2" "int radix * - 1 < int radix * h" using split d t b "1.prems"(3,4) by linarith+
  then have h: "0 \<le> h" "h \<le> 1" by (simp_all only: mult_less_cancel_left) auto
  have ih: "int (num es) + int radix ^ length us * sint k' = int (num us) + int (num vs) + h \<and>
    length es = length us \<and> 0 \<le> sint k' \<and> sint k' \<le> 1"
    using "1.IH" [OF t_def es(1)] "1.prems"(2) h unfolding h_def by simp
  from carry_chain [OF split ih [THEN conjunct1]] show ?case using t es(2) ih by (simp add: algebra_simps)
qed auto

section \<open>One digit of the quotient\<close>

lemma sint_inj64: "sint (v :: u64) = sint w \<Longrightarrow> v = w"
  by (rule signed_word_eqI)

lemma sint_digit:
  assumes "0 \<le> sint (w :: u64)" "sint w < int radix"
  shows "uint (ucast w :: u32) = sint w"
proof -
  have "0 \<le> uint (ucast w :: u32)" "uint (ucast w :: u32) < int radix" by (rule unsigned_greater_eq, rule uint_digit_less)
  then have "int radix * sint (signed_drop_bit 32 w) < int radix * 1" "int radix * - 1 < int radix * sint (signed_drop_bit 32 w)"
    using split_i64 [of w] assms by linarith+
  then have "sint (signed_drop_bit 32 w) = 0" by (simp_all only: mult_less_cancel_left) auto
  then show ?thesis using split_i64 [of w] by simp
qed

lemma estimate_int:
  assumes "a < (unat (e :: u32) + 1) * v" "(unat e - 1) * v \<le> a"
  shows "int a < (uint e + 1) * int v" "e \<noteq> 0 \<Longrightarrow> (uint e - 1) * int v \<le> int a"
proof -
  have "int a < int ((unat e + 1) * v)" using assms(1) by (simp only: of_nat_less_iff)
  then show "int a < (uint e + 1) * int v" by (simp add: algebra_simps)
  assume "e \<noteq> 0"
  then have "unat e - 1 + 1 = unat e" by (simp add: unat_gt_0)
  then have "int (unat e - 1) = uint e - 1" unfolding uint_unat by linarith
  moreover have "int ((unat e - 1) * v) \<le> int a" using assms(2) by (simp only: of_nat_le_iff)
  ultimately show "(uint e - 1) * int v \<le> int a" by simp
qed

lemma digits_bound: "length ds = n \<Longrightarrow> int (num ds) < int radix ^ n"
  using num_less [of ds] by (simp flip: of_nat_power)

text \<open>The subtraction of \<open>e\<close> times the divisor; \<open>t\<close> is the signed top digit of the difference.\<close>

lemma mul_sub_digit:
  assumes len: "length vn = n" "length us = n + 1" and m: "mul_sub_loop 0 e (take n us) vn = (ds, k)"
    and t: "t = ucast (us ! n) - k"
  shows "int (num ds) + int radix ^ n * sint t = int (num us) - uint e * int (num vn)" "length ds = n" "sint t < int radix"
proof -
  have l: "int (num ds) = int (num (take n us)) - uint e * int (num vn) + int radix ^ n * sint k" "length ds = n"
    "0 \<le> sint k" "sint k \<le> int radix"
    using mul_sub_loop_correct [OF m] len by simp_all
  have u: "0 \<le> uint (us ! n)" "uint (us ! n) < int radix" by (rule unsigned_greater_eq, rule uint_digit_less)
  have "- 3 * int radix \<le> uint (us ! n) - sint k" "uint (us ! n) - sint k \<le> 3 * int radix" using u l(3,4) by linarith+
  then have st: "sint t = uint (us ! n) - sint k" using i64_diff [of "ucast (us ! n)" k] i64_range unfolding t by simp
  have "num us = num (take n us) + radix ^ n * unat (us ! n)" using num_take_Suc [of n us] len(2) by simp
  then have us: "int (num us) = int (num (take n us)) + int radix ^ n * uint (us ! n)" unfolding uint_unat by simp
  show "int (num ds) + int radix ^ n * sint t = int (num us) - uint e * int (num vn)"
    unfolding l(1) us st by (simp add: algebra_simps)
  show "length ds = n" by (rule l(2))
  show "sint t < int radix" unfolding st using u l(3) by linarith
qed

text \<open>When the estimate was one too large, adding the divisor once restores a remainder.\<close>

lemma add_back_digit:
  assumes diff: "int (num ds) + int radix ^ n * sint (t :: u64) = D" and len: "length ds = n" "length vn = n"
    and neg: "sint t < 0" and D: "0 \<le> D + int (num vn)" and a: "add_back_loop 0 ds vn = (es, k2)"
  shows "ucast t + ucast k2 = (0 :: u32)" "int (num es) = D + int (num vn)" "length es = n" "D < 0"
proof -
  have "sint t \<le> - 1" using neg by simp
  then have "int radix ^ n * sint t \<le> int radix ^ n * - 1" by (intro mult_left_mono) simp_all
  then show "D < 0" using diff digits_bound [OF len(1)] by linarith
  have b: "int (num es) + int radix ^ n * sint k2 = int (num ds) + int (num vn)" "length es = n" "0 \<le> sint k2" "sint k2 \<le> 1"
    using add_back_loop_correct [OF a] len by simp_all
  have R: "int (num es) + int radix ^ n * (sint t + sint k2) = D + int (num vn)" using b(1) diff by (simp add: algebra_simps)
  have "0 \<le> int (num es)" "int (num es) < int radix ^ n" "int (num vn) < int radix ^ n"
    using digits_bound [OF b(2)] digits_bound [OF len(2)] by simp_all
  then have "int radix ^ n * (sint t + sint k2) < int radix ^ n * 1" "int radix ^ n * - 1 < int radix ^ n * (sint t + sint k2)"
    using R D \<open>D < 0\<close> by linarith+
  then have "sint t + sint k2 = 0" by (simp_all only: mult_less_cancel_left) auto
  with \<open>sint t \<le> - 1\<close> b(4) have v: "sint t = - 1" "sint k2 = 1" "sint t + sint k2 = 0" by linarith+
  have "t = - 1" by (rule sint_inj64) (simp only: v(1) sint_n1)
  moreover have "k2 = 1" by (rule sint_inj64) (simp add: v(2))
  ultimately show "ucast t + ucast k2 = (0 :: u32)" by simp
  show "int (num es) = D + int (num vn)" "length es = n" using R v(3) b(2) by simp_all
qed

lemma div_digit_correct:
  assumes len: "length vn = n" "length us = n + 1" "2 \<le> n" and top: "2 ^ 31 \<le> unat (vn ! (n - 1))"
    and lt: "num us < radix * num vn" and d: "div_digit vn n us = (qd, us')"
  shows "num us = unat qd * num vn + num us' \<and> num us' < num vn \<and> length us' = n + 1"
proof -
  define e where "e = estimate_digit vn n us"
  note est = estimate_digit_correct [OF len top lt, folded e_def]
  note less = estimate_int [OF conjunct1 [OF est] conjunct2 [OF est]]
  obtain ds k where m: "mul_sub_loop 0 e (take n us) vn = (ds, k)" by fastforce
  define t where "t = ucast (us ! n) - k"
  note l = mul_sub_digit [OF len(1,2) m t_def]
  have goal: ?thesis if "length us' = n + 1" "int (num us') = int (num us) - uint qd * int (num vn)" "int (num us') < int (num vn)"
  proof -
    have "int (num us) = int (unat qd * num vn + num us')" using that(2) by simp
    then show ?thesis using that(1,3) unfolding of_nat_eq_iff of_nat_less_iff by simp
  qed
  show ?thesis
  proof (cases "t <s 0")
    case False
    then have "uint (ucast t :: u32) = sint t" by (intro sint_digit l(3)) (simp add: word_sless_alt)
    moreover have "div_digit vn n us = (e, ds @ [ucast t])"
      using m False unfolding div_digit_def Let_def e_def [symmetric] by (simp flip: t_def)
    then have r: "qd = e" "us' = ds @ [ucast t]" using d by simp_all
    have "num us' = num ds + radix ^ n * unat (ucast t :: u32)" using l(2) by (simp add: r(2) num_snoc)
    then have "int (num us') = int (num ds) + int radix ^ n * uint (ucast t :: u32)" unfolding uint_unat by simp
    ultimately have "int (num us') = int (num us) - uint e * int (num vn)" using l(1) by simp
    then show ?thesis using less(1) l(2) r by (intro goal) (simp_all add: algebra_simps)
  next
    case True
    then have neg: "sint t < 0" by (simp add: word_sless_alt)
    obtain es k2 where a: "add_back_loop 0 ds vn = (es, k2)" by fastforce
    have "e \<noteq> 0"
    proof
      assume "e = 0"
      then show False using add_back_digit(4) [OF l(1,2) len(1) neg _ a] by simp
    qed
    then have "0 \<le> int (num us) - uint e * int (num vn) + int (num vn)" using less(2) by (simp add: algebra_simps)
    note b = add_back_digit [OF l(1,2) len(1) neg this a]
    have "div_digit vn n us = (e - 1, es @ [ucast t + ucast k2])"
      using m a True unfolding div_digit_def Let_def e_def [symmetric] by (simp flip: t_def)
    then have r: "qd = e - 1" "us' = es @ [0]" using d b(1) by simp_all
    have "unat (e - 1) + 1 = unat e" using \<open>e \<noteq> 0\<close> by (simp add: unat_minus_one unat_gt_0)
    then have "uint qd = uint e - 1" unfolding r(1) uint_unat by linarith
    then have "int (num us') = int (num us) - uint qd * int (num vn)" using b(2) by (simp add: r(2) num_snoc left_diff_distrib)
    then show ?thesis using b by (intro goal) (simp_all add: r(2) num_snoc)
  qed
qed

section \<open>All digits\<close>

lemma num_take_top_zero:
  assumes "length us = n + 1" "num us < radix ^ n"
  shows "num (take n us) = num us"
proof -
  have e: "num us = num (take n us) + radix ^ n * unat (us ! n)" using num_take_Suc [of n us] assms(1) by simp
  have "unat (us ! n) = 0"
  proof (rule ccontr)
    assume "unat (us ! n) \<noteq> 0"
    then have "radix ^ n * 1 \<le> radix ^ n * unat (us ! n)" by (intro mult_le_mono2) simp
    then show False using e assms(2) by linarith
  qed
  then show ?thesis using e by simp
qed

lemma updated_digit:
  assumes "j < length q" "drop j q' = drop j (q[j := qd])" "length q' = length q"
  shows "q' ! j = qd \<and> drop (Suc j) q' = drop (Suc j) q"
proof -
  have "q' ! j # drop (Suc j) q' = qd # drop (Suc j) q"
    using assms by (simp add: Cons_nth_drop_Suc) (simp flip: Cons_nth_drop_Suc)
  then show ?thesis by simp
qed

lemma div_loop_correct:
  assumes "length vn = n" "2 \<le> n" "2 ^ 31 \<le> unat (vn ! (n - 1))"
    and "j + n \<le> length un" "num (take n (drop j un)) < num vn" "j \<le> length q" "div_loop vn n j un q = (un', q')"
  shows "num (take (j + n) un) = num (take j q') * num vn + num (take n un') \<and> num (take n un') < num vn \<and>
    drop j q' = drop j q \<and> length un' = length un \<and> length q' = length q"
  using assms(4-)
proof (induction j arbitrary: un q)
  case (Suc j)
  let ?V = "num vn"
  define us where "us = take (n + 1) (drop j un)"
  have us: "us = un ! j # take n (drop (Suc j) un)" "length us = n + 1"
    using Suc.prems(1) by (simp_all add: us_def flip: Cons_nth_drop_Suc)
  have lt: "num us < radix * ?V"
    unfolding us(1) using digit_pair_less [OF Suc.prems(2), of "un ! j"] by (simp add: mult.commute add.commute)
  obtain qd us' where d: "div_digit vn n us = (qd, us')" by fastforce
  note dd = div_digit_correct [OF assms(1) us(2) assms(2,3) lt d]
  define un2 where "un2 = take j un @ us' @ drop (j + n + 1) un"
  have j: "length (take j un) = j" using Suc.prems(1) by simp
  have "num us' < radix ^ n" using dd num_less [of vn] assms(1) by simp
  then have low: "num (take n us') = num us'" using dd num_take_top_zero by blast
  have sl: "take n (drop j un2) = take n us'" using j dd by (simp add: un2_def)
  have len2: "length un2 = length un" using j dd Suc.prems(1) by (simp add: un2_def)
  have run: "div_loop vn n j un2 (q[j := qd]) = (un', q')" using Suc.prems(4) d by (simp add: un2_def us_def)
  have ih: "num (take (j + n) un2) = num (take j q') * ?V + num (take n un') \<and> num (take n un') < ?V \<and>
      drop j q' = drop j (q[j := qd]) \<and> length un' = length un2 \<and> length q' = length (q[j := qd])"
    by (rule Suc.IH [OF _ _ _ run]) (use Suc.prems(1,3) len2 sl low dd in simp_all)
  have qj: "q' ! j = qd" "drop (Suc j) q' = drop (Suc j) q" "j < length q'" using updated_digit [of j q q' qd] ih Suc.prems(3) by simp_all
  have "take (j + n) un2 = take j un @ take n us'" using j dd by (simp add: un2_def)
  then have a: "num (take (j + n) un2) = num (take j un) + radix ^ j * num us'" using j low by (simp add: num_append)
  have "take (Suc j + n) un = take j un @ us" using take_add [of j "n + 1" un] by (simp add: us_def)
  then have "num (take (Suc j + n) un) = num (take j un) + radix ^ j * (unat qd * ?V + num us')"
    using j dd by (simp add: num_append)
  also have "\<dots> = num (take (j + n) un2) + radix ^ j * unat qd * ?V" unfolding a by (simp add: algebra_simps)
  also have "\<dots> = num (take (Suc j) q') * ?V + num (take n un')"
    using ih qj by (simp add: num_take_Suc algebra_simps)
  finally show ?case using ih qj len2 by simp
qed simp

section \<open>Normalization\<close>

lemma normalized_num:
  assumes "s < 32" "n \<le> length v"
  shows "num (normalized s v n) + radix ^ n * (if n = 0 then 0 else unat (v ! (n - 1)) div 2 ^ (32 - s)) = num (take n v) * 2 ^ s
    \<and> length (normalized s v n) = n"
proof (cases "s = 0")
  case True
  have "unat (v ! (n - 1)) div 2 ^ 32 = 0" using digit_less [of "v ! (n - 1)"] by (simp add: radix_def)
  then show ?thesis using True assms(2) by (simp add: normalized_def)
next
  case False
  show ?thesis using assms(2)
  proof (induction n)
    case (Suc n)
    let ?d = "if 0 < n then push_bit s (v ! n) OR drop_bit (32 - s) (v ! (n - 1)) else push_bit s (v ! 0)"
    have nz: "normalized s v (Suc n) = normalized s v n @ [?d]" using False by (simp add: normalized_def)
    have dg: "unat ?d + radix * (unat (v ! n) div 2 ^ (32 - s)) =
        unat (v ! n) * 2 ^ s + (if n = 0 then 0 else unat (v ! (n - 1)) div 2 ^ (32 - s))"
      using unat_shift_digit [of s "v ! n" "v ! (n - 1)"] unat_shift_digit [of s "v ! n" 0] False assms(1) by (cases n) simp_all
    have ih: "num (normalized s v n) + radix ^ n * (if n = 0 then 0 else unat (v ! (n - 1)) div 2 ^ (32 - s)) = num (take n v) * 2 ^ s"
      "length (normalized s v n) = n" using Suc by simp_all
    have "num (normalized s v (Suc n)) + radix ^ Suc n * (unat (v ! n) div 2 ^ (32 - s)) =
        num (normalized s v n) + radix ^ n * (unat ?d + radix * (unat (v ! n) div 2 ^ (32 - s)))"
      unfolding nz num_snoc ih(2) by (simp add: algebra_simps)
    also have "\<dots> = num (take n v) * 2 ^ s + radix ^ n * (unat (v ! n) * 2 ^ s)"
      unfolding dg ih(1) [symmetric] by (simp add: algebra_simps)
    also have "\<dots> = num (take (Suc n) v) * 2 ^ s" using Suc.prems by (simp add: num_take_Suc algebra_simps)
    finally show ?case using ih(2) nz by simp
  qed (simp add: normalized_def)
qed

lemma denormalized_num:
  assumes "0 < s" "s < 32" "m < length un"
  shows "num (map (\<lambda>i. drop_bit s (un ! i) OR push_bit (32 - s) (un ! (i + 1))) [0..<m]) * 2 ^ s + unat (un ! 0) mod 2 ^ s =
    num (take m un) + radix ^ m * (unat (un ! m) mod 2 ^ s)"
  using assms(3)
proof (induction m)
  case (Suc m)
  let ?d = "drop_bit s (un ! m) OR push_bit (32 - s) (un ! (m + 1))"
  have "num (map (\<lambda>i. drop_bit s (un ! i) OR push_bit (32 - s) (un ! (i + 1))) [0..<Suc m]) * 2 ^ s + unat (un ! 0) mod 2 ^ s =
      num (take m un) + radix ^ m * (unat ?d * 2 ^ s + unat (un ! m) mod 2 ^ s)"
    using Suc by (simp add: num_snoc algebra_simps)
  also have "\<dots> = num (take m un) + radix ^ m * (unat (un ! m) + radix * (unat (un ! (m + 1)) mod 2 ^ s))"
    unfolding unat_unshift_digit [OF assms(1,2)] ..
  finally show ?case using Suc.prems by (simp add: num_take_Suc algebra_simps)
qed simp

lemma denormalized_correct:
  assumes "s < 32" "0 < n" "n \<le> length un" "2 ^ s dvd num (take n un)"
  shows "num (denormalized s un n) * 2 ^ s = num (take n un)" "length (denormalized s un n) = n"
proof -
  show "length (denormalized s un n) = n" using assms(2,3) by (simp add: denormalized_def)
  show "num (denormalized s un n) * 2 ^ s = num (take n un)"
  proof (cases "s = 0")
    case True
    then show ?thesis by (simp add: denormalized_def)
  next
    case False
    then have pos: "0 < s" by simp
    define m where "m = n - 1"
    have m: "n = Suc m" "m < length un" using assms(2,3) by (simp_all add: m_def)
    let ?low = "map (\<lambda>i. drop_bit s (un ! i) OR push_bit (32 - s) (un ! (i + 1))) [0..<m]"
    have "num (denormalized s un n) * 2 ^ s + unat (un ! 0) mod 2 ^ s =
        num ?low * 2 ^ s + unat (un ! 0) mod 2 ^ s + radix ^ m * (unat (un ! m) div 2 ^ s * 2 ^ s)"
      using False m by (simp add: denormalized_def num_snoc unat_drop algebra_simps)
    also have "\<dots> = num (take m un) + radix ^ m * (unat (un ! m) div 2 ^ s * 2 ^ s + unat (un ! m) mod 2 ^ s)"
      unfolding denormalized_num [OF pos assms(1) m(2)] by (simp only: add_mult_distrib2 ac_simps)
    also have "\<dots> = num (take n un)" unfolding div_mult_mod_eq using m by (simp add: num_take_Suc)
    finally have e: "num (denormalized s un n) * 2 ^ s + unat (un ! 0) mod 2 ^ s = num (take n un)" .
    have "unat (un ! 0) mod 2 ^ s = (num (denormalized s un n) * 2 ^ s + unat (un ! 0) mod 2 ^ s) mod 2 ^ s" by simp
    also have "\<dots> = 0" unfolding e using assms(4) by (simp add: dvd_eq_mod_eq_0)
    finally show ?thesis using e by linarith
  qed
qed

section \<open>Quotient and remainder\<close>

lemma div_word_loop_correct:
  assumes "d \<noteq> 0" "div_word_loop u d i rem q = (q', rem')" "unat rem < unat d" "i \<le> length u" "i \<le> length q"
  shows "num (take i u) + radix ^ i * unat rem = num (take i q') * unat d + unat rem' \<and> unat rem' < unat d \<and>
    drop i q' = drop i q \<and> length q' = length q"
  using assms(2-)
proof (induction i arbitrary: rem q)
  case (Suc i)
  define tmp :: u64 where "tmp = push_bit 32 (ucast rem) + ucast (u ! i)"
  define qd :: u32 where "qd = ucast (udiv32 tmp d)"
  have tmp: "unat tmp = unat rem * radix + unat (u ! i)" unfolding tmp_def by (rule unat_pair)
  have "unat tmp < radix * unat d" unfolding tmp using digit_pair_less [OF Suc.prems(2)] by (simp add: mult.commute)
  then have "unat tmp div unat d < radix" by (rule less_mult_imp_div_less)
  then have qd: "unat qd = unat tmp div unat d" unfolding qd_def using udiv32_div [OF assms(1)] by (simp add: small_u64_u32)
  have "unat (ucast qd * ucast d :: u64) = unat qd * unat d" using digit_square [of qd d] by (simp add: u64_mult)
  moreover have "unat qd * unat d \<le> unat tmp" unfolding qd by (rule div_times_less_eq_dividend)
  ultimately have "unat (tmp - ucast qd * ucast d) = unat tmp - unat qd * unat d" by (simp add: unat_sub word_le_nat_alt)
  also have "\<dots> = unat tmp mod unat d" unfolding qd by (simp add: minus_div_mult_eq_mod)
  finally have w: "unat (tmp - ucast qd * ucast d) = unat tmp mod unat d" .
  have md: "unat tmp mod unat d < unat d" using assms(1) by (simp add: unat_gt_0)
  then have "unat (tmp - ucast qd * ucast d) < radix" unfolding w using digit_less [of d] by linarith
  then have rm: "unat (ucast (tmp - ucast qd * ucast d) :: u32) = unat tmp mod unat d" unfolding w [symmetric] by (rule small_u64_u32)
  have run: "div_word_loop u d i (ucast (tmp - ucast qd * ucast d)) (q[i := qd]) = (q', rem')"
    using Suc.prems(1) by (simp add: Let_def tmp_def qd_def)
  have ih: "num (take i u) + radix ^ i * (unat tmp mod unat d) = num (take i q') * unat d + unat rem' \<and> unat rem' < unat d \<and>
      drop i q' = drop i (q[i := qd]) \<and> length q' = length (q[i := qd])"
    using Suc.IH [OF run] md Suc.prems(3,4) rm by simp
  have qi: "q' ! i = qd" "drop (Suc i) q' = drop (Suc i) q" "i < length q'" using updated_digit [of i q q' qd] ih Suc.prems(4) by simp_all
  have "num (take (Suc i) u) + radix ^ Suc i * unat rem = num (take i u) + radix ^ i * unat tmp"
    unfolding tmp using Suc.prems(3) by (simp add: num_take_Suc algebra_simps)
  also have "unat tmp = unat qd * unat d + unat tmp mod unat d" unfolding qd by simp
  also have "num (take i u) + radix ^ i * (unat qd * unat d + unat tmp mod unat d) = num (take (Suc i) q') * unat d + unat rem'"
    using ih qi by (simp add: num_take_Suc algebra_simps)
  finally show ?case using ih qi by simp
qed simp

lemma num_top:
  assumes "length xs = n" "0 < n"
  shows "unat (xs ! (n - 1)) * radix ^ (n - 1) \<le> num xs" "num xs < (unat (xs ! (n - 1)) + 1) * radix ^ (n - 1)"
proof -
  have "num xs = num (take (n - 1) xs) + radix ^ (n - 1) * unat (xs ! (n - 1))"
    using num_take_Suc [of "n - 1" xs] assms by simp
  then show "unat (xs ! (n - 1)) * radix ^ (n - 1) \<le> num xs" "num xs < (unat (xs ! (n - 1)) + 1) * radix ^ (n - 1)"
    using num_take_less [of "n - 1" xs] by (simp_all add: algebra_simps)
qed

text \<open>What the normalization establishes for the main loop.\<close>

lemma normalized_divisor:
  assumes "n \<le> length v" "0 < n" "v ! (n - 1) \<noteq> 0" "s = count_leading_zeros (v ! (n - 1))"
  shows "num (normalized s v n) = num (take n v) * 2 ^ s" "length (normalized s v n) = n"
    "2 ^ 31 \<le> unat (normalized s v n ! (n - 1))" "2 ^ 31 * radix ^ (n - 1) \<le> num (normalized s v n)"
proof -
  note c = count_leading_zeros_spec [OF assms(3), folded assms(4)]
  have "unat (v ! (n - 1)) < 2 ^ (32 - s)"
    using c(3) unfolding unat_drop_less(2) [OF c(1), symmetric] by (simp only: mult_less_cancel2)
  then show V: "num (normalized s v n) = num (take n v) * 2 ^ s" and l: "length (normalized s v n) = n"
    using normalized_num [OF c(1) assms(1)] assms(2) by simp_all
  have "2 ^ 31 * radix ^ (n - 1) \<le> unat (v ! (n - 1)) * 2 ^ s * radix ^ (n - 1)" using c(2) by (rule mult_le_mono1)
  also have "\<dots> = unat (take n v ! (n - 1)) * radix ^ (n - 1) * 2 ^ s" using assms(2) by (simp add: ac_simps)
  also have "\<dots> \<le> num (take n v) * 2 ^ s" using num_top(1) [of "take n v" n] assms(1,2) by (intro mult_le_mono1) simp
  finally show big: "2 ^ 31 * radix ^ (n - 1) \<le> num (normalized s v n)" unfolding V .
  then have "2 ^ 31 * radix ^ (n - 1) < (unat (normalized s v n ! (n - 1)) + 1) * radix ^ (n - 1)"
    using num_top(2) [OF l assms(2)] by (rule order.strict_trans1)
  then show "2 ^ 31 \<le> unat (normalized s v n ! (n - 1))" by (simp only: mult_less_cancel2) simp
qed

lemma normalized_dividend:
  assumes "m \<le> length u" "0 < m" "s < 32"
  defines "un \<equiv> normalized s u m @ [if s \<noteq> 0 then drop_bit (32 - s) (u ! (m - 1)) else 0]"
  shows "num un = num (take m u) * 2 ^ s" "length un = m + 1" "unat (un ! m) < 2 ^ 31"
proof -
  note z = normalized_num [OF assms(3,1)]
  have d: "unat (if s \<noteq> 0 then drop_bit (32 - s) (u ! (m - 1)) else 0) = unat (u ! (m - 1)) div 2 ^ (32 - s)"
    using digit_less [of "u ! (m - 1)"] by (simp add: unat_drop radix_def)
  then show "num un = num (take m u) * 2 ^ s" "length un = m + 1" using z assms(2) by (simp_all add: un_def num_snoc)
  have "un ! m = (if s \<noteq> 0 then drop_bit (32 - s) (u ! (m - 1)) else 0)" using z by (simp add: un_def nth_append)
  then have "unat (un ! m) < 2 ^ s" using d unat_drop_less(1) [OF assms(3), of "u ! (m - 1)"] by simp
  also have "(2 :: nat) ^ s \<le> 2 ^ 31" using assms(3) by (intro power_increasing) simp_all
  finally show "unat (un ! m) < 2 ^ 31" .
qed

lemma bn_div_long:
  assumes "m \<le> length u" "n \<le> length v" "n \<le> m" "2 \<le> n" "v ! (n - 1) \<noteq> 0" "m - n + 1 \<le> length q"
    and s: "s = count_leading_zeros (v ! (n - 1))"
    and run: "div_loop (normalized s v n) n (m - n + 1)
      (normalized s u m @ [if s \<noteq> 0 then drop_bit (32 - s) (u ! (m - 1)) else 0]) q = (un', q')"
  shows "num (take m u) = num (take (m - n + 1) q') * num (take n v) + num (denormalized s un' n)"
    "num (denormalized s un' n) < num (take n v)" "length (denormalized s un' n) = n" "length q' = length q"
proof -
  define vn un where "vn = normalized s v n"
    and "un = normalized s u m @ [if s \<noteq> 0 then drop_bit (32 - s) (u ! (m - 1)) else 0]"
  have pos: "0 < n" "0 < m" "s < 32" using assms(3,4) count_leading_zeros_spec(1) [OF assms(5)] s by simp_all
  note V = normalized_divisor [OF assms(2) pos(1) assms(5) s, folded vn_def]
  note U = normalized_dividend [OF assms(1) pos(2,3), folded un_def]
  have top: "drop (m - n + 1) un ! (n - 1) = un ! m" "length (drop (m - n + 1) un) = n" using U(2) assms(3) pos(1) by simp_all
  have "num (drop (m - n + 1) un) < (unat (un ! m) + 1) * radix ^ (n - 1)" using num_top(2) [OF top(2) pos(1)] top(1) by simp
  also have "\<dots> \<le> 2 ^ 31 * radix ^ (n - 1)" using U(3) by (intro mult_le_mono1) simp
  also have "\<dots> \<le> num vn" by (rule V(4))
  finally have start: "num (take n (drop (m - n + 1) un)) < num vn" using top(2) by simp
  have r: "num un = num (take (m - n + 1) q') * num vn + num (take n un') \<and> num (take n un') < num vn \<and>
      length un' = length un \<and> length q' = length q"
    using div_loop_correct [OF V(2) assms(4) V(3) _ start assms(6) run [folded vn_def un_def]] U(2) assms(3) by simp
  have e: "num (take m u) * 2 ^ s = num (take (m - n + 1) q') * num (take n v) * 2 ^ s + num (take n un')"
    using r U(1) V(1) by (simp add: ac_simps)
  have "2 ^ s dvd num (take n un')"
    using e by (metis dvd_add_right_iff dvd_triv_right)
  note dn = denormalized_correct [OF pos(3,1) _ this]
  have d: "num (denormalized s un' n) * 2 ^ s = num (take n un')" and dl: "length (denormalized s un' n) = n"
    using dn r U(2) assms(3) by simp_all
  have "num (take m u) * 2 ^ s = (num (take (m - n + 1) q') * num (take n v) + num (denormalized s un' n)) * 2 ^ s"
    using e d by (simp add: algebra_simps)
  then show "num (take m u) = num (take (m - n + 1) q') * num (take n v) + num (denormalized s un' n)" by simp
  have "num (denormalized s un' n) * 2 ^ s < num (take n v) * 2 ^ s" using r d V(1) by simp
  then show "num (denormalized s un' n) < num (take n v)" by simp
  show "length (denormalized s un' n) = n" "length q' = length q" using dl r by simp_all
qed

lemma quotient_remainder:
  assumes "(a :: nat) = q * b + r" "r < b"
  shows "q = a div b" "r = a mod b"
  using assms by simp_all

lemma bn_div_ex_correct:
  assumes "m \<le> length u" "n \<le> length v" "n \<le> m" "0 < n" "v ! (n - 1) \<noteq> 0" "m - n + 1 \<le> length q"
    and "\<And>b. r = Some b \<Longrightarrow> n \<le> length b"
  obtains q' r' where "bn_div_ex q r u m v n = Some (q', r')" "num (take (m - n + 1) q') = num (take m u) div num (take n v)"
    "length q' = length q"
    "\<forall>b. r = Some b \<longrightarrow> (\<exists>b'. r' = Some b' \<and> num (take n b') = num (take m u) mod num (take n v) \<and> length b' = length b)"
proof (cases "n = 1")
  case True
  obtain q' rem where w: "div_word_loop u (v ! 0) m 0 q = (q', rem)" by fastforce
  have v: "num (take n v) = unat (v ! 0)" "v ! 0 \<noteq> 0" using True assms(2,5) num_take_Suc [of 0 v] by (cases v; simp)+
  have c: "num (take m u) = num (take m q') * unat (v ! 0) + unat rem" "unat rem < unat (v ! 0)" "length q' = length q"
    using div_word_loop_correct [OF v(2) w] v(2) assms(1,3,6) True by (simp_all add: unat_gt_0)
  have e: "bn_div_ex q r u m v n = Some (q', map_option (\<lambda>b. b[0 := rem]) r)"
    using True assms(3) v(2) w by (simp add: bn_div_ex_def bn_div_word_ex_def Let_def)
  show thesis
  proof (rule that [OF e])
    show "num (take (m - n + 1) q') = num (take m u) div num (take n v)"
      unfolding v(1) quotient_remainder(1) [OF c(1,2), symmetric] using True assms(3) by simp
    show "\<forall>b. r = Some b \<longrightarrow> (\<exists>b'. map_option (\<lambda>b. b[0 := rem]) r = Some b' \<and>
        num (take n b') = num (take m u) mod num (take n v) \<and> length b' = length b)"
    proof (intro allI impI)
      fix b assume "r = Some b"
      then show "\<exists>b'. map_option (\<lambda>b. b[0 := rem]) r = Some b' \<and>
          num (take n b') = num (take m u) mod num (take n v) \<and> length b' = length b"
        unfolding v(1) quotient_remainder(2) [OF c(1,2), symmetric] using True assms(7) by (cases b) auto
    qed
  qed (use c in simp_all)
next
  case False
  define s where "s = count_leading_zeros (v ! (n - 1))"
  obtain un' q' where w: "div_loop (normalized s v n) n (m - n + 1)
      (normalized s u m @ [if s \<noteq> 0 then drop_bit (32 - s) (u ! (m - 1)) else 0]) q = (un', q')" by fastforce
  have n: "2 \<le> n" using False assms(4) by simp
  note c = bn_div_long [OF assms(1-3) n assms(5,6) s_def w]
  have e: "bn_div_ex q r u m v n = Some (q', map_option (\<lambda>b. denormalized s un' n @ drop n b) r)"
    using n assms(3,5) w unfolding bn_div_ex_def Let_def s_def [symmetric] by simp
  show thesis
  proof (rule that [OF e])
    show "num (take (m - n + 1) q') = num (take m u) div num (take n v)" by (rule quotient_remainder [OF c(1,2)])
    show "\<forall>b. r = Some b \<longrightarrow> (\<exists>b'. map_option (\<lambda>b. denormalized s un' n @ drop n b) r = Some b' \<and>
        num (take n b') = num (take m u) mod num (take n v) \<and> length b' = length b)"
      using c(3) assms(7) quotient_remainder(2) [OF c(1,2)] by simp
  qed (use c in simp_all)
qed

lemma bn_digits_loop_spec:
  assumes "n < length a" "num (drop (Suc n) a) = 0"
  shows "0 < bn_digits_loop a n \<and> bn_digits_loop a n \<le> length a \<and> num (drop (bn_digits_loop a n) a) = 0 \<and>
    (bn_digits_loop a n = 1 \<or> a ! (bn_digits_loop a n - 1) \<noteq> 0)"
  using assms
proof (induction n)
  case (Suc n)
  have d: "num (drop (Suc n) a) = unat (a ! Suc n) + radix * num (drop (Suc (Suc n)) a)"
    using Cons_nth_drop_Suc [OF Suc.prems(1), symmetric] by simp
  show ?case
  proof (cases "a ! Suc n = 0")
    case True
    then show ?thesis using Suc d by simp
  qed (use Suc.prems in simp)
qed (auto simp: Suc_le_eq)

lemma bn_digits_spec:
  assumes "a \<noteq> []"
  shows "0 < bn_digits a" "bn_digits a \<le> length a" "num (take (bn_digits a) a) = num a"
    "num a = 0 \<and> bn_digits a = 1 \<or> a ! (bn_digits a - 1) \<noteq> 0"
proof -
  have b: "0 < bn_digits a \<and> bn_digits a \<le> length a \<and> num (drop (bn_digits a) a) = 0 \<and>
      (bn_digits a = 1 \<or> a ! (bn_digits a - 1) \<noteq> 0)"
    using bn_digits_loop_spec [of "length a - 1" a] assms by (simp add: bn_digits_def)
  then show "0 < bn_digits a" "bn_digits a \<le> length a" by simp_all
  show e: "num (take (bn_digits a) a) = num a" using num_split [of a "bn_digits a"] b by simp
  show "num a = 0 \<and> bn_digits a = 1 \<or> a ! (bn_digits a - 1) \<noteq> 0"
    using b e num_take_Suc [of 0 a] assms by (auto simp: unat_eq_zero)
qed

lemma num_padded: "num (take n a @ replicate k 0) = num (take n a)"
  by (simp add: num_append)

lemma digits_bounds:
  assumes "a \<noteq> []"
  shows "num a < radix ^ bn_digits a" and "1 < bn_digits a \<Longrightarrow> radix ^ (bn_digits a - 1) \<le> num a"
proof -
  note d = bn_digits_spec [OF assms]
  show "num a < radix ^ bn_digits a" using num_take_less [of "bn_digits a" a] d(3) by simp
  assume "1 < bn_digits a"
  then have "radix ^ (bn_digits a - 1) \<le> unat (take (bn_digits a) a ! (bn_digits a - 1)) * radix ^ (bn_digits a - 1)"
    using d(1,4) by (auto simp: unat_gt_0 Suc_le_eq)
  also have "\<dots> \<le> num a" using num_top(1) [of "take (bn_digits a) a" "bn_digits a"] d(1-3) by simp
  finally show "radix ^ (bn_digits a - 1) \<le> num a" .
qed

text \<open>Fewer digits: a power of the base lies between the numbers.\<close>

lemma fewer_digits:
  assumes "a \<noteq> []" "b \<noteq> []"
  shows "bn_digits a < bn_digits b \<longleftrightarrow> (\<exists>k>0. num a < radix ^ k \<and> radix ^ k \<le> num b)"
proof
  assume l: "bn_digits a < bn_digits b"
  have a: "0 < bn_digits a" using bn_digits_spec(1) [OF assms(1)] .
  have "num a < radix ^ bn_digits a" by (rule digits_bounds(1) [OF assms(1)])
  also have "\<dots> \<le> radix ^ (bn_digits b - 1)" using l by (intro power_increasing) (simp_all add: Suc_le_eq)
  finally have "num a < radix ^ (bn_digits b - 1)" .
  moreover have "radix ^ (bn_digits b - 1) \<le> num b" using digits_bounds(2) [OF assms(2)] l a by simp
  moreover have "0 < bn_digits b - 1" using l a by simp
  ultimately show "\<exists>k>0. num a < radix ^ k \<and> radix ^ k \<le> num b" by blast
next
  assume "\<exists>k>0. num a < radix ^ k \<and> radix ^ k \<le> num b"
  then obtain k where k: "0 < k" "num a < radix ^ k" "radix ^ k \<le> num b" by blast
  have "radix ^ k < radix ^ bn_digits b" using k(3) digits_bounds(1) [OF assms(2)] by (rule le_less_trans)
  then have kb: "k < bn_digits b" by simp
  show "bn_digits a < bn_digits b"
  proof (rule ccontr)
    assume "\<not> bn_digits a < bn_digits b"
    then have "k \<le> bn_digits a - 1" "1 < bn_digits a" using kb k(1) by simp_all
    then have "radix ^ k \<le> radix ^ (bn_digits a - 1)" "radix ^ (bn_digits a - 1) \<le> num a"
      using digits_bounds(2) [OF assms(1)] by (auto intro!: power_increasing simp: Suc_le_eq)
    then show False using k(2) by linarith
  qed
qed

section \<open>Properties\<close>

text \<open>(C13) Division is exact: with buffers that hold the digits of the results, \<open>DCRYPTO_bn_div\<close> refuses exactly a
  divisor of zero and a dividend that has fewer digits than the divisor (a power of the base above 1 lies between them), and
  otherwise writes quotient and remainder, padded with zeros.\<close>

theorem bn_div_exact:
  assumes "src \<noteq> []" and "divisor \<noteq> []" and "length src \<le> length quot" and "length divisor \<le> length remd"
  shows "case DCRYPTO_bn_div quot (Some remd) src divisor of
           None \<Rightarrow> num divisor = 0 \<or> (\<exists>k>0. num src < radix ^ k \<and> radix ^ k \<le> num divisor)
         | Some (q, None) \<Rightarrow> False
         | Some (q, Some r) \<Rightarrow>
             \<not> (num divisor = 0 \<or> (\<exists>k>0. num src < radix ^ k \<and> radix ^ k \<le> num divisor)) \<and>
             num q = num src div num divisor \<and> num r = num src mod num divisor \<and>
             length q = length quot \<and> length r = length remd"
proof -
  define m n where "m = bn_digits src" and "n = bn_digits divisor"
  note u = bn_digits_spec [OF assms(1), folded m_def] and v = bn_digits_spec [OF assms(2), folded n_def]
  have few: "m < n \<longleftrightarrow> (\<exists>k>0. num src < radix ^ k \<and> radix ^ k \<le> num divisor)"
    unfolding m_def n_def by (rule fewer_digits [OF assms(1,2)])
  consider "m < n" | (zero) "n \<le> m" "divisor ! (n - 1) = 0" | (run) "n \<le> m" "divisor ! (n - 1) \<noteq> 0" by linarith
  then show ?thesis
  proof cases
    case 1
    then have "DCRYPTO_bn_div quot (Some remd) src divisor = None" by (simp add: DCRYPTO_bn_div_def m_def n_def)
    then show ?thesis using 1 few by simp
  next
    case zero
    then have "DCRYPTO_bn_div quot (Some remd) src divisor = None"
      by (simp add: DCRYPTO_bn_div_def bn_div_ex_def Let_def flip: m_def n_def)
    then show ?thesis using v(4) zero by simp
  next
    case run
    have l: "m - n + 1 \<le> length quot" "n \<le> length remd" using u(2) v(1,2) assms(3,4) run(1) by linarith+
    have len: "n \<le> length b" if "Some remd = Some b" for b using that l(2) by simp
    obtain q r where d: "bn_div_ex quot (Some remd) src m divisor n = Some (q, r)"
      "num (take (m - n + 1) q) = num (take m src) div num (take n divisor)" "length q = length quot"
      and rm: "\<forall>b. Some remd = Some b \<longrightarrow>
        (\<exists>b'. r = Some b' \<and> num (take n b') = num (take m src) mod num (take n divisor) \<and> length b' = length b)"
      by (rule bn_div_ex_correct [OF u(2) v(2) run(1) v(1) run(2) l(1) len])
    obtain b where b: "r = Some b" "num (take n b) = num src mod num divisor" "length b = length remd"
      using rm u(3) v(3) by auto
    have "0 < unat (divisor ! (n - 1)) * radix ^ (n - 1)" using run(2) by (simp add: unat_gt_0)
    moreover have "unat (divisor ! (n - 1)) * radix ^ (n - 1) \<le> num divisor" using num_top(1) [of "take n divisor" n] v(1-3) by simp
    ultimately have nz: "num divisor \<noteq> 0" by linarith
    have "DCRYPTO_bn_div quot (Some remd) src divisor =
        Some (take (m - n + 1) q @ replicate (length q - (m - n + 1)) 0, Some (take n b @ replicate (length b - n) 0))"
      using d(1) b(1) run(1) by (simp add: DCRYPTO_bn_div_def Let_def flip: m_def n_def)
    moreover have "\<not> (\<exists>k>0. num src < radix ^ k \<and> radix ^ k \<le> num divisor)" using few run(1) by simp
    ultimately show ?thesis using nz d(3) d(2) [unfolded u(3) v(3)] b l by (simp add: num_padded)
  qed
qed

theorem bn_div_exact_witness:
  "case DCRYPTO_bn_div [0, 0, 0] (Some [0, 0]) [5, 7, 9] [0xFFFFFFFF, 1] of
     Some (q, Some r) \<Rightarrow> num q = (5 + 7 * 2 ^ 32 + 9 * 2 ^ 64) div (2 ^ 33 - 1) \<and> num r = (5 + 7 * 2 ^ 32 + 9 * 2 ^ 64) mod (2 ^ 33 - 1)
   | _ \<Rightarrow> False"
proof -
  define X where "X = DCRYPTO_bn_div [0, 0, 0] (Some [0, 0]) [5, 7, 9] [0xFFFFFFFF, 1]"
  define a b where "a = num [5, 7, 9]" and "b = num [0xFFFFFFFF, 1]"
  have n: "a = 5 + 7 * 2 ^ 32 + 9 * 2 ^ 64" "b = 2 ^ 33 - 1" by (simp_all add: a_def b_def radix_def)
  have "b < a" unfolding n by simp
  then have ok: "\<not> (b = 0 \<or> (\<exists>k>0. a < radix ^ k \<and> radix ^ k \<le> b))" unfolding n by auto
  have "case X of None \<Rightarrow> b = 0 \<or> (\<exists>k>0. a < radix ^ k \<and> radix ^ k \<le> b) | Some (q, None) \<Rightarrow> False
    | Some (q, Some r) \<Rightarrow> \<not> (b = 0 \<or> (\<exists>k>0. a < radix ^ k \<and> radix ^ k \<le> b)) \<and> num q = a div b \<and> num r = a mod b \<and>
        length q = length [0 :: u32, 0, 0] \<and> length r = length [0 :: u32, 0]"
    by (rule bn_div_exact [of "[5, 7, 9]" "[0xFFFFFFFF, 1]" "[0, 0, 0]" "[0, 0]", folded X_def a_def b_def]) simp_all
  then show ?thesis using ok unfolding X_def [symmetric] n [symmetric] by (auto split: option.splits)
qed

end
