(* ===== verification/Phys_Presence.thy ===== *)
theory Phys_Presence
  imports Prelude
begin

text \<open>
  The physical presence detector of \<open>src/common/physical_presence.c\<close>: a sequence of button presses
  in prescribed intervals, after which a callback runs.  The deferred functions it hands to the hook
  task (\<open>src/common/hooks.c\<close>) are kept as the times they are due; a time is the 64-bit microsecond
  clock.  The constants are those of a production build.  The type of callbacks is a parameter.

  Calls come from several tasks and can preempt the hook task.  A function that does not hold the mutex all the way is therefore
  cut into its parts: what happens under the mutex is one step, and each action outside it is a step of its own.
\<close>

section \<open>Model\<close>

datatype pp_detect_state =
    PP_DETECT_IDLE
  | PP_DETECT_AWAITING_PRESS
  | PP_DETECT_BETWEEN_PRESSES
  | PP_DETECT_FINISHING
  | PP_DETECT_ABORT

datatype pp_fsm_state = PP_OTHER | PP_AWAITING_PRESS | PP_BETWEEN_PRESSES

record 'cb pp_state =
  pp_detect_state :: pp_detect_state
  pp_detect_callback :: "'cb option"
  pp_press_count :: u8
  pp_press_count_needed :: u8
  pp_last_press :: u64
  pp_prompt_at :: "u64 option"
  pp_check_at :: "u64 option"
  pp_done_at :: "u64 option"
  pp_capture :: bool

definition PP_SHORT_PRESS_COUNT :: u8 where "PP_SHORT_PRESS_COUNT = 5"
definition PP_SHORT_PRESS_MIN_INTERVAL_US :: u64 where "PP_SHORT_PRESS_MIN_INTERVAL_US = 100 * 1000"
definition PP_SHORT_PRESS_MAX_INTERVAL_US :: u64 where "PP_SHORT_PRESS_MAX_INTERVAL_US = 5 * 1000000"
definition PP_LONG_PRESS_COUNT :: u8 where "PP_LONG_PRESS_COUNT = PP_SHORT_PRESS_COUNT + 4"
definition PP_LONG_PRESS_MIN_INTERVAL_US :: u64 where "PP_LONG_PRESS_MIN_INTERVAL_US = 60 * 1000000"
definition PP_LONG_PRESS_MAX_INTERVAL_US :: u64 where "PP_LONG_PRESS_MAX_INTERVAL_US = 300 * 1000000"

lemmas pp_constants = PP_SHORT_PRESS_COUNT_def PP_SHORT_PRESS_MIN_INTERVAL_US_def PP_SHORT_PRESS_MAX_INTERVAL_US_def
  PP_LONG_PRESS_COUNT_def PP_LONG_PRESS_MIN_INTERVAL_US_def PP_LONG_PRESS_MAX_INTERVAL_US_def

definition pp_initial :: "'cb pp_state" where
  "pp_initial = \<lparr>pp_detect_state = PP_DETECT_IDLE, pp_detect_callback = None, pp_press_count = 0,
     pp_press_count_needed = 0, pp_last_press = 0, pp_prompt_at = None, pp_check_at = None, pp_done_at = None,
     pp_capture = False\<rparr>"

definition pp_detect_in_progress :: "'cb pp_state \<Rightarrow> bool" where
  "pp_detect_in_progress s \<longleftrightarrow>
     pp_detect_state s = PP_DETECT_AWAITING_PRESS \<or> pp_detect_state s = PP_DETECT_BETWEEN_PRESSES"

text \<open>\<open>physical_detect_done\<close> up to the call of the callback, which runs outside the mutex, and from
  there on.\<close>

definition physical_detect_done_begin :: "'cb pp_state \<Rightarrow> 'cb option \<times> 'cb pp_state" where
  "physical_detect_done_begin s =
     (let s1 = (if \<not> pp_detect_in_progress s then s\<lparr>pp_detect_callback := None\<rparr>
                else if pp_press_count s < pp_press_count_needed s then s\<lparr>pp_detect_callback := None\<rparr>
                else s)
      in (pp_detect_callback s1, s1\<lparr>pp_detect_state := PP_DETECT_FINISHING, pp_capture := False\<rparr>))"

definition physical_detect_done_end :: "'cb pp_state \<Rightarrow> 'cb pp_state" where
  "physical_detect_done_end s = s\<lparr>pp_detect_callback := None, pp_detect_state := PP_DETECT_IDLE\<rparr>"

definition physical_detect_prompt :: "'cb pp_state \<Rightarrow> 'cb pp_state" where
  "physical_detect_prompt s = s\<lparr>pp_detect_state := PP_DETECT_AWAITING_PRESS\<rparr>"

text \<open>Whether the press comes in the interval expected of it.\<close>

definition press_in_interval :: "'cb pp_state \<Rightarrow> u64 \<Rightarrow> bool" where
  "press_in_interval s dt =
     (if pp_press_count s < PP_SHORT_PRESS_COUNT
      then \<not> dt < PP_SHORT_PRESS_MIN_INTERVAL_US \<and> \<not> dt > PP_SHORT_PRESS_MAX_INTERVAL_US
      else \<not> dt < PP_LONG_PRESS_MIN_INTERVAL_US \<and> \<not> dt > PP_LONG_PRESS_MAX_INTERVAL_US)"

text \<open>\<open>physical_detect_check_press\<close> reads the clock and the time of the last press before it takes the mutex.\<close>

definition check_press_read :: "u64 \<Rightarrow> 'cb pp_state \<Rightarrow> u64 \<times> u64" where
  "check_press_read now s = (now, now - pp_last_press s)"

definition check_press_locked :: "u64 \<times> u64 \<Rightarrow> 'cb pp_state \<Rightarrow> 'cb pp_state" where
  "check_press_locked r s =
     (case r of (now, dt) \<Rightarrow>
         if \<not> pp_detect_in_progress s then s
         else if pp_press_count s \<ge> pp_press_count_needed s then s
         else if \<not> press_in_interval s dt then s
         else
           (let s1 = s\<lparr>pp_detect_state := PP_DETECT_BETWEEN_PRESSES, pp_last_press := now,
                       pp_press_count := pp_press_count s + 1\<rparr>
            in if pp_press_count s1 = pp_press_count_needed s1 then s1\<lparr>pp_done_at := Some now\<rparr>
               else if pp_press_count s1 < PP_SHORT_PRESS_COUNT
               then s1\<lparr>pp_prompt_at := Some (now + PP_SHORT_PRESS_MIN_INTERVAL_US),
                       pp_done_at := Some (now + PP_SHORT_PRESS_MAX_INTERVAL_US)\<rparr>
               else s1\<lparr>pp_prompt_at := Some (now + PP_LONG_PRESS_MIN_INTERVAL_US),
                       pp_done_at := Some (now + PP_LONG_PRESS_MAX_INTERVAL_US)\<rparr>))"

definition physical_detect_check_press :: "u64 \<Rightarrow> 'cb pp_state \<Rightarrow> 'cb pp_state" where
  "physical_detect_check_press now s = check_press_locked (check_press_read now s) s"

text \<open>\<open>physical_detect_start\<close>: the part under the mutex, and then, outside it, cancelling a check that is
  still queued, capturing the button, and scheduling the prompt and the timeout.\<close>

definition start_locked :: "u64 \<Rightarrow> bool \<Rightarrow> 'cb \<Rightarrow> 'cb pp_state \<Rightarrow> ec_error \<times> 'cb pp_state" where
  "start_locked now is_long callback s =
     (if pp_detect_state s \<noteq> PP_DETECT_IDLE then (EC_ERROR_BUSY, s)
      else (EC_SUCCESS,
            s\<lparr>pp_press_count_needed := (if is_long then PP_LONG_PRESS_COUNT else PP_SHORT_PRESS_COUNT),
              pp_press_count := 0, pp_last_press := now, pp_detect_callback := Some callback,
              pp_detect_state := PP_DETECT_BETWEEN_PRESSES\<rparr>))"

definition start_cancel_check :: "'cb pp_state \<Rightarrow> 'cb pp_state" where
  "start_cancel_check s = s\<lparr>pp_check_at := None\<rparr>"

definition start_capture :: "'cb pp_state \<Rightarrow> 'cb pp_state" where
  "start_capture s = s\<lparr>pp_capture := True\<rparr>"

definition start_prompt_timer :: "u64 \<Rightarrow> 'cb pp_state \<Rightarrow> 'cb pp_state" where
  "start_prompt_timer now s = s\<lparr>pp_prompt_at := Some (now + PP_SHORT_PRESS_MIN_INTERVAL_US)\<rparr>"

definition start_done_timer :: "u64 \<Rightarrow> 'cb pp_state \<Rightarrow> 'cb pp_state" where
  "start_done_timer now s = s\<lparr>pp_done_at := Some (now + PP_SHORT_PRESS_MAX_INTERVAL_US)\<rparr>"

text \<open>The whole call, when nothing comes between its parts.\<close>

definition physical_detect_start :: "u64 \<Rightarrow> bool \<Rightarrow> 'cb \<Rightarrow> 'cb pp_state \<Rightarrow> ec_error \<times> 'cb pp_state" where
  "physical_detect_start now is_long callback s =
     (case start_locked now is_long callback s of
        (rv, s1) \<Rightarrow>
          if rv \<noteq> EC_SUCCESS then (rv, s1)
          else (EC_SUCCESS, start_done_timer now (start_prompt_timer now (start_capture (start_cancel_check s1)))))"

lemmas start_parts = start_locked_def start_cancel_check_def start_capture_def start_prompt_timer_def start_done_timer_def

lemma physical_detect_start_simps:
  "physical_detect_start now is_long callback s =
     (if pp_detect_state s \<noteq> PP_DETECT_IDLE then (EC_ERROR_BUSY, s)
      else (EC_SUCCESS,
            s\<lparr>pp_press_count_needed := (if is_long then PP_LONG_PRESS_COUNT else PP_SHORT_PRESS_COUNT),
              pp_press_count := 0, pp_last_press := now, pp_detect_callback := Some callback,
              pp_detect_state := PP_DETECT_BETWEEN_PRESSES, pp_check_at := None, pp_capture := True,
              pp_prompt_at := Some (now + PP_SHORT_PRESS_MIN_INTERVAL_US),
              pp_done_at := Some (now + PP_SHORT_PRESS_MAX_INTERVAL_US)\<rparr>))"
  by (simp add: physical_detect_start_def start_parts)

definition physical_detect_busy :: "'cb pp_state \<Rightarrow> bool" where
  "physical_detect_busy s \<longleftrightarrow> pp_detect_state s \<noteq> PP_DETECT_IDLE"

definition physical_detect_abort :: "u64 \<Rightarrow> 'cb pp_state \<Rightarrow> 'cb pp_state" where
  "physical_detect_abort now s =
     (if pp_detect_in_progress s
      then s\<lparr>pp_detect_state := PP_DETECT_ABORT, pp_prompt_at := None, pp_check_at := None, pp_done_at := Some now\<rparr>
      else s)"

definition physical_detect_press :: "u64 \<Rightarrow> 'cb pp_state \<Rightarrow> ec_error \<times> 'cb pp_state" where
  "physical_detect_press now s =
     (if pp_detect_state s = PP_DETECT_IDLE then (EC_ERROR_NOT_HANDLED, s)
      else (EC_SUCCESS, s\<lparr>pp_check_at := Some now\<rparr>))"

definition physical_presense_fsm_state :: "'cb pp_state \<Rightarrow> pp_fsm_state" where
  "physical_presense_fsm_state s =
     (case pp_detect_state s of
        PP_DETECT_AWAITING_PRESS \<Rightarrow> PP_AWAITING_PRESS
      | PP_DETECT_BETWEEN_PRESSES \<Rightarrow> PP_BETWEEN_PRESSES
      | _ \<Rightarrow> PP_OTHER)"

section \<open>Executions\<close>

text \<open>What can happen from the moment \<open>start_locked\<close> releases the mutex to the end of the check: button presses,
  the deferred functions of the hook task when they are due, calls from other tasks, the actions outside the mutex of this call of
  \<open>physical_detect_start\<close> or of one that has not got through, and time.  \<open>chk\<close> is what a
  \<open>physical_detect_check_press\<close> that has not taken the mutex yet has read.\<close>

datatype pp_event = PpPress | PpCheckRead | PpCheck | PpPrompt | PpAbort | PpAbortIgnored | PpStart | PpCancelCheck | PpCapture | PpPromptTimer
  | PpDoneTimer | PpTick

inductive pp_trace ::
  "'cb pp_state \<Rightarrow> u64 \<Rightarrow> (u64 \<times> u64) option \<Rightarrow> pp_event list \<Rightarrow> 'cb pp_state \<Rightarrow> u64 \<Rightarrow> (u64 \<times> u64) option \<Rightarrow> bool"
  for s0 now0 chk0 where
  refl: "pp_trace s0 now0 chk0 [] s0 now0 chk0"
| press: "pp_trace s0 now0 chk0 evs s now chk \<Longrightarrow>
    pp_trace s0 now0 chk0 (evs @ [PpPress]) (snd (physical_detect_press now s)) now chk"
| check_read: "pp_trace s0 now0 chk0 evs s now None \<Longrightarrow> pp_check_at s = Some t \<Longrightarrow> t \<le> now \<Longrightarrow>
    pp_trace s0 now0 chk0 (evs @ [PpCheckRead]) (s\<lparr>pp_check_at := None\<rparr>) now (Some (check_press_read now s))"
| check: "pp_trace s0 now0 chk0 evs s now (Some r) \<Longrightarrow>
    pp_trace s0 now0 chk0 (evs @ [PpCheck]) (check_press_locked r s) now None"
| prompt: "pp_trace s0 now0 chk0 evs s now chk \<Longrightarrow> pp_prompt_at s = Some t \<Longrightarrow> t \<le> now \<Longrightarrow>
    pp_trace s0 now0 chk0 (evs @ [PpPrompt]) (physical_detect_prompt (s\<lparr>pp_prompt_at := None\<rparr>)) now chk"
| abort: "pp_trace s0 now0 chk0 evs s now chk \<Longrightarrow>
    pp_trace s0 now0 chk0 (evs @ [if pp_detect_in_progress s then PpAbort else PpAbortIgnored]) (physical_detect_abort now s) now chk"
| start: "pp_trace s0 now0 chk0 evs s now chk \<Longrightarrow>
    pp_trace s0 now0 chk0 (evs @ [PpStart]) (snd (start_locked now l cb s)) now chk"
| cancel_check: "pp_trace s0 now0 chk0 evs s now chk \<Longrightarrow> pp_trace s0 now0 chk0 (evs @ [PpCancelCheck]) (start_cancel_check s) now chk"
| capture: "pp_trace s0 now0 chk0 evs s now chk \<Longrightarrow> pp_trace s0 now0 chk0 (evs @ [PpCapture]) (start_capture s) now chk"
| prompt_timer: "pp_trace s0 now0 chk0 evs s now chk \<Longrightarrow>
    pp_trace s0 now0 chk0 (evs @ [PpPromptTimer]) (start_prompt_timer now s) now chk"
| done_timer: "pp_trace s0 now0 chk0 evs s now chk \<Longrightarrow>
    pp_trace s0 now0 chk0 (evs @ [PpDoneTimer]) (start_done_timer now s) now chk"
| tick: "pp_trace s0 now0 chk0 evs s now chk \<Longrightarrow> now \<le> now' \<Longrightarrow> pp_trace s0 now0 chk0 (evs @ [PpTick]) s now' chk"

text \<open>The time the first \<open>n\<close> presses take at least.\<close>

definition min_elapsed :: "nat \<Rightarrow> nat" where
  "min_elapsed n = (if n \<le> 5 then n * 100000 else 500000 + (n - 5) * 60000000)"

definition presses :: "pp_event list \<Rightarrow> nat" where
  "presses evs = length (filter (\<lambda>e. e = PpPress) evs)"

text \<open>Presses from before the start that may still be counted: one whose check is queued, one whose check is under way.\<close>

definition left_over :: "'cb pp_state \<Rightarrow> (u64 \<times> u64) option \<Rightarrow> nat" where
  "left_over s chk = (if pp_check_at s = None then 0 else 1) + (if chk = None then 0 else 1)"

text \<open>A check in progress was aborted, and since the last such abort no start call has got to schedule the prompt.\<close>

definition aborted :: "pp_event list \<Rightarrow> bool" where
  "aborted evs \<longleftrightarrow> PpAbort \<in> set evs \<and> PpPromptTimer \<notin> set (takeWhile (\<lambda>e. e \<noteq> PpAbort) (rev evs))"

lemma aborted_snoc [simp]: "aborted [] = False" "aborted (evs @ [e]) \<longleftrightarrow> e = PpAbort \<or> e \<noteq> PpPromptTimer \<and> aborted evs"
  by (auto simp: aborted_def)

text \<open>The invariant of a check that started at \<open>t0\<close> with callback \<open>cb\<close>, when \<open>old\<close> presses were
  left over.  The times count only when no check was under way at the start.\<close>

definition pp_inv :: "u64 \<Rightarrow> bool \<Rightarrow> 'cb \<Rightarrow> nat \<Rightarrow> bool \<Rightarrow> pp_event list \<Rightarrow> 'cb pp_state \<Rightarrow> u64 \<Rightarrow> (u64 \<times> u64) option \<Rightarrow> bool" where
  "pp_inv t0 l cb old timed evs s now chk \<longleftrightarrow>
     pp_detect_callback s = Some cb \<and>
     pp_press_count_needed s = (if l then 9 else 5) \<and> pp_press_count s \<le> pp_press_count_needed s \<and>
     (pp_detect_in_progress s \<or> pp_detect_state s = PP_DETECT_ABORT) \<and>
     unat (pp_press_count s) + left_over s chk \<le> presses evs + old \<and>
     (aborted evs \<longrightarrow> pp_detect_state s = PP_DETECT_ABORT \<and> pp_prompt_at s = None) \<and>
     (timed \<longrightarrow> unat t0 + min_elapsed (unat (pp_press_count s)) \<le> unat (pp_last_press s) \<and> pp_last_press s \<le> now \<and>
        (\<forall>r. chk = Some r \<longrightarrow> pp_last_press s \<le> fst r \<and> fst r \<le> now \<and> snd r = fst r - pp_last_press s))"

lemma pp_inv_start:
  assumes "start_locked t0 l cb s = (EC_SUCCESS, s0)"
  shows "pp_inv t0 l cb (left_over s chk) (chk = None) [] s0 t0 chk"
  using assms
  by (auto simp: start_locked_def pp_inv_def pp_constants min_elapsed_def presses_def pp_detect_in_progress_def left_over_def
      split: if_splits)

lemma min_elapsed_Suc: "min_elapsed (Suc n) = min_elapsed n + (if n < 5 then 100000 else 60000000)"
  by (auto simp: min_elapsed_def)

lemma count_step:
  assumes "(c :: u8) < n" "n \<le> 9"
  shows "unat (c + 1) = Suc (unat c)" "c + 1 \<le> n"
proof -
  have "unat c < unat n" "unat n \<le> 9" using assms by (simp_all add: word_less_nat_alt word_le_nat_alt)
  then show u: "unat (c + 1) = Suc (unat c)" by (simp add: unat_word_ariths)
  then show "c + 1 \<le> n" using \<open>unat c < unat n\<close> by (simp add: word_le_nat_alt)
qed

text \<open>A counted press comes at least the minimal interval after the last one.\<close>

lemma press_elapsed:
  assumes "press_in_interval s (now - t)" "t \<le> now"
  shows "unat t + (if unat (pp_press_count s) < 5 then 100000 else 60000000) \<le> unat now"
proof -
  have d: "unat (now - t) = unat now - unat t" using assms(2) by (simp add: unat_sub)
  have "(if unat (pp_press_count s) < 5 then 100000 else 60000000) \<le> unat (now - t)"
    using assms(1) by (auto simp: press_in_interval_def pp_constants word_less_nat_alt not_less split: if_splits)
  then show ?thesis using d assms(2) by (simp add: word_le_nat_alt split: if_splits)
qed

lemma check_press_cases:
  obtains (ignored) "check_press_locked r s = s"
  | (counted) "pp_detect_in_progress s" "pp_press_count s < pp_press_count_needed s" "press_in_interval s (snd r)"
      "pp_detect_state (check_press_locked r s) = PP_DETECT_BETWEEN_PRESSES"
      "pp_detect_callback (check_press_locked r s) = pp_detect_callback s"
      "pp_press_count (check_press_locked r s) = pp_press_count s + 1"
      "pp_press_count_needed (check_press_locked r s) = pp_press_count_needed s"
      "pp_last_press (check_press_locked r s) = fst r" "pp_check_at (check_press_locked r s) = pp_check_at s"
proof (cases "pp_detect_in_progress s \<and> pp_press_count s < pp_press_count_needed s \<and> press_in_interval s (snd r)")
  case False
  then show thesis by (intro ignored) (auto simp: check_press_locked_def Let_def not_le split: prod.splits)
next
  case True
  then show thesis by (intro counted) (auto simp: check_press_locked_def Let_def split: prod.splits)
qed

lemma presses_snoc [simp]: "presses (evs @ [e]) = presses evs + (if e = PpPress then 1 else 0)"
  by (simp add: presses_def)

lemma pp_inv_check:
  assumes "pp_inv t0 l cb old timed evs s now (Some r)"
  shows "pp_inv t0 l cb old timed (evs @ [PpCheck]) (check_press_locked r s) now None"
proof (cases rule: check_press_cases [of r s])
  case ignored
  then show ?thesis using assms by (auto simp: pp_inv_def left_over_def)
next
  case counted
  have na: "pp_detect_state s \<noteq> PP_DETECT_ABORT" using counted(1) by (auto simp: pp_detect_in_progress_def)
  have n9: "pp_press_count_needed s \<le> 9" using assms by (auto simp: pp_inv_def)
  note u = count_step [OF counted(2) n9]
  have t: "unat t0 + min_elapsed (Suc (unat (pp_press_count s))) \<le> unat (fst r) \<and> fst r \<le> now" if timed
  proof -
    have r: "pp_last_press s \<le> fst r" "fst r \<le> now" "snd r = fst r - pp_last_press s"
      "unat t0 + min_elapsed (unat (pp_press_count s)) \<le> unat (pp_last_press s)" using assms that by (auto simp: pp_inv_def)
    from press_elapsed [of s "fst r" "pp_last_press s"] counted(3) r
    show ?thesis using min_elapsed_Suc [of "unat (pp_press_count s)"] by simp
  qed
  show ?thesis
    using assms counted u na t by (auto simp: pp_inv_def pp_detect_in_progress_def left_over_def)
qed

lemma pp_inv_abort:
  assumes "pp_inv t0 l cb old timed evs s now chk"
  shows "pp_inv t0 l cb old timed (evs @ [if pp_detect_in_progress s then PpAbort else PpAbortIgnored]) (physical_detect_abort now s) now chk"
proof (cases "pp_detect_in_progress s")
  case True
  then show ?thesis using assms
    by (auto simp: pp_inv_def physical_detect_abort_def left_over_def pp_detect_in_progress_def)
next
  case False
  then show ?thesis using assms by (auto simp: pp_inv_def physical_detect_abort_def left_over_def)
qed

lemma pp_inv_step:
  assumes "pp_trace s0 t0 chk0 evs s now chk" and "pp_inv t0 l cb old timed [] s0 t0 chk0"
  shows "pp_inv t0 l cb old timed evs s now chk"
  using assms
proof (induction rule: pp_trace.induct)
  case (press evs s now chk)
  then show ?case
    by (auto simp: pp_inv_def physical_detect_press_def pp_detect_in_progress_def left_over_def)
next
  case (check_read evs s now t)
  then show ?case
    by (auto simp: pp_inv_def check_press_read_def pp_detect_in_progress_def left_over_def)
next
  case (check evs s now r)
  then show ?case by (intro pp_inv_check) simp
next
  case (prompt evs s now chk t)
  have i: "pp_inv t0 l cb old timed evs s now chk" by (rule prompt.IH [OF prompt.prems])
  then have "\<not> aborted evs" using prompt.hyps(2) by (auto simp: pp_inv_def)
  then show ?case
    using i by (cases l; clarsimp simp: pp_inv_def physical_detect_prompt_def pp_detect_in_progress_def left_over_def)
next
  case (abort evs s now chk)
  then show ?case by (intro pp_inv_abort) simp
next
  case (start evs s now chk l' cb')
  have i: "pp_inv t0 l cb old timed evs s now chk" by (rule start.IH [OF start.prems])
  then have "snd (start_locked now l' cb' s) = s" by (auto simp: pp_inv_def start_locked_def pp_detect_in_progress_def)
  then show ?case using i by (cases l; clarsimp simp: pp_inv_def)
next
  case (tick evs s now chk now')
  have i: "pp_inv t0 l cb old timed evs s now chk" by (rule tick.IH [OF tick.prems])
  then show ?case using tick.hyps(2) by (cases l) (auto simp: pp_inv_def)
next
  case (cancel_check evs s now chk)
  then have "pp_inv t0 l cb old timed evs s now chk" by simp
  then show ?case by (auto simp: pp_inv_def start_cancel_check_def pp_detect_in_progress_def left_over_def)
next
  case (capture evs s now chk)
  then have "pp_inv t0 l cb old timed evs s now chk" by simp
  then show ?case by (auto simp: pp_inv_def start_capture_def pp_detect_in_progress_def left_over_def)
next
  case (prompt_timer evs s now chk)
  then have "pp_inv t0 l cb old timed evs s now chk" by simp
  then show ?case by (auto simp: pp_inv_def start_prompt_timer_def pp_detect_in_progress_def left_over_def)
next
  case (done_timer evs s now chk)
  then have "pp_inv t0 l cb old timed evs s now chk" by simp
  then show ?case by (auto simp: pp_inv_def start_done_timer_def pp_detect_in_progress_def left_over_def)
qed simp

section \<open>Properties\<close>


text \<open>An abort in the middle of \<open>physical_detect_start\<close> is lost: the prompt, scheduled after it, makes the
  check go on.\<close>

lemma abort_in_start_is_lost:
  assumes "start_locked t0 l cb s = (EC_SUCCESS, s0)" and "t0 \<le> t0 + PP_SHORT_PRESS_MIN_INTERVAL_US" and "pp_check_at s = None"
  shows "\<exists>s1. pp_trace s0 t0 None [PpAbort, PpPromptTimer, PpTick, PpPrompt] s1 (t0 + PP_SHORT_PRESS_MIN_INTERVAL_US) None \<and>
    pp_detect_in_progress s1 \<and> pp_detect_callback s1 = Some cb"
proof -
  let ?t = "t0 + PP_SHORT_PRESS_MIN_INTERVAL_US"
  let ?a = "start_prompt_timer t0 (physical_detect_abort t0 s0)"
  have p: "pp_detect_in_progress s0" using assms(1) by (auto simp: start_locked_def pp_detect_in_progress_def split: if_splits)
  have "pp_trace s0 t0 None ([] @ [PpAbort] @ [PpPromptTimer] @ [PpTick]) ?a ?t None"
    using pp_trace.tick [OF pp_trace.prompt_timer [OF pp_trace.abort [OF pp_trace.refl]] assms(2), of s0 None] p by simp
  from pp_trace.prompt [OF this, of ?t]
  have "pp_trace s0 t0 None [PpAbort, PpPromptTimer, PpTick, PpPrompt] (physical_detect_prompt (?a\<lparr>pp_prompt_at := None\<rparr>)) ?t None"
    by (simp add: start_prompt_timer_def)
  moreover have "pp_detect_callback s0 = Some cb" using assms(1) by (auto simp: start_locked_def split: if_splits)
  ultimately show ?thesis
    by (intro exI conjI) (assumption, simp_all add: physical_detect_prompt_def pp_detect_in_progress_def start_prompt_timer_def
        physical_detect_abort_def)
qed

text \<open>One press of the button and the check that follows it, a second later.\<close>

definition pp_round :: "unit pp_state \<times> u64 \<Rightarrow> unit pp_state \<times> u64" where
  "pp_round p = (let now = snd p + 1000000
     in (physical_detect_check_press now ((snd (physical_detect_press now (fst p)))\<lparr>pp_check_at := None\<rparr>), now))"

definition pp_round_events :: "pp_event list" where
  "pp_round_events = [PpTick, PpPress, PpCheckRead, PpCheck]"

lemma pp_trace_round:
  assumes "pp_trace s0 t0 None evs s now None" "now \<le> now + 1000000" "pp_detect_state s \<noteq> PP_DETECT_IDLE"
  shows "pp_trace s0 t0 None (evs @ pp_round_events) (fst (pp_round (s, now))) (snd (pp_round (s, now))) None"
proof -
  let ?p = "snd (physical_detect_press (now + 1000000) s)"
  have p: "pp_trace s0 t0 None ((evs @ [PpTick]) @ [PpPress]) ?p (now + 1000000) None"
    by (intro pp_trace.press pp_trace.tick [OF assms(1,2)])
  have "pp_check_at ?p = Some (now + 1000000)" using assms(3) by (simp add: physical_detect_press_def)
  from pp_trace.check [OF pp_trace.check_read [OF p this order_refl]] show ?thesis
    by (simp add: pp_round_def pp_round_events_def Let_def physical_detect_check_press_def check_press_read_def)
qed

text \<open>The state after \<open>n\<close> rounds.\<close>

definition counting :: "nat \<Rightarrow> unit pp_state" where
  "counting n = (let now = of_nat n * 1000000 in
     \<lparr>pp_detect_state = PP_DETECT_BETWEEN_PRESSES, pp_detect_callback = Some (), pp_press_count = of_nat n,
      pp_press_count_needed = 5, pp_last_press = now, pp_prompt_at = Some (if n = 5 then 4100000 else now + 100000),
      pp_check_at = None, pp_done_at = Some (if n = 5 then now else now + 5000000), pp_capture = True\<rparr>)"

lemma pp_round_counting:
  assumes "n \<in> {0, 1, 2, 3, 4}"
  shows "pp_round (counting n, of_nat n * 1000000) = (counting (Suc n), of_nat (Suc n) * 1000000)"
proof -
  have "n = 0 \<or> n = 1 \<or> n = 2 \<or> n = 3 \<or> n = 4" using assms by simp
  then show ?thesis
    by (elim disjE) (simp_all add: pp_round_def counting_def physical_detect_press_def physical_detect_check_press_def
      check_press_read_def check_press_locked_def
      pp_detect_in_progress_def press_in_interval_def pp_constants Let_def word_le_nat_alt word_less_nat_alt)
qed

text \<open>The start call up to its end, on the initial state.\<close>

definition started :: "unit pp_state" where "started = snd (start_locked 0 False () pp_initial)"

lemma start_started: "start_locked 0 False () pp_initial = (EC_SUCCESS, started)"
  by (simp add: started_def start_locked_def pp_initial_def)

definition start_events :: "pp_event list" where
  "start_events = [PpCancelCheck, PpCapture, PpPromptTimer, PpDoneTimer]"

lemma start_trace: "pp_trace started 0 None start_events (counting 0) 0 None"
proof -
  have c: "start_done_timer 0 (start_prompt_timer 0 (start_capture (start_cancel_check started))) = counting 0"
    by (simp add: started_def start_parts pp_initial_def counting_def pp_constants)
  have "pp_trace started 0 None ((([] @ [PpCancelCheck]) @ [PpCapture]) @ [PpPromptTimer] @ [PpDoneTimer]) (counting 0) 0 None"
    using pp_trace.done_timer [OF pp_trace.prompt_timer [OF pp_trace.capture [OF pp_trace.cancel_check [OF pp_trace.refl]]],
        of started 0 None] by (simp add: c)
  then show ?thesis by (simp add: start_events_def)
qed

lemma rounds_trace:
  assumes "n \<le> 5"
  shows "pp_trace started 0 None (start_events @ concat (replicate n pp_round_events)) (counting n) (of_nat n * 1000000) None"
  using assms
proof (induction n)
  case 0
  then show ?case using start_trace by simp
next
  case (Suc n)
  then have n: "n \<in> {0, 1, 2, 3, 4}" by auto
  let ?t = "of_nat n * 1000000 :: u64"
  have i: "?t \<le> ?t + 1000000" "pp_detect_state (counting n) \<noteq> PP_DETECT_IDLE"
    using n by (auto simp: counting_def Let_def)
  have c: "start_events @ concat (replicate (Suc n) pp_round_events)
      = (start_events @ concat (replicate n pp_round_events)) @ pp_round_events"
    by (subst replicate_Suc, subst replicate_append_same [symmetric]) simp
  from Suc have "pp_trace started 0 None (start_events @ concat (replicate n pp_round_events)) (counting n) ?t None" by simp
  from pp_trace_round [OF this i] show ?case by (simp only: c pp_round_counting [OF n] fst_conv snd_conv)
qed


end
