(* ===== verification/Crc8.thy ===== *)
theory Crc8
  imports Prelude
begin

text \<open>
  The checksum of \<open>src/common/crc8.c\<close>, which the firmware management parameters and the
  entries of the flash event log carry.  The register is the \<open>unsigned\<close> variable of the
  code: bits shifted out of its lower half stay in the upper one, and the lemmas show that they
  are never looked at, so that a checksum may be computed piecewise.
\<close>

fun crc8_bits :: "nat \<Rightarrow> u32 \<Rightarrow> u32" where
  "crc8_bits 0 crc = crc"
| "crc8_bits (Suc i) crc =
     crc8_bits i (push_bit 1 (if crc AND 0x8000 \<noteq> 0 then crc XOR push_bit 3 0x1070 else crc))"

fun crc8_bytes :: "bytes \<Rightarrow> u32 \<Rightarrow> u32" where
  "crc8_bytes [] crc = crc"
| "crc8_bytes (d # data) crc = crc8_bytes data (crc8_bits 8 (crc XOR push_bit 8 (ucast d)))"

definition crc8_arg :: "bytes \<Rightarrow> u8 \<Rightarrow> u8" where
  "crc8_arg data previous_crc = ucast (drop_bit 8 (crc8_bytes data (push_bit 8 (ucast previous_crc))))"

definition crc8 :: "bytes \<Rightarrow> u8" where "crc8 data = crc8_arg data 0"

section \<open>Piecewise computation\<close>

text \<open>Two registers that agree below bit 16 give the same checksum.\<close>

definition same16 :: "u32 \<Rightarrow> u32 \<Rightarrow> bool" where
  "same16 a b \<longleftrightarrow> (\<forall>i<16. bit a i = bit b i)"

text \<open>Between two bytes the lower eight bits of the register are clear.\<close>

definition low_clear :: "u32 \<Rightarrow> bool" where
  "low_clear a \<longleftrightarrow> (\<forall>i<8. \<not> bit a i)"

lemma bit_0x8000: "bit (0x8000 :: u32) i \<longleftrightarrow> i = 15"
proof -
  have "(0x8000 :: u32) = push_bit 15 1" by simp
  then show ?thesis by (simp only: bit_push_bit_iff bit_1_iff possible_bit_word) auto
qed

lemma test_bit_15: "(crc :: u32) AND 0x8000 \<noteq> 0 \<longleftrightarrow> bit crc 15"
proof
  assume "crc AND 0x8000 \<noteq> 0"
  then obtain i where "bit (crc AND 0x8000) i" using bit_eqI [of "crc AND 0x8000" 0] by auto
  then show "bit crc 15" unfolding bit_and_iff bit_0x8000 by auto
next
  assume "bit crc 15"
  then have "bit (crc AND 0x8000) 15" unfolding bit_and_iff bit_0x8000 by auto
  then show "crc AND 0x8000 \<noteq> 0" by (metis bit_0_eq bot_apply bot_bool_def)
qed

lemma bit_shift_1: "bit (push_bit 1 a :: u32) i \<longleftrightarrow> 1 \<le> i \<and> i < 32 \<and> bit a (i - 1)"
  by (simp only: bit_push_bit_iff possible_bit_word) simp

lemma same16_step:
  assumes "same16 a b"
  shows "same16 (push_bit 1 (if a AND 0x8000 \<noteq> 0 then a XOR c else a))
                (push_bit 1 (if b AND 0x8000 \<noteq> 0 then b XOR c else b))"
proof -
  have "bit a 15 = bit b 15" "\<And>i. i < 16 \<Longrightarrow> bit a (i - 1) = bit b (i - 1)"
    using assms by (auto simp: same16_def)
  then show ?thesis
    unfolding test_bit_15 same16_def bit_shift_1 by (cases "bit b 15") (auto simp: bit_xor_iff)
qed

lemma same16_bits: "same16 a b \<Longrightarrow> same16 (crc8_bits n a) (crc8_bits n b)"
  by (induction n arbitrary: a b) (simp_all only: crc8_bits.simps same16_step)

lemma same16_bytes: "same16 a b \<Longrightarrow> same16 (crc8_bytes data a) (crc8_bytes data b)"
proof (induction data arbitrary: a b)
  case (Cons d data)
  have "same16 (a XOR push_bit 8 (ucast d)) (b XOR push_bit 8 (ucast d))"
    using Cons.prems by (auto simp: same16_def bit_xor_iff)
  then show ?case unfolding crc8_bytes.simps by (intro Cons.IH same16_bits)
qed simp

lemma low_clear_step:
  assumes "low_clear a"
  shows "low_clear (push_bit 1 (if a AND 0x8000 \<noteq> 0 then a XOR push_bit 3 0x1070 else a))"
proof -
  have "push_bit 3 (0x1070 :: u32) = push_bit 7 0x107" by simp
  then have "\<not> bit (push_bit 3 (0x1070 :: u32)) i" if "i < 7" for i
    using that by (simp only: bit_push_bit_iff) simp
  then have "\<not> bit (a XOR push_bit 3 0x1070) i" "\<not> bit a i" if "i < 7" for i
    using assms that unfolding low_clear_def bit_xor_iff by auto
  then show ?thesis unfolding low_clear_def bit_shift_1 by (auto split: if_split simp del: push_bit_numeral)
qed

lemma low_clear_bits: "low_clear a \<Longrightarrow> low_clear (crc8_bits n a)"
  by (induction n arbitrary: a) (simp_all only: crc8_bits.simps low_clear_step)

lemma low_clear_bytes: "low_clear a \<Longrightarrow> low_clear (crc8_bytes data a)"
proof (induction data arbitrary: a)
  case (Cons d data)
  have "low_clear (a XOR push_bit 8 (ucast d))"
    using Cons.prems by (auto simp: low_clear_def bit_xor_iff bit_push_bit_iff)
  then show ?case unfolding crc8_bytes.simps by (intro Cons.IH low_clear_bits)
qed simp

lemma crc8_bytes_append: "crc8_bytes (xs @ ys) a = crc8_bytes ys (crc8_bytes xs a)"
  by (induction xs arbitrary: a) simp_all

lemma crc8_arg_append: "crc8_arg (xs @ ys) p = crc8_arg ys (crc8_arg xs p)"
proof -
  let ?a = "crc8_bytes xs (push_bit 8 (ucast p))"
  have "low_clear ?a"
    by (rule low_clear_bytes) (simp add: low_clear_def bit_push_bit_iff)
  then have "same16 ?a (push_bit 8 (ucast (ucast (drop_bit 8 ?a) :: u8)))"
    unfolding same16_def low_clear_def
    by (auto simp: bit_push_bit_iff bit_ucast_iff bit_drop_bit_eq not_less) (metis le_add_diff_inverse not_less)
  then have "same16 (crc8_bytes ys ?a) (crc8_bytes ys (push_bit 8 (ucast (ucast (drop_bit 8 ?a) :: u8))))"
    by (rule same16_bytes)
  then have "(ucast (drop_bit 8 (crc8_bytes ys ?a)) :: u8)
      = ucast (drop_bit 8 (crc8_bytes ys (push_bit 8 (ucast (ucast (drop_bit 8 ?a) :: u8)))))"
    by (intro bit_word_eqI) (auto simp: same16_def bit_ucast_iff bit_drop_bit_eq)
  then show ?thesis by (simp add: crc8_arg_def crc8_bytes_append)
qed

section \<open>Evaluation\<close>

text \<open>Rules that evaluate a checksum of given bytes with the simplifier.\<close>

lemma crc8_bits_8: "crc8_bits 8 c = crc8_bits (Suc (Suc (Suc (Suc (Suc (Suc (Suc (Suc 0)))))))) c"
  by (simp add: eval_nat_numeral)

lemma crc8_bits_numeral:
  "crc8_bits (Suc i) (numeral w) =
     crc8_bits i (if (numeral w :: u32) AND 0x8000 = 0 then numeral w * 2 else (numeral w XOR 0x8380) * 2)"
  by simp

lemma crc8_bits_0: "crc8_bits n 0 = 0"
  by (induction n) simp_all

lemma replicate_numeral: "replicate (numeral k) x = x # replicate (pred_numeral k) x"
  by (simp add: numeral_eq_Suc)

declare crc8_bits.simps(2) [simp del]

lemmas crc8_eval = crc8_arg_def crc8_bits_8 crc8_bits_numeral crc8_bits_0

end
