(* ===== verification/Ccd_Types.thy ===== *)
theory Ccd_Types
  imports Crc8 Nv_Vars Phys_Presence C_Strings
begin

text \<open>
  The data of the case closed debugging (CCD) component: the configuration of
  \<open>src/common/ccd_config.c\<close> with its packed flags and capabilities, the inputs of the board
  (battery signal, TPM spaces, random source, hash engine) and the state of \<open>ccd_config.c\<close>,
  \<open>src/board/cr50/wp.c\<close> and \<open>src/common/factory_mode.c\<close>.  The accessors of the configuration and the
  firmware management parameters (FWMP) follow.  The build is the production branch (\<open>BRANCH_MP\<close>).
\<close>

section \<open>Data\<close>

datatype ccd_state_t = CCD_STATE_LOCKED | CCD_STATE_UNLOCKED | CCD_STATE_OPENED

datatype ccd_capability_state =
    CCD_CAP_STATE_DEFAULT
  | CCD_CAP_STATE_ALWAYS
  | CCD_CAP_STATE_UNLESS_LOCKED
  | CCD_CAP_STATE_IF_OPENED

text \<open>The numbers of \<open>enum ccd_capability_state\<close>.\<close>

fun cap_state_value :: "ccd_capability_state \<Rightarrow> u8" where
  "cap_state_value CCD_CAP_STATE_DEFAULT = 0"
| "cap_state_value CCD_CAP_STATE_ALWAYS = 1"
| "cap_state_value CCD_CAP_STATE_UNLESS_LOCKED = 2"
| "cap_state_value CCD_CAP_STATE_IF_OPENED = 3"

definition cap_state_of :: "u8 \<Rightarrow> ccd_capability_state" where
  "cap_state_of c =
     (if c = 0 then CCD_CAP_STATE_DEFAULT else if c = 1 then CCD_CAP_STATE_ALWAYS
      else if c = 2 then CCD_CAP_STATE_UNLESS_LOCKED else CCD_CAP_STATE_IF_OPENED)"

lemma cap_state_of_value [simp]: "cap_state_of (cap_state_value st) = st"
  by (cases st) (simp_all add: cap_state_of_def)

fun ccd_state_value :: "ccd_state_t \<Rightarrow> u8" where
  "ccd_state_value CCD_STATE_LOCKED = 0"
| "ccd_state_value CCD_STATE_UNLOCKED = 1"
| "ccd_state_value CCD_STATE_OPENED = 2"

text \<open>Capabilities by their number in \<open>enum ccd_capability\<close>.\<close>

definition CCD_CAP_OVERRIDE_WP :: nat where "CCD_CAP_OVERRIDE_WP = 6"
definition CCD_CAP_GSC_RESTRICTED_CONSOLE :: nat where "CCD_CAP_GSC_RESTRICTED_CONSOLE = 8"
definition CCD_CAP_UNLOCK_WITHOUT_AP_REBOOT :: nat where "CCD_CAP_UNLOCK_WITHOUT_AP_REBOOT = 9"
definition CCD_CAP_UNLOCK_WITHOUT_SHORT_PP :: nat where "CCD_CAP_UNLOCK_WITHOUT_SHORT_PP = 10"
definition CCD_CAP_OPEN_WITHOUT_TPM_WIPE :: nat where "CCD_CAP_OPEN_WITHOUT_TPM_WIPE = 11"
definition CCD_CAP_OPEN_WITHOUT_LONG_PP :: nat where "CCD_CAP_OPEN_WITHOUT_LONG_PP = 12"
definition CCD_CAP_REMOVE_BATTERY_BYPASSES_PP :: nat where "CCD_CAP_REMOVE_BATTERY_BYPASSES_PP = 13"
definition CCD_CAP_OPEN_WITHOUT_DEV_MODE :: nat where "CCD_CAP_OPEN_WITHOUT_DEV_MODE = 17"
definition CCD_CAP_OPEN_FROM_USB :: nat where "CCD_CAP_OPEN_FROM_USB = 18"
definition CCD_CAP_OVERRIDE_BATT_STATE :: nat where "CCD_CAP_OVERRIDE_BATT_STATE = 19"
definition CCD_CAP_COUNT :: nat where "CCD_CAP_COUNT = 21"

lemmas ccd_cap_defs = CCD_CAP_OVERRIDE_WP_def CCD_CAP_GSC_RESTRICTED_CONSOLE_def CCD_CAP_UNLOCK_WITHOUT_AP_REBOOT_def
  CCD_CAP_UNLOCK_WITHOUT_SHORT_PP_def CCD_CAP_OPEN_WITHOUT_TPM_WIPE_def CCD_CAP_OPEN_WITHOUT_LONG_PP_def
  CCD_CAP_REMOVE_BATTERY_BYPASSES_PP_def CCD_CAP_OPEN_WITHOUT_DEV_MODE_def CCD_CAP_OPEN_FROM_USB_def
  CCD_CAP_OVERRIDE_BATT_STATE_def CCD_CAP_COUNT_def

definition CCD_FLAG_TEST_LAB :: u32 where "CCD_FLAG_TEST_LAB = push_bit 0 1"
definition CCD_FLAG_PASSWORD_SET_WHEN_UNLOCKED :: u32 where "CCD_FLAG_PASSWORD_SET_WHEN_UNLOCKED = push_bit 1 1"
definition CCD_FLAG_FACTORY_MODE_ENABLED :: u32 where "CCD_FLAG_FACTORY_MODE_ENABLED = push_bit 2 1"
definition CCD_FLAG_RDDKEEPALIVE_AT_BOOT :: u32 where "CCD_FLAG_RDDKEEPALIVE_AT_BOOT = push_bit 19 1"
definition CCD_FLAG_OVERRIDE_BATT_AT_BOOT :: u32 where "CCD_FLAG_OVERRIDE_BATT_AT_BOOT = push_bit 20 1"
definition CCD_FLAG_OVERRIDE_BATT_STATE_CONNECT :: u32 where "CCD_FLAG_OVERRIDE_BATT_STATE_CONNECT = push_bit 21 1"
definition CCD_FLAG_OVERRIDE_WP_AT_BOOT :: u32 where "CCD_FLAG_OVERRIDE_WP_AT_BOOT = push_bit 22 1"
definition CCD_FLAG_OVERRIDE_WP_STATE_ENABLED :: u32 where "CCD_FLAG_OVERRIDE_WP_STATE_ENABLED = push_bit 23 1"

lemmas ccd_flag_defs = CCD_FLAG_TEST_LAB_def CCD_FLAG_PASSWORD_SET_WHEN_UNLOCKED_def CCD_FLAG_FACTORY_MODE_ENABLED_def
  CCD_FLAG_RDDKEEPALIVE_AT_BOOT_def CCD_FLAG_OVERRIDE_BATT_AT_BOOT_def CCD_FLAG_OVERRIDE_BATT_STATE_CONNECT_def
  CCD_FLAG_OVERRIDE_WP_AT_BOOT_def CCD_FLAG_OVERRIDE_WP_STATE_ENABLED_def

definition k_public_flags :: u32 where
  "k_public_flags = CCD_FLAG_RDDKEEPALIVE_AT_BOOT OR CCD_FLAG_OVERRIDE_WP_AT_BOOT OR
     CCD_FLAG_OVERRIDE_WP_STATE_ENABLED OR CCD_FLAG_OVERRIDE_BATT_AT_BOOT OR CCD_FLAG_OVERRIDE_BATT_STATE_CONNECT"

definition CCD_RESET_TEST_LAB :: u32 where "CCD_RESET_TEST_LAB = push_bit 0 1"
definition CCD_RESET_UNLOCKED_ONLY :: u32 where "CCD_RESET_UNLOCKED_ONLY = push_bit 1 1"
definition CCD_RESET_FACTORY :: u32 where "CCD_RESET_FACTORY = push_bit 2 1"

lemmas ccd_reset_defs = CCD_RESET_TEST_LAB_def CCD_RESET_UNLOCKED_ONLY_def CCD_RESET_FACTORY_def

definition CCD_CONFIG_VERSION :: u8 where "CCD_CONFIG_VERSION = 0x10"
definition CCD_CONFIG_SIZE :: nat where "CCD_CONFIG_SIZE = 32"
definition PASSWORD_RATE_LIMIT_US :: u32 where "PASSWORD_RATE_LIMIT_US = 3 * 1000000"
definition k_ccd_config :: bytes where "k_ccd_config = [3]"

definition cap_info :: "(string \<times> ccd_capability_state) list" where
  "cap_info =
     [(''UartGscRxAPTx'', CCD_CAP_STATE_ALWAYS), (''UartGscTxAPRx'', CCD_CAP_STATE_ALWAYS),
      (''UartGscRxECTx'', CCD_CAP_STATE_ALWAYS), (''UartGscTxECRx'', CCD_CAP_STATE_IF_OPENED),
      (''FlashAP'', CCD_CAP_STATE_IF_OPENED), (''FlashEC'', CCD_CAP_STATE_IF_OPENED),
      (''OverrideWP'', CCD_CAP_STATE_IF_OPENED), (''RebootECAP'', CCD_CAP_STATE_IF_OPENED),
      (''GscFullConsole'', CCD_CAP_STATE_IF_OPENED), (''UnlockNoReboot'', CCD_CAP_STATE_ALWAYS),
      (''UnlockNoShortPP'', CCD_CAP_STATE_ALWAYS), (''OpenNoTPMWipe'', CCD_CAP_STATE_IF_OPENED),
      (''OpenNoLongPP'', CCD_CAP_STATE_IF_OPENED), (''BatteryBypassPP'', CCD_CAP_STATE_ALWAYS),
      (''Unused'', CCD_CAP_STATE_ALWAYS), (''I2C'', CCD_CAP_STATE_IF_OPENED),
      (''FlashRead'', CCD_CAP_STATE_ALWAYS), (''OpenNoDevMode'', CCD_CAP_STATE_IF_OPENED),
      (''OpenFromUSB'', CCD_CAP_STATE_IF_OPENED), (''OverrideBatt'', CCD_CAP_STATE_IF_OPENED),
      (''APROCheckVC'', CCD_CAP_STATE_IF_OPENED)]"

record ccd_config =
  cfg_version :: u8
  cfg_flags :: bytes
  capabilities :: bytes
  password_salt :: bytes
  password_digest :: bytes

definition ccd_config_ok :: "ccd_config \<Rightarrow> bool" where
  "ccd_config_ok c \<longleftrightarrow> length (cfg_flags c) = 3 \<and> length (capabilities c) = 8 \<and>
     length (password_salt c) = 4 \<and> length (password_digest c) = 16"

text \<open>The packed struct in memory.\<close>

definition config_bytes :: "ccd_config \<Rightarrow> bytes" where
  "config_bytes c = cfg_version c # cfg_flags c @ capabilities c @ password_salt c @ password_digest c"

definition config_of_bytes :: "bytes \<Rightarrow> ccd_config" where
  "config_of_bytes b = \<lparr>cfg_version = b ! 0, cfg_flags = take 3 (drop 1 b), capabilities = take 8 (drop 4 b),
     password_salt = take 4 (drop 12 b), password_digest = take 16 (drop 16 b)\<rparr>"

definition zero_config :: ccd_config where
  "zero_config = \<lparr>cfg_version = 0, cfg_flags = replicate 3 0, capabilities = replicate 8 0,
     password_salt = replicate 4 0, password_digest = replicate 16 0\<rparr>"

text \<open>What \<open>read_tpm_nvmem\<close> finds in an NV space of the TPM.\<close>

datatype tpm_read = TPM_READ_SUCCESS bytes | TPM_READ_NOT_FOUND | TPM_READ_TOO_SMALL

text \<open>The inputs of the board during one operation: the SHA-256 function and whether the engine is free,
  what the random source writes and whether it succeeded, the chip id, the clock, the battery signal
  (active low), the two TPM spaces (the first also as it reads once the TPM is wiped), whether this is the first boot in the factory, the reset flags, whether the board id
  matches the image, and the results of the two ways to wipe the TPM.\<close>

record ccd_env =
  env_sha256 :: "bytes \<Rightarrow> bytes"
  env_sha_ok :: bool
  env_rand :: bytes
  env_rand_ok :: bool
  env_unique_id :: bytes
  env_now :: u64
  env_batt_pres_l :: bool
  env_fwmp :: tpm_read
  env_fwmp_wiped :: tpm_read
  env_firmware :: tpm_read
  env_first_factory_boot :: bool
  env_hibernate_resume :: bool
  env_rollback_detected :: bool
  env_board_id_mismatched :: bool
  env_sync_reset :: ec_error
  env_wipe_request :: ec_error

datatype ccd_callback = CB_open_done_async | CB_unlock_done | CB_testlab_toggle

text \<open>Calls to other components that are not modelled here.\<close>

datatype ccd_event =
    HookCcdChange
  | BoardRebootAp
  | BoardRebootEc
  | SystemReset
  | DelaySleep
  | TpmSyncReset
  | TpmResetRequest
  | TpmStop
  | TpmReinstateCommits
  | LogTpmWipeError

record ccd_sys =
  ccd_state :: ccd_state_t
  config :: ccd_config
  ccd_config_loaded :: bool
  force_disabled :: bool
  ccd_console_active :: bool
  last_password_time :: u32
  bp_connect :: bool
  bp_forced :: bool
  long_life_scratch1 :: u32
  ec_wp_l :: bool
  wait_for_factory_ccd_change :: bool
  reset_required :: bool
  factory_enable_pending :: bool
  force_reset_pending :: bool
  ccd_nv :: nv_state
  ccd_pp :: "ccd_callback pp_state"
  ccd_events :: "ccd_event list"
  buffer_overrun :: bool

definition ccd_event :: "ccd_event \<Rightarrow> ccd_sys \<Rightarrow> ccd_sys" where
  "ccd_event e s = s\<lparr>ccd_events := ccd_events s @ [e]\<rparr>"

section \<open>Raw accessors\<close>

definition raw_get_flags :: "ccd_config \<Rightarrow> u32" where
  "raw_get_flags c = push_bit 0 (ucast (cfg_flags c ! 0)) OR push_bit 8 (ucast (cfg_flags c ! 1)) OR
     push_bit 16 (ucast (cfg_flags c ! 2))"

definition raw_set_flag :: "u32 \<Rightarrow> bool \<Rightarrow> ccd_config \<Rightarrow> ccd_config" where
  "raw_set_flag flag value c =
     (let f = (if value then raw_get_flags c OR flag else raw_get_flags c AND NOT flag)
      in c\<lparr>cfg_flags := [ucast (drop_bit 0 f), ucast (drop_bit 8 f), ucast (drop_bit 16 f)]\<rparr>)"

definition raw_get_cap :: "ccd_config \<Rightarrow> nat \<Rightarrow> bool \<Rightarrow> ccd_capability_state" where
  "raw_get_cap cfg cap translate_default =
     (let index = cap div 4; shift = (cap mod 4) * 2;
          c = cap_state_of (drop_bit shift (capabilities cfg ! index) AND 3)
      in if c = CCD_CAP_STATE_DEFAULT \<and> translate_default then snd (cap_info ! cap) else c)"

definition raw_set_cap :: "nat \<Rightarrow> ccd_capability_state \<Rightarrow> ccd_config \<Rightarrow> ccd_config" where
  "raw_set_cap cap st cfg =
     (let index = cap div 4; shift = (cap mod 4) * 2; caps = capabilities cfg;
          cleared = caps ! index AND NOT (push_bit shift 3)
      in cfg\<lparr>capabilities := caps[index := cleared OR push_bit shift (cap_state_value st AND 3)]\<rparr>)"

definition raw_check_all_caps_default :: "ccd_config \<Rightarrow> bool" where
  "raw_check_all_caps_default cfg \<longleftrightarrow>
     list_all (\<lambda>i. raw_get_cap cfg i False = CCD_CAP_STATE_DEFAULT) [0..<CCD_CAP_COUNT]"

definition raw_has_password :: "ccd_config \<Rightarrow> bool" where
  "raw_has_password c \<longleftrightarrow> fold (OR) (password_digest c) (fold (OR) (password_salt c) 0) \<noteq> 0"

definition ccd_password_digest :: "ccd_env \<Rightarrow> ccd_config \<Rightarrow> bytes \<Rightarrow> ec_error + bytes" where
  "ccd_password_digest env c password =
     (if \<not> env_sha_ok env then Inl EC_ERROR_HW_INTERNAL
      else Inr (take 16 (env_sha256 env (password_salt c @ env_unique_id env @ take (strlen password) password))))"

definition raw_check_password :: "ccd_env \<Rightarrow> bytes \<Rightarrow> ccd_sys \<Rightarrow> ec_error \<times> ccd_sys" where
  "raw_check_password env password s =
     (if \<not> raw_has_password (config s)
      then (if cur password \<noteq> 0 then EC_ERROR_ACCESS_DENIED else EC_SUCCESS, s)
      else
        (let t = ucast (env_now env)
         in if t - last_password_time s < PASSWORD_RATE_LIMIT_US then (EC_ERROR_BUSY, s)
            else
              (let s1 = s\<lparr>last_password_time := t\<rparr>
               in case ccd_password_digest env (config s1) password of
                    Inl e \<Rightarrow> (e, s1)
                  | Inr digest \<Rightarrow>
                      (if safe_memcmp digest (password_digest (config s1)) 16 then EC_ERROR_ACCESS_DENIED
                       else EC_SUCCESS, s1))))"

definition raw_reset_password :: "ccd_config \<Rightarrow> ccd_config" where
  "raw_reset_password c =
     raw_set_flag CCD_FLAG_PASSWORD_SET_WHEN_UNLOCKED False
       (c\<lparr>password_salt := replicate 4 0, password_digest := replicate 16 0\<rparr>)"

definition raw_set_password :: "ccd_env \<Rightarrow> bytes \<Rightarrow> ccd_sys \<Rightarrow> ec_error \<times> ccd_sys" where
  "raw_set_password env password s =
     (let c1 = (config s)\<lparr>password_salt := env_rand env\<rparr>
      in if \<not> env_rand_ok env then (EC_ERROR_HW_INTERNAL, s\<lparr>config := c1\<rparr>)
         else case ccd_password_digest env c1 password of
                Inl e \<Rightarrow> (e, s\<lparr>config := c1\<rparr>)
              | Inr digest \<Rightarrow>
                  (EC_SUCCESS,
                   s\<lparr>config := raw_set_flag CCD_FLAG_PASSWORD_SET_WHEN_UNLOCKED (ccd_state s = CCD_STATE_UNLOCKED)
                                 (c1\<lparr>password_digest := digest\<rparr>)\<rparr>))"

definition ccd_get_flag :: "ccd_sys \<Rightarrow> u32 \<Rightarrow> bool" where
  "ccd_get_flag s flag =
     (if \<not> ccd_config_loaded s \<or> force_disabled s then False else raw_get_flags (config s) AND flag \<noteq> 0)"

definition ccd_is_cap_enabled :: "ccd_sys \<Rightarrow> nat \<Rightarrow> bool" where
  "ccd_is_cap_enabled s cap =
     (if \<not> ccd_config_loaded s \<or> force_disabled s then False
      else case raw_get_cap (config s) cap True of
             CCD_CAP_STATE_ALWAYS \<Rightarrow> True
           | CCD_CAP_STATE_UNLESS_LOCKED \<Rightarrow> ccd_state s \<noteq> CCD_STATE_LOCKED
           | _ \<Rightarrow> ccd_state s = CCD_STATE_OPENED)"

definition ccd_get_factory_mode :: "ccd_sys \<Rightarrow> bool" where
  "ccd_get_factory_mode s = ccd_get_flag s CCD_FLAG_FACTORY_MODE_ENABLED"

definition console_is_restricted :: "ccd_sys \<Rightarrow> bool" where
  "console_is_restricted s \<longleftrightarrow> \<not> ccd_is_cap_enabled s CCD_CAP_GSC_RESTRICTED_CONSOLE"

section \<open>Firmware management parameters\<close>

datatype fwmp_controlled_action = CCD_UNLOCK | BOOT_POLICY_UPDATE

text \<open>\<open>struct RollbackSpaceFwmp\<close>: checksum, size, version, reserved byte, flags, 32 bytes of key hash.\<close>

definition fwmp_flags :: "bytes \<Rightarrow> u32" where "fwmp_flags fwmp = of_le (take 4 (drop 4 fwmp))"

definition lock_enforced :: "bytes \<Rightarrow> fwmp_controlled_action \<Rightarrow> bool" where
  "lock_enforced fwmp action =
     (if fwmp ! 1 \<noteq> 40 then True
      else if fwmp ! 0 \<noteq> crc8 (take 38 (drop 2 fwmp)) then True
      else case action of
             CCD_UNLOCK \<Rightarrow> fwmp_flags fwmp AND push_bit 6 1 \<noteq> 0
           | BOOT_POLICY_UPDATE \<Rightarrow> fwmp_flags fwmp AND push_bit 0 1 \<noteq> 0)"

definition fwmp_allows :: "ccd_env \<Rightarrow> fwmp_controlled_action \<Rightarrow> bool" where
  "fwmp_allows env action =
     (case env_fwmp env of
        TPM_READ_NOT_FOUND \<Rightarrow> True
      | TPM_READ_SUCCESS fwmp \<Rightarrow> \<not> lock_enforced fwmp action
      | TPM_READ_TOO_SMALL \<Rightarrow> False)"

definition board_fwmp_allows_unlock :: "ccd_env \<Rightarrow> bool" where
  "board_fwmp_allows_unlock env = fwmp_allows env CCD_UNLOCK"

definition board_fwmp_allows_boot_policy_update :: "ccd_env \<Rightarrow> bool" where
  "board_fwmp_allows_boot_policy_update env = fwmp_allows env BOOT_POLICY_UPDATE"

definition board_vboot_dev_mode_enabled :: "ccd_env \<Rightarrow> bool" where
  "board_vboot_dev_mode_enabled env =
     (case env_firmware env of
        TPM_READ_SUCCESS fw \<Rightarrow> fw ! 1 AND 0x02 \<noteq> 0
      | _ \<Rightarrow> False)"

section \<open>Laws of the accessors\<close>

lemma bit_3: "bit (3 :: u8) n \<longleftrightarrow> n < 2"
proof -
  have a: "(mask 2 :: u8) = 3" by (simp add: mask_eq_exp_minus_1)
  have "bit (mask 2 :: u8) n \<longleftrightarrow> n < 2" by (simp only: bit_mask_iff) auto
  then show ?thesis unfolding a .
qed

text \<open>A two-bit field of a byte.\<close>

lemma field_set_get:
  fixes w v :: u8
  assumes "i < 4" "j < 4"
  shows "drop_bit (j * 2) ((w AND NOT (push_bit (i * 2) 3)) OR push_bit (i * 2) (v AND 3)) AND 3
    = (if i = j then v AND 3 else drop_bit (j * 2) w AND 3)"
proof (cases "i = j")
  case True
  have b: "j * 2 + n < 8" if "n < 2" for n using assms(2) that by simp
  show ?thesis
    using True b by (auto intro!: bit_word_eqI simp: bit_and_iff bit_or_iff bit_not_iff bit_push_bit_iff bit_drop_bit_eq bit_3 simp del: bit_numeral_word_iff)
next
  case False
  have n: "\<not> (i * 2 \<le> n + j * 2 \<and> n + j * 2 - i * 2 < 2)" if "n < 2" for n using False that by linarith
  have b: "n + j * 2 < 8" if "n < 2" for n using assms(2) that by simp
  show ?thesis
  proof (rule bit_word_eqI)
    fix k assume "k < LENGTH(8)"
    show "bit (drop_bit (j * 2) ((w AND NOT (push_bit (i * 2) 3)) OR push_bit (i * 2) (v AND 3)) AND 3) k \<longleftrightarrow>
        bit (if i = j then v AND 3 else drop_bit (j * 2) w AND 3) k"
      using False n [of k] b [of k]
      by (cases "k < 2") (auto simp: bit_and_iff bit_or_iff bit_not_iff bit_push_bit_iff bit_drop_bit_eq bit_3 add.commute
          simp del: bit_numeral_word_iff)
  qed
qed

lemma cap_state_value_and_3 [simp]: "cap_state_value st AND 3 = cap_state_value st"
  by (cases st) simp_all

lemma raw_set_cap_ok [simp]: "ccd_config_ok (raw_set_cap cap st c) = ccd_config_ok c"
  by (simp add: raw_set_cap_def ccd_config_ok_def Let_def)

lemma raw_set_cap_other [simp]:
  "cfg_version (raw_set_cap cap st c) = cfg_version c" "cfg_flags (raw_set_cap cap st c) = cfg_flags c"
  "password_salt (raw_set_cap cap st c) = password_salt c" "password_digest (raw_set_cap cap st c) = password_digest c"
  by (simp_all add: raw_set_cap_def Let_def)

lemma raw_get_set_cap_raw:
  assumes "ccd_config_ok c" "i < 32" "j < 32"
  shows "raw_get_cap (raw_set_cap i st c) j False = (if i = j then st else raw_get_cap c j False)"
proof -
  have l: "i div 4 < length (capabilities c)" "j div 4 < length (capabilities c)"
    using assms by (simp_all add: ccd_config_ok_def)
  have m: "i mod 4 < 4" "j mod 4 < 4" by simp_all
  have e: "i = j \<longleftrightarrow> i div 4 = j div 4 \<and> i mod 4 = j mod 4"
    by (metis div_mult_mod_eq)
  show ?thesis
    using l field_set_get [OF m, of "capabilities c ! (i div 4)" "cap_state_value st"] e
    by (cases "i div 4 = j div 4") (auto simp: raw_get_cap_def raw_set_cap_def Let_def nth_list_update)
qed

lemma raw_get_cap_translate:
  "raw_get_cap c j True = (let r = raw_get_cap c j False in if r = CCD_CAP_STATE_DEFAULT then snd (cap_info ! j) else r)"
  by (simp add: raw_get_cap_def Let_def)

lemma raw_get_set_cap:
  assumes "ccd_config_ok c" "i < 32" "j < 32"
  shows "raw_get_cap (raw_set_cap i st c) j tr =
    (if i = j then (if st = CCD_CAP_STATE_DEFAULT \<and> tr then snd (cap_info ! j) else st) else raw_get_cap c j tr)"
  using raw_get_set_cap_raw [OF assms] by (cases tr) (auto simp: raw_get_cap_translate Let_def)

lemma length_cap_info: "length cap_info = 21"
  by (simp add: cap_info_def)

lemma cap_info_not_default:
  assumes "i < 21" shows "snd (cap_info ! i) \<noteq> CCD_CAP_STATE_DEFAULT"
proof -
  have "list_all (\<lambda>p. snd p \<noteq> CCD_CAP_STATE_DEFAULT) cap_info" by (simp add: cap_info_def)
  then show ?thesis using assms by (simp add: list_all_length length_cap_info)
qed

text \<open>Flags.\<close>

lemma raw_get_flags_le:
  assumes "length (cfg_flags c) = 3"
  shows "raw_get_flags c = of_le (cfg_flags c)"
proof -
  obtain x y z where "cfg_flags c = [x, y, z]" using assms by (auto simp: length_Suc_conv numeral_3_eq_3)
  then show ?thesis by (simp add: raw_get_flags_def push_bit_or push_bit_push_bit)
qed

lemma bit_raw_get_flags:
  assumes "length (cfg_flags c) = 3"
  shows "bit (raw_get_flags c) n \<longleftrightarrow> n < 24 \<and> bit (cfg_flags c ! (n div 8)) (n mod 8)"
  using assms by (auto simp: raw_get_flags_le bit_of_le)

lemma bit_flags_of_word:
  fixes f :: u32
  assumes "cfg_flags c = to_le 3 f"
  shows "bit (raw_get_flags c) n \<longleftrightarrow> n < 24 \<and> bit f n"
  using assms by (auto simp: bit_raw_get_flags to_le_def bit_ucast_iff bit_drop_bit_eq)

lemma raw_set_flag_ok [simp]: "ccd_config_ok c \<Longrightarrow> ccd_config_ok (raw_set_flag flag v c)"
  by (simp add: raw_set_flag_def ccd_config_ok_def Let_def)

lemma raw_set_flag_other [simp]:
  "cfg_version (raw_set_flag flag v c) = cfg_version c" "capabilities (raw_set_flag flag v c) = capabilities c"
  "password_salt (raw_set_flag flag v c) = password_salt c" "password_digest (raw_set_flag flag v c) = password_digest c"
  by (simp_all add: raw_set_flag_def Let_def)

lemma raw_get_cap_set_flag [simp]: "raw_get_cap (raw_set_flag flag v c) = raw_get_cap c"
  by (simp add: raw_get_cap_def fun_eq_iff)

lemma raw_has_password_set_flag [simp]: "raw_has_password (raw_set_flag flag v c) = raw_has_password c"
  by (simp add: raw_has_password_def)

lemma raw_has_password_set_cap [simp]: "raw_has_password (raw_set_cap cap st c) = raw_has_password c"
  by (simp add: raw_has_password_def)

lemma raw_get_set_flag:
  assumes "length (cfg_flags c) = 3"
  shows "raw_get_flags (raw_set_flag flag v c) = (if v then raw_get_flags c OR (flag AND mask 24) else raw_get_flags c AND NOT flag)"
proof (rule bit_word_eqI)
  fix n assume "n < LENGTH(32)"
  have b: "bit (raw_get_flags c) n \<Longrightarrow> n < 24" using bit_raw_get_flags [OF assms] by simp
  define f where "f = (if v then raw_get_flags c OR flag else raw_get_flags c AND NOT flag)"
  have "bit (raw_get_flags (raw_set_flag flag v c)) n \<longleftrightarrow> n < 24 \<and> bit f n"
    by (rule bit_flags_of_word) (simp add: raw_set_flag_def f_def Let_def to_le_def upt_rec numeral_3_eq_3)
  then show "bit (raw_get_flags (raw_set_flag flag v c)) n \<longleftrightarrow>
      bit (if v then raw_get_flags c OR (flag AND mask 24) else raw_get_flags c AND NOT flag) n"
    using b \<open>n < LENGTH(32)\<close> by (auto simp: f_def bit_or_iff bit_and_iff bit_not_iff bit_mask_iff)
qed

lemma flag_bit: "w AND push_bit n 1 \<noteq> 0 \<longleftrightarrow> bit w n" for w :: "'a::len word"
  by (simp add: and_exp_eq_0_iff_not_bit push_bit_of_1)

lemma bit_flag: "n < 32 \<Longrightarrow> bit (push_bit n 1 :: u32) m \<longleftrightarrow> m = n"
  by (auto simp: push_bit_of_1 bit_exp_iff)

text \<open>The packed struct.\<close>

lemma length_config_bytes: "ccd_config_ok c \<Longrightarrow> length (config_bytes c) = 32"
  by (simp add: ccd_config_ok_def config_bytes_def)

lemma config_of_bytes_inverse: "ccd_config_ok c \<Longrightarrow> config_of_bytes (config_bytes c) = c"
  by (simp add: ccd_config_ok_def config_bytes_def config_of_bytes_def)

lemma config_of_bytes_ok: "length b = 32 \<Longrightarrow> ccd_config_ok (config_of_bytes b)"
  by (simp add: ccd_config_ok_def config_of_bytes_def)

lemma zero_config_ok [simp]: "ccd_config_ok zero_config"
  by (simp add: zero_config_def ccd_config_ok_def)

end
