(* ===== verification/Vendor_Cmd.thy ===== *)
theory Vendor_Cmd
  imports Prelude
begin

text \<open>
  The vendor command layer: \<open>src/include/extension.h\<close>, \<open>src/common/extension.c\<close> (which
  commands an interface may issue, and the search for the handler) and the envelope
  \<open>call_extension_command\<close> of \<open>src/common/tpm_registers.c\<close>.  Handlers are functions on a state of any
  type, so that the components that register commands share the layer.
\<close>

section \<open>Model\<close>

datatype vendor_cmd_rc =
    VENDOR_RC_SUCCESS
  | VENDOR_RC_BOGUS_ARGS
  | VENDOR_RC_READ_FLASH_FAIL
  | VENDOR_RC_WRITE_FLASH_FAIL
  | VENDOR_RC_REQUEST_TOO_BIG
  | VENDOR_RC_RESPONSE_TOO_BIG
  | VENDOR_RC_INTERNAL_ERROR
  | VENDOR_RC_NOT_ALLOWED
  | VENDOR_RC_NO_SUCH_SUBCOMMAND
  | VENDOR_RC_IN_PROGRESS
  | VENDOR_RC_PASSWORD_REQUIRED
  | VENDOR_RC_NVMEM_LOCKED
  | VENDOR_RC_NO_SUCH_COMMAND

fun vendor_rc_value :: "vendor_cmd_rc \<Rightarrow> u32" where
  "vendor_rc_value VENDOR_RC_SUCCESS = 0"
| "vendor_rc_value VENDOR_RC_BOGUS_ARGS = 1"
| "vendor_rc_value VENDOR_RC_READ_FLASH_FAIL = 2"
| "vendor_rc_value VENDOR_RC_WRITE_FLASH_FAIL = 3"
| "vendor_rc_value VENDOR_RC_REQUEST_TOO_BIG = 4"
| "vendor_rc_value VENDOR_RC_RESPONSE_TOO_BIG = 5"
| "vendor_rc_value VENDOR_RC_INTERNAL_ERROR = 6"
| "vendor_rc_value VENDOR_RC_NOT_ALLOWED = 7"
| "vendor_rc_value VENDOR_RC_NO_SUCH_SUBCOMMAND = 8"
| "vendor_rc_value VENDOR_RC_IN_PROGRESS = 9"
| "vendor_rc_value VENDOR_RC_PASSWORD_REQUIRED = 10"
| "vendor_rc_value VENDOR_RC_NVMEM_LOCKED = 11"
| "vendor_rc_value VENDOR_RC_NO_SUCH_COMMAND = 127"

definition VENDOR_RC_ERR :: u32 where "VENDOR_RC_ERR = 0x500"

definition VENDOR_CMD_FROM_USB :: u32 where "VENDOR_CMD_FROM_USB = push_bit 0 1"
definition VENDOR_CMD_FROM_ALT_IF :: u32 where "VENDOR_CMD_FROM_ALT_IF = push_bit 1 1"

record vendor_cmd_params =
  vc_code :: u32
  vc_buffer :: bytes
  vc_in_size :: u32
  vc_out_size :: u32
  vc_flags :: u32

type_synonym 's vendor_handler = "vendor_cmd_params \<Rightarrow> 's \<Rightarrow> vendor_cmd_rc \<times> vendor_cmd_params \<times> 's"

text \<open>The command codes of \<open>src/include/tpm_vendor_cmds.h\<close> that the two filters name.\<close>

definition EXTENSION_FW_UPGRADE :: u32 where "EXTENSION_FW_UPGRADE = 4"
definition EXTENSION_POST_RESET :: u32 where "EXTENSION_POST_RESET = 7"
definition VENDOR_CC_REPORT_TPM_STATE :: u32 where "VENDOR_CC_REPORT_TPM_STATE = 23"
definition VENDOR_CC_TURN_UPDATE_ON :: u32 where "VENDOR_CC_TURN_UPDATE_ON = 24"
definition VENDOR_CC_GET_BOARD_ID :: u32 where "VENDOR_CC_GET_BOARD_ID = 25"
definition VENDOR_CC_POP_LOG_ENTRY :: u32 where "VENDOR_CC_POP_LOG_ENTRY = 28"
definition VENDOR_CC_RMA_CHALLENGE_RESPONSE :: u32 where "VENDOR_CC_RMA_CHALLENGE_RESPONSE = 30"
definition VENDOR_CC_DISABLE_FACTORY :: u32 where "VENDOR_CC_DISABLE_FACTORY = 32"
definition VENDOR_CC_CCD :: u32 where "VENDOR_CC_CCD = 34"
definition VENDOR_CC_SPI_HASH :: u32 where "VENDOR_CC_SPI_HASH = 36"
definition VENDOR_CC_RESET_FACTORY :: u32 where "VENDOR_CC_RESET_FACTORY = 38"
definition VENDOR_CC_WP :: u32 where "VENDOR_CC_WP = 39"
definition VENDOR_CC_GET_BOOT_MODE :: u32 where "VENDOR_CC_GET_BOOT_MODE = 52"
definition VENDOR_CC_GET_AP_RO_HASH :: u32 where "VENDOR_CC_GET_AP_RO_HASH = 56"
definition VENDOR_CC_GET_AP_RO_STATUS :: u32 where "VENDOR_CC_GET_AP_RO_STATUS = 57"
definition VENDOR_CC_AP_RO_VALIDATE :: u32 where "VENDOR_CC_AP_RO_VALIDATE = 58"
definition VENDOR_CC_GET_FACTORY_CONFIG :: u32 where "VENDOR_CC_GET_FACTORY_CONFIG = 68"
definition VENDOR_CC_SET_FACTORY_CONFIG :: u32 where "VENDOR_CC_SET_FACTORY_CONFIG = 69"
definition VENDOR_CC_GET_CHIP_ID :: u32 where "VENDOR_CC_GET_CHIP_ID = 75"

lemmas vendor_cc_defs = EXTENSION_FW_UPGRADE_def EXTENSION_POST_RESET_def VENDOR_CC_REPORT_TPM_STATE_def
  VENDOR_CC_TURN_UPDATE_ON_def VENDOR_CC_GET_BOARD_ID_def VENDOR_CC_POP_LOG_ENTRY_def
  VENDOR_CC_RMA_CHALLENGE_RESPONSE_def VENDOR_CC_DISABLE_FACTORY_def VENDOR_CC_CCD_def VENDOR_CC_SPI_HASH_def
  VENDOR_CC_RESET_FACTORY_def VENDOR_CC_WP_def
  VENDOR_CC_GET_BOOT_MODE_def VENDOR_CC_GET_AP_RO_HASH_def VENDOR_CC_GET_AP_RO_STATUS_def VENDOR_CC_AP_RO_VALIDATE_def
  VENDOR_CC_GET_FACTORY_CONFIG_def VENDOR_CC_SET_FACTORY_CONFIG_def VENDOR_CC_GET_CHIP_ID_def

text \<open>The filter for commands from USB or the console (\<open>VENDOR_CMD_FROM_ALT_IF\<close>), in a production
  build.\<close>

definition usb_allowed :: "vendor_cmd_params \<Rightarrow> bool" where
  "usb_allowed p \<longleftrightarrow>
     vc_code p \<in> {EXTENSION_POST_RESET, VENDOR_CC_CCD, VENDOR_CC_GET_AP_RO_HASH, VENDOR_CC_GET_AP_RO_STATUS,
       VENDOR_CC_GET_BOARD_ID, VENDOR_CC_GET_BOOT_MODE, VENDOR_CC_GET_CHIP_ID, VENDOR_CC_GET_FACTORY_CONFIG,
       VENDOR_CC_POP_LOG_ENTRY, VENDOR_CC_RMA_CHALLENGE_RESPONSE, VENDOR_CC_SET_FACTORY_CONFIG, VENDOR_CC_SPI_HASH,
       VENDOR_CC_TURN_UPDATE_ON} \<or>
     (vc_code p = VENDOR_CC_AP_RO_VALIDATE \<and> vc_flags p AND VENDOR_CMD_FROM_ALT_IF \<noteq> 0)"

text \<open>The commands left when the board id does not match the image.\<close>

definition mismatch_allowed :: "u32 \<Rightarrow> bool" where
  "mismatch_allowed c \<longleftrightarrow>
     c \<in> {EXTENSION_FW_UPGRADE, VENDOR_CC_REPORT_TPM_STATE, VENDOR_CC_TURN_UPDATE_ON, VENDOR_CC_GET_BOARD_ID,
          VENDOR_CC_GET_CHIP_ID, EXTENSION_POST_RESET}"

fun find_handler :: "(u32 \<times> 's vendor_handler) list \<Rightarrow> u32 \<Rightarrow> 's vendor_handler option" where
  "find_handler [] c = None"
| "find_handler ((command_code, handler) # cmds) c =
     (if command_code = c then Some handler else find_handler cmds c)"

definition ignore_cmd :: "vendor_cmd_params \<Rightarrow> 's \<Rightarrow> vendor_cmd_rc \<times> vendor_cmd_params \<times> 's" where
  "ignore_cmd p s = (VENDOR_RC_NO_SUCH_COMMAND, p\<lparr>vc_out_size := 0\<rparr>, s)"

definition extension_route_command ::
  "(u32 \<times> 's vendor_handler) list \<Rightarrow> bool \<Rightarrow> vendor_cmd_params \<Rightarrow> 's \<Rightarrow> vendor_cmd_rc \<times> vendor_cmd_params \<times> 's" where
  "extension_route_command cmds board_id_mismatched p s =
     (if vc_flags p AND (VENDOR_CMD_FROM_USB OR VENDOR_CMD_FROM_ALT_IF) \<noteq> 0 \<and> \<not> usb_allowed p then ignore_cmd p s
      else if board_id_mismatched \<and> \<not> mismatch_allowed (vc_code p) then ignore_cmd p s
      else case find_handler cmds (vc_code p) of
             Some handler \<Rightarrow> handler p s
           | None \<Rightarrow> ignore_cmd p s)"

text \<open>The envelope: a command of \<open>command_size\<close> bytes in a buffer of \<open>total_size\<close> bytes, both with the
  header of 12 bytes; \<open>data\<close> is the buffer behind the header.  The answer is the code for the header, the size and the
  buffer behind the header; a command shorter than a header is left as it is.\<close>

definition TPM_HEADER_SIZE :: u32 where "TPM_HEADER_SIZE = 12"

definition call_extension_command ::
  "(u32 \<times> 's vendor_handler) list \<Rightarrow> bool \<Rightarrow> u32 \<Rightarrow> u32 \<Rightarrow> u32 \<Rightarrow> u32 \<Rightarrow> bytes \<Rightarrow> 's \<Rightarrow>
   (u32 \<times> u32 \<times> bytes) option \<times> 's" where
  "call_extension_command cmds board_id_mismatched subcommand_code command_size total_size flags data s =
     (if command_size \<ge> TPM_HEADER_SIZE
      then
        (let p = \<lparr>vc_code = subcommand_code, vc_buffer = data, vc_in_size = command_size - TPM_HEADER_SIZE,
                  vc_out_size = total_size - TPM_HEADER_SIZE, vc_flags = flags\<rparr>
         in case extension_route_command cmds board_id_mismatched p s of
              (rc, p', s') \<Rightarrow>
                (Some (if rc = VENDOR_RC_SUCCESS then 0 else vendor_rc_value rc OR VENDOR_RC_ERR,
                       vc_out_size p' + TPM_HEADER_SIZE, vc_buffer p'), s'))
      else (None, s))"

section \<open>What a table of commands guarantees\<close>

lemma find_handler_in: "find_handler cmds c = Some h \<Longrightarrow> (c, h) \<in> set cmds"
  by (induction cmds c rule: find_handler.induct) (auto split: if_splits)

text \<open>A relation between the states before and after, which the handlers of the table for the commands let
  through keep, is kept by every command from every interface.\<close>

locale command_table =
  fixes cmds :: "(u32 \<times> 's vendor_handler) list"
    and keeps :: "'s \<Rightarrow> 's \<Rightarrow> bool"
  assumes keeps_refl: "keeps s s"
    and handler_keeps: "(c, h) \<in> set cmds \<Longrightarrow> vc_code p = c \<Longrightarrow> h p s = (rc, p', s') \<Longrightarrow> keeps s s'"
begin

lemma route_keeps:
  assumes "extension_route_command cmds mm p s = (rc, p', s')"
  shows "keeps s s'"
proof (cases "find_handler cmds (vc_code p)")
  case None
  then show ?thesis using assms keeps_refl by (auto simp: extension_route_command_def ignore_cmd_def split: if_splits)
next
  case (Some h)
  from find_handler_in [OF this] have "h p s = (rc, p', s') \<Longrightarrow> keeps s s'" using handler_keeps by blast
  then show ?thesis
    using assms Some keeps_refl by (auto simp: extension_route_command_def ignore_cmd_def split: if_splits)
qed

lemma envelope_keeps:
  assumes "call_extension_command cmds mm sub n room flags data s = (r, s')"
  shows "keeps s s'"
  using assms route_keeps keeps_refl
  by (fastforce simp: call_extension_command_def Let_def split: if_splits prod.splits)

end

end
