(* ===== verification/Ccd_Config.thy ===== *)
theory Ccd_Config
  imports Ccd_Types Vendor_Cmd
begin

text \<open>
  The operations of case closed debugging: write protect and battery presence
  (\<open>src/board/cr50/wp.c\<close>), the CCD state machine, its console commands and its vendor command
  (\<open>src/common/ccd_config.c\<close>) and factory mode (\<open>src/common/factory_mode.c\<close>,
  \<open>src/board/cr50/factory_mode.c\<close>).
\<close>

section \<open>Write protect and battery presence\<close>

definition BOARD_WP_ASSERTED :: u32 where "BOARD_WP_ASSERTED = push_bit 8 1"
definition BOARD_FORCING_WP :: u32 where "BOARD_FORCING_WP = push_bit 9 1"
definition BOARD_FWMP_FORCE_WP_EN :: u32 where "BOARD_FWMP_FORCE_WP_EN = push_bit 25 1"

definition board_battery_is_present :: "ccd_env \<Rightarrow> ccd_sys \<Rightarrow> bool" where
  "board_battery_is_present env s = (if bp_forced s then bp_connect s else \<not> env_batt_pres_l env)"

definition board_fwmp_force_wp_en :: "ccd_sys \<Rightarrow> bool" where
  "board_fwmp_force_wp_en s \<longleftrightarrow> long_life_scratch1 s AND BOARD_FWMP_FORCE_WP_EN \<noteq> 0"

definition board_forcing_wp :: "ccd_sys \<Rightarrow> bool" where
  "board_forcing_wp s \<longleftrightarrow> long_life_scratch1 s AND BOARD_FORCING_WP \<noteq> 0"

definition set_wp_state :: "bool \<Rightarrow> ccd_sys \<Rightarrow> ccd_sys" where
  "set_wp_state asserted s =
     (let asserted' = (if board_fwmp_force_wp_en s \<and> \<not> asserted then True else asserted)
      in if asserted'
         then s\<lparr>long_life_scratch1 := long_life_scratch1 s OR BOARD_WP_ASSERTED, ec_wp_l := False\<rparr>
         else s\<lparr>long_life_scratch1 := long_life_scratch1 s AND NOT BOARD_WP_ASSERTED, ec_wp_l := True\<rparr>)"

definition wp_is_asserted :: "ccd_sys \<Rightarrow> bool" where
  "wp_is_asserted s \<longleftrightarrow> \<not> ec_wp_l s"

definition check_wp_battery_presence :: "ccd_env \<Rightarrow> ccd_sys \<Rightarrow> ccd_sys" where
  "check_wp_battery_presence env s =
     (let bp = board_battery_is_present env s
      in if board_fwmp_force_wp_en s \<or> board_forcing_wp s then s
         else if bp \<noteq> wp_is_asserted s then set_wp_state bp s
         else s)"

definition force_write_protect :: "ccd_env \<Rightarrow> bool \<Rightarrow> bool \<Rightarrow> ccd_sys \<Rightarrow> ccd_sys" where
  "force_write_protect env force wp_en s =
     (if force
      then set_wp_state wp_en (s\<lparr>long_life_scratch1 := long_life_scratch1 s OR BOARD_FORCING_WP\<rparr>)
      else (let s1 = s\<lparr>long_life_scratch1 := long_life_scratch1 s AND NOT BOARD_FORCING_WP\<rparr>
            in set_wp_state (board_battery_is_present env s1) s1))"

definition set_bp_follow_ccd_config :: "ccd_sys \<Rightarrow> ccd_sys" where
  "set_bp_follow_ccd_config s =
     (if ccd_get_flag s CCD_FLAG_OVERRIDE_BATT_AT_BOOT
      then s\<lparr>bp_forced := True, bp_connect := ccd_get_flag s CCD_FLAG_OVERRIDE_BATT_STATE_CONNECT\<rparr>
      else s\<lparr>bp_forced := False\<rparr>)"

definition set_wp_follow_ccd_config :: "ccd_env \<Rightarrow> ccd_sys \<Rightarrow> ccd_sys" where
  "set_wp_follow_ccd_config env s =
     (if board_fwmp_force_wp_en s then force_write_protect env True True s
      else if ccd_get_flag s CCD_FLAG_OVERRIDE_WP_AT_BOOT
      then force_write_protect env True (ccd_get_flag s CCD_FLAG_OVERRIDE_WP_STATE_ENABLED) s
      else force_write_protect env False True s)"

definition board_wp_follow_ccd_config :: "ccd_env \<Rightarrow> ccd_sys \<Rightarrow> ccd_sys" where
  "board_wp_follow_ccd_config env s = set_wp_follow_ccd_config env (set_bp_follow_ccd_config s)"

definition board_write_prop :: "u32 \<Rightarrow> bool \<Rightarrow> ccd_sys \<Rightarrow> ccd_sys" where
  "board_write_prop flag enable s =
     (if enable then s\<lparr>long_life_scratch1 := long_life_scratch1 s OR flag\<rparr>
      else s\<lparr>long_life_scratch1 := long_life_scratch1 s AND NOT flag\<rparr>)"

definition board_fwmp_check_wp_policy :: "ccd_env \<Rightarrow> ccd_sys \<Rightarrow> bool \<times> ccd_sys" where
  "board_fwmp_check_wp_policy env s =
     (let fwmp_force_wp = (\<not> board_fwmp_allows_unlock env);
          update_brdprop = (fwmp_force_wp \<noteq> board_fwmp_force_wp_en s);
          s1 = (if update_brdprop then board_write_prop BOARD_FWMP_FORCE_WP_EN fwmp_force_wp s else s)
      in if fwmp_force_wp \<and> (\<not> wp_is_asserted s1 \<or> update_brdprop)
         then (False, force_write_protect env True True s1)
         else (update_brdprop, s1))"

definition board_fwmp_update_policies :: "ccd_env \<Rightarrow> ccd_sys \<Rightarrow> ccd_sys" where
  "board_fwmp_update_policies env s =
     (case board_fwmp_check_wp_policy env s of
        (changed, s1) \<Rightarrow> if changed then set_wp_follow_ccd_config env s1 else s1)"

definition init_wp_state :: "ccd_env \<Rightarrow> ccd_sys \<Rightarrow> ccd_sys" where
  "init_wp_state env s =
     (let s1 = snd (board_fwmp_check_wp_policy env (set_bp_follow_ccd_config s))
      in if board_fwmp_force_wp_en s1 then set_wp_state True s1
         else if env_hibernate_resume env \<and> \<not> env_rollback_detected env
         then if board_forcing_wp s1
              then set_wp_state (long_life_scratch1 s1 AND BOARD_WP_ASSERTED \<noteq> 0) s1
              else set_wp_state (board_battery_is_present env s1) s1
         else set_wp_follow_ccd_config env s1)"

definition board_wipe_tpm :: "ccd_env \<Rightarrow> bool \<Rightarrow> ccd_sys \<Rightarrow> ec_error \<times> ccd_sys" where
  "board_wipe_tpm env reset_req s =
     (let s1 = ccd_event TpmResetRequest s
      in if env_wipe_request env \<noteq> EC_SUCCESS
         then (env_wipe_request env, ccd_event BoardRebootEc (ccd_event SystemReset (ccd_event LogTpmWipeError s1)))
         else (let s2 = board_fwmp_update_policies (env\<lparr>env_fwmp := env_fwmp_wiped env\<rparr>)
                          (ccd_event TpmReinstateCommits (ccd_event TpmStop s1))
               in (EC_SUCCESS, if reset_req then ccd_event BoardRebootEc s2 else s2)))"

section \<open>Notification of a change\<close>

text \<open>\<open>hook_notify\<close> runs the hooks of \<open>HOOK_CCD_CHANGE\<close> at once; those of other components read
  the configuration only, the last one is that of \<open>factory_mode.c\<close>.\<close>

definition factory_config_saved :: "ccd_sys \<Rightarrow> ccd_sys" where
  "factory_config_saved s =
     (let s1 = s\<lparr>wait_for_factory_ccd_change := False\<rparr>
      in if \<not> reset_required s1 then s1 else ccd_event SystemReset s1)"

definition ccd_config_changed :: "ccd_sys \<Rightarrow> ccd_sys" where
  "ccd_config_changed s = (if \<not> wait_for_factory_ccd_change s then s else factory_config_saved s)"

definition hook_notify_ccd_change :: "ccd_sys \<Rightarrow> ccd_sys" where
  "hook_notify_ccd_change s = ccd_config_changed (ccd_event HookCcdChange s)"

section \<open>Internal methods\<close>

definition ccd_set_state :: "ccd_state_t \<Rightarrow> ccd_sys \<Rightarrow> ccd_sys" where
  "ccd_set_state st s = (if st = ccd_state s then s else hook_notify_ccd_change (s\<lparr>ccd_state := st\<rparr>))"

definition ccd_save_config :: "ccd_sys \<Rightarrow> ec_error \<times> ccd_sys" where
  "ccd_save_config s =
     (case setvar (ccd_nv s) k_ccd_config (config_bytes (config s)) of
        (rv, nv) \<Rightarrow>
          (let s1 = s\<lparr>ccd_nv := nv\<rparr>
           in if rv \<noteq> EC_SUCCESS then (rv, s1)
              else (rv, if ccd_config_loaded s1 then hook_notify_ccd_change s1 else s1)))"

definition ccd_set_cap :: "nat \<Rightarrow> ccd_capability_state \<Rightarrow> ccd_sys \<Rightarrow> ec_error \<times> ccd_sys" where
  "ccd_set_cap cap st s =
     (if \<not> ccd_config_loaded s then (EC_ERROR_BUSY, s)
      else if st = raw_get_cap (config s) cap False then (EC_SUCCESS, s)
      else ccd_save_config (s\<lparr>config := raw_set_cap cap st (config s)\<rparr>))"

text \<open>The two loops of \<open>ccd_reset_config\<close> over all capabilities.\<close>

definition reset_unlocked_caps :: "ccd_config \<Rightarrow> ccd_config" where
  "reset_unlocked_caps =
     fold (\<lambda>i c. if raw_get_cap c i True = CCD_CAP_STATE_IF_OPENED then c else raw_set_cap i CCD_CAP_STATE_DEFAULT c)
       [0..<CCD_CAP_COUNT]"

definition set_all_caps_always :: "ccd_config \<Rightarrow> ccd_config" where
  "set_all_caps_always = fold (\<lambda>i. raw_set_cap i CCD_CAP_STATE_ALWAYS) [0..<CCD_CAP_COUNT]"

definition ccd_reset_config :: "ccd_env \<Rightarrow> u32 \<Rightarrow> ccd_sys \<Rightarrow> ec_error \<times> ccd_sys" where
  "ccd_reset_config env flags s =
     (let old_lab = ccd_get_flag s CCD_FLAG_TEST_LAB;
          s1 = (if flags AND CCD_RESET_UNLOCKED_ONLY \<noteq> 0
                then (let c = (if ccd_get_flag s CCD_FLAG_PASSWORD_SET_WHEN_UNLOCKED then raw_reset_password (config s)
                               else config s)
                      in s\<lparr>config := reset_unlocked_caps c\<rparr>)
                else board_wp_follow_ccd_config env (s\<lparr>config := zero_config\<lparr>cfg_version := CCD_CONFIG_VERSION\<rparr>\<rparr>));
          s2 = (if flags AND CCD_RESET_FACTORY \<noteq> 0
                then board_wp_follow_ccd_config env
                       (s1\<lparr>config := raw_set_flag CCD_FLAG_OVERRIDE_WP_STATE_ENABLED False
                                       (raw_set_flag CCD_FLAG_OVERRIDE_WP_AT_BOOT True
                                         (raw_set_flag CCD_FLAG_FACTORY_MODE_ENABLED True
                                           (set_all_caps_always (config s1))))\<rparr>)
                else s1);
          s3 = (if flags AND CCD_RESET_TEST_LAB = 0
                then s2\<lparr>config := raw_set_flag CCD_FLAG_TEST_LAB old_lab (config s2)\<rparr>
                else s2)
      in ccd_save_config s3)"

definition ccd_load_config :: "ccd_env \<Rightarrow> ccd_sys \<Rightarrow> ccd_sys" where
  "ccd_load_config env s =
     (if ccd_config_loaded s then s
      else
        (let s1 =
           (case getvar (ccd_nv s) k_ccd_config of
              None \<Rightarrow>
                snd (ccd_reset_config env (if env_first_factory_boot env then CCD_RESET_FACTORY else CCD_RESET_TEST_LAB) s)
            | Some val \<Rightarrow>
                (let s0 = s\<lparr>config := config_of_bytes (blit (config_bytes (config s)) 0 (take CCD_CONFIG_SIZE val))\<rparr>
                 in if cfg_version (config s0) \<noteq> CCD_CONFIG_VERSION \<or> length val \<noteq> CCD_CONFIG_SIZE
                    then snd (ccd_reset_config env (if length val < 2 then CCD_RESET_TEST_LAB else 0) s0)
                    else s0))
         in hook_notify_ccd_change (s1\<lparr>ccd_config_loaded := True\<rparr>)))"

definition ccd_cap_from_name :: "bytes \<Rightarrow> nat" where
  "ccd_cap_from_name name =
     (case find (\<lambda>i. strcasecmp name (c_string (fst (cap_info ! i))) = 0) [0..<CCD_CAP_COUNT] of
        Some i \<Rightarrow> i
      | None \<Rightarrow> CCD_CAP_COUNT)"

definition ccd_reset_password :: "ccd_sys \<Rightarrow> ec_error \<times> ccd_sys" where
  "ccd_reset_password s = ccd_save_config (s\<lparr>config := raw_reset_password (config s)\<rparr>)"

definition ccd_set_password :: "ccd_env \<Rightarrow> bytes \<Rightarrow> ccd_sys \<Rightarrow> ec_error \<times> ccd_sys" where
  "ccd_set_password env password s =
     (case raw_set_password env password s of
        (result, s1) \<Rightarrow> if result \<noteq> EC_SUCCESS then (result, s1) else ccd_save_config s1)"

section \<open>State changes after physical presence\<close>

definition ccd_open_done :: "ccd_env \<Rightarrow> bool \<Rightarrow> ccd_sys \<Rightarrow> ccd_sys" where
  "ccd_open_done env sync s =
     (let s1 = ccd_event DelaySleep s;
          (rv, s2) = (if \<not> ccd_is_cap_enabled s1 CCD_CAP_OPEN_WITHOUT_TPM_WIPE
                      then if sync then (env_sync_reset env, ccd_event TpmSyncReset s1) else board_wipe_tpm env True s1
                      else (EC_SUCCESS, s1))
      in if rv \<noteq> EC_SUCCESS then s2
         else
           (let s3 = (if \<not> ccd_is_cap_enabled s2 CCD_CAP_UNLOCK_WITHOUT_AP_REBOOT \<or>
                         (\<not> ccd_is_cap_enabled s2 CCD_CAP_OPEN_WITHOUT_TPM_WIPE \<and> sync)
                      then ccd_event BoardRebootAp s2 else s2)
            in ccd_set_state CCD_STATE_OPENED s3))"

definition ccd_unlock_done :: "ccd_sys \<Rightarrow> ccd_sys" where
  "ccd_unlock_done s =
     ccd_set_state CCD_STATE_UNLOCKED
       (if \<not> ccd_is_cap_enabled s CCD_CAP_UNLOCK_WITHOUT_AP_REBOOT then ccd_event BoardRebootAp s else s)"

definition ccd_testlab_toggle :: "ccd_sys \<Rightarrow> ccd_sys" where
  "ccd_testlab_toggle s =
     (let v = (\<not> ccd_get_flag s CCD_FLAG_TEST_LAB)
      in snd (ccd_save_config (s\<lparr>config := raw_set_flag CCD_FLAG_TEST_LAB v (config s)\<rparr>)))"

definition run_callback :: "ccd_env \<Rightarrow> ccd_callback \<Rightarrow> ccd_sys \<Rightarrow> ccd_sys" where
  "run_callback env cb s =
     (case cb of
        CB_open_done_async \<Rightarrow> ccd_open_done env False s
      | CB_unlock_done \<Rightarrow> ccd_unlock_done s
      | CB_testlab_toggle \<Rightarrow> ccd_testlab_toggle s)"

text \<open>\<open>physical_detect_done\<close> with the callbacks that CCD hands to it.\<close>

definition ccd_detect_done :: "ccd_env \<Rightarrow> ccd_sys \<Rightarrow> ccd_sys" where
  "ccd_detect_done env s =
     (case physical_detect_done_begin (ccd_pp s) of
        (cb, pp) \<Rightarrow>
          (let s1 = s\<lparr>ccd_pp := pp\<rparr>;
               s2 = (case cb of None \<Rightarrow> s1 | Some f \<Rightarrow> run_callback env f s1)
           in s2\<lparr>ccd_pp := physical_detect_done_end (ccd_pp s2)\<rparr>))"

section \<open>External interface\<close>

definition ccd_config_init :: "ccd_env \<Rightarrow> u8 \<Rightarrow> ccd_sys \<Rightarrow> ccd_sys" where
  "ccd_config_init env st s =
     ccd_load_config env
       (s\<lparr>ccd_state := (if st = 1 then CCD_STATE_UNLOCKED else if st = 2 then CCD_STATE_OPENED else CCD_STATE_LOCKED)\<rparr>)"

definition ccd_set_flag :: "u32 \<Rightarrow> bool \<Rightarrow> ccd_sys \<Rightarrow> ec_error \<times> ccd_sys" where
  "ccd_set_flag flag value s =
     (if force_disabled s then (EC_ERROR_ACCESS_DENIED, s)
      else if flag AND NOT k_public_flags \<noteq> 0 then (EC_ERROR_ACCESS_DENIED, s)
      else if \<not> ccd_config_loaded s then (EC_ERROR_BUSY, s)
      else if ccd_get_flag s flag = value then (EC_SUCCESS, s)
      else ccd_save_config (s\<lparr>config := raw_set_flag flag value (config s)\<rparr>))"

definition ccd_disable :: "ccd_sys \<Rightarrow> ccd_sys" where
  "ccd_disable s = ccd_set_state CCD_STATE_LOCKED (s\<lparr>force_disabled := True\<rparr>)"

section \<open>Vendor command\<close>

definition vc_error :: "ec_error \<Rightarrow> vendor_cmd_params \<Rightarrow> vendor_cmd_params" where
  "vc_error e p = p\<lparr>vc_out_size := 1, vc_buffer := (vc_buffer p)[0 := of_nat (ec_error_code e)]\<rparr>"

text \<open>\<open>buffer[p->in_size] = '\0'\<close>.  The largest size, which the subtraction in \<open>ccd_vendor\<close> makes of an empty
  command, addresses the subcommand byte in front of the buffer, which nobody reads any more; every other size
  beyond the buffer is a store behind its end.\<close>

definition terminate_input :: "vendor_cmd_params \<Rightarrow> ccd_sys \<Rightarrow> vendor_cmd_params \<times> ccd_sys" where
  "terminate_input p s =
     (if unat (vc_in_size p) < length (vc_buffer p)
      then (p\<lparr>vc_buffer := (vc_buffer p)[unat (vc_in_size p) := 0]\<rparr>, s)
      else if vc_in_size p = - 1 then (p, s)
      else (p, s\<lparr>buffer_overrun := True\<rparr>))"

text \<open>The first half of \<open>ccd_open\<close>: whether open is allowed, or else the answer.\<close>

definition ccd_open_allowed ::
  "ccd_env \<Rightarrow> vendor_cmd_params \<Rightarrow> ccd_sys \<Rightarrow>
   (vendor_cmd_rc \<times> vendor_cmd_params \<times> ccd_sys) + (vendor_cmd_params \<times> ccd_sys)" where
  "ccd_open_allowed env p s =
     (if raw_has_password (config s)
      then if vc_in_size p = 0 then Inl (VENDOR_RC_PASSWORD_REQUIRED, vc_error EC_ERROR_PARAM_COUNT p, s)
           else case terminate_input p s of
                  (p1, s1) \<Rightarrow>
                    (case raw_check_password env (vc_buffer p1) s1 of
                       (rv, s2) \<Rightarrow>
                         if rv \<noteq> EC_SUCCESS then Inl (VENDOR_RC_INTERNAL_ERROR, vc_error rv p1, s2) else Inr (p1, s2))
      else if \<not> board_battery_is_present env s then Inr (p, s)
      else if (ccd_is_cap_enabled s CCD_CAP_OPEN_WITHOUT_DEV_MODE \<or> board_vboot_dev_mode_enabled env) \<and>
              (ccd_is_cap_enabled s CCD_CAP_OPEN_FROM_USB \<or>
               vc_flags p AND (VENDOR_CMD_FROM_USB OR VENDOR_CMD_FROM_ALT_IF) = 0)
      then Inr (p, s)
      else Inl (VENDOR_RC_NOT_ALLOWED, vc_error EC_ERROR_ACCESS_DENIED p, s))"

text \<open>Start a physical presence check, or answer with the error.\<close>

definition start_presence ::
  "ccd_env \<Rightarrow> bool \<Rightarrow> ccd_callback \<Rightarrow> vendor_cmd_params \<Rightarrow> ccd_sys \<Rightarrow> vendor_cmd_rc \<times> vendor_cmd_params \<times> ccd_sys" where
  "start_presence env is_long cb p s =
     (case physical_detect_start (env_now env) is_long cb (ccd_pp s) of
        (rv, pp) \<Rightarrow>
          if rv \<noteq> EC_SUCCESS then (VENDOR_RC_INTERNAL_ERROR, vc_error rv p, s\<lparr>ccd_pp := pp\<rparr>)
          else (VENDOR_RC_IN_PROGRESS, p, s\<lparr>ccd_pp := pp\<rparr>))"

definition ccd_open :: "ccd_env \<Rightarrow> vendor_cmd_params \<Rightarrow> ccd_sys \<Rightarrow> vendor_cmd_rc \<times> vendor_cmd_params \<times> ccd_sys" where
  "ccd_open env p s =
     (if force_disabled s then (VENDOR_RC_NOT_ALLOWED, vc_error EC_ERROR_ACCESS_DENIED p, s)
      else if ccd_state s = CCD_STATE_OPENED then (VENDOR_RC_SUCCESS, p, s)
      else if \<not> board_fwmp_allows_unlock env then (VENDOR_RC_NOT_ALLOWED, vc_error EC_ERROR_ACCESS_DENIED p, s)
      else case ccd_open_allowed env p s of
             Inl r \<Rightarrow> r
           | Inr (p1, s1) \<Rightarrow>
               (if physical_detect_busy (ccd_pp s1)
                then (VENDOR_RC_INTERNAL_ERROR, vc_error EC_ERROR_BUSY p1,
                      s1\<lparr>ccd_pp := physical_detect_abort (env_now env) (ccd_pp s1)\<rparr>)
                else
                  (let is_long = (\<not> ccd_is_cap_enabled s1 CCD_CAP_OPEN_WITHOUT_LONG_PP);
                       need_pp = (\<not> (\<not> is_long \<and> ccd_is_cap_enabled s1 CCD_CAP_UNLOCK_WITHOUT_SHORT_PP) \<and>
                                  \<not> (ccd_is_cap_enabled s1 CCD_CAP_REMOVE_BATTERY_BYPASSES_PP \<and>
                                     \<not> board_battery_is_present env s1))
                   in if need_pp then start_presence env is_long CB_open_done_async p1 s1
                      else (VENDOR_RC_SUCCESS, p1, ccd_open_done env True s1))))"

definition ccd_unlock :: "ccd_env \<Rightarrow> vendor_cmd_params \<Rightarrow> ccd_sys \<Rightarrow> vendor_cmd_rc \<times> vendor_cmd_params \<times> ccd_sys" where
  "ccd_unlock env p s =
     (if force_disabled s then (VENDOR_RC_NOT_ALLOWED, vc_error EC_ERROR_ACCESS_DENIED p, s)
      else if ccd_state s = CCD_STATE_UNLOCKED then (VENDOR_RC_SUCCESS, p, s)
      else if ccd_state s = CCD_STATE_OPENED then (VENDOR_RC_SUCCESS, p, ccd_unlock_done s)
      else if \<not> raw_has_password (config s) \<or> \<not> board_fwmp_allows_unlock env
      then (VENDOR_RC_NOT_ALLOWED, vc_error EC_ERROR_ACCESS_DENIED p, s)
      else if vc_in_size p = 0 then (VENDOR_RC_PASSWORD_REQUIRED, vc_error EC_ERROR_PARAM_COUNT p, s)
      else case terminate_input p s of
             (p1, s1) \<Rightarrow>
               (case raw_check_password env (vc_buffer p1) s1 of
                  (rv, s2) \<Rightarrow>
                    if rv \<noteq> EC_SUCCESS then (VENDOR_RC_INTERNAL_ERROR, vc_error rv p1, s2)
                    else if physical_detect_busy (ccd_pp s2)
                    then (VENDOR_RC_INTERNAL_ERROR, vc_error EC_ERROR_BUSY p1,
                          s2\<lparr>ccd_pp := physical_detect_abort (env_now env) (ccd_pp s2)\<rparr>)
                    else
                      (let need_pp = (\<not> ccd_is_cap_enabled s2 CCD_CAP_UNLOCK_WITHOUT_SHORT_PP \<and>
                                      \<not> (ccd_is_cap_enabled s2 CCD_CAP_REMOVE_BATTERY_BYPASSES_PP \<and>
                                         \<not> board_battery_is_present env s2))
                       in if need_pp then start_presence env False CB_unlock_done p1 s2
                          else (VENDOR_RC_SUCCESS, p1, ccd_unlock_done s2))))"

definition ccd_lock :: "ccd_sys \<Rightarrow> ccd_sys" where
  "ccd_lock s = ccd_set_state CCD_STATE_LOCKED s"

definition clear_prefix :: bytes where "clear_prefix = c_string ''clear:''"

definition do_ccd_password :: "ccd_env \<Rightarrow> bytes \<Rightarrow> ccd_sys \<Rightarrow> ec_error \<times> ccd_sys" where
  "do_ccd_password env password s =
     (if ccd_state s = CCD_STATE_LOCKED then (EC_ERROR_ACCESS_DENIED, s)
      else if raw_has_password (config s)
      then if strncasecmp password clear_prefix 6 \<noteq> 0 then (EC_ERROR_ACCESS_DENIED, s)
           else case raw_check_password env (drop 6 password) s of
                  (rv, s1) \<Rightarrow> if rv \<noteq> EC_SUCCESS then (EC_ERROR_ACCESS_DENIED, s1) else ccd_reset_password s1
      else ccd_set_password env password s)"

definition CCD_MAX_PASSWORD_SIZE :: nat where "CCD_MAX_PASSWORD_SIZE = 40"

definition ccd_password :: "ccd_env \<Rightarrow> vendor_cmd_params \<Rightarrow> ccd_sys \<Rightarrow> vendor_cmd_rc \<times> vendor_cmd_params \<times> ccd_sys" where
  "ccd_password env p s =
     (if vc_flags p AND (VENDOR_CMD_FROM_USB OR VENDOR_CMD_FROM_ALT_IF) \<noteq> 0
      then (VENDOR_RC_NOT_ALLOWED, vc_error EC_ERROR_ACCESS_DENIED p, s)
      else case (if vc_in_size p = 0 \<or> unat (vc_in_size p) \<ge> CCD_MAX_PASSWORD_SIZE + 1 then (EC_ERROR_PARAM1, s)
                 else do_ccd_password env (take (unat (vc_in_size p)) (vc_buffer p) @ [0]) s) of
             (rv, s1) \<Rightarrow>
               if rv \<noteq> EC_SUCCESS then (VENDOR_RC_INTERNAL_ERROR, vc_error rv p, s1) else (VENDOR_RC_SUCCESS, p, s1))"

definition vc_answer :: "u8 \<Rightarrow> vendor_cmd_params \<Rightarrow> vendor_cmd_params" where
  "vc_answer b p = p\<lparr>vc_out_size := 1, vc_buffer := (vc_buffer p)[0 := b]\<rparr>"

text \<open>The numbers of \<open>enum ccd_pp_state\<close> in the answers.\<close>

definition ccd_pp_poll :: "ccd_sys \<Rightarrow> u8" where
  "ccd_pp_poll s =
     (if ccd_state s = CCD_STATE_OPENED \<or> ccd_state s = CCD_STATE_UNLOCKED then 3
      else case physical_presense_fsm_state (ccd_pp s) of
             PP_AWAITING_PRESS \<Rightarrow> 1 | PP_BETWEEN_PRESSES \<Rightarrow> 2 | PP_OTHER \<Rightarrow> 0)"

definition ccd_pp_poll_unlock :: "vendor_cmd_params \<Rightarrow> ccd_sys \<Rightarrow> vendor_cmd_rc \<times> vendor_cmd_params \<times> ccd_sys" where
  "ccd_pp_poll_unlock p s =
     (if ccd_state s \<noteq> CCD_STATE_OPENED \<and> ccd_state s \<noteq> CCD_STATE_UNLOCKED
      then (VENDOR_RC_SUCCESS, vc_answer (ccd_pp_poll s) p, s)
      else (VENDOR_RC_SUCCESS, vc_answer 3 p, s))"

definition ccd_pp_poll_open :: "vendor_cmd_params \<Rightarrow> ccd_sys \<Rightarrow> vendor_cmd_rc \<times> vendor_cmd_params \<times> ccd_sys" where
  "ccd_pp_poll_open p s =
     (if ccd_state s \<noteq> CCD_STATE_OPENED then (VENDOR_RC_SUCCESS, vc_answer (ccd_pp_poll s) p, s)
      else (VENDOR_RC_SUCCESS, vc_answer 3 p, s))"

text \<open>The capabilities of \<open>g\<close> in 32-bit words, two bits each, and the answer of \<open>ccd_get_info\<close>.\<close>

definition info_words :: "(nat \<Rightarrow> ccd_capability_state) \<Rightarrow> u32 list" where
  "info_words g =
     fold (\<lambda>i ws. ws[i div 16 := ws ! (i div 16) OR push_bit ((i mod 16) * 2) (ucast (cap_state_value (g i)))])
       [0..<CCD_CAP_COUNT] [0, 0]"

definition be32 :: "u32 \<Rightarrow> bytes" where "be32 w = rev (to_le 4 w)"

definition ccd_info_response :: "ccd_sys \<Rightarrow> bytes" where
  "ccd_info_response s =
     concat (map be32 (info_words (\<lambda>i. raw_get_cap (config s) i True))) @
     concat (map be32 (info_words (\<lambda>i. snd (cap_info ! i)))) @
     be32 (raw_get_flags (config s)) @
     [ccd_state_value (ccd_state s), (if force_disabled s then 1 else 0),
      (if raw_has_password (config s) then 1 else 0) OR (if raw_check_all_caps_default (config s) then 2 else 0)]"

definition ccd_get_info :: "vendor_cmd_params \<Rightarrow> ccd_sys \<Rightarrow> vendor_cmd_rc \<times> vendor_cmd_params \<times> ccd_sys" where
  "ccd_get_info p s =
     (VENDOR_RC_SUCCESS, p\<lparr>vc_out_size := 23, vc_buffer := blit (vc_buffer p) 0 (ccd_info_response s)\<rparr>, s)"

text \<open>The handler of a subcommand of \<open>enum ccd_vendor_subcommands\<close>.\<close>

definition ccd_subcommand ::
  "ccd_env \<Rightarrow> u8 \<Rightarrow> (vendor_cmd_params \<Rightarrow> ccd_sys \<Rightarrow> vendor_cmd_rc \<times> vendor_cmd_params \<times> ccd_sys) option" where
  "ccd_subcommand env sub =
     (if sub = 0 then Some (ccd_password env)
      else if sub = 1 then Some (ccd_open env)
      else if sub = 2 then Some (ccd_unlock env)
      else if sub = 3 then Some (\<lambda>p s. (VENDOR_RC_SUCCESS, p, ccd_lock s))
      else if sub = 4 then Some ccd_pp_poll_unlock
      else if sub = 5 then Some ccd_pp_poll_open
      else if sub = 6 then Some ccd_get_info
      else None)"

definition ccd_vendor :: "ccd_env \<Rightarrow> vendor_cmd_params \<Rightarrow> ccd_sys \<Rightarrow> vendor_cmd_rc \<times> vendor_cmd_params \<times> ccd_sys" where
  "ccd_vendor env p s =
     (if vc_out_size p < 23 + 1 then (VENDOR_RC_RESPONSE_TOO_BIG, p\<lparr>vc_out_size := 0\<rparr>, s)
      else case ccd_subcommand env (vc_buffer p ! 0) of
             None \<Rightarrow> (VENDOR_RC_NO_SUCH_SUBCOMMAND, p\<lparr>vc_out_size := 0\<rparr>, s)
           | Some handler \<Rightarrow>
               (case handler (p\<lparr>vc_out_size := 0, vc_buffer := drop 1 (vc_buffer p), vc_in_size := vc_in_size p - 1\<rparr>) s of
                  (rc, q, s1) \<Rightarrow>
                    (let n = unat (vc_out_size q)
                     in (rc, q\<lparr>vc_buffer := take n (vc_buffer q) @ drop n (vc_buffer p ! 0 # vc_buffer q),
                               vc_in_size := vc_in_size q + 1\<rparr>, s1))))"

section \<open>Console commands\<close>

text \<open>Console commands return an \<open>int\<close>; \<open>argv\<close> is a list of strings.  Commands that only print are
  their return code.\<close>

definition command_ccd_reset :: "ccd_env \<Rightarrow> bytes list \<Rightarrow> ccd_sys \<Rightarrow> ec_error \<times> ccd_sys" where
  "command_ccd_reset env argv s =
     (let arg = (if length argv > 1
                 then if strcasecmp (argv ! 1) (c_string ''factory'') = 0 then Some CCD_RESET_FACTORY else None
                 else Some 0)
      in case arg of
           None \<Rightarrow> (EC_ERROR_PARAM1, s)
         | Some flags \<Rightarrow>
             (case ccd_state s of
                CCD_STATE_OPENED \<Rightarrow> ccd_reset_config env flags s
              | CCD_STATE_UNLOCKED \<Rightarrow> ccd_reset_config env CCD_RESET_UNLOCKED_ONLY s
              | CCD_STATE_LOCKED \<Rightarrow> (EC_ERROR_ACCESS_DENIED, s)))"

definition cap_state_from_name :: "bytes \<Rightarrow> ccd_capability_state option" where
  "cap_state_from_name name =
     map_option snd (find (\<lambda>(n, st). strcasecmp name (c_string n) = 0)
       [(''Default'', CCD_CAP_STATE_DEFAULT), (''Always'', CCD_CAP_STATE_ALWAYS),
        (''UnlessLocked'', CCD_CAP_STATE_UNLESS_LOCKED), (''IfOpened'', CCD_CAP_STATE_IF_OPENED)])"

definition command_ccd_set :: "bytes list \<Rightarrow> ccd_sys \<Rightarrow> ec_error \<times> ccd_sys" where
  "command_ccd_set argv s =
     (if ccd_state s = CCD_STATE_LOCKED then (EC_ERROR_ACCESS_DENIED, s)
      else if length argv < 3 then (EC_ERROR_PARAM_COUNT, s)
      else
        (let cap = ccd_cap_from_name (argv ! 1)
         in if cap = CCD_CAP_COUNT then (EC_ERROR_PARAM1, s)
            else case cap_state_from_name (argv ! 2) of
                   None \<Rightarrow> (EC_ERROR_PARAM2, s)
                 | Some new \<Rightarrow>
                     (let old = raw_get_cap (config s) cap True
                      in if ccd_state s = CCD_STATE_UNLOCKED \<and>
                            (new = CCD_CAP_STATE_IF_OPENED \<or> old = CCD_CAP_STATE_IF_OPENED)
                         then (EC_ERROR_ACCESS_DENIED, s)
                         else ccd_set_cap cap new s)))"

definition command_ccd_testlab :: "ccd_env \<Rightarrow> bytes list \<Rightarrow> ccd_sys \<Rightarrow> ec_error \<times> ccd_sys" where
  "command_ccd_testlab env argv s =
     (if force_disabled s then (EC_ERROR_ACCESS_DENIED, s)
      else if length argv < 2 then (EC_SUCCESS, s)
      else if strcasecmp (argv ! 1) (c_string ''open'') = 0
      then if \<not> ccd_get_flag s CCD_FLAG_TEST_LAB then (EC_ERROR_ACCESS_DENIED, s)
           else (EC_SUCCESS, ccd_set_state CCD_STATE_OPENED s)
      else if ccd_state s \<noteq> CCD_STATE_OPENED then (EC_ERROR_ACCESS_DENIED, s)
      else case parse_bool (argv ! 1) of
             None \<Rightarrow> (EC_ERROR_PARAM1, s)
           | Some newflag \<Rightarrow>
               (if newflag = ccd_get_flag s CCD_FLAG_TEST_LAB then (EC_SUCCESS, s)
                else case physical_detect_start (env_now env) False CB_testlab_toggle (ccd_pp s) of
                       (rv, pp) \<Rightarrow> (rv, s\<lparr>ccd_pp := pp\<rparr>)))"

section \<open>Factory mode\<close>

definition ccd_disable_factory_mode ::
  "ccd_env \<Rightarrow> vendor_cmd_params \<Rightarrow> ccd_sys \<Rightarrow> vendor_cmd_rc \<times> vendor_cmd_params \<times> ccd_sys" where
  "ccd_disable_factory_mode env p s =
     (if raw_has_password (config s) then (VENDOR_RC_INTERNAL_ERROR, vc_error EC_ERROR_ACCESS_DENIED p, s)
      else if (\<not> ccd_is_cap_enabled s CCD_CAP_REMOVE_BATTERY_BYPASSES_PP \<or> board_battery_is_present env s) \<and>
              \<not> list_all (ccd_is_cap_enabled s)
                  [CCD_CAP_OPEN_WITHOUT_TPM_WIPE, CCD_CAP_UNLOCK_WITHOUT_AP_REBOOT, CCD_CAP_OPEN_WITHOUT_LONG_PP,
                   CCD_CAP_UNLOCK_WITHOUT_SHORT_PP]
      then (VENDOR_RC_INTERNAL_ERROR, vc_error EC_ERROR_ACCESS_DENIED p, s)
      else case command_ccd_reset env [] (ccd_set_state CCD_STATE_OPENED s) of
             (rv, s1) \<Rightarrow>
               (if rv \<noteq> EC_SUCCESS then (VENDOR_RC_INTERNAL_ERROR, vc_error rv p, s1)
                else
                  (let s2 = board_wp_follow_ccd_config env (ccd_lock s1)
                   in (VENDOR_RC_SUCCESS, p\<lparr>vc_out_size := 0\<rparr>,
                       s2\<lparr>config := raw_set_flag CCD_FLAG_FACTORY_MODE_ENABLED False (config s2)\<rparr>))))"

definition enable_ccd_factory_mode :: "bool \<Rightarrow> ccd_sys \<Rightarrow> ccd_sys" where
  "enable_ccd_factory_mode reset_req s =
     (ccd_event DelaySleep s)\<lparr>reset_required := reset_required s \<or> reset_req, factory_enable_pending := True\<rparr>"

text \<open>The two deferred functions, run by the hook task.\<close>

definition force_system_reset :: "ccd_sys \<Rightarrow> ccd_sys" where
  "force_system_reset s = factory_config_saved (s\<lparr>force_reset_pending := False\<rparr>)"

definition factory_enable_deferred :: "ccd_env \<Rightarrow> ccd_sys \<Rightarrow> ccd_sys" where
  "factory_enable_deferred env s0 =
     (let s = s0\<lparr>factory_enable_pending := False\<rparr>
      in case board_wipe_tpm env (reset_required s) s of
           (rv, s1) \<Rightarrow>
             (if rv \<noteq> EC_SUCCESS then s1
              else case ccd_reset_config env CCD_RESET_FACTORY (s1\<lparr>wait_for_factory_ccd_change := True\<rparr>) of
                     (rv2, s2) \<Rightarrow>
                       (let s3 = (if rv2 \<noteq> EC_SUCCESS then factory_config_saved s2 else s2)
                        in if reset_required s3 then s3\<lparr>force_reset_pending := True\<rparr> else s3)))"

definition vc_factory_reset ::
  "ccd_env \<Rightarrow> vendor_cmd_params \<Rightarrow> ccd_sys \<Rightarrow> vendor_cmd_rc \<times> vendor_cmd_params \<times> ccd_sys" where
  "vc_factory_reset env p s =
     (let p0 = p\<lparr>vc_out_size := 0\<rparr>
      in if vc_in_size p \<noteq> 0 then (VENDOR_RC_BOGUS_ARGS, p0, s)
         else if board_battery_is_present env s \<or> \<not> board_fwmp_allows_unlock env \<or> raw_has_password (config s)
         then (VENDOR_RC_NOT_ALLOWED, p0, s)
         else (VENDOR_RC_SUCCESS, p0, enable_ccd_factory_mode False s))"

section \<open>Commands of the write protect component\<close>

text \<open>The bits of the answer: \<open>WPV_ENABLE\<close> 1, \<open>WPV_FORCE\<close> 2, \<open>WPV_ATBOOT_SET\<close> 3,
  \<open>WPV_ATBOOT_ENABLE\<close> 4, \<open>WPV_FWMP_FORCE_WP_EN\<close> 5.\<close>

definition wp_response :: "ccd_sys \<Rightarrow> u8" where
  "wp_response s =
     (if board_fwmp_force_wp_en s then push_bit 5 1 OR push_bit 3 1 OR push_bit 4 1 else 0) OR
     (if board_forcing_wp s then push_bit 2 1 else 0) OR
     (if wp_is_asserted s then push_bit 1 1 else 0) OR
     (if ccd_get_flag s CCD_FLAG_OVERRIDE_WP_AT_BOOT
      then push_bit 3 1 OR (if ccd_get_flag s CCD_FLAG_OVERRIDE_WP_STATE_ENABLED then push_bit 4 1 else 0)
      else 0)"

definition WP_ENABLE :: u8 where "WP_ENABLE = 2"

definition vc_set_wp :: "vendor_cmd_params \<Rightarrow> ccd_sys \<Rightarrow> vendor_cmd_rc \<times> vendor_cmd_params \<times> ccd_sys" where
  "vc_set_wp p s =
     (let p0 = p\<lparr>vc_out_size := 0\<rparr>
      in if vc_in_size p > 1 then (VENDOR_RC_BOGUS_ARGS, p0, s)
         else if vc_in_size p = 1 \<and> vc_buffer p ! 0 \<noteq> WP_ENABLE then (VENDOR_RC_BOGUS_ARGS, p0, s)
         else (let s1 = (if vc_in_size p = 1 then set_wp_state True s else s)
               in (VENDOR_RC_SUCCESS, vc_answer (wp_response s1) p, s1)))"

definition vc_lock :: "vendor_cmd_params \<Rightarrow> ccd_sys \<Rightarrow> vendor_cmd_rc \<times> vendor_cmd_params \<times> ccd_sys" where
  "vc_lock p s =
     (if vc_code p = 16
      then if vc_in_size p \<noteq> 0 then (VENDOR_RC_BOGUS_ARGS, p\<lparr>vc_out_size := 0\<rparr>, s)
           else (VENDOR_RC_SUCCESS, vc_answer (if console_is_restricted s then 1 else 0) p, s)
      else (VENDOR_RC_NO_SUCH_COMMAND, p\<lparr>vc_out_size := 0\<rparr>, s))"

definition command_bpforce :: "ccd_env \<Rightarrow> bytes list \<Rightarrow> ccd_sys \<Rightarrow> ec_error \<times> ccd_sys" where
  "command_bpforce env argv s =
     (if \<not> length argv > 1 then (EC_SUCCESS, s)
      else if \<not> ccd_is_cap_enabled s CCD_CAP_OVERRIDE_BATT_STATE then (EC_ERROR_ACCESS_DENIED, s)
      else
        (let arg = (if strncasecmp (argv ! 1) (c_string ''follow'') 6 = 0 then Some (False, True)
                    else if strncasecmp (argv ! 1) (c_string ''dis'') 3 = 0 then Some (True, False)
                    else if strncasecmp (argv ! 1) (c_string ''con'') 3 \<noteq> 0 then None
                    else Some (True, True))
         in case arg of
              None \<Rightarrow> (EC_ERROR_PARAM2, s)
            | Some (forced, val) \<Rightarrow>
                (let s1 = s\<lparr>bp_forced := forced, bp_connect := val\<rparr>;
                     s2 = (if length argv > 2 \<and> strcasecmp (argv ! 2) (c_string ''atboot'') = 0
                           then snd (ccd_set_flag CCD_FLAG_OVERRIDE_BATT_STATE_CONNECT (bp_connect s1)
                                  (snd (ccd_set_flag CCD_FLAG_OVERRIDE_BATT_AT_BOOT (bp_forced s1) s1)))
                           else s1)
                 in (EC_SUCCESS, check_wp_battery_presence env s2))))"

text \<open>\<open>wp follow\<close> leaves the local variable \<open>val\<close> unset; \<open>garbage\<close> is what it holds then.\<close>

definition command_wp :: "ccd_env \<Rightarrow> bool \<Rightarrow> bytes list \<Rightarrow> ccd_sys \<Rightarrow> ec_error \<times> ccd_sys" where
  "command_wp env garbage argv s =
     (if \<not> length argv > 1 then (EC_SUCCESS, s)
      else if \<not> ccd_is_cap_enabled s CCD_CAP_OVERRIDE_WP then (EC_ERROR_ACCESS_DENIED, s)
      else if board_fwmp_force_wp_en s then (EC_ERROR_ACCESS_DENIED, s)
      else
        (let arg = (if strncasecmp (argv ! 1) (c_string ''follow'') 6 = 0 then Some (False, garbage)
                    else case parse_bool (argv ! 1) of Some val \<Rightarrow> Some (True, val) | None \<Rightarrow> None)
         in case arg of
              None \<Rightarrow> (EC_ERROR_PARAM1, s)
            | Some (forced, val) \<Rightarrow>
                (let s1 = force_write_protect env forced val s
                 in (EC_SUCCESS,
                     if length argv > 2 \<and> strcasecmp (argv ! 2) (c_string ''atboot'') = 0
                     then snd (ccd_set_flag CCD_FLAG_OVERRIDE_WP_STATE_ENABLED val
                            (snd (ccd_set_flag CCD_FLAG_OVERRIDE_WP_AT_BOOT forced s1)))
                     else s1))))"

section \<open>The commands together\<close>

definition ccd_commands :: "ccd_env \<Rightarrow> (u32 \<times> ccd_sys vendor_handler) list" where
  "ccd_commands env =
     [(VENDOR_CC_CCD, ccd_vendor env), (VENDOR_CC_DISABLE_FACTORY, ccd_disable_factory_mode env),
      (VENDOR_CC_RESET_FACTORY, vc_factory_reset env), (VENDOR_CC_WP, vc_set_wp), (16, vc_lock)]"

text \<open>The console's way to the vendor command: a buffer of 53 bytes on the stack, the header included, whose
  unused part is taken to be zero.\<close>

definition ccd_command_wrapper :: "ccd_env \<Rightarrow> nat \<Rightarrow> bytes \<Rightarrow> u8 \<Rightarrow> ccd_sys \<Rightarrow> nat \<times> ccd_sys" where
  "ccd_command_wrapper env argc password subcmd s =
     (let pw = (if argc > 1 then take (strlen password) password else [])
      in if length pw > CCD_MAX_PASSWORD_SIZE then (ec_error_code EC_ERROR_PARAM1, s)
         else case call_extension_command (ccd_commands env) (env_board_id_mismatched env) VENDOR_CC_CCD
                     (13 + of_nat (length pw)) 53 VENDOR_CMD_FROM_ALT_IF
                     (subcmd # pw @ replicate (CCD_MAX_PASSWORD_SIZE - length pw) 0) s of
                (None, s1) \<Rightarrow> (0, s1)
              | (Some (return_code, answer_size, data), s1) \<Rightarrow>
                  (if return_code \<noteq> 0 \<and> return_code \<noteq> (vendor_rc_value VENDOR_RC_IN_PROGRESS OR VENDOR_RC_ERR)
                   then unat (data ! 0) else 0, s1))"

definition console_code :: "ec_error \<times> ccd_sys \<Rightarrow> nat \<times> ccd_sys" where
  "console_code r = (ec_error_code (fst r), snd r)"

definition argv_is :: "bytes list \<Rightarrow> nat \<Rightarrow> string \<Rightarrow> bool" where
  "argv_is argv i name \<longleftrightarrow> strcasecmp (argv ! i) (c_string name) = 0"

definition command_ccd_body :: "ccd_env \<Rightarrow> bytes list \<Rightarrow> ccd_sys \<Rightarrow> nat \<times> ccd_sys" where
  "command_ccd_body env argv s =
     (let argc = length argv; arg2 = (if argc > 2 then argv ! 2 else [])
      in if argc < 2 \<or> argv_is argv 1 ''get'' then (0, s)
         else if argv_is argv 1 ''testlab'' then console_code (command_ccd_testlab env (tl argv) s)
         else if argv_is argv 1 ''lock'' then ccd_command_wrapper env 0 [] 3 s
         else if argv_is argv 1 ''unlock''
         then if \<not> raw_has_password (config s) then console_code (EC_ERROR_ACCESS_DENIED, s)
              else ccd_command_wrapper env (argc - 1) arg2 2 s
         else if argv_is argv 1 ''open'' then ccd_command_wrapper env (argc - 1) arg2 1 s
         else if argv_is argv 1 ''set'' then console_code (command_ccd_set (tl argv) s)
         else if argv_is argv 1 ''password''
         then if argc \<noteq> 3 then console_code (EC_ERROR_PARAM_COUNT, s)
              else ccd_command_wrapper env (argc - 1) arg2 0 s
         else if argv_is argv 1 ''reset'' then console_code (command_ccd_reset env (tl argv) s)
         else (0, s))"

definition command_ccd :: "ccd_env \<Rightarrow> bytes list \<Rightarrow> ccd_sys \<Rightarrow> nat \<times> ccd_sys" where
  "command_ccd env argv s =
     (case command_ccd_body env argv (s\<lparr>ccd_console_active := True\<rparr>) of
        (rv, s1) \<Rightarrow> (rv, s1\<lparr>ccd_console_active := False\<rparr>))"

end
