(* ===== verification/Ccd_Frames.thy ===== *)
theory Ccd_Frames
  imports Ccd_Config
begin

text \<open>
  What the operations of case closed debugging leave alone: the write protect operations, the record of calls, the
  notification and the save of the configuration touch only their own fields.  The component proofs use these
  facts through the simplifier.
\<close>

lemma ccd_event_fields [simp]:
  "ccd_state (ccd_event e s) = ccd_state s"
  "config (ccd_event e s) = config s"
  "ccd_config_loaded (ccd_event e s) = ccd_config_loaded s"
  "force_disabled (ccd_event e s) = force_disabled s"
  "last_password_time (ccd_event e s) = last_password_time s"
  "wait_for_factory_ccd_change (ccd_event e s) = wait_for_factory_ccd_change s"
  "reset_required (ccd_event e s) = reset_required s"
  "ccd_nv (ccd_event e s) = ccd_nv s"
  "ccd_pp (ccd_event e s) = ccd_pp s"
  "buffer_overrun (ccd_event e s) = buffer_overrun s"
  "long_life_scratch1 (ccd_event e s) = long_life_scratch1 s"
  "ec_wp_l (ccd_event e s) = ec_wp_l s"
  "bp_connect (ccd_event e s) = bp_connect s"
  "bp_forced (ccd_event e s) = bp_forced s"
  by (simp_all add: ccd_event_def)

lemma hook_notify_fields [simp]:
  "ccd_state (hook_notify_ccd_change s) = ccd_state s"
  "config (hook_notify_ccd_change s) = config s"
  "ccd_config_loaded (hook_notify_ccd_change s) = ccd_config_loaded s"
  "force_disabled (hook_notify_ccd_change s) = force_disabled s"
  "last_password_time (hook_notify_ccd_change s) = last_password_time s"
  "reset_required (hook_notify_ccd_change s) = reset_required s"
  "ccd_nv (hook_notify_ccd_change s) = ccd_nv s"
  "ccd_pp (hook_notify_ccd_change s) = ccd_pp s"
  "buffer_overrun (hook_notify_ccd_change s) = buffer_overrun s"
  "long_life_scratch1 (hook_notify_ccd_change s) = long_life_scratch1 s"
  "ec_wp_l (hook_notify_ccd_change s) = ec_wp_l s"
  "bp_connect (hook_notify_ccd_change s) = bp_connect s"
  "bp_forced (hook_notify_ccd_change s) = bp_forced s"
  by (simp_all add: hook_notify_ccd_change_def ccd_config_changed_def factory_config_saved_def Let_def)

lemma factory_config_saved_fields [simp]:
  "ccd_state (factory_config_saved s) = ccd_state s"
  "config (factory_config_saved s) = config s"
  "ccd_config_loaded (factory_config_saved s) = ccd_config_loaded s"
  "force_disabled (factory_config_saved s) = force_disabled s"
  "last_password_time (factory_config_saved s) = last_password_time s"
  "reset_required (factory_config_saved s) = reset_required s"
  "ccd_nv (factory_config_saved s) = ccd_nv s"
  "ccd_pp (factory_config_saved s) = ccd_pp s"
  "buffer_overrun (factory_config_saved s) = buffer_overrun s"
  "long_life_scratch1 (factory_config_saved s) = long_life_scratch1 s"
  "ec_wp_l (factory_config_saved s) = ec_wp_l s"
  "bp_connect (factory_config_saved s) = bp_connect s"
  "bp_forced (factory_config_saved s) = bp_forced s"
  by (simp_all add: factory_config_saved_def Let_def)

lemma set_wp_state_fields [simp]:
  "ccd_state (set_wp_state a s) = ccd_state s"
  "config (set_wp_state a s) = config s"
  "ccd_config_loaded (set_wp_state a s) = ccd_config_loaded s"
  "force_disabled (set_wp_state a s) = force_disabled s"
  "last_password_time (set_wp_state a s) = last_password_time s"
  "wait_for_factory_ccd_change (set_wp_state a s) = wait_for_factory_ccd_change s"
  "reset_required (set_wp_state a s) = reset_required s"
  "ccd_nv (set_wp_state a s) = ccd_nv s"
  "ccd_pp (set_wp_state a s) = ccd_pp s"
  "buffer_overrun (set_wp_state a s) = buffer_overrun s"
  by (simp_all add: set_wp_state_def Let_def)

lemma force_write_protect_fields [simp]:
  "ccd_state (force_write_protect env f w s) = ccd_state s"
  "config (force_write_protect env f w s) = config s"
  "ccd_config_loaded (force_write_protect env f w s) = ccd_config_loaded s"
  "force_disabled (force_write_protect env f w s) = force_disabled s"
  "last_password_time (force_write_protect env f w s) = last_password_time s"
  "wait_for_factory_ccd_change (force_write_protect env f w s) = wait_for_factory_ccd_change s"
  "reset_required (force_write_protect env f w s) = reset_required s"
  "ccd_nv (force_write_protect env f w s) = ccd_nv s"
  "ccd_pp (force_write_protect env f w s) = ccd_pp s"
  "buffer_overrun (force_write_protect env f w s) = buffer_overrun s"
  by (simp_all add: force_write_protect_def Let_def)

lemma check_wp_fields [simp]:
  "ccd_state (check_wp_battery_presence env s) = ccd_state s"
  "config (check_wp_battery_presence env s) = config s"
  "ccd_config_loaded (check_wp_battery_presence env s) = ccd_config_loaded s"
  "force_disabled (check_wp_battery_presence env s) = force_disabled s"
  "last_password_time (check_wp_battery_presence env s) = last_password_time s"
  "wait_for_factory_ccd_change (check_wp_battery_presence env s) = wait_for_factory_ccd_change s"
  "reset_required (check_wp_battery_presence env s) = reset_required s"
  "ccd_nv (check_wp_battery_presence env s) = ccd_nv s"
  "ccd_pp (check_wp_battery_presence env s) = ccd_pp s"
  "buffer_overrun (check_wp_battery_presence env s) = buffer_overrun s"
  by (simp_all add: check_wp_battery_presence_def Let_def)

lemma set_bp_follow_fields [simp]:
  "ccd_state (set_bp_follow_ccd_config s) = ccd_state s"
  "config (set_bp_follow_ccd_config s) = config s"
  "ccd_config_loaded (set_bp_follow_ccd_config s) = ccd_config_loaded s"
  "force_disabled (set_bp_follow_ccd_config s) = force_disabled s"
  "last_password_time (set_bp_follow_ccd_config s) = last_password_time s"
  "wait_for_factory_ccd_change (set_bp_follow_ccd_config s) = wait_for_factory_ccd_change s"
  "reset_required (set_bp_follow_ccd_config s) = reset_required s"
  "ccd_nv (set_bp_follow_ccd_config s) = ccd_nv s"
  "ccd_pp (set_bp_follow_ccd_config s) = ccd_pp s"
  "buffer_overrun (set_bp_follow_ccd_config s) = buffer_overrun s"
  by (simp_all add: set_bp_follow_ccd_config_def)

lemma set_wp_follow_fields [simp]:
  "ccd_state (set_wp_follow_ccd_config env s) = ccd_state s"
  "config (set_wp_follow_ccd_config env s) = config s"
  "ccd_config_loaded (set_wp_follow_ccd_config env s) = ccd_config_loaded s"
  "force_disabled (set_wp_follow_ccd_config env s) = force_disabled s"
  "last_password_time (set_wp_follow_ccd_config env s) = last_password_time s"
  "wait_for_factory_ccd_change (set_wp_follow_ccd_config env s) = wait_for_factory_ccd_change s"
  "reset_required (set_wp_follow_ccd_config env s) = reset_required s"
  "ccd_nv (set_wp_follow_ccd_config env s) = ccd_nv s"
  "ccd_pp (set_wp_follow_ccd_config env s) = ccd_pp s"
  "buffer_overrun (set_wp_follow_ccd_config env s) = buffer_overrun s"
  by (simp_all add: set_wp_follow_ccd_config_def)

lemma wp_follow_fields [simp]:
  "ccd_state (board_wp_follow_ccd_config env s) = ccd_state s"
  "config (board_wp_follow_ccd_config env s) = config s"
  "ccd_config_loaded (board_wp_follow_ccd_config env s) = ccd_config_loaded s"
  "force_disabled (board_wp_follow_ccd_config env s) = force_disabled s"
  "last_password_time (board_wp_follow_ccd_config env s) = last_password_time s"
  "wait_for_factory_ccd_change (board_wp_follow_ccd_config env s) = wait_for_factory_ccd_change s"
  "reset_required (board_wp_follow_ccd_config env s) = reset_required s"
  "ccd_nv (board_wp_follow_ccd_config env s) = ccd_nv s"
  "ccd_pp (board_wp_follow_ccd_config env s) = ccd_pp s"
  "buffer_overrun (board_wp_follow_ccd_config env s) = buffer_overrun s"
  by (simp_all add: board_wp_follow_ccd_config_def)

lemma check_wp_policy_fields [simp]:
  "ccd_state (snd (board_fwmp_check_wp_policy env s)) = ccd_state s"
  "config (snd (board_fwmp_check_wp_policy env s)) = config s"
  "ccd_config_loaded (snd (board_fwmp_check_wp_policy env s)) = ccd_config_loaded s"
  "force_disabled (snd (board_fwmp_check_wp_policy env s)) = force_disabled s"
  "last_password_time (snd (board_fwmp_check_wp_policy env s)) = last_password_time s"
  "wait_for_factory_ccd_change (snd (board_fwmp_check_wp_policy env s)) = wait_for_factory_ccd_change s"
  "reset_required (snd (board_fwmp_check_wp_policy env s)) = reset_required s"
  "ccd_nv (snd (board_fwmp_check_wp_policy env s)) = ccd_nv s"
  "ccd_pp (snd (board_fwmp_check_wp_policy env s)) = ccd_pp s"
  "buffer_overrun (snd (board_fwmp_check_wp_policy env s)) = buffer_overrun s"
  by (simp_all add: board_fwmp_check_wp_policy_def board_write_prop_def Let_def)

lemma update_policies_fields [simp]:
  "ccd_state (board_fwmp_update_policies env s) = ccd_state s"
  "config (board_fwmp_update_policies env s) = config s"
  "ccd_config_loaded (board_fwmp_update_policies env s) = ccd_config_loaded s"
  "force_disabled (board_fwmp_update_policies env s) = force_disabled s"
  "last_password_time (board_fwmp_update_policies env s) = last_password_time s"
  "wait_for_factory_ccd_change (board_fwmp_update_policies env s) = wait_for_factory_ccd_change s"
  "reset_required (board_fwmp_update_policies env s) = reset_required s"
  "ccd_nv (board_fwmp_update_policies env s) = ccd_nv s"
  "ccd_pp (board_fwmp_update_policies env s) = ccd_pp s"
  "buffer_overrun (board_fwmp_update_policies env s) = buffer_overrun s"
  by (simp_all add: board_fwmp_update_policies_def case_prod_unfold)

lemma ccd_lock_fields [simp]:
  "config (ccd_lock s) = config s"
  "ccd_config_loaded (ccd_lock s) = ccd_config_loaded s"
  "force_disabled (ccd_lock s) = force_disabled s"
  "last_password_time (ccd_lock s) = last_password_time s"
  "reset_required (ccd_lock s) = reset_required s"
  "ccd_nv (ccd_lock s) = ccd_nv s"
  "ccd_pp (ccd_lock s) = ccd_pp s"
  "buffer_overrun (ccd_lock s) = buffer_overrun s"
  by (simp_all add: ccd_lock_def ccd_set_state_def)

lemma ccd_set_state_fields [simp]:
  "config (ccd_set_state st s) = config s"
  "ccd_config_loaded (ccd_set_state st s) = ccd_config_loaded s"
  "force_disabled (ccd_set_state st s) = force_disabled s"
  "last_password_time (ccd_set_state st s) = last_password_time s"
  "reset_required (ccd_set_state st s) = reset_required s"
  "ccd_nv (ccd_set_state st s) = ccd_nv s"
  "ccd_pp (ccd_set_state st s) = ccd_pp s"
  "buffer_overrun (ccd_set_state st s) = buffer_overrun s"
  "long_life_scratch1 (ccd_set_state st s) = long_life_scratch1 s"
  "ec_wp_l (ccd_set_state st s) = ec_wp_l s"
  "bp_connect (ccd_set_state st s) = bp_connect s"
  "bp_forced (ccd_set_state st s) = bp_forced s"
  by (simp_all add: ccd_set_state_def)

lemma ccd_state_set_state [simp]: "ccd_state (ccd_set_state st s) = st"
  by (simp add: ccd_set_state_def)

lemma wipe_tpm_fields [simp]:
  "ccd_state (snd (board_wipe_tpm env r s)) = ccd_state s"
  "config (snd (board_wipe_tpm env r s)) = config s"
  "ccd_config_loaded (snd (board_wipe_tpm env r s)) = ccd_config_loaded s"
  "force_disabled (snd (board_wipe_tpm env r s)) = force_disabled s"
  "last_password_time (snd (board_wipe_tpm env r s)) = last_password_time s"
  "wait_for_factory_ccd_change (snd (board_wipe_tpm env r s)) = wait_for_factory_ccd_change s"
  "reset_required (snd (board_wipe_tpm env r s)) = reset_required s"
  "ccd_nv (snd (board_wipe_tpm env r s)) = ccd_nv s"
  "ccd_pp (snd (board_wipe_tpm env r s)) = ccd_pp s"
  "buffer_overrun (snd (board_wipe_tpm env r s)) = buffer_overrun s"
  by (simp_all add: board_wipe_tpm_def Let_def)

lemma save_config_fields [simp]:
  "ccd_state (snd (ccd_save_config s)) = ccd_state s"
  "ccd_config_loaded (snd (ccd_save_config s)) = ccd_config_loaded s"
  "force_disabled (snd (ccd_save_config s)) = force_disabled s"
  "last_password_time (snd (ccd_save_config s)) = last_password_time s"
  "reset_required (snd (ccd_save_config s)) = reset_required s"
  "ccd_pp (snd (ccd_save_config s)) = ccd_pp s"
  "buffer_overrun (snd (ccd_save_config s)) = buffer_overrun s"
  "config (snd (ccd_save_config s)) = config s"
  "long_life_scratch1 (snd (ccd_save_config s)) = long_life_scratch1 s"
  "ec_wp_l (snd (ccd_save_config s)) = ec_wp_l s"
  "bp_connect (snd (ccd_save_config s)) = bp_connect s"
  "bp_forced (snd (ccd_save_config s)) = bp_forced s"
  by (simp_all add: ccd_save_config_def Let_def case_prod_unfold)

lemma fst_save_config: "fst (ccd_save_config s) = fst (setvar (ccd_nv s) k_ccd_config (config_bytes (config s)))"
  by (simp add: ccd_save_config_def Let_def case_prod_unfold)

lemma save_config_nv: "ccd_nv (snd (ccd_save_config s)) = snd (setvar (ccd_nv s) k_ccd_config (config_bytes (config s)))"
  by (simp add: ccd_save_config_def Let_def case_prod_unfold)

lemma reset_config_fields [simp]:
  "ccd_state (snd (ccd_reset_config env flags s)) = ccd_state s"
  "ccd_config_loaded (snd (ccd_reset_config env flags s)) = ccd_config_loaded s"
  "force_disabled (snd (ccd_reset_config env flags s)) = force_disabled s"
  "last_password_time (snd (ccd_reset_config env flags s)) = last_password_time s"
  "reset_required (snd (ccd_reset_config env flags s)) = reset_required s"
  "ccd_pp (snd (ccd_reset_config env flags s)) = ccd_pp s"
  "buffer_overrun (snd (ccd_reset_config env flags s)) = buffer_overrun s"
  by (simp_all add: ccd_reset_config_def Let_def)

lemma set_cap_fields [simp]:
  "ccd_state (snd (ccd_set_cap cap st s)) = ccd_state s"
  "ccd_config_loaded (snd (ccd_set_cap cap st s)) = ccd_config_loaded s"
  "force_disabled (snd (ccd_set_cap cap st s)) = force_disabled s"
  "last_password_time (snd (ccd_set_cap cap st s)) = last_password_time s"
  "reset_required (snd (ccd_set_cap cap st s)) = reset_required s"
  "ccd_pp (snd (ccd_set_cap cap st s)) = ccd_pp s"
  "buffer_overrun (snd (ccd_set_cap cap st s)) = buffer_overrun s"
  "long_life_scratch1 (snd (ccd_set_cap cap st s)) = long_life_scratch1 s"
  "ec_wp_l (snd (ccd_set_cap cap st s)) = ec_wp_l s"
  "bp_connect (snd (ccd_set_cap cap st s)) = bp_connect s"
  "bp_forced (snd (ccd_set_cap cap st s)) = bp_forced s"
  by (simp_all add: ccd_set_cap_def)

lemma set_flag_fields [simp]:
  "ccd_state (snd (ccd_set_flag flag v s)) = ccd_state s"
  "ccd_config_loaded (snd (ccd_set_flag flag v s)) = ccd_config_loaded s"
  "force_disabled (snd (ccd_set_flag flag v s)) = force_disabled s"
  "last_password_time (snd (ccd_set_flag flag v s)) = last_password_time s"
  "reset_required (snd (ccd_set_flag flag v s)) = reset_required s"
  "ccd_pp (snd (ccd_set_flag flag v s)) = ccd_pp s"
  "buffer_overrun (snd (ccd_set_flag flag v s)) = buffer_overrun s"
  "long_life_scratch1 (snd (ccd_set_flag flag v s)) = long_life_scratch1 s"
  "ec_wp_l (snd (ccd_set_flag flag v s)) = ec_wp_l s"
  "bp_connect (snd (ccd_set_flag flag v s)) = bp_connect s"
  "bp_forced (snd (ccd_set_flag flag v s)) = bp_forced s"
  by (simp_all add: ccd_set_flag_def)

lemma reset_password_fields [simp]:
  "ccd_state (snd (ccd_reset_password s)) = ccd_state s"
  "ccd_config_loaded (snd (ccd_reset_password s)) = ccd_config_loaded s"
  "force_disabled (snd (ccd_reset_password s)) = force_disabled s"
  "last_password_time (snd (ccd_reset_password s)) = last_password_time s"
  "reset_required (snd (ccd_reset_password s)) = reset_required s"
  "ccd_pp (snd (ccd_reset_password s)) = ccd_pp s"
  "buffer_overrun (snd (ccd_reset_password s)) = buffer_overrun s"
  "long_life_scratch1 (snd (ccd_reset_password s)) = long_life_scratch1 s"
  "ec_wp_l (snd (ccd_reset_password s)) = ec_wp_l s"
  "bp_connect (snd (ccd_reset_password s)) = bp_connect s"
  "bp_forced (snd (ccd_reset_password s)) = bp_forced s"
  by (simp_all add: ccd_reset_password_def)

lemma raw_set_password_fields [simp]:
  "ccd_state (snd (raw_set_password env pw s)) = ccd_state s"
  "ccd_config_loaded (snd (raw_set_password env pw s)) = ccd_config_loaded s"
  "force_disabled (snd (raw_set_password env pw s)) = force_disabled s"
  "last_password_time (snd (raw_set_password env pw s)) = last_password_time s"
  "reset_required (snd (raw_set_password env pw s)) = reset_required s"
  "ccd_pp (snd (raw_set_password env pw s)) = ccd_pp s"
  "buffer_overrun (snd (raw_set_password env pw s)) = buffer_overrun s"
  "long_life_scratch1 (snd (raw_set_password env pw s)) = long_life_scratch1 s"
  "ec_wp_l (snd (raw_set_password env pw s)) = ec_wp_l s"
  "bp_connect (snd (raw_set_password env pw s)) = bp_connect s"
  "bp_forced (snd (raw_set_password env pw s)) = bp_forced s"
  by (simp_all add: raw_set_password_def Let_def split: sum.split)

lemma set_password_fields [simp]:
  "ccd_state (snd (ccd_set_password env pw s)) = ccd_state s"
  "ccd_config_loaded (snd (ccd_set_password env pw s)) = ccd_config_loaded s"
  "force_disabled (snd (ccd_set_password env pw s)) = force_disabled s"
  "last_password_time (snd (ccd_set_password env pw s)) = last_password_time s"
  "reset_required (snd (ccd_set_password env pw s)) = reset_required s"
  "ccd_pp (snd (ccd_set_password env pw s)) = ccd_pp s"
  "buffer_overrun (snd (ccd_set_password env pw s)) = buffer_overrun s"
  "long_life_scratch1 (snd (ccd_set_password env pw s)) = long_life_scratch1 s"
  "ec_wp_l (snd (ccd_set_password env pw s)) = ec_wp_l s"
  "bp_connect (snd (ccd_set_password env pw s)) = bp_connect s"
  "bp_forced (snd (ccd_set_password env pw s)) = bp_forced s"
  by (simp_all add: ccd_set_password_def case_prod_unfold)

lemma check_password_fields [simp]:
  "ccd_state (snd (raw_check_password env pw s)) = ccd_state s"
  "config (snd (raw_check_password env pw s)) = config s"
  "ccd_config_loaded (snd (raw_check_password env pw s)) = ccd_config_loaded s"
  "force_disabled (snd (raw_check_password env pw s)) = force_disabled s"
  "wait_for_factory_ccd_change (snd (raw_check_password env pw s)) = wait_for_factory_ccd_change s"
  "reset_required (snd (raw_check_password env pw s)) = reset_required s"
  "ccd_nv (snd (raw_check_password env pw s)) = ccd_nv s"
  "ccd_pp (snd (raw_check_password env pw s)) = ccd_pp s"
  "buffer_overrun (snd (raw_check_password env pw s)) = buffer_overrun s"
  "long_life_scratch1 (snd (raw_check_password env pw s)) = long_life_scratch1 s"
  "ec_wp_l (snd (raw_check_password env pw s)) = ec_wp_l s"
  "bp_connect (snd (raw_check_password env pw s)) = bp_connect s"
  "bp_forced (snd (raw_check_password env pw s)) = bp_forced s"
  by (simp_all add: raw_check_password_def Let_def split: sum.split)

lemma terminate_fields [simp]:
  "ccd_state (snd (terminate_input p s)) = ccd_state s"
  "config (snd (terminate_input p s)) = config s"
  "ccd_config_loaded (snd (terminate_input p s)) = ccd_config_loaded s"
  "force_disabled (snd (terminate_input p s)) = force_disabled s"
  "last_password_time (snd (terminate_input p s)) = last_password_time s"
  "wait_for_factory_ccd_change (snd (terminate_input p s)) = wait_for_factory_ccd_change s"
  "reset_required (snd (terminate_input p s)) = reset_required s"
  "ccd_nv (snd (terminate_input p s)) = ccd_nv s"
  "ccd_pp (snd (terminate_input p s)) = ccd_pp s"
  "long_life_scratch1 (snd (terminate_input p s)) = long_life_scratch1 s"
  "ec_wp_l (snd (terminate_input p s)) = ec_wp_l s"
  "bp_connect (snd (terminate_input p s)) = bp_connect s"
  "bp_forced (snd (terminate_input p s)) = bp_forced s"
  by (simp_all add: terminate_input_def)

lemma do_password_fields [simp]:
  "ccd_state (snd (do_ccd_password env pw s)) = ccd_state s"
  "ccd_config_loaded (snd (do_ccd_password env pw s)) = ccd_config_loaded s"
  "force_disabled (snd (do_ccd_password env pw s)) = force_disabled s"
  "reset_required (snd (do_ccd_password env pw s)) = reset_required s"
  "ccd_pp (snd (do_ccd_password env pw s)) = ccd_pp s"
  "buffer_overrun (snd (do_ccd_password env pw s)) = buffer_overrun s"
  "long_life_scratch1 (snd (do_ccd_password env pw s)) = long_life_scratch1 s"
  "ec_wp_l (snd (do_ccd_password env pw s)) = ec_wp_l s"
  "bp_connect (snd (do_ccd_password env pw s)) = bp_connect s"
  "bp_forced (snd (do_ccd_password env pw s)) = bp_forced s"
  by (simp_all add: do_ccd_password_def case_prod_unfold)

lemma ccd_password_fields [simp]:
  "ccd_state (snd (snd (ccd_password env p s))) = ccd_state s"
  "ccd_config_loaded (snd (snd (ccd_password env p s))) = ccd_config_loaded s"
  "force_disabled (snd (snd (ccd_password env p s))) = force_disabled s"
  "reset_required (snd (snd (ccd_password env p s))) = reset_required s"
  "ccd_pp (snd (snd (ccd_password env p s))) = ccd_pp s"
  "buffer_overrun (snd (snd (ccd_password env p s))) = buffer_overrun s"
  "long_life_scratch1 (snd (snd (ccd_password env p s))) = long_life_scratch1 s"
  "ec_wp_l (snd (snd (ccd_password env p s))) = ec_wp_l s"
  "bp_connect (snd (snd (ccd_password env p s))) = bp_connect s"
  "bp_forced (snd (snd (ccd_password env p s))) = bp_forced s"
  by (simp_all add: ccd_password_def case_prod_unfold)

lemma command_reset_fields [simp]:
  "ccd_state (snd (command_ccd_reset env argv s)) = ccd_state s"
  "ccd_config_loaded (snd (command_ccd_reset env argv s)) = ccd_config_loaded s"
  "force_disabled (snd (command_ccd_reset env argv s)) = force_disabled s"
  "last_password_time (snd (command_ccd_reset env argv s)) = last_password_time s"
  "reset_required (snd (command_ccd_reset env argv s)) = reset_required s"
  "ccd_pp (snd (command_ccd_reset env argv s)) = ccd_pp s"
  "buffer_overrun (snd (command_ccd_reset env argv s)) = buffer_overrun s"
  by (simp_all add: command_ccd_reset_def Let_def split: option.split ccd_state_t.split)

lemma command_set_fields [simp]:
  "ccd_state (snd (command_ccd_set argv s)) = ccd_state s"
  "ccd_config_loaded (snd (command_ccd_set argv s)) = ccd_config_loaded s"
  "force_disabled (snd (command_ccd_set argv s)) = force_disabled s"
  "last_password_time (snd (command_ccd_set argv s)) = last_password_time s"
  "reset_required (snd (command_ccd_set argv s)) = reset_required s"
  "ccd_pp (snd (command_ccd_set argv s)) = ccd_pp s"
  "buffer_overrun (snd (command_ccd_set argv s)) = buffer_overrun s"
  "long_life_scratch1 (snd (command_ccd_set argv s)) = long_life_scratch1 s"
  "ec_wp_l (snd (command_ccd_set argv s)) = ec_wp_l s"
  "bp_connect (snd (command_ccd_set argv s)) = bp_connect s"
  "bp_forced (snd (command_ccd_set argv s)) = bp_forced s"
  by (simp_all add: command_ccd_set_def Let_def split: option.split)

lemma toggle_fields [simp]:
  "ccd_state (ccd_testlab_toggle s) = ccd_state s"
  "ccd_config_loaded (ccd_testlab_toggle s) = ccd_config_loaded s"
  "force_disabled (ccd_testlab_toggle s) = force_disabled s"
  "last_password_time (ccd_testlab_toggle s) = last_password_time s"
  "reset_required (ccd_testlab_toggle s) = reset_required s"
  "ccd_pp (ccd_testlab_toggle s) = ccd_pp s"
  "buffer_overrun (ccd_testlab_toggle s) = buffer_overrun s"
  "long_life_scratch1 (ccd_testlab_toggle s) = long_life_scratch1 s"
  "ec_wp_l (ccd_testlab_toggle s) = ec_wp_l s"
  "bp_connect (ccd_testlab_toggle s) = bp_connect s"
  "bp_forced (ccd_testlab_toggle s) = bp_forced s"
  by (simp_all add: ccd_testlab_toggle_def Let_def)

lemma unlock_done_fields [simp]:
  "ccd_config_loaded (ccd_unlock_done s) = ccd_config_loaded s"
  "force_disabled (ccd_unlock_done s) = force_disabled s"
  "last_password_time (ccd_unlock_done s) = last_password_time s"
  "reset_required (ccd_unlock_done s) = reset_required s"
  "ccd_pp (ccd_unlock_done s) = ccd_pp s"
  "buffer_overrun (ccd_unlock_done s) = buffer_overrun s"
  "long_life_scratch1 (ccd_unlock_done s) = long_life_scratch1 s"
  "ec_wp_l (ccd_unlock_done s) = ec_wp_l s"
  "bp_connect (ccd_unlock_done s) = bp_connect s"
  "bp_forced (ccd_unlock_done s) = bp_forced s"
  "config (ccd_unlock_done s) = config s"
  "ccd_nv (ccd_unlock_done s) = ccd_nv s"
  by (simp_all add: ccd_unlock_done_def)

lemma unlock_done_state [simp]: "ccd_state (ccd_unlock_done s) = CCD_STATE_UNLOCKED"
  by (simp add: ccd_unlock_done_def)

end
