(* ===== verification/Ccd_Security.thy ===== *)
theory Ccd_Security
  imports Ccd_Frames
begin

text \<open>
  What case closed debugging guarantees.  The inputs of the component (vendor commands from every interface,
  console commands, the button, the deferred functions of the hook task, calls from the rest of the firmware, a write of
  the FWMP index by the TPM) are
  the steps of a transition relation; the properties say which steps open the device, that a disabled device stays
  disabled, that the firmware management parameters keep write protect on, and what the configuration,
  the password and the capabilities obey.
\<close>

section \<open>Steps\<close>

datatype ccd_input =
    InVendor vendor_cmd_params
  | InConsole "bytes list"
  | InConsoleWp bool "bytes list"
  | InConsoleBp "bytes list"
  | InPress
  | InCheck
  | InPrompt
  | InDone
  | InDisable
  | InEnableFactory bool
  | InFactoryDeferred
  | InForceReset
  | InSecond
  | InSetFlag u32 bool
  | InFwmpWritten

inductive ccd_step :: "ccd_env \<Rightarrow> ccd_input \<Rightarrow> ccd_sys \<Rightarrow> ccd_sys \<Rightarrow> bool" where
  vendor: "extension_route_command (ccd_commands env) (env_board_id_mismatched env) p s = (rc, q, s') \<Longrightarrow>
    ccd_step env (InVendor p) s s'"
| console: "ccd_step env (InConsole argv) s (snd (command_ccd env argv s))"
| console_wp: "ccd_step env (InConsoleWp g argv) s (snd (command_wp env g argv s))"
| console_bp: "ccd_step env (InConsoleBp argv) s (snd (command_bpforce env argv s))"
| press: "ccd_step env InPress s (s\<lparr>ccd_pp := snd (physical_detect_press (env_now env) (ccd_pp s))\<rparr>)"
| check: "pp_check_at (ccd_pp s) = Some t \<Longrightarrow> t \<le> env_now env \<Longrightarrow>
    ccd_step env InCheck s
      (s\<lparr>ccd_pp := physical_detect_check_press (env_now env) ((ccd_pp s)\<lparr>pp_check_at := None\<rparr>)\<rparr>)"
| prompt: "pp_prompt_at (ccd_pp s) = Some t \<Longrightarrow> t \<le> env_now env \<Longrightarrow>
    ccd_step env InPrompt s (s\<lparr>ccd_pp := physical_detect_prompt ((ccd_pp s)\<lparr>pp_prompt_at := None\<rparr>)\<rparr>)"
| finish: "pp_done_at (ccd_pp s) = Some t \<Longrightarrow> t \<le> env_now env \<Longrightarrow>
    ccd_step env InDone s (ccd_detect_done env (s\<lparr>ccd_pp := (ccd_pp s)\<lparr>pp_done_at := None\<rparr>\<rparr>))"
| disable: "ccd_step env InDisable s (ccd_disable s)"
| enable_factory: "ccd_step env (InEnableFactory r) s (enable_ccd_factory_mode r s)"
| factory_deferred: "factory_enable_pending s \<Longrightarrow> ccd_step env InFactoryDeferred s (factory_enable_deferred env s)"
| force_reset: "force_reset_pending s \<Longrightarrow> ccd_step env InForceReset s (force_system_reset s)"
| second: "ccd_step env InSecond s (check_wp_battery_presence env s)"
| set_flag: "ccd_step env (InSetFlag flag v) s (snd (ccd_set_flag flag v s))"
| fwmp_written: "ccd_step env InFwmpWritten s (board_fwmp_update_policies env s)"

lemma vendor_step:
  "ccd_step env (InVendor p) s (snd (snd (extension_route_command (ccd_commands env) (env_board_id_mismatched env) p s)))"
  by (metis ccd_step.vendor prod.collapse)

section \<open>Passwords\<close>

lemma take_strlen: "take (strlen s) s = cstr s"
  unfolding strlen_cstr cstr_def by (induction s) auto

lemma safe_memcmp_eq:
  "length a = n \<Longrightarrow> length b = n \<Longrightarrow> safe_memcmp a b n \<longleftrightarrow> a \<noteq> b"
  using safe_memcmp_take [of n a b] by simp

text \<open>The board delivers SHA-256 digests.\<close>

definition sha_ok :: "ccd_env \<Rightarrow> bool" where
  "sha_ok env \<longleftrightarrow> (\<forall>m. length (env_sha256 env m) = 32)"

definition password_hash :: "ccd_env \<Rightarrow> ccd_config \<Rightarrow> bytes \<Rightarrow> bytes" where
  "password_hash env c pw = take 16 (env_sha256 env (password_salt c @ env_unique_id env @ pw))"

text \<open>A password is accepted when it is not too soon and its hash is the stored one.\<close>

definition password_accepted :: "ccd_env \<Rightarrow> bytes \<Rightarrow> ccd_sys \<Rightarrow> bool" where
  "password_accepted env pw s \<longleftrightarrow>
     env_sha_ok env \<and> PASSWORD_RATE_LIMIT_US \<le> ucast (env_now env) - last_password_time s \<and>
     password_hash env (config s) pw = password_digest (config s)"

lemma check_password_iff:
  assumes "sha_ok env" "ccd_config_ok (config s)" "raw_has_password (config s)"
  shows "fst (raw_check_password env pw s) = EC_SUCCESS \<longleftrightarrow> password_accepted env (cstr pw) s"
proof -
  have l: "length (password_hash env (config s) (cstr pw)) = 16" "length (password_digest (config s)) = 16"
    using assms by (simp_all add: password_hash_def sha_ok_def ccd_config_ok_def)
  show ?thesis
    using assms(3) safe_memcmp_eq [OF l]
    by (auto simp: raw_check_password_def ccd_password_digest_def password_accepted_def Let_def not_less take_strlen
        password_hash_def)
qed

section \<open>Opening the device\<close>

text \<open>The string a CCD command carries, and the request an input makes: where it comes from and that string.\<close>

definition presented :: "vendor_cmd_params \<Rightarrow> bytes" where
  "presented p =
     cstr (if unat (vc_in_size p) < length (vc_buffer p) then (vc_buffer p)[unat (vc_in_size p) := 0] else vc_buffer p)"

definition shifted :: "vendor_cmd_params \<Rightarrow> vendor_cmd_params" where
  "shifted p = p\<lparr>vc_out_size := 0, vc_buffer := drop 1 (vc_buffer p), vc_in_size := vc_in_size p - 1\<rparr>"

text \<open>The device may be opened: it is not disabled, the FWMP allow it, and the password is right or, without a password,
  the battery is gone or the request comes from the AP in developer mode (each condition may be waived by a
  capability).\<close>

definition open_authorised :: "ccd_env \<Rightarrow> u32 \<Rightarrow> bytes \<Rightarrow> ccd_sys \<Rightarrow> bool" where
  "open_authorised env flags pw s \<longleftrightarrow>
     \<not> force_disabled s \<and> board_fwmp_allows_unlock env \<and>
     (if raw_has_password (config s) then password_accepted env pw s
      else \<not> board_battery_is_present env s \<or>
           ((ccd_is_cap_enabled s CCD_CAP_OPEN_WITHOUT_DEV_MODE \<or> board_vboot_dev_mode_enabled env) \<and>
            (ccd_is_cap_enabled s CCD_CAP_OPEN_FROM_USB \<or>
             flags AND (VENDOR_CMD_FROM_USB OR VENDOR_CMD_FROM_ALT_IF) = 0)))"

text \<open>No physical presence is asked for.\<close>

definition presence_waived :: "ccd_env \<Rightarrow> ccd_sys \<Rightarrow> bool" where
  "presence_waived env s \<longleftrightarrow>
     (ccd_is_cap_enabled s CCD_CAP_OPEN_WITHOUT_LONG_PP \<and> ccd_is_cap_enabled s CCD_CAP_UNLOCK_WITHOUT_SHORT_PP) \<or>
     (ccd_is_cap_enabled s CCD_CAP_REMOVE_BATTERY_BYPASSES_PP \<and> \<not> board_battery_is_present env s)"

text \<open>The TPM is wiped before the device opens, unless the capability says otherwise.\<close>

definition wiped_or_waived :: "ec_error \<Rightarrow> ccd_sys \<Rightarrow> bool" where
  "wiped_or_waived rv s \<longleftrightarrow> rv = EC_SUCCESS \<or> ccd_is_cap_enabled s CCD_CAP_OPEN_WITHOUT_TPM_WIPE"

lemma cap_enabled_cong:
  assumes "ccd_state s' = ccd_state s" "config s' = config s" "ccd_config_loaded s' = ccd_config_loaded s"
    "force_disabled s' = force_disabled s"
  shows "ccd_is_cap_enabled s' = ccd_is_cap_enabled s"
  unfolding ccd_is_cap_enabled_def assms ..

lemma cap_enabled_event [simp]: "ccd_is_cap_enabled (ccd_event e s) = ccd_is_cap_enabled s"
  by (rule cap_enabled_cong) simp_all

lemma ccd_open_done_cases:
  "ccd_state (ccd_open_done env sync s) =
     (if wiped_or_waived (if sync then env_sync_reset env else env_wipe_request env) s then CCD_STATE_OPENED
      else ccd_state s)"
  by (auto simp: ccd_open_done_def wiped_or_waived_def board_wipe_tpm_def Let_def split: prod.splits)

lemma ccd_open_done_fields [simp]:
  "config (ccd_open_done env sync s) = config s" "ccd_config_loaded (ccd_open_done env sync s) = ccd_config_loaded s"
  "force_disabled (ccd_open_done env sync s) = force_disabled s" "ccd_pp (ccd_open_done env sync s) = ccd_pp s"
  "ccd_nv (ccd_open_done env sync s) = ccd_nv s" "last_password_time (ccd_open_done env sync s) = last_password_time s"
  by (auto simp: ccd_open_done_def Let_def case_prod_unfold)

lemma cstr_terminated: "cstr (vc_buffer (fst (terminate_input p s))) = presented p"
  by (simp add: terminate_input_def presented_def)

lemma cap_enabled_check [simp]: "ccd_is_cap_enabled (snd (raw_check_password env pw s)) = ccd_is_cap_enabled s"
  by (rule cap_enabled_cong) simp_all

lemma cap_enabled_terminate [simp]: "ccd_is_cap_enabled (snd (terminate_input p s)) = ccd_is_cap_enabled s"
  by (rule cap_enabled_cong) simp_all

lemma battery_cong: "bp_forced s' = bp_forced s \<Longrightarrow> bp_connect s' = bp_connect s \<Longrightarrow>
    board_battery_is_present env s' = board_battery_is_present env s"
  by (simp add: board_battery_is_present_def)

lemma accepted_terminate [simp]: "password_accepted env pw (snd (terminate_input p s)) = password_accepted env pw s"
  by (simp add: password_accepted_def)

text \<open>What the first half of \<open>ccd_open\<close> lets through is authorised and has not touched more than the time of the last
  attempt.\<close>

lemma open_allowed_authorised:
  assumes "ccd_open_allowed env p s = Inr (p1, s1)" "sha_ok env" "ccd_config_ok (config s)"
    "\<not> force_disabled s" "board_fwmp_allows_unlock env"
  shows "open_authorised env (vc_flags p) (presented p) s"
proof (cases "raw_has_password (config s)")
  case True
  let ?t = "terminate_input p s"
  have "fst (raw_check_password env (vc_buffer (fst ?t)) (snd ?t)) = EC_SUCCESS"
    using assms(1) True by (auto simp: ccd_open_allowed_def case_prod_unfold split: if_splits)
  then have "password_accepted env (presented p) s"
    using check_password_iff [OF assms(2), where s = "snd ?t"] assms(3) True by (simp add: cstr_terminated)
  then show ?thesis using True assms(4,5) by (simp add: open_authorised_def)
next
  case False
  then show ?thesis using assms by (auto simp: ccd_open_allowed_def open_authorised_def split: if_splits)
qed

lemma open_allowed_fields:
  "case ccd_open_allowed env p s of
     Inl (rc, q, s1) \<Rightarrow> ccd_state s1 = ccd_state s \<and> ccd_pp s1 = ccd_pp s \<and> force_disabled s1 = force_disabled s \<and>
       config s1 = config s \<and> ccd_config_loaded s1 = ccd_config_loaded s
   | Inr (q, s1) \<Rightarrow> ccd_state s1 = ccd_state s \<and> ccd_pp s1 = ccd_pp s \<and> force_disabled s1 = force_disabled s \<and>
       ccd_is_cap_enabled s1 = ccd_is_cap_enabled s \<and>
       config s1 = config s \<and> ccd_config_loaded s1 = ccd_config_loaded s \<and>
       board_battery_is_present env s1 = board_battery_is_present env s"
  by (auto simp: ccd_open_allowed_def case_prod_unfold board_battery_is_present_def)

lemma start_presence_fields:
  assumes "start_presence env l cb p s = (rc, q, s')"
  shows "ccd_state s' = ccd_state s" "config s' = config s" "force_disabled s' = force_disabled s"
    "pp_detect_callback (ccd_pp s') \<in> {pp_detect_callback (ccd_pp s), Some cb}"
  using assms
  by (auto simp: start_presence_def physical_detect_start_simps split: if_splits prod.splits)

text \<open>\<open>ccd_open\<close> opens the device, or starts the presence check that will, only when that is authorised.\<close>

lemma ccd_open_opens:
  assumes "ccd_open env p s = (rc, q, s')" "sha_ok env" "ccd_config_ok (config s)" "ccd_state s \<noteq> CCD_STATE_OPENED"
    "ccd_state s' = CCD_STATE_OPENED"
  shows "open_authorised env (vc_flags p) (presented p) s \<and> presence_waived env s \<and> wiped_or_waived (env_sync_reset env) s"
proof -
  have d: "\<not> force_disabled s" and f: "board_fwmp_allows_unlock env"
    using assms(1,4,5) by (auto simp: ccd_open_def split: if_splits)
  show ?thesis
  proof (cases "ccd_open_allowed env p s")
    case (Inl r)
    then show ?thesis using assms(1,4,5) d f open_allowed_fields [where env = env and p = p and s = s] by (auto simp: ccd_open_def)
  next
    case (Inr r)
    obtain p1 s1 where r: "r = (p1, s1)" by fastforce
    have g: "ccd_state s1 = ccd_state s" "ccd_is_cap_enabled s1 = ccd_is_cap_enabled s"
      "board_battery_is_present env s1 = board_battery_is_present env s"
      using open_allowed_fields [where env = env and p = p and s = s] Inr r by simp_all
    have o: "open_authorised env (vc_flags p) (presented p) s"
      by (rule open_allowed_authorised) (use Inr r assms(2,3) d f in auto)
    have s': "\<not> physical_detect_busy (ccd_pp s1) \<and> presence_waived env s \<and> s' = ccd_open_done env True s1"
      using assms(1,4,5) d f Inr r g start_presence_fields(1)
      by (auto simp: ccd_open_def presence_waived_def Let_def split: if_splits dest!: start_presence_fields(1))
    then show ?thesis
      using o assms(4,5) g by (auto simp: ccd_open_done_cases wiped_or_waived_def split: if_splits)
  qed
qed

lemma ccd_open_registers:
  assumes "ccd_open env p s = (rc, q, s')" "sha_ok env" "ccd_config_ok (config s)"
    "pp_detect_callback (ccd_pp s') \<noteq> pp_detect_callback (ccd_pp s)"
  shows "open_authorised env (vc_flags p) (presented p) s"
proof -
  have d: "\<not> force_disabled s" and f: "board_fwmp_allows_unlock env" and n: "ccd_state s \<noteq> CCD_STATE_OPENED"
    using assms(1,4) by (auto simp: ccd_open_def split: if_splits)
  show ?thesis
  proof (cases "ccd_open_allowed env p s")
    case (Inl r)
    then show ?thesis
      using assms(1,4) d f n open_allowed_fields [where env = env and p = p and s = s] by (auto simp: ccd_open_def)
  next
    case (Inr r)
    then show ?thesis using open_allowed_authorised [OF _ assms(2,3) d f] by (cases r) simp
  qed
qed

lemma snd_start_presence [simp]:
  "ccd_state (snd (snd (start_presence env l cb p s))) = ccd_state s"
  "config (snd (snd (start_presence env l cb p s))) = config s"
  "force_disabled (snd (snd (start_presence env l cb p s))) = force_disabled s"
  "ccd_config_loaded (snd (snd (start_presence env l cb p s))) = ccd_config_loaded s"
  by (simp_all add: start_presence_def case_prod_unfold)

lemma abort_callback [simp]: "pp_detect_callback (physical_detect_abort now pp) = pp_detect_callback pp"
  by (simp add: physical_detect_abort_def)

lemma snd_ccd_unlock:
  "force_disabled (snd (snd (ccd_unlock env p s))) = force_disabled s" "config (snd (snd (ccd_unlock env p s))) = config s"
  "ccd_config_loaded (snd (snd (ccd_unlock env p s))) = ccd_config_loaded s"
  "ccd_state (snd (snd (ccd_unlock env p s))) = CCD_STATE_OPENED \<Longrightarrow> ccd_state s = CCD_STATE_OPENED"
  "pp_detect_callback (ccd_pp (snd (snd (ccd_unlock env p s)))) \<in> {pp_detect_callback (ccd_pp s), Some CB_unlock_done}"
proof -
  have c: "pp_detect_callback (ccd_pp (snd (snd (start_presence env l cb p s)))) \<in> {pp_detect_callback (ccd_pp s), Some cb}"
    for l cb p s
    by (cases "start_presence env l cb p s") (use start_presence_fields(4) in fastforce)
  show "force_disabled (snd (snd (ccd_unlock env p s))) = force_disabled s" "config (snd (snd (ccd_unlock env p s))) = config s"
    "ccd_config_loaded (snd (snd (ccd_unlock env p s))) = ccd_config_loaded s"
    by (simp_all add: ccd_unlock_def case_prod_unfold Let_def)
  show "ccd_state (snd (snd (ccd_unlock env p s))) = CCD_STATE_OPENED \<Longrightarrow> ccd_state s = CCD_STATE_OPENED"
    by (simp add: ccd_unlock_def case_prod_unfold Let_def split: if_splits)
  show "pp_detect_callback (ccd_pp (snd (snd (ccd_unlock env p s)))) \<in> {pp_detect_callback (ccd_pp s), Some CB_unlock_done}"
    using c [of False CB_unlock_done "fst (terminate_input p s)"
        "snd (raw_check_password env (vc_buffer (fst (terminate_input p s))) (snd (terminate_input p s)))"]
    by (simp add: ccd_unlock_def case_prod_unfold Let_def)
qed

text \<open>The same facts for a known result, and those of \<open>ccd_password\<close>.\<close>

lemma ccd_unlock_fields:
  assumes "ccd_unlock env p s = (rc, q, s')"
  shows "ccd_state s' = CCD_STATE_OPENED \<Longrightarrow> ccd_state s = CCD_STATE_OPENED"
    "pp_detect_callback (ccd_pp s') \<in> {pp_detect_callback (ccd_pp s), Some CB_unlock_done}"
  using snd_ccd_unlock(4,5) [of env p s] assms by simp_all

lemma ccd_password_result:
  assumes "ccd_password env p s = (rc, q, s')"
  shows "ccd_state s' = ccd_state s" "ccd_pp s' = ccd_pp s"
  using ccd_password_fields(1,5) [of env p s] assms by (simp_all del: ccd_password_fields)

lemma vc_flags_shifted [simp]: "vc_flags (shifted p) = vc_flags p"
  by (simp add: shifted_def)

text \<open>The vendor command: which handler ran, and what it was given.\<close>

lemma ccd_vendor_cases:
  assumes "ccd_vendor env p s = (rc, q, s')"
  obtains (same) "s' = s"
  | (handled) handler r where "ccd_subcommand env (vc_buffer p ! 0) = Some handler" "handler (shifted p) s = (rc, r, s')"
proof (cases "ccd_subcommand env (vc_buffer p ! 0)")
  case None
  then show thesis using assms by (intro same) (auto simp: ccd_vendor_def split: if_splits)
next
  case (Some handler)
  then show thesis
    using assms same handled [OF Some]
    by (cases "handler (shifted p) s") (auto simp: ccd_vendor_def shifted_def Let_def split: if_splits)
qed

lemma ccd_vendor_opens:
  assumes "ccd_vendor env p s = (rc, q, s')" "sha_ok env" "ccd_config_ok (config s)" "ccd_state s \<noteq> CCD_STATE_OPENED"
    "ccd_state s' = CCD_STATE_OPENED"
  shows "vc_buffer p ! 0 = 1 \<and> open_authorised env (vc_flags p) (presented (shifted p)) s \<and> presence_waived env s \<and>
    wiped_or_waived (env_sync_reset env) s"
  using assms(1)
proof (cases rule: ccd_vendor_cases)
  case same
  then show ?thesis using assms(4,5) by simp
next
  case (handled handler r)
  have "vc_buffer p ! 0 = 1 \<and> ccd_open env (shifted p) s = (rc, r, s')"
    using handled assms(4,5) ccd_unlock_fields(1) [of env "shifted p" s rc r s']
    by (auto simp: ccd_subcommand_def ccd_lock_def ccd_pp_poll_unlock_def ccd_pp_poll_open_def ccd_get_info_def
        dest: ccd_password_result split: if_splits)
  then show ?thesis using ccd_open_opens [OF _ assms(2-5), of "shifted p" rc r] by simp
qed

lemma ccd_vendor_registers:
  assumes "ccd_vendor env p s = (rc, q, s')" "sha_ok env" "ccd_config_ok (config s)"
    "pp_detect_callback (ccd_pp s) \<noteq> Some CB_open_done_async" "pp_detect_callback (ccd_pp s') = Some CB_open_done_async"
  shows "vc_buffer p ! 0 = 1 \<and> open_authorised env (vc_flags p) (presented (shifted p)) s"
  using assms(1)
proof (cases rule: ccd_vendor_cases)
  case same
  then show ?thesis using assms(4,5) by simp
next
  case (handled handler r)
  have "vc_buffer p ! 0 = 1 \<and> ccd_open env (shifted p) s = (rc, r, s')"
    using handled assms(4,5) ccd_unlock_fields(2) [of env "shifted p" s rc r s']
    by (auto simp: ccd_subcommand_def ccd_lock_def ccd_pp_poll_unlock_def ccd_pp_poll_open_def ccd_get_info_def
        dest: ccd_password_result split: if_splits)
  then show ?thesis using ccd_open_registers [OF _ assms(2,3), of "shifted p" rc r s'] assms(4,5) by simp
qed

text \<open>Leaving factory mode opens the device for a moment; it stays open when the configuration cannot be saved.\<close>

definition factory_exit_allowed :: "ccd_env \<Rightarrow> ccd_sys \<Rightarrow> bool" where
  "factory_exit_allowed env s \<longleftrightarrow>
     \<not> raw_has_password (config s) \<and>
     ((ccd_is_cap_enabled s CCD_CAP_REMOVE_BATTERY_BYPASSES_PP \<and> \<not> board_battery_is_present env s) \<or>
      list_all (ccd_is_cap_enabled s)
        [CCD_CAP_OPEN_WITHOUT_TPM_WIPE, CCD_CAP_UNLOCK_WITHOUT_AP_REBOOT, CCD_CAP_OPEN_WITHOUT_LONG_PP,
         CCD_CAP_UNLOCK_WITHOUT_SHORT_PP])"

lemma command_reset_opened: "ccd_state s = CCD_STATE_OPENED \<Longrightarrow> command_ccd_reset env [] s = ccd_reset_config env 0 s"
  by (simp add: command_ccd_reset_def)

lemma disable_factory_opens:
  assumes "ccd_disable_factory_mode env p s = (rc, q, s')" "ccd_state s \<noteq> CCD_STATE_OPENED" "ccd_state s' = CCD_STATE_OPENED"
  shows "factory_exit_allowed env s \<and> fst (ccd_reset_config env 0 (ccd_set_state CCD_STATE_OPENED s)) \<noteq> EC_SUCCESS"
  using assms
  by (auto simp: ccd_disable_factory_mode_def factory_exit_allowed_def command_reset_opened ccd_lock_def Let_def
      split: if_splits prod.splits)

lemma snd_disable_factory [simp]:
  "force_disabled (snd (snd (ccd_disable_factory_mode env p s))) = force_disabled s"
  "ccd_pp (snd (snd (ccd_disable_factory_mode env p s))) = ccd_pp s"
  "ccd_config_loaded (snd (snd (ccd_disable_factory_mode env p s))) = ccd_config_loaded s"
  by (simp_all add: ccd_disable_factory_mode_def Let_def case_prod_unfold)

lemma enable_factory_fields [simp]:
  "ccd_state (enable_ccd_factory_mode r s) = ccd_state s" "ccd_pp (enable_ccd_factory_mode r s) = ccd_pp s"
  "force_disabled (enable_ccd_factory_mode r s) = force_disabled s" "config (enable_ccd_factory_mode r s) = config s"
  "ccd_config_loaded (enable_ccd_factory_mode r s) = ccd_config_loaded s"
  "long_life_scratch1 (enable_ccd_factory_mode r s) = long_life_scratch1 s" "ec_wp_l (enable_ccd_factory_mode r s) = ec_wp_l s"
  by (simp_all add: enable_ccd_factory_mode_def)

lemma small_commands_fields [simp]:
  "ccd_state (snd (snd (vc_factory_reset env p s))) = ccd_state s" "ccd_pp (snd (snd (vc_factory_reset env p s))) = ccd_pp s"
  "force_disabled (snd (snd (vc_factory_reset env p s))) = force_disabled s"
  "ccd_state (snd (snd (vc_set_wp p s))) = ccd_state s" "ccd_pp (snd (snd (vc_set_wp p s))) = ccd_pp s"
  "force_disabled (snd (snd (vc_set_wp p s))) = force_disabled s" "snd (snd (vc_lock p s)) = s"
  by (simp_all add: vc_factory_reset_def vc_set_wp_def vc_lock_def Let_def)

lemma route_cases:
  assumes "extension_route_command (ccd_commands env) mm p s = (rc, q, s')"
  obtains (same) "s' = s"
  | (ccd) "vc_code p = VENDOR_CC_CCD" "ccd_vendor env p s = (rc, q, s')"
  | (disable_factory) "vc_code p = VENDOR_CC_DISABLE_FACTORY" "ccd_disable_factory_mode env p s = (rc, q, s')"
  | (factory) "vc_code p = VENDOR_CC_RESET_FACTORY" "vc_factory_reset env p s = (rc, q, s')"
  | (wp) "vc_code p = VENDOR_CC_WP" "vc_set_wp p s = (rc, q, s')"
proof -
  have l: "vc_lock p s = (rc, q, s') \<Longrightarrow> s' = s" using small_commands_fields(7) [of p s] by simp
  show thesis
  proof (cases "find_handler (ccd_commands env) (vc_code p)")
    case None
    then show thesis using assms by (intro same) (auto simp: extension_route_command_def ignore_cmd_def split: if_splits)
  next
    case (Some h)
    consider "s' = s" | "h p s = (rc, q, s')"
      using assms Some by (auto simp: extension_route_command_def ignore_cmd_def split: if_splits)
    then show thesis
      using Some same ccd disable_factory factory wp l by cases (auto simp: ccd_commands_def split: if_splits)
  qed
qed

text \<open>The console reaches the vendor command with these parameters.\<close>

definition console_params :: "bytes \<Rightarrow> u8 \<Rightarrow> vendor_cmd_params" where
  "console_params pw sub =
     \<lparr>vc_code = VENDOR_CC_CCD, vc_buffer = sub # pw @ replicate (CCD_MAX_PASSWORD_SIZE - length pw) 0,
      vc_in_size = 1 + of_nat (length pw), vc_out_size = 41, vc_flags = VENDOR_CMD_FROM_ALT_IF\<rparr>"

definition console_password :: "nat \<Rightarrow> bytes \<Rightarrow> bytes" where
  "console_password argc password = (if argc > 1 then cstr password else [])"

lemma unat_of_length: "length pw \<le> 40 \<Longrightarrow> unat (of_nat (length pw) :: u32) = length pw"
  by (simp add: unat_of_nat take_bit_nat_eq_self)

lemma wrapper_route_any:
  assumes "length (console_password argc password) \<le> 40"
  shows "snd (ccd_command_wrapper env argc password sub s) =
    snd (snd (extension_route_command (ccd_commands env) (env_board_id_mismatched env)
      (console_params (console_password argc password) sub) s))"
proof -
  let ?pw = "console_password argc password"
  have pw: "(if argc > 1 then take (strlen password) password else []) = ?pw"
    by (simp add: console_password_def take_strlen)
  have r: "snd (ccd_command_wrapper env argc password sub s) =
      snd (call_extension_command (ccd_commands env) (env_board_id_mismatched env) VENDOR_CC_CCD
        (13 + of_nat (length ?pw)) 53 VENDOR_CMD_FROM_ALT_IF
        (sub # ?pw @ replicate (CCD_MAX_PASSWORD_SIZE - length ?pw) 0) s)"
    unfolding ccd_command_wrapper_def Let_def pw
    using assms by (simp add: CCD_MAX_PASSWORD_SIZE_def case_prod_unfold split: option.split)
  have h: "TPM_HEADER_SIZE \<le> 13 + of_nat (length ?pw)"
    using assms by (simp add: TPM_HEADER_SIZE_def word_le_nat_alt unat_word_ariths unat_of_nat take_bit_nat_eq_self)
  have p: "\<lparr>vc_code = VENDOR_CC_CCD, vc_buffer = sub # ?pw @ replicate (CCD_MAX_PASSWORD_SIZE - length ?pw) 0,
      vc_in_size = 13 + of_nat (length ?pw) - TPM_HEADER_SIZE, vc_out_size = 53 - TPM_HEADER_SIZE,
      vc_flags = VENDOR_CMD_FROM_ALT_IF\<rparr> = console_params ?pw sub"
    by (simp add: console_params_def TPM_HEADER_SIZE_def algebra_simps)
  show ?thesis unfolding r call_extension_command_def using h p by (simp add: case_prod_unfold Let_def)
qed

lemma wrapper_too_long:
  assumes "\<not> length (console_password argc password) \<le> 40"
  shows "snd (ccd_command_wrapper env argc password sub s) = s"
proof -
  have "(if argc > 1 then take (strlen password) password else []) = console_password argc password"
    by (simp add: console_password_def take_strlen)
  then show ?thesis unfolding ccd_command_wrapper_def Let_def using assms by (simp add: CCD_MAX_PASSWORD_SIZE_def)
qed

lemma wrapper_result:
  assumes "snd (ccd_command_wrapper env argc password sub s) \<noteq> s"
  shows "length (console_password argc password) \<le> 40 \<and>
    (\<exists>rc q. ccd_vendor env (console_params (console_password argc password) sub) s
       = (rc, q, snd (ccd_command_wrapper env argc password sub s)))"
proof -
  have le: "length (console_password argc password) \<le> 40" using assms wrapper_too_long by blast
  note e = wrapper_route_any [OF le, of env sub s]
  have "extension_route_command (ccd_commands env) (env_board_id_mismatched env)
      (console_params (console_password argc password) sub) s
      = ccd_vendor env (console_params (console_password argc password) sub) s"
    using assms unfolding e
    by (auto simp: extension_route_command_def ignore_cmd_def ccd_commands_def console_params_def split: if_splits)
  then show ?thesis using le e by (metis prod.collapse)
qed

lemma wrapper_route:
  assumes "length (console_password argc password) \<le> 40" "\<not> env_board_id_mismatched env"
  shows "snd (ccd_command_wrapper env argc password sub s) =
    snd (snd (ccd_vendor env (console_params (console_password argc password) sub) s))"
  using assms by (simp add: wrapper_route_any extension_route_command_def usb_allowed_def ccd_commands_def console_params_def)

lemma cstr_no_zero: "cstr (cstr s @ 0 # t) = cstr s" "cstr (cstr s) = cstr s"
  by (induction s) (auto simp: cstr_def dest: set_takeWhileD)

lemma presented_console:
  assumes "length (cstr pw) \<le> 40"
  shows "presented (shifted (console_params (cstr pw) sub)) = cstr pw"
proof (cases "length (cstr pw) = 40")
  case True
  then show ?thesis
    using unat_of_length [of "cstr pw"]
    by (simp add: presented_def shifted_def console_params_def CCD_MAX_PASSWORD_SIZE_def cstr_no_zero)
next
  case False
  then have l: "length (cstr pw) < 40" using assms by simp
  then have "replicate (40 - length (cstr pw)) (0::u8) = 0 # replicate (39 - length (cstr pw)) 0"
    by (simp flip: replicate_Suc add: Suc_diff_le)
  then show ?thesis
    using l unat_of_length [of "cstr pw"]
    by (simp add: presented_def shifted_def console_params_def CCD_MAX_PASSWORD_SIZE_def list_update_append cstr_no_zero)
qed

text \<open>The request to open that an input makes: where it comes from and the string it carries.\<close>

definition open_request :: "ccd_input \<Rightarrow> (u32 \<times> bytes) option" where
  "open_request i =
     (case i of
        InVendor p \<Rightarrow>
          if vc_code p = VENDOR_CC_CCD \<and> vc_buffer p ! 0 = 1 then Some (vc_flags p, presented (shifted p)) else None
      | InConsole argv \<Rightarrow>
          if length argv > 1 \<and> argv_is argv 1 ''open''
          then Some (VENDOR_CMD_FROM_ALT_IF, if length argv > 2 then cstr (argv ! 2) else []) else None
      | _ \<Rightarrow> None)"

lemma cap_enabled_console [simp]: "ccd_is_cap_enabled (s\<lparr>ccd_console_active := b\<rparr>) = ccd_is_cap_enabled s"
  by (rule cap_enabled_cong) simp_all

lemma open_authorised_console [simp]:
  "open_authorised env flags pw (s\<lparr>ccd_console_active := b\<rparr>) = open_authorised env flags pw s"
  "presence_waived env (s\<lparr>ccd_console_active := b\<rparr>) = presence_waived env s"
  "wiped_or_waived rv (s\<lparr>ccd_console_active := b\<rparr>) = wiped_or_waived rv s"
  by (simp_all add: open_authorised_def presence_waived_def wiped_or_waived_def password_accepted_def
      board_battery_is_present_def)

lemma wrapper_vendor:
  assumes "ccd_command_wrapper env argc password sub s = (rv, s')" "s' \<noteq> s"
  obtains rc q where "length (console_password argc password) \<le> 40"
    "ccd_vendor env (console_params (console_password argc password) sub) s = (rc, q, s')"
  using wrapper_result [of env argc password sub s] assms by auto

lemma console_sub [simp]: "vc_buffer (console_params pw sub) ! 0 = sub" "vc_flags (console_params pw sub) = VENDOR_CMD_FROM_ALT_IF"
  by (simp_all add: console_params_def)

lemma presented_password:
  assumes "length (console_password argc password) \<le> 40"
  shows "presented (shifted (console_params (console_password argc password) sub)) = console_password argc password"
proof -
  have "console_password argc password = cstr (console_password argc password)"
    by (simp add: console_password_def cstr_no_zero cstr_def)
  then show ?thesis using presented_console [of "console_password argc password"] assms by metis
qed

lemma wrapper_opens:
  assumes "ccd_command_wrapper env argc password sub s = (rv, s')" "sha_ok env" "ccd_config_ok (config s)"
    "ccd_state s \<noteq> CCD_STATE_OPENED" "ccd_state s' = CCD_STATE_OPENED"
  shows "sub = 1 \<and> open_authorised env VENDOR_CMD_FROM_ALT_IF (console_password argc password) s \<and> presence_waived env s \<and>
    wiped_or_waived (env_sync_reset env) s"
proof -
  have n: "s' \<noteq> s" using assms(4,5) by auto
  obtain rc q where l: "length (console_password argc password) \<le> 40"
    and v: "ccd_vendor env (console_params (console_password argc password) sub) s = (rc, q, s')"
    by (rule wrapper_vendor [OF assms(1) n])
  show ?thesis using ccd_vendor_opens [OF v assms(2-5)] presented_password [OF l] by simp
qed

lemma console_password_arg:
  "console_password (length argv - 1) (if length argv > 2 then argv ! 2 else []) = (if length argv > 2 then cstr (argv ! 2) else [])"
  by (auto simp: console_password_def)

lemma testlab_opens:
  assumes "command_ccd_testlab env argv s = (rv, s')" "ccd_state s \<noteq> CCD_STATE_OPENED" "ccd_state s' = CCD_STATE_OPENED"
  shows "ccd_get_flag s CCD_FLAG_TEST_LAB \<and> \<not> force_disabled s"
  using assms by (auto simp: command_ccd_testlab_def split: if_splits)

lemma console_opens:
  assumes "command_ccd env argv s = (rv, s')" "sha_ok env" "ccd_config_ok (config s)"
    "ccd_state s \<noteq> CCD_STATE_OPENED" "ccd_state s' = CCD_STATE_OPENED"
  shows "(\<exists>flags pw. open_request (InConsole argv) = Some (flags, pw) \<and> open_authorised env flags pw s \<and>
      presence_waived env s \<and> wiped_or_waived (env_sync_reset env) s) \<or>
    (ccd_get_flag s CCD_FLAG_TEST_LAB \<and> \<not> force_disabled s)"
proof -
  let ?s = "s\<lparr>ccd_console_active := True\<rparr>"
  obtain s1 where b: "command_ccd_body env argv ?s = (rv, s1)" "s' = s1\<lparr>ccd_console_active := False\<rparr>"
    using assms(1) by (auto simp: command_ccd_def split: prod.splits)
  have o: "ccd_state s1 = CCD_STATE_OPENED" "ccd_state ?s \<noteq> CCD_STATE_OPENED" "ccd_config_ok (config ?s)"
    using assms(3-5) b(2) by simp_all
  let ?argc = "length argv" and ?a2 = "if length argv > 2 then argv ! 2 else []"
  have w: "ccd_command_wrapper env argc pw sub ?s = (rv, s1) \<Longrightarrow>
      sub = 1 \<and> open_authorised env VENDOR_CMD_FROM_ALT_IF (console_password argc pw) s \<and> presence_waived env s \<and>
      wiped_or_waived (env_sync_reset env) s" for argc pw sub
    using wrapper_opens [OF _ assms(2) o(3,2,1)] by fastforce
  have r: "ccd_state (snd (command_ccd_set a ?s)) \<noteq> CCD_STATE_OPENED" "ccd_state (snd (command_ccd_reset env a ?s)) \<noteq> CCD_STATE_OPENED" for a
    using o(2) by simp_all
  consider "console_code (command_ccd_testlab env (tl argv) ?s) = (rv, s1)"
    | "?argc > 1" "argv_is argv 1 ''open''" "ccd_command_wrapper env (?argc - 1) ?a2 1 ?s = (rv, s1)"
    using b(1) o(1,2) w [of _ _ 0] w [of _ _ 2] w [of 0 "[]" 3] r
    by (auto simp: command_ccd_body_def Let_def console_code_def split: if_splits)
  then show ?thesis
  proof cases
    case 1
    then have "command_ccd_testlab env (tl argv) ?s = (fst (command_ccd_testlab env (tl argv) ?s), s1)"
      by (auto simp: console_code_def)
    from testlab_opens [OF this o(2,1)] show ?thesis by (auto simp: ccd_get_flag_def split: if_splits)
  next
    case 2
    from w [OF 2(3)] show ?thesis using 2(1,2) console_password_arg [of argv] by (auto simp: open_request_def)
  qed
qed

text \<open>The end of a presence check.\<close>

lemma detect_done_begin_callback:
  assumes "physical_detect_done_begin pp = (Some cb, pp')"
  shows "pp_detect_callback pp = Some cb \<and> pp_detect_in_progress pp \<and> pp_press_count_needed pp \<le> pp_press_count pp"
  using assms by (auto simp: physical_detect_done_begin_def Let_def split: if_splits)

lemma cap_enabled_pp [simp]: "ccd_is_cap_enabled (s\<lparr>ccd_pp := pp\<rparr>) = ccd_is_cap_enabled s"
  by (rule cap_enabled_cong) simp_all

lemma wiped_pp [simp]: "wiped_or_waived rv (s\<lparr>ccd_pp := pp\<rparr>) = wiped_or_waived rv s"
  by (simp add: wiped_or_waived_def)

definition presence_shown :: "ccd_callback \<Rightarrow> ccd_sys \<Rightarrow> bool" where
  "presence_shown cb s \<longleftrightarrow> pp_detect_callback (ccd_pp s) = Some cb \<and> pp_detect_in_progress (ccd_pp s) \<and>
     pp_press_count_needed (ccd_pp s) \<le> pp_press_count (ccd_pp s)"

lemma detect_done_opens:
  assumes "ccd_state s \<noteq> CCD_STATE_OPENED" "ccd_state (ccd_detect_done env s) = CCD_STATE_OPENED"
  shows "presence_shown CB_open_done_async s \<and> wiped_or_waived (env_wipe_request env) s"
proof -
  obtain cb pp where d: "physical_detect_done_begin (ccd_pp s) = (cb, pp)" by fastforce
  show ?thesis
  proof (cases cb)
    case None
    then show ?thesis using assms d by (simp add: ccd_detect_done_def Let_def)
  next
    case (Some f)
    then have "f = CB_open_done_async" "wiped_or_waived (env_wipe_request env) s"
      using assms d by (cases f; simp add: ccd_detect_done_def run_callback_def ccd_open_done_cases Let_def split: if_splits)+
    then show ?thesis using detect_done_begin_callback [of "ccd_pp s" f pp] d Some by (simp add: presence_shown_def)
  qed
qed

lemma factory_deferred_state [simp]:
  "ccd_state (factory_enable_deferred env s) = ccd_state s" "ccd_pp (factory_enable_deferred env s) = ccd_pp s"
  "force_disabled (factory_enable_deferred env s) = force_disabled s"
  by (simp_all add: factory_enable_deferred_def Let_def case_prod_unfold)

lemma command_wp_fields [simp]:
  "ccd_state (snd (command_wp env g argv s)) = ccd_state s" "ccd_pp (snd (command_wp env g argv s)) = ccd_pp s"
  "force_disabled (snd (command_wp env g argv s)) = force_disabled s"
  by (simp_all add: command_wp_def Let_def case_prod_unfold split: option.split)

lemma command_bpforce_fields [simp]:
  "ccd_state (snd (command_bpforce env argv s)) = ccd_state s" "ccd_pp (snd (command_bpforce env argv s)) = ccd_pp s"
  "force_disabled (snd (command_bpforce env argv s)) = force_disabled s"
  by (simp_all add: command_bpforce_def Let_def case_prod_unfold split: option.split)

lemma route_opens:
  assumes "extension_route_command (ccd_commands env) mm p s = (rc, q, s')" "sha_ok env" "ccd_config_ok (config s)"
    "ccd_state s \<noteq> CCD_STATE_OPENED" "ccd_state s' = CCD_STATE_OPENED"
  shows "(\<exists>flags pw. open_request (InVendor p) = Some (flags, pw) \<and> open_authorised env flags pw s \<and> presence_waived env s \<and>
      wiped_or_waived (env_sync_reset env) s) \<or>
    (vc_code p = VENDOR_CC_DISABLE_FACTORY \<and> factory_exit_allowed env s \<and>
     fst (ccd_reset_config env 0 (ccd_set_state CCD_STATE_OPENED s)) \<noteq> EC_SUCCESS)"
  using assms(1)
proof (cases rule: route_cases)
  case ccd
  then show ?thesis using ccd_vendor_opens [OF ccd(2) assms(2-5)] by (simp add: open_request_def)
next
  case disable_factory
  then show ?thesis using disable_factory_opens [OF disable_factory(2) assms(4,5)] by simp
next
  case factory
  then show ?thesis using assms(4,5) small_commands_fields(1) [of env p s] by (simp del: small_commands_fields)
next
  case wp
  then show ?thesis using assms(4,5) small_commands_fields(4) [of p s] by (simp del: small_commands_fields)
qed (use assms(4,5) in simp)

section \<open>Starting a presence check\<close>

lemma route_registers:
  assumes "extension_route_command (ccd_commands env) mm p s = (rc, q, s')" "sha_ok env" "ccd_config_ok (config s)"
    "pp_detect_callback (ccd_pp s) \<noteq> Some CB_open_done_async" "pp_detect_callback (ccd_pp s') = Some CB_open_done_async"
  shows "\<exists>flags pw. open_request (InVendor p) = Some (flags, pw) \<and> open_authorised env flags pw s"
  using assms(1)
proof (cases rule: route_cases)
  case ccd
  then show ?thesis using ccd_vendor_registers [OF ccd(2) assms(2-5)] by (simp add: open_request_def)
next
  case disable_factory
  then show ?thesis using assms(4,5) snd_disable_factory(2) [of env p s] by (simp del: snd_disable_factory)
next
  case factory
  then show ?thesis using assms(4,5) small_commands_fields(2) [of env p s] by (simp del: small_commands_fields)
next
  case wp
  then show ?thesis using assms(4,5) small_commands_fields(5) [of p s] by (simp del: small_commands_fields)
qed (use assms(4,5) in simp)

lemma wrapper_registers:
  assumes "ccd_command_wrapper env argc password sub s = (rv, s')" "sha_ok env" "ccd_config_ok (config s)"
    "pp_detect_callback (ccd_pp s) \<noteq> Some CB_open_done_async" "pp_detect_callback (ccd_pp s') = Some CB_open_done_async"
  shows "sub = 1 \<and> open_authorised env VENDOR_CMD_FROM_ALT_IF (console_password argc password) s"
proof -
  have n: "s' \<noteq> s" using assms(4,5) by auto
  obtain rc q where l: "length (console_password argc password) \<le> 40"
    and v: "ccd_vendor env (console_params (console_password argc password) sub) s = (rc, q, s')"
    by (rule wrapper_vendor [OF assms(1) n])
  show ?thesis using ccd_vendor_registers [OF v assms(2-5)] presented_password [OF l] by simp
qed

lemma testlab_callback:
  "pp_detect_callback (ccd_pp (snd (command_ccd_testlab env argv s))) \<in> {pp_detect_callback (ccd_pp s), Some CB_testlab_toggle}"
  by (simp add: command_ccd_testlab_def physical_detect_start_simps split: option.split)

lemma console_registers:
  assumes "command_ccd env argv s = (rv, s')" "sha_ok env" "ccd_config_ok (config s)"
    "pp_detect_callback (ccd_pp s) \<noteq> Some CB_open_done_async" "pp_detect_callback (ccd_pp s') = Some CB_open_done_async"
  shows "\<exists>flags pw. open_request (InConsole argv) = Some (flags, pw) \<and> open_authorised env flags pw s"
proof -
  let ?s = "s\<lparr>ccd_console_active := True\<rparr>"
  obtain s1 where b: "command_ccd_body env argv ?s = (rv, s1)" "s' = s1\<lparr>ccd_console_active := False\<rparr>"
    using assms(1) by (auto simp: command_ccd_def split: prod.splits)
  have o: "pp_detect_callback (ccd_pp s1) = Some CB_open_done_async" "pp_detect_callback (ccd_pp ?s) \<noteq> Some CB_open_done_async"
    "ccd_config_ok (config ?s)"
    using assms(3-5) b(2) by simp_all
  have w: "ccd_command_wrapper env argc pw sub ?s = (rv, s1) \<Longrightarrow>
      sub = 1 \<and> open_authorised env VENDOR_CMD_FROM_ALT_IF (console_password argc pw) s" for argc pw sub
    using wrapper_registers [OF _ assms(2) o(3,2,1)] by fastforce
  have "length argv > 1 \<and> argv_is argv 1 ''open'' \<and>
      ccd_command_wrapper env (length argv - 1) (if length argv > 2 then argv ! 2 else []) 1 ?s = (rv, s1)"
    using b(1) o(1,2) w [of _ _ 0] w [of _ _ 2] w [of 0 "[]" 3] testlab_callback [of env "tl argv" ?s]
    by (auto simp: command_ccd_body_def Let_def console_code_def split: if_splits)
  then show ?thesis
    using w [of "length argv - 1" "if length argv > 2 then argv ! 2 else []" 1] console_password_arg [of argv]
    by (auto simp: open_request_def)
qed

lemma check_press_callback [simp]: "pp_detect_callback (physical_detect_check_press now pp) = pp_detect_callback pp"
  by (simp add: physical_detect_check_press_def check_press_read_def check_press_locked_def Let_def)

lemma press_callback [simp]: "pp_detect_callback (snd (physical_detect_press now pp)) = pp_detect_callback pp"
  by (simp add: physical_detect_press_def)

lemma detect_done_callback [simp]: "pp_detect_callback (ccd_pp (ccd_detect_done env s)) = None"
  by (simp add: ccd_detect_done_def physical_detect_done_end_def Let_def split: prod.split)

section \<open>Write protect\<close>

text \<open>While the FWMP force write protect, it is asserted.\<close>

definition fwmp_wp_inv :: "ccd_sys \<Rightarrow> bool" where
  "fwmp_wp_inv s \<longleftrightarrow> (board_fwmp_force_wp_en s \<longrightarrow> wp_is_asserted s)"

lemma fwmp_bit: "board_fwmp_force_wp_en s \<longleftrightarrow> bit (long_life_scratch1 s) 25"
  unfolding board_fwmp_force_wp_en_def BOARD_FWMP_FORCE_WP_EN_def by (rule flag_bit)

lemma fwmp_set_wp_state [simp]: "board_fwmp_force_wp_en (set_wp_state a s) = board_fwmp_force_wp_en s"
  by (simp add: fwmp_bit set_wp_state_def BOARD_WP_ASSERTED_def Let_def bit_or_iff bit_and_iff bit_not_iff bit_flag
      del: push_bit_of_1)

lemma fwmp_wp_set [simp]: "fwmp_wp_inv (set_wp_state a s)"
  unfolding fwmp_wp_inv_def fwmp_set_wp_state by (simp add: set_wp_state_def wp_is_asserted_def Let_def)

lemma fwmp_wp_force [simp]: "fwmp_wp_inv (force_write_protect env f w s)"
  by (simp add: force_write_protect_def Let_def)

lemma fwmp_wp_follow [simp]: "fwmp_wp_inv (set_wp_follow_ccd_config env s)" "fwmp_wp_inv (board_wp_follow_ccd_config env s)"
  by (simp_all add: set_wp_follow_ccd_config_def board_wp_follow_ccd_config_def)

lemma fwmp_wp_cong:
  "long_life_scratch1 s' = long_life_scratch1 s \<Longrightarrow> ec_wp_l s' = ec_wp_l s \<Longrightarrow> fwmp_wp_inv s' = fwmp_wp_inv s"
  by (simp add: fwmp_wp_inv_def board_fwmp_force_wp_en_def wp_is_asserted_def)

lemma fwmp_write_prop: "board_fwmp_force_wp_en (board_write_prop BOARD_FWMP_FORCE_WP_EN b s) = b"
  by (simp add: fwmp_bit board_write_prop_def BOARD_FWMP_FORCE_WP_EN_def bit_or_iff bit_and_iff bit_not_iff bit_flag
      del: push_bit_of_1)

lemma fwmp_wp_policy:
  assumes "fwmp_wp_inv s" shows "fwmp_wp_inv (snd (board_fwmp_check_wp_policy env s))"
proof (cases "board_fwmp_allows_unlock env")
  case True
  then show ?thesis
    using assms fwmp_write_prop [of False s] by (simp add: board_fwmp_check_wp_policy_def Let_def) (simp add: fwmp_wp_inv_def)
next
  case False
  then show ?thesis
    using assms by (simp add: board_fwmp_check_wp_policy_def Let_def)
qed

lemma fwmp_force_write_protect: "board_fwmp_force_wp_en (force_write_protect env f w s) = board_fwmp_force_wp_en s"
  unfolding force_write_protect_def Let_def
  by (simp add: fwmp_bit [of "s\<lparr>long_life_scratch1 := _\<rparr>"] BOARD_FORCING_WP_def bit_or_iff bit_and_iff bit_not_iff bit_flag
      del: push_bit_of_1) (simp add: fwmp_bit)

lemma policy_forces:
  "\<not> board_fwmp_allows_unlock env \<Longrightarrow> board_fwmp_force_wp_en (snd (board_fwmp_check_wp_policy env s))"
  by (simp add: board_fwmp_check_wp_policy_def Let_def fwmp_force_write_protect fwmp_write_prop)

lemma fwmp_wp_updates [simp]:
  "fwmp_wp_inv (s\<lparr>config := c\<rparr>) = fwmp_wp_inv s" "fwmp_wp_inv (s\<lparr>ccd_pp := pp\<rparr>) = fwmp_wp_inv s"
  "fwmp_wp_inv (s\<lparr>ccd_console_active := b\<rparr>) = fwmp_wp_inv s" "fwmp_wp_inv (s\<lparr>force_disabled := b\<rparr>) = fwmp_wp_inv s"
  "fwmp_wp_inv (s\<lparr>bp_forced := b\<rparr>) = fwmp_wp_inv s" "fwmp_wp_inv (s\<lparr>bp_connect := b\<rparr>) = fwmp_wp_inv s"
  "fwmp_wp_inv (s\<lparr>wait_for_factory_ccd_change := b\<rparr>) = fwmp_wp_inv s" "fwmp_wp_inv (s\<lparr>factory_enable_pending := b\<rparr>) = fwmp_wp_inv s"
  "fwmp_wp_inv (s\<lparr>force_reset_pending := b\<rparr>) = fwmp_wp_inv s"
  by (rule fwmp_wp_cong; simp)+

lemma fwmp_wp_frames [simp]:
  "fwmp_wp_inv (ccd_event e s) = fwmp_wp_inv s" "fwmp_wp_inv (snd (ccd_save_config s)) = fwmp_wp_inv s"
  "fwmp_wp_inv (ccd_set_state st s) = fwmp_wp_inv s" "fwmp_wp_inv (snd (ccd_set_flag flag v s)) = fwmp_wp_inv s"
  "fwmp_wp_inv (factory_config_saved s) = fwmp_wp_inv s" "fwmp_wp_inv (snd (raw_check_password env pw s)) = fwmp_wp_inv s"
  "fwmp_wp_inv (snd (terminate_input p s)) = fwmp_wp_inv s" "fwmp_wp_inv (ccd_unlock_done s) = fwmp_wp_inv s"
  "fwmp_wp_inv (snd (snd (ccd_password env p s))) = fwmp_wp_inv s" "fwmp_wp_inv (ccd_testlab_toggle s) = fwmp_wp_inv s"
  "fwmp_wp_inv (snd (command_ccd_set argv s)) = fwmp_wp_inv s" "fwmp_wp_inv (enable_ccd_factory_mode r s) = fwmp_wp_inv s"
  by (rule fwmp_wp_cong; simp)+

lemma fwmp_wp_check: "fwmp_wp_inv s \<Longrightarrow> fwmp_wp_inv (check_wp_battery_presence env s)"
  by (simp add: check_wp_battery_presence_def Let_def)

lemma fwmp_wp_update_policies: "fwmp_wp_inv s \<Longrightarrow> fwmp_wp_inv (board_fwmp_update_policies env s)"
  using fwmp_wp_policy [of s env] by (simp add: board_fwmp_update_policies_def case_prod_unfold)

lemma fwmp_wp_wipe: "fwmp_wp_inv s \<Longrightarrow> fwmp_wp_inv (snd (board_wipe_tpm env r s))"
  by (simp add: board_wipe_tpm_def Let_def fwmp_wp_update_policies)

lemma fwmp_wp_reset: "fwmp_wp_inv s \<Longrightarrow> fwmp_wp_inv (snd (ccd_reset_config env flags s))"
  by (simp add: ccd_reset_config_def Let_def)

lemma fwmp_wp_open_done: "fwmp_wp_inv s \<Longrightarrow> fwmp_wp_inv (ccd_open_done env sync s)"
  by (simp add: ccd_open_done_def Let_def case_prod_unfold fwmp_wp_wipe)

lemma fwmp_wp_start_presence [simp]: "fwmp_wp_inv (snd (snd (start_presence env l cb p s))) = fwmp_wp_inv s"
  by (simp add: start_presence_def case_prod_unfold)

lemma fwmp_wp_open_allowed:
  "(case ccd_open_allowed env p s of Inl (rc, q, s1) \<Rightarrow> fwmp_wp_inv s1 | Inr (q, s1) \<Rightarrow> fwmp_wp_inv s1) = fwmp_wp_inv s"
  by (simp add: ccd_open_allowed_def case_prod_unfold)

lemma fwmp_wp_ccd_open: "fwmp_wp_inv s \<Longrightarrow> fwmp_wp_inv (snd (snd (ccd_open env p s)))"
  using fwmp_wp_open_allowed [of env p s]
  by (auto simp: ccd_open_def Let_def fwmp_wp_open_done split: sum.splits)

lemma fwmp_wp_ccd_unlock: "fwmp_wp_inv (snd (snd (ccd_unlock env p s))) = fwmp_wp_inv s"
  by (simp add: ccd_unlock_def Let_def case_prod_unfold)

lemma fwmp_wp_vendor:
  assumes "fwmp_wp_inv s" "ccd_vendor env p s = (rc, q, s')"
  shows "fwmp_wp_inv s'"
  using assms(2)
proof (cases rule: ccd_vendor_cases)
  case (handled handler r)
  then have "s' = snd (snd (handler (shifted p) s))" by simp
  then show ?thesis
    using handled(1) assms(1)
    by (auto simp: ccd_subcommand_def fwmp_wp_ccd_open fwmp_wp_ccd_unlock ccd_lock_def ccd_pp_poll_unlock_def
        ccd_pp_poll_open_def ccd_get_info_def split: if_splits)
qed (use assms(1) in simp)

lemma fwmp_wp_disable_factory: "fwmp_wp_inv s \<Longrightarrow> fwmp_wp_inv (snd (snd (ccd_disable_factory_mode env p s)))"
  by (simp add: ccd_disable_factory_mode_def Let_def case_prod_unfold command_reset_opened fwmp_wp_reset)

lemma fwmp_wp_small: "fwmp_wp_inv s \<Longrightarrow> fwmp_wp_inv (snd (snd (vc_factory_reset env p s)))"
  "fwmp_wp_inv s \<Longrightarrow> fwmp_wp_inv (snd (snd (vc_set_wp p s)))"
  by (simp_all add: vc_factory_reset_def vc_set_wp_def Let_def)

interpretation wp_table: command_table "ccd_commands env" "\<lambda>s s'. fwmp_wp_inv s \<longrightarrow> fwmp_wp_inv s'" for env
proof (unfold_locales, goal_cases)
  case (2 c h p s rc p' s')
  then have s': "s' = snd (snd (h p s))" by simp
  have v: "fwmp_wp_inv s \<Longrightarrow> fwmp_wp_inv (snd (snd (ccd_vendor env p s)))" using fwmp_wp_vendor by (metis prod.collapse)
  show ?case unfolding s'
    using 2(1) by (auto simp: ccd_commands_def v fwmp_wp_disable_factory fwmp_wp_small)
qed simp

text \<open>No operation of the component changes whether it is disabled.\<close>

lemma snd_ccd_open_disabled: "force_disabled (snd (snd (ccd_open env p s))) = force_disabled s"
  using open_allowed_fields [where env = env and p = p and s = s]
  by (auto simp: ccd_open_def Let_def split: sum.splits)

lemma vendor_disabled:
  assumes "ccd_vendor env p s = (rc, q, s')"
  shows "force_disabled s' = force_disabled s"
  using assms
proof (cases rule: ccd_vendor_cases)
  case (handled handler r)
  then have "s' = snd (snd (handler (shifted p) s))" by simp
  then show ?thesis
    using handled(1)
    by (auto simp: ccd_subcommand_def snd_ccd_open_disabled snd_ccd_unlock(1) ccd_lock_def ccd_pp_poll_unlock_def
        ccd_pp_poll_open_def ccd_get_info_def split: if_splits)
qed simp

interpretation disabled_table: command_table "ccd_commands env" "\<lambda>s s'. force_disabled s' = force_disabled s" for env
proof (unfold_locales, goal_cases)
  case (2 c h p s rc p' s')
  then have s': "s' = snd (snd (h p s))" by simp
  have v: "force_disabled (snd (snd (ccd_vendor env p s))) = force_disabled s"
    using vendor_disabled by (metis prod.collapse)
  show ?case unfolding s' using 2(1) by (auto simp: ccd_commands_def v)
qed simp

section \<open>Runs\<close>

lemma wrapper_keeps:
  "fwmp_wp_inv s \<longrightarrow> fwmp_wp_inv (snd (ccd_command_wrapper env argc pw sub s))"
  "force_disabled (snd (ccd_command_wrapper env argc pw sub s)) = force_disabled s"
proof -
  consider "snd (ccd_command_wrapper env argc pw sub s) = s"
    | rc q where "ccd_vendor env (console_params (console_password argc pw) sub) s = (rc, q, snd (ccd_command_wrapper env argc pw sub s))"
    using wrapper_result by blast
  then have "(fwmp_wp_inv s \<longrightarrow> fwmp_wp_inv (snd (ccd_command_wrapper env argc pw sub s))) \<and>
      force_disabled (snd (ccd_command_wrapper env argc pw sub s)) = force_disabled s"
  proof cases
    case 2
    then show ?thesis using fwmp_wp_vendor [OF _ 2] vendor_disabled [OF 2] by blast
  qed simp
  then show "fwmp_wp_inv s \<longrightarrow> fwmp_wp_inv (snd (ccd_command_wrapper env argc pw sub s))"
    "force_disabled (snd (ccd_command_wrapper env argc pw sub s)) = force_disabled s" by simp_all
qed

lemma testlab_keeps:
  "fwmp_wp_inv (snd (command_ccd_testlab env argv s)) = fwmp_wp_inv s"
  "force_disabled (snd (command_ccd_testlab env argv s)) = force_disabled s"
  by (simp_all add: command_ccd_testlab_def case_prod_unfold split: option.split)

lemma console_keeps:
  "fwmp_wp_inv s \<Longrightarrow> fwmp_wp_inv (snd (command_ccd env argv s))"
  "force_disabled (snd (command_ccd env argv s)) = force_disabled s"
proof -
  have r: "fwmp_wp_inv s \<Longrightarrow> fwmp_wp_inv (snd (command_ccd_reset env a s))" for a s
    by (simp add: command_ccd_reset_def Let_def fwmp_wp_reset split: option.split ccd_state_t.split)
  show "fwmp_wp_inv s \<Longrightarrow> fwmp_wp_inv (snd (command_ccd env argv s))"
    by (simp add: command_ccd_def command_ccd_body_def case_prod_unfold Let_def console_code_def wrapper_keeps testlab_keeps r)
  show "force_disabled (snd (command_ccd env argv s)) = force_disabled s"
    by (simp add: command_ccd_def command_ccd_body_def case_prod_unfold Let_def console_code_def wrapper_keeps testlab_keeps)
qed

lemma detect_done_keeps:
  "fwmp_wp_inv s \<Longrightarrow> fwmp_wp_inv (ccd_detect_done env s)" "force_disabled (ccd_detect_done env s) = force_disabled s"
  by (simp_all add: ccd_detect_done_def run_callback_def Let_def fwmp_wp_open_done case_prod_unfold
      split: option.split ccd_callback.split)

lemma console_wp_keeps:
  "fwmp_wp_inv s \<Longrightarrow> fwmp_wp_inv (snd (command_wp env g argv s))"
  "fwmp_wp_inv s \<Longrightarrow> fwmp_wp_inv (snd (command_bpforce env argv s))"
  by (simp_all add: command_wp_def command_bpforce_def Let_def case_prod_unfold fwmp_wp_check split: option.split)

lemma factory_deferred_keeps: "fwmp_wp_inv s \<Longrightarrow> fwmp_wp_inv (factory_enable_deferred env s)"
  by (simp add: factory_enable_deferred_def Let_def case_prod_unfold fwmp_wp_wipe fwmp_wp_reset)

lemma step_keeps_wp:
  assumes "ccd_step env i s s'" "fwmp_wp_inv s"
  shows "fwmp_wp_inv s'"
  using assms(1)
proof cases
  case (vendor p rc q)
  then show ?thesis using wp_table.route_keeps assms(2) by blast
qed (use assms(2) in \<open>simp_all add: console_keeps console_wp_keeps detect_done_keeps ccd_disable_def factory_deferred_keeps
    force_system_reset_def fwmp_wp_check fwmp_wp_update_policies\<close>)

lemma step_keeps_disabled:
  assumes "ccd_step env i s s'" "force_disabled s"
  shows "force_disabled s'"
  using assms(1)
proof cases
  case (vendor p rc q)
  then show ?thesis using disabled_table.route_keeps assms(2) by blast
qed (use assms(2) in \<open>simp_all add: console_keeps detect_done_keeps ccd_disable_def force_system_reset_def\<close>)

inductive ccd_run :: "ccd_sys \<Rightarrow> ccd_sys \<Rightarrow> bool" where
  run_refl: "ccd_run s s"
| run_step: "ccd_run s s' \<Longrightarrow> ccd_step env i s' s'' \<Longrightarrow> ccd_run s s''"

section \<open>The configuration\<close>

text \<open>What the random source and the hash deliver.\<close>

definition ccd_env_ok :: "ccd_env \<Rightarrow> bool" where
  "ccd_env_ok env \<longleftrightarrow> sha_ok env \<and> length (env_rand env) = 4"

lemma capabilities_reset_password [simp]: "capabilities (raw_reset_password c) = capabilities c"
  by (simp add: raw_reset_password_def)

lemma reset_password_ok [simp]: "ccd_config_ok c \<Longrightarrow> ccd_config_ok (raw_reset_password c)"
  unfolding raw_reset_password_def by (rule raw_set_flag_ok) (simp add: ccd_config_ok_def)

lemma set_password_caps: "capabilities (config (snd (raw_set_password env pw s))) = capabilities (config s)"
  by (simp add: raw_set_password_def Let_def split: sum.split)

lemma set_password_ok:
  assumes "ccd_env_ok env" "ccd_config_ok (config s)"
  shows "ccd_config_ok (config (snd (raw_set_password env pw s)))"
proof -
  have c: "ccd_config_ok ((config s)\<lparr>password_salt := env_rand env\<rparr>)" and
    d: "length d = 16 \<Longrightarrow> ccd_config_ok ((config s)\<lparr>password_salt := env_rand env, password_digest := d\<rparr>)" for d
    using assms by (simp_all add: ccd_config_ok_def ccd_env_ok_def)
  show ?thesis
    using c d assms(1)
    by (auto simp: raw_set_password_def Let_def ccd_password_digest_def ccd_env_ok_def sha_ok_def split: sum.split)
qed

lemma do_password_config:
  "capabilities (config (snd (do_ccd_password env pw s))) = capabilities (config s)"
  "ccd_env_ok env \<Longrightarrow> ccd_config_ok (config s) \<Longrightarrow> ccd_config_ok (config (snd (do_ccd_password env pw s)))"
  by (simp_all add: do_ccd_password_def case_prod_unfold ccd_reset_password_def ccd_set_password_def set_password_caps
      set_password_ok)

lemma password_config:
  "capabilities (config (snd (snd (ccd_password env p s)))) = capabilities (config s)"
  "ccd_env_ok env \<Longrightarrow> ccd_config_ok (config s) \<Longrightarrow> ccd_config_ok (config (snd (snd (ccd_password env p s))))"
  by (simp_all add: ccd_password_def case_prod_unfold do_password_config)

lemma snd_ccd_open_config: "config (snd (snd (ccd_open env p s))) = config s"
  using open_allowed_fields [where env = env and p = p and s = s]
  by (auto simp: ccd_open_def Let_def split: sum.splits)

lemma vendor_config:
  assumes "ccd_vendor env p s = (rc, q, s')"
  shows "capabilities (config s') = capabilities (config s)"
    "ccd_env_ok env \<Longrightarrow> ccd_config_ok (config s) \<Longrightarrow> ccd_config_ok (config s')"
proof -
  have "capabilities (config s') = capabilities (config s) \<and>
      (ccd_env_ok env \<longrightarrow> ccd_config_ok (config s) \<longrightarrow> ccd_config_ok (config s'))"
    using assms
  proof (cases rule: ccd_vendor_cases)
    case (handled handler r)
    then have "s' = snd (snd (handler (shifted p) s))" by simp
    then show ?thesis
      using handled(1)
      by (auto simp: ccd_subcommand_def password_config snd_ccd_open_config snd_ccd_unlock(2) ccd_lock_def ccd_pp_poll_unlock_def
          ccd_pp_poll_open_def ccd_get_info_def split: if_splits)
  qed simp
  then show "capabilities (config s') = capabilities (config s)"
    "ccd_env_ok env \<Longrightarrow> ccd_config_ok (config s) \<Longrightarrow> ccd_config_ok (config s')" by simp_all
qed

text \<open>Capabilities that need an opened device.\<close>

definition if_opened :: "ccd_config \<Rightarrow> nat \<Rightarrow> bool" where
  "if_opened c cap \<longleftrightarrow> raw_get_cap c cap True = CCD_CAP_STATE_IF_OPENED"

lemma if_opened_cong: "capabilities c' = capabilities c \<Longrightarrow> if_opened c' = if_opened c"
  by (simp add: if_opened_def raw_get_cap_def fun_eq_iff)

lemma reset_unlocked_caps_keeps:
  assumes "ccd_config_ok c" "cap < 21" "if_opened c cap"
  shows "if_opened (reset_unlocked_caps c) cap"
proof -
  let ?f = "\<lambda>i c. if raw_get_cap c i True = CCD_CAP_STATE_IF_OPENED then c else raw_set_cap i CCD_CAP_STATE_DEFAULT c"
  have "\<forall>i\<in>set is. i < 21 \<Longrightarrow> ccd_config_ok c \<Longrightarrow> if_opened c cap \<Longrightarrow> if_opened (fold ?f is c) cap" for "is" c
  proof (induction "is" arbitrary: c)
    case (Cons i "is")
    have "if_opened (?f i c) cap"
      using Cons.prems assms(2) by (auto simp: if_opened_def raw_get_set_cap)
    then show ?case using Cons by simp
  qed simp
  then show ?thesis using assms by (simp add: reset_unlocked_caps_def CCD_CAP_COUNT_def)
qed

lemma fold_set_cap_ok: "ccd_config_ok c \<Longrightarrow> ccd_config_ok (fold (\<lambda>i. raw_set_cap i st) is c)"
  by (induction "is" arbitrary: c) simp_all

lemma reset_caps_ok [simp]:
  "ccd_config_ok c \<Longrightarrow> ccd_config_ok (reset_unlocked_caps c)" "ccd_config_ok c \<Longrightarrow> ccd_config_ok (set_all_caps_always c)"
proof -
  let ?f = "\<lambda>i c. if raw_get_cap c i True = CCD_CAP_STATE_IF_OPENED then c else raw_set_cap i CCD_CAP_STATE_DEFAULT c"
  have "ccd_config_ok c \<Longrightarrow> ccd_config_ok (fold ?f is c)" for "is" c
    by (induction "is" arbitrary: c) simp_all
  then show "ccd_config_ok c \<Longrightarrow> ccd_config_ok (reset_unlocked_caps c)" by (simp add: reset_unlocked_caps_def)
  show "ccd_config_ok c \<Longrightarrow> ccd_config_ok (set_all_caps_always c)"
    by (simp add: set_all_caps_always_def fold_set_cap_ok)
qed

lemma zero_config_version_ok [simp]: "ccd_config_ok (zero_config\<lparr>cfg_version := v\<rparr>)"
  by (simp add: zero_config_def ccd_config_ok_def)

lemma reset_config_ok: "ccd_config_ok (config s) \<Longrightarrow> ccd_config_ok (config (snd (ccd_reset_config env flags s)))"
  by (simp add: ccd_reset_config_def Let_def)

lemma reset_unlocked_keeps:
  assumes "ccd_config_ok (config s)" "cap < 21" "if_opened (config s) cap"
  shows "if_opened (config (snd (ccd_reset_config env CCD_RESET_UNLOCKED_ONLY s))) cap"
proof -
  have f: "CCD_RESET_UNLOCKED_ONLY AND CCD_RESET_UNLOCKED_ONLY \<noteq> 0" "CCD_RESET_UNLOCKED_ONLY AND CCD_RESET_FACTORY = 0"
    by (simp_all add: ccd_reset_defs)
  have r: "if_opened (raw_set_flag fl v c) = if_opened c" for fl v c by (rule if_opened_cong) simp
  have "if_opened (raw_reset_password (config s)) = if_opened (config s)" by (rule if_opened_cong) simp
  then show ?thesis
    using f assms by (simp add: ccd_reset_config_def Let_def r reset_unlocked_caps_keeps)
qed

lemma command_set_keeps:
  assumes "ccd_config_ok (config s)" "cap < 21" "if_opened (config s) cap" "ccd_state s \<noteq> CCD_STATE_OPENED"
  shows "if_opened (config (snd (command_ccd_set argv s))) cap"
proof -
  have l: "ccd_cap_from_name n \<le> 21" for n
    by (auto simp: ccd_cap_from_name_def CCD_CAP_COUNT_def split: option.split dest!: find_Some_iff [THEN iffD1])
  have u: "ccd_state s = CCD_STATE_UNLOCKED \<or> ccd_state s = CCD_STATE_LOCKED" using assms(4) by (cases "ccd_state s") simp_all
  have k: "if_opened (raw_set_cap c st (config s)) cap" if "c \<le> 21" "\<not> if_opened (config s) c" for c st
    using that assms(1-3) by (auto simp: if_opened_def raw_get_set_cap)
  show ?thesis
    using u l [of "argv ! 1"] assms(3) k
    by (auto simp: command_ccd_set_def ccd_set_cap_def Let_def if_opened_def [symmetric] split: option.split)
qed

lemma command_set_ok: "ccd_config_ok (config s) \<Longrightarrow> ccd_config_ok (config (snd (command_ccd_set argv s)))"
  by (simp add: command_ccd_set_def ccd_set_cap_def Let_def split: option.split)

lemma wrapper_config:
  "capabilities (config (snd (ccd_command_wrapper env argc pw sub s))) = capabilities (config s)"
  "ccd_env_ok env \<Longrightarrow> ccd_config_ok (config s) \<Longrightarrow> ccd_config_ok (config (snd (ccd_command_wrapper env argc pw sub s)))"
  using wrapper_result [of env argc pw sub s] vendor_config by (metis (no_types, lifting))+

lemma testlab_config: "config (snd (command_ccd_testlab env argv s)) = config s"
  by (simp add: command_ccd_testlab_def case_prod_unfold split: option.split)

lemma command_reset_keeps:
  assumes "ccd_config_ok (config s)" "cap < 21" "if_opened (config s) cap" "ccd_state s \<noteq> CCD_STATE_OPENED"
  shows "if_opened (config (snd (command_ccd_reset env argv s))) cap"
  using reset_unlocked_keeps [OF assms(1-3), of env] assms(3,4)
  by (simp add: command_ccd_reset_def Let_def split: option.split ccd_state_t.split)

lemma command_reset_ok: "ccd_config_ok (config s) \<Longrightarrow> ccd_config_ok (config (snd (command_ccd_reset env argv s)))"
  by (simp add: command_ccd_reset_def Let_def reset_config_ok split: option.split ccd_state_t.split)

lemma console_config:
  "ccd_env_ok env \<Longrightarrow> ccd_config_ok (config s) \<Longrightarrow> ccd_config_ok (config (snd (command_ccd env argv s)))"
  "ccd_config_ok (config s) \<Longrightarrow> cap < 21 \<Longrightarrow> if_opened (config s) cap \<Longrightarrow> ccd_state s \<noteq> CCD_STATE_OPENED \<Longrightarrow>
     if_opened (config (snd (command_ccd env argv s))) cap"
proof -
  have w: "if_opened (config (snd (ccd_command_wrapper env argc pw sub s))) = if_opened (config s)" for argc pw sub s
    by (rule if_opened_cong) (rule wrapper_config)
  show "ccd_env_ok env \<Longrightarrow> ccd_config_ok (config s) \<Longrightarrow> ccd_config_ok (config (snd (command_ccd env argv s)))"
    by (simp add: command_ccd_def command_ccd_body_def case_prod_unfold Let_def console_code_def wrapper_config testlab_config
        command_set_ok command_reset_ok)
  show "ccd_config_ok (config s) \<Longrightarrow> cap < 21 \<Longrightarrow> if_opened (config s) cap \<Longrightarrow> ccd_state s \<noteq> CCD_STATE_OPENED \<Longrightarrow>
      if_opened (config (snd (command_ccd env argv s))) cap"
    by (simp add: command_ccd_def command_ccd_body_def case_prod_unfold Let_def console_code_def w testlab_config
        command_set_keeps command_reset_keeps)
qed

lemma set_flag_config:
  "capabilities (config (snd (ccd_set_flag flag v s))) = capabilities (config s)"
  "ccd_config_ok (config s) \<Longrightarrow> ccd_config_ok (config (snd (ccd_set_flag flag v s)))"
  by (simp_all add: ccd_set_flag_def)

lemma console_wp_config:
  "capabilities (config (snd (command_wp env g argv s))) = capabilities (config s)"
  "ccd_config_ok (config s) \<Longrightarrow> ccd_config_ok (config (snd (command_wp env g argv s)))"
  "capabilities (config (snd (command_bpforce env argv s))) = capabilities (config s)"
  "ccd_config_ok (config s) \<Longrightarrow> ccd_config_ok (config (snd (command_bpforce env argv s)))"
  by (simp_all add: command_wp_def command_bpforce_def Let_def case_prod_unfold set_flag_config split: option.split)

lemma detect_done_config:
  "capabilities (config (ccd_detect_done env s)) = capabilities (config s)"
  "ccd_config_ok (config s) \<Longrightarrow> ccd_config_ok (config (ccd_detect_done env s))"
  by (simp_all add: ccd_detect_done_def run_callback_def ccd_testlab_toggle_def Let_def case_prod_unfold
      split: option.split ccd_callback.split)

lemma disable_factory_config:
  "ccd_config_ok (config s) \<Longrightarrow> ccd_config_ok (config (snd (snd (ccd_disable_factory_mode env p s))))"
  "\<not> factory_exit_allowed env s \<Longrightarrow> config (snd (snd (ccd_disable_factory_mode env p s))) = config s"
  by (auto simp: ccd_disable_factory_mode_def factory_exit_allowed_def Let_def case_prod_unfold command_reset_ok)

lemma factory_deferred_config:
  "ccd_config_ok (config s) \<Longrightarrow> ccd_config_ok (config (factory_enable_deferred env s))"
  "env_wipe_request env \<noteq> EC_SUCCESS \<Longrightarrow> config (factory_enable_deferred env s) = config s"
proof -
  have e: "env_wipe_request env \<noteq> EC_SUCCESS \<Longrightarrow> fst (board_wipe_tpm env r s) \<noteq> EC_SUCCESS" for r s
    by (simp add: board_wipe_tpm_def Let_def)
  show "ccd_config_ok (config s) \<Longrightarrow> ccd_config_ok (config (factory_enable_deferred env s))"
    by (simp add: factory_enable_deferred_def Let_def case_prod_unfold reset_config_ok)
  show "env_wipe_request env \<noteq> EC_SUCCESS \<Longrightarrow> config (factory_enable_deferred env s) = config s"
    by (simp add: factory_enable_deferred_def Let_def case_prod_unfold e)
qed

lemma small_commands_config:
  "config (snd (snd (vc_factory_reset env p s))) = config s" "config (snd (snd (vc_set_wp p s))) = config s"
  by (simp_all add: vc_factory_reset_def vc_set_wp_def Let_def)

lemma route_config:
  assumes "extension_route_command (ccd_commands env) mm p s = (rc, q, s')"
  shows "ccd_env_ok env \<Longrightarrow> ccd_config_ok (config s) \<Longrightarrow> ccd_config_ok (config s')"
    "capabilities (config s') = capabilities (config s) \<or> (vc_code p = VENDOR_CC_DISABLE_FACTORY \<and> factory_exit_allowed env s)"
proof -
  have "(ccd_env_ok env \<longrightarrow> ccd_config_ok (config s) \<longrightarrow> ccd_config_ok (config s')) \<and>
    (capabilities (config s') = capabilities (config s) \<or> (vc_code p = VENDOR_CC_DISABLE_FACTORY \<and> factory_exit_allowed env s))"
    using assms
  proof (cases rule: route_cases)
    case ccd
    then show ?thesis using vendor_config [OF ccd(2)] by simp
  next
    case disable_factory
    then have "s' = snd (snd (ccd_disable_factory_mode env p s))" by simp
    then show ?thesis using disable_factory_config disable_factory(1) by (cases "factory_exit_allowed env s") simp_all
  next
    case factory
    then have "s' = snd (snd (vc_factory_reset env p s))" by simp
    then show ?thesis by (simp add: small_commands_config)
  next
    case wp
    then have "s' = snd (snd (vc_set_wp p s))" by simp
    then show ?thesis by (simp add: small_commands_config)
  qed simp
  then show "ccd_env_ok env \<Longrightarrow> ccd_config_ok (config s) \<Longrightarrow> ccd_config_ok (config s')"
    "capabilities (config s') = capabilities (config s) \<or> (vc_code p = VENDOR_CC_DISABLE_FACTORY \<and> factory_exit_allowed env s)"
    by simp_all
qed

section \<open>The terminator of a password\<close>

lemma open_done_overrun [simp]: "buffer_overrun (ccd_open_done env sync s) = buffer_overrun s"
  by (auto simp: ccd_open_done_def Let_def case_prod_unfold)

lemma start_presence_overrun [simp]: "buffer_overrun (snd (snd (start_presence env l cb p s))) = buffer_overrun s"
  by (simp add: start_presence_def case_prod_unfold)

lemma ccd_open_overrun:
  assumes "raw_has_password (config s)" "\<not> force_disabled s" "ccd_state s \<noteq> CCD_STATE_OPENED" "board_fwmp_allows_unlock env"
    "vc_in_size p \<noteq> 0"
  shows "buffer_overrun (snd (snd (ccd_open env p s))) = buffer_overrun (snd (terminate_input p s))"
  using assms by (simp add: ccd_open_def ccd_open_allowed_def case_prod_unfold Let_def)

lemma wrapper_open:
  assumes "cstr pw \<noteq> []" "length (cstr pw) \<le> 40" "\<not> env_board_id_mismatched env"
  shows "snd (ccd_command_wrapper env 2 pw 1 s) = snd (snd (ccd_open env (shifted (console_params (cstr pw) 1)) s))"
proof -
  have "console_password 2 pw = cstr pw" by (simp add: console_password_def)
  then have "snd (ccd_command_wrapper env 2 pw 1 s) = snd (snd (ccd_vendor env (console_params (cstr pw) 1) s))"
    using wrapper_route [of 2 pw env 1 s] assms(2,3) by simp
  also have "\<dots> = snd (snd (ccd_open env (shifted (console_params (cstr pw) 1)) s))"
    by (simp add: ccd_vendor_def console_params_def ccd_subcommand_def shifted_def case_prod_unfold Let_def)
  finally show ?thesis .
qed

lemma shifted_console:
  assumes "length pw \<le> 40"
  shows "unat (vc_in_size (shifted (console_params pw sub))) = length pw" "length (vc_buffer (shifted (console_params pw sub))) = 40"
  using assms unat_of_length [OF assms] by (simp_all add: shifted_def console_params_def CCD_MAX_PASSWORD_SIZE_def)

end
