(* ===== verification/Ccd_Properties.thy ===== *)
theory Ccd_Properties
  imports Ccd_Security
begin

text \<open>
  The properties of case closed debugging, with a concrete device on which each applies: a locked chip with the default
  configuration and no password, whose battery has been removed.
\<close>

section \<open>A concrete device\<close>

definition ccd_example_env :: ccd_env where
  "ccd_example_env =
     \<lparr>env_sha256 = (\<lambda>m. take 32 (m @ replicate 32 0)), env_sha_ok = True, env_rand = [1, 2, 3, 4], env_rand_ok = True,
      env_unique_id = [9, 9], env_now = 10000000, env_batt_pres_l = True, env_fwmp = TPM_READ_NOT_FOUND,
      env_fwmp_wiped = TPM_READ_NOT_FOUND, env_firmware = TPM_READ_NOT_FOUND, env_first_factory_boot = False,
      env_hibernate_resume = False, env_rollback_detected = False, env_board_id_mismatched = False,
      env_sync_reset = EC_SUCCESS, env_wipe_request = EC_SUCCESS\<rparr>"

definition ccd_example :: ccd_sys where
  "ccd_example =
     \<lparr>ccd_state = CCD_STATE_LOCKED, config = zero_config\<lparr>cfg_version := CCD_CONFIG_VERSION\<rparr>, ccd_config_loaded = True,
      force_disabled = False, ccd_console_active = False, last_password_time = 0, bp_connect = False, bp_forced = False,
      long_life_scratch1 = 0, ec_wp_l = False, wait_for_factory_ccd_change = False, reset_required = False,
      factory_enable_pending = False, force_reset_pending = False, ccd_nv = nv_example, ccd_pp = pp_initial,
      ccd_events = [], buffer_overrun = False\<rparr>"

text \<open>The command to open, from the AP, without a password.\<close>

definition open_command :: vendor_cmd_params where
  "open_command = \<lparr>vc_code = VENDOR_CC_CCD, vc_buffer = 1 # replicate 40 0, vc_in_size = 1, vc_out_size = 41, vc_flags = 0\<rparr>"

lemma example_env_ok: "ccd_env_ok ccd_example_env" "sha_ok ccd_example_env"
  by (auto simp: ccd_env_ok_def sha_ok_def ccd_example_env_def min_def)

lemma example_config_ok: "ccd_config_ok (config ccd_example)"
  by (simp add: ccd_example_def)

section \<open>Properties\<close>

text \<open>(C2) The device opens only in four ways: on a request, from the AP, USB or the console, that carries the right password or,
  where none is set, comes with the battery removed or from the AP in developer mode, if the FWMP allow it, CCD is not
  disabled, physical presence is waived by the capabilities and the TPM has been wiped (or that is waived); at
  the end of a completed physical presence check that was started for it, with the TPM wiped; in test
  lab mode, on the console; and when leaving factory mode fails to save the configuration.\<close>

theorem opening_is_authorised:
  assumes "ccd_step env i s s'" and "sha_ok env" and "ccd_config_ok (config s)"
    and "ccd_state s \<noteq> CCD_STATE_OPENED" and "ccd_state s' = CCD_STATE_OPENED"
  shows "(\<exists>flags pw. open_request i = Some (flags, pw) \<and> open_authorised env flags pw s \<and> presence_waived env s \<and>
      wiped_or_waived (env_sync_reset env) s) \<or>
    (i = InDone \<and> presence_shown CB_open_done_async s \<and> wiped_or_waived (env_wipe_request env) s) \<or>
    (\<exists>argv. i = InConsole argv \<and> ccd_get_flag s CCD_FLAG_TEST_LAB \<and> \<not> force_disabled s) \<or>
    (\<exists>p. i = InVendor p \<and> vc_code p = VENDOR_CC_DISABLE_FACTORY \<and> factory_exit_allowed env s \<and>
      fst (ccd_reset_config env 0 (ccd_set_state CCD_STATE_OPENED s)) \<noteq> EC_SUCCESS)"
  using assms(1)
proof cases
  case (vendor p rc q)
  then show ?thesis using route_opens [OF vendor(2) assms(2-5)] by blast
next
  case (console argv)
  then have "command_ccd env argv s = (fst (command_ccd env argv s), s')" by simp
  from console_opens [OF this assms(2-5)] show ?thesis using console(1) by blast
next
  case (finish t)
  then show ?thesis
    using detect_done_opens [of "s\<lparr>ccd_pp := (ccd_pp s)\<lparr>pp_done_at := None\<rparr>\<rparr>" env] assms(4,5)
    by (simp add: presence_shown_def pp_detect_in_progress_def)
qed (use assms(4,5) in \<open>simp_all add: ccd_disable_def force_system_reset_def\<close>)


lemma example_opens:
  "ccd_step ccd_example_env (InVendor open_command) ccd_example
     (snd (snd (extension_route_command (ccd_commands ccd_example_env) False open_command ccd_example)))"
  using vendor_step [of ccd_example_env open_command ccd_example] by (simp add: ccd_example_env_def)

theorem opening_is_authorised_witness:
  "open_authorised ccd_example_env 0 [] ccd_example \<and> presence_waived ccd_example_env ccd_example"
proof -
  have o: "ccd_state (snd (snd (extension_route_command (ccd_commands ccd_example_env) False open_command ccd_example)))
      = CCD_STATE_OPENED" by code_simp
  have l: "ccd_state ccd_example \<noteq> CCD_STATE_OPENED" by (simp add: ccd_example_def)
  have r: "open_request (InVendor open_command) = Some (0, [])" by code_simp
  show ?thesis
    using opening_is_authorised [OF example_opens example_env_ok(2) example_config_ok l o] r
    by (simp add: open_command_def VENDOR_CC_DISABLE_FACTORY_def VENDOR_CC_CCD_def)
qed

text \<open>(C5) A physical presence check whose end opens the device is started only by a request that is authorised to open
  it.\<close>

theorem presence_check_is_authorised:
  assumes "ccd_step env i s s'" and "sha_ok env" and "ccd_config_ok (config s)"
    and "pp_detect_callback (ccd_pp s) \<noteq> Some CB_open_done_async" and "pp_detect_callback (ccd_pp s') = Some CB_open_done_async"
  shows "\<exists>flags pw. open_request i = Some (flags, pw) \<and> open_authorised env flags pw s"
  using assms(1)
proof cases
  case (vendor p rc q)
  then show ?thesis using route_registers [OF vendor(2) assms(2-5)] by simp
next
  case (console argv)
  then have "command_ccd env argv s = (fst (command_ccd env argv s), s')" by simp
  from console_registers [OF this assms(2-5)] show ?thesis using console(1) by simp
qed (use assms(4,5) in \<open>simp_all add: ccd_disable_def force_system_reset_def physical_detect_prompt_def\<close>)

text \<open>With the battery in place, the capability that waives the dev mode and the one that admits USB, the same
  command starts the long presence check.\<close>

definition ccd_example_open_caps :: ccd_sys where
  "ccd_example_open_caps = ccd_example\<lparr>config :=
     raw_set_cap CCD_CAP_OPEN_WITHOUT_DEV_MODE CCD_CAP_STATE_ALWAYS (config ccd_example)\<rparr>"

definition ccd_battery_env :: ccd_env where
  "ccd_battery_env = ccd_example_env\<lparr>env_batt_pres_l := False\<rparr>"

theorem presence_check_is_authorised_witness:
  "open_authorised ccd_battery_env 0 [] ccd_example_open_caps"
proof -
  have s: "ccd_step ccd_battery_env (InVendor open_command) ccd_example_open_caps
      (snd (snd (extension_route_command (ccd_commands ccd_battery_env) False open_command ccd_example_open_caps)))"
    using vendor_step [of ccd_battery_env open_command ccd_example_open_caps]
    by (simp add: ccd_battery_env_def ccd_example_env_def)
  have h: "sha_ok ccd_battery_env" using example_env_ok(2) by (simp add: ccd_battery_env_def sha_ok_def)
  have c: "ccd_config_ok (config ccd_example_open_caps)" by (simp add: ccd_example_open_caps_def example_config_ok)
  have n: "pp_detect_callback (ccd_pp ccd_example_open_caps) \<noteq> Some CB_open_done_async"
    by (simp add: ccd_example_open_caps_def ccd_example_def pp_initial_def)
  have o: "pp_detect_callback (ccd_pp (snd (snd (extension_route_command (ccd_commands ccd_battery_env) False open_command
      ccd_example_open_caps)))) = Some CB_open_done_async" by code_simp
  have r: "open_request (InVendor open_command) = Some (0, [])" by code_simp
  show ?thesis using presence_check_is_authorised [OF s h c n o] r by simp
qed

text \<open>(C26) \<open>ccd_disable\<close> holds until the next reboot: whatever happens, every capability and every flag stay off and the
  console stays restricted.\<close>

theorem disabled_stays_disabled:
  assumes "ccd_run (ccd_disable s) s'"
  shows "force_disabled s' \<and> \<not> ccd_is_cap_enabled s' cap \<and> \<not> ccd_get_flag s' flag \<and> console_is_restricted s'"
proof -
  have "force_disabled s'" using assms
    by (induction "ccd_disable s" s' rule: ccd_run.induct) (auto simp: ccd_disable_def dest: step_keeps_disabled)
  then show ?thesis by (simp add: ccd_is_cap_enabled_def ccd_get_flag_def console_is_restricted_def)
qed

theorem disabled_stays_disabled_witness:
  "console_is_restricted (ccd_disable ccd_example) \<and> force_disabled (ccd_disable ccd_example)"
  using disabled_stays_disabled [OF ccd_run.run_refl, of ccd_example] by simp

text \<open>(C38) Yet a presence check that is under way when CCD is disabled is not aborted: its callback wipes the TPM and puts the
  device in the opened state, in which the console may reset the configuration to the factory one.\<close>

theorem disabled_device_opens:
  assumes "presence_shown CB_open_done_async s" and "env_wipe_request env = EC_SUCCESS"
  shows "ccd_state (ccd_detect_done env (ccd_disable s)) = CCD_STATE_OPENED \<and>
    force_disabled (ccd_detect_done env (ccd_disable s)) \<and>
    command_ccd_reset env [c_string ''reset'', c_string ''factory''] (ccd_detect_done env (ccd_disable s))
      = ccd_reset_config env CCD_RESET_FACTORY (ccd_detect_done env (ccd_disable s))"
proof -
  have "physical_detect_done_begin (ccd_pp (ccd_disable s))
      = (Some CB_open_done_async, snd (physical_detect_done_begin (ccd_pp s)))"
    using assms(1) by (simp add: presence_shown_def physical_detect_done_begin_def ccd_disable_def not_less Let_def)
  then have o: "ccd_state (ccd_detect_done env (ccd_disable s)) = CCD_STATE_OPENED"
    using assms(2) by (simp add: ccd_detect_done_def run_callback_def ccd_open_done_cases wiped_or_waived_def Let_def)
  have f: "strcasecmp (c_string ''factory'') (c_string ''factory'') = 0" by (simp add: strcasecmp_eq_0)
  show ?thesis using o f by (simp add: detect_done_keeps ccd_disable_def command_ccd_reset_def)
qed

definition ccd_example_pressed :: ccd_sys where
  "ccd_example_pressed = ccd_example\<lparr>ccd_pp := pp_initial\<lparr>pp_detect_state := PP_DETECT_BETWEEN_PRESSES,
     pp_detect_callback := Some CB_open_done_async, pp_press_count := 9, pp_press_count_needed := 9\<rparr>\<rparr>"

theorem disabled_device_opens_witness:
  "ccd_state (ccd_detect_done ccd_example_env (ccd_disable ccd_example_pressed)) = CCD_STATE_OPENED"
  using disabled_device_opens [of ccd_example_pressed ccd_example_env]
  by (simp add: presence_shown_def ccd_example_pressed_def pp_detect_in_progress_def ccd_example_env_def)

text \<open>(C25) The firmware management parameters keep write protect on: \<open>init_wp_state\<close> establishes, and every step
  keeps, that write protect is asserted as long as the board property that they set is there; and where they forbid
  CCD unlock at start-up, the property is set.\<close>

theorem fwmp_keeps_write_protect:
  assumes "ccd_run (init_wp_state env s) s'"
  shows "(board_fwmp_force_wp_en s' \<longrightarrow> wp_is_asserted s') \<and>
    (\<not> board_fwmp_allows_unlock env \<longrightarrow> board_fwmp_force_wp_en (init_wp_state env s))"
proof
  have "fwmp_wp_inv (init_wp_state env s)" by (simp add: init_wp_state_def Let_def)
  with assms have "fwmp_wp_inv s'"
    by (induction "init_wp_state env s" s' rule: ccd_run.induct) (auto dest: step_keeps_wp)
  then show "board_fwmp_force_wp_en s' \<longrightarrow> wp_is_asserted s'" by (simp add: fwmp_wp_inv_def)
  have "\<not> board_fwmp_allows_unlock env \<Longrightarrow> board_fwmp_force_wp_en (snd (board_fwmp_check_wp_policy env (set_bp_follow_ccd_config s)))"
    by (rule policy_forces)
  then show "\<not> board_fwmp_allows_unlock env \<longrightarrow> board_fwmp_force_wp_en (init_wp_state env s)"
    by (simp add: init_wp_state_def Let_def)
qed

definition ccd_locked_env :: ccd_env where
  "ccd_locked_env = ccd_example_env\<lparr>env_fwmp := TPM_READ_TOO_SMALL\<rparr>"

theorem fwmp_keeps_write_protect_witness:
  "board_fwmp_force_wp_en (init_wp_state ccd_locked_env ccd_example) \<and> wp_is_asserted (init_wp_state ccd_locked_env ccd_example)"
  using fwmp_keeps_write_protect [OF ccd_run.run_refl, of ccd_locked_env ccd_example]
  by (simp add: ccd_locked_env_def board_fwmp_allows_unlock_def fwmp_allows_def)

text \<open>Every step keeps the configuration well formed, given that the random source fills the salt and the hash has 32
  bytes: the properties that assume a well formed configuration hold along every run.\<close>

lemma step_keeps_config_ok:
  assumes "ccd_step env i s s'" and "ccd_env_ok env" and "ccd_config_ok (config s)"
  shows "ccd_config_ok (config s')"
  using assms(1)
proof cases
  case (vendor p rc q)
  then show ?thesis using route_config(1) assms(2,3) by blast
qed (use assms(2,3) in \<open>simp_all add: console_config console_wp_config detect_done_config ccd_disable_def
    factory_deferred_config force_system_reset_def set_flag_config\<close>)

text \<open>(C24) A capability that needs an opened device is not weakened while the device is not open: every step keeps
  it, but for the entry to factory mode, after a successful wipe of the TPM, and the exit from it.\<close>

theorem only_opened_weakens_capabilities:
  assumes "ccd_step env i s s'" and "ccd_config_ok (config s)" and "ccd_state s \<noteq> CCD_STATE_OPENED" and "cap < CCD_CAP_COUNT"
    and "raw_get_cap (config s) cap True = CCD_CAP_STATE_IF_OPENED"
  shows "raw_get_cap (config s') cap True = CCD_CAP_STATE_IF_OPENED \<or>
    (i = InFactoryDeferred \<and> factory_enable_pending s \<and> env_wipe_request env = EC_SUCCESS) \<or>
    (\<exists>p. i = InVendor p \<and> vc_code p = VENDOR_CC_DISABLE_FACTORY \<and> factory_exit_allowed env s)"
proof -
  have o: "if_opened (config s) cap" and c: "cap < 21" using assms(4,5) by (simp_all add: if_opened_def CCD_CAP_COUNT_def)
  have k: "capabilities (config t) = capabilities (config s) \<Longrightarrow> if_opened (config t) cap" for t
    using o if_opened_cong [of "config t" "config s"] by simp
  have "if_opened (config s') cap \<or>
    (i = InFactoryDeferred \<and> factory_enable_pending s \<and> env_wipe_request env = EC_SUCCESS) \<or>
    (\<exists>p. i = InVendor p \<and> vc_code p = VENDOR_CC_DISABLE_FACTORY \<and> factory_exit_allowed env s)"
    using assms(1)
  proof cases
    case (vendor p rc q)
    then show ?thesis using route_config(2) [OF vendor(2)] k by blast
  next
    case (console argv)
    then show ?thesis using console_config(2) [OF assms(2) c o assms(3)] by simp
  next
    case factory_deferred
    then show ?thesis using factory_deferred_config(2) [of env s] k by (cases "env_wipe_request env = EC_SUCCESS") (simp_all add: o)
  qed (simp_all add: k console_wp_config detect_done_config ccd_disable_def force_system_reset_def set_flag_config o)
  then show ?thesis by (simp add: if_opened_def)
qed

theorem only_opened_weakens_capabilities_witness:
  "raw_get_cap (config (snd (command_ccd ccd_example_env [c_string ''ccd'', c_string ''set'', c_string ''FlashAP'', c_string ''Always'']
     ccd_example))) 4 True = CCD_CAP_STATE_IF_OPENED"
proof -
  have l: "ccd_state ccd_example \<noteq> CCD_STATE_OPENED" by (simp add: ccd_example_def)
  have c: "4 < CCD_CAP_COUNT" by (simp add: CCD_CAP_COUNT_def)
  have o: "raw_get_cap (config ccd_example) 4 True = CCD_CAP_STATE_IF_OPENED" by code_simp
  show ?thesis using only_opened_weakens_capabilities [OF ccd_step.console example_config_ok l c o] by simp
qed

text \<open>The packed capabilities and flags are a map: setting one capability changes no other capability, no flag and no password,
  and reads back; setting a flag changes that flag only.\<close>

theorem config_accessors:
  assumes "ccd_config_ok c" and "cap < CCD_CAP_COUNT" and "cap' < CCD_CAP_COUNT" and "n < 24" and "m < 24"
  shows "raw_get_cap (raw_set_cap cap st c) cap' False = (if cap' = cap then st else raw_get_cap c cap' False) \<and>
    raw_get_flags (raw_set_cap cap st c) = raw_get_flags c \<and>
    bit (raw_get_flags (raw_set_flag (push_bit n 1) v c)) m = (if m = n then v else bit (raw_get_flags c) m) \<and>
    raw_get_cap (raw_set_flag (push_bit n 1) v c) = raw_get_cap c \<and>
    raw_has_password (raw_set_cap cap st c) = raw_has_password c \<and>
    raw_has_password (raw_set_flag (push_bit n 1) v c) = raw_has_password c"
proof -
  have l: "length (cfg_flags c) = 3" "cap < 32" "cap' < 32" using assms by (simp_all add: ccd_config_ok_def CCD_CAP_COUNT_def)
  have "raw_get_flags (raw_set_cap cap st c) = raw_get_flags c" by (simp add: raw_get_flags_def)
  moreover have "bit (raw_get_flags (raw_set_flag (push_bit n 1) v c)) m = (if m = n then v else bit (raw_get_flags c) m)"
    using assms(4,5) by (simp add: raw_get_set_flag [OF l(1)] bit_or_iff bit_and_iff bit_not_iff bit_flag bit_mask_iff del: push_bit_of_1)
  ultimately show ?thesis using raw_get_set_cap_raw [OF assms(1) l(2,3), of st] by auto
qed

theorem config_accessors_witness:
  "raw_get_cap (raw_set_cap 9 CCD_CAP_STATE_UNLESS_LOCKED zero_config) 9 False = CCD_CAP_STATE_UNLESS_LOCKED"
  using config_accessors [OF zero_config_ok, of 9 9 0 0] by (simp add: CCD_CAP_COUNT_def)

text \<open>A saved configuration is the one the chip starts with after the next reset.\<close>

theorem config_survives_restart:
  assumes "nv_ready (ccd_nv s)" and "ccd_config_ok (config s)" and "cfg_version (config s) = CCD_CONFIG_VERSION"
    and "ccd_save_config s = (EC_SUCCESS, s1)" and "\<not> nv_reset (ccd_nv s1)"
    and "ccd_nv boot = ccd_nv s1" and "\<not> ccd_config_loaded boot" and "ccd_config_ok (config boot)"
  shows "config (ccd_config_init env st boot) = config s \<and> ccd_config_loaded (ccd_config_init env st boot) \<and>
    ccd_nv (ccd_config_init env st boot) = ccd_nv s1"
proof -
  have b: "bounded_var k_ccd_config (config_bytes (config s))"
    using length_config_bytes [OF assms(2)] by (simp add: bounded_var_def k_ccd_config_def)
  have e: "config_bytes (config s) \<noteq> []" by (simp add: config_bytes_def)
  have u: "setvar (ccd_nv s) k_ccd_config (config_bytes (config s)) = (EC_SUCCESS, ccd_nv s1)"
    using fst_save_config [of s] save_config_nv [of s] assms(4) by (simp add: prod_eq_iff)
  have g: "getvar (ccd_nv boot) k_ccd_config = Some (config_bytes (config s))"
    using nv.read_back [OF assms(1) b e u assms(5)] assms(6) by simp
  have l: "blit (config_bytes (config boot)) 0 (take CCD_CONFIG_SIZE (config_bytes (config s))) = config_bytes (config s)"
    using length_config_bytes [OF assms(2)] length_config_bytes [OF assms(8)] by (simp add: blit_def CCD_CONFIG_SIZE_def)
  show ?thesis
    using g l length_config_bytes [OF assms(2)] assms(3,6,7)
    by (simp add: ccd_config_init_def ccd_load_config_def Let_def config_of_bytes_inverse [OF assms(2)] CCD_CONFIG_SIZE_def)
qed

definition ccd_example_boot :: ccd_sys where
  "ccd_example_boot = ccd_example\<lparr>ccd_nv := ccd_nv (snd (ccd_save_config ccd_example)), ccd_config_loaded := False,
     config := zero_config\<rparr>"

theorem config_survives_restart_witness:
  "config (ccd_config_init ccd_example_env 0 ccd_example_boot) = config ccd_example"
proof -
  have n: "ccd_nv ccd_example = nv_example" by (simp add: ccd_example_def)
  have v: "cfg_version (config ccd_example) = CCD_CONFIG_VERSION" by (simp add: ccd_example_def)
  have r: "fst (ccd_save_config ccd_example) = EC_SUCCESS" by code_simp
  have z: "\<not> nv_reset (ccd_nv (snd (ccd_save_config ccd_example)))" by code_simp
  have p: "ccd_save_config ccd_example = (EC_SUCCESS, snd (ccd_save_config ccd_example))" using r by (metis prod.collapse)
  show ?thesis
    using config_survives_restart [OF nv_example_ready [folded n] example_config_ok v p z, of ccd_example_boot]
    by (simp add: ccd_example_boot_def)
qed

text \<open>A password set with \<open>ccd_password\<close> protects the device: later checks, on the same chip, accept a string exactly when three
  seconds have passed since the last attempt, the hash engine is free and the salted hash of the string is that of
  the password; in particular the password itself is accepted.\<close>

theorem password_protects:
  assumes "ccd_password env p s = (VENDOR_RC_SUCCESS, q, s')" and "ccd_env_ok env" and "ccd_config_ok (config s)"
    and "\<not> raw_has_password (config s)" and "raw_has_password (config s')"
    and "config t = config s'" and "env_sha256 env' = env_sha256 env" and "env_unique_id env' = env_unique_id env"
  shows "fst (raw_check_password env' str t) = EC_SUCCESS \<longleftrightarrow>
    env_sha_ok env' \<and> PASSWORD_RATE_LIMIT_US \<le> ucast (env_now env') - last_password_time t \<and>
    password_hash env (config s') (cstr str) = password_hash env (config s') (cstr (take (unat (vc_in_size p)) (vc_buffer p)))"
proof -
  define inp where "inp = take (unat (vc_in_size p)) (vc_buffer p) @ [0]"
  have d: "do_ccd_password env inp s = (EC_SUCCESS, s')"
    using assms(1) by (auto simp: ccd_password_def inp_def split: if_splits prod.splits)
  have r: "fst (raw_set_password env inp s) = EC_SUCCESS" and s': "config s' = config (snd (raw_set_password env inp s))"
    using d assms(4) by (auto simp: do_ccd_password_def ccd_set_password_def split: if_splits prod.splits
        dest: arg_cong [of _ _ "\<lambda>r. config (snd r)"])
  have h: "password_digest (config s') = password_hash env (config s') (cstr inp)"
    using r unfolding s' by (auto simp: raw_set_password_def ccd_password_digest_def password_hash_def take_strlen Let_def split: if_splits)
  have c: "cstr inp = cstr (take (unat (vc_in_size p)) (vc_buffer p))"
    by (simp add: inp_def cstr_def takeWhile_tail)
  have ok: "ccd_config_ok (config t)" and sha: "sha_ok env'"
    using set_password_ok [OF assms(2,3)] s' assms(2,6,7) by (simp_all add: ccd_env_ok_def sha_ok_def)
  have ph: "password_hash env' (config t) = password_hash env (config s')"
    using assms(6-8) by (simp add: password_hash_def fun_eq_iff)
  show ?thesis
    using check_password_iff [OF sha ok, of str] assms(5,6) h c ph by (auto simp: password_accepted_def)
qed

text \<open>A device in the unlocked state and the command that sets the password \<open>ab\<close>.\<close>

definition ccd_example_unlocked :: ccd_sys where
  "ccd_example_unlocked = ccd_example\<lparr>ccd_state := CCD_STATE_UNLOCKED\<rparr>"

definition set_password_command :: vendor_cmd_params where
  "set_password_command =
     \<lparr>vc_code = VENDOR_CC_CCD, vc_buffer = [97, 98] @ replicate 39 0, vc_in_size = 2, vc_out_size = 0, vc_flags = 0\<rparr>"

theorem password_protects_witness:
  "fst (raw_check_password ccd_example_env (c_string ''ab'')
     (snd (snd (ccd_password ccd_example_env set_password_command ccd_example_unlocked)))) = EC_SUCCESS"
proof -
  let ?r = "ccd_password ccd_example_env set_password_command ccd_example_unlocked"
  have a: "fst ?r = VENDOR_RC_SUCCESS" by code_simp
  have r: "?r = (VENDOR_RC_SUCCESS, fst (snd ?r), snd (snd ?r))" using a by (metis prod.collapse)
  have c: "ccd_config_ok (config ccd_example_unlocked)" by (simp add: ccd_example_unlocked_def example_config_ok)
  have n: "\<not> raw_has_password (config ccd_example_unlocked)" by code_simp
  have h: "raw_has_password (config (snd (snd ?r)))" by code_simp
  have t: "env_sha_ok ccd_example_env \<and> PASSWORD_RATE_LIMIT_US \<le> ucast (env_now ccd_example_env) - last_password_time (snd (snd ?r))"
    by code_simp
  have s: "cstr (c_string ''ab'') = cstr (take (unat (vc_in_size set_password_command)) (vc_buffer set_password_command))"
    by code_simp
  show ?thesis
    using password_protects [OF r example_env_ok(1) c n h HOL.refl HOL.refl HOL.refl, of "c_string ''ab''"] t s by metis
qed

text \<open>(C39) \<open>ccd open\<close> on the console with a password of forty characters, which the console accepts, stores the terminator one byte
  behind the end of the command buffer on the stack; every shorter password stays inside it.\<close>

theorem console_open_overrun:
  assumes "raw_has_password (config s)" and "\<not> force_disabled s" and "ccd_state s \<noteq> CCD_STATE_OPENED"
    and "board_fwmp_allows_unlock env" and "\<not> env_board_id_mismatched env" and "\<not> buffer_overrun s"
    and "cstr pw \<noteq> []" and "length (cstr pw) \<le> CCD_MAX_PASSWORD_SIZE"
  shows "buffer_overrun (snd (ccd_command_wrapper env 2 pw 1 s)) \<longleftrightarrow> length (cstr pw) = CCD_MAX_PASSWORD_SIZE"
proof -
  have l: "length (cstr pw) \<le> 40" using assms(8) by (simp add: CCD_MAX_PASSWORD_SIZE_def)
  let ?q = "shifted (console_params (cstr pw) 1)"
  note n = shifted_console [OF l, of 1]
  have i: "vc_in_size ?q \<noteq> 0" using n(1) assms(7) by auto
  have m: "vc_in_size ?q \<noteq> - 1"
  proof
    assume "vc_in_size ?q = - 1"
    then have "unat (vc_in_size ?q) = 2 ^ 32 - 1" by (simp add: unsigned_minus_1_eq_mask mask_eq_exp_minus_1)
    then show False using n(1) l by simp
  qed
  have "buffer_overrun (snd (terminate_input ?q s)) \<longleftrightarrow> length (cstr pw) = 40"
    using n l m assms(6) by (simp add: terminate_input_def)
  then show ?thesis
    using wrapper_open [OF assms(7) l assms(5), of s] ccd_open_overrun [OF assms(1-4) i] by (simp add: CCD_MAX_PASSWORD_SIZE_def)
qed

definition ccd_example_password :: ccd_sys where
  "ccd_example_password = ccd_example\<lparr>config := (config ccd_example)\<lparr>password_salt := [1, 2, 3, 4]\<rparr>\<rparr>"

theorem console_open_overrun_witness:
  "buffer_overrun (snd (ccd_command_wrapper ccd_example_env 2 (replicate 40 97) 1 ccd_example_password))"
proof -
  have h: "raw_has_password (config ccd_example_password)" by code_simp
  have f: "board_fwmp_allows_unlock ccd_example_env"
    by (simp add: ccd_example_env_def board_fwmp_allows_unlock_def fwmp_allows_def)
  have c: "cstr (replicate 40 97) = replicate 40 97" by (simp add: cstr_def)
  show ?thesis
    using console_open_overrun [of ccd_example_password ccd_example_env "replicate 40 97"] h f c
    by (simp add: CCD_MAX_PASSWORD_SIZE_def ccd_example_password_def ccd_example_def ccd_example_env_def)
qed

end
