(* ===== verification/P256_Int.thy ===== *)
theory P256_Int
  imports Bignum
begin

text \<open>
  The 256-bit integers of \<open>src/board/cr50/dcrypto/p256.c\<close> and the selection of a private key from random bytes in
  \<open>src/board/cr50/dcrypto/p256_ec.c\<close>.  A \<open>p256_int\<close> is the list of its eight digits; its byte view \<open>b8\<close> is their
  little-endian layout.
\<close>

section \<open>Model\<close>

type_synonym p256_int = "u32 list"

definition SECP256r1_nMin2 :: p256_int where
  "SECP256r1_nMin2 = [0xfc632551 - 2, 0xf3b9cac2, 0xa7179e84, 0xbce6faad, - 1, - 1, 0, - 1]"

text \<open>The generator of blinding values; its state is passed along.\<close>

definition next_fast_random :: "u32 \<Rightarrow> u32" where
  "next_fast_random seed = push_bit 1 seed XOR (if 0 \<le>s seed then 0xC0000401 else 0)"

definition set_fast_random_seed :: "u32 \<Rightarrow> u32" where
  "set_fast_random_seed seed = (if next_fast_random seed = seed then seed + 1 else seed)"

definition fast_random :: "u32 \<Rightarrow> u32 \<times> u32" where
  "fast_random st = (next_fast_random st, next_fast_random st)"

definition p256_clear :: p256_int where "p256_clear = replicate 8 0"

definition p256_is_zero :: "p256_int \<Rightarrow> bool" where
  "p256_is_zero a \<longleftrightarrow> or_digits a = 0"

fun p256_add_d_loop :: "u64 \<Rightarrow> p256_int \<Rightarrow> p256_int \<times> u64" where
  "p256_add_d_loop carry [] = ([], carry)"
| "p256_add_d_loop carry (a # as) =
     (let carry1 = carry + ucast a
      in case p256_add_d_loop (drop_bit 32 carry1) as of (bs, c) \<Rightarrow> (ucast carry1 # bs, c))"

definition p256_add_d :: "p256_int \<Rightarrow> u32 \<Rightarrow> p256_int \<times> u32" where
  "p256_add_d a d = (case p256_add_d_loop (ucast d) a of (b, carry) \<Rightarrow> (b, ucast carry))"

fun lt_blinded_loop :: "u64 \<Rightarrow> u32 \<Rightarrow> p256_int \<Rightarrow> p256_int \<Rightarrow> u64 \<times> u32" where
  "lt_blinded_loop borrow st (a # as) (b # bs) =
     (case fast_random st of
        (blinder, st') \<Rightarrow>
          (let borrow1 = borrow + (ucast a - ucast blinder);
               borrow2 = borrow1 - ucast b;
               borrow3 = borrow2 + ucast blinder
           in lt_blinded_loop (signed_drop_bit 32 borrow3) st' as bs))"
| "lt_blinded_loop borrow st _ _ = (borrow, st)"

definition p256_lt_blinded :: "u32 \<Rightarrow> p256_int \<Rightarrow> p256_int \<Rightarrow> u32 \<times> u32" where
  "p256_lt_blinded st a b = (case lt_blinded_loop 0 st a b of (borrow, st') \<Rightarrow> (ucast borrow, st'))"

fun p256_cmp_loop :: "u64 \<Rightarrow> u32 \<Rightarrow> p256_int \<Rightarrow> p256_int \<Rightarrow> u64 \<times> u32" where
  "p256_cmp_loop borrow notzero (a # as) (b # bs) =
     (let borrow1 = borrow + (ucast a - ucast b)
      in p256_cmp_loop (signed_drop_bit 32 borrow1)
           (notzero OR (if (ucast borrow1 :: u32) \<noteq> 0 then 1 else 0)) as bs)"
| "p256_cmp_loop borrow notzero _ _ = (borrow, notzero)"

definition p256_cmp :: "p256_int \<Rightarrow> p256_int \<Rightarrow> u32" where
  "p256_cmp a b = (case p256_cmp_loop 0 0 a b of (borrow, notzero) \<Rightarrow> ucast borrow OR notzero)"

definition b8 :: "p256_int \<Rightarrow> bytes" where
  "b8 a = concat (map (to_le 4) a)"

fun of_b8 :: "bytes \<Rightarrow> p256_int" where
  "of_b8 (b0 # b1 # b2 # b3 # bs) = of_le [b0, b1, b2, b3] # of_b8 bs"
| "of_b8 _ = []"

definition p256_to_bin :: "p256_int \<Rightarrow> bytes" where "p256_to_bin src = rev (b8 src)"

definition p256_from_bin :: "bytes \<Rightarrow> p256_int" where "p256_from_bin src = of_b8 (rev src)"

fun skip_padding :: "bytes \<Rightarrow> bytes option" where
  "skip_padding [] = Some []"
| "skip_padding (b # src) = (if length (b # src) > 32 then if b \<noteq> 0 then None else skip_padding src else Some (b # src))"

definition p256_from_be_bin_size :: "bytes \<Rightarrow> p256_int option" where
  "p256_from_be_bin_size src =
     map_option (\<lambda>s. of_b8 (rev s @ replicate (32 - length s) 0)) (skip_padding src)"

definition p256_is_odd :: "p256_int \<Rightarrow> bool" where "p256_is_odd a \<longleftrightarrow> a ! 0 AND 1 \<noteq> 0"

text \<open>What the key selection calls: whether crypto is allowed, the multiplication of the base point by the
  accelerator, and the pairwise consistency test of a key.\<close>

record p256_env =
  fips_crypto_allowed :: bool
  p256_base_point_mul :: "p256_int \<Rightarrow> dcrypto_result \<times> p256_int \<times> p256_int"
  p256_key_pwct :: "p256_int \<Rightarrow> p256_int \<Rightarrow> p256_int \<Rightarrow> dcrypto_result"

text \<open>The result and, when they are computed, the public key and the private key.\<close>

definition DCRYPTO_p256_key_from_bytes ::
  "p256_env \<Rightarrow> u32 \<Rightarrow> bytes \<Rightarrow> dcrypto_result \<times> (p256_int \<times> p256_int \<times> p256_int) option" where
  "DCRYPTO_p256_key_from_bytes env st key_bytes =
     (if \<not> fips_crypto_allowed env then (DCRYPTO_FAIL, None)
      else
        (let key = p256_from_bin key_bytes
         in if 0 \<le>s fst (p256_lt_blinded st key SECP256r1_nMin2) then (DCRYPTO_RETRY, None)
            else
              (let d = fst (p256_add_d key 1)
               in case p256_base_point_mul env d of
                    (r, x, y) \<Rightarrow> if r \<noteq> DCRYPTO_OK then (DCRYPTO_FAIL, Some (x, y, d))
                                 else (p256_key_pwct env d x y, Some (x, y, d)))))"

section \<open>Arithmetic\<close>

lemma p256_add_d_loop_correct:
  assumes "p256_add_d_loop k as = (bs, r)" "unat k < radix"
  shows "num bs + radix ^ length as * unat r = num as + unat k \<and> length bs = length as \<and> unat r < radix"
  using assms
proof (induction as arbitrary: k bs)
  case (Cons a as)
  define k1 where "k1 = k + ucast a"
  have b: "unat k + unat a < 2 * radix" using Cons.prems(2) digit_less [of a] by linarith
  then have k1: "unat k1 = unat k + unat a" by (simp add: k1_def u64_add small_sum)
  obtain cs where cs: "p256_add_d_loop (drop_bit 32 k1) as = (cs, r)" "bs = ucast k1 # cs"
    using Cons.prems(1) by (auto simp: k1_def Let_def split: prod.splits)
  have "unat (drop_bit 32 k1) < radix"
    using acc_step [OF b [folded k1]] by (rule order.strict_trans2) (simp add: radix_def)
  note ih = Cons.IH [OF cs(1) this]
  from carry_chain [OF split_u64 ih [THEN conjunct1]] show ?case using k1 cs(2) ih by simp
qed simp

lemma p256_add_d_correct:
  assumes "p256_add_d a d = (b, c)"
  shows "num b + radix ^ length a * unat c = num a + unat d" "length b = length a"
proof -
  obtain k where k: "p256_add_d_loop (ucast d) a = (b, k)" "c = ucast k"
    using assms by (auto simp: p256_add_d_def split: prod.splits)
  note l = p256_add_d_loop_correct [OF k(1)]
  then show "num b + radix ^ length a * unat c = num a + unat d" "length b = length a"
    using k(2) by (simp_all add: small_u64_u32)
qed

lemma lt_blinded_loop_eq: "length as = length bs \<Longrightarrow>
  fst (lt_blinded_loop A st as bs) = snd (bn_sub_loop A as bs)"
proof (induction as bs arbitrary: A st rule: list_induct2)
  case (Cons a as b bs)
  have "A + (ucast a - ucast x) - ucast b + ucast x = A + (ucast a - ucast b)" for x :: u32 by simp
  then show ?case using Cons.IH by (simp add: fast_random_def Let_def split: prod.splits)
qed simp

lemma p256_lt_blinded_correct:
  assumes "length a = length b"
  shows "fst (p256_lt_blinded st a b) = (if num a < num b then - 1 else 0)"
proof -
  obtain d r where d: "bn_sub a b = (d, r)" by fastforce
  have "fst (p256_lt_blinded st a b) = r"
    using d lt_blinded_loop_eq [OF assms, of 0 st] by (auto simp: p256_lt_blinded_def bn_sub_def split: prod.splits)
  then show ?thesis using bn_sub_correct [OF d] assms by (simp add: not_less)
qed

lemma p256_cmp_loop_eq: "length as = length bs \<Longrightarrow>
  p256_cmp_loop A z as bs =
  (snd (bn_sub_loop A as bs), z OR (if num (fst (bn_sub_loop A as bs)) \<noteq> 0 then 1 else 0))"
proof (induction as bs arbitrary: A z rule: list_induct2)
  case (Cons a as b bs)
  show ?case using Cons.IH by (auto simp: Let_def or.assoc unat_eq_zero split: prod.splits)
qed simp

lemma p256_cmp_correct:
  assumes "length a = length b"
  shows "p256_cmp a b = (if num a < num b then - 1 else if num a = num b then 0 else 1)"
proof -
  obtain d r where d: "bn_sub a b = (d, r)" by fastforce
  obtain A where A: "bn_sub_loop 0 a b = (d, A)" "r = ucast A" using d by (auto simp: bn_sub_def split: prod.splits)
  have c: "p256_cmp a b = r OR (if num d \<noteq> 0 then 1 else 0)"
    using A by (simp add: p256_cmp_def p256_cmp_loop_eq [OF assms])
  note s = bn_sub_correct [OF d]
  show ?thesis
  proof (cases "num a < num b")
    case True
    then show ?thesis using s(3) assms c by simp
  next
    case False
    then show ?thesis using s(2) assms c by auto
  qed
qed

section \<open>Bytes\<close>

definition be_value :: "bytes \<Rightarrow> nat" where
  "be_value bs = foldl (\<lambda>v b. 256 * v + unat b) 0 bs"

lemma be_value_rev_Cons: "be_value (rev (b # bs)) = unat b + 256 * be_value (rev bs)"
  by (simp add: be_value_def)

lemma length_b8: "length (b8 a) = 4 * length a"
  by (induction a) (simp_all add: b8_def)

lemma of_b8_b8: "of_b8 (b8 a) = a"
proof (induction a)
  case (Cons d a)
  have "to_le 4 d = [ucast d, ucast (drop_bit 8 d), ucast (drop_bit 16 d), ucast (drop_bit 24 d)]"
    by (simp add: to_le_def upt_rec)
  moreover have "of_le (to_le 4 d) = d" by (rule of_le_to_le) simp
  ultimately show ?case using Cons by (simp add: b8_def)
qed (simp add: b8_def)

lemma b8_of_b8: "4 dvd length bs \<Longrightarrow> b8 (of_b8 bs) = bs"
proof (induction bs rule: of_b8.induct)
  case (1 b0 b1 b2 b3 bs)
  have "to_le 4 (of_le [b0, b1, b2, b3] :: u32) = [b0, b1, b2, b3]" by (rule to_le_of_le) simp_all
  moreover have "4 dvd length bs" using "1.prems" by (simp add: dvd_eq_mod_eq_0)
  ultimately show ?case using "1.IH" by (simp add: b8_def del: of_le.simps)
qed (auto simp: b8_def dest: dvd_imp_le)

lemma length_of_b8: "length (of_b8 bs) = length bs div 4"
  by (induction bs rule: of_b8.induct) simp_all

lemma unat_of_le_step:
  assumes "unat (w :: u32) < 2 ^ 24"
  shows "unat (ucast (b :: u8) OR push_bit 8 w) = unat b + 256 * unat w"
proof -
  have b: "unat b < 256" using unsigned_less [of b] by simp
  have "ucast b AND push_bit 8 w = 0"
    by (rule bit_word_eqI) (auto simp: bit_and_iff bit_ucast_iff bit_push_bit_iff dest: bit_imp_le_length [of b])
  then have "ucast b OR push_bit 8 w = ucast b + push_bit 8 w" by (simp only: disjunctive_add_eq_or)
  also have "\<dots> = ucast b + 256 * w" by (simp add: push_bit_eq_mult mult.commute)
  finally have "unat (ucast b OR push_bit 8 w) = (unat b + 256 * unat w) mod 2 ^ 32"
    by (simp add: unat_word_ariths mod_simps unsigned_ucast_eq take_bit_nat_eq_self b order.strict_trans2 [OF b])
  then show ?thesis using b assms by simp
qed

lemma unat_of_le4: "unat (of_le [b0, b1, b2, b3] :: u32) = unat b0 + 256 * (unat b1 + 256 * (unat b2 + 256 * unat b3))"
proof -
  have b: "unat (b :: u8) \<le> 255" for b using unsigned_less [of b, where 'a = nat] by simp
  have e3: "unat (of_le [b3] :: u32) = unat b3" using unat_of_le_step [of 0 b3] by simp
  have e2: "unat (of_le [b2, b3] :: u32) = unat b2 + 256 * unat b3"
    using unat_of_le_step [of "of_le [b3]" b2] b [of b3] unfolding e3 by simp
  have e1: "unat (of_le [b1, b2, b3] :: u32) = unat b1 + 256 * (unat b2 + 256 * unat b3)"
    using unat_of_le_step [of "of_le [b2, b3]" b1] b [of b2] b [of b3] unfolding e2 by simp
  show ?thesis
    using unat_of_le_step [of "of_le [b1, b2, b3]" b0] b [of b1] b [of b2] b [of b3] unfolding e1 by simp
qed

lemma num_of_b8: "4 dvd length bs \<Longrightarrow> num (of_b8 bs) = be_value (rev bs)"
proof (induction bs rule: of_b8.induct)
  case (1 b0 b1 b2 b3 bs)
  have "4 dvd length bs" using "1.prems" by (simp add: dvd_eq_mod_eq_0)
  then show ?case using "1.IH"
    by (simp add: be_value_rev_Cons unat_of_le4 radix_def del: of_le.simps rev.simps)
qed (auto simp: be_value_def dest: dvd_imp_le)

section \<open>Properties\<close>

definition p256_order :: nat where
  "p256_order = 0xFFFFFFFF00000000FFFFFFFFFFFFFFFFBCE6FAADA7179E84F3B9CAC2FC632551"

lemma unat_minus_1: "unat (- 1 :: u32) = 0xFFFFFFFF"
  by (simp add: unsigned_minus_1_eq_mask mask_eq_exp_minus_1)

lemma num_nMin2: "num SECP256r1_nMin2 + 2 = p256_order" "length SECP256r1_nMin2 = 8"
  by (simp_all add: SECP256r1_nMin2_def p256_order_def radix_def unat_minus_1)

lemma key_from_bin: "length key = 32 \<Longrightarrow> num (p256_from_bin key) = be_value key \<and> length (p256_from_bin key) = 8"
  using num_of_b8 [of "rev key"] by (simp add: p256_from_bin_def length_of_b8)

text \<open>(C34) A private key made from 32 bytes is in the range from 1 to the order of the group less 2, whatever values
  blind the comparison: it is the big-endian number of the bytes plus 1, and bytes that are too large are
  refused with \<open>DCRYPTO_RETRY\<close>.\<close>

theorem p256_key_in_range:
  assumes "length key = 32" and "fips_crypto_allowed env"
  shows "(case DCRYPTO_p256_key_from_bytes env st key of
            (r, Some (x, y, d)) \<Rightarrow> num d = be_value key + 1 \<and> num d < p256_order - 1 \<and> length d = 8
          | (r, None) \<Rightarrow> r = DCRYPTO_RETRY \<and> p256_order - 2 \<le> be_value key)"
proof -
  define v where "v = p256_from_bin key"
  have v: "num v = be_value key" "length v = 8" using key_from_bin [OF assms(1)] by (simp_all add: v_def)
  have lt: "0 \<le>s fst (p256_lt_blinded st v SECP256r1_nMin2) \<longleftrightarrow> num SECP256r1_nMin2 \<le> num v"
    using v(2) num_nMin2(2) by (subst p256_lt_blinded_correct) (simp_all add: word_sle_eq)
  show ?thesis
  proof (cases "num SECP256r1_nMin2 \<le> num v")
    case True
    then show ?thesis using lt v assms(2) num_nMin2(1)
      by (simp add: DCRYPTO_p256_key_from_bytes_def Let_def flip: v_def)
  next
    case False
    obtain d c where d: "p256_add_d v 1 = (d, c)" by fastforce
    have "num SECP256r1_nMin2 + 1 < radix ^ 8" by (simp add: SECP256r1_nMin2_def radix_def unat_minus_1)
    then have small: "num v + 1 < radix ^ 8" using False by linarith
    have a: "num d + radix ^ 8 * unat c = num v + 1" "length d = 8" using p256_add_d_correct [OF d] v(2) by simp_all
    have "unat c = 0"
    proof (rule ccontr)
      assume "unat c \<noteq> 0"
      then have "radix ^ 8 * 1 \<le> radix ^ 8 * unat c" by (intro mult_le_mono2) simp
      then show False using a(1) small by linarith
    qed
    with a have "num d = num v + 1" "length d = 8" by simp_all
    then show ?thesis using False lt v assms(2) num_nMin2(1) d
      by (auto simp: DCRYPTO_p256_key_from_bytes_def Let_def simp flip: v_def split: prod.splits)
  qed
qed

definition p256_example_env :: p256_env where
  "p256_example_env = \<lparr>fips_crypto_allowed = True, p256_base_point_mul = (\<lambda>d. (DCRYPTO_OK, d, d)),
     p256_key_pwct = (\<lambda>d x y. DCRYPTO_OK)\<rparr>"

theorem p256_key_in_range_witness:
  "case DCRYPTO_p256_key_from_bytes p256_example_env 0 (replicate 31 0 @ [41]) of
     (r, Some (x, y, d)) \<Rightarrow> num d = 42 | (r, None) \<Rightarrow> False"
proof -
  have "foldl (\<lambda>v b. 256 * v + unat b) 0 (replicate n (0 :: u8)) = 0" for n by (induction n) simp_all
  then have "be_value (replicate 31 0 @ [41]) = 41" by (simp add: be_value_def)
  moreover have "\<not> p256_order - 2 \<le> 41" by (simp add: p256_order_def)
  ultimately show ?thesis
    using p256_key_in_range [of "replicate 31 0 @ [41]" p256_example_env 0]
    by (auto simp: p256_example_env_def split: prod.splits option.splits)
qed

end
