(* ===== verification/Rma_Auth.thy ===== *)
theory Rma_Auth
  imports Base32 P256_Int Ccd_Config "HOL-Library.Monad_Syntax"
begin

text \<open>
  RMA authorization, \<open>src/common/rma_auth.c\<close>, with the P-256 key exchange of the board: a challenge made of a
  one-time public key and the identity of the device, an authorization code derived from the secret shared with the
  server, three tries for it, and factory mode as the reward.

  The key search may repeat; it is a partial function, and \<open>None\<close> says that it does not end.  The chip's
  random source, its hash engine and its accelerator are fields of \<open>rma_env\<close>.
\<close>

section \<open>Model\<close>

definition CHALLENGE_INTERVAL :: u64 where "CHALLENGE_INTERVAL = 10 * 1000000"
definition MAX_AUTHCODE_TRIES :: nat where "MAX_AUTHCODE_TRIES = 3"
definition RMA_CHALLENGE_VERSION :: u8 where "RMA_CHALLENGE_VERSION = 0"
definition RMA_DEVICE_ID_SIZE :: nat where "RMA_DEVICE_ID_SIZE = 8"
definition RMA_CHALLENGE_BUF_SIZE :: nat where "RMA_CHALLENGE_BUF_SIZE = 80 + 1"
definition RMA_AUTHCODE_CHARS :: nat where "RMA_AUTHCODE_CHARS = 8"
definition RMA_AUTHCODE_BUF_SIZE :: nat where "RMA_AUTHCODE_BUF_SIZE = RMA_AUTHCODE_CHARS + 1"

lemmas rma_defs = CHALLENGE_INTERVAL_def MAX_AUTHCODE_TRIES_def RMA_CHALLENGE_VERSION_def RMA_DEVICE_ID_SIZE_def
  RMA_CHALLENGE_BUF_SIZE_def RMA_AUTHCODE_CHARS_def RMA_AUTHCODE_BUF_SIZE_def

definition RMA_CHALLENGE_VKID_BYTE :: "u8 \<Rightarrow> u8 \<Rightarrow> u8" where
  "RMA_CHALLENGE_VKID_BYTE version keyid = push_bit 6 version OR (keyid AND 0x3f)"

record rma_env =
  rma_key_blob :: bytes
  rma_now :: u64
  rma_board_type :: "bytes option"
  rma_unique_id :: bytes
  rma_rand :: "bytes option"
  rma_p256 :: p256_env
  rma_blinder :: u32
  rma_point_mul :: "p256_int \<Rightarrow> p256_int \<Rightarrow> p256_int \<Rightarrow> dcrypto_result \<times> p256_int \<times> p256_int"
  rma_sha_ok :: bool
  rma_sha256 :: "bytes \<Rightarrow> bytes"
  rma_hmac_ok :: bool
  rma_hmac :: "bytes \<Rightarrow> bytes \<Rightarrow> bytes"
  rma_mismatched :: bool
  rma_shmem :: ec_error

record rma_sys =
  challenge :: bytes
  authcode :: bytes
  tries_left :: nat
  last_challenge_time :: u64
  shmem_held :: nat
  rma_ccd :: ccd_sys

definition get_hmac_sha256 :: "rma_env \<Rightarrow> bytes \<Rightarrow> bytes \<Rightarrow> ec_error + bytes" where
  "get_hmac_sha256 env secret ch = (if rma_hmac_ok env then Inr (take 32 (rma_hmac env secret ch)) else Inl EC_ERROR_HW_INTERNAL)"

definition hash_buffer :: "rma_env \<Rightarrow> nat \<Rightarrow> bytes \<Rightarrow> ec_error + bytes" where
  "hash_buffer env dest_size buffer =
     (case get_hmac_sha256 env buffer buffer of Inl e \<Rightarrow> Inl e | Inr temp \<Rightarrow> Inr (take dest_size temp))"

text \<open>The search for a key pair whose public Y coordinate is odd.\<close>

partial_function (option) key_search :: "rma_env \<Rightarrow> bytes \<Rightarrow> (ec_error + p256_int \<times> p256_int) option" where
  "key_search env buf =
     (case DCRYPTO_p256_key_from_bytes (rma_p256 env) (rma_blinder env) buf of
        (result, key) \<Rightarrow>
          (if result = DCRYPTO_FAIL then Some (Inl EC_ERROR_HW_INTERNAL)
           else if result = DCRYPTO_OK \<and> key \<noteq> None \<and> p256_is_odd (fst (snd (the key)))
           then Some (Inr (fst (the key), snd (snd (the key))))
           else if \<not> rma_sha_ok env then Some (Inl EC_ERROR_HW_INTERNAL)
           else key_search env (rma_sha256 env buf)))"

definition p256_get_pub_key_and_secret :: "rma_env \<Rightarrow> (ec_error + bytes \<times> bytes) option" where
  "p256_get_pub_key_and_secret env =
     (case rma_rand env of
        None \<Rightarrow> Some (Inl EC_ERROR_HW_INTERNAL)
      | Some buf \<Rightarrow>
          do {
            r \<leftarrow> key_search env buf;
            Some (case r of
                    Inl e \<Rightarrow> Inl e
                  | Inr (pk_x, d) \<Rightarrow>
                      (let srv_x = p256_from_bin (take 32 (drop 1 (rma_key_blob env)));
                           srv_y = p256_from_bin (take 32 (drop 33 (rma_key_blob env)))
                       in case rma_point_mul env d srv_x srv_y of
                            (res, sx, sy) \<Rightarrow> if res \<noteq> DCRYPTO_OK then Inl EC_ERROR_HW_INTERNAL
                                             else Inr (p256_to_bin pk_x, p256_to_bin sx)))
          })"

definition get_rma_device_id :: "rma_env \<Rightarrow> ec_error + bytes" where
  "get_rma_device_id env =
     (let uid = rma_unique_id env
      in if length uid \<le> RMA_DEVICE_ID_SIZE then Inr (uid @ replicate (RMA_DEVICE_ID_SIZE - length uid) 0)
         else hash_buffer env RMA_DEVICE_ID_SIZE uid)"

text \<open>A string in a buffer of \<open>n\<close> bytes that was cleared.\<close>

definition in_buffer :: "nat \<Rightarrow> bytes \<Rightarrow> bytes" where
  "in_buffer n str = str @ replicate (n - length str) 0"

definition clear_challenge :: "rma_sys \<Rightarrow> rma_sys" where
  "clear_challenge s = s\<lparr>challenge := replicate RMA_CHALLENGE_BUF_SIZE 0, authcode := replicate RMA_AUTHCODE_BUF_SIZE 0\<rparr>"

text \<open>The bytes of \<open>struct rma_challenge\<close>.\<close>

definition challenge_bytes :: "rma_env \<Rightarrow> bytes \<Rightarrow> bytes \<Rightarrow> bytes \<Rightarrow> bytes" where
  "challenge_bytes env pub_key board_type device_id =
     RMA_CHALLENGE_VKID_BYTE RMA_CHALLENGE_VERSION (rma_key_blob env ! 65) # pub_key @ board_type @ device_id"

text \<open>What follows the key exchange: both strings are made and the tries start.\<close>

definition finish_challenge :: "rma_env \<Rightarrow> bytes \<Rightarrow> bytes \<Rightarrow> rma_sys \<Rightarrow> ec_error \<times> rma_sys" where
  "finish_challenge env c secret s =
     (case base32_encode RMA_CHALLENGE_BUF_SIZE c (8 * 45) 9 of
        (e, str) \<Rightarrow>
          (let s1 = s\<lparr>challenge := in_buffer RMA_CHALLENGE_BUF_SIZE str\<rparr>
           in if e \<noteq> EC_SUCCESS then (EC_ERROR_UNKNOWN, s1)
              else case get_hmac_sha256 env secret (tl c) of
                     Inl e2 \<Rightarrow> (e2, s1)
                   | Inr temp \<Rightarrow>
                       (case base32_encode RMA_AUTHCODE_BUF_SIZE temp (RMA_AUTHCODE_CHARS * 5) 0 of
                          (e3, code) \<Rightarrow>
                            (let s2 = s1\<lparr>authcode := in_buffer RMA_AUTHCODE_BUF_SIZE code\<rparr>
                             in if e3 \<noteq> EC_SUCCESS then (EC_ERROR_UNKNOWN, s2)
                                else (EC_SUCCESS, s2\<lparr>tries_left := MAX_AUTHCODE_TRIES\<rparr>)))))"

definition rma_create_challenge :: "rma_env \<Rightarrow> rma_sys \<Rightarrow> (ec_error \<times> rma_sys) option" where
  "rma_create_challenge env s =
     (let s0 = clear_challenge s; t = rma_now env
      in if t - last_challenge_time s0 < CHALLENGE_INTERVAL then Some (EC_ERROR_TIMEOUT, s0)
         else
           (let s1 = s0\<lparr>last_challenge_time := t\<rparr>
            in case rma_board_type env of
                 None \<Rightarrow> Some (EC_ERROR_UNKNOWN, s1)
               | Some board_type \<Rightarrow>
                   (case get_rma_device_id env of
                      Inl e \<Rightarrow> Some (e, s1)
                    | Inr device_id \<Rightarrow>
                        do {
                          r \<leftarrow> p256_get_pub_key_and_secret env;
                          Some (case r of
                                  Inl e \<Rightarrow> (EC_ERROR_UNKNOWN, s1)
                                | Inr (pub_key, secret) \<Rightarrow>
                                    finish_challenge env (challenge_bytes env pub_key board_type device_id) secret s1)
                        })))"

definition rma_get_challenge :: "rma_sys \<Rightarrow> bytes" where "rma_get_challenge s = challenge s"

definition rma_try_authcode :: "bytes \<Rightarrow> rma_sys \<Rightarrow> ec_error \<times> rma_sys" where
  "rma_try_authcode code s =
     (if tries_left s = 0 then (EC_ERROR_ACCESS_DENIED, s)
      else if authcode s ! 0 = 0 then (EC_ERROR_ACCESS_DENIED, s)
      else
        (let (rv, s1) = (if safe_memcmp (authcode s) code RMA_AUTHCODE_CHARS
                         then (EC_ERROR_INVAL, s\<lparr>tries_left := tries_left s - 1\<rparr>)
                         else (EC_SUCCESS, s\<lparr>tries_left := 0\<rparr>))
         in (rv, if tries_left s1 = 0 then clear_challenge s1 else s1)))"

text \<open>The handlers return the code, the buffer and the size of the response.\<close>

definition get_challenge :: "rma_env \<Rightarrow> bytes \<Rightarrow> nat \<Rightarrow> rma_sys \<Rightarrow> (u32 \<times> bytes \<times> nat \<times> rma_sys) option" where
  "get_challenge env buf buf_size s =
     (if buf_size < RMA_CHALLENGE_BUF_SIZE
      then Some (vendor_rc_value VENDOR_RC_RESPONSE_TOO_BIG, buf[0 := ucast (vendor_rc_value VENDOR_RC_RESPONSE_TOO_BIG)], 1, s)
      else
        do {
          (rv, s') \<leftarrow> rma_create_challenge env s;
          Some (if rv \<noteq> EC_SUCCESS
                then (ucast (of_nat (ec_error_code rv) :: u8), buf[0 := of_nat (ec_error_code rv)], 1, s')
                else (vendor_rc_value VENDOR_RC_SUCCESS,
                      take (RMA_CHALLENGE_BUF_SIZE - 1) (rma_get_challenge s') @ drop (RMA_CHALLENGE_BUF_SIZE - 1) buf,
                      RMA_CHALLENGE_BUF_SIZE - 1, s'))
        })"

definition process_response :: "bytes \<Rightarrow> nat \<Rightarrow> rma_sys \<Rightarrow> u32 \<times> bytes \<times> nat \<times> rma_sys" where
  "process_response buf input_size s =
     (if input_size \<noteq> RMA_AUTHCODE_CHARS
      then (vendor_rc_value VENDOR_RC_BOGUS_ARGS, buf[0 := ucast (vendor_rc_value VENDOR_RC_BOGUS_ARGS)], 1, s)
      else case rma_try_authcode buf s of
             (rv, s') \<Rightarrow>
               (if rv = EC_SUCCESS
                then (vendor_rc_value VENDOR_RC_SUCCESS, buf, 0, s'\<lparr>rma_ccd := enable_ccd_factory_mode False (rma_ccd s')\<rparr>)
                else (vendor_rc_value VENDOR_RC_INTERNAL_ERROR,
                      buf[0 := ucast (vendor_rc_value VENDOR_RC_INTERNAL_ERROR)], 1, s')))"

definition rma_challenge_response ::
  "rma_env \<Rightarrow> bytes \<Rightarrow> nat \<Rightarrow> nat \<Rightarrow> rma_sys \<Rightarrow> (u32 \<times> bytes \<times> nat \<times> rma_sys) option" where
  "rma_challenge_response env buf input_size response_size s =
     (if input_size = 0 then get_challenge env buf response_size s else Some (process_response buf input_size s))"

text \<open>The console command sends the vendor command to the TPM task: the code it gets back is 0 or has the error
  bits, and a command is ignored when the board id does not match.  \<open>shmem_held\<close> counts the shared buffers not released.\<close>

definition rma_alt_extension :: "rma_env \<Rightarrow> bytes \<Rightarrow> nat \<Rightarrow> rma_sys \<Rightarrow> (u32 \<times> rma_sys) option" where
  "rma_alt_extension env buf input_size s =
     (if rma_mismatched env then Some (vendor_rc_value VENDOR_RC_NO_SUCH_COMMAND OR VENDOR_RC_ERR, s)
      else
        do {
          (rc, buf', n, s') \<leftarrow> rma_challenge_response env buf input_size RMA_CHALLENGE_BUF_SIZE s;
          Some (if rc = 0 then 0 else rc OR VENDOR_RC_ERR, s')
        })"

definition rma_auth_cmd :: "rma_env \<Rightarrow> bytes list \<Rightarrow> rma_sys \<Rightarrow> (ec_error \<times> rma_sys) option" where
  "rma_auth_cmd env argv s =
     (if length argv > 2 then Some (EC_ERROR_PARAM_COUNT, s)
      else if rma_shmem env \<noteq> EC_SUCCESS then Some (rma_shmem env, s)
      else
        (let s1 = s\<lparr>shmem_held := shmem_held s + 1\<rparr>
         in if length argv = 2
            then (if strlen (argv ! 1) \<noteq> RMA_AUTHCODE_CHARS then Some (EC_ERROR_PARAM1, s1)
                  else
                    do {
                      (command_code, s2) \<leftarrow> rma_alt_extension env
                         (in_buffer RMA_CHALLENGE_BUF_SIZE (take RMA_AUTHCODE_CHARS (argv ! 1))) RMA_AUTHCODE_CHARS s1;
                      Some (if command_code \<noteq> 0 then EC_ERROR_PARAM1 else EC_SUCCESS, s2)
                    })
            else
              do {
                (command_code, s2) \<leftarrow> rma_alt_extension env (replicate RMA_CHALLENGE_BUF_SIZE 0) 0 s1;
                Some (EC_SUCCESS, s2\<lparr>shmem_held := shmem_held s2 - 1\<rparr>)
              }))"

section \<open>The key search\<close>

text \<open>A candidate ends the search when it fails for good or has a usable key.\<close>

definition conclusive :: "rma_env \<Rightarrow> bytes \<Rightarrow> bool" where
  "conclusive env buf \<longleftrightarrow>
     (case DCRYPTO_p256_key_from_bytes (rma_p256 env) (rma_blinder env) buf of
        (result, key) \<Rightarrow>
          result = DCRYPTO_FAIL \<or> result = DCRYPTO_OK \<and> key \<noteq> None \<and> p256_is_odd (fst (snd (the key))))"

lemma key_search_stop: "conclusive env buf \<or> \<not> rma_sha_ok env \<Longrightarrow> key_search env buf \<noteq> None"
  by (subst key_search.simps) (auto simp: conclusive_def split: prod.splits)

lemma key_search_next:
  "\<not> conclusive env buf \<Longrightarrow> rma_sha_ok env \<Longrightarrow> key_search env buf = key_search env (rma_sha256 env buf)"
  by (subst key_search.simps) (auto simp: conclusive_def split: prod.splits)

lemma key_search_returns:
  "conclusive env ((rma_sha256 env ^^ k) buf) \<Longrightarrow> key_search env buf \<noteq> None"
proof (induction k arbitrary: buf)
  case (Suc k)
  have "conclusive env ((rma_sha256 env ^^ k) (rma_sha256 env buf))" using Suc.prems by (simp add: funpow_swap1)
  then show ?case using Suc.IH key_search_stop key_search_next by metis
qed (simp add: key_search_stop)

lemma key_search_ends:
  "key_search env buf = Some r \<Longrightarrow> rma_sha_ok env \<longrightarrow> (\<exists>k. conclusive env ((rma_sha256 env ^^ k) buf))"
proof (induction rule: key_search.raw_induct [rotated 1, consumes 1, case_names step])
  case (step ks env buf r)
  show ?case
  proof (intro impI, cases "conclusive env buf")
    case True
    then show "\<exists>k. conclusive env ((rma_sha256 env ^^ k) buf)" by (intro exI [of _ 0]) simp
  next
    case False
    assume ok: "rma_sha_ok env"
    have "ks env (rma_sha256 env buf) = Some r"
      using step(2) False ok by (auto simp: conclusive_def split: prod.splits if_splits)
    then obtain k where "conclusive env ((rma_sha256 env ^^ k) (rma_sha256 env buf))" using step(1) ok by blast
    then show "\<exists>k. conclusive env ((rma_sha256 env ^^ k) buf)" by (intro exI [of _ "Suc k"]) (simp add: funpow_swap1)
  qed
qed

lemma key_search_none:
  "key_search env buf = None \<longleftrightarrow> rma_sha_ok env \<and> (\<forall>k. \<not> conclusive env ((rma_sha256 env ^^ k) buf))"
proof (cases "key_search env buf")
  case None
  then show ?thesis using key_search_returns [of env _ buf] key_search_stop [of env buf] by auto
qed (use key_search_ends [of env buf] in auto)

section \<open>Challenges and guesses\<close>

lemma length_in_buffer: "n \<le> length (in_buffer n str)"
  by (simp add: in_buffer_def)

text \<open>A guess is compared while an authorization code exists and tries are left.\<close>

definition live :: "rma_sys \<Rightarrow> bool" where
  "live s \<longleftrightarrow> tries_left s \<noteq> 0 \<and> authcode s ! 0 \<noteq> 0"

definition console_guess :: "rma_env \<Rightarrow> bytes list \<Rightarrow> bool" where
  "console_guess env argv \<longleftrightarrow> length argv = 2 \<and> rma_shmem env = EC_SUCCESS \<and> \<not> rma_mismatched env \<and>
     strlen (argv ! 1) = RMA_AUTHCODE_CHARS"

text \<open>Whether a command makes a challenge.\<close>

definition vendor_request :: "nat \<Rightarrow> nat \<Rightarrow> bool" where
  "vendor_request n m \<longleftrightarrow> n = 0 \<and> RMA_CHALLENGE_BUF_SIZE \<le> m"

definition console_request :: "rma_env \<Rightarrow> bytes list \<Rightarrow> bool" where
  "console_request env argv \<longleftrightarrow> length argv < 2 \<and> rma_shmem env = EC_SUCCESS \<and> \<not> rma_mismatched env"

text \<open>What the two strings are when the environment \<open>env\<close> has produced them.\<close>

definition issued :: "rma_env \<Rightarrow> rma_sys \<Rightarrow> bool" where
  "issued env s \<longleftrightarrow>
     (\<exists>pub_key secret board_type device_id code.
        p256_get_pub_key_and_secret env = Some (Inr (pub_key, secret)) \<and>
        rma_board_type env = Some board_type \<and> get_rma_device_id env = Inr device_id \<and>
        base32_encode RMA_CHALLENGE_BUF_SIZE (challenge_bytes env pub_key board_type device_id) (8 * 45) 9 = (EC_SUCCESS, code) \<and>
        challenge s = in_buffer RMA_CHALLENGE_BUF_SIZE code \<and>
        authcode s = in_buffer RMA_AUTHCODE_BUF_SIZE
          (snd (base32_encode RMA_AUTHCODE_BUF_SIZE
             (take 32 (rma_hmac env secret (pub_key @ board_type @ device_id))) (RMA_AUTHCODE_CHARS * 5) 0)))"

text \<open>\<open>envs\<close> are the environments of the challenge requests so far: an authorization code that exists is the one the
  last of them determines.\<close>

definition rma_ok :: "rma_env list \<Rightarrow> rma_sys \<Rightarrow> bool" where
  "rma_ok envs s \<longleftrightarrow> RMA_AUTHCODE_CHARS \<le> length (authcode s) \<and>
     (authcode s ! 0 \<noteq> 0 \<longrightarrow> envs \<noteq> [] \<and> issued (last envs) s)"

lemma rma_ok_cleared: "rma_ok envs (clear_challenge s)"
  by (simp add: rma_ok_def clear_challenge_def rma_defs)

lemma cleared_frame [simp]: "rma_ccd (clear_challenge s) = rma_ccd s" "tries_left (clear_challenge s) = tries_left s"
  "last_challenge_time (clear_challenge s) = last_challenge_time s"
  by (simp_all add: clear_challenge_def)

lemma finish_frame:
  assumes "finish_challenge env c secret s = (e, s')"
  shows "rma_ccd s' = rma_ccd s \<and> last_challenge_time s' = last_challenge_time s \<and>
         (tries_left s' = tries_left s \<or> tries_left s' = MAX_AUTHCODE_TRIES)"
  using assms by (auto simp: finish_challenge_def Let_def split: prod.splits if_splits sum.splits)

lemma finish_ok:
  assumes "finish_challenge env (challenge_bytes env pub_key board_type device_id) secret s = (e, s')"
    and "p256_get_pub_key_and_secret env = Some (Inr (pub_key, secret))"
    and "rma_board_type env = Some board_type" and "get_rma_device_id env = Inr device_id"
    and "authcode s = replicate RMA_AUTHCODE_BUF_SIZE 0"
  shows "rma_ok (envs @ [env]) s'" and "e = EC_SUCCESS \<Longrightarrow> issued env s'"
proof -
  define c where "c = challenge_bytes env pub_key board_type device_id"
  have tl: "tl c = pub_key @ board_type @ device_id" by (simp add: c_def challenge_bytes_def)
  have zero: "rma_ok (envs @ [env]) s'" if "authcode s' = replicate RMA_AUTHCODE_BUF_SIZE 0"
    using that by (simp add: rma_ok_def rma_defs)
  have len: "RMA_AUTHCODE_CHARS \<le> length (authcode s')" if "authcode s' = in_buffer RMA_AUTHCODE_BUF_SIZE x" for x
    using that length_in_buffer [of RMA_AUTHCODE_BUF_SIZE x] by (simp add: rma_defs)
  have cases: "authcode s' = replicate RMA_AUTHCODE_BUF_SIZE 0 \<and> e \<noteq> EC_SUCCESS \<or>
     issued env s' \<and> (\<exists>x. authcode s' = in_buffer RMA_AUTHCODE_BUF_SIZE x)"
    using assms(1) [folded c_def] assms(2-5)
    by (auto simp: finish_challenge_def get_hmac_sha256_def issued_def tl Let_def ec_defs simp flip: c_def
             split: prod.splits if_splits)
  then show "rma_ok (envs @ [env]) s'" using zero len by (auto simp: rma_ok_def)
  show "issued env s'" if "e = EC_SUCCESS" using cases that by blast
qed

lemma error_byte: "ucast (of_nat (ec_error_code e) :: u8) = (0 :: u32) \<longleftrightarrow> e = EC_SUCCESS"
  by (cases e) simp_all

lemma device_id_error: "get_rma_device_id env = Inl e \<Longrightarrow> e \<noteq> EC_SUCCESS"
  by (auto simp: get_rma_device_id_def hash_buffer_def get_hmac_sha256_def Let_def split: if_splits)

lemma create_cases:
  assumes "rma_create_challenge env s = Some (e, s')"
  obtains (soon) "rma_now env - last_challenge_time s < CHALLENGE_INTERVAL" "s' = clear_challenge s" "e = EC_ERROR_TIMEOUT"
  | (failed) "CHALLENGE_INTERVAL \<le> rma_now env - last_challenge_time s"
      "s' = (clear_challenge s)\<lparr>last_challenge_time := rma_now env\<rparr>" "e \<noteq> EC_SUCCESS"
  | (made) pub_key secret board_type device_id where "CHALLENGE_INTERVAL \<le> rma_now env - last_challenge_time s"
      "p256_get_pub_key_and_secret env = Some (Inr (pub_key, secret))"
      "rma_board_type env = Some board_type" "get_rma_device_id env = Inr device_id"
      "finish_challenge env (challenge_bytes env pub_key board_type device_id) secret
         ((clear_challenge s)\<lparr>last_challenge_time := rma_now env\<rparr>) = (e, s')"
proof -
  note d = assms [unfolded rma_create_challenge_def Let_def, simplified]
  consider "rma_now env - last_challenge_time s < CHALLENGE_INTERVAL" | "rma_board_type env = None"
    | e where "get_rma_device_id env = Inl e" | bt di where "CHALLENGE_INTERVAL \<le> rma_now env - last_challenge_time s"
      "rma_board_type env = Some bt" "get_rma_device_id env = Inr di"
    by (cases "get_rma_device_id env"; cases "rma_board_type env") (use not_less in blast)+
  then show thesis
  proof cases
    case (4 bt di)
    have "\<not> rma_now env - last_challenge_time s < CHALLENGE_INTERVAL" using 4(1) by (rule leD)
    note d4 = d [unfolded if_not_P [OF this] 4(2,3) option.case sum.case]
    then obtain r where r: "p256_get_pub_key_and_secret env = Some r" by (auto simp: bind_eq_Some_conv)
    show thesis
    proof (cases r)
      case (Inl e')
      then show thesis using d4 failed 4(1) r by simp
    next
      case (Inr ps)
      then show thesis using d4 made [OF 4(1) _ 4(2,3), of "fst ps" "snd ps"] r by (simp add: case_prod_unfold)
    qed
  qed (use d soon failed device_id_error in \<open>auto simp: not_less bind_eq_Some_conv split: if_splits option.splits\<close>)
qed

lemma create_frame:
  assumes "rma_create_challenge env s = Some (e, s')"
  shows "rma_ok (envs @ [env]) s'" "rma_ccd s' = rma_ccd s"
    and "last_challenge_time s' = last_challenge_time s \<and> tries_left s' = tries_left s \<or>
         CHALLENGE_INTERVAL \<le> rma_now env - last_challenge_time s \<and> last_challenge_time s' = rma_now env \<and>
         (tries_left s' = tries_left s \<or> tries_left s' = MAX_AUTHCODE_TRIES)"
    and "e = EC_SUCCESS \<Longrightarrow> issued env s'"
proof -
  have rate: "last_challenge_time s' = last_challenge_time s \<and> tries_left s' = tries_left s \<or>
     CHALLENGE_INTERVAL \<le> rma_now env - last_challenge_time s \<and> last_challenge_time s' = rma_now env \<and>
     (tries_left s' = tries_left s \<or> tries_left s' = MAX_AUTHCODE_TRIES)" and ccd: "rma_ccd s' = rma_ccd s"
    using assms by (cases rule: create_cases; auto dest: finish_frame)+
  show "rma_ccd s' = rma_ccd s" by (rule ccd)
  show "last_challenge_time s' = last_challenge_time s \<and> tries_left s' = tries_left s \<or>
     CHALLENGE_INTERVAL \<le> rma_now env - last_challenge_time s \<and> last_challenge_time s' = rma_now env \<and>
     (tries_left s' = tries_left s \<or> tries_left s' = MAX_AUTHCODE_TRIES)" by (rule rate)
  have "rma_ok (envs @ [env]) s' \<and> (e = EC_SUCCESS \<longrightarrow> issued env s')"
    using assms
  proof (cases rule: create_cases)
    case (made pub_key secret board_type device_id)
    then show ?thesis using finish_ok [OF made(5,2,3,4)] by (simp add: clear_challenge_def)
  qed (use rma_ok_cleared [of "envs @ [env]" s] in \<open>simp_all add: rma_ok_def issued_def\<close>)
  then show "rma_ok (envs @ [env]) s'" "e = EC_SUCCESS \<Longrightarrow> issued env s'" by simp_all
qed

lemma try_cases:
  assumes "rma_try_authcode code s = (e, s')"
  obtains (refused) "s' = s" "\<not> live s" "e \<noteq> EC_SUCCESS"
  | (wrong) "live s" "safe_memcmp (authcode s) code RMA_AUTHCODE_CHARS" "e \<noteq> EC_SUCCESS"
      "s' = (let s1 = s\<lparr>tries_left := tries_left s - 1\<rparr> in if tries_left s1 = 0 then clear_challenge s1 else s1)"
  | (right) "live s" "\<not> safe_memcmp (authcode s) code RMA_AUTHCODE_CHARS" "e = EC_SUCCESS"
      "s' = clear_challenge (s\<lparr>tries_left := 0\<rparr>)"
  using assms by (auto simp: rma_try_authcode_def live_def Let_def split: if_splits)

lemma response_cases:
  assumes "rma_challenge_response env buf n m s = Some (rc, out, k, s')"
  obtains (unchanged) "s' = s" "\<not> (n = RMA_AUTHCODE_CHARS \<and> live s)"
  | (challenge) e where "n = 0" "rma_create_challenge env s = Some (e, s')"
  | (wrong) "n = RMA_AUTHCODE_CHARS" "live s" "safe_memcmp (authcode s) buf RMA_AUTHCODE_CHARS"
      "s' = (let s1 = s\<lparr>tries_left := tries_left s - 1\<rparr> in if tries_left s1 = 0 then clear_challenge s1 else s1)"
  | (right) "n = RMA_AUTHCODE_CHARS" "live s" "\<not> safe_memcmp (authcode s) buf RMA_AUTHCODE_CHARS" "rc = 0"
      "s' = (clear_challenge (s\<lparr>tries_left := 0\<rparr>))\<lparr>rma_ccd := enable_ccd_factory_mode False (rma_ccd s)\<rparr>"
proof -
  consider "n = 0" | "n \<noteq> 0" "n \<noteq> RMA_AUTHCODE_CHARS" | "n = RMA_AUTHCODE_CHARS" "n \<noteq> 0" by blast
  then show thesis
  proof cases
    case 1
    then show thesis using assms challenge unchanged
      by (auto simp: rma_challenge_response_def get_challenge_def bind_eq_Some_conv rma_defs split: if_splits)
  next
    case 2
    then show thesis using assms unchanged by (simp add: rma_challenge_response_def process_response_def)
  next
    case 3
    obtain e t where t: "rma_try_authcode buf s = (e, t)" by fastforce
    have r: "s' = (if e = EC_SUCCESS then t\<lparr>rma_ccd := enable_ccd_factory_mode False (rma_ccd t)\<rparr> else t)"
      "e = EC_SUCCESS \<Longrightarrow> rc = 0"
      using assms 3 t by (auto simp: rma_challenge_response_def process_response_def split: if_splits)
    show thesis
      using t by (cases rule: try_cases) (use r 3(1) unchanged wrong right in simp_all)
  qed
qed

text \<open>Runs of the component from time \<open>t\<close> and state \<open>s\<close>; the number counts the guesses that were compared.\<close>

inductive rma_trace :: "u64 \<Rightarrow> rma_sys \<Rightarrow> nat \<Rightarrow> u64 \<Rightarrow> rma_sys \<Rightarrow> bool" for t s where
  start: "rma_trace t s 0 t s"
| vendor: "\<lbrakk>rma_trace t s g t' s'; t' \<le> rma_now env; rma_challenge_response env buf n m s' = Some (rc, out, k, s'')\<rbrakk> \<Longrightarrow>
    rma_trace t s (if n = RMA_AUTHCODE_CHARS \<and> live s' then g + 1 else g) (rma_now env) s''"
| console: "\<lbrakk>rma_trace t s g t' s'; t' \<le> rma_now env; rma_auth_cmd env argv s' = Some (e, s'')\<rbrakk> \<Longrightarrow>
    rma_trace t s (if console_guess env argv \<and> live s' then g + 1 else g) (rma_now env) s''"

text \<open>The bound on guesses: three for each interval.\<close>

definition guesses_allowed :: "u64 \<Rightarrow> u64 \<Rightarrow> nat" where
  "guesses_allowed t t' = MAX_AUTHCODE_TRIES * ((unat t' - unat t) div unat CHALLENGE_INTERVAL)"

lemma unat_interval: "unat CHALLENGE_INTERVAL = 10000000"
  by (simp add: rma_defs)

lemma guesses_allowed_step:
  assumes "a \<le> b" "b \<le> c" "CHALLENGE_INTERVAL \<le> c - b"
  shows "guesses_allowed a b + MAX_AUTHCODE_TRIES \<le> guesses_allowed a c"
proof -
  have "unat (c - b) = unat c - unat b" using assms(2) by (simp add: unat_sub_if' word_le_nat_alt)
  then have "unat b + unat CHALLENGE_INTERVAL \<le> unat c" using assms(2,3) by (simp add: word_le_nat_alt)
  then have "unat b - unat a + unat CHALLENGE_INTERVAL \<le> unat c - unat a" using assms(1) by (simp add: word_le_nat_alt)
  then have "(unat b - unat a + unat CHALLENGE_INTERVAL) div unat CHALLENGE_INTERVAL
             \<le> (unat c - unat a) div unat CHALLENGE_INTERVAL" by (rule div_le_mono)
  then show ?thesis unfolding guesses_allowed_def MAX_AUTHCODE_TRIES_def unat_interval by (subst (asm) div_add_self2) auto
qed

lemma guesses_allowed_mono: "b \<le> c \<Longrightarrow> guesses_allowed a b \<le> guesses_allowed a c"
  by (simp add: guesses_allowed_def div_le_mono word_le_nat_alt)

lemma response_budget:
  assumes "rma_challenge_response env buf n m s = Some (rc, out, k, s')"
    and "a \<le> last_challenge_time s" "last_challenge_time s \<le> rma_now env"
    and "g + tries_left s \<le> b + guesses_allowed a (last_challenge_time s)"
  shows "(if n = RMA_AUTHCODE_CHARS \<and> live s then g + 1 else g) + tries_left s' \<le> b + guesses_allowed a (last_challenge_time s')"
    and "a \<le> last_challenge_time s'" "last_challenge_time s' \<le> rma_now env"
proof -
  have time: "last_challenge_time s' = last_challenge_time s \<or> last_challenge_time s' = rma_now env"
    using assms(1) by (cases rule: response_cases) (auto simp: Let_def dest: create_frame(3))
  then show "a \<le> last_challenge_time s'" "last_challenge_time s' \<le> rma_now env" using assms(2,3) by auto
  show "(if n = RMA_AUTHCODE_CHARS \<and> live s then g + 1 else g) + tries_left s' \<le> b + guesses_allowed a (last_challenge_time s')"
    using assms(1)
  proof (cases rule: response_cases)
    case (challenge e)
    then have "n \<noteq> RMA_AUTHCODE_CHARS" by (simp add: rma_defs)
    then show ?thesis
      using create_frame(3) [OF challenge(2)] assms(4) guesses_allowed_step [OF assms(2,3)]
        guesses_allowed_mono [OF assms(3), of a] by auto
  qed (use assms(4) in \<open>auto simp: live_def Let_def\<close>)
qed

text \<open>The console command leaves the state alone or sends one vendor command.\<close>

lemma console_cases:
  assumes "rma_auth_cmd env argv s = Some (e, s')"
  obtains (none) h where "s' = s\<lparr>shmem_held := h\<rparr>" "\<not> console_guess env argv" "\<not> console_request env argv"
  | (sent) buf n rc out k h h' t where "s' = t\<lparr>shmem_held := h'\<rparr>" "RMA_AUTHCODE_CHARS \<le> length buf"
      "rma_challenge_response env buf n RMA_CHALLENGE_BUF_SIZE (s\<lparr>shmem_held := h\<rparr>) = Some (rc, out, k, t)"
      "console_guess env argv \<longleftrightarrow> n = RMA_AUTHCODE_CHARS" "console_request env argv \<longleftrightarrow> n = 0"
proof -
  have buf: "RMA_AUTHCODE_CHARS \<le> length (in_buffer RMA_CHALLENGE_BUF_SIZE x)" for x
    using length_in_buffer [of RMA_CHALLENGE_BUF_SIZE x] by (simp add: rma_defs)
  consider "length argv > 2 \<or> rma_shmem env \<noteq> EC_SUCCESS \<or> length argv = 2 \<and> strlen (argv ! 1) \<noteq> RMA_AUTHCODE_CHARS"
    | "rma_mismatched env" "rma_shmem env = EC_SUCCESS" "length argv \<le> 2" "length argv = 2 \<longrightarrow> strlen (argv ! 1) = RMA_AUTHCODE_CHARS"
    | "length argv = 2" "\<not> rma_mismatched env" "rma_shmem env = EC_SUCCESS" "strlen (argv ! 1) = RMA_AUTHCODE_CHARS"
    | "length argv < 2" "\<not> rma_mismatched env" "rma_shmem env = EC_SUCCESS"
    by linarith
  then show thesis
  proof cases
    case 1
    then show thesis using assms none [of "shmem_held s"] none [of "shmem_held s + 1"]
      by (auto simp: rma_auth_cmd_def console_guess_def console_request_def Let_def split: if_splits)
  next
    case 2
    then show thesis using assms none [of "shmem_held s"] none [of "shmem_held s + 1"]
      by (auto simp: rma_auth_cmd_def rma_alt_extension_def console_guess_def console_request_def Let_def split: if_splits)
  next
    case 3
    then have g: "console_guess env argv" "\<not> console_request env argv" by (simp_all add: console_guess_def console_request_def)
    from 3 assms obtain rc out k where
      "rma_challenge_response env (in_buffer RMA_CHALLENGE_BUF_SIZE (take RMA_AUTHCODE_CHARS (argv ! 1))) RMA_AUTHCODE_CHARS
         RMA_CHALLENGE_BUF_SIZE (s\<lparr>shmem_held := shmem_held s + 1\<rparr>) = Some (rc, out, k, s')"
      by (auto simp: rma_auth_cmd_def rma_alt_extension_def Let_def bind_eq_Some_conv)
    then show thesis using sent [where t = s' and h' = "shmem_held s'", OF _ buf] g by (simp add: rma_defs)
  next
    case 4
    then have g: "\<not> console_guess env argv" "console_request env argv" by (simp_all add: console_guess_def console_request_def)
    from 4 assms obtain rc out k t where t: "s' = t\<lparr>shmem_held := shmem_held t - 1\<rparr>"
      "rma_challenge_response env (replicate RMA_CHALLENGE_BUF_SIZE 0) 0
         RMA_CHALLENGE_BUF_SIZE (s\<lparr>shmem_held := shmem_held s + 1\<rparr>) = Some (rc, out, k, t)"
      by (auto simp: rma_auth_cmd_def rma_alt_extension_def Let_def bind_eq_Some_conv)
    then show thesis using sent [OF t(1) _ t(2)] g by (simp add: rma_defs)
  qed
qed

lemma shmem_frame [simp]: "live (s\<lparr>shmem_held := h\<rparr>) = live s" "rma_ok envs (s\<lparr>shmem_held := h\<rparr>) = rma_ok envs s"
  by (simp_all add: live_def rma_ok_def issued_def)

lemma trace_budget:
  assumes "rma_trace t s g t' s'" "last_challenge_time s \<le> t"
  shows "g + tries_left s' \<le> tries_left s + guesses_allowed (last_challenge_time s) (last_challenge_time s') \<and>
         last_challenge_time s \<le> last_challenge_time s' \<and> last_challenge_time s' \<le> t'"
  using assms
proof induction
  case (vendor g t' s' env buf n m rc out k s'')
  then have "last_challenge_time s' \<le> rma_now env" by (meson order_trans)
  then show ?case using response_budget [OF vendor.hyps(3)] vendor by blast
next
  case (console g t' s' env argv e s'')
  then have now: "last_challenge_time s' \<le> rma_now env" by (meson order_trans)
  show ?case
    using console.hyps(3)
  proof (cases rule: console_cases)
    case (sent buf n rc out k h h' u)
    then show ?thesis
      using response_budget [OF sent(3), of "last_challenge_time s" g "tries_left s"] console now by simp
  qed (use console now in simp)
qed (simp add: guesses_allowed_def)

text \<open>Runs with the list of the environments in which a challenge was asked for.\<close>

inductive rma_requests :: "rma_sys \<Rightarrow> rma_env list \<Rightarrow> rma_sys \<Rightarrow> bool" for s where
  start: "rma_requests s [] s"
| vendor: "\<lbrakk>rma_requests s envs s'; rma_challenge_response env buf n m s' = Some (rc, out, k, s'')\<rbrakk> \<Longrightarrow>
    rma_requests s (if vendor_request n m then envs @ [env] else envs) s''"
| console: "\<lbrakk>rma_requests s envs s'; rma_auth_cmd env argv s' = Some (e, s'')\<rbrakk> \<Longrightarrow>
    rma_requests s (if console_request env argv then envs @ [env] else envs) s''"

lemma response_ok:
  assumes "rma_challenge_response env buf n m s = Some (rc, out, k, s')" "rma_ok envs s"
  shows "rma_ok (if vendor_request n m then envs @ [env] else envs) s'"
proof (cases "vendor_request n m")
  case True
  then obtain e where "rma_create_challenge env s = Some (e, s')"
    using assms(1) by (auto simp: vendor_request_def rma_challenge_response_def get_challenge_def bind_eq_Some_conv split: if_splits)
  then show ?thesis using True create_frame(1) by simp
next
  case False
  show ?thesis
  proof (cases "n = 0")
    case True
    then have "s' = s" using False assms(1) by (simp add: vendor_request_def rma_challenge_response_def get_challenge_def)
    then show ?thesis using False assms(2) by simp
  next
    case n: False
    show ?thesis
      using assms(1)
    proof (cases rule: response_cases)
      case wrong
      then show ?thesis using False assms(2) rma_ok_cleared by (auto simp: Let_def rma_ok_def issued_def)
    next
      case right
      then show ?thesis using False rma_ok_cleared [of envs s] by (simp add: rma_ok_def clear_challenge_def issued_def)
    qed (use assms(2) False n in auto)
  qed
qed

lemma requests_ok: "rma_requests s envs s' \<Longrightarrow> rma_ok [] s \<Longrightarrow> rma_ok envs s'"
proof (induction rule: rma_requests.induct)
  case (console envs s' env argv e s'')
  from console.hyps(2) show ?case
  proof (cases rule: console_cases)
    case (none h)
    then show ?thesis using console by simp
  next
    case (sent buf n rc out k h h' u)
    have "vendor_request n RMA_CHALLENGE_BUF_SIZE = console_request env argv" using sent(5) by (simp add: vendor_request_def)
    then show ?thesis using response_ok [OF sent(3), of envs] console sent(1) by simp
  qed
qed (auto dest: response_ok)

section \<open>Properties\<close>

definition rma_boot :: "ccd_sys \<Rightarrow> rma_sys" where
  "rma_boot ccd = \<lparr>challenge = replicate RMA_CHALLENGE_BUF_SIZE 0, authcode = replicate RMA_AUTHCODE_BUF_SIZE 0,
     tries_left = 0, last_challenge_time = 0, shmem_held = 0, rma_ccd = ccd\<rparr>"

lemma rma_ok_boot: "rma_ok envs (rma_boot ccd)"
  by (simp add: rma_ok_def rma_boot_def rma_defs)

text \<open>(C10) Only the right answer unlocks: in every run from the start of the chip, a command that changes the state of case
  closed debugging carries eight characters, and they are those of the authorization code of the outstanding challenge: the one
  that the environment of the last challenge request determines, from the secret of its key exchange and the HMAC over its
  public key, board type and device identity (\<open>issued\<close>).  The challenge is used up, and the effect is to
  enable factory mode.\<close>

theorem rma_unlock_needs_code:
  assumes "rma_requests (rma_boot ccd) envs s"
    and "rma_challenge_response env buf n m s = Some (rc, out, k, s')"
    and "rma_ccd s' \<noteq> rma_ccd s" and "n \<le> length buf"
  shows "n = RMA_AUTHCODE_CHARS \<and> take n buf = take n (authcode s) \<and> envs \<noteq> [] \<and> issued (last envs) s \<and>
    rma_ccd s' = enable_ccd_factory_mode False (rma_ccd s) \<and> \<not> live s' \<and>
    rma_get_challenge s' = replicate RMA_CHALLENGE_BUF_SIZE 0"
proof -
  note ok = requests_ok [OF assms(1) rma_ok_boot, unfolded rma_ok_def]
  have "n = RMA_AUTHCODE_CHARS \<and> live s \<and> \<not> safe_memcmp (authcode s) buf RMA_AUTHCODE_CHARS \<and>
    s' = (clear_challenge (s\<lparr>tries_left := 0\<rparr>))\<lparr>rma_ccd := enable_ccd_factory_mode False (rma_ccd s)\<rparr>"
    using assms(2) by (cases rule: response_cases) (use assms(3) create_frame(2) in \<open>auto simp: Let_def\<close>)
  then show ?thesis
    using ok safe_memcmp_take [of n "authcode s" buf] assms(4)
    by (auto simp: live_def rma_get_challenge_def clear_challenge_def)
qed

text \<open>(C11) The number of guesses is limited by the clock: in every run, the answers compared with an authorization code are
  at most the tries that were left, and three more for each ten seconds since the last challenge.\<close>

theorem rma_guesses_limited:
  assumes "rma_trace t s g t' s'" and "last_challenge_time s \<le> t"
  shows "g \<le> tries_left s + 3 * ((unat t' - unat (last_challenge_time s)) div 10000000)"
proof -
  note b = trace_budget [OF assms]
  then have "g \<le> tries_left s + guesses_allowed (last_challenge_time s) t'"
    using guesses_allowed_mono [of "last_challenge_time s'" t' "last_challenge_time s"] by linarith
  then show ?thesis by (simp add: guesses_allowed_def unat_interval MAX_AUTHCODE_TRIES_def)
qed

text \<open>(C33) A challenge request returns exactly when it is refused early, when random bytes or the hash engine fail, or when
  rehashing the random bytes reaches a key pair whose public Y coordinate is odd (or a failure of the key
  exchange): there is no other bound on the search.\<close>

theorem rma_challenge_returns:
  "rma_create_challenge env s \<noteq> None \<longleftrightarrow>
     rma_now env - last_challenge_time s < CHALLENGE_INTERVAL \<or> rma_board_type env = None \<or>
     (\<exists>e. get_rma_device_id env = Inl e) \<or> rma_rand env = None \<or> \<not> rma_sha_ok env \<or>
     (\<exists>buf k. rma_rand env = Some buf \<and> conclusive env ((rma_sha256 env ^^ k) buf))"
proof -
  have search: "p256_get_pub_key_and_secret env = None \<longleftrightarrow> (\<exists>buf. rma_rand env = Some buf \<and> key_search env buf = None)"
    by (auto simp: p256_get_pub_key_and_secret_def bind_eq_None_conv simp del: not_None_eq split: option.splits)
  have "rma_create_challenge env s = None \<longleftrightarrow> \<not> rma_now env - last_challenge_time s < CHALLENGE_INTERVAL \<and>
     rma_board_type env \<noteq> None \<and> \<not> (\<exists>e. get_rma_device_id env = Inl e) \<and> p256_get_pub_key_and_secret env = None"
    by (auto simp: rma_create_challenge_def Let_def bind_eq_None_conv simp del: not_None_eq split: option.splits sum.splits)
  then show ?thesis unfolding search key_search_none by (cases "rma_rand env") auto
qed

text \<open>The characters of a challenge reply decode, with their CRC, to the version and key id, the public key of the
  exchange, and the board and device identity of the chip.\<close>

theorem rma_challenge_decodes:
  assumes "get_challenge env buf m s = Some (0, out, k, s')"
  shows "k = 80 \<and> (\<exists>pub_key secret board_type device_id d.
           p256_get_pub_key_and_secret env = Some (Inr (pub_key, secret)) \<and>
           rma_board_type env = Some board_type \<and> get_rma_device_id env = Inr device_id \<and>
           base32_decode (replicate 45 0) 360 (take k out) 9 = Some (360, d) \<and> length d = 45 \<and>
           (\<forall>i<360. bit_at d i = bit_at (challenge_bytes env pub_key board_type device_id) i))"
proof -
  have made: "rma_create_challenge env s = Some (EC_SUCCESS, s')" and m: "RMA_CHALLENGE_BUF_SIZE \<le> m"
    using assms by (auto simp: get_challenge_def bind_eq_Some_conv error_byte split: if_splits)
  obtain pub_key secret board_type device_id code where i:
    "p256_get_pub_key_and_secret env = Some (Inr (pub_key, secret))"
    "rma_board_type env = Some board_type" "get_rma_device_id env = Inr device_id"
    "base32_encode RMA_CHALLENGE_BUF_SIZE (challenge_bytes env pub_key board_type device_id) (8 * 45) 9 = (EC_SUCCESS, code)"
    "challenge s' = in_buffer RMA_CHALLENGE_BUF_SIZE code"
    using create_frame(4) [OF made HOL.refl] by (auto simp: issued_def)
  note enc = base32_encode_ok [OF i(4)]
  then have len: "length code = 80" using length_encode_loop [of 0 9] by (simp add: symbols_left_def)
  then have out: "k = 80" "take k out = code"
    using assms made m i(5) by (auto simp: get_challenge_def rma_get_challenge_def in_buffer_def rma_defs split: if_splits)
  obtain d where "base32_decode (replicate 45 0) 360 code 9 = Some (360, d)" "length d = 45"
    "\<forall>i<360. bit_at d i = bit_at (challenge_bytes env pub_key board_type device_id) i"
    using decode_encode_loop [of 360 "replicate 45 0" 0 9 0 0 "challenge_bytes env pub_key board_type device_id"] enc
    by (auto simp: base32_decode_def)
  then show ?thesis using i(1-3) out by auto
qed

text \<open>An exchange whose first candidate is a good key.\<close>

definition rma_example_env :: rma_env where
  "rma_example_env = \<lparr>rma_key_blob = replicate 66 0, rma_now = 20000000, rma_board_type = Some [1, 2, 3, 4],
     rma_unique_id = replicate 8 7, rma_rand = Some (replicate 31 0 @ [41]),
     rma_p256 = \<lparr>fips_crypto_allowed = True, p256_base_point_mul = (\<lambda>d. (DCRYPTO_OK, replicate 8 1, replicate 8 1)),
       p256_key_pwct = (\<lambda>d x y. DCRYPTO_OK)\<rparr>,
     rma_blinder = 1, rma_point_mul = (\<lambda>d x y. (DCRYPTO_OK, replicate 8 2, replicate 8 3)),
     rma_sha_ok = True, rma_sha256 = (\<lambda>b. b), rma_hmac_ok = True, rma_hmac = (\<lambda>k m. replicate 32 0),
     rma_mismatched = False, rma_shmem = EC_SUCCESS\<rparr>"

definition rma_example_bytes :: bytes where
  "rma_example_bytes = challenge_bytes rma_example_env (p256_to_bin (replicate 8 1)) [1, 2, 3, 4] (replicate 8 7)"

definition rma_example :: "ccd_sys \<Rightarrow> rma_sys" where
  "rma_example ccd = (rma_boot ccd)\<lparr>challenge := in_buffer RMA_CHALLENGE_BUF_SIZE (encode_loop rma_example_bytes 360 9 0 0 0),
     authcode := replicate 8 65 @ [0], tries_left := 3, last_challenge_time := 20000000\<rparr>"

lemma example_key:
  "\<exists>d. DCRYPTO_p256_key_from_bytes (rma_p256 rma_example_env) (rma_blinder rma_example_env) (replicate 31 0 @ [41]) =
   (DCRYPTO_OK, Some (replicate 8 1, replicate 8 1, d))"
proof -
  have "foldl (\<lambda>v b. 256 * v + unat b) 0 (replicate n (0 :: u8)) = 0" for n by (induction n) simp_all
  then have "be_value (replicate 31 0 @ [41]) = 41" by (simp add: be_value_def)
  then have v: "num (p256_from_bin (replicate 31 0 @ [41])) = 41" "length (p256_from_bin (replicate 31 0 @ [41])) = 8"
    using key_from_bin [of "replicate 31 0 @ [41]"] by simp_all
  have "41 < num SECP256r1_nMin2" using num_nMin2(1) by (simp add: p256_order_def)
  then have "fst (p256_lt_blinded st (p256_from_bin (replicate 31 0 @ [41])) SECP256r1_nMin2) = - 1" for st
    using v num_nMin2(2) by (simp add: p256_lt_blinded_correct)
  then show ?thesis
    by (simp add: DCRYPTO_p256_key_from_bytes_def rma_example_env_def Let_def word_sle_eq del: replicate.simps)
qed

lemma replicate_one: "replicate (Suc 0) x = [x]"
  by simp

lemma example_search: "\<exists>d. key_search rma_example_env (replicate 31 0 @ [41]) = Some (Inr (replicate 8 1, d))"
proof -
  have "p256_is_odd (replicate 8 1)" by (simp add: p256_is_odd_def)
  then show ?thesis using example_key by (subst key_search.simps) (auto simp del: replicate.simps)
qed

lemma example_exchange:
  "p256_get_pub_key_and_secret rma_example_env = Some (Inr (p256_to_bin (replicate 8 1), p256_to_bin (replicate 8 2)))"
proof -
  have "rma_rand rma_example_env = Some (replicate 31 0 @ [41])" "rma_point_mul rma_example_env d x y = (DCRYPTO_OK, replicate 8 2, replicate 8 3)" for d x y
    by (simp_all add: rma_example_env_def)
  then show ?thesis using example_search by (auto simp: p256_get_pub_key_and_secret_def Let_def simp del: replicate.simps)
qed

lemma example_authcode: "encode_loop (replicate 32 0) 40 0 0 0 0 = replicate 8 65"
  by code_simp

lemma example_created: "rma_create_challenge rma_example_env (rma_boot ccd) = Some (EC_SUCCESS, rma_example ccd)"
proof -
  have "get_rma_device_id rma_example_env = Inr (replicate 8 7)" "rma_board_type rma_example_env = Some [1, 2, 3, 4]"
    "rma_now rma_example_env = 20000000" "rma_hmac_ok rma_example_env" "rma_hmac rma_example_env x y = replicate 32 0" for x y
    by (simp_all add: get_rma_device_id_def rma_example_env_def rma_defs)
  then show ?thesis
    by (simp add: rma_create_challenge_def example_exchange finish_challenge_def get_hmac_sha256_def base32_encode_def
          rma_defs example_authcode replicate_one in_buffer_def rma_boot_def clear_challenge_def rma_example_def
        del: encode_loop.simps replicate.simps flip: rma_example_bytes_def)
qed

lemma example_challenge:
  "\<exists>out k. get_challenge rma_example_env [] 81 (rma_boot ccd) = Some (0, out, k, rma_example ccd)"
  by (simp add: get_challenge_def example_created rma_defs)

lemma example_trace: "rma_trace 0 (rma_boot ccd) 0 20000000 (rma_example ccd)"
proof -
  obtain out k where "rma_challenge_response rma_example_env [] 0 81 (rma_boot ccd) = Some (0, out, k, rma_example ccd)"
    using example_challenge [of ccd] by (auto simp: rma_challenge_response_def)
  moreover have "rma_now rma_example_env = 20000000" by (simp add: rma_example_env_def)
  ultimately show ?thesis using rma_trace.vendor [OF rma_trace.start [of 0 "rma_boot ccd"]] by (fastforce simp: rma_defs)
qed

lemma example_answer:
  "rma_challenge_response rma_example_env (replicate 8 65) 8 81 (rma_example ccd) =
   Some (0, replicate 8 65, 0, (clear_challenge ((rma_example ccd)\<lparr>tries_left := 0\<rparr>))
     \<lparr>rma_ccd := enable_ccd_factory_mode False ccd\<rparr>)"
proof -
  have "\<not> safe_memcmp (authcode (rma_example ccd)) (replicate 8 65) 8"
    by (subst safe_memcmp_take) (simp_all add: rma_example_def del: replicate.simps)
  moreover have "live (rma_example ccd)" by (simp add: live_def rma_example_def nth_append)
  ultimately show ?thesis
    by (simp add: rma_challenge_response_def process_response_def rma_try_authcode_def live_def rma_defs Let_def
          rma_example_def rma_boot_def clear_challenge_def del: replicate.simps)
qed

lemma example_requests: "rma_requests (rma_boot ccd) [rma_example_env] (rma_example ccd)"
proof -
  obtain out k where "rma_challenge_response rma_example_env [] 0 81 (rma_boot ccd) = Some (0, out, k, rma_example ccd)"
    using example_challenge [of ccd] by (auto simp: rma_challenge_response_def)
  from rma_requests.vendor [OF rma_requests.start this] show ?thesis by (simp add: vendor_request_def rma_defs)
qed

theorem rma_unlock_needs_code_witness:
  "\<forall>ccd. issued rma_example_env (rma_example ccd) \<and> take 8 (authcode (rma_example ccd)) = replicate 8 65"
proof
  fix ccd
  have "ccd_events (enable_ccd_factory_mode False ccd) \<noteq> ccd_events ccd"
    by (simp add: enable_ccd_factory_mode_def ccd_event_def)
  then have "enable_ccd_factory_mode False ccd \<noteq> ccd" by auto
  moreover have "rma_ccd (rma_example ccd) = ccd" by (simp add: rma_example_def rma_boot_def)
  ultimately show "issued rma_example_env (rma_example ccd) \<and> take 8 (authcode (rma_example ccd)) = replicate 8 65"
    using rma_unlock_needs_code [OF example_requests [of ccd] example_answer] by (auto simp: RMA_AUTHCODE_CHARS_def)
qed

theorem rma_guesses_limited_witness:
  "\<forall>ccd. \<exists>s'. rma_trace 0 (rma_boot ccd) 1 20000000 s' \<and> (1 :: nat) \<le> 0 + 3 * ((20000000 - 0) div 10000000)"
proof
  fix ccd
  have "rma_now rma_example_env = 20000000" "live (rma_example ccd)"
    by (simp_all add: rma_example_env_def live_def rma_example_def nth_append)
  then obtain s' where t: "rma_trace 0 (rma_boot ccd) 1 20000000 s'"
    using rma_trace.vendor [OF example_trace [of ccd] _ example_answer] by (auto simp: rma_defs)
  have "last_challenge_time (rma_boot ccd) = 0" "tries_left (rma_boot ccd) = 0" by (simp_all add: rma_boot_def)
  then show "\<exists>s'. rma_trace 0 (rma_boot ccd) 1 20000000 s' \<and> (1 :: nat) \<le> 0 + 3 * ((20000000 - 0) div 10000000)"
    using rma_guesses_limited [OF t] t by auto
qed

theorem rma_challenge_returns_witness: "\<forall>ccd. rma_create_challenge rma_example_env (rma_boot ccd) \<noteq> None"
proof
  fix ccd
  have "p256_is_odd (replicate 8 1)" by (simp add: p256_is_odd_def)
  then have "conclusive rma_example_env ((rma_sha256 rma_example_env ^^ 0) (replicate 31 0 @ [41]))"
    using example_key by (auto simp: conclusive_def simp del: replicate.simps)
  moreover have "rma_rand rma_example_env = Some (replicate 31 0 @ [41])" by (simp add: rma_example_env_def)
  ultimately show "rma_create_challenge rma_example_env (rma_boot ccd) \<noteq> None"
    using rma_challenge_returns [of rma_example_env "rma_boot ccd"] by blast
qed

theorem rma_challenge_decodes_witness:
  "\<forall>ccd. \<exists>out d. get_challenge rma_example_env [] 81 (rma_boot ccd) = Some (0, out, 80, rma_example ccd) \<and>
     base32_decode (replicate 45 0) 360 (take 80 out) 9 = Some (360, d)"
proof
  fix ccd
  obtain out k where c: "get_challenge rma_example_env [] 81 (rma_boot ccd) = Some (0, out, k, rma_example ccd)"
    using example_challenge by blast
  from rma_challenge_decodes [OF this] c
  show "\<exists>out d. get_challenge rma_example_env [] 81 (rma_boot ccd) = Some (0, out, 80, rma_example ccd) \<and>
     base32_decode (replicate 45 0) 360 (take 80 out) 9 = Some (360, d)" by blast
qed

end
