(* ===== verification/Flash_Log.thy ===== *)
theory Flash_Log
  imports Crc8 C_Strings Vendor_Cmd
begin

text \<open>
  The flash event log of \<open>src/common/flash_log.c\<close> with the vendor commands of
  \<open>src/common/flash_log_vc.c\<close>: entries of variable size in one flash page, written with
  a time stamp and a checksum, retrieved one after the other by time stamp, compacted when the
  page fills up.

  The page is a list of bytes and a pointer into it an offset; \<open>log_behind\<close> are the
  bytes of flash behind the page, which the code reads when an offset comes too close to the end.
  Programming clears bits and erasing sets them.  The answers of the chip driver are taken from
  \<open>log_write_results\<close> and \<open>log_erase_results\<close> (an exhausted list answers
  \<open>EC_SUCCESS\<close>), a failing operation leaves the cells as they were, and so does one
  on a region that is not enabled for writing.  That the driver reports its own failures to this
  log (\<open>log_do_flash_op_errors\<close> of \<open>src/chip/g/flash.c\<close>) is not represented.
  The cursors are natural numbers: they never exceed the 2048 bytes of the page, which is part of
  \<open>log_holds\<close>.  What a call sees of its surroundings (the time since start-up, interrupt
  context, whether memory for a compaction can be allocated) is a \<open>flog_env\<close>; an operation
  that consists of several accesses takes one for each.
\<close>

section \<open>Layout and state\<close>

definition FE_LOG_START :: u8 where "FE_LOG_START = 0"
definition FE_LOG_CORRUPTED :: u8 where "FE_LOG_CORRUPTED = 1"
definition FE_LOG_OVERFLOWS :: u8 where "FE_LOG_OVERFLOWS = 3"
definition FE_LOG_LOCKS :: u8 where "FE_LOG_LOCKS = 4"
definition FE_LOG_PAD :: u8 where "FE_LOG_PAD = 253"
definition FLASH_LOG_NO_ENTRY :: u32 where "FLASH_LOG_NO_ENTRY = 0xff"

definition CONFIG_FLASH_LOG_SPACE :: nat where "CONFIG_FLASH_LOG_SPACE = 2048"
definition CONFIG_FLASH_ERASED_VALUE32 :: u32 where "CONFIG_FLASH_ERASED_VALUE32 = - 1"
definition MAX_FLASH_LOG_PAYLOAD_SIZE :: u8 where "MAX_FLASH_LOG_PAYLOAD_SIZE = push_bit 6 1 - 1"
definition COMPACTION_SPACE_PRESERVE :: nat where "COMPACTION_SPACE_PRESERVE = CONFIG_FLASH_LOG_SPACE div 4"
definition STARTUP_LOG_FULL_WATERMARK :: nat where "STARTUP_LOG_FULL_WATERMARK = CONFIG_FLASH_LOG_SPACE * 3 div 4"
definition RUN_TIME_LOG_FULL_WATERMARK :: nat where "RUN_TIME_LOG_FULL_WATERMARK = CONFIG_FLASH_LOG_SPACE * 9 div 10"

text \<open>The header is packed: a time stamp of four bytes, then size, type and checksum.\<close>

definition FLASH_LOG_PAYLOAD_SIZE :: "u8 \<Rightarrow> nat" where
  "FLASH_LOG_PAYLOAD_SIZE sz = unat (sz AND MAX_FLASH_LOG_PAYLOAD_SIZE)"

definition FLASH_LOG_ENTRY_SIZE :: "u8 \<Rightarrow> nat" where
  "FLASH_LOG_ENTRY_SIZE payload_sz = (FLASH_LOG_PAYLOAD_SIZE payload_sz + 7 + 4 - 1) div 4 * 4"

record flog =
  log_page :: bytes
  log_behind :: "nat \<Rightarrow> u8"
  log_read_cursor :: nat
  log_prev_timestamp :: u32
  log_write_cursor :: nat
  log_tstamp_base :: u32
  last_used_timestamp :: u32
  log_inited :: bool
  log_event_in_progress :: bool
  lock_failures_count :: u32
  overflow_failures_count :: u32
  platform_flash_control :: bool
  log_region_writable :: bool
  log_write_results :: "ec_error list"
  log_erase_results :: "ec_error list"

record flog_env =
  fe_time :: u64
  fe_interrupt :: bool
  fe_heap :: bool

section \<open>Access to the page\<close>

definition log_byte :: "flog \<Rightarrow> nat \<Rightarrow> u8" where
  "log_byte s i = (if i < length (log_page s) then log_page s ! i else log_behind s (i - length (log_page s)))"

definition log_bytes :: "flog \<Rightarrow> nat \<Rightarrow> nat \<Rightarrow> bytes" where
  "log_bytes s off n = map (log_byte s) [off..<off + n]"

definition entry_timestamp :: "flog \<Rightarrow> nat \<Rightarrow> u32" where
  "entry_timestamp s off = of_le (log_bytes s off 4)"

definition entry_size :: "flog \<Rightarrow> nat \<Rightarrow> u8" where
  "entry_size s off = log_byte s (off + 4)"

definition log_chip_ok :: "flog \<Rightarrow> ec_error list \<Rightarrow> ec_error" where
  "log_chip_ok s results =
     (if platform_flash_control s \<and> \<not> log_region_writable s then EC_ERROR_ACCESS_DENIED
      else case results of [] \<Rightarrow> EC_SUCCESS | rv # _ \<Rightarrow> rv)"

definition flash_log_erase :: "flog \<Rightarrow> ec_error \<times> flog" where
  "flash_log_erase s =
     (let rv = log_chip_ok s (log_erase_results s);
          s' = s\<lparr>log_erase_results := tl (log_erase_results s)\<rparr>
      in if rv = EC_SUCCESS then (rv, s'\<lparr>log_page := replicate CONFIG_FLASH_LOG_SPACE 0xFF\<rparr>) else (rv, s'))"

definition program_cells :: "bytes \<Rightarrow> nat \<Rightarrow> bytes \<Rightarrow> bytes" where
  "program_cells page off data =
     map (\<lambda>i. if off \<le> i \<and> i < off + length data then page ! i AND data ! (i - off) else page ! i) [0..<length page]"

definition flash_log_write :: "nat \<Rightarrow> bytes \<Rightarrow> flog \<Rightarrow> ec_error \<times> flog" where
  "flash_log_write off data s =
     (let rv = log_chip_ok s (log_write_results s);
          s' = s\<lparr>log_write_results := tl (log_write_results s)\<rparr>
      in if rv = EC_SUCCESS then (rv, s'\<lparr>log_page := program_cells (log_page s) off data\<rparr>) else (rv, s'))"

definition flash_log_write_enable :: "flog \<Rightarrow> flog" where
  "flash_log_write_enable s = (if platform_flash_control s then s\<lparr>log_region_writable := True\<rparr> else s)"

definition flash_log_write_disable :: "flog \<Rightarrow> flog" where
  "flash_log_write_disable s = (if platform_flash_control s then s\<lparr>log_region_writable := False\<rparr> else s)"

definition flash_log_register_flash_control_callback :: "flog \<Rightarrow> flog" where
  "flash_log_register_flash_control_callback s = s\<lparr>platform_flash_control := True\<rparr>"

definition calc_crc8 :: "bytes \<Rightarrow> u8 \<Rightarrow> u8" where
  "calc_crc8 buf prev = crc8_arg buf prev"

definition flash_log_lock_successful :: "flog_env \<Rightarrow> flog \<Rightarrow> bool \<times> flog" where
  "flash_log_lock_successful e s =
     (if fe_interrupt e then (False, s)
      else if \<not> log_inited s then (False, s)
      else if log_event_in_progress s then (False, s)
      else (True, s\<lparr>log_event_in_progress := True\<rparr>))"

definition entry_is_valid :: "flog \<Rightarrow> nat \<Rightarrow> bool" where
  "entry_is_valid s off =
     (if CONFIG_FLASH_LOG_SPACE < off + FLASH_LOG_ENTRY_SIZE (entry_size s off) then False
      else
        (let crc = calc_crc8 (log_bytes s off 6 @ [0]) 0;
             crc' = calc_crc8 (log_bytes s (off + 7) (FLASH_LOG_PAYLOAD_SIZE (entry_size s off))) crc
         in crc' = log_byte s (off + 6)))"

lemma entry_space_pos: "8 \<le> FLASH_LOG_ENTRY_SIZE sz"
  by (simp add: FLASH_LOG_ENTRY_SIZE_def)

lemma entry_is_valid_fits: "entry_is_valid s off \<Longrightarrow> off + FLASH_LOG_ENTRY_SIZE (entry_size s off) \<le> CONFIG_FLASH_LOG_SPACE"
  by (simp add: entry_is_valid_def not_less split: if_splits)

section \<open>Compaction\<close>

text \<open>The buffer holds \<open>compac_cursor\<close> bytes.\<close>

function log_compact_loop :: "flog \<Rightarrow> nat \<Rightarrow> bytes \<Rightarrow> bytes" where
  "log_compact_loop s read_cursor buf =
     (if read_cursor < log_write_cursor s then
        if \<not> entry_is_valid s read_cursor then buf
        else
          (let entry_space = FLASH_LOG_ENTRY_SIZE (entry_size s read_cursor)
           in log_compact_loop s (read_cursor + entry_space)
                (if log_write_cursor s - read_cursor \<le> COMPACTION_SPACE_PRESERVE
                 then buf @ log_bytes s read_cursor entry_space else buf))
      else buf)"
  by pat_completeness auto
termination
  by (relation "measure (\<lambda>(s, c, b). log_write_cursor s - c)") (auto simp: FLASH_LOG_ENTRY_SIZE_def)

definition try_compacting :: "flog_env \<Rightarrow> flog \<Rightarrow> flog" where
  "try_compacting e s =
     (if \<not> fe_heap e then s
      else
        (let buf = log_compact_loop s 0 [];
             s1 = flash_log_write_enable s;
             s2 = snd (flash_log_erase s1);
             s3 = snd (flash_log_write 0 buf s2);
             s4 = flash_log_write_disable (s3\<lparr>log_write_cursor := length buf\<rparr>)
         in s4\<lparr>log_read_cursor := 0, log_prev_timestamp := 0\<rparr>))"

section \<open>Adding events\<close>

definition flash_log_get_tstamp :: "flog_env \<Rightarrow> flog \<Rightarrow> u32" where
  "flash_log_get_tstamp e s = ucast (ucast (log_tstamp_base s) + fe_time e div 1000000)"

definition flash_log_set_tstamp :: "flog_env \<Rightarrow> u32 \<Rightarrow> flog \<Rightarrow> ec_error \<times> flog" where
  "flash_log_set_tstamp e tstamp s =
     (if tstamp \<le> last_used_timestamp s then (EC_ERROR_INVAL, s)
      else (EC_SUCCESS, s\<lparr>log_tstamp_base := ucast (ucast tstamp - fe_time e div 1000000)\<rparr>))"

definition next_timestamp :: "flog_env \<Rightarrow> flog \<Rightarrow> u32" where
  "next_timestamp e s =
     (let new_timestamp = flash_log_get_tstamp e s
      in if new_timestamp \<le> last_used_timestamp s then last_used_timestamp s + 1 else new_timestamp)"

text \<open>The bytes of an entry: the checksum is computed with its field zero, and the entry is padded
  to a multiple of the write size.\<close>

definition entry_bytes :: "u32 \<Rightarrow> u8 \<Rightarrow> u8 \<Rightarrow> bytes \<Rightarrow> bytes" where
  "entry_bytes timestamp sz type payload =
     (let body = take (unat sz) payload;
          crc = calc_crc8 (to_le 4 timestamp @ [sz, type, 0] @ body) 0
      in to_le 4 timestamp @ [sz, type, crc] @ body @
         replicate (FLASH_LOG_ENTRY_SIZE sz - (7 + unat sz)) FE_LOG_PAD)"

definition flash_log_add_event_core :: "flog_env \<Rightarrow> u8 \<Rightarrow> u8 \<Rightarrow> bytes \<Rightarrow> flog \<Rightarrow> ec_error \<times> flog" where
  "flash_log_add_event_core e type sz payload s =
     (if MAX_FLASH_LOG_PAYLOAD_SIZE < sz then (EC_ERROR_INVAL, s)
      else case flash_log_lock_successful e s of
        (False, s0) \<Rightarrow> (EC_ERROR_INVAL, s0\<lparr>lock_failures_count := lock_failures_count s0 + 1\<rparr>)
      | (True, s0) \<Rightarrow>
          (let s1 = (if RUN_TIME_LOG_FULL_WATERMARK < log_write_cursor s0 then try_compacting e s0 else s0)
           in if CONFIG_FLASH_LOG_SPACE - log_write_cursor s1 < FLASH_LOG_ENTRY_SIZE sz
              then (EC_ERROR_INVAL,
                    s1\<lparr>overflow_failures_count := overflow_failures_count s1 + 1, log_event_in_progress := False\<rparr>)
              else
                (let ts = next_timestamp e s1;
                     s2 = flash_log_write_enable (s1\<lparr>last_used_timestamp := ts\<rparr>);
                     s3 = snd (flash_log_write (log_write_cursor s2) (entry_bytes ts sz type payload) s2);
                     s4 = flash_log_write_disable s3
                 in (EC_SUCCESS,
                     s4\<lparr>log_write_cursor := log_write_cursor s4 + FLASH_LOG_ENTRY_SIZE sz,
                        log_event_in_progress := False\<rparr>))))"

text \<open>The counter is passed by reference: its value, and the update that clears it.\<close>

definition log_report_failure :: "flog_env \<Rightarrow> u8 \<Rightarrow> (flog \<Rightarrow> u32) \<Rightarrow> (flog \<Rightarrow> flog) \<Rightarrow> flog \<Rightarrow> flog" where
  "log_report_failure e type counter clear s =
     (let reported_counter = ucast (counter s) :: u8;
          capped = (if 255 < unat reported_counter then 255 else reported_counter)
      in case flash_log_add_event_core e type 1 [capped] s of
           (rv, s') \<Rightarrow> if rv = EC_SUCCESS then clear s' else s')"

definition flash_log_add_event :: "(nat \<Rightarrow> flog_env) \<Rightarrow> u8 \<Rightarrow> u8 \<Rightarrow> bytes \<Rightarrow> flog \<Rightarrow> flog" where
  "flash_log_add_event e type sz payload s =
     (let s1 = (if lock_failures_count s \<noteq> 0
                then log_report_failure (e 0) FE_LOG_LOCKS lock_failures_count (\<lambda>s. s\<lparr>lock_failures_count := 0\<rparr>) s
                else s);
          s2 = (if overflow_failures_count s1 \<noteq> 0
                then log_report_failure (e 1) FE_LOG_OVERFLOWS overflow_failures_count
                       (\<lambda>s. s\<lparr>overflow_failures_count := 0\<rparr>) s1
                else s1)
      in snd (flash_log_add_event_core (e 2) type sz payload s2))"

section \<open>Retrieving events\<close>

text \<open>The loop ends with the offset of the entry found or with the code to return, and with the
  read cursor.\<close>

function dequeue_loop :: "flog \<Rightarrow> u32 \<Rightarrow> nat \<Rightarrow> (int + nat) \<times> nat" where
  "dequeue_loop s event_after cursor =
     (if entry_timestamp s cursor = CONFIG_FLASH_ERASED_VALUE32 then (Inl 0, cursor)
      else if \<not> entry_is_valid s cursor then (Inl (- int (ec_error_code EC_ERROR_INVAL)), cursor)
      else
        (let cursor' = cursor + FLASH_LOG_ENTRY_SIZE (entry_size s cursor)
         in if entry_timestamp s cursor \<le> event_after then dequeue_loop s event_after cursor'
            else (Inr cursor, cursor')))"
  by pat_completeness auto
termination
proof (relation "measure (\<lambda>(s, a, c). CONFIG_FLASH_LOG_SPACE - c)")
  fix s :: flog and a :: u32 and c x :: nat
  assume "\<not> \<not> entry_is_valid s c" and "x = c + FLASH_LOG_ENTRY_SIZE (entry_size s c)"
  then show "((s, a, x), s, a, c) \<in> measure (\<lambda>(s, a, c). CONFIG_FLASH_LOG_SPACE - c)"
    using entry_is_valid_fits [of s c] entry_space_pos [of "entry_size s c"] by simp
qed simp

text \<open>The result, the bytes copied to the caller's buffer, and the state.\<close>

definition flash_log_dequeue_event :: "flog_env \<Rightarrow> u32 \<Rightarrow> nat \<Rightarrow> flog \<Rightarrow> int \<times> bytes \<times> flog" where
  "flash_log_dequeue_event e event_after buffer_size s =
     (case flash_log_lock_successful e s of
        (False, s0) \<Rightarrow> (- int (ec_error_code EC_ERROR_BUSY), [], s0)
      | (True, s0) \<Rightarrow>
          (let s1 = (if event_after = 0 \<or> event_after < log_prev_timestamp s0
                     then s0\<lparr>log_read_cursor := 0, log_prev_timestamp := 0\<rparr> else s0)
           in if CONFIG_FLASH_LOG_SPACE - 7 < log_read_cursor s1 then (0, [], s1\<lparr>log_event_in_progress := False\<rparr>)
              else case dequeue_loop s1 event_after (log_read_cursor s1) of
                (Inl rv, cursor) \<Rightarrow> (rv, [], s1\<lparr>log_read_cursor := cursor, log_event_in_progress := False\<rparr>)
              | (Inr off, cursor) \<Rightarrow>
                  (let copy_size = FLASH_LOG_PAYLOAD_SIZE (entry_size s1 off) + 7
                   in if buffer_size < copy_size
                      then (- int (ec_error_code EC_ERROR_MEMORY_ALLOCATION), [],
                            s1\<lparr>log_read_cursor := 0, log_prev_timestamp := 0, log_event_in_progress := False\<rparr>)
                      else (int copy_size, log_bytes s1 off copy_size,
                            s1\<lparr>log_read_cursor := cursor, log_prev_timestamp := entry_timestamp s1 off,
                               log_event_in_progress := False\<rparr>))))"

section \<open>Initialization\<close>

function init_loop :: "flog \<Rightarrow> nat \<Rightarrow> u32 \<Rightarrow> nat \<times> u32" where
  "init_loop s read_cursor last_used =
     (if entry_is_valid s read_cursor
      then init_loop s (read_cursor + FLASH_LOG_ENTRY_SIZE (entry_size s read_cursor)) (entry_timestamp s read_cursor)
      else (read_cursor, last_used))"
  by pat_completeness auto
termination
proof (relation "measure (\<lambda>(s, c, l). CONFIG_FLASH_LOG_SPACE - c)")
  fix s :: flog and l :: u32 and c :: nat
  assume "entry_is_valid s c"
  then show "((s, c + FLASH_LOG_ENTRY_SIZE (entry_size s c), entry_timestamp s c), s, c, l)
      \<in> measure (\<lambda>(s, c, l). CONFIG_FLASH_LOG_SPACE - c)"
    using entry_is_valid_fits [of s c] entry_space_pos [of "entry_size s c"] by simp
qed simp

definition flash_log_init :: "(nat \<Rightarrow> flog_env) \<Rightarrow> flog \<Rightarrow> flog" where
  "flash_log_init e s =
     (case init_loop s 0 (last_used_timestamp s) of
        (read_cursor, last_used) \<Rightarrow>
          (let s1 = flash_log_write_enable
                      (s\<lparr>last_used_timestamp := last_used, log_tstamp_base := last_used + 1,
                         log_write_cursor := read_cursor, log_inited := True\<rparr>)
           in if entry_timestamp s1 read_cursor \<noteq> CONFIG_FLASH_ERASED_VALUE32
              then flash_log_write_disable
                     (flash_log_add_event (\<lambda>i. e (Suc i)) FE_LOG_CORRUPTED 0 [] (try_compacting (e 0) s1))
              else flash_log_write_disable
                     (if read_cursor \<noteq> 0
                      then if STARTUP_LOG_FULL_WATERMARK < read_cursor then try_compacting (e 0) s1 else s1
                      else flash_log_add_event e FE_LOG_START 0 [] s1)))"

section \<open>Vendor commands\<close>

definition vc_pop_log_entry :: "flog_env \<Rightarrow> flog vendor_handler" where
  "vc_pop_log_entry e p s =
     (if vc_in_size p \<noteq> 4 then (VENDOR_RC_BOGUS_ARGS, p\<lparr>vc_out_size := 0\<rparr>, s)
      else case flash_log_dequeue_event e (of_le (take 4 (vc_buffer p)))
                  (FLASH_LOG_ENTRY_SIZE MAX_FLASH_LOG_PAYLOAD_SIZE) s of
        (byte_size, bytes, s') \<Rightarrow>
          if 0 \<le> byte_size
          then (VENDOR_RC_SUCCESS, p\<lparr>vc_buffer := blit (vc_buffer p) 0 bytes, vc_out_size := of_int byte_size\<rparr>, s')
          else (VENDOR_RC_INTERNAL_ERROR,
                p\<lparr>vc_buffer := (vc_buffer p)[0 := of_int (- byte_size)], vc_out_size := 1\<rparr>, s'))"

definition vc_flog_tstamp :: "flog_env \<Rightarrow> flog vendor_handler" where
  "vc_flog_tstamp e p s =
     (if vc_in_size p = 0
      then (VENDOR_RC_SUCCESS,
            p\<lparr>vc_buffer := blit (vc_buffer p) 0 (rev (to_le 4 (flash_log_get_tstamp e s))), vc_out_size := 4\<rparr>, s)
      else if vc_in_size p \<noteq> 4 then (VENDOR_RC_BOGUS_ARGS, p, s)
      else case flash_log_set_tstamp e (of_le (rev (take 4 (vc_buffer p)))) s of
        (rv, s') \<Rightarrow>
          if rv = EC_SUCCESS then (VENDOR_RC_SUCCESS, p\<lparr>vc_out_size := 0\<rparr>, s')
          else (VENDOR_RC_BOGUS_ARGS,
                p\<lparr>vc_buffer := (vc_buffer p)[0 := of_nat (ec_error_code rv)], vc_out_size := 1\<rparr>, s'))"

declare log_compact_loop.simps [simp del] dequeue_loop.simps [simp del] init_loop.simps [simp del]

section \<open>The log as a list of events\<close>

record log_event =
  ev_timestamp :: u32
  ev_type :: u8
  ev_payload :: bytes

definition event_bytes :: "log_event \<Rightarrow> bytes" where
  "event_bytes ev = entry_bytes (ev_timestamp ev) (of_nat (length (ev_payload ev))) (ev_type ev) (ev_payload ev)"

definition event_ok :: "log_event \<Rightarrow> bool" where
  "event_ok ev \<longleftrightarrow> length (ev_payload ev) \<le> 63 \<and> ev_timestamp ev \<noteq> CONFIG_FLASH_ERASED_VALUE32"

definition events_bytes :: "log_event list \<Rightarrow> bytes" where
  "events_bytes evs = concat (map event_bytes evs)"

text \<open>The page holds the events and is erased behind them.\<close>

definition page_holds :: "bytes \<Rightarrow> log_event list \<Rightarrow> bool" where
  "page_holds page evs \<longleftrightarrow>
     list_all event_ok evs \<and> length page = CONFIG_FLASH_LOG_SPACE \<and> length (events_bytes evs) \<le> CONFIG_FLASH_LOG_SPACE \<and>
     page = events_bytes evs @ replicate (CONFIG_FLASH_LOG_SPACE - length (events_bytes evs)) 0xFF"

subsection \<open>Entries in a page\<close>

lemma payload_size: "n \<le> 63 \<Longrightarrow> FLASH_LOG_PAYLOAD_SIZE (of_nat n) = n"
proof -
  assume n: "n \<le> 63"
  have "FLASH_LOG_PAYLOAD_SIZE (of_nat n) = unat (of_nat n AND mask 6 :: u8)"
    by (simp add: FLASH_LOG_PAYLOAD_SIZE_def MAX_FLASH_LOG_PAYLOAD_SIZE_def mask_eq_exp_minus_1)
  also have "\<dots> = unat (of_nat n :: u8) mod 2 ^ 6" by (rule unat_and_mask)
  finally show ?thesis using n by (simp add: unat_of_nat)
qed

lemma entry_space: "n \<le> 63 \<Longrightarrow> FLASH_LOG_ENTRY_SIZE (of_nat n) = (n + 10) div 4 * 4"
  by (simp add: FLASH_LOG_ENTRY_SIZE_def payload_size)

lemma length_event_bytes:
  assumes "event_ok ev"
  shows "length (event_bytes ev) = (length (ev_payload ev) + 10) div 4 * 4"
proof -
  let ?n = "length (ev_payload ev)"
  have n: "?n \<le> 63" using assms by (simp add: event_ok_def)
  then have "unat (of_nat ?n :: u8) = ?n" by (simp add: unat_of_nat)
  moreover have "7 + ?n \<le> (?n + 10) div 4 * 4" by linarith
  ultimately show ?thesis using n by (simp add: event_bytes_def entry_bytes_def Let_def entry_space)
qed

lemma event_bytes_unfold:
  assumes "event_ok ev"
  shows "event_bytes ev = to_le 4 (ev_timestamp ev) @
     [of_nat (length (ev_payload ev)), ev_type ev,
      calc_crc8 (to_le 4 (ev_timestamp ev) @ [of_nat (length (ev_payload ev)), ev_type ev, 0] @ ev_payload ev) 0] @
     ev_payload ev @ replicate ((length (ev_payload ev) + 10) div 4 * 4 - (7 + length (ev_payload ev))) FE_LOG_PAD"
proof -
  have n: "length (ev_payload ev) \<le> 63" using assms by (simp add: event_ok_def)
  then have "unat (of_nat (length (ev_payload ev)) :: u8) = length (ev_payload ev)" by (simp add: unat_of_nat)
  then show ?thesis using n by (simp add: event_bytes_def entry_bytes_def Let_def entry_space)
qed

lemma length_log_bytes [simp]: "length (log_bytes s off n) = n"
  by (simp add: log_bytes_def)

lemma log_bytes_page:
  "off + n \<le> length (log_page s) \<Longrightarrow> log_bytes s off n = take n (drop off (log_page s))"
  by (rule nth_equalityI) (auto simp: log_bytes_def log_byte_def)

lemma log_bytes_at:
  "log_page s = xs @ ys @ zs \<Longrightarrow> off = length xs \<Longrightarrow> n = length ys \<Longrightarrow> log_bytes s off n = ys"
  by (subst log_bytes_page) simp_all

lemma log_byte_at: "log_page s = xs @ y # zs \<Longrightarrow> off = length xs \<Longrightarrow> log_byte s off = y"
  by (simp add: log_byte_def)

lemma entry_at:
  assumes page: "log_page s = xs @ event_bytes ev @ zs" and off: "off = length xs" and ok: "event_ok ev"
  shows "entry_timestamp s off = ev_timestamp ev"
    and "entry_size s off = of_nat (length (ev_payload ev))"
    and "FLASH_LOG_ENTRY_SIZE (entry_size s off) = length (event_bytes ev)"
    and "log_bytes s off (length (event_bytes ev)) = event_bytes ev"
    and "log_bytes s off (FLASH_LOG_PAYLOAD_SIZE (entry_size s off) + 7) = take (7 + length (ev_payload ev)) (event_bytes ev)"
    and "length (log_page s) = CONFIG_FLASH_LOG_SPACE \<Longrightarrow> entry_is_valid s off"
proof -
  let ?h = "to_le 4 (ev_timestamp ev)" and ?n = "length (ev_payload ev)"
  let ?crc = "calc_crc8 (?h @ [of_nat ?n, ev_type ev, 0] @ ev_payload ev) 0"
  let ?pad = "replicate ((?n + 10) div 4 * 4 - (7 + ?n)) FE_LOG_PAD"
  note eb = event_bytes_unfold [OF ok]
  have n: "?n \<le> 63" using ok by (simp add: event_ok_def)
  have "log_bytes s off 4 = ?h"
    by (rule log_bytes_at [where xs = xs and zs = "[of_nat ?n, ev_type ev, ?crc] @ ev_payload ev @ ?pad @ zs"])
      (simp_all add: page off eb)
  then show "entry_timestamp s off = ev_timestamp ev" by (simp add: entry_timestamp_def of_le_to_le)
  show es: "entry_size s off = of_nat ?n"
    unfolding entry_size_def
    by (rule log_byte_at [where xs = "xs @ ?h" and zs = "[ev_type ev, ?crc] @ ev_payload ev @ ?pad @ zs"])
      (simp_all add: page off eb)
  show sp: "FLASH_LOG_ENTRY_SIZE (entry_size s off) = length (event_bytes ev)"
    unfolding es using n ok by (simp only: entry_space length_event_bytes)
  show "log_bytes s off (length (event_bytes ev)) = event_bytes ev"
    by (rule log_bytes_at [OF page off HOL.refl])
  have b7: "log_bytes s (off + 7) ?n = ev_payload ev"
    by (rule log_bytes_at [where xs = "xs @ ?h @ [of_nat ?n, ev_type ev, ?crc]" and zs = "?pad @ zs"])
      (simp_all add: page off eb)
  have b6: "log_bytes s off 6 = ?h @ [of_nat ?n, ev_type ev]"
    by (rule log_bytes_at [where xs = xs and zs = "[?crc] @ ev_payload ev @ ?pad @ zs"]) (simp_all add: page off eb)
  have c: "log_byte s (off + 6) = ?crc"
    by (rule log_byte_at [where xs = "xs @ ?h @ [of_nat ?n, ev_type ev]" and zs = "ev_payload ev @ ?pad @ zs"])
      (simp_all add: page off eb)
  show "log_bytes s off (FLASH_LOG_PAYLOAD_SIZE (entry_size s off) + 7) = take (7 + ?n) (event_bytes ev)"
    unfolding es payload_size [OF n]
    by (rule log_bytes_at [where xs = xs and zs = "?pad @ zs"]) (simp_all add: page off eb numeral_3_eq_3)
  show "entry_is_valid s off" if "length (log_page s) = CONFIG_FLASH_LOG_SPACE"
  proof -
    have "off + length (event_bytes ev) \<le> CONFIG_FLASH_LOG_SPACE" using that page off by simp
    moreover have "calc_crc8 (ev_payload ev) (calc_crc8 (log_bytes s off 6 @ [0]) 0) = ?crc"
      unfolding calc_crc8_def b6 crc8_arg_append [symmetric] by simp
    ultimately show ?thesis
      by (simp add: entry_is_valid_def sp Let_def b7 c) (simp add: es payload_size [OF n] b7)
  qed
qed

subsection \<open>Walking over the page\<close>

lemma events_bytes_simps [simp]:
  "events_bytes [] = []" "events_bytes (ev # evs) = event_bytes ev @ events_bytes evs"
  "events_bytes (evs @ evs') = events_bytes evs @ events_bytes evs'"
  by (simp_all add: events_bytes_def)

lemma dvd_event_bytes: "event_ok ev \<Longrightarrow> 4 dvd length (event_bytes ev)"
  by (simp add: length_event_bytes)

lemma dvd_events_bytes: "list_all event_ok evs \<Longrightarrow> 4 dvd length (events_bytes evs)"
  by (induction evs) (simp_all add: dvd_event_bytes)

lemma erased_crc: "calc_crc8 (replicate 63 0xFF) (calc_crc8 (replicate 6 0xFF @ [0]) 0) \<noteq> (0xFF :: u8)"
  by (simp add: calc_crc8_def crc8_eval replicate_numeral)

lemma erased_size: "FLASH_LOG_PAYLOAD_SIZE 0xFF = 63" "FLASH_LOG_ENTRY_SIZE 0xFF = 72"
  by code_simp+

lemma log_bytes_erased:
  assumes "log_page s = xs @ replicate k 0xFF" and "length xs \<le> off" and "off + n \<le> length xs + k"
  shows "log_bytes s off n = replicate n 0xFF"
  using assms by (intro nth_equalityI) (auto simp: log_bytes_def log_byte_def nth_append)

lemma end_at:
  assumes "page_holds (log_page s) evs" and off: "off = length (events_bytes evs)"
  shows "\<not> entry_is_valid s off"
    and "off < CONFIG_FLASH_LOG_SPACE \<Longrightarrow> entry_timestamp s off = CONFIG_FLASH_ERASED_VALUE32"
proof -
  let ?k = "CONFIG_FLASH_LOG_SPACE - off"
  have page: "log_page s = events_bytes evs @ replicate ?k 0xFF"
    and le: "off \<le> CONFIG_FLASH_LOG_SPACE" and ok: "list_all event_ok evs"
    and len: "length (log_page s) = CONFIG_FLASH_LOG_SPACE"
    using assms by (auto simp: page_holds_def)
  show "entry_timestamp s off = CONFIG_FLASH_ERASED_VALUE32" if "off < CONFIG_FLASH_LOG_SPACE"
  proof -
    have "4 dvd off" unfolding off by (rule dvd_events_bytes [OF ok])
    then have "off + 4 \<le> CONFIG_FLASH_LOG_SPACE"
      using that by (auto simp: CONFIG_FLASH_LOG_SPACE_def elim!: dvdE)
    then have "log_bytes s off 4 = replicate 4 0xFF"
      using off by (intro log_bytes_erased [OF page]) simp_all
    moreover have "of_le (replicate 4 0xFF) = (- 1 :: u32)" by code_simp
    ultimately show ?thesis by (simp add: entry_timestamp_def CONFIG_FLASH_ERASED_VALUE32_def)
  qed
  show "\<not> entry_is_valid s off"
  proof (cases "off + 72 \<le> CONFIG_FLASH_LOG_SPACE")
    case True
    have b: "log_bytes s i n = replicate n 0xFF" if "off \<le> i" "i + n \<le> off + 72" for i n
      using that True off by (intro log_bytes_erased [OF page]) simp_all
    have "log_byte s i = 0xFF" if "off \<le> i" "i < off + 72" for i
      using b [of i 1] that by (simp add: log_bytes_def)
    then have "entry_size s off = 0xFF" "log_byte s (off + 6) = 0xFF" by (simp_all add: entry_size_def)
    then show ?thesis
      using erased_crc b [of off 6] b [of "off + 7" 63]
      by (simp only: entry_is_valid_def erased_size Let_def) simp
  next
    case False
    show ?thesis
    proof (cases "off + 4 < CONFIG_FLASH_LOG_SPACE")
      case True
      then have "log_bytes s (off + 4) 1 = replicate 1 0xFF"
        using off by (intro log_bytes_erased [OF page]) simp_all
      then have "entry_size s off = 0xFF" by (auto simp: log_bytes_def entry_size_def upt_rec)
      then show ?thesis using False by (simp add: entry_is_valid_def erased_size)
    next
      case out: False
      then show ?thesis using entry_is_valid_fits [of s off] entry_space_pos [of "entry_size s off"] by linarith
    qed
  qed
qed

lemma page_holds_append_entry:
  assumes "page_holds (log_page s) (evs @ ev # evs')"
  shows "\<exists>zs. log_page s = events_bytes evs @ event_bytes ev @ zs" and "event_ok ev"
    and "length (log_page s) = CONFIG_FLASH_LOG_SPACE"
  using assms by (auto simp: page_holds_def)

lemma event_at:
  assumes "page_holds (log_page s) (evs @ ev # evs')" and "off = length (events_bytes evs)"
  shows "entry_timestamp s off = ev_timestamp ev"
    and "FLASH_LOG_ENTRY_SIZE (entry_size s off) = length (event_bytes ev)"
    and "log_bytes s off (length (event_bytes ev)) = event_bytes ev"
    and "FLASH_LOG_PAYLOAD_SIZE (entry_size s off) = length (ev_payload ev)"
    and "log_bytes s off (length (ev_payload ev) + 7) = take (7 + length (ev_payload ev)) (event_bytes ev)"
    and "entry_is_valid s off"
    and "ev_timestamp ev \<noteq> CONFIG_FLASH_ERASED_VALUE32"
proof -
  obtain zs where page: "log_page s = events_bytes evs @ event_bytes ev @ zs"
    using page_holds_append_entry(1) [OF assms(1)] by blast
  note ok = page_holds_append_entry(2) [OF assms(1)]
  note e = entry_at [OF page assms(2) ok]
  show "FLASH_LOG_PAYLOAD_SIZE (entry_size s off) = length (ev_payload ev)"
    unfolding e(2) using ok by (intro payload_size) (simp add: event_ok_def)
  then show "log_bytes s off (length (ev_payload ev) + 7) = take (7 + length (ev_payload ev)) (event_bytes ev)"
    using e(5) by simp
  show "entry_timestamp s off = ev_timestamp ev" "FLASH_LOG_ENTRY_SIZE (entry_size s off) = length (event_bytes ev)"
    "log_bytes s off (length (event_bytes ev)) = event_bytes ev" by (fact e)+
  show "entry_is_valid s off" using e(6) page_holds_append_entry(3) [OF assms(1)] .
  show "ev_timestamp ev \<noteq> CONFIG_FLASH_ERASED_VALUE32" using ok by (simp add: event_ok_def)
qed

lemma init_loop_walks:
  "page_holds (log_page s) (evs @ evs') \<Longrightarrow>
   init_loop s (length (events_bytes evs)) l =
     (length (events_bytes (evs @ evs')), if evs' = [] then l else ev_timestamp (last evs'))"
proof (induction evs' arbitrary: evs l)
  case Nil
  then show ?case using end_at(1) [of s evs] by (simp add: init_loop.simps)
next
  case (Cons ev evs')
  note e = event_at [OF Cons.prems HOL.refl]
  have "init_loop s (length (events_bytes evs)) l = init_loop s (length (events_bytes (evs @ [ev]))) (ev_timestamp ev)"
    using e(1,2,6) by (subst init_loop.simps) simp
  also have "\<dots> = (length (events_bytes (evs @ ev # evs')), if evs' = [] then ev_timestamp ev else ev_timestamp (last evs'))"
    using Cons.IH [of "evs @ [ev]"] Cons.prems by simp
  finally show ?case by simp
qed

lemma dequeue_loop_skips:
  "page_holds (log_page s) (evs @ pre @ post) \<Longrightarrow> \<forall>ev \<in> set pre. ev_timestamp ev \<le> after \<Longrightarrow>
   dequeue_loop s after (length (events_bytes evs)) = dequeue_loop s after (length (events_bytes (evs @ pre)))"
proof (induction pre arbitrary: evs)
  case Nil
  then show ?case by simp
next
  case (Cons ev pre)
  have "page_holds (log_page s) (evs @ ev # pre @ post)" using Cons.prems(1) by simp
  note e = event_at [OF this HOL.refl]
  have "dequeue_loop s after (length (events_bytes evs)) = dequeue_loop s after (length (events_bytes (evs @ [ev])))"
    using e(1,2,6,7) Cons.prems(2) by (subst dequeue_loop.simps) simp
  also have "\<dots> = dequeue_loop s after (length (events_bytes ((evs @ [ev]) @ pre)))"
    using Cons.prems by (intro Cons.IH) simp_all
  finally show ?case by simp
qed

lemma dequeue_loop_finds:
  assumes "page_holds (log_page s) (evs @ pre @ ev # post)" and "\<forall>ev \<in> set pre. ev_timestamp ev \<le> after"
    and "after < ev_timestamp ev"
  shows "dequeue_loop s after (length (events_bytes evs)) =
    (Inr (length (events_bytes (evs @ pre))), length (events_bytes (evs @ pre @ [ev])))"
proof -
  have "page_holds (log_page s) ((evs @ pre) @ ev # post)" using assms(1) by simp
  note e = event_at [OF this HOL.refl]
  show ?thesis
    unfolding dequeue_loop_skips [OF assms(1,2)] using e(1,2,6,7) assms(3) [folded not_le]
    by (subst dequeue_loop.simps) (simp add: Let_def)
qed

lemma dequeue_loop_end:
  assumes "page_holds (log_page s) (evs @ pre)" and "\<forall>ev \<in> set pre. ev_timestamp ev \<le> after"
    and "length (events_bytes (evs @ pre)) < CONFIG_FLASH_LOG_SPACE"
  shows "dequeue_loop s after (length (events_bytes evs)) = (Inl 0, length (events_bytes (evs @ pre)))"
proof -
  have "page_holds (log_page s) (evs @ pre @ [])" using assms(1) by simp
  from dequeue_loop_skips [OF this assms(2)] show ?thesis
    using end_at(2) [OF assms(1) HOL.refl assms(3)] by (subst (asm) (2) dequeue_loop.simps) simp
qed

subsection \<open>Writing and compacting\<close>

lemma program_erased:
  assumes "length data \<le> k"
  shows "program_cells (xs @ replicate k 0xFF) (length xs) data = xs @ data @ replicate (k - length data) 0xFF"
proof -
  have ff: "(0xFF :: u8) = - 1" by simp
  show ?thesis
    using assms unfolding ff by (intro nth_equalityI) (auto simp: program_cells_def nth_append)
qed

lemma length_event_bytes_le: "event_ok ev \<Longrightarrow> length (event_bytes ev) \<le> 72"
  by (simp only: length_event_bytes) (auto simp: event_ok_def)

lemma page_holds_program:
  assumes "page_holds page evs" and "event_ok ev"
    and "length (events_bytes evs) + length (event_bytes ev) \<le> CONFIG_FLASH_LOG_SPACE"
  shows "page_holds (program_cells page (length (events_bytes evs)) (event_bytes ev)) (evs @ [ev])"
proof -
  let ?k = "CONFIG_FLASH_LOG_SPACE - length (events_bytes evs)"
  have "page = events_bytes evs @ replicate ?k 0xFF" using assms(1) by (simp add: page_holds_def)
  then have "program_cells page (length (events_bytes evs)) (event_bytes ev) =
      events_bytes evs @ event_bytes ev @ replicate (?k - length (event_bytes ev)) 0xFF"
    using assms(3) by (simp only: program_erased)
  then show ?thesis using assms by (simp add: page_holds_def)
qed

lemma page_holds_rewrite:
  assumes "list_all event_ok evs" and "length (events_bytes evs) \<le> CONFIG_FLASH_LOG_SPACE"
  shows "page_holds (program_cells (replicate CONFIG_FLASH_LOG_SPACE 0xFF) 0 (events_bytes evs)) evs"
  using assms program_erased [of "events_bytes evs" CONFIG_FLASH_LOG_SPACE "[]"] by (simp add: page_holds_def)

text \<open>A compaction keeps the longest run of events at the end that takes at most a quarter of the page.\<close>

fun compacted :: "log_event list \<Rightarrow> log_event list" where
  "compacted [] = []"
| "compacted (ev # evs) =
     (if length (events_bytes (ev # evs)) \<le> COMPACTION_SPACE_PRESERVE then ev # evs else compacted evs)"

lemma suffix_compacted: "\<exists>dropped. evs = dropped @ compacted evs"
  by (induction evs) (auto intro: exI [of _ "_ # _"])

lemma length_compacted: "length (events_bytes (compacted evs)) \<le> COMPACTION_SPACE_PRESERVE"
  by (induction evs) simp_all

lemma compacted_append:
  "length (events_bytes evs') \<le> COMPACTION_SPACE_PRESERVE \<Longrightarrow>
   \<exists>kept dropped. evs = dropped @ kept \<and> compacted (evs @ evs') = kept @ evs'"
proof (induction evs)
  case Nil
  then show ?case by (cases evs') auto
next
  case (Cons ev evs)
  then obtain kept dropped where "evs = dropped @ kept" "compacted (evs @ evs') = kept @ evs'" by blast
  then show ?case by (auto intro: exI [of _ "ev # _"])
qed

lemma log_compact_keeps:
  "page_holds (log_page s) (evs @ evs') \<Longrightarrow> log_write_cursor s = length (events_bytes (evs @ evs')) \<Longrightarrow>
   length (events_bytes evs') \<le> COMPACTION_SPACE_PRESERVE \<Longrightarrow>
   log_compact_loop s (length (events_bytes evs)) buf = buf @ events_bytes evs'"
proof (induction evs' arbitrary: evs buf)
  case Nil
  then show ?case by (simp add: log_compact_loop.simps)
next
  case (Cons ev evs')
  note e = event_at [OF Cons.prems(1) HOL.refl]
  have pos: "0 < length (event_bytes ev)"
    using page_holds_append_entry(2) [OF Cons.prems(1)] by (simp add: length_event_bytes)
  have "log_compact_loop s (length (events_bytes evs)) buf =
      log_compact_loop s (length (events_bytes (evs @ [ev]))) (buf @ event_bytes ev)"
    using e(2,3,6) Cons.prems(2,3) pos by (subst log_compact_loop.simps) simp
  also have "\<dots> = (buf @ event_bytes ev) @ events_bytes evs'"
    using Cons.prems by (intro Cons.IH) simp_all
  finally show ?case by simp
qed

lemma log_compact_compacts:
  "page_holds (log_page s) (evs @ evs') \<Longrightarrow> log_write_cursor s = length (events_bytes (evs @ evs')) \<Longrightarrow>
   log_compact_loop s (length (events_bytes evs)) [] = events_bytes (compacted evs')"
proof (induction evs' arbitrary: evs)
  case Nil
  then show ?case by (simp add: log_compact_loop.simps)
next
  case (Cons ev evs')
  show ?case
  proof (cases "length (events_bytes (ev # evs')) \<le> COMPACTION_SPACE_PRESERVE")
    case True
    then show ?thesis using log_compact_keeps [OF Cons.prems True] by simp
  next
    case False
    note e = event_at [OF Cons.prems(1) HOL.refl]
    have pos: "0 < length (event_bytes ev)"
      using page_holds_append_entry(2) [OF Cons.prems(1)] by (simp add: length_event_bytes)
    have "log_compact_loop s (length (events_bytes evs)) [] = log_compact_loop s (length (events_bytes (evs @ [ev]))) []"
      using e(2,3,6) Cons.prems(2) False pos by (subst log_compact_loop.simps) simp
    also have "\<dots> = events_bytes (compacted evs')"
      using Cons.prems by (intro Cons.IH) simp_all
    finally show ?thesis using False by simp
  qed
qed

section \<open>The state of the log\<close>

definition log_holds :: "flog \<Rightarrow> log_event list \<Rightarrow> bool" where
  "log_holds s evs \<longleftrightarrow>
     page_holds (log_page s) evs \<and> log_inited s \<and> \<not> log_event_in_progress s \<and>
     log_write_cursor s = length (events_bytes evs) \<and>
     sorted_wrt (<) (map ev_timestamp evs) \<and> list_all (\<lambda>ev. 0 < ev_timestamp ev \<and> ev_timestamp ev \<le> last_used_timestamp s) evs"

text \<open>The read cursor is at an event, and what is before it is not newer than the last event retrieved.\<close>

definition read_context :: "flog \<Rightarrow> log_event list \<Rightarrow> bool" where
  "read_context s evs \<longleftrightarrow>
     (\<exists>pre post. evs = pre @ post \<and> log_read_cursor s = length (events_bytes pre) \<and>
        list_all (\<lambda>ev. ev_timestamp ev \<le> log_prev_timestamp s) pre)"

definition chip_works :: "flog \<Rightarrow> bool" where
  "chip_works s \<longleftrightarrow> set (log_write_results s) \<subseteq> {EC_SUCCESS} \<and> set (log_erase_results s) \<subseteq> {EC_SUCCESS}"

lemma chip_ok: "set results \<subseteq> {EC_SUCCESS} \<Longrightarrow> platform_flash_control s \<longrightarrow> log_region_writable s \<Longrightarrow> log_chip_ok s results = EC_SUCCESS"
  by (auto simp: log_chip_ok_def split: list.splits)

lemma in_set_tl: "x \<in> set (tl xs) \<Longrightarrow> x \<in> set xs"
  by (cases xs) auto

lemmas flog_ops = flash_log_write_enable_def flash_log_write_disable_def flash_log_erase_def flash_log_write_def Let_def

text \<open>What no operation but the addition of an event touches.\<close>

definition same_counters :: "flog \<Rightarrow> flog \<Rightarrow> bool" where
  "same_counters s s' \<longleftrightarrow>
     log_tstamp_base s' = log_tstamp_base s \<and> lock_failures_count s' = lock_failures_count s \<and>
     overflow_failures_count s' = overflow_failures_count s \<and> platform_flash_control s' = platform_flash_control s"

lemma try_compacting_ok:
  assumes page: "page_holds (log_page s) evs" and cur: "log_write_cursor s = length (events_bytes evs)"
    and chip: "chip_works s" and heap: "fe_heap e"
  shows "page_holds (log_page (try_compacting e s)) (compacted evs)"
    and "log_write_cursor (try_compacting e s) = length (events_bytes (compacted evs))"
    and "log_read_cursor (try_compacting e s) = 0" and "log_prev_timestamp (try_compacting e s) = 0"
    and "last_used_timestamp (try_compacting e s) = last_used_timestamp s"
    and "log_inited (try_compacting e s) = log_inited s"
    and "log_event_in_progress (try_compacting e s) = log_event_in_progress s"
    and "chip_works (try_compacting e s)" and "same_counters s (try_compacting e s)"
proof -
  have loop: "log_compact_loop s 0 [] = events_bytes (compacted evs)"
    using log_compact_compacts [of s "[]" evs] page cur by simp
  have ok: "list_all event_ok (compacted evs)" using page suffix_compacted [of evs] unfolding page_holds_def
    by (metis list_all_append)
  have len: "length (events_bytes (compacted evs)) \<le> CONFIG_FLASH_LOG_SPACE"
    using length_compacted [of evs] by (simp add: COMPACTION_SPACE_PRESERVE_def CONFIG_FLASH_LOG_SPACE_def)
  have p: "log_page (try_compacting e s) =
      program_cells (replicate CONFIG_FLASH_LOG_SPACE 0xFF) 0 (events_bytes (compacted evs))"
    using chip heap by (simp add: try_compacting_def flog_ops loop chip_ok chip_works_def)
  show "page_holds (log_page (try_compacting e s)) (compacted evs)"
    unfolding p by (rule page_holds_rewrite [OF ok len])
  show "log_write_cursor (try_compacting e s) = length (events_bytes (compacted evs))"
    "log_read_cursor (try_compacting e s) = 0" "log_prev_timestamp (try_compacting e s) = 0"
    "last_used_timestamp (try_compacting e s) = last_used_timestamp s"
    "log_inited (try_compacting e s) = log_inited s"
    "log_event_in_progress (try_compacting e s) = log_event_in_progress s"
    "same_counters s (try_compacting e s)"
    using chip heap by (simp_all add: try_compacting_def flog_ops loop same_counters_def)
  show "chip_works (try_compacting e s)"
    using chip heap by (auto simp: try_compacting_def flog_ops chip_works_def dest: in_set_tl)
qed

lemma unat_next_timestamp:
  assumes "last_used_timestamp s \<noteq> - 1"
  shows "unat (next_timestamp e s) = max (unat (last_used_timestamp s) + 1) (unat (flash_log_get_tstamp e s))"
proof -
  have "1 + last_used_timestamp s \<noteq> 0" using assms max_word_wrap [of "last_used_timestamp s"] by (auto simp: add.commute)
  from unatSuc [OF this] show ?thesis
    by (auto simp: next_timestamp_def Let_def add.commute word_le_nat_alt)
qed

lemma next_timestamp_gt: "last_used_timestamp s \<noteq> - 1 \<Longrightarrow> last_used_timestamp s < next_timestamp e s"
  by (simp add: word_less_nat_alt unat_next_timestamp)

text \<open>Adding an event when there is room for it in the page.\<close>

lemma sorted_stamps_snoc:
  assumes "sorted_wrt (<) (map ev_timestamp evs)" and "list_all (\<lambda>ev. 0 < ev_timestamp ev \<and> ev_timestamp ev \<le> l) evs"
    and "l < ev_timestamp ev"
  shows "sorted_wrt (<) (map ev_timestamp (evs @ [ev]))"
    and "list_all (\<lambda>ev'. 0 < ev_timestamp ev' \<and> ev_timestamp ev' \<le> ev_timestamp ev) (evs @ [ev])"
proof -
  have "\<And>x. x \<in> set evs \<Longrightarrow> ev_timestamp x < ev_timestamp ev"
    using assms(2,3) by (auto simp: list_all_iff intro: le_less_trans)
  then show "sorted_wrt (<) (map ev_timestamp (evs @ [ev]))"
    "list_all (\<lambda>ev'. 0 < ev_timestamp ev' \<and> ev_timestamp ev' \<le> ev_timestamp ev) (evs @ [ev])"
    using assms by (auto simp: sorted_wrt_append list_all_iff less_imp_le intro: le_less_trans)
qed

lemma length_entry_bytes: "event_ok ev \<Longrightarrow> FLASH_LOG_ENTRY_SIZE (of_nat (length (ev_payload ev))) = length (event_bytes ev)"
  by (simp only: length_event_bytes) (simp add: entry_space event_ok_def)

lemma size_allowed: "n \<le> 63 \<Longrightarrow> \<not> MAX_FLASH_LOG_PAYLOAD_SIZE < of_nat n"
  by (simp add: MAX_FLASH_LOG_PAYLOAD_SIZE_def word_less_nat_alt unat_of_nat)

text \<open>The state after the lock and, near the end of the page, the compaction.\<close>

definition log_prepared :: "flog_env \<Rightarrow> flog \<Rightarrow> flog" where
  "log_prepared e s =
     (let s0 = s\<lparr>log_event_in_progress := True\<rparr>
      in if RUN_TIME_LOG_FULL_WATERMARK < log_write_cursor s0 then try_compacting e s0 else s0)"

definition kept_events :: "log_event list \<Rightarrow> log_event list" where
  "kept_events evs =
     (if RUN_TIME_LOG_FULL_WATERMARK < length (events_bytes evs) then compacted evs else evs)"

lemma kept_events_append:
  "length (events_bytes evs') \<le> COMPACTION_SPACE_PRESERVE \<Longrightarrow>
   \<exists>kept dropped. evs = dropped @ kept \<and> kept_events (evs @ evs') = kept @ evs'"
  unfolding kept_events_def using compacted_append [of evs' evs] by fastforce

lemma room_for_event: "event_ok ev \<Longrightarrow> length (events_bytes (kept_events evs)) + length (event_bytes ev) \<le> CONFIG_FLASH_LOG_SPACE"
  using length_compacted [of evs] length_event_bytes_le [of ev]
  by (simp add: kept_events_def COMPACTION_SPACE_PRESERVE_def RUN_TIME_LOG_FULL_WATERMARK_def CONFIG_FLASH_LOG_SPACE_def)

lemma log_prepared_ok:
  assumes "log_holds s evs" and "read_context s evs" and "chip_works s" and "fe_heap e"
  shows "page_holds (log_page (log_prepared e s)) (kept_events evs)"
    and "log_write_cursor (log_prepared e s) = length (events_bytes (kept_events evs))"
    and "read_context (log_prepared e s) (kept_events evs)"
    and "last_used_timestamp (log_prepared e s) = last_used_timestamp s" and "log_inited (log_prepared e s)"
    and "chip_works (log_prepared e s)" and "same_counters s (log_prepared e s)"
proof -
  let ?s0 = "s\<lparr>log_event_in_progress := True\<rparr>"
  have p: "page_holds (log_page ?s0) evs" "log_write_cursor ?s0 = length (events_bytes evs)" "chip_works ?s0" "log_inited s"
    using assms(1,3) by (simp_all add: log_holds_def chip_works_def)
  note c = try_compacting_ok [OF p(1-3) assms(4)]
  show "page_holds (log_page (log_prepared e s)) (kept_events evs)"
    "log_write_cursor (log_prepared e s) = length (events_bytes (kept_events evs))"
    "last_used_timestamp (log_prepared e s) = last_used_timestamp s" "log_inited (log_prepared e s)"
    "chip_works (log_prepared e s)" "same_counters s (log_prepared e s)"
    using p c by (simp_all add: log_prepared_def kept_events_def Let_def same_counters_def)
  show "read_context (log_prepared e s) (kept_events evs)"
  proof (cases "RUN_TIME_LOG_FULL_WATERMARK < length (events_bytes evs)")
    case True
    then show ?thesis using p(2) c(3,4)
      by (auto simp: log_prepared_def Let_def read_context_def intro: exI [of _ "[]"])
  next
    case False
    then show ?thesis using p(2) assms(2) by (simp add: log_prepared_def kept_events_def Let_def read_context_def)
  qed
qed

lemma suffix_kept: "\<exists>dropped. evs = dropped @ kept_events evs"
  unfolding kept_events_def using suffix_compacted [of evs] by auto

lemma list_all_kept: "list_all P evs \<Longrightarrow> list_all P (kept_events evs)"
  by (metis suffix_kept list_all_append)

lemma sorted_kept:
  assumes "sorted_wrt R (map f evs)"
  shows "sorted_wrt R (map f (kept_events evs))"
proof -
  obtain dropped where "evs = dropped @ kept_events evs" using suffix_kept by blast
  then have "sorted_wrt R (map f dropped @ map f (kept_events evs))" using assms by (metis map_append)
  then show ?thesis by (simp add: sorted_wrt_append)
qed

lemma add_event_core_unfold:
  assumes "length payload \<le> 63" and "\<not> fe_interrupt e" and "log_inited s" and "\<not> log_event_in_progress s"
  shows "flash_log_add_event_core e type (of_nat (length payload)) payload s =
    (let s1 = log_prepared e s; sz = of_nat (length payload)
     in if CONFIG_FLASH_LOG_SPACE - log_write_cursor s1 < FLASH_LOG_ENTRY_SIZE sz
        then (EC_ERROR_INVAL,
              s1\<lparr>overflow_failures_count := overflow_failures_count s1 + 1, log_event_in_progress := False\<rparr>)
        else
          (let ts = next_timestamp e s1;
               s2 = flash_log_write_enable (s1\<lparr>last_used_timestamp := ts\<rparr>);
               s4 = flash_log_write_disable (snd (flash_log_write (log_write_cursor s2) (entry_bytes ts sz type payload) s2))
           in (EC_SUCCESS,
               s4\<lparr>log_write_cursor := log_write_cursor s4 + FLASH_LOG_ENTRY_SIZE sz, log_event_in_progress := False\<rparr>)))"
  using size_allowed [OF assms(1)] assms(2-4)
  by (simp add: flash_log_add_event_core_def flash_log_lock_successful_def log_prepared_def Let_def)

text \<open>With memory for a compaction at hand an event is always recorded.\<close>

lemma add_event_core_ok:
  assumes holds: "log_holds s evs" and ctx: "read_context s evs" and chip: "chip_works s"
    and env: "fe_heap e" "\<not> fe_interrupt e" and len: "length payload \<le> 63"
    and last: "last_used_timestamp s \<noteq> - 1" and ts: "next_timestamp e s \<noteq> - 1"
    and ev_def: "ev = \<lparr>ev_timestamp = next_timestamp e s, ev_type = type, ev_payload = payload\<rparr>"
  obtains s' where "flash_log_add_event_core e type (of_nat (length payload)) payload s = (EC_SUCCESS, s')"
    and "log_holds s' (kept_events evs @ [ev])" and "read_context s' (kept_events evs @ [ev])" and "chip_works s'"
    and "last_used_timestamp s' = ev_timestamp ev" and "same_counters s s'"
proof -
  let ?s1 = "log_prepared e s" and ?sz = "of_nat (length payload) :: u8"
  note p = log_prepared_ok [OF holds ctx chip env(1)]
  have ok: "event_ok ev" using len ts by (simp add: event_ok_def ev_def CONFIG_FLASH_ERASED_VALUE32_def)
  have sz: "FLASH_LOG_ENTRY_SIZE ?sz = length (event_bytes ev)" using length_entry_bytes [OF ok] by (simp add: ev_def)
  have t: "next_timestamp e ?s1 = next_timestamp e s"
    using p(4,7) by (simp add: next_timestamp_def flash_log_get_tstamp_def same_counters_def Let_def)
  have eb: "entry_bytes (next_timestamp e s) ?sz type payload = event_bytes ev" by (simp add: event_bytes_def ev_def)
  have h: "log_inited s" "\<not> log_event_in_progress s" using holds by (simp_all add: log_holds_def)
  have room: "\<not> CONFIG_FLASH_LOG_SPACE - log_write_cursor ?s1 < length (event_bytes ev)"
    using room_for_event [OF ok, of evs] p(2) by simp
  define s2 where "s2 = flash_log_write_enable (?s1\<lparr>last_used_timestamp := next_timestamp e s\<rparr>)"
  define s4 where "s4 = flash_log_write_disable (snd (flash_log_write (log_write_cursor s2) (event_bytes ev) s2))"
  define s' where "s' = s4\<lparr>log_write_cursor := log_write_cursor s4 + length (event_bytes ev), log_event_in_progress := False\<rparr>"
  have "flash_log_add_event_core e type ?sz payload s = (EC_SUCCESS, s')"
    using room unfolding add_event_core_unfold [OF len env(2) h] Let_def t sz eb s'_def s4_def s2_def by simp
  moreover have w: "log_page s' = program_cells (log_page ?s1) (log_write_cursor ?s1) (event_bytes ev)"
    "log_write_cursor s' = log_write_cursor ?s1 + length (event_bytes ev)" "last_used_timestamp s' = next_timestamp e s"
    "log_inited s'" "\<not> log_event_in_progress s'" "log_read_cursor s' = log_read_cursor ?s1"
    "log_prev_timestamp s' = log_prev_timestamp ?s1" "same_counters s s'"
    using p(5,6,7) by (simp_all add: s'_def s4_def s2_def flog_ops chip_ok chip_works_def same_counters_def)
  moreover have "chip_works s'"
    using p(6) by (auto simp: s'_def s4_def s2_def flog_ops chip_works_def dest: in_set_tl)
  moreover have "read_context s' (kept_events evs @ [ev])"
    using p(3) w(6,7) by (auto simp: read_context_def) (metis append_assoc)
  moreover have "log_holds s' (kept_events evs @ [ev])"
  proof -
    have "page_holds (log_page s') (kept_events evs @ [ev])"
      unfolding w(1) p(2) by (rule page_holds_program [OF p(1) ok room_for_event [OF ok]])
    moreover have "sorted_wrt (<) (map ev_timestamp (kept_events evs))"
      "list_all (\<lambda>ev. 0 < ev_timestamp ev \<and> ev_timestamp ev \<le> last_used_timestamp s) (kept_events evs)"
      using holds by (simp_all add: log_holds_def sorted_kept list_all_kept)
    from sorted_stamps_snoc [OF this, of ev] next_timestamp_gt [OF last, of e]
    have "sorted_wrt (<) (map ev_timestamp (kept_events evs @ [ev]))"
      "list_all (\<lambda>ev'. 0 < ev_timestamp ev' \<and> ev_timestamp ev' \<le> last_used_timestamp s') (kept_events evs @ [ev])"
      using w(3) by (simp_all add: ev_def)
    ultimately show ?thesis using w(2,4,5) p(2) by (simp add: log_holds_def)
  qed
  ultimately show ?thesis using that [of s'] by (simp add: ev_def)
qed

end
