(* ===== verification/Flash_Log_Events.thy ===== *)
theory Flash_Log_Events
  imports Flash_Log
begin

text \<open>
  What the users of the flash event log see: \<open>flash_log_dequeue_event\<close> retrieves the next
  event of the list the page holds, the console command prints all of them, an added event is
  retrieved afterwards, and the log survives a restart.
\<close>

section \<open>The console command\<close>

text \<open>A printed entry is the content of the buffer it was retrieved into.  Every round retrieves
  an entry with a greater time stamp, so the loop ends.\<close>

lemma dequeue_loop_newer:
  "dequeue_loop s after cursor = (Inr off, cursor') \<Longrightarrow> after < entry_timestamp s off"
  by (induction s after cursor rule: dequeue_loop.induct) (subst (asm) (2) dequeue_loop.simps, auto simp: Let_def split: if_splits)

lemma dequeue_loop_error: "dequeue_loop s after cursor = (Inl rv, cursor') \<Longrightarrow> rv \<le> 0"
  by (induction s after cursor rule: dequeue_loop.induct) (subst (asm) (2) dequeue_loop.simps, auto simp: Let_def split: if_splits)

lemma take_log_bytes: "k \<le> n \<Longrightarrow> take k (log_bytes s off n) = log_bytes s off k"
  by (simp add: log_bytes_def take_map)

lemma dequeue_event_newer:
  assumes "flash_log_dequeue_event e after n s = (rv, buf, s')" and "0 < rv"
  shows "after < of_le (take 4 buf)"
  using assms
  by (auto simp: flash_log_dequeue_event_def Let_def take_log_bytes entry_timestamp_def [symmetric]
    dest!: dequeue_loop_newer dest: dequeue_loop_error split: prod.splits bool.splits if_splits sum.splits)

lemma dump_progress:
  assumes "(rv, y) = flash_log_dequeue_event e stamp n s" and "(buf, s') = y" and "0 < rv"
  shows "4294967296 - unat (of_le (take 4 buf) :: u32) < 4294967296 - unat stamp"
proof -
  have "stamp < of_le (take 4 buf)" using assms dequeue_event_newer [of e stamp n s rv buf s'] by simp
  moreover have "unat (of_le (take 4 buf) :: u32) < 2 ^ LENGTH(32)" by (rule unsigned_less)
  ultimately show ?thesis by (simp add: word_less_nat_alt)
qed

function flog_dump :: "flog_env \<Rightarrow> u32 \<Rightarrow> flog \<Rightarrow> bytes list \<times> int \<times> flog" where
  "flog_dump e stamp s =
     (case flash_log_dequeue_event e stamp (FLASH_LOG_ENTRY_SIZE MAX_FLASH_LOG_PAYLOAD_SIZE) s of
        (rv, buf, s') \<Rightarrow>
          if 0 < rv
          then (case flog_dump e (of_le (take 4 buf)) s' of (printed, rv', s'') \<Rightarrow> (buf # printed, rv', s''))
          else ([], rv, s'))"
  by pat_completeness auto
termination
  by (relation "measure (\<lambda>(e, stamp, s). 4294967296 - unat stamp)") (use dump_progress in auto)

declare flog_dump.simps [simp del]

text \<open>The return value, the entries printed, the last result (a warning is printed when it is not
  zero) and the state.\<close>

definition command_flash_log :: "flog_env \<Rightarrow> bytes list \<Rightarrow> flog \<Rightarrow> ec_error \<times> bytes list \<times> int \<times> flog" where
  "command_flash_log e argv s =
     (let stamp = (if length argv = 2 then atoi (argv ! 1) else 0)
      in if 3 \<le> length argv then (EC_ERROR_PARAM_COUNT, [], 0, s) else (EC_SUCCESS, flog_dump e stamp s))"

section \<open>Retrieving the next event\<close>

definition event_image :: "log_event \<Rightarrow> bytes" where
  "event_image ev = take (7 + length (ev_payload ev)) (event_bytes ev)"

lemma length_event_bytes_ge: "event_ok ev \<Longrightarrow> 8 \<le> length (event_bytes ev)"
  by (simp only: length_event_bytes) simp

lemma before_newer:
  assumes "p @ q = pre @ ev # post" and "\<forall>x \<in> set p. ev_timestamp x \<le> after" and "after < ev_timestamp ev"
  shows "\<exists>pre'. pre = p @ pre'"
proof -
  have "ev \<notin> set p" using assms(2,3) by (auto simp: not_le [symmetric])
  then show ?thesis using assms(1) by (auto simp: append_eq_append_conv2 append_eq_Cons_conv)
qed

lemma not_at_end:
  assumes "page_holds page (pre @ ev # post)"
  shows "\<not> CONFIG_FLASH_LOG_SPACE - 7 < length (events_bytes pre)"
proof -
  have "event_ok ev" and "length (events_bytes (pre @ ev # post)) \<le> CONFIG_FLASH_LOG_SPACE"
    using assms by (auto simp: page_holds_def)
  then have "length (events_bytes pre) + 8 \<le> CONFIG_FLASH_LOG_SPACE"
    using length_event_bytes_ge [of ev] by simp
  then show ?thesis by simp
qed

lemma flog_update_in_progress: "\<not> log_event_in_progress s \<Longrightarrow> s\<lparr>log_event_in_progress := False\<rparr> = s"
  by (cases s) simp

lemma dequeue_finds:
  assumes holds: "log_holds s evs" and ctx: "read_context s evs" and irq: "\<not> fe_interrupt e"
    and evs: "evs = pre @ ev # post" and old: "\<forall>x \<in> set pre. ev_timestamp x \<le> after" and new: "after < ev_timestamp ev"
    and n: "7 + length (ev_payload ev) \<le> n"
  shows "flash_log_dequeue_event e after n s =
    (int (7 + length (ev_payload ev)), event_image ev,
     s\<lparr>log_read_cursor := length (events_bytes (pre @ [ev])), log_prev_timestamp := ev_timestamp ev,
       log_event_in_progress := False\<rparr>)"
proof -
  let ?reset = "after = 0 \<or> after < log_prev_timestamp s"
  let ?s0 = "s\<lparr>log_event_in_progress := True\<rparr>"
  define s1 where "s1 = (if ?reset then ?s0\<lparr>log_read_cursor := 0, log_prev_timestamp := 0\<rparr> else ?s0)"
  have page: "page_holds (log_page s1) (pre @ ev # post)" and h: "log_inited s" "\<not> log_event_in_progress s"
    using holds evs by (auto simp: log_holds_def s1_def)
  obtain p pre' where p: "pre = p @ pre'" and cur: "log_read_cursor s1 = length (events_bytes p)"
  proof (cases ?reset)
    case True
    then show ?thesis using that [of "[]" pre] by (simp add: s1_def)
  next
    case False
    obtain p q where pq: "evs = p @ q" "log_read_cursor s = length (events_bytes p)"
      and le: "list_all (\<lambda>ev. ev_timestamp ev \<le> log_prev_timestamp s) p" using ctx by (auto simp: read_context_def)
    have "\<forall>x \<in> set p. ev_timestamp x \<le> after" using le False by (auto simp: list_all_iff not_less intro: order_trans)
    from before_newer [OF _ this new, of q pre post] obtain pre' where "pre = p @ pre'" using pq(1) evs by auto
    then show ?thesis using that [of p pre'] pq(2) False by (simp add: s1_def)
  qed
  have page': "page_holds (log_page s1) (p @ pre' @ ev # post)" using page p by simp
  have old': "\<forall>x \<in> set pre'. ev_timestamp x \<le> after" using old p by auto
  note found = dequeue_loop_finds [OF page' old' new]
  note e = event_at [OF page HOL.refl]
  have "\<not> CONFIG_FLASH_LOG_SPACE - 7 < log_read_cursor s1"
    using not_at_end [OF page] p cur by simp
  then have "flash_log_dequeue_event e after n s =
      (int (length (ev_payload ev) + 7), log_bytes s1 (length (events_bytes pre)) (length (ev_payload ev) + 7),
       s1\<lparr>log_read_cursor := length (events_bytes (pre @ [ev])), log_prev_timestamp := ev_timestamp ev,
          log_event_in_progress := False\<rparr>)"
    using h irq found cur p e(1,4) n
    by (simp add: flash_log_dequeue_event_def flash_log_lock_successful_def Let_def s1_def [symmetric])
  then show ?thesis using e(5) by (simp add: event_image_def s1_def add.commute)
qed

lemma dequeue_none:
  assumes holds: "log_holds s evs" and irq: "\<not> fe_interrupt e"
    and old: "\<forall>x \<in> set evs. ev_timestamp x \<le> after" and cur: "log_read_cursor s = length (events_bytes evs)"
    and after: "after \<noteq> 0" "log_prev_timestamp s \<le> after"
  shows "flash_log_dequeue_event e after n s = (0, [], s\<lparr>log_event_in_progress := False\<rparr>)"
proof -
  let ?s0 = "s\<lparr>log_event_in_progress := True\<rparr>"
  have page: "page_holds (log_page ?s0) (evs @ [])" and h: "log_inited s" "\<not> log_event_in_progress s"
    using holds by (auto simp: log_holds_def)
  have "dequeue_loop ?s0 after (length (events_bytes evs)) = (Inl 0, length (events_bytes evs))"
    if "\<not> CONFIG_FLASH_LOG_SPACE - 7 < length (events_bytes evs)"
    using dequeue_loop_end [OF page, of after] that by (simp add: CONFIG_FLASH_LOG_SPACE_def)
  moreover have "s\<lparr>log_event_in_progress := False, log_read_cursor := length (events_bytes evs)\<rparr> =
      s\<lparr>log_event_in_progress := False\<rparr>" using cur by (cases s) simp
  ultimately show ?thesis
    using h irq cur after
    by (auto simp: flash_log_dequeue_event_def flash_log_lock_successful_def Let_def not_less)
qed

lemma stamp_of_image: "event_ok ev \<Longrightarrow> of_le (take 4 (event_image ev)) = ev_timestamp ev"
  by (simp add: event_image_def event_bytes_unfold take_append min_def of_le_to_le)

lemma sorted_stamps_before:
  "sorted_wrt (<) (map ev_timestamp (pre @ ev # post)) \<Longrightarrow> x \<in> set pre \<Longrightarrow> ev_timestamp x < ev_timestamp ev"
  by (auto simp: sorted_wrt_append)

lemma log_holds_cong:
  "log_holds s evs \<Longrightarrow> log_holds (s\<lparr>log_read_cursor := c, log_prev_timestamp := t, log_event_in_progress := False\<rparr>) evs"
  by (simp add: log_holds_def)

lemma flog_dump_rest:
  "log_holds s (pre @ post) \<Longrightarrow> read_context s (pre @ post) \<Longrightarrow> \<not> fe_interrupt e \<Longrightarrow>
   \<forall>x \<in> set pre. ev_timestamp x \<le> after \<Longrightarrow> \<forall>x \<in> set post. after < ev_timestamp x \<Longrightarrow>
   post = [] \<longrightarrow> log_read_cursor s = length (events_bytes pre) \<and> after \<noteq> 0 \<and> log_prev_timestamp s \<le> after \<Longrightarrow>
   \<exists>s'. flog_dump e after s = (map event_image post, 0, s') \<and> log_holds s' (pre @ post)"
proof (induction post arbitrary: s pre after)
  case Nil
  then have "flash_log_dequeue_event e after n s = (0, [], s\<lparr>log_event_in_progress := False\<rparr>)" for n
    by (intro dequeue_none [of s pre]) simp_all
  then show ?case using Nil.prems(1) by (subst flog_dump.simps) (simp add: log_holds_def)
next
  case (Cons ev post)
  let ?s = "s\<lparr>log_read_cursor := length (events_bytes (pre @ [ev])), log_prev_timestamp := ev_timestamp ev,
       log_event_in_progress := False\<rparr>"
  have ok: "event_ok ev" and sorted: "sorted_wrt (<) (map ev_timestamp (pre @ ev # post))"
    using Cons.prems(1) by (auto simp: log_holds_def page_holds_def)
  then have len: "7 + length (ev_payload ev) \<le> FLASH_LOG_ENTRY_SIZE MAX_FLASH_LOG_PAYLOAD_SIZE"
    by (simp add: event_ok_def MAX_FLASH_LOG_PAYLOAD_SIZE_def FLASH_LOG_ENTRY_SIZE_def FLASH_LOG_PAYLOAD_SIZE_def)
  have before: "\<forall>x \<in> set (pre @ [ev]). ev_timestamp x \<le> ev_timestamp ev"
    using sorted_stamps_before [OF sorted] by (auto intro: less_imp_le)
  have "after < ev_timestamp ev" using Cons.prems(5) by simp
  from dequeue_finds [OF Cons.prems(1-3) HOL.refl Cons.prems(4) this len]
  have step: "flash_log_dequeue_event e after (FLASH_LOG_ENTRY_SIZE MAX_FLASH_LOG_PAYLOAD_SIZE) s =
    (int (7 + length (ev_payload ev)), event_image ev, ?s)" .
  have "read_context ?s ((pre @ [ev]) @ post)"
    using before unfolding read_context_def by (intro exI [of _ "pre @ [ev]"] exI [of _ post]) (simp add: list_all_iff)
  moreover have "\<forall>x \<in> set post. ev_timestamp ev < ev_timestamp x" using sorted by (auto simp: sorted_wrt_append)
  moreover have "log_holds ?s ((pre @ [ev]) @ post)" using log_holds_cong [OF Cons.prems(1)] by simp
  moreover have "ev_timestamp ev \<noteq> 0" using Cons.prems(5) by auto
  ultimately obtain s' where "flog_dump e (ev_timestamp ev) ?s = (map event_image post, 0, s')"
    and "log_holds s' ((pre @ [ev]) @ post)"
    using Cons.IH [of ?s "pre @ [ev]" "ev_timestamp ev"] Cons.prems(3) before by auto
  then show ?case using step stamp_of_image [OF ok] by (subst flog_dump.simps) simp
qed

lemma dequeue_from_start:
  assumes "log_holds s evs" and "\<not> fe_interrupt e"
  shows "flash_log_dequeue_event e 0 n s = flash_log_dequeue_event e 0 n (s\<lparr>log_read_cursor := 0, log_prev_timestamp := 0\<rparr>)"
  using assms
  by (cases s) (simp add: flash_log_dequeue_event_def flash_log_lock_successful_def log_holds_def)

lemma dequeue_empty:
  assumes "log_holds s []" and "\<not> fe_interrupt e"
  shows "flash_log_dequeue_event e 0 n s = (0, [], s\<lparr>log_read_cursor := 0, log_prev_timestamp := 0, log_event_in_progress := False\<rparr>)"
proof -
  let ?s = "s\<lparr>log_event_in_progress := True, log_read_cursor := 0, log_prev_timestamp := 0\<rparr>"
  have "page_holds (log_page ?s) ([] @ [])" using assms(1) by (simp add: log_holds_def)
  from dequeue_loop_end [OF this, of 0] have "dequeue_loop ?s 0 0 = (Inl 0, 0)"
    by (simp add: CONFIG_FLASH_LOG_SPACE_def)
  then show ?thesis
    using assms by (simp add: flash_log_dequeue_event_def flash_log_lock_successful_def Let_def log_holds_def CONFIG_FLASH_LOG_SPACE_def)
qed

lemma flog_dump_all:
  assumes holds: "log_holds s evs" and irq: "\<not> fe_interrupt e"
  shows "\<exists>s'. flog_dump e 0 s = (map event_image evs, 0, s') \<and> log_holds s' evs"
proof (cases "evs = []")
  case True
  then have "flash_log_dequeue_event e 0 n s =
      (0, [], s\<lparr>log_read_cursor := 0, log_prev_timestamp := 0, log_event_in_progress := False\<rparr>)" for n
    using assms by (intro dequeue_empty) simp_all
  then show ?thesis using holds True by (subst flog_dump.simps) (simp add: log_holds_def)
next
  case False
  let ?s = "s\<lparr>log_read_cursor := 0, log_prev_timestamp := 0\<rparr>"
  have eq: "flog_dump e 0 s = flog_dump e 0 ?s"
    by (subst (1 2) flog_dump.simps) (simp only: dequeue_from_start [OF holds irq])
  have "log_holds ?s ([] @ evs)" using holds by (simp add: log_holds_def)
  moreover have "read_context ?s ([] @ evs)" by (auto simp: read_context_def intro: exI [of _ "[]"])
  moreover have "\<forall>x \<in> set evs. 0 < ev_timestamp x" using holds by (auto simp: log_holds_def list_all_iff)
  ultimately show ?thesis unfolding eq using False irq flog_dump_rest [of ?s "[]" evs e 0] by auto
qed

section \<open>Adding events\<close>

text \<open>The log with room for \<open>k\<close> more time stamps.\<close>

definition log_room :: "flog \<Rightarrow> log_event list \<Rightarrow> nat \<Rightarrow> bool" where
  "log_room s evs k \<longleftrightarrow>
     log_holds s evs \<and> read_context s evs \<and> chip_works s \<and> unat (last_used_timestamp s) + k < 4294967295"

definition env_ok :: "flog_env \<Rightarrow> flog \<Rightarrow> bool" where
  "env_ok e s \<longleftrightarrow> fe_heap e \<and> \<not> fe_interrupt e \<and> unat (flash_log_get_tstamp e s) + 3 < 4294967295"

lemma env_ok_cong: "log_tstamp_base s' = log_tstamp_base s \<Longrightarrow> env_ok e s' = env_ok e s"
  by (simp add: env_ok_def flash_log_get_tstamp_def)

lemma unat_not_max: "unat (w :: u32) < 4294967295 \<Longrightarrow> w \<noteq> - 1"
  by (auto simp: unsigned_minus_1_eq_mask mask_eq_exp_minus_1)

lemma core_step:
  assumes room: "log_room s (kept @ tail) (Suc k)" and k: "k \<le> 2"
    and tail: "length (events_bytes tail) \<le> COMPACTION_SPACE_PRESERVE"
    and env: "env_ok e s" and len: "length payload \<le> 63"
  shows "\<exists>s' dropped kept' ev.
    flash_log_add_event_core e type (of_nat (length payload)) payload s = (EC_SUCCESS, s') \<and>
    kept = dropped @ kept' \<and> kept' @ tail = kept_events (kept @ tail) \<and> log_room s' (kept' @ tail @ [ev]) k \<and>
    ev_type ev = type \<and> ev_payload ev = payload \<and> same_counters s s'"
proof -
  have r: "log_holds s (kept @ tail)" "read_context s (kept @ tail)" "chip_works s"
    "unat (last_used_timestamp s) + Suc k < 4294967295" using room by (simp_all add: log_room_def)
  have e: "fe_heap e" "\<not> fe_interrupt e" "unat (flash_log_get_tstamp e s) + 3 < 4294967295"
    using env by (simp_all add: env_ok_def)
  have last: "last_used_timestamp s \<noteq> - 1" using r(4) by (intro unat_not_max) simp
  have ts: "unat (next_timestamp e s) + k < 4294967295"
    using r(4) e(3) k unat_next_timestamp [OF last, of e] by simp
  then have "next_timestamp e s \<noteq> - 1" by (intro unat_not_max) simp
  from add_event_core_ok [OF r(1-3) e(1,2) len last this HOL.refl, of type]
  obtain s' ev where s': "flash_log_add_event_core e type (of_nat (length payload)) payload s = (EC_SUCCESS, s')"
    and h: "log_holds s' (kept_events (kept @ tail) @ [ev])" "read_context s' (kept_events (kept @ tail) @ [ev])" "chip_works s'"
    and l: "last_used_timestamp s' = ev_timestamp ev" "same_counters s s'"
    and ev: "ev = \<lparr>ev_timestamp = next_timestamp e s, ev_type = type, ev_payload = payload\<rparr>" by blast
  obtain dropped kept' where "kept = dropped @ kept'" "kept_events (kept @ tail) = kept' @ tail"
    using kept_events_append [OF tail, of kept] by auto
  moreover from this have "log_room s' (kept' @ tail @ [ev]) k" using h l ts ev by (simp add: log_room_def)
  ultimately show ?thesis using s' l(2) ev by (intro exI [of _ s'] exI [of _ dropped] exI [of _ kept'] exI [of _ ev]) simp
qed

lemma log_report_failure_step:
  assumes "log_room s (kept @ tail) (Suc k)" and "k \<le> 2"
    and "length (events_bytes tail) \<le> COMPACTION_SPACE_PRESERVE" and "env_ok e s"
  shows "\<exists>s' dropped kept' ev.
    log_report_failure e type counter clear s = clear s' \<and>
    kept = dropped @ kept' \<and> kept' @ tail = kept_events (kept @ tail) \<and> log_room s' (kept' @ tail @ [ev]) k \<and>
    ev_type ev = type \<and> ev_payload ev = [ucast (counter s)] \<and> same_counters s s'"
proof -
  let ?c = "ucast (counter s) :: u8"
  have "\<not> 255 < unat ?c" using unsigned_less [of ?c, where 'a = nat] by simp
  have one: "(of_nat (length [?c]) :: u8) = 1" and len: "length [?c] \<le> 63" by simp_all
  from core_step [OF assms len, of type, unfolded one]
  obtain s' dropped kept' ev where "flash_log_add_event_core e type 1 [?c] s = (EC_SUCCESS, s')"
    and c: "kept = dropped @ kept'" "kept' @ tail = kept_events (kept @ tail)" "log_room s' (kept' @ tail @ [ev]) k"
      "ev_type ev = type" "ev_payload ev = [?c]" "same_counters s s'" by blast
  then have "log_report_failure e type counter clear s = clear s'"
    using \<open>\<not> 255 < unat ?c\<close> by (simp add: log_report_failure_def Let_def)
  then show ?thesis using c by blast
qed

text \<open>The reports of earlier failures that precede an event.\<close>

definition failure_reports :: "flog \<Rightarrow> (u8 \<times> bytes) list" where
  "failure_reports s =
     (if lock_failures_count s = 0 then [] else [(FE_LOG_LOCKS, [ucast (lock_failures_count s)])]) @
     (if overflow_failures_count s = 0 then [] else [(FE_LOG_OVERFLOWS, [ucast (overflow_failures_count s)])])"

definition event_content :: "log_event \<Rightarrow> u8 \<times> bytes" where
  "event_content ev = (ev_type ev, ev_payload ev)"

lemma log_room_clear:
  "log_room s evs k \<Longrightarrow> log_room (s\<lparr>lock_failures_count := a\<rparr>) evs k"
  "log_room s evs k \<Longrightarrow> log_room (s\<lparr>overflow_failures_count := a\<rparr>) evs k"
  by (simp_all add: log_room_def log_holds_def read_context_def chip_works_def)

lemma log_room_mono: "log_room s evs (Suc k) \<Longrightarrow> log_room s evs k"
  by (simp add: log_room_def)

lemma small_tail: "log_room s (kept @ tail) k \<Longrightarrow> length tail \<le> 3 \<Longrightarrow> length (events_bytes tail) \<le> COMPACTION_SPACE_PRESERVE"
proof -
  assume r: "log_room s (kept @ tail) k" and l: "length tail \<le> 3"
  have "length (events_bytes tail) \<le> 72 * length tail" if "list_all event_ok tail" for tail
    using that by (induction tail) (auto dest: length_event_bytes_le)
  from this [of tail] show ?thesis
    using r l by (auto simp: log_room_def log_holds_def page_holds_def COMPACTION_SPACE_PRESERVE_def CONFIG_FLASH_LOG_SPACE_def)
qed

text \<open>The log after the events \<open>new\<close> were added one after the other, each behind a compaction when the page
  is above nine tenths (\<open>kept_events\<close>).\<close>

definition with_events :: "log_event list \<Rightarrow> log_event list \<Rightarrow> log_event list" where
  "with_events evs new = foldl (\<lambda>l ev. kept_events l @ [ev]) evs new"

lemma with_events_append: "with_events evs (xs @ ys) = with_events (with_events evs xs) ys"
  by (simp add: with_events_def)

lemma with_events_all:
  "length (events_bytes (evs @ new)) \<le> RUN_TIME_LOG_FULL_WATERMARK \<Longrightarrow> with_events evs (new @ [ev]) = evs @ new @ [ev]"
proof (induction new arbitrary: evs)
  case Nil
  then show ?case by (simp add: with_events_def kept_events_def)
next
  case (Cons e new)
  have "kept_events evs = evs" using Cons.prems by (simp add: kept_events_def)
  then show ?case using Cons.IH [of "evs @ [e]"] Cons.prems by (simp add: with_events_def)
qed

text \<open>One of the two reports: what the counter \<open>counter\<close> shows is recorded, and the counter cleared.\<close>

lemma maybe_report:
  assumes room: "log_room s (kept @ tail) (Suc k)" and k: "k \<le> 2" and tail: "length tail \<le> 2" and env: "env_ok e s"
  shows "\<exists>s' dropped kept' reports.
    (if counter s \<noteq> 0 then log_report_failure e type counter clear s else s) = (if counter s \<noteq> 0 then clear s' else s') \<and>
    kept = dropped @ kept' \<and> log_room s' (kept' @ tail @ reports) k \<and> same_counters s s' \<and>
    kept' @ tail @ reports = with_events (kept @ tail) reports \<and>
    map event_content reports = (if counter s = 0 then [] else [(type, [ucast (counter s)])])"
proof (cases "counter s = 0")
  case True
  then show ?thesis using log_room_mono [OF room]
    by (intro exI [of _ s] exI [of _ "[]"] exI [of _ kept]) (simp add: same_counters_def with_events_def)
next
  case False
  from log_report_failure_step [OF room k small_tail [OF room] env, of type counter clear] tail
  obtain s' dropped kept' ev where r: "log_report_failure e type counter clear s = clear s'"
    and c: "kept = dropped @ kept'" "kept' @ tail = kept_events (kept @ tail)" "log_room s' (kept' @ tail @ [ev]) k"
      "ev_type ev = type" "ev_payload ev = [ucast (counter s)]" "same_counters s s'" by fastforce
  have w: "kept' @ tail @ [ev] = with_events (kept @ tail) [ev]"
    using arg_cong [OF c(2), of "\<lambda>l. l @ [ev]"] by (simp add: with_events_def)
  have m: "map event_content [ev] = (if counter s = 0 then [] else [(type, [ucast (counter s)])])"
    using False c(4,5) by (simp add: event_content_def)
  have "(if counter s \<noteq> 0 then log_report_failure e type counter clear s else s) = (if counter s \<noteq> 0 then clear s' else s')"
    using False r by simp
  then show ?thesis using c(1,3,6) w m by blast
qed

lemma add_event_records:
  assumes room: "log_room s evs 3" and env: "\<forall>i<3. env_ok (e i) s" and len: "length payload \<le> 63"
    and s'_def: "s' = flash_log_add_event e type (of_nat (length payload)) payload s"
  shows "\<exists>dropped kept reports ev.
    evs = dropped @ kept \<and> log_room s' (kept @ reports @ [ev]) 0 \<and>
    kept @ reports @ [ev] = with_events evs (reports @ [ev]) \<and>
    (length (events_bytes (evs @ reports)) \<le> RUN_TIME_LOG_FULL_WATERMARK \<longrightarrow> dropped = []) \<and>
    map event_content reports = failure_reports s \<and> event_content ev = (type, payload) \<and>
    lock_failures_count s' = 0 \<and> overflow_failures_count s' = 0"
proof -
  let ?c1 = "\<lambda>s. s\<lparr>lock_failures_count := 0\<rparr>" and ?c2 = "\<lambda>s. s\<lparr>overflow_failures_count := 0\<rparr>"
  define s1 where "s1 = (if lock_failures_count s \<noteq> 0 then log_report_failure (e 0) FE_LOG_LOCKS lock_failures_count ?c1 s else s)"
  define s2 where "s2 = (if overflow_failures_count s1 \<noteq> 0
    then log_report_failure (e 1) FE_LOG_OVERFLOWS overflow_failures_count ?c2 s1 else s1)"
  have "log_room s (evs @ []) (Suc 2)" using room by (simp add: numeral_3_eq_3 numeral_2_eq_2)
  from maybe_report [OF this, of "e 0" lock_failures_count FE_LOG_LOCKS ?c1] env
  obtain t1 d1 kept1 r1 where 1: "s1 = (if lock_failures_count s \<noteq> 0 then ?c1 t1 else t1)" "evs = d1 @ kept1"
    "log_room t1 (kept1 @ r1) 2" "same_counters s t1" "kept1 @ r1 = with_events evs r1"
    "map event_content r1 = (if lock_failures_count s = 0 then [] else [(FE_LOG_LOCKS, [ucast (lock_failures_count s)])])"
    by (auto simp: s1_def)
  then have c1: "lock_failures_count s1 = 0" "overflow_failures_count s1 = overflow_failures_count s"
    "log_tstamp_base s1 = log_tstamp_base s" and room1: "log_room s1 (kept1 @ r1) (Suc 1)"
    by (auto simp: same_counters_def log_room_clear numeral_2_eq_2)
  have l1: "length r1 \<le> 1" using arg_cong [OF 1(6), of length] by (simp split: if_splits)
  have "env_ok (e 1) s1" using env env_ok_cong [OF c1(3)] by auto
  from maybe_report [OF room1 _ _ this, of overflow_failures_count FE_LOG_OVERFLOWS ?c2] l1
  obtain t2 d2 kept2 r2 where 2: "s2 = (if overflow_failures_count s1 \<noteq> 0 then ?c2 t2 else t2)" "kept1 = d2 @ kept2"
    "log_room t2 (kept2 @ r1 @ r2) 1" "same_counters s1 t2" "kept2 @ r1 @ r2 = with_events (kept1 @ r1) r2"
    "map event_content r2 = (if overflow_failures_count s1 = 0 then [] else [(FE_LOG_OVERFLOWS, [ucast (overflow_failures_count s1)])])"
    by (auto simp: s2_def)
  then have c2: "lock_failures_count s2 = 0" "overflow_failures_count s2 = 0" "log_tstamp_base s2 = log_tstamp_base s"
    and room2: "log_room s2 (kept2 @ r1 @ r2) (Suc 0)"
    using c1 by (auto simp: same_counters_def log_room_clear)
  have l2: "length (r1 @ r2) \<le> 3" using l1 arg_cong [OF 2(6), of length] by (simp split: if_splits)
  have "env_ok (e 2) s2" using env env_ok_cong [OF c2(3)] by auto
  from core_step [OF room2 _ small_tail [OF room2 l2] this len, of type]
  obtain s3 d3 kept3 ev where 3: "flash_log_add_event_core (e 2) type (of_nat (length payload)) payload s2 = (EC_SUCCESS, s3)"
    "kept2 = d3 @ kept3" "log_room s3 (kept3 @ (r1 @ r2) @ [ev]) 0" "ev_type ev = type" "ev_payload ev = payload"
    "same_counters s2 s3" "kept3 @ r1 @ r2 = kept_events (kept2 @ r1 @ r2)" by auto
  have "s' = s3" using 3(1) by (simp add: s'_def flash_log_add_event_def Let_def s1_def [symmetric] s2_def [symmetric])
  moreover have "evs = (d1 @ d2 @ d3) @ kept3" using 1(2) 2(2) 3(2) by simp
  moreover have "map event_content (r1 @ r2) = failure_reports s" using 1(6) 2(6) c1(2) by (simp add: failure_reports_def)
  moreover have all: "kept3 @ (r1 @ r2) @ [ev] = with_events evs ((r1 @ r2) @ [ev])"
    using 3(7) 1(5) 2(5) by (simp add: with_events_append [of _ _ "_ @ _"] with_events_append [of _ r2])
       (simp add: with_events_def)
  moreover have "length (events_bytes (evs @ r1 @ r2)) \<le> RUN_TIME_LOG_FULL_WATERMARK \<longrightarrow> d1 @ d2 @ d3 = []"
    using all with_events_all [of evs "r1 @ r2" ev] 1(2) 2(2) 3(2) by auto
  ultimately show ?thesis
    using 3(3-6) c2(1,2)
    by (intro exI [of _ "d1 @ d2 @ d3"] exI [of _ kept3] exI [of _ "r1 @ r2"] exI [of _ ev])
      (simp add: event_content_def same_counters_def)
qed

section \<open>Starting up\<close>

text \<open>What a start-up finds: the page of an earlier run and the variables as the loader clears them.\<close>

definition log_cold :: "flog \<Rightarrow> log_event list \<Rightarrow> bool" where
  "log_cold s evs \<longleftrightarrow>
     page_holds (log_page s) evs \<and> sorted_wrt (<) (map ev_timestamp evs) \<and> list_all (\<lambda>ev. 0 < ev_timestamp ev) evs \<and>
     log_read_cursor s = 0 \<and> log_prev_timestamp s = 0 \<and> last_used_timestamp s = 0 \<and> \<not> log_event_in_progress s \<and>
     lock_failures_count s = 0 \<and> overflow_failures_count s = 0"

lemma sorted_le_last:
  fixes xs :: "u32 list"
  assumes "sorted_wrt (<) xs" and "x \<in> set xs"
  shows "x \<le> last xs"
  using assms by (induction xs) (auto intro: less_imp_le dest: last_in_set split: if_splits)

lemma restart_scan:
  assumes cold: "log_cold s evs" and room: "length (events_bytes evs) < CONFIG_FLASH_LOG_SPACE"
  shows "init_loop s 0 0 = (length (events_bytes evs), if evs = [] then 0 else ev_timestamp (last evs))"
    and "entry_timestamp s (length (events_bytes evs)) = CONFIG_FLASH_ERASED_VALUE32"
    and "evs \<noteq> [] \<Longrightarrow> 0 < length (events_bytes evs)"
    and "list_all (\<lambda>ev. 0 < ev_timestamp ev \<and> ev_timestamp ev \<le> (if evs = [] then 0 else ev_timestamp (last evs))) evs"
proof -
  have page: "page_holds (log_page s) evs" using cold by (simp add: log_cold_def)
  show "init_loop s 0 0 = (length (events_bytes evs), if evs = [] then 0 else ev_timestamp (last evs))"
    using init_loop_walks [of s "[]" evs 0] page by simp
  show "entry_timestamp s (length (events_bytes evs)) = CONFIG_FLASH_ERASED_VALUE32"
    by (rule end_at(2) [OF page HOL.refl room])
  show "0 < length (events_bytes evs)" if "evs \<noteq> []"
    using that page length_event_bytes_ge [of "hd evs"] by (cases evs) (auto simp: page_holds_def)
  show "list_all (\<lambda>ev. 0 < ev_timestamp ev \<and> ev_timestamp ev \<le> (if evs = [] then 0 else ev_timestamp (last evs))) evs"
    using cold sorted_le_last [of "map ev_timestamp evs"] by (auto simp: log_cold_def list_all_iff last_map)
qed

lemma write_disable_holds: "log_holds (flash_log_write_disable s) evs = log_holds s evs"
  by (simp add: flash_log_write_disable_def log_holds_def)

definition log_started :: "flog \<Rightarrow> log_event list \<Rightarrow> flog" where
  "log_started s evs =
     (let l = (if evs = [] then 0 else ev_timestamp (last evs))
      in flash_log_write_enable
           (s\<lparr>last_used_timestamp := l, log_tstamp_base := l + 1,
              log_write_cursor := length (events_bytes evs), log_inited := True\<rparr>))"

lemma log_started_fields:
  "log_page (log_started s evs) = log_page s" "log_behind (log_started s evs) = log_behind s"
  "log_write_cursor (log_started s evs) = length (events_bytes evs)" "log_inited (log_started s evs)"
  "log_event_in_progress (log_started s evs) = log_event_in_progress s"
  "last_used_timestamp (log_started s evs) = (if evs = [] then 0 else ev_timestamp (last evs))"
  "log_read_cursor (log_started s evs) = log_read_cursor s"
  "log_prev_timestamp (log_started s evs) = log_prev_timestamp s"
  "lock_failures_count (log_started s evs) = lock_failures_count s"
  "overflow_failures_count (log_started s evs) = overflow_failures_count s"
  "log_tstamp_base (log_started s evs) = (if evs = [] then 0 else ev_timestamp (last evs)) + 1"
  "chip_works (log_started s evs) = chip_works s"
  by (simp_all add: log_started_def flash_log_write_enable_def chip_works_def Let_def)

lemma log_started_holds:
  assumes "log_cold s evs" and "length (events_bytes evs) < CONFIG_FLASH_LOG_SPACE"
  shows "log_holds (log_started s evs) evs"
  using assms(1) restart_scan(4) [OF assms] by (simp add: log_holds_def log_started_fields log_cold_def)

lemma init_unfold:
  assumes "log_cold s evs" and "length (events_bytes evs) < CONFIG_FLASH_LOG_SPACE"
  shows "flash_log_init e s = flash_log_write_disable
    (if evs = [] then flash_log_add_event e FE_LOG_START 0 [] (log_started s evs)
     else if STARTUP_LOG_FULL_WATERMARK < length (events_bytes evs) then try_compacting (e 0) (log_started s evs)
     else log_started s evs)"
proof -
  note r = restart_scan [OF assms]
  have "log_byte (log_started s evs) = log_byte s"
    by (rule ext) (simp add: log_byte_def log_started_fields)
  then have "entry_timestamp (log_started s evs) off = entry_timestamp s off" for off
    by (simp add: entry_timestamp_def log_bytes_def)
  then have "entry_timestamp (log_started s evs) (length (events_bytes evs)) = CONFIG_FLASH_ERASED_VALUE32" using r(2) by simp
  moreover have "last_used_timestamp s = 0" using assms(1) by (simp add: log_cold_def)
  ultimately show ?thesis
    using r(1,3) by (cases "evs = []") (simp_all add: flash_log_init_def Let_def log_started_def)
qed

lemma sorted_compacted: "sorted_wrt R (map f evs) \<Longrightarrow> sorted_wrt R (map f (compacted evs))"
proof -
  assume "sorted_wrt R (map f evs)"
  moreover obtain dropped where "evs = dropped @ compacted evs" using suffix_compacted by blast
  ultimately have "sorted_wrt R (map f dropped @ map f (compacted evs))" by (metis map_append)
  then show ?thesis by (simp add: sorted_wrt_append)
qed

lemma compacting_holds:
  assumes "log_holds s evs" and "chip_works s" and "fe_heap e"
  shows "log_holds (try_compacting e s) (compacted evs)"
proof -
  have h: "page_holds (log_page s) evs" "log_write_cursor s = length (events_bytes evs)" "log_inited s"
    "\<not> log_event_in_progress s" "sorted_wrt (<) (map ev_timestamp evs)"
    "list_all (\<lambda>ev. 0 < ev_timestamp ev \<and> ev_timestamp ev \<le> last_used_timestamp s) evs"
    using assms(1) by (simp_all add: log_holds_def)
  note c = try_compacting_ok [OF h(1,2) assms(2,3)]
  have "list_all (\<lambda>ev. 0 < ev_timestamp ev \<and> ev_timestamp ev \<le> last_used_timestamp s) (compacted evs)"
    using h(6) suffix_compacted [of evs] by (metis list_all_append)
  then show ?thesis using c h sorted_compacted [OF h(5)] by (simp add: log_holds_def)
qed

lemma init_holds:
  assumes cold: "log_cold s evs" and len: "length (events_bytes evs) < CONFIG_FLASH_LOG_SPACE" and chip: "chip_works s"
    and env: "\<forall>i<3. env_ok (e i) (s\<lparr>log_tstamp_base := 1\<rparr>)"
  shows "\<exists>evs'. log_holds (flash_log_init e s) evs' \<and>
    (if evs = [] then map event_content evs' = [(FE_LOG_START, [])]
     else evs' = (if STARTUP_LOG_FULL_WATERMARK < length (events_bytes evs) then compacted evs else evs))"
proof (cases "evs = []")
  case True
  let ?s = "log_started s []"
  have c: "lock_failures_count s = 0" "overflow_failures_count s = 0" "log_read_cursor s = 0" using cold by (simp_all add: log_cold_def)
  have "log_room ?s [] 3"
    using log_started_holds [OF cold len] True chip c(3) by (simp add: log_room_def log_started_fields read_context_def)
  moreover have "\<forall>i<3. env_ok (e i) ?s"
    using env env_ok_cong [of ?s "s\<lparr>log_tstamp_base := 1\<rparr>"] by (simp add: log_started_fields)
  ultimately obtain dropped kept reports ev where r: "[] = dropped @ kept"
    "log_room (flash_log_add_event e FE_LOG_START 0 [] ?s) (kept @ reports @ [ev]) 0"
    "map event_content reports = failure_reports ?s" "event_content ev = (FE_LOG_START, [])"
    using add_event_records [of ?s "[]" e "[]" _ FE_LOG_START] by auto
  have "reports = []" using r(3) c by (simp add: failure_reports_def log_started_fields)
  then have "log_holds (flash_log_init e s) [ev]"
    using r(1,2) unfolding init_unfold [OF cold len] write_disable_holds by (simp add: True log_room_def)
  then show ?thesis using r(4) True by (intro exI [of _ "[ev]"]) simp
next
  case False
  have "log_holds (log_started s evs) evs" by (rule log_started_holds [OF cold len])
  moreover from compacting_holds [OF this] have "log_holds (try_compacting (e 0) (log_started s evs)) (compacted evs)"
    using chip env by (simp add: log_started_fields env_ok_def)
  ultimately show ?thesis using False unfolding init_unfold [OF cold len] by (simp add: write_disable_holds)
qed

section \<open>Properties\<close>

text \<open>A log with two events, the flash behind the page not erased, and a page before start-up.\<close>

definition sample_events :: "log_event list" where
  "sample_events = [\<lparr>ev_timestamp = 5, ev_type = 0, ev_payload = []\<rparr>, \<lparr>ev_timestamp = 9, ev_type = 5, ev_payload = [1, 2]\<rparr>]"

definition sample_page :: "log_event list \<Rightarrow> bytes" where
  "sample_page evs = events_bytes evs @ replicate (CONFIG_FLASH_LOG_SPACE - length (events_bytes evs)) 0xFF"

definition sample_flog :: "bool \<Rightarrow> flog" where
  "sample_flog started =
     \<lparr>log_page = sample_page sample_events, log_behind = (\<lambda>_. 0), log_read_cursor = 0, log_prev_timestamp = 0,
      log_write_cursor = (if started then 20 else 0), log_tstamp_base = (if started then 10 else 0),
      last_used_timestamp = (if started then 9 else 0), log_inited = started, log_event_in_progress = False,
      lock_failures_count = (if started then 2 else 0), overflow_failures_count = 0, platform_flash_control = True,
      log_region_writable = False, log_write_results = [EC_SUCCESS], log_erase_results = []\<rparr>"

definition sample_env :: flog_env where
  "sample_env = \<lparr>fe_time = 3000000, fe_interrupt = False, fe_heap = True\<rparr>"

lemma sample_ok: "list_all event_ok sample_events"
  by (simp add: sample_events_def event_ok_def CONFIG_FLASH_ERASED_VALUE32_def)

lemma sample_length: "length (events_bytes sample_events) = 20"
  using sample_ok by (simp add: sample_events_def length_event_bytes)

lemma sample_page_holds: "page_holds (sample_page sample_events) sample_events"
  using sample_ok sample_length by (simp add: page_holds_def sample_page_def CONFIG_FLASH_LOG_SPACE_def)

lemma sample_holds: "log_holds (sample_flog True) sample_events"
  using sample_page_holds sample_length by (simp add: log_holds_def sample_flog_def) (simp add: sample_events_def)

lemma sample_room: "log_room (sample_flog True) sample_events 3"
proof -
  have "read_context (sample_flog True) sample_events"
    unfolding read_context_def by (rule exI [of _ "[]"]) (simp add: sample_flog_def)
  then show ?thesis using sample_holds by (simp add: log_room_def) (simp add: sample_flog_def chip_works_def)
qed

text \<open>The console command \<open>flog\<close> without a time stamp prints every event the log holds, in the order in
  which they were logged, each with its time stamp, size, type, checksum and payload, and ends without a
  warning, whatever earlier retrievals left in the read context; the log still holds the same events.\<close>

theorem flog_prints_all_events:
  assumes "log_holds s evs" and "\<not> fe_interrupt e" and "length argv = 1"
  shows "\<exists>s'. command_flash_log e argv s = (EC_SUCCESS, map event_image evs, 0, s') \<and> log_holds s' evs"
  using flog_dump_all [OF assms(1,2)] assms(3) by (auto simp: command_flash_log_def)

theorem flog_prints_all_events_witness:
  "\<exists>s'. command_flash_log sample_env [[102]] (sample_flog True) = (EC_SUCCESS, map event_image sample_events, 0, s') \<and>
     log_holds s' sample_events"
  by (rule flog_prints_all_events [OF sample_holds]) (simp_all add: sample_env_def)

text \<open>(C14) \<open>flash_log_add_event\<close> records the event: when the flash works, memory for a compaction can be
  allocated and time stamps are left, the log afterwards holds a final part of the events it held, then
  one report for each counter of earlier failures that was not zero (its value modulo 256), then the new event, and both
  counters are zero.  Events are dropped only by the compactions that precede an event when the page is above nine tenths
  and keep the longest end of the log that fits the preserved space (\<open>with_events\<close>), hence none as long as
  the old events and the reports stay below that mark, and never the reports or the new event.\<close>

theorem logged_event_is_recorded:
  assumes "log_room s evs 3" and "\<forall>i<3. env_ok (e i) s" and "length payload \<le> 63"
    and "s' = flash_log_add_event e type (of_nat (length payload)) payload s"
  shows "\<exists>dropped kept reports ev.
    evs = dropped @ kept \<and> log_room s' (kept @ reports @ [ev]) 0 \<and>
    kept @ reports @ [ev] = with_events evs (reports @ [ev]) \<and>
    (length (events_bytes (evs @ reports)) \<le> RUN_TIME_LOG_FULL_WATERMARK \<longrightarrow> dropped = []) \<and>
    map event_content reports = failure_reports s \<and> event_content ev = (type, payload) \<and>
    lock_failures_count s' = 0 \<and> overflow_failures_count s' = 0"
  by (rule add_event_records [OF assms])

theorem logged_event_is_recorded_witness:
  "\<exists>dropped kept reports ev.
    sample_events = dropped @ kept \<and>
    log_room (flash_log_add_event (\<lambda>_. sample_env) 7 1 [42] (sample_flog True)) (kept @ reports @ [ev]) 0 \<and>
    map event_content reports = [(FE_LOG_LOCKS, [2])] \<and> event_content ev = (7, [42])"
proof -
  have env: "\<forall>i<3. env_ok ((\<lambda>_. sample_env) i) (sample_flog True)"
    by (simp add: env_ok_def sample_env_def sample_flog_def flash_log_get_tstamp_def)
  have reports: "failure_reports (sample_flog True) = [(FE_LOG_LOCKS, [2])]" by (simp add: failure_reports_def sample_flog_def)
  have len: "length [42 :: u8] \<le> 63" and one: "(of_nat (length [42 :: u8]) :: u8) = 1" by simp_all
  from logged_event_is_recorded [OF sample_room env len HOL.refl, of 7, unfolded reports one]
  show ?thesis by (elim exE conjE) (intro exI conjI)
qed

text \<open>(C15) The log survives a restart: when \<open>flash_log_init\<close> finds a page that holds events and is not
  filled to the last byte, the log holds the same events afterwards, or, above three quarters of the page, the ones a
  compaction keeps; a page without events gets the event that marks the start of the log.\<close>

theorem log_survives_restart:
  assumes "log_cold s evs" and "length (events_bytes evs) < CONFIG_FLASH_LOG_SPACE" and "chip_works s"
    and "\<forall>i<3. env_ok (e i) (s\<lparr>log_tstamp_base := 1\<rparr>)"
  shows "\<exists>evs'. log_holds (flash_log_init e s) evs' \<and>
    (if evs = [] then map event_content evs' = [(FE_LOG_START, [])]
     else evs' = (if STARTUP_LOG_FULL_WATERMARK < length (events_bytes evs) then compacted evs else evs))"
  by (rule init_holds [OF assms])

theorem log_survives_restart_witness:
  "log_holds (flash_log_init (\<lambda>_. sample_env) (sample_flog False)) sample_events"
proof -
  have "log_cold (sample_flog False) sample_events"
    using sample_page_holds by (simp add: log_cold_def sample_flog_def) (simp add: sample_events_def)
  moreover have "chip_works (sample_flog False)" by (simp add: chip_works_def sample_flog_def)
  moreover have "\<forall>i<3. env_ok ((\<lambda>_. sample_env) i) ((sample_flog False)\<lparr>log_tstamp_base := 1\<rparr>)"
    by (simp add: env_ok_def sample_env_def sample_flog_def flash_log_get_tstamp_def)
  moreover have "sample_events \<noteq> []" by (simp add: sample_events_def)
  ultimately show ?thesis
    using log_survives_restart [of "sample_flog False" sample_events "\<lambda>_. sample_env"] sample_length
    by (simp add: CONFIG_FLASH_LOG_SPACE_def STARTUP_LOG_FULL_WATERMARK_def)
qed

end
