(* ===== verification/Shm_Alloc.thy ===== *)
theory Shm_Alloc
  imports C_Memory
begin

text \<open>
  The allocator of \<open>src/common/shmalloc.c\<close>: a chain of free buffers, sorted by address and
  coalesced, and a chain of allocated ones, both doubly linked through the headers at the start of
  the buffers.

  An address is a natural number, 0 the null pointer.  The fields of \<open>struct shm_buffer\<close> are
  three functions from addresses, so that a store through a pointer is an update of one of them at
  one address; the headers are twelve bytes long and no two of them overlap, which is part of the
  invariant.  The memory behind the headers is \<open>shm_data\<close>.  A walk along a chain ends only if
  the chain does, so the loops are partial functions: \<open>None\<close> is a loop that does not end.
  The mutex serializes the operations and is not represented.
\<close>

section \<open>State\<close>

record shm =
  free_buf_chain :: nat
  allocced_buf_chain :: nat
  max_allocated_size :: u32
  next_buffer :: "nat \<Rightarrow> nat"
  prev_buffer :: "nat \<Rightarrow> nat"
  buffer_size :: "nat \<Rightarrow> nat"
  shm_data :: memory

definition shm_header :: nat where "shm_header = 12"

definition set_next :: "nat \<Rightarrow> nat \<Rightarrow> shm \<Rightarrow> shm" where
  "set_next a v s = s\<lparr>next_buffer := (next_buffer s)(a := v)\<rparr>"

definition set_prev :: "nat \<Rightarrow> nat \<Rightarrow> shm \<Rightarrow> shm" where
  "set_prev a v s = s\<lparr>prev_buffer := (prev_buffer s)(a := v)\<rparr>"

definition set_size :: "nat \<Rightarrow> nat \<Rightarrow> shm \<Rightarrow> shm" where
  "set_size a v s = s\<lparr>buffer_size := (buffer_size s)(a := v)\<rparr>"

text \<open>\<open>if (p) p->prev_buffer = v\<close>\<close>

definition set_prev_if :: "nat \<Rightarrow> nat \<Rightarrow> shm \<Rightarrow> shm" where
  "set_prev_if a v s = (if a \<noteq> 0 then set_prev a v s else s)"

definition shared_mem_init :: "nat \<Rightarrow> nat \<Rightarrow> shm \<Rightarrow> shm" where
  "shared_mem_init shared_mem_buf ram_end s =
     set_size shared_mem_buf (ram_end - shared_mem_buf)
       (set_prev shared_mem_buf 0 (set_next shared_mem_buf 0 (s\<lparr>free_buf_chain := shared_mem_buf\<rparr>)))"

section \<open>Releasing\<close>

partial_function (option) in_chain :: "(nat \<Rightarrow> nat) \<Rightarrow> nat \<Rightarrow> nat \<Rightarrow> bool option" where
  "in_chain nxt ptr pfb =
     (if pfb = 0 then Some False
      else if pfb = ptr then Some True
      else in_chain nxt ptr (nxt pfb))"

text \<open>Taking the buffer out of the chain of allocated ones; \<open>None\<close> inside is a buffer that is not in it.\<close>

definition unlink_allocated :: "nat \<Rightarrow> shm \<Rightarrow> shm option option" where
  "unlink_allocated ptr s =
     (if ptr = allocced_buf_chain s
      then
        (let s1 = set_prev_if (next_buffer s ptr) 0 s
         in Some (Some (s1\<lparr>allocced_buf_chain := next_buffer s1 ptr\<rparr>)))
      else
        (case in_chain (next_buffer s) ptr (next_buffer s (allocced_buf_chain s)) of
           None \<Rightarrow> None
         | Some False \<Rightarrow> Some None
         | Some True \<Rightarrow>
             (let s1 = set_next (prev_buffer s ptr) (next_buffer s ptr) s
              in Some (Some (set_prev_if (next_buffer s1 ptr) (prev_buffer s1 ptr) s1)))))"

partial_function (option) find_spot :: "(nat \<Rightarrow> nat) \<Rightarrow> nat \<Rightarrow> nat \<Rightarrow> nat option" where
  "find_spot nxt ptr pfb =
     (if nxt pfb \<noteq> 0 \<and> nxt pfb < ptr then find_spot nxt ptr (nxt pfb) else Some pfb)"

definition free_first :: "nat \<Rightarrow> nat \<Rightarrow> shm \<Rightarrow> shm" where
  "free_first ptr released_size s =
     (let head_buf = free_buf_chain s;
          s1 = (if ptr + released_size = head_buf
                then set_next ptr (next_buffer s head_buf) (set_size ptr (buffer_size s head_buf + released_size) s)
                else set_prev head_buf ptr (set_next ptr head_buf (set_size ptr released_size s)));
          s2 = set_prev_if (next_buffer s1 ptr) ptr s1
      in (set_prev ptr 0 s2)\<lparr>free_buf_chain := ptr\<rparr>)"

definition free_after :: "nat \<Rightarrow> nat \<Rightarrow> nat \<Rightarrow> shm \<Rightarrow> shm" where
  "free_after pfb ptr released_size s =
     (if pfb + buffer_size s pfb = ptr
      then
        (let s1 = set_size pfb (buffer_size s pfb + released_size) s
         in if ptr + released_size = next_buffer s1 pfb
            then
              (let s2 = set_size pfb (buffer_size s1 pfb + buffer_size s1 (next_buffer s1 pfb)) s1;
                   s3 = set_next pfb (next_buffer s2 (next_buffer s2 pfb)) s2
               in set_prev_if (next_buffer s3 pfb) pfb s3)
            else s1)
      else
        (let s1 = (if ptr + released_size = next_buffer s pfb
                   then set_next ptr (next_buffer s (next_buffer s pfb))
                          (set_size ptr (released_size + buffer_size s (next_buffer s pfb)) s)
                   else set_size ptr released_size (set_next ptr (next_buffer s pfb) s));
             s2 = set_next pfb ptr (set_prev ptr pfb s1)
         in set_prev_if (next_buffer s2 ptr) ptr s2))"

text \<open>Bringing the buffer back into the chain of free ones.\<close>

definition insert_free :: "nat \<Rightarrow> shm \<Rightarrow> shm option" where
  "insert_free ptr s =
     (let released_size = buffer_size s ptr
      in if free_buf_chain s = 0
         then Some (set_prev ptr 0 (set_next ptr 0 (set_size ptr released_size (s\<lparr>free_buf_chain := ptr\<rparr>))))
         else if ptr < free_buf_chain s then Some (free_first ptr released_size s)
         else
           (case find_spot (next_buffer s) ptr (free_buf_chain s) of
              None \<Rightarrow> None
            | Some pfb \<Rightarrow> Some (free_after pfb ptr released_size s)))"

definition do_release :: "nat \<Rightarrow> shm \<Rightarrow> shm option" where
  "do_release ptr s =
     (case unlink_allocated ptr s of
        None \<Rightarrow> None
      | Some None \<Rightarrow> Some s
      | Some (Some s1) \<Rightarrow> insert_free ptr s1)"

text \<open>The pointer passed in is behind the header; pointer arithmetic wraps around.\<close>

definition shared_mem_release :: "bool \<Rightarrow> nat \<Rightarrow> shm \<Rightarrow> shm option" where
  "shared_mem_release in_interrupt ptr s =
     (if in_interrupt then Some s else do_release ((ptr + (2 ^ 32 - shm_header)) mod 2 ^ 32) s)"

section \<open>Acquiring\<close>

text \<open>The best fit: the remaining room and the buffer, 0 if there is none.\<close>

partial_function (option) best_fit ::
  "(nat \<Rightarrow> nat) \<Rightarrow> (nat \<Rightarrow> nat) \<Rightarrow> nat \<Rightarrow> nat \<Rightarrow> nat \<Rightarrow> nat \<Rightarrow> (nat \<times> nat) option" where
  "best_fit nxt sz request pfb headroom candidate =
     (if pfb = 0 then Some (headroom, candidate)
      else if request \<le> sz pfb \<and> sz pfb - request < headroom
           then best_fit nxt sz request (nxt pfb) (sz pfb - request) pfb
           else best_fit nxt sz request (nxt pfb) headroom candidate)"

text \<open>The size is rounded up to words, and the header is added.\<close>

definition padded_size :: "u32 \<Rightarrow> nat" where
  "padded_size request = unat (((request + 3) AND NOT 3) + of_nat shm_header)"

definition take_whole :: "nat \<Rightarrow> shm \<Rightarrow> shm" where
  "take_whole candidate s =
     (if candidate = free_buf_chain s
      then
        (let s1 = s\<lparr>free_buf_chain := next_buffer s candidate\<rparr>
         in set_prev_if (free_buf_chain s1) 0 s1)
      else
        (let s1 = set_next (prev_buffer s candidate) (next_buffer s candidate) s
         in set_prev_if (next_buffer s1 candidate) (prev_buffer s1 candidate) s1))"

definition take_part :: "nat \<Rightarrow> nat \<Rightarrow> nat \<Rightarrow> shm \<Rightarrow> shm" where
  "take_part candidate request headroom s =
     (let s1 = set_size candidate request s;
          pfb = candidate + request;
          s2 = set_prev pfb (prev_buffer s1 candidate) (set_next pfb (next_buffer s1 candidate) (set_size pfb headroom s1));
          s3 = set_prev_if (next_buffer s2 pfb) pfb s2
      in if candidate = free_buf_chain s3 then s3\<lparr>free_buf_chain := pfb\<rparr>
         else set_next (prev_buffer s3 pfb) pfb s3)"

text \<open>The buffer that was found, or 0 with \<open>EC_ERROR_BUSY\<close>.\<close>

definition do_acquire :: "u32 \<Rightarrow> shm \<Rightarrow> (ec_error \<times> nat \<times> shm) option" where
  "do_acquire req s =
     (let request = padded_size req
      in case best_fit (next_buffer s) (buffer_size s) request (free_buf_chain s) 0x10000000 0 of
           None \<Rightarrow> None
         | Some (headroom, candidate) \<Rightarrow>
             if candidate = 0 then Some (EC_ERROR_BUSY, 0, s)
             else if headroom \<le> shm_header then Some (EC_SUCCESS, candidate, take_whole candidate s)
             else Some (EC_SUCCESS, candidate, take_part candidate request headroom s))"

definition shared_mem_acquire :: "bool \<Rightarrow> u32 \<Rightarrow> shm \<Rightarrow> (ec_error \<times> nat \<times> shm) option" where
  "shared_mem_acquire in_interrupt req s =
     (if in_interrupt then Some (EC_ERROR_INVAL, 0, s)
      else if free_buf_chain s = 0 then Some (EC_ERROR_BUSY, 0, s)
      else
        (case do_acquire req s of
           None \<Rightarrow> None
         | Some (rv, new_buf, s0) \<Rightarrow>
             if rv = EC_SUCCESS
             then
               (let s1 = set_prev new_buf 0 (set_next new_buf (allocced_buf_chain s0) s0);
                    s2 = (set_prev_if (allocced_buf_chain s1) new_buf s1)\<lparr>allocced_buf_chain := new_buf\<rparr>;
                    s3 = s2\<lparr>shm_data := memset (shm_data s2) (new_buf + shm_header) 0 (unat req)\<rparr>;
                    s4 = (if max_allocated_size s3 <s req then s3\<lparr>max_allocated_size := req\<rparr> else s3)
                in Some (rv, new_buf + shm_header, s4))
             else Some (rv, 0, s0)))"

section \<open>Sizes\<close>

partial_function (option) max_size :: "(nat \<Rightarrow> nat) \<Rightarrow> (nat \<Rightarrow> nat) \<Rightarrow> nat \<Rightarrow> nat \<Rightarrow> nat option" where
  "max_size nxt sz pfb max_available =
     (if pfb = 0 then Some max_available
      else max_size nxt sz (nxt pfb) (if max_available < sz pfb then sz pfb else max_available))"

definition shared_mem_size :: "shm \<Rightarrow> u32 option" where
  "shared_mem_size s =
     map_option (\<lambda>max_available. of_nat max_available - of_nat shm_header)
       (max_size (next_buffer s) (buffer_size s) (free_buf_chain s) 0)"

partial_function (option) sum_size :: "(nat \<Rightarrow> nat) \<Rightarrow> (nat \<Rightarrow> nat) \<Rightarrow> nat \<Rightarrow> nat \<Rightarrow> nat option" where
  "sum_size nxt sz buf n =
     (if buf = 0 then Some n else sum_size nxt sz (nxt buf) (n + sz buf))"

text \<open>The command prints the total, the allocated and the free size, the largest free buffer and the largest request.\<close>

definition command_shmem :: "shm \<Rightarrow> (nat \<times> nat \<times> nat \<times> nat \<times> u32) option" where
  "command_shmem s =
     (case (sum_size (next_buffer s) (buffer_size s) (free_buf_chain s) 0,
            max_size (next_buffer s) (buffer_size s) (free_buf_chain s) 0,
            sum_size (next_buffer s) (buffer_size s) (allocced_buf_chain s) 0) of
        (Some free_size, Some max_free, Some allocated_size) \<Rightarrow>
          Some (allocated_size + free_size, allocated_size, free_size, max_free, max_allocated_size s)
      | _ \<Rightarrow> None)"

section \<open>Doubly linked chains\<close>

text \<open>\<open>links nxt prv w xs q\<close>: the buffers \<open>xs\<close> are linked, the first one back to \<open>w\<close> and the last one on to \<open>q\<close>.\<close>

primrec links :: "(nat \<Rightarrow> nat) \<Rightarrow> (nat \<Rightarrow> nat) \<Rightarrow> nat \<Rightarrow> nat list \<Rightarrow> nat \<Rightarrow> bool" where
  "links nxt prv w [] q \<longleftrightarrow> True"
| "links nxt prv w (a # as) q \<longleftrightarrow>
     a \<noteq> 0 \<and> nxt a = (if as = [] then q else hd as) \<and> prv a = w \<and> links nxt prv a as q"

definition first :: "nat list \<Rightarrow> nat" where "first xs = (if xs = [] then 0 else hd xs)"

lemma first_simps [simp]: "first [] = 0" "first (x # xs) = x"
  by (simp_all add: first_def)

lemma links_append:
  "links nxt prv w (xs @ ys) q \<longleftrightarrow>
     links nxt prv w xs (if ys = [] then q else hd ys) \<and> links nxt prv (if xs = [] then w else last xs) ys q"
  by (induction xs arbitrary: w) (auto simp: hd_append)

lemma links_frame:
  assumes "\<forall>a \<in> set xs. nxt' a = nxt a" and "\<forall>a \<in> set xs. prv' a = prv a"
  shows "links nxt' prv' w xs q = links nxt prv w xs q"
  using assms by (induction xs arbitrary: w) auto

lemma links_upd [simp]:
  "a \<notin> set xs \<Longrightarrow> links (nxt(a := v)) prv w xs q = links nxt prv w xs q"
  "a \<notin> set xs \<Longrightarrow> links nxt (prv(a := v)) w xs q = links nxt prv w xs q"
  by (simp_all add: links_frame)

lemma links_nonzero: "links nxt prv w xs q \<Longrightarrow> a \<in> set xs \<Longrightarrow> a \<noteq> 0"
  by (induction xs arbitrary: w) auto

lemma links_first: "links nxt prv w (a # as) 0 \<Longrightarrow> nxt a = first as"
  by (simp add: first_def)

subsection \<open>Walks along a chain\<close>

lemma in_chain_links:
  "links nxt prv w xs 0 \<Longrightarrow> in_chain nxt ptr (first xs) = Some (ptr \<noteq> 0 \<and> ptr \<in> set xs)"
proof (induction xs arbitrary: w)
  case Nil
  then show ?case by (subst in_chain.simps) simp
next
  case (Cons a xs)
  then have "in_chain nxt ptr (nxt a) = Some (ptr \<noteq> 0 \<and> ptr \<in> set xs)" by (auto simp: first_def)
  then show ?case using Cons.prems by (subst in_chain.simps) auto
qed

lemma find_spot_walks:
  "links nxt prv w (xs @ ys) 0 \<Longrightarrow> xs \<noteq> [] \<Longrightarrow> \<forall>x \<in> set xs. x < ptr \<Longrightarrow> ys = [] \<or> ptr \<le> hd ys \<Longrightarrow>
   find_spot nxt ptr (hd xs) = Some (last xs)"
proof (induction xs arbitrary: w)
  case (Cons a xs)
  show ?case
  proof (cases "xs = []")
    case True
    then have "nxt a = first ys" using Cons.prems(1) by (auto simp: first_def)
    then show ?thesis using True Cons.prems(4) by (subst find_spot.simps) (auto simp: first_def)
  next
    case False
    then have n: "nxt a = hd xs" "links nxt prv a (xs @ ys) 0" "hd xs \<noteq> 0" "hd xs < ptr"
      using Cons.prems by (cases xs; simp)+
    have "find_spot nxt ptr (hd xs) = Some (last xs)"
      using Cons.IH [OF n(2) False] Cons.prems(3,4) by simp
    then show ?thesis using n False by (subst find_spot.simps) simp
  qed
qed simp

text \<open>The best fit found along a chain, from a candidate found before it.\<close>

fun best :: "(nat \<Rightarrow> nat) \<Rightarrow> nat \<Rightarrow> nat list \<Rightarrow> nat \<Rightarrow> nat \<Rightarrow> nat \<times> nat" where
  "best sz request [] headroom candidate = (headroom, candidate)"
| "best sz request (a # as) headroom candidate =
     (if request \<le> sz a \<and> sz a - request < headroom then best sz request as (sz a - request) a
      else best sz request as headroom candidate)"

lemma best_fit_links:
  "links nxt prv w xs 0 \<Longrightarrow> best_fit nxt sz request (first xs) headroom candidate = Some (best sz request xs headroom candidate)"
proof (induction xs arbitrary: w headroom candidate)
  case Nil
  then show ?case by (subst best_fit.simps) simp
next
  case (Cons a xs)
  then have n: "nxt a = first xs" "links nxt prv a xs 0" "a \<noteq> 0" by (auto simp: first_def)
  show ?case using Cons.IH [OF n(2)] n by (subst best_fit.simps) simp
qed

text \<open>The result is a buffer of the chain that fits with the least room left, or the first candidate when none is better.\<close>

lemma best_cases:
  assumes "best sz request xs headroom candidate = (h, c)"
  shows "(h = headroom \<and> c = candidate \<and> (\<forall>a \<in> set xs. request \<le> sz a \<longrightarrow> headroom \<le> sz a - request)) \<or>
    (c \<in> set xs \<and> request \<le> sz c \<and> h = sz c - request \<and> h < headroom \<and> (\<forall>a \<in> set xs. request \<le> sz a \<longrightarrow> h \<le> sz a - request))"
  using assms
proof (induction xs arbitrary: headroom candidate)
  case (Cons a xs)
  show ?case
  proof (cases "request \<le> sz a \<and> sz a - request < headroom")
    case True
    then show ?thesis using Cons.IH [of "sz a - request" a] Cons.prems by auto
  next
    case False
    then show ?thesis using Cons.IH [of headroom candidate] Cons.prems by fastforce
  qed
qed simp

lemma max_size_links:
  "links nxt prv w xs 0 \<Longrightarrow> max_size nxt sz (first xs) m = Some (fold max (map sz xs) m)"
proof (induction xs arbitrary: w m)
  case Nil
  then show ?case by (subst max_size.simps) simp
next
  case (Cons a xs)
  then have n: "nxt a = first xs" "links nxt prv a xs 0" "a \<noteq> 0" by (auto simp: first_def)
  have "(if m < sz a then sz a else m) = max (sz a) m" by simp
  then show ?case using Cons.IH [OF n(2)] n by (subst max_size.simps) simp
qed

lemma sum_size_links:
  "links nxt prv w xs 0 \<Longrightarrow> sum_size nxt sz (first xs) m = Some (m + sum_list (map sz xs))"
proof (induction xs arbitrary: w m)
  case Nil
  then show ?case by (subst sum_size.simps) simp
next
  case (Cons a xs)
  then have n: "nxt a = first xs" "links nxt prv a xs 0" "a \<noteq> 0" by (auto simp: first_def)
  show ?case using Cons.IH [OF n(2)] n by (subst sum_size.simps) simp
qed

subsection \<open>Changing the chains\<close>

definition buf_chains :: "shm \<Rightarrow> nat list \<Rightarrow> nat list \<Rightarrow> bool" where
  "buf_chains s fs as \<longleftrightarrow>
     free_buf_chain s = first fs \<and> links (next_buffer s) (prev_buffer s) 0 fs 0 \<and>
     allocced_buf_chain s = first as \<and> links (next_buffer s) (prev_buffer s) 0 as 0 \<and> distinct (fs @ as)"

text \<open>What the chains do not concern.\<close>

definition same_data :: "shm \<Rightarrow> shm \<Rightarrow> bool" where
  "same_data s s' \<longleftrightarrow> shm_data s' = shm_data s \<and> max_allocated_size s' = max_allocated_size s"

lemma store_fields [simp]:
  "next_buffer (set_next a v s) = (next_buffer s)(a := v)" "prev_buffer (set_next a v s) = prev_buffer s"
  "buffer_size (set_next a v s) = buffer_size s" "free_buf_chain (set_next a v s) = free_buf_chain s"
  "allocced_buf_chain (set_next a v s) = allocced_buf_chain s"
  "next_buffer (set_prev a v s) = next_buffer s" "prev_buffer (set_prev a v s) = (prev_buffer s)(a := v)"
  "buffer_size (set_prev a v s) = buffer_size s" "free_buf_chain (set_prev a v s) = free_buf_chain s"
  "allocced_buf_chain (set_prev a v s) = allocced_buf_chain s"
  "next_buffer (set_size a v s) = next_buffer s" "prev_buffer (set_size a v s) = prev_buffer s"
  "buffer_size (set_size a v s) = (buffer_size s)(a := v)" "free_buf_chain (set_size a v s) = free_buf_chain s"
  "allocced_buf_chain (set_size a v s) = allocced_buf_chain s"
  "next_buffer (set_prev_if a v s) = next_buffer s" "buffer_size (set_prev_if a v s) = buffer_size s"
  "prev_buffer (set_prev_if a v s) = (if a = 0 then prev_buffer s else (prev_buffer s)(a := v))"
  "free_buf_chain (set_prev_if a v s) = free_buf_chain s" "allocced_buf_chain (set_prev_if a v s) = allocced_buf_chain s"
  by (simp_all add: set_next_def set_prev_def set_size_def set_prev_if_def)

lemma store_data [simp]:
  "same_data s (set_next a v s') = same_data s s'" "same_data s (set_prev a v s') = same_data s s'"
  "same_data s (set_size a v s') = same_data s s'" "same_data s (set_prev_if a v s') = same_data s s'"
  "same_data s (s'\<lparr>free_buf_chain := v\<rparr>) = same_data s s'" "same_data s (s'\<lparr>allocced_buf_chain := v\<rparr>) = same_data s s'"
  "same_data s s"
  by (simp_all add: set_next_def set_prev_def set_size_def set_prev_if_def same_data_def)

text \<open>Taking one buffer out of a chain: its neighbours are linked to each other.\<close>

lemma links_unlink:
  assumes l: "links nxt prv 0 (xs @ a # ys) 0" and d: "distinct (xs @ a # ys)"
  shows "prv a = (if xs = [] then 0 else last xs)" and "nxt a = first ys"
    and "xs = [] \<Longrightarrow> links nxt (if nxt a = 0 then prv else prv(nxt a := 0)) 0 ys 0"
    and "xs \<noteq> [] \<Longrightarrow> links (nxt(prv a := nxt a)) (if nxt a = 0 then prv else prv(nxt a := prv a)) 0 (xs @ ys) 0"
proof -
  show p: "prv a = (if xs = [] then 0 else last xs)" and n: "nxt a = first ys"
    using l by (auto simp: links_append first_def)
  show "links nxt (if nxt a = 0 then prv else prv(nxt a := 0)) 0 ys 0" if "xs = []"
    using l d that n by (cases ys) auto
  show "links (nxt(prv a := nxt a)) (if nxt a = 0 then prv else prv(nxt a := prv a)) 0 (xs @ ys) 0" if "xs \<noteq> []"
  proof -
    obtain zs z where xs: "xs = zs @ [z]" using \<open>xs \<noteq> []\<close> by (cases xs rule: rev_cases) auto
    show ?thesis using l d p n by (cases ys) (auto simp: xs links_append)
  qed
qed

lemma unlink_allocated_ok:
  assumes c: "buf_chains s fs (xs @ a # ys)"
  obtains s1 where "unlink_allocated a s = Some (Some s1)" and "buf_chains s1 fs (xs @ ys)"
    and "buffer_size s1 = buffer_size s" and "same_data s s1"
proof -
  let ?n = "next_buffer s" and ?p = "prev_buffer s"
  have l: "links ?n ?p 0 (xs @ a # ys) 0" and d: "distinct (xs @ a # ys)" and dj: "set fs \<inter> set (xs @ a # ys) = {}"
    and f: "links ?n ?p 0 fs 0" "free_buf_chain s = first fs" "distinct fs" and h: "allocced_buf_chain s = first (xs @ a # ys)"
    using c by (auto simp: buf_chains_def)
  note u = links_unlink [OF l d]
  have fr: "b \<notin> set fs" if "b = first ys" "b \<noteq> 0" for b using that dj by (cases ys) auto
  show ?thesis
  proof (cases "xs = []")
    case True
    let ?s1 = "(set_prev_if (?n a) 0 s)\<lparr>allocced_buf_chain := ?n a\<rparr>"
    have "unlink_allocated a s = Some (Some ?s1)" using h True by (simp add: unlink_allocated_def Let_def)
    moreover have "buf_chains ?s1 fs (xs @ ys)" using u(2,3) True f d dj fr by (auto simp: buf_chains_def)
    ultimately show ?thesis using that by simp
  next
    case False
    then obtain zs z where xs: "xs = zs @ [z]" by (cases xs rule: rev_cases) auto
    have ne: "a \<noteq> first (xs @ a # ys)" using d False by (cases xs) auto
    have hz: "first (xs @ a # ys) = hd xs" "links ?n ?p (hd xs) (tl xs @ a # ys) 0" "?n (hd xs) = first (tl xs @ a # ys)"
      using l False by (cases xs; auto simp: hd_append first_def)+
    have "a \<noteq> 0" using links_nonzero [OF l] by simp
    then have ic: "in_chain ?n a (?n (allocced_buf_chain s)) = Some True"
      using in_chain_links [OF hz(2), of a] hz(1,3) h by simp
    let ?s1 = "set_prev_if (?n a) (?p a) (set_next (?p a) (?n a) s)"
    have "a \<noteq> ?p a" using u(1) False d by (auto simp: xs)
    then have "unlink_allocated a s = Some (Some ?s1)" using ne ic h by (simp add: unlink_allocated_def Let_def)
    moreover have "buf_chains ?s1 fs (xs @ ys)"
      using u(1,2,4) False f d dj fr h by (auto simp: buf_chains_def xs first_def hd_append)
    ultimately show ?thesis using that by simp
  qed
qed

text \<open>A buffer between the free ones below it, \<open>xs\<close>, and those above it, \<open>ys\<close>, is merged with adjacent ones.\<close>

definition joins_below :: "(nat \<Rightarrow> nat) \<Rightarrow> nat list \<Rightarrow> nat \<Rightarrow> bool" where
  "joins_below sz xs a \<longleftrightarrow> xs \<noteq> [] \<and> last xs + sz (last xs) = a"

definition joins_above :: "(nat \<Rightarrow> nat) \<Rightarrow> nat \<Rightarrow> nat list \<Rightarrow> bool" where
  "joins_above sz a ys \<longleftrightarrow> ys \<noteq> [] \<and> a + sz a = hd ys"

definition free_with :: "(nat \<Rightarrow> nat) \<Rightarrow> nat list \<Rightarrow> nat \<Rightarrow> nat list \<Rightarrow> nat list" where
  "free_with sz xs a ys =
     (if joins_below sz xs a then xs else xs @ [a]) @ (if joins_above sz a ys then tl ys else ys)"

definition sizes_with :: "(nat \<Rightarrow> nat) \<Rightarrow> nat list \<Rightarrow> nat \<Rightarrow> nat list \<Rightarrow> nat \<Rightarrow> nat" where
  "sizes_with sz xs a ys =
     sz((if joins_below sz xs a then last xs else a) :=
        (if joins_below sz xs a then sz (last xs) else 0) + sz a + (if joins_above sz a ys then sz (hd ys) else 0))"

lemmas free_with_defs = joins_below_def joins_above_def free_with_def sizes_with_def

lemma free_first_ok:
  assumes c: "buf_chains s (y # ys) as" and a: "a \<notin> set (y # ys @ as)" "a \<noteq> 0"
  shows "buf_chains (free_first a (buffer_size s a) s) (free_with (buffer_size s) [] a (y # ys)) as"
    and "buffer_size (free_first a (buffer_size s a) s) = sizes_with (buffer_size s) [] a (y # ys)"
    and "same_data s (free_first a (buffer_size s a) s)"
proof -
  show "buf_chains (free_first a (buffer_size s a) s) (free_with (buffer_size s) [] a (y # ys)) as"
  proof (cases "a + buffer_size s a = y")
    case True
    then show ?thesis using c a
      by (cases ys) (auto simp: buf_chains_def free_first_def free_with_defs Let_def)
  next
    case False
    then show ?thesis using c a
      by (auto simp: buf_chains_def free_first_def free_with_defs Let_def)
  qed
  show "buffer_size (free_first a (buffer_size s a) s) = sizes_with (buffer_size s) [] a (y # ys)"
    using c by (auto simp: buf_chains_def free_first_def free_with_defs Let_def)
  show "same_data s (free_first a (buffer_size s a) s)"
    by (auto simp: free_first_def Let_def)
qed

lemma free_after_ok:
  assumes c: "buf_chains s ((xs @ [x]) @ ys) as" and a: "a \<notin> set (xs @ x # ys @ as)" "a \<noteq> 0"
  shows "buf_chains (free_after x a (buffer_size s a) s) (free_with (buffer_size s) (xs @ [x]) a ys) as"
    and "buffer_size (free_after x a (buffer_size s a) s) = sizes_with (buffer_size s) (xs @ [x]) a ys"
    and "same_data s (free_after x a (buffer_size s a) s)"
proof -
  have n: "next_buffer s x = first ys" "x \<noteq> 0" "x \<notin> set ys" using c by (auto simp: buf_chains_def links_append first_def)
  have ja: "a + buffer_size s a = first ys \<longleftrightarrow> joins_above (buffer_size s) a ys"
    using a(2) by (cases ys) (auto simp: joins_above_def)
  show "buf_chains (free_after x a (buffer_size s a) s) (free_with (buffer_size s) (xs @ [x]) a ys) as"
  proof (cases ys)
    case Nil
    then show ?thesis using c a n
      by (auto simp: buf_chains_def free_after_def free_with_defs Let_def links_append first_def hd_append)
  next
    case (Cons y zs)
    show ?thesis
    proof (cases "a + buffer_size s a = y")
      case True
      show ?thesis
      proof (cases "x + buffer_size s x = a")
        case join: True
        show ?thesis using c a n Cons True join
          by (cases zs; simp add: buf_chains_def free_after_def free_with_defs Let_def links_append first_def hd_append)
      next
        case False
        show ?thesis using c a n Cons True False
          by (cases zs; simp add: buf_chains_def free_after_def free_with_defs Let_def links_append first_def hd_append)
      qed
    next
      case False
      then show ?thesis using c a n Cons
        by (auto simp: buf_chains_def free_after_def free_with_defs Let_def links_append first_def hd_append)
    qed
  qed
  show "buffer_size (free_after x a (buffer_size s a) s) = sizes_with (buffer_size s) (xs @ [x]) a ys"
    using n ja a by (cases ys) (auto simp: free_after_def free_with_defs Let_def)
  show "same_data s (free_after x a (buffer_size s a) s)"
    by (auto simp: free_after_def Let_def)
qed

lemma insert_free_ok:
  assumes c: "buf_chains s (xs @ ys) as" and a: "a \<notin> set (xs @ ys @ as)" "a \<noteq> 0"
    and below: "\<forall>x \<in> set xs. x < a" and above: "\<forall>y \<in> set ys. a < y"
  obtains s' where "insert_free a s = Some s'" and "buf_chains s' (free_with (buffer_size s) xs a ys) as"
    and "buffer_size s' = sizes_with (buffer_size s) xs a ys" and "same_data s s'"
proof -
  have l: "links (next_buffer s) (prev_buffer s) 0 (xs @ ys) 0" "free_buf_chain s = first (xs @ ys)"
    using c by (auto simp: buf_chains_def)
  show ?thesis
  proof (cases xs rule: rev_cases)
    case Nil
    show ?thesis
    proof (cases ys)
      case Nil
      then show ?thesis using that c a \<open>xs = []\<close>
        by (auto simp: insert_free_def Let_def buf_chains_def free_with_defs)
    next
      case (Cons y zs)
      note f = free_first_ok [of s y zs as a]
      have "insert_free a s = Some (free_first a (buffer_size s a) s)"
        using l Nil Cons above by (auto simp: insert_free_def Let_def)
      then show ?thesis using that f c a Nil Cons by auto
    qed
  next
    case (snoc zs z)
    have ne: "xs \<noteq> []" and z: "last xs = z" using snoc by simp_all
    have "find_spot (next_buffer s) a (hd xs) = Some z"
      using find_spot_walks [OF l(1) ne below] above z by (cases ys) (auto simp: less_imp_le)
    moreover have "free_buf_chain s = hd xs" "\<not> a < hd xs" "hd xs \<noteq> 0"
      using l ne below links_nonzero [OF l(1), of "hd xs"] by (auto simp: first_def not_less less_imp_le)
    ultimately have "insert_free a s = Some (free_after z a (buffer_size s a) s)"
      by (simp add: insert_free_def Let_def)
    moreover note free_after_ok [of s zs z ys as a]
    ultimately show ?thesis using that c a snoc by auto
  qed
qed

lemma take_whole_ok:
  assumes c: "buf_chains s (xs @ a # ys) as"
  shows "buf_chains (take_whole a s) (xs @ ys) as" and "buffer_size (take_whole a s) = buffer_size s"
    and "same_data s (take_whole a s)"
proof -
  let ?n = "next_buffer s" and ?p = "prev_buffer s"
  have l: "links ?n ?p 0 (xs @ a # ys) 0" and d: "distinct (xs @ a # ys)" and dj: "set as \<inter> set (xs @ a # ys) = {}"
    and f: "links ?n ?p 0 as 0" "allocced_buf_chain s = first as" "distinct as" and h: "free_buf_chain s = first (xs @ a # ys)"
    using c by (auto simp: buf_chains_def)
  note u = links_unlink [OF l d]
  have fr: "b \<notin> set as" if "b = first ys" "b \<noteq> 0" for b using that dj by (cases ys) auto
  show "buf_chains (take_whole a s) (xs @ ys) as"
  proof (cases "xs = []")
    case True
    then show ?thesis using u(2,3) f d dj fr h by (auto simp: buf_chains_def take_whole_def Let_def)
  next
    case False
    then obtain zs z where xs: "xs = zs @ [z]" by (cases xs rule: rev_cases) auto
    have "a \<noteq> first (xs @ a # ys)" "a \<noteq> ?p a" using d False u(1) by (cases xs; auto simp: xs)+
    then show ?thesis
      using u(1,2,4) False f d dj fr h by (auto simp: buf_chains_def take_whole_def Let_def xs first_def hd_append)
  qed
  show "buffer_size (take_whole a s) = buffer_size s" "same_data s (take_whole a s)"
    by (auto simp: take_whole_def Let_def)
qed

lemma take_part_ok:
  assumes c: "buf_chains s (xs @ a # ys) as" and p: "a + k \<notin> set (xs @ a # ys @ as)" "a + k \<noteq> 0"
  shows "buf_chains (take_part a k h s) (xs @ (a + k) # ys) as"
    and "buffer_size (take_part a k h s) = (buffer_size s)(a := k, a + k := h)"
    and "same_data s (take_part a k h s)"
proof -
  have n: "next_buffer s a = first ys" "prev_buffer s a = (if xs = [] then 0 else last xs)"
    using c by (auto simp: buf_chains_def links_append first_def)
  show "buf_chains (take_part a k h s) (xs @ (a + k) # ys) as"
  proof (cases xs rule: rev_cases)
    case Nil
    then show ?thesis using c p n
      by (cases ys) (auto simp: buf_chains_def take_part_def Let_def)
  next
    case (snoc zs z)
    have "a \<noteq> first (xs @ a # ys)" using c snoc by (cases zs) (auto simp: buf_chains_def)
    then show ?thesis using c p n snoc
      by (cases ys) (auto simp: buf_chains_def take_part_def Let_def links_append first_def hd_append)
  qed
  show "buffer_size (take_part a k h s) = (buffer_size s)(a := k, a + k := h)" "same_data s (take_part a k h s)"
    by (auto simp: take_part_def Let_def)
qed

text \<open>Putting a buffer at the head of the chain of allocated ones.\<close>

definition push_allocated :: "nat \<Rightarrow> shm \<Rightarrow> shm" where
  "push_allocated a s =
     (let s1 = set_prev a 0 (set_next a (allocced_buf_chain s) s)
      in (set_prev_if (allocced_buf_chain s1) a s1)\<lparr>allocced_buf_chain := a\<rparr>)"

lemma push_allocated_ok:
  assumes c: "buf_chains s fs as" and a: "a \<notin> set (fs @ as)" "a \<noteq> 0"
  shows "buf_chains (push_allocated a s) fs (a # as)" and "buffer_size (push_allocated a s) = buffer_size s"
    and "same_data s (push_allocated a s)"
  using assms by (cases as; auto simp: buf_chains_def push_allocated_def Let_def)+

end
