(* ===== verification/Shm_Safety.thy ===== *)
theory Shm_Safety
  imports Shm_Alloc "HOL-Library.Multiset"
begin

text \<open>
  What the allocator of \<open>Shm_Alloc\<close> guarantees: its buffers tile the memory, over every history of
  requests; a request succeeds exactly when a free buffer is large enough; and releasing everything
  gives the memory back in one piece.
\<close>

section \<open>The memory is tiled\<close>

text \<open>Buffers between \<open>lo\<close> and \<open>hi\<close> that have room for a header, do not overlap, and fill the whole memory.\<close>

definition apart :: "(nat \<Rightarrow> nat) \<Rightarrow> nat \<Rightarrow> nat \<Rightarrow> bool" where
  "apart sz a b \<longleftrightarrow> a + sz a \<le> b \<or> b + sz b \<le> a"

definition tiles :: "(nat \<Rightarrow> nat) \<Rightarrow> nat \<Rightarrow> nat \<Rightarrow> nat list \<Rightarrow> bool" where
  "tiles sz lo hi bs \<longleftrightarrow>
     distinct bs \<and> (\<forall>a \<in> set bs. lo \<le> a \<and> shm_header \<le> sz a \<and> a + sz a \<le> hi) \<and>
     (\<forall>a \<in> set bs. \<forall>b \<in> set bs. a \<noteq> b \<longrightarrow> apart sz a b) \<and> sum_list (map sz bs) = hi - lo"

text \<open>Free buffers are in the order of their addresses, and not adjacent.\<close>

definition spaced :: "(nat \<Rightarrow> nat) \<Rightarrow> nat list \<Rightarrow> bool" where
  "spaced sz fs \<longleftrightarrow> sorted_wrt (\<lambda>a b. a + sz a < b) fs"

definition shm_ok :: "nat \<Rightarrow> nat \<Rightarrow> nat list \<Rightarrow> nat list \<Rightarrow> shm \<Rightarrow> bool" where
  "shm_ok lo hi fs as s \<longleftrightarrow>
     0 < lo \<and> buf_chains s fs as \<and> tiles (buffer_size s) lo hi (fs @ as) \<and> spaced (buffer_size s) fs"

lemma tiles_mset: "mset bs = mset bs' \<Longrightarrow> tiles sz lo hi bs = tiles sz lo hi bs'"
proof -
  assume m: "mset bs = mset bs'"
  have "distinct bs = distinct bs'" by (rule mset_eq_imp_distinct_iff [OF m])
  moreover have "set bs = set bs'" by (rule mset_eq_setD [OF m])
  moreover have "sum_list (map sz bs) = sum_list (map sz bs')"
    using m by (simp flip: sum_mset_sum_list)
  ultimately show ?thesis by (simp only: tiles_def)
qed

lemma tiles_merge:
  assumes t: "tiles sz lo hi (b # c # bs)" and adj: "b + sz b = c"
  shows "tiles (sz(b := sz b + sz c)) lo hi (b # bs)"
proof -
  let ?sz = "sz(b := sz b + sz c)"
  have b: "b \<notin> set bs" "c \<notin> set bs" "b \<noteq> c" "distinct bs" and r: "shm_header \<le> sz c" "lo \<le> b" "shm_header \<le> sz b" "c + sz c \<le> hi"
    using t by (auto simp: tiles_def)
  have ap: "apart ?sz b d" if "d \<in> set bs" for d
  proof -
    have "apart sz b d" "apart sz c d" "d \<noteq> b" "shm_header \<le> sz d" using t that b by (auto simp: tiles_def)
    then show ?thesis using adj r by (auto simp: apart_def shm_header_def)
  qed
  moreover have "apart ?sz d b" if "d \<in> set bs" for d using ap [OF that] by (auto simp: apart_def)
  moreover have "apart ?sz d e" if "d \<in> set bs" "e \<in> set bs" "d \<noteq> e" for d e
    using t that b by (auto simp: tiles_def apart_def)
  moreover have "map ?sz bs = map sz bs" using b by simp
  ultimately show ?thesis using t b r adj by (auto simp: tiles_def)
qed

lemma tiles_split:
  assumes t: "tiles sz lo hi (b # bs)" and k: "sz b = k + h" "shm_header \<le> k" "shm_header \<le> h"
  shows "tiles (sz(b := k, b + k := h)) lo hi (b # (b + k) # bs)" and "b + k \<notin> set (b # bs)"
proof -
  let ?sz = "sz(b := k, b + k := h)"
  have b: "b \<notin> set bs" "distinct bs" "lo \<le> b" "b + (k + h) \<le> hi" using t k by (auto simp: tiles_def)
  have ap: "apart sz b d" "shm_header \<le> sz d" if "d \<in> set bs" for d using t b that by (auto simp: tiles_def)
  show new: "b + k \<notin> set (b # bs)" using ap [of "b + k"] k by (auto simp: apart_def shm_header_def)
  have "apart ?sz b d" "apart ?sz d b" "apart ?sz (b + k) d" "apart ?sz d (b + k)" if "d \<in> set bs" for d
    using ap [OF that] k new that b by (auto simp: apart_def)
  moreover have "apart ?sz d e" if "d \<in> set bs" "e \<in> set bs" "d \<noteq> e" for d e
    using t that b new by (auto simp: tiles_def apart_def)
  moreover have "map ?sz bs = map sz bs" using b new by simp
  moreover have "apart ?sz b (b + k)" "apart ?sz (b + k) b" using k by (auto simp: apart_def shm_header_def)
  ultimately show "tiles ?sz lo hi (b # (b + k) # bs)" using t b k new by (auto simp: tiles_def)
qed

lemma spaced_insert:
  assumes "spaced sz xs" and "spaced sz ys" and "r \<notin> set (xs @ ys)"
    and "\<forall>x \<in> set xs. x + sz x < r" and "\<forall>y \<in> set ys. r + n < y"
  shows "spaced (sz(r := n)) (xs @ r # ys)"
proof -
  have "sorted_wrt (\<lambda>a b. a + (sz(r := n)) a < b) zs = sorted_wrt (\<lambda>a b. a + sz a < b) zs" if "r \<notin> set zs" for zs
    using that by (induction zs) auto
  then show ?thesis using assms by (fastforce simp: spaced_def sorted_wrt_append)
qed

lemma spaced_below:
  assumes "spaced sz (xs @ [x])" and "y \<in> set xs"
  shows "y + sz y < x"
  using assms by (simp add: spaced_def sorted_wrt_append)

lemma release_order:
  assumes t: "tiles sz lo hi (xs @ ys @ a # as)" and sp: "spaced sz (xs @ ys)"
    and below: "\<forall>x \<in> set xs. x < a" and above: "\<forall>y \<in> set ys. a < y"
  shows "\<forall>x \<in> set xs. x + sz x \<le> a" and "\<forall>y \<in> set ys. a + sz a \<le> y"
    and "\<not> joins_below sz xs a \<Longrightarrow> \<forall>x \<in> set xs. x + sz x < a"
    and "\<not> joins_above sz a ys \<Longrightarrow> \<forall>y \<in> set ys. a + sz a < y"
proof -
  have ap: "apart sz x a" if "x \<in> set (xs @ ys)" for x using t that by (auto simp: tiles_def)
  show b: "\<forall>x \<in> set xs. x + sz x \<le> a" and c: "\<forall>y \<in> set ys. a + sz a \<le> y"
    using ap below above by (fastforce simp: apart_def)+
  show "\<forall>x \<in> set xs. x + sz x < a" if nb: "\<not> joins_below sz xs a"
  proof (cases xs rule: rev_cases)
    case (snoc zs z)
    have "\<forall>x \<in> set zs. x + sz x < z" using sp snoc by (simp add: spaced_def sorted_wrt_append)
    then show ?thesis using b nb below snoc by (fastforce simp: joins_below_def)
  qed simp
  show "\<forall>y \<in> set ys. a + sz a < y" if na: "\<not> joins_above sz a ys"
  proof (cases ys)
    case (Cons z zs)
    have "\<forall>x \<in> set zs. z < x" using sp Cons by (auto simp: spaced_def sorted_wrt_append)
    then show ?thesis using c na Cons by (fastforce simp: joins_above_def)
  qed simp
qed

lemma release_tiles:
  assumes t: "tiles sz lo hi (xs @ ys @ a # as)" and sp: "spaced sz (xs @ ys)"
    and below: "\<forall>x \<in> set xs. x < a" and above: "\<forall>y \<in> set ys. a < y"
  shows "tiles (sizes_with sz xs a ys) lo hi (free_with sz xs a ys @ as) \<and> spaced (sizes_with sz xs a ys) (free_with sz xs a ys)"
proof -
  note o = release_order [OF assms]
  have d: "distinct (xs @ ys @ a # as)" using t by (simp add: tiles_def)
  have sx: "spaced sz xs" "spaced sz ys" using sp by (auto simp: spaced_def sorted_wrt_append)
  consider (alone) "\<not> joins_below sz xs a" "\<not> joins_above sz a ys"
    | (below) "joins_below sz xs a" "\<not> joins_above sz a ys"
    | (above) "\<not> joins_below sz xs a" "joins_above sz a ys"
    | (both) "joins_below sz xs a" "joins_above sz a ys" by blast
  then show ?thesis
  proof cases
    case alone
    have "tiles sz lo hi ((xs @ a # ys) @ as)" using t by (subst tiles_mset [of _ "xs @ ys @ a # as"]) simp_all
    moreover have "spaced (sz(a := sz a)) (xs @ a # ys)" using o(3,4) alone sx d by (intro spaced_insert) auto
    ultimately show ?thesis using alone by (simp add: sizes_with_def free_with_def)
  next
    case below
    obtain zs z where z: "xs = zs @ [z]" "z + sz z = a" using below(1) by (cases xs rule: rev_cases) (auto simp: joins_below_def)
    have "tiles sz lo hi (z # a # zs @ ys @ as)" using t z by (subst tiles_mset [of _ "xs @ ys @ a # as"]) simp_all
    from tiles_merge [OF this z(2)] have "tiles (sz(z := sz z + sz a)) lo hi ((zs @ z # ys) @ as)"
      by (subst tiles_mset [of _ "z # zs @ ys @ as"]) simp_all
    moreover have "spaced (sz(z := sz z + sz a)) (zs @ z # ys)"
      using sx z d o(4) [OF below(2)] by (intro spaced_insert) (auto simp: spaced_def sorted_wrt_append)
    ultimately show ?thesis using below z by (simp add: sizes_with_def free_with_def)
  next
    case above
    obtain y ws where y: "ys = y # ws" "a + sz a = y" using above(2) by (cases ys) (auto simp: joins_above_def)
    have "tiles sz lo hi (a # y # xs @ ws @ as)" using t y by (subst tiles_mset [of _ "xs @ ys @ a # as"]) simp_all
    from tiles_merge [OF this y(2)] have "tiles (sz(a := sz a + sz y)) lo hi ((xs @ a # ws) @ as)"
      by (subst tiles_mset [of _ "a # xs @ ws @ as"]) simp_all
    moreover have "spaced (sz(a := sz a + sz y)) (xs @ a # ws)"
      using sx y d o(3) [OF above(1)] by (intro spaced_insert) (auto simp: spaced_def)
    ultimately show ?thesis using above y by (simp add: sizes_with_def free_with_def)
  next
    case both
    obtain zs z where z: "xs = zs @ [z]" "z + sz z = a" using both(1) by (cases xs rule: rev_cases) (auto simp: joins_below_def)
    obtain y ws where y: "ys = y # ws" "a + sz a = y" using both(2) by (cases ys) (auto simp: joins_above_def)
    let ?sz = "sz(z := sz z + sz a)"
    have yz: "y \<noteq> z" using d y z by auto
    have "tiles sz lo hi (z # a # y # zs @ ws @ as)" using t z y by (subst tiles_mset [of _ "xs @ ys @ a # as"]) simp_all
    from tiles_merge [OF this z(2)] have "tiles ?sz lo hi (z # y # zs @ ws @ as)" .
    moreover have "z + ?sz z = y" using z(2) y(2) by simp
    ultimately have "tiles (?sz(z := ?sz z + ?sz y)) lo hi (z # zs @ ws @ as)" by (rule tiles_merge)
    then have "tiles (sz(z := sz z + sz a + sz y)) lo hi (z # zs @ ws @ as)" using yz by simp
    then have "tiles (sz(z := sz z + sz a + sz y)) lo hi ((zs @ z # ws) @ as)"
      by (subst tiles_mset [of _ "z # zs @ ws @ as"]) simp_all
    moreover have "spaced (sz(z := sz z + sz a + sz y)) (zs @ z # ws)"
      using sx sp z y d by (intro spaced_insert) (auto simp: spaced_def sorted_wrt_append)
    ultimately show ?thesis using both z y by (simp add: sizes_with_def free_with_def)
  qed
qed

section \<open>Operations\<close>

lemma split_free:
  assumes "spaced sz fs" and "a \<notin> set fs"
  obtains xs ys where "fs = xs @ ys" and "\<forall>x \<in> set xs. x < a" and "\<forall>y \<in> set ys. a < y"
proof
  show "fs = takeWhile (\<lambda>x. x < a) fs @ dropWhile (\<lambda>x. x < a) fs" by simp
  show "\<forall>x \<in> set (takeWhile (\<lambda>x. x < a) fs). x < a" by (auto dest: set_takeWhileD)
  show "\<forall>y \<in> set (dropWhile (\<lambda>x. x < a) fs). a < y"
    using assms
  proof (induction fs)
    case (Cons x fs)
    have "\<forall>y \<in> set fs. x < y" using Cons.prems(1) by (auto simp: spaced_def)
    then show ?case using Cons by (auto simp: spaced_def not_less)
  qed simp
qed

lemma do_release_ok:
  assumes ok: "shm_ok lo hi fs as s" and a: "a \<in> set as"
  obtains s' fs' where "do_release a s = Some s'" and "shm_ok lo hi fs' (remove1 a as) s'" and "same_data s s'"
    and "\<forall>b \<in> set (remove1 a as). buffer_size s' b = buffer_size s b"
proof -
  let ?sz = "buffer_size s"
  obtain as1 as2 where as: "as = as1 @ a # as2" using split_list [OF a] by auto
  have c: "buf_chains s fs (as1 @ a # as2)" and t: "tiles ?sz lo hi (fs @ as1 @ a # as2)" and sp: "spaced ?sz fs" and lo: "0 < lo"
    using ok as by (auto simp: shm_ok_def)
  have d: "distinct (fs @ as1 @ a # as2)" "lo \<le> a" using t by (auto simp: tiles_def)
  have rem: "remove1 a as = as1 @ as2" using d as by (simp add: remove1_append)
  obtain s1 where s1: "unlink_allocated a s = Some (Some s1)" "buf_chains s1 fs (as1 @ as2)" "buffer_size s1 = ?sz" "same_data s s1"
    by (rule unlink_allocated_ok [OF c])
  from split_free [OF sp, of a] obtain xs ys where fs: "fs = xs @ ys"
    and o: "\<forall>x \<in> set xs. x < a" "\<forall>y \<in> set ys. a < y" using d by auto
  have c1: "buf_chains s1 (xs @ ys) (as1 @ as2)" using s1(2) fs by simp
  have "a \<notin> set (xs @ ys @ as1 @ as2)" "a \<noteq> 0" using d fs lo by auto
  from insert_free_ok [OF c1 this o] obtain s' where s': "insert_free a s1 = Some s'"
    "buf_chains s' (free_with ?sz xs a ys) (as1 @ as2)" "buffer_size s' = sizes_with ?sz xs a ys" "same_data s1 s'"
    unfolding s1(3) .
  have "tiles ?sz lo hi (xs @ ys @ a # as1 @ as2)" using t fs by (subst tiles_mset [of _ "fs @ as1 @ a # as2"]) simp_all
  from release_tiles [OF this _ o] have "shm_ok lo hi (free_with ?sz xs a ys) (as1 @ as2) s'"
    using sp fs s' lo by (simp add: shm_ok_def)
  moreover have "do_release a s = Some s'" using s1(1) s'(1) by (simp add: do_release_def)
  moreover have "same_data s s'" using s1(4) s'(4) by (simp add: same_data_def)
  moreover have "buffer_size s' b = ?sz b" if "b \<in> set (as1 @ as2)" for b
  proof -
    have "b \<noteq> a" using that d by auto
    moreover have "b \<notin> set xs" using that d fs by auto
    then have "last xs \<noteq> b" if "xs \<noteq> []" using last_in_set [OF that] by auto
    ultimately show ?thesis using s'(3) by (auto simp: sizes_with_def joins_below_def)
  qed
  ultimately show ?thesis using that rem by simp
qed

lemma unat_align: "unat (w AND NOT 3 :: u32) = unat w div 4 * 4"
proof -
  have two: "2 \<le> n \<Longrightarrow> Suc (Suc (n - 2)) = n" for n :: nat by simp
  have "(3 :: u32) = mask 2" by (simp add: mask_eq_exp_minus_1)
  then have "bit (w AND NOT 3) n \<longleftrightarrow> bit (push_bit 2 (drop_bit 2 w)) n" for n
    by (simp only: bit_and_iff bit_not_iff bit_mask_iff bit_push_bit_iff bit_drop_bit_eq comp_def possible_bit_word)
      (cases "n < 2"; auto simp: not_less two dest: bit_imp_le_length)
  then have "w AND NOT 3 = push_bit 2 (drop_bit 2 w)" by (intro bit_eqI) simp
  then have "unat (w AND NOT 3) = take_bit 32 (push_bit 2 (drop_bit 2 (unat w)))"
    using take_bit_nat_eq_self [of "unat w" 32] unsigned_less [of w, where 'a = nat]
    by (simp add: unsigned_push_bit_eq unsigned_drop_bit_eq)
  also have "\<dots> = (unat w div 4 * 4) mod 2 ^ 32"
    by (simp add: take_bit_eq_mod push_bit_eq_mult drop_bit_eq_div)
  also have "\<dots> = unat w div 4 * 4"
  proof -
    have "unat w < 2 ^ LENGTH(32)" by (rule unsigned_less)
    then have "unat w div 4 * 4 < 2 ^ 32" using div_times_less_eq_dividend [of "unat w" 4] by simp
    then show ?thesis by simp
  qed
  finally show ?thesis .
qed

lemma padded_size_eq:
  assumes "unat req + 15 < 2 ^ 32"
  shows "padded_size req = (unat req + 3) div 4 * 4 + 12"
proof -
  have a: "unat (req + 3) = unat req + 3" using assms by (simp add: unat_word_ariths)
  define w where "w = (req + 3) AND NOT 3"
  have w: "unat w = (unat req + 3) div 4 * 4" unfolding w_def unat_align a ..
  then have "unat w + 12 < 2 ^ 32" using assms div_times_less_eq_dividend [of "unat req + 3" 4] by simp
  then have "unat (w + 12) = unat w + 12" by (simp add: unat_word_ariths)
  then show ?thesis unfolding padded_size_def w_def [symmetric] by (simp add: shm_header_def w)
qed

lemma padded_size_ge: "unat req + 15 < 2 ^ 32 \<Longrightarrow> unat req + 12 \<le> padded_size req"
  by (subst padded_size_eq) (assumption, linarith)

lemma do_acquire_ok:
  assumes ok: "shm_ok lo hi fs as s" and req: "unat req + 15 < 2 ^ 32" and mem: "hi - lo < 0x10000000"
  shows "(\<forall>f \<in> set fs. buffer_size s f < padded_size req) \<and> do_acquire req s = Some (EC_ERROR_BUSY, 0, s) \<or>
    (\<exists>c s' fs'. do_acquire req s = Some (EC_SUCCESS, c, s') \<and> c \<in> set fs \<and> padded_size req \<le> buffer_size s c \<and> c \<notin> set (fs' @ as) \<and> c \<noteq> 0 \<and>
       padded_size req \<le> buffer_size s' c \<and> buf_chains s' fs' as \<and> tiles (buffer_size s') lo hi (fs' @ c # as) \<and>
       spaced (buffer_size s') fs' \<and> same_data s s' \<and> (\<forall>b \<in> set as. buffer_size s' b = buffer_size s b))"
proof -
  let ?sz = "buffer_size s" and ?r = "padded_size req"
  have c: "buf_chains s fs as" and t: "tiles ?sz lo hi (fs @ as)" and sp: "spaced ?sz fs" and lo: "0 < lo"
    using ok by (auto simp: shm_ok_def)
  obtain h a where b: "best ?sz ?r fs 0x10000000 0 = (h, a)" by fastforce
  have fit: "best_fit (next_buffer s) ?sz ?r (free_buf_chain s) 0x10000000 0 = Some (h, a)"
    using best_fit_links [of "next_buffer s" "prev_buffer s" 0 fs] c b by (simp add: buf_chains_def)
  have small: "?sz f < 0x10000000" "f \<noteq> 0" if "f \<in> set fs" for f
  proof -
    have "lo \<le> f" "f + ?sz f \<le> hi" using t that by (auto simp: tiles_def)
    then show "?sz f < 0x10000000" "f \<noteq> 0" using lo mem by linarith+
  qed
  consider (none) "a = 0" "\<forall>f \<in> set fs. ?sz f < ?r"
    | (found) "a \<in> set fs" "?r \<le> ?sz a" "h = ?sz a - ?r"
  proof (cases "a \<in> set fs \<and> ?r \<le> ?sz a \<and> h = ?sz a - ?r")
    case True
    then show ?thesis using that(2) by simp
  next
    case False
    then have "a = 0" and n: "\<forall>f \<in> set fs. ?r \<le> ?sz f \<longrightarrow> 0x10000000 \<le> ?sz f - ?r" using best_cases [OF b] by auto
    have "?sz f < ?r" if "f \<in> set fs" for f using bspec [OF n that] small(1) [OF that] by linarith
    then show ?thesis using that(1) \<open>a = 0\<close> by simp
  qed
  then show ?thesis
  proof cases
    case none
    then show ?thesis using fit by (simp add: do_acquire_def Let_def)
  next
    case found
    obtain xs ys where fs: "fs = xs @ a # ys" using split_list [OF found(1)] by auto
    have a0: "a \<noteq> 0" by (rule small(2) [OF found(1)])
    have d: "distinct (xs @ a # ys @ as)" using t fs by (simp add: tiles_def)
    have sxy: "spaced ?sz xs" "spaced ?sz ys" "spaced ?sz (xs @ ys)" "\<forall>x \<in> set xs. x + ?sz x < a" "\<forall>y \<in> set ys. a + ?sz a < y"
      using sp fs by (auto simp: spaced_def sorted_wrt_append)
    have c': "buf_chains s (xs @ a # ys) as" using c fs by simp
    show ?thesis
    proof (cases "h \<le> shm_header")
      case True
      note w = take_whole_ok [OF c']
      have "do_acquire req s = Some (EC_SUCCESS, a, take_whole a s)" using fit a0 True by (simp add: do_acquire_def Let_def)
      moreover have "tiles ?sz lo hi ((xs @ ys) @ a # as)" using t fs by (subst tiles_mset [of _ "fs @ as"]) simp_all
      ultimately show ?thesis using w sxy d a0 found
        by (intro disjI2 exI [of _ a] exI [of _ "take_whole a s"] exI [of _ "xs @ ys"]) simp
    next
      case False
      let ?s = "take_part a ?r h s" and ?sz' = "?sz(a := ?r, a + ?r := h)"
      have r: "shm_header \<le> ?r" "?sz a = ?r + h" "shm_header \<le> h" using padded_size_ge [OF req] found False by (auto simp: shm_header_def)
      have "tiles ?sz lo hi (a # xs @ ys @ as)" using t fs by (subst tiles_mset [of _ "fs @ as"]) simp_all
      from tiles_split [OF this r(2,1,3)]
      have sp1: "tiles ?sz' lo hi (a # (a + ?r) # xs @ ys @ as)" and new: "a + ?r \<notin> set (a # xs @ ys @ as)" by auto
      have tl: "tiles ?sz' lo hi ((xs @ (a + ?r) # ys) @ a # as)"
        using sp1 by (subst tiles_mset [of _ "a # (a + ?r) # xs @ ys @ as"]) simp_all
      have "a + ?r \<notin> set (xs @ a # ys @ as)" "a + ?r \<noteq> 0" using new a0 by auto
      note p = take_part_ok [OF c' this]
      have "do_acquire req s = Some (EC_SUCCESS, a, ?s)" using fit a0 False found(3) by (simp add: do_acquire_def Let_def)
      moreover have "spaced ?sz' (xs @ (a + ?r) # ys)"
      proof (rule spaced_insert)
        have "spaced (?sz(a := v)) zs = spaced ?sz zs" if "a \<notin> set zs" for v zs
          using that unfolding spaced_def by (induction zs) auto
        then show "spaced (?sz(a := ?r)) xs" "spaced (?sz(a := ?r)) ys" using sxy d by auto
      qed (use sxy d new r in \<open>auto\<close>)
      moreover have "\<forall>b \<in> set as. ?sz' b = ?sz b" using new d by auto
      ultimately show ?thesis using p tl d a0 new found(1,2)
        by (intro disjI2 exI [of _ a] exI [of _ ?s] exI [of _ "xs @ (a + ?r) # ys"]) auto
    qed
  qed
qed

text \<open>The result of a request: the buffer, new and large enough, is added to the allocated ones, and its memory is cleared;
  the other buffers keep their place, size and contents.  Or no free buffer is large enough, and nothing changes.\<close>

definition granted :: "u32 \<Rightarrow> nat \<Rightarrow> nat list \<Rightarrow> shm \<Rightarrow> shm \<Rightarrow> bool" where
  "granted req c as s s' \<longleftrightarrow>
     unat req + shm_header \<le> buffer_size s' c \<and>
     (\<forall>i < unat req. shm_data s' (c + shm_header + i) = 0) \<and>
     (\<forall>b \<in> set as. buffer_size s' b = buffer_size s b \<and>
        (\<forall>i. b \<le> i \<and> i < b + buffer_size s b \<longrightarrow> shm_data s' i = shm_data s i))"

lemma acquire_ok:
  assumes ok: "shm_ok lo hi fs as s" and req: "unat req + 15 < 2 ^ 32" and mem: "hi - lo < 0x10000000"
  shows "(\<forall>f \<in> set fs. buffer_size s f < padded_size req) \<and> shared_mem_acquire False req s = Some (EC_ERROR_BUSY, 0, s) \<or>
    (\<exists>c s' fs'. shared_mem_acquire False req s = Some (EC_SUCCESS, c + shm_header, s') \<and> c \<in> set fs \<and>
       padded_size req \<le> buffer_size s c \<and> shm_ok lo hi fs' (c # as) s' \<and> granted req c as s s')"
proof (cases "fs = []")
  case True
  then show ?thesis using ok by (simp add: shm_ok_def buf_chains_def shared_mem_acquire_def)
next
  case ne: False
  have fne: "free_buf_chain s \<noteq> 0"
    using ok ne links_nonzero [of "next_buffer s" "prev_buffer s" 0 fs 0 "hd fs"] by (simp add: shm_ok_def buf_chains_def first_def)
  consider (busy) "\<forall>f \<in> set fs. buffer_size s f < padded_size req" "do_acquire req s = Some (EC_ERROR_BUSY, 0, s)"
    | (found) c s0 fs' where "do_acquire req s = Some (EC_SUCCESS, c, s0)" "c \<in> set fs" "c \<notin> set (fs' @ as)" "c \<noteq> 0"
      "padded_size req \<le> buffer_size s c" "padded_size req \<le> buffer_size s0 c" "buf_chains s0 fs' as" "tiles (buffer_size s0) lo hi (fs' @ c # as)"
      "spaced (buffer_size s0) fs'" "same_data s s0" "\<forall>b \<in> set as. buffer_size s0 b = buffer_size s b"
    using do_acquire_ok [OF assms] by blast
  then show ?thesis
  proof cases
    case busy
    then show ?thesis using fne by (simp add: shared_mem_acquire_def)
  next
    case found
    define s2 where "s2 = push_allocated c s0"
    define s4 where "s4 = (let s3 = s2\<lparr>shm_data := memset (shm_data s2) (c + shm_header) 0 (unat req)\<rparr>
      in if max_allocated_size s3 <s req then s3\<lparr>max_allocated_size := req\<rparr> else s3)"
    note p = push_allocated_ok [OF found(7,3,4)]
    have acq: "shared_mem_acquire False req s = Some (EC_SUCCESS, c + shm_header, s4)"
      using fne found(1) by (simp add: shared_mem_acquire_def push_allocated_def s2_def s4_def Let_def)
    have f4: "buffer_size s4 = buffer_size s0" "shm_data s4 = memset (shm_data s) (c + shm_header) 0 (unat req)"
      using p(2,3) found(10) by (auto simp: s4_def s2_def Let_def same_data_def)
    have "buf_chains s4 fs' (c # as)" using p(1) by (auto simp: s4_def s2_def Let_def buf_chains_def)
    then have ok4: "shm_ok lo hi fs' (c # as) s4" using found(8,9) f4 ok by (simp add: shm_ok_def)
    have room: "unat req + shm_header \<le> buffer_size s0 c"
      using padded_size_ge [OF req] found(6) by (simp add: shm_header_def)
    have data: "shm_data s4 i = (if c + shm_header \<le> i \<and> i < c + shm_header + unat req then 0 else shm_data s i)" for i
      using f4(2) by (simp add: memset_filled filled_def)
    have "granted req c as s s4"
      unfolding granted_def
    proof (intro conjI ballI allI impI)
      show "unat req + shm_header \<le> buffer_size s4 c" using room f4 by simp
      show "shm_data s4 (c + shm_header + i) = 0" if "i < unat req" for i using that data by simp
      fix b assume b: "b \<in> set as"
      show "buffer_size s4 b = buffer_size s b" using found(11) f4 b by simp
      fix i assume i: "b \<le> i \<and> i < b + buffer_size s b"
      have "apart (buffer_size s0) c b" using found(3,8) b by (auto simp: tiles_def)
      then show "shm_data s4 i = shm_data s i"
        using i room found(11) b by (auto simp: data apart_def)
    qed
    then show ?thesis using acq ok4 found(2,5) by blast
  qed
qed

lemma release_ok:
  assumes ok: "shm_ok lo hi fs as s" and a: "a \<in> set as" and hi: "hi < 2 ^ 32"
  obtains s' fs' where "shared_mem_release False (a + shm_header) s = Some s'" and "shm_ok lo hi fs' (remove1 a as) s'"
    and "shm_data s' = shm_data s" and "\<forall>b \<in> set (remove1 a as). buffer_size s' b = buffer_size s b"
proof -
  have "a + buffer_size s a \<le> hi" using ok a by (simp add: shm_ok_def tiles_def)
  then have "a < 2 ^ 32" using hi by simp
  then have "(a + shm_header + (2 ^ 32 - shm_header)) mod 2 ^ 32 = a" by (simp add: shm_header_def)
  then have "shared_mem_release False (a + shm_header) s = do_release a s" by (simp add: shared_mem_release_def)
  then show ?thesis using do_release_ok [OF ok a] that by (metis same_data_def)
qed

lemma init_ok:
  assumes "0 < lo" and "lo + shm_header \<le> hi" and "allocced_buf_chain s = 0"
  shows "shm_ok lo hi [lo] [] (shared_mem_init lo hi s)"
  using assms by (simp add: shm_ok_def shared_mem_init_def buf_chains_def tiles_def spaced_def)

section \<open>Histories\<close>

text \<open>The allocator and the buffers its clients hold: the pointer that was returned and the size that was asked for.\<close>

inductive shm_run :: "nat \<Rightarrow> nat \<Rightarrow> shm \<Rightarrow> (nat \<times> nat) list \<Rightarrow> bool" for lo hi where
  start: "allocced_buf_chain s = 0 \<Longrightarrow> shm_run lo hi (shared_mem_init lo hi s) []"
| acquire: "shm_run lo hi s held \<Longrightarrow> unat req + 15 < 2 ^ 32 \<Longrightarrow>
    shared_mem_acquire in_interrupt req s = Some (rv, p, s') \<Longrightarrow>
    shm_run lo hi s' (if rv = EC_SUCCESS then (p, unat req) # held else held)"
| release: "shm_run lo hi s held \<Longrightarrow> (p, n) \<in> set held \<Longrightarrow> shared_mem_release False p s = Some s' \<Longrightarrow>
    shm_run lo hi s' (remove1 (p, n) held)"
| refused: "shm_run lo hi s held \<Longrightarrow> shared_mem_release True p s = Some s' \<Longrightarrow> shm_run lo hi s' held"

definition buffer_of :: "nat \<times> nat \<Rightarrow> nat" where "buffer_of b = fst b - shm_header"

definition holds_buffers :: "shm \<Rightarrow> (nat \<times> nat) list \<Rightarrow> nat list \<Rightarrow> bool" where
  "holds_buffers s held as \<longleftrightarrow>
     as = map buffer_of held \<and>
     (\<forall>b \<in> set held. shm_header \<le> fst b \<and> snd b + shm_header \<le> buffer_size s (buffer_of b))"

lemma map_remove1_distinct: "distinct (map f xs) \<Longrightarrow> x \<in> set xs \<Longrightarrow> map f (remove1 x xs) = remove1 (f x) (map f xs)"
  by (induction xs) (auto simp: image_iff)

lemma run_ok:
  assumes run: "shm_run lo hi s held" and mem: "0 < lo" "lo + shm_header \<le> hi" "hi < 0x10000000"
  shows "\<exists>fs as. shm_ok lo hi fs as s \<and> holds_buffers s held as"
  using run
proof (induction rule: shm_run.induct)
  case (start s)
  then show ?case using init_ok [OF mem(1,2) start] by (auto simp: holds_buffers_def)
next
  case (acquire s held req irq rv p s')
  then obtain fs as where ok: "shm_ok lo hi fs as s" "holds_buffers s held as" by blast
  show ?case
  proof (cases "irq \<or> shared_mem_acquire False req s = Some (EC_ERROR_BUSY, 0, s)")
    case True
    then have "rv \<noteq> EC_SUCCESS \<and> s' = s" using acquire.hyps(3) by (cases irq) (auto simp: shared_mem_acquire_def)
    then show ?thesis using ok by auto
  next
    case False
    have "hi - lo < 0x10000000" using mem(3) by simp
    from acquire_ok [OF ok(1) acquire.hyps(2) this] False obtain c s2 fs' where
      "shared_mem_acquire False req s = Some (EC_SUCCESS, c + shm_header, s2)"
      and a: "shm_ok lo hi fs' (c # as) s2" "granted req c as s s2" by auto
    then have "rv = EC_SUCCESS" "p = c + shm_header" "s2 = s'" using acquire.hyps(3) False by auto
    note this a
    moreover from calculation have "holds_buffers s' ((p, unat req) # held) (c # as)"
      using ok(2) by (auto simp: holds_buffers_def granted_def buffer_of_def)
    ultimately show ?thesis by auto
  qed
next
  case (release s held p n s')
  then obtain fs as where ok: "shm_ok lo hi fs as s" "holds_buffers s held as" by blast
  have hi: "hi < 2 ^ 32" using mem(3) by simp
  have h: "shm_header \<le> p" "buffer_of (p, n) \<in> set as" "distinct as"
    using ok release.hyps(2) by (auto simp: holds_buffers_def shm_ok_def tiles_def)
  obtain s2 fs' where s2: "shared_mem_release False (buffer_of (p, n) + shm_header) s = Some s2"
    "shm_ok lo hi fs' (remove1 (buffer_of (p, n)) as) s2"
    "\<forall>b \<in> set (remove1 (buffer_of (p, n)) as). buffer_size s2 b = buffer_size s b"
    by (rule release_ok [OF ok(1) h(2) hi])
  have s': "s2 = s'" using s2(1) release.hyps(3) h(1) by (simp add: buffer_of_def)
  have rem: "remove1 (buffer_of (p, n)) as = map buffer_of (remove1 (p, n) held)"
    using map_remove1_distinct [of buffer_of held "(p, n)"] ok(2) h(3) release.hyps(2) by (simp add: holds_buffers_def)
  have "holds_buffers s' (remove1 (p, n) held) (remove1 (buffer_of (p, n)) as)"
    unfolding holds_buffers_def
  proof (intro conjI ballI)
    fix b assume b: "b \<in> set (remove1 (p, n) held)"
    then have h: "b \<in> set held" using set_remove1_subset by fast
    have "buffer_of b \<in> set (remove1 (buffer_of (p, n)) as)" unfolding rem using b by simp
    then have "buffer_size s' (buffer_of b) = buffer_size s (buffer_of b)" using s2(3) s' by simp
    then show "shm_header \<le> fst b" "snd b + shm_header \<le> buffer_size s' (buffer_of b)"
      using ok(2) h by (simp_all add: holds_buffers_def)
  qed (rule rem)
  then show ?case using s2(2) s' by blast
next
  case (refused s held p s')
  then show ?case by (simp add: shared_mem_release_def)
qed

section \<open>Properties\<close>

text \<open>A memory of 4096 bytes from which a buffer of eight bytes has been requested.\<close>

definition sample_shm :: shm where
  "sample_shm = shared_mem_init 4096 8192
     \<lparr>free_buf_chain = 0, allocced_buf_chain = 0, max_allocated_size = 0, next_buffer = (\<lambda>_. 7), prev_buffer = (\<lambda>_. 7),
      buffer_size = (\<lambda>_. 7), shm_data = (\<lambda>_. 7)\<rparr>"

lemma sample_shm_ok: "shm_run 4096 8192 sample_shm []" "shm_ok 4096 8192 [4096] [] sample_shm" "buffer_size sample_shm 4096 = 4096"
  "free_buf_chain sample_shm = 4096"
  by (auto simp: sample_shm_def shm_header_def intro!: shm_run.start init_ok) (simp_all add: shared_mem_init_def)

lemma sample_acquired: "\<exists>s fs. shm_run 4096 8192 s [(4108, 8)] \<and> shm_ok 4096 8192 fs [4096] s"
proof -
  have r: "unat (8 :: u32) + 15 < 2 ^ 32" "(8192 :: nat) - 4096 < 0x10000000" by simp_all
  have "\<not> buffer_size sample_shm 4096 < padded_size 8" using padded_size_eq [OF r(1)] sample_shm_ok(3) by simp
  then obtain s fs where a: "shared_mem_acquire False 8 sample_shm = Some (EC_SUCCESS, 4096 + shm_header, s)"
    "shm_ok 4096 8192 fs [4096] s"
    using acquire_ok [OF sample_shm_ok(2) r] by auto
  have "shm_run 4096 8192 s [(4108, 8)]"
    using shm_run.acquire [OF sample_shm_ok(1) r(1) a(1)] by (simp add: shm_header_def)
  then show ?thesis using a(2) by blast
qed

text \<open>(C21) Over every history of requests and releases, the buffers the clients hold lie in the shared memory
  and do not overlap each other or the headers of other buffers, and every further operation returns: a walk along a
  chain always ends.\<close>

theorem shm_buffers_are_disjoint:
  assumes "shm_run lo hi s held" and "0 < lo" and "lo + shm_header \<le> hi" and "hi < 0x10000000"
  shows "(\<forall>b \<in> set held. lo + shm_header \<le> fst b \<and> fst b + snd b \<le> hi) \<and>
    sorted_wrt (\<lambda>b c. fst b + snd b + shm_header \<le> fst c \<or> fst c + snd c + shm_header \<le> fst b) held \<and>
    (\<forall>req. unat req + 15 < 2 ^ 32 \<longrightarrow> shared_mem_acquire False req s \<noteq> None) \<and>
    (\<forall>b \<in> set held. shared_mem_release False (fst b) s \<noteq> None)"
proof (intro conjI)
  obtain fs as where ok: "shm_ok lo hi fs as s" "holds_buffers s held as" using run_ok [OF assms] by blast
  have t: "tiles (buffer_size s) lo hi (fs @ as)" using ok(1) by (simp add: shm_ok_def)
  have b: "shm_header \<le> fst b \<and> snd b + shm_header \<le> buffer_size s (buffer_of b) \<and> buffer_of b \<in> set as" if "b \<in> set held" for b
    using ok(2) that by (auto simp: holds_buffers_def)
  show "\<forall>b \<in> set held. lo + shm_header \<le> fst b \<and> fst b + snd b \<le> hi"
  proof
    fix b assume h: "b \<in> set held"
    then have "lo \<le> buffer_of b" "buffer_of b + buffer_size s (buffer_of b) \<le> hi" using b [OF h] t by (auto simp: tiles_def)
    then show "lo + shm_header \<le> fst b \<and> fst b + snd b \<le> hi" using b [OF h] by (auto simp: buffer_of_def)
  qed
  have ap: "fst x + snd x + shm_header \<le> fst y \<or> fst y + snd y + shm_header \<le> fst x"
    if "x \<in> set held" "y \<in> set held" "buffer_of x \<noteq> buffer_of y" for x y
  proof -
    have "apart (buffer_size s) (buffer_of x) (buffer_of y)" using t b [OF that(1)] b [OF that(2)] that(3) by (auto simp: tiles_def)
    then show ?thesis using b [OF that(1)] b [OF that(2)] by (auto simp: apart_def buffer_of_def)
  qed
  have "distinct (map buffer_of held)" using t ok(2) by (simp add: tiles_def holds_buffers_def)
  then show "sorted_wrt (\<lambda>b c. fst b + snd b + shm_header \<le> fst c \<or> fst c + snd c + shm_header \<le> fst b) held"
    using ap by (induction held) (auto simp: image_iff)
  have "hi - lo < 0x10000000" "hi < 2 ^ 32" using assms(4) by simp_all
  from acquire_ok [OF ok(1) _ this(1)] show "\<forall>req. unat req + 15 < 2 ^ 32 \<longrightarrow> shared_mem_acquire False req s \<noteq> None" by fastforce
  show "\<forall>b \<in> set held. shared_mem_release False (fst b) s \<noteq> None"
  proof
    fix x assume x: "x \<in> set held"
    have "buffer_of x + shm_header = fst x" using b [OF x] by (simp add: buffer_of_def)
    then show "shared_mem_release False (fst x) s \<noteq> None"
      using release_ok [OF ok(1) _ \<open>hi < 2 ^ 32\<close>, of "buffer_of x"] b [OF x] by (metis option.distinct(1))
  qed
qed

theorem shm_buffers_are_disjoint_witness:
  "\<exists>s. shm_run 4096 8192 s [(4108, 8)] \<and> shared_mem_release False 4108 s \<noteq> None \<and>
     (\<forall>req. unat req + 15 < 2 ^ 32 \<longrightarrow> shared_mem_acquire False req s \<noteq> None)"
proof -
  obtain s where s: "shm_run 4096 8192 s [(4108, 8)]" using sample_acquired by blast
  have "0 < (4096 :: nat)" "4096 + shm_header \<le> 8192" "(8192 :: nat) < 0x10000000" by (simp_all add: shm_header_def)
  from shm_buffers_are_disjoint [OF s this] show ?thesis using s by (intro exI [of _ s]) auto
qed

lemma spaced_room:
  assumes "spaced sz fs" and "fs \<noteq> []" and "\<forall>f \<in> set fs. f + sz f \<le> hi"
  shows "hd fs + sum_list (map sz fs) + (length fs - 1) \<le> hi"
  using assms
proof (induction fs)
  case (Cons f fs)
  show ?case
  proof (cases fs)
    case Nil
    then show ?thesis using Cons.prems by simp
  next
    case (Cons g gs)
    have "spaced sz fs" "f + sz f < g" using Cons.prems(1) \<open>fs = g # gs\<close> by (auto simp: spaced_def)
    then show ?thesis using Cons.IH Cons.prems \<open>fs = g # gs\<close> by simp
  qed
qed simp

text \<open>(C22) Releasing every buffer gives all memory back in one piece: when the clients hold nothing, whatever they
  requested and released before, the free chain is a single buffer that spans the whole shared memory.\<close>

theorem shm_memory_comes_back:
  assumes "shm_run lo hi s []" and "0 < lo" and "lo + shm_header \<le> hi" and "hi < 0x10000000"
  shows "free_buf_chain s = lo \<and> next_buffer s lo = 0 \<and> buffer_size s lo = hi - lo \<and> allocced_buf_chain s = 0"
proof -
  obtain fs as where "shm_ok lo hi fs as s" "holds_buffers s [] as" using run_ok [OF assms] by blast
  then have c: "buf_chains s fs []" and t: "tiles (buffer_size s) lo hi fs" and sp: "spaced (buffer_size s) fs"
    by (auto simp: shm_ok_def holds_buffers_def)
  have sum: "sum_list (map (buffer_size s) fs) = hi - lo" and r: "\<forall>f \<in> set fs. lo \<le> f \<and> f + buffer_size s f \<le> hi"
    using t by (auto simp: tiles_def)
  have ne: "fs \<noteq> []" using sum assms(3) by (auto simp: shm_header_def)
  have "hd fs + (hi - lo) + (length fs - 1) \<le> hi" using spaced_room [OF sp ne, of hi] r sum by simp
  moreover have "lo \<le> hd fs" using r ne by simp
  ultimately have "hd fs = lo" "length fs - 1 = 0" using assms(3) by linarith+
  then have "fs = [lo]" using ne by (cases fs) auto
  then show ?thesis using c sum by (simp add: buf_chains_def)
qed

theorem shm_memory_comes_back_witness:
  "\<exists>s s'. shm_run 4096 8192 s [(4108, 8)] \<and> shared_mem_release False 4108 s = Some s' \<and>
     free_buf_chain s' = 4096 \<and> next_buffer s' 4096 = 0 \<and> buffer_size s' 4096 = 4096"
proof -
  obtain s fs where s: "shm_run 4096 8192 s [(4108, 8)]" "shm_ok 4096 8192 fs [4096] s" using sample_acquired by blast
  have "4096 \<in> set [4096 :: nat]" "(8192 :: nat) < 2 ^ 32" by simp_all
  then obtain s' where s': "shared_mem_release False (4096 + shm_header) s = Some s'" by (rule release_ok [OF s(2)])
  then have r: "shared_mem_release False 4108 s = Some s'" by (simp add: shm_header_def)
  then have "shm_run 4096 8192 s' (remove1 (4108, 8) [(4108, 8)])" using s(1) by (intro shm_run.release) simp_all
  then have "shm_run 4096 8192 s' []" by simp
  moreover have "0 < (4096 :: nat)" "4096 + shm_header \<le> 8192" "(8192 :: nat) < 0x10000000" by (simp_all add: shm_header_def)
  ultimately have "free_buf_chain s' = 4096 \<and> next_buffer s' 4096 = 0 \<and> buffer_size s' 4096 = 8192 - 4096 \<and> allocced_buf_chain s' = 0"
    by (rule shm_memory_comes_back)
  then show ?thesis using s(1) r by (intro exI [of _ s] exI [of _ s']) simp
qed

lemma max_over: "(k :: nat) \<le> fold max (map sz fs) m \<longleftrightarrow> (\<exists>f \<in> set fs. k \<le> sz f) \<or> k \<le> m"
  by (induction fs arbitrary: m) (auto simp: le_max_iff_disj)

text \<open>(C23) \<open>shared_mem_size\<close> tells exactly what can be had: as long as any memory is free, a request is granted if and only if
  its size, rounded up to words, does not exceed the reported one; a request that is not granted gets
  \<open>EC_ERROR_BUSY\<close> and changes nothing, and a granted one gets a buffer of zeros while the contents of the buffers held
  before stay as they were.\<close>

theorem shm_size_is_exact:
  assumes "shm_run lo hi s held" and "0 < lo" and "lo + shm_header \<le> hi" and "hi < 0x10000000"
    and "free_buf_chain s \<noteq> 0" and "unat req + 15 < 2 ^ 32"
  shows "\<exists>m. shared_mem_size s = Some m \<and>
    (if (unat req + 3) div 4 * 4 \<le> unat m
     then \<exists>p s'. shared_mem_acquire False req s = Some (EC_SUCCESS, p, s') \<and>
            (\<forall>i < unat req. shm_data s' (p + i) = 0) \<and>
            (\<forall>b \<in> set held. \<forall>i < snd b. shm_data s' (fst b + i) = shm_data s (fst b + i))
     else shared_mem_acquire False req s = Some (EC_ERROR_BUSY, 0, s))"
proof -
  obtain fs as where ok: "shm_ok lo hi fs as s" "holds_buffers s held as" using run_ok [OF assms(1-4)] by blast
  have c: "buf_chains s fs as" and t: "tiles (buffer_size s) lo hi (fs @ as)" using ok(1) by (auto simp: shm_ok_def)
  let ?m = "fold max (map (buffer_size s) fs) 0"
  have mx: "max_size (next_buffer s) (buffer_size s) (free_buf_chain s) 0 = Some ?m"
    using max_size_links [of "next_buffer s" "prev_buffer s" 0 fs] c by (simp add: buf_chains_def)
  have fs: "fs \<noteq> []" using c assms(5) by (auto simp: buf_chains_def)
  have bound: "buffer_size s f \<le> hi" "shm_header \<le> buffer_size s f" if "f \<in> set fs" for f
  proof -
    have "f + buffer_size s f \<le> hi" "shm_header \<le> buffer_size s f" using t that by (simp_all add: tiles_def)
    then show "buffer_size s f \<le> hi" "shm_header \<le> buffer_size s f" by simp_all
  qed
  have "\<not> (\<exists>f \<in> set fs. Suc hi \<le> buffer_size s f)" using bound(1) by fastforce
  then have "?m \<le> hi" using max_over [of "Suc hi" "buffer_size s" fs 0] by simp
  moreover have "\<exists>f \<in> set fs. shm_header \<le> buffer_size s f" using bound(2) fs by (cases fs) auto
  then have "shm_header \<le> ?m" using max_over [of shm_header "buffer_size s" fs 0] by blast
  ultimately have um: "unat (of_nat ?m - of_nat shm_header :: u32) = ?m - shm_header"
    using assms(4) by (simp add: of_nat_diff [symmetric] unat_of_nat del: of_nat_diff)
  have sz: "shared_mem_size s = Some (of_nat ?m - of_nat shm_header)" using mx by (simp add: shared_mem_size_def)
  have fits: "(unat req + 3) div 4 * 4 \<le> ?m - shm_header \<longleftrightarrow> (\<exists>f \<in> set fs. padded_size req \<le> buffer_size s f)"
    using max_over [of "padded_size req" "buffer_size s" fs 0] \<open>shm_header \<le> ?m\<close> padded_size_eq [OF assms(6)]
    by (auto simp: shm_header_def)
  have "hi - lo < 0x10000000" using assms(4) by simp
  note a = acquire_ok [OF ok(1) assms(6) this]
  show ?thesis
  proof (cases "\<exists>f \<in> set fs. padded_size req \<le> buffer_size s f")
    case True
    then obtain c s' where acq: "shared_mem_acquire False req s = Some (EC_SUCCESS, c + shm_header, s')" and g: "granted req c as s s'"
      using a by (auto simp: not_less [symmetric])
    have "shm_data s' (fst b + i) = shm_data s (fst b + i)" if "b \<in> set held" "i < snd b" for b i
    proof -
      have h: "buffer_of b \<in> set as" "shm_header \<le> fst b" "snd b + shm_header \<le> buffer_size s (buffer_of b)"
        using ok(2) that(1) by (auto simp: holds_buffers_def)
      then have "buffer_of b \<le> fst b + i" "fst b + i < buffer_of b + buffer_size s (buffer_of b)"
        using that(2) by (auto simp: buffer_of_def)
      then show ?thesis using g h(1) by (simp add: granted_def)
    qed
    then show ?thesis using sz um fits True acq g by (auto simp: granted_def)
  next
    case False
    then have "shared_mem_acquire False req s = Some (EC_ERROR_BUSY, 0, s)" using a by auto
    then show ?thesis using sz um fits False by auto
  qed
qed

theorem shm_size_is_exact_witness:
  "\<exists>m. shared_mem_size sample_shm = Some m \<and>
    (if (unat (5000 :: u32) + 3) div 4 * 4 \<le> unat m
     then \<exists>p s'. shared_mem_acquire False 5000 sample_shm = Some (EC_SUCCESS, p, s')
     else shared_mem_acquire False 5000 sample_shm = Some (EC_ERROR_BUSY, 0, sample_shm))"
proof -
  have "0 < (4096 :: nat)" "4096 + shm_header \<le> 8192" "(8192 :: nat) < 0x10000000" "free_buf_chain sample_shm \<noteq> 0"
    "unat (5000 :: u32) + 15 < 2 ^ 32" by (simp_all add: shm_header_def sample_shm_ok(4))
  from shm_size_is_exact [OF sample_shm_ok(1) this] show ?thesis by (elim exE conjE) (rule exI, auto split: if_splits)
qed

end
