(* ===== verification/Ec_Comm.thy ===== *)
theory Ec_Comm
  imports Ccd_Types Vendor_Cmd
begin

text \<open>
  The conversation with the embedded controller (EC) and its early firmware selection:
  \<open>src/common/ec_comm.c\<close> and \<open>src/common/ec_efs.c\<close> (with
  \<open>CONFIG_EC_EFS2_VERSION\<close> 0, as the board configures it).  The EC sends packets over a serial
  line: it announces the hash of its firmware, which is compared with the one kept in the TPM, or asks for
  another boot mode.

  The packet buffer is a function from positions, so that a store behind its 39 bytes is visible.  What
  the TPM holds in its kernel space is an argument (\<open>tpm_read\<close>) of the operations that read it;
  requests to reset the EC and the bytes sent to it are kept in traces.  Sleep masks, wake pins and
  \<open>ccd_update_state\<close>, which the packet mode handlers call, are not represented.
\<close>

section \<open>State\<close>

definition CR50_COMM_VERSION :: u8 where "CR50_COMM_VERSION = 0"
definition CR50_COMM_PREAMBLE :: u8 where "CR50_COMM_PREAMBLE = 0xec"
definition MIN_LENGTH_PREAMBLE :: u8 where "MIN_LENGTH_PREAMBLE = 4"
definition CR50_COMM_MAGIC_WORD :: u16 where "CR50_COMM_MAGIC_WORD = push_bit 8 67 OR 69"
definition CR50_COMM_HEADER_SIZE :: nat where "CR50_COMM_HEADER_SIZE = 7"
definition CR50_COMM_MAX_PACKET_SIZE :: nat where "CR50_COMM_MAX_PACKET_SIZE = CR50_COMM_HEADER_SIZE + 32"
definition CR50_COMM_CMD_SET_BOOT_MODE :: u16 where "CR50_COMM_CMD_SET_BOOT_MODE = 1"
definition CR50_COMM_CMD_VERIFY_HASH :: u16 where "CR50_COMM_CMD_VERIFY_HASH = 2"

definition CR50_COMM_RESPONSE :: "u16 \<Rightarrow> u16" where
  "CR50_COMM_RESPONSE x = push_bit 8 (ucast CR50_COMM_PREAMBLE) OR (x AND 0xff)"

definition CR50_COMM_SUCCESS :: u16 where "CR50_COMM_SUCCESS = CR50_COMM_RESPONSE 0"
definition CR50_COMM_ERROR_MAGIC :: u16 where "CR50_COMM_ERROR_MAGIC = CR50_COMM_RESPONSE 2"
definition CR50_COMM_ERROR_CRC :: u16 where "CR50_COMM_ERROR_CRC = CR50_COMM_RESPONSE 3"
definition CR50_COMM_ERROR_SIZE :: u16 where "CR50_COMM_ERROR_SIZE = CR50_COMM_RESPONSE 4"
definition CR50_COMM_ERROR_UNDEFINED_CMD :: u16 where "CR50_COMM_ERROR_UNDEFINED_CMD = CR50_COMM_RESPONSE 6"
definition CR50_COMM_ERROR_BAD_PAYLOAD :: u16 where "CR50_COMM_ERROR_BAD_PAYLOAD = CR50_COMM_RESPONSE 7"
definition CR50_COMM_ERROR_STRUCT_VERSION :: u16 where "CR50_COMM_ERROR_STRUCT_VERSION = CR50_COMM_RESPONSE 8"
definition CR50_COMM_ERROR_NVMEM :: u16 where "CR50_COMM_ERROR_NVMEM = CR50_COMM_RESPONSE 9"
definition CR50_COMM_ERROR_BAD_PARAM :: u16 where "CR50_COMM_ERROR_BAD_PARAM = CR50_COMM_RESPONSE 10"

definition EC_EFS_BOOT_MODE_NORMAL :: u8 where "EC_EFS_BOOT_MODE_NORMAL = 0"
definition EC_EFS_BOOT_MODE_NO_BOOT :: u8 where "EC_EFS_BOOT_MODE_NO_BOOT = 1"

definition PHASE_READY_COMM :: u8 where "PHASE_READY_COMM = 0"
definition PHASE_RECEIVING_PREAMBLE :: u8 where "PHASE_RECEIVING_PREAMBLE = 1"
definition PHASE_RECEIVING_HEADER :: u8 where "PHASE_RECEIVING_HEADER = 2"
definition PHASE_RECEIVING_DATA :: u8 where "PHASE_RECEIVING_DATA = 3"

record ec_efs =
  boot_mode :: u8
  hash_is_loaded :: bool
  secdata_error_code :: u32
  efs_hash :: bytes
  pwrdn_scratch20 :: u32
  ec_reboots :: "nat list"

record ec_comm =
  ec_uart :: bool
  ec_phase :: u8
  preamble_count :: u8
  bytes_received :: u8
  bytes_expected :: u8
  last_resp :: u16
  ec_packet :: "nat \<Rightarrow> u8"
  ec_sent :: bytes
  ec_blocked :: bool
  ec_irq_enabled :: bool
  efs :: ec_efs

section \<open>Early firmware selection\<close>

text \<open>The initial values of the static context; the scratch register and the trace of requests are not a part of it.\<close>

definition efs_static_init :: "ec_efs \<Rightarrow> ec_efs" where
  "efs_static_init e = e\<lparr>boot_mode := EC_EFS_BOOT_MODE_NORMAL, hash_is_loaded := False, secdata_error_code := 0,
     efs_hash := replicate 32 0\<rparr>"

definition set_boot_mode :: "u8 \<Rightarrow> ec_efs \<Rightarrow> ec_efs" where
  "set_boot_mode mode_val s =
     s\<lparr>boot_mode := mode_val, pwrdn_scratch20 := (pwrdn_scratch20 s AND NOT 0xff) OR ucast mode_val\<rparr>"

definition board_reboot_ec_deferred :: "nat \<Rightarrow> ec_efs \<Rightarrow> ec_efs" where
  "board_reboot_ec_deferred usec s = s\<lparr>ec_reboots := ec_reboots s @ [usec]\<rparr>"

definition EC_ERROR_VBOOT_DATA :: u32 where "EC_ERROR_VBOOT_DATA = 0x1200"
definition EC_ERROR_VBOOT_DATA_INCOMPATIBLE :: u32 where "EC_ERROR_VBOOT_DATA_INCOMPATIBLE = 0x1202"
definition EC_ERROR_VBOOT_DATA_UNDERSIZED :: u32 where "EC_ERROR_VBOOT_DATA_UNDERSIZED = 0x1203"

text \<open>\<open>struct vb2_secdata_kernel\<close>: version, size, checksum, a reserved byte, the kernel versions and the hash at offset 8,
  40 bytes.  The result is the code, and the hash if it is 0.\<close>

definition load_ec_hash :: "tpm_read \<Rightarrow> u32 \<times> bytes" where
  "load_ec_hash tpm =
     (case tpm of
        TPM_READ_SUCCESS secdata \<Rightarrow>
          if secdata ! 0 < 0x10 then (EC_ERROR_VBOOT_DATA_INCOMPATIBLE, [])
          else if secdata ! 1 \<noteq> 40 then (EC_ERROR_VBOOT_DATA, [])
          else if crc8 (take (40 - 2 - 1) (drop 3 secdata)) \<noteq> secdata ! 2
          then (of_nat (ec_error_code EC_ERROR_CRC), [])
          else (0, take 32 (drop 8 secdata))
      | _ \<Rightarrow> (EC_ERROR_VBOOT_DATA_UNDERSIZED, []))"

definition ec_efs_refresh :: "tpm_read \<Rightarrow> ec_efs \<Rightarrow> ec_efs" where
  "ec_efs_refresh tpm s =
     (case load_ec_hash tpm of
        (rv, hash) \<Rightarrow>
          (if rv = 0 then s\<lparr>efs_hash := hash, hash_is_loaded := True\<rparr> else s\<lparr>hash_is_loaded := False\<rparr>)
          \<lparr>secdata_error_code := rv\<rparr>)"

definition ec_efs_reset :: "ec_efs \<Rightarrow> ec_efs" where
  "ec_efs_reset s = set_boot_mode EC_EFS_BOOT_MODE_NORMAL s"

definition ec_efs_init :: "bool \<Rightarrow> tpm_read \<Rightarrow> ec_efs \<Rightarrow> ec_efs" where
  "ec_efs_init hibernate tpm s =
     (let s1 = (if hibernate then set_boot_mode (ucast (pwrdn_scratch20 s AND 0xff)) s else ec_efs_reset s)
      in if hash_is_loaded s1 then s1 else ec_efs_refresh tpm s1)"

definition vc_get_boot_mode :: "ec_efs vendor_handler" where
  "vc_get_boot_mode p s =
     (VENDOR_RC_SUCCESS, p\<lparr>vc_buffer := (vc_buffer p)[0 := boot_mode s], vc_out_size := 1\<rparr>, s)"

definition vc_reset_ec :: "ec_efs vendor_handler" where
  "vc_reset_ec p s = (VENDOR_RC_SUCCESS, p\<lparr>vc_out_size := 0\<rparr>, board_reboot_ec_deferred 50000 s)"

definition ec_efs_set_boot_mode :: "bytes \<Rightarrow> u8 \<Rightarrow> ec_efs \<Rightarrow> u16 \<times> ec_efs" where
  "ec_efs_set_boot_mode data sz s =
     (if sz \<noteq> 1 then (CR50_COMM_ERROR_SIZE, s)
      else
        (let mode = data ! 0
         in if mode = EC_EFS_BOOT_MODE_NORMAL
            then if boot_mode s = EC_EFS_BOOT_MODE_NORMAL then (CR50_COMM_SUCCESS, set_boot_mode mode s)
                 else (0, board_reboot_ec_deferred 0 s)
            else if mode = EC_EFS_BOOT_MODE_NO_BOOT then (CR50_COMM_SUCCESS, set_boot_mode mode s)
            else (CR50_COMM_ERROR_BAD_PARAM, s)))"

definition ec_efs_verify_hash :: "tpm_read \<Rightarrow> bytes \<Rightarrow> u8 \<Rightarrow> ec_efs \<Rightarrow> u16 \<times> ec_efs" where
  "ec_efs_verify_hash tpm hash_data sz s =
     (if sz \<noteq> 32 then (CR50_COMM_ERROR_SIZE, s)
      else
        (let s1 = (if \<not> hash_is_loaded s \<and> secdata_error_code s = 0 then ec_efs_refresh tpm s else s)
         in if \<not> hash_is_loaded s \<and> secdata_error_code s1 \<noteq> 0 then (CR50_COMM_ERROR_NVMEM, s1)
            else if safe_memcmp hash_data (efs_hash s1) 32
            then (CR50_COMM_ERROR_BAD_PAYLOAD, set_boot_mode EC_EFS_BOOT_MODE_NO_BOOT s1)
            else if boot_mode s1 = EC_EFS_BOOT_MODE_NO_BOOT then (0, board_reboot_ec_deferred 0 s1)
            else (CR50_COMM_SUCCESS, s1)))"

text \<open>The console command that corrupts the stored hash, once CCD is opened; how the TPM library writes its kernel space
  is the argument \<open>nv_write\<close>.  The result is the code, and the TPM and the state after it.\<close>

definition corrupt_secdata :: "bytes \<Rightarrow> bytes \<Rightarrow> bytes" where
  "corrupt_secdata hash secdata =
     (let s1 = take 8 secdata @ map (\<lambda>b. NOT b + 1) hash
      in s1[2 := crc8 (take (40 - 2 - 1) (drop 3 s1))])"

definition ec_efs_corrupt_hash ::
  "bool \<Rightarrow> (bytes \<Rightarrow> tpm_read \<Rightarrow> tpm_read) \<Rightarrow> tpm_read \<Rightarrow> ec_efs \<Rightarrow> u32 \<times> tpm_read \<times> ec_efs" where
  "ec_efs_corrupt_hash opened nv_write tpm s =
     (if \<not> opened then (of_nat (ec_error_code EC_ERROR_ACCESS_DENIED), tpm, s)
      else
        case tpm of
          TPM_READ_SUCCESS secdata \<Rightarrow>
            (let tpm1 = nv_write (corrupt_secdata (efs_hash s) secdata) tpm in (0, tpm1, ec_efs_refresh tpm1 s))
        | _ \<Rightarrow> (EC_ERROR_VBOOT_DATA_UNDERSIZED, tpm, s))"

section \<open>Packets\<close>

definition packet_bytes :: "ec_comm \<Rightarrow> nat \<Rightarrow> nat \<Rightarrow> bytes" where
  "packet_bytes s off n = map (ec_packet s) [off..<off + n]"

definition ph_magic :: "ec_comm \<Rightarrow> u16" where "ph_magic s = of_le (packet_bytes s 0 2)"
definition ph_version :: "ec_comm \<Rightarrow> u8" where "ph_version s = ec_packet s 2"
definition ph_crc :: "ec_comm \<Rightarrow> u8" where "ph_crc s = ec_packet s 3"
definition ph_cmd :: "ec_comm \<Rightarrow> u16" where "ph_cmd s = of_le (packet_bytes s 4 2)"
definition ph_size :: "ec_comm \<Rightarrow> u8" where "ph_size s = ec_packet s 6"

definition decode_packet :: "tpm_read \<Rightarrow> nat \<Rightarrow> ec_comm \<Rightarrow> u16 \<times> ec_comm" where
  "decode_packet tpm bytes s =
     (if crc8 (packet_bytes s 4 (bytes - 4)) \<noteq> ph_crc s then (CR50_COMM_ERROR_CRC, s)
      else
        (let data = packet_bytes s CR50_COMM_HEADER_SIZE (unat (ph_size s))
         in if ph_cmd s = CR50_COMM_CMD_SET_BOOT_MODE
            then case ec_efs_set_boot_mode data (ph_size s) (efs s) of (r, e) \<Rightarrow> (r, s\<lparr>efs := e\<rparr>)
            else if ph_cmd s = CR50_COMM_CMD_VERIFY_HASH
            then case ec_efs_verify_hash tpm data (ph_size s) (efs s) of (r, e) \<Rightarrow> (r, s\<lparr>efs := e\<rparr>)
            else (CR50_COMM_ERROR_UNDEFINED_CMD, s)))"

definition transfer_response_to_ec :: "u16 \<Rightarrow> ec_comm \<Rightarrow> ec_comm" where
  "transfer_response_to_ec response s = s\<lparr>ec_sent := ec_sent s @ to_le 2 response, last_resp := response\<rparr>"

definition ready_comm :: "ec_comm \<Rightarrow> ec_comm" where
  "ready_comm s = s\<lparr>ec_phase := PHASE_READY_COMM, preamble_count := 0\<rparr>"

definition store_char :: "u8 \<Rightarrow> ec_comm \<Rightarrow> ec_comm" where
  "store_char ch s =
     s\<lparr>ec_packet := (ec_packet s)(unat (bytes_received s) := ch), bytes_received := bytes_received s + 1\<rparr>"

text \<open>The header phase: a response of 0 is none.\<close>

definition receive_header :: "tpm_read \<Rightarrow> u8 \<Rightarrow> ec_comm \<Rightarrow> u16 \<times> ec_comm" where
  "receive_header tpm ch s0 =
     (let s = store_char ch s0
      in if bytes_received s < bytes_expected s then (0, s)
         else if ph_magic s \<noteq> CR50_COMM_MAGIC_WORD then (CR50_COMM_ERROR_MAGIC, s)
         else if ph_version s \<noteq> CR50_COMM_VERSION then (CR50_COMM_ERROR_STRUCT_VERSION, s)
         else if ph_size s = 0 then decode_packet tpm (unat (bytes_received s)) s
         else if CR50_COMM_MAX_PACKET_SIZE < unat (ph_size s) + unat (bytes_expected s) then (CR50_COMM_ERROR_SIZE, s)
         else (0, s\<lparr>bytes_expected := bytes_expected s + ph_size s, ec_phase := PHASE_RECEIVING_DATA\<rparr>))"

definition receive_data :: "tpm_read \<Rightarrow> u8 \<Rightarrow> ec_comm \<Rightarrow> u16 \<times> ec_comm" where
  "receive_data tpm ch s0 =
     (let s = store_char ch s0
      in if bytes_expected s \<le> bytes_received s then decode_packet tpm (unat (bytes_received s)) s else (0, s))"

definition respond :: "u16 \<times> ec_comm \<Rightarrow> bool \<times> ec_comm" where
  "respond r =
     (case r of (response, s) \<Rightarrow>
        (True, if response \<noteq> 0 then ready_comm (transfer_response_to_ec response s) else s))"

text \<open>The result says whether the character was taken as a part of a packet.\<close>

definition ec_comm_process_packet :: "tpm_read \<Rightarrow> u8 \<Rightarrow> ec_comm \<Rightarrow> bool \<times> ec_comm" where
  "ec_comm_process_packet tpm ch s =
     (if ec_phase s = PHASE_READY_COMM
      then if ch \<noteq> CR50_COMM_PREAMBLE then (False, s\<lparr>preamble_count := 0\<rparr>)
           else
             (let s1 = s\<lparr>preamble_count := preamble_count s + 1\<rparr>
              in if preamble_count s1 < MIN_LENGTH_PREAMBLE then (False, s1)
                 else respond (0, s1\<lparr>ec_phase := PHASE_RECEIVING_PREAMBLE\<rparr>))
      else if ec_phase s = PHASE_RECEIVING_PREAMBLE
      then if ch = CR50_COMM_PREAMBLE then respond (0, s\<lparr>preamble_count := preamble_count s + 1\<rparr>)
           else respond (receive_header tpm ch
                  (s\<lparr>bytes_received := 0, bytes_expected := of_nat CR50_COMM_HEADER_SIZE, ec_phase := PHASE_RECEIVING_HEADER\<rparr>))
      else if ec_phase s = PHASE_RECEIVING_HEADER then respond (receive_header tpm ch s)
      else if ec_phase s = PHASE_RECEIVING_DATA then respond (receive_data tpm ch s)
      else (False, ready_comm s))"

section \<open>Packet mode\<close>

definition ec_comm_packet_mode_en :: "ec_comm \<Rightarrow> ec_comm" where
  "ec_comm_packet_mode_en s = (ready_comm s)\<lparr>ec_uart := True\<rparr>"

definition ec_comm_packet_mode_dis :: "ec_comm \<Rightarrow> ec_comm" where
  "ec_comm_packet_mode_dis s = s\<lparr>ec_uart := False\<rparr>"

definition ec_comm_is_uart_in_packet_mode :: "ec_comm \<Rightarrow> bool" where
  "ec_comm_is_uart_in_packet_mode s = ec_uart s"

definition ec_comm_init :: "bool \<Rightarrow> bool \<Rightarrow> ec_comm \<Rightarrow> ec_comm" where
  "ec_comm_init supported packet_mode_pin s =
     (let s1 = s\<lparr>ec_uart := False\<rparr>
      in if \<not> supported then s1
         else
           (let s2 = s1\<lparr>ec_irq_enabled := True\<rparr>
            in if packet_mode_pin then ec_comm_packet_mode_en s2 else s2))"

definition ec_comm_block :: "bool \<Rightarrow> ec_comm \<Rightarrow> ec_comm" where
  "ec_comm_block block s =
     (if ec_blocked s = block then s
      else
        (let s1 = (if block
                   then
                     (let s0 = s\<lparr>ec_irq_enabled := False\<rparr>
                      in if ec_comm_is_uart_in_packet_mode s0 then ec_comm_packet_mode_dis s0 else s0)
                   else s\<lparr>ec_irq_enabled := True\<rparr>)
         in s1\<lparr>ec_blocked := block\<rparr>))"

end
