(* ===== verification/Ec_Boot.thy ===== *)
theory Ec_Boot
  imports Ec_Comm
begin

text \<open>
  What early firmware selection guarantees: a packet is decoded as it was sent, the verdict on a
  firmware hash is right, and an EC that failed verification stays refused until it is reset.  The
  last section shows how the packet buffer is overrun.
\<close>

section \<open>Streams of characters\<close>

definition ec_chars :: "tpm_read \<Rightarrow> bytes \<Rightarrow> ec_comm \<Rightarrow> ec_comm" where
  "ec_chars tpm cs s = fold (\<lambda>ch s. snd (ec_comm_process_packet tpm ch s)) cs s"

lemma ec_chars_simps [simp]:
  "ec_chars tpm [] s = s"
  "ec_chars tpm (c # cs) s = ec_chars tpm cs (snd (ec_comm_process_packet tpm c s))"
  "ec_chars tpm (cs @ cs') s = ec_chars tpm cs' (ec_chars tpm cs s)"
  by (simp_all add: ec_chars_def)

lemmas phase_defs = PHASE_READY_COMM_def PHASE_RECEIVING_PREAMBLE_def PHASE_RECEIVING_HEADER_def PHASE_RECEIVING_DATA_def

definition put_bytes :: "(nat \<Rightarrow> u8) \<Rightarrow> bytes \<Rightarrow> nat \<Rightarrow> u8" where
  "put_bytes pk bs = (\<lambda>i. if i < length bs then bs ! i else pk i)"

lemma put_bytes_snoc: "(put_bytes pk bs)(length bs := c) = put_bytes pk (bs @ [c])"
  by (auto simp: put_bytes_def nth_append fun_eq_iff)

lemma put_bytes_map: "off + n \<le> length bs \<Longrightarrow> map (put_bytes pk bs) [off..<off + n] = take n (drop off bs)"
  by (rule nth_equalityI) (auto simp: put_bytes_def)

definition with_bytes :: "bytes \<Rightarrow> ec_comm \<Rightarrow> ec_comm" where
  "with_bytes bs s = s\<lparr>ec_packet := put_bytes (ec_packet s) bs, bytes_received := of_nat (length bs)\<rparr>"

lemma store_with_bytes:
  assumes "length bs < 255"
  shows "store_char c (with_bytes bs s) = with_bytes (bs @ [c]) s"
  using assms by (simp add: store_char_def with_bytes_def unat_of_nat put_bytes_snoc add.commute)

lemma with_bytes_fields:
  "off + n \<le> length bs \<Longrightarrow> packet_bytes (with_bytes bs s) off n = take n (drop off bs)"
  "i < length bs \<Longrightarrow> ec_packet (with_bytes bs s) i = bs ! i"
  by (simp_all add: packet_bytes_def with_bytes_def put_bytes_map) (simp add: put_bytes_def)

lemma with_bytes_efs:
  "(with_bytes bs s)\<lparr>efs := e\<rparr> = with_bytes bs (s\<lparr>efs := e\<rparr>)"
  "efs (with_bytes bs s) = efs s"
  by (simp_all add: with_bytes_def)

lemma preamble_more:
  "ec_phase s = PHASE_RECEIVING_PREAMBLE \<Longrightarrow> \<exists>c. ec_chars tpm (replicate n CR50_COMM_PREAMBLE) s = s\<lparr>preamble_count := c\<rparr>"
proof (induction n arbitrary: s)
  case 0
  then show ?case by (intro exI [of _ "preamble_count s"]) simp
next
  case (Suc n)
  let ?s = "s\<lparr>preamble_count := preamble_count s + 1\<rparr>"
  have "snd (ec_comm_process_packet tpm CR50_COMM_PREAMBLE s) = ?s"
    using Suc.prems by (simp add: ec_comm_process_packet_def respond_def phase_defs)
  then show ?case using Suc.IH [of ?s] Suc.prems by simp
qed

lemma preamble:
  assumes "ec_phase s = PHASE_READY_COMM" and "preamble_count s = 0" and "4 \<le> n"
  shows "\<exists>c. ec_chars tpm (replicate n CR50_COMM_PREAMBLE) s = s\<lparr>ec_phase := PHASE_RECEIVING_PREAMBLE, preamble_count := c\<rparr>"
proof -
  let ?s = "s\<lparr>ec_phase := PHASE_RECEIVING_PREAMBLE, preamble_count := 4\<rparr>"
  have step: "snd (ec_comm_process_packet tpm CR50_COMM_PREAMBLE (s\<lparr>preamble_count := n\<rparr>)) = s\<lparr>preamble_count := n + 1\<rparr>"
    if "n + 1 < 4" for n
    using assms(1) that by (simp add: ec_comm_process_packet_def phase_defs Let_def MIN_LENGTH_PREAMBLE_def)
  have turn: "snd (ec_comm_process_packet tpm CR50_COMM_PREAMBLE (s\<lparr>preamble_count := 3\<rparr>)) = ?s"
    using assms(1) by (simp add: ec_comm_process_packet_def respond_def phase_defs Let_def MIN_LENGTH_PREAMBLE_def)
  have rep: "replicate 4 CR50_COMM_PREAMBLE = [CR50_COMM_PREAMBLE, CR50_COMM_PREAMBLE, CR50_COMM_PREAMBLE, CR50_COMM_PREAMBLE]"
    by (simp add: eval_nat_numeral)
  have s0: "s\<lparr>preamble_count := 0\<rparr> = s" using assms(2) by (cases s) simp
  have four: "ec_chars tpm (replicate 4 CR50_COMM_PREAMBLE) s = ?s"
    unfolding rep using step [of 0] step [of 1] step [of 2] turn by (simp add: s0)
  have "replicate n CR50_COMM_PREAMBLE = replicate 4 CR50_COMM_PREAMBLE @ replicate (n - 4) CR50_COMM_PREAMBLE"
    using assms(3) by (simp add: replicate_add [symmetric])
  then show ?thesis using four preamble_more [of ?s tpm "n - 4"] by simp
qed

text \<open>The header, from the first character that is not a preamble.\<close>

definition in_header :: "ec_comm \<Rightarrow> ec_comm" where
  "in_header s = s\<lparr>bytes_expected := of_nat CR50_COMM_HEADER_SIZE, ec_phase := PHASE_RECEIVING_HEADER\<rparr>"

lemma header_chars:
  assumes "ec_phase s = PHASE_RECEIVING_PREAMBLE" and "bs \<noteq> []" and "length bs < 7" and "hd bs \<noteq> CR50_COMM_PREAMBLE"
  shows "ec_chars tpm bs s = with_bytes bs (in_header s)"
  using assms(2-)
proof (induction bs rule: rev_induct)
  case (snoc c bs)
  have lt: "(of_nat (Suc (length bs)) :: u8) < 7" using snoc.prems by (simp add: word_less_nat_alt unat_of_nat del: of_nat_Suc)
  show ?case
  proof (cases "bs = []")
    case True
    have "s\<lparr>bytes_received := 0, bytes_expected := of_nat CR50_COMM_HEADER_SIZE, ec_phase := PHASE_RECEIVING_HEADER\<rparr>
        = with_bytes [] (in_header s)"
      by (simp add: with_bytes_def in_header_def put_bytes_def)
    then have "snd (ec_comm_process_packet tpm c s) = snd (respond (receive_header tpm c (with_bytes [] (in_header s))))"
      using assms(1) snoc.prems True by (simp add: ec_comm_process_packet_def phase_defs)
    also have "\<dots> = with_bytes [c] (in_header s)"
      using store_with_bytes [of "[]" c "in_header s"]
      by (simp add: receive_header_def Let_def respond_def)
         (simp add: with_bytes_def in_header_def CR50_COMM_HEADER_SIZE_def)
    finally show ?thesis using True by simp
  next
    case False
    have "ec_phase (with_bytes bs (in_header s)) = PHASE_RECEIVING_HEADER" by (simp add: with_bytes_def in_header_def)
    then have "snd (ec_comm_process_packet tpm c (with_bytes bs (in_header s))) =
        snd (respond (receive_header tpm c (with_bytes bs (in_header s))))"
      by (simp add: ec_comm_process_packet_def phase_defs)
    also have "\<dots> = with_bytes (bs @ [c]) (in_header s)"
      using store_with_bytes [of bs c "in_header s"] snoc.prems lt
      by (simp add: receive_header_def Let_def respond_def)
         (simp add: with_bytes_def in_header_def CR50_COMM_HEADER_SIZE_def)
    finally show ?thesis using snoc False by simp
  qed
qed simp

text \<open>The seventh byte completes the header; a size of 1 to 32 leads to the data phase.\<close>

definition in_data :: "nat \<Rightarrow> ec_comm \<Rightarrow> ec_comm" where
  "in_data n s = s\<lparr>bytes_expected := of_nat (CR50_COMM_HEADER_SIZE + n), ec_phase := PHASE_RECEIVING_DATA\<rparr>"

lemma in_data_efs:
  "(in_data n s)\<lparr>efs := e\<rparr> = in_data n (s\<lparr>efs := e\<rparr>)"
  "efs (in_data n s) = efs s"
  by (cases s, simp add: in_data_def) (simp add: in_data_def)

lemma header_done:
  assumes "ec_phase s = PHASE_RECEIVING_PREAMBLE" and "length bs = 6" and "hd bs \<noteq> CR50_COMM_PREAMBLE"
    and "take 2 bs = [69, 67]" and "bs ! 2 = 0" and "1 \<le> n" and "n \<le> 32"
  shows "ec_chars tpm (bs @ [of_nat n]) s = with_bytes (bs @ [of_nat n]) (in_data n s)"
proof -
  let ?bs = "bs @ [of_nat n]"
  let ?w = "with_bytes ?bs (in_header s)"
  have "bs \<noteq> []" using assms(2) by auto
  then have pre: "ec_chars tpm bs s = with_bytes bs (in_header s)"
    using assms by (intro header_chars) simp_all
  have st: "store_char (of_nat n) (with_bytes bs (in_header s)) = ?w" by (rule store_with_bytes) (simp add: assms(2))
  have magic: "ph_magic ?w = CR50_COMM_MAGIC_WORD"
    using assms(2,4) by (simp add: ph_magic_def with_bytes_fields CR50_COMM_MAGIC_WORD_def)
  have ver: "ph_version ?w = CR50_COMM_VERSION"
    using assms(2,5) by (simp add: ph_version_def with_bytes_fields CR50_COMM_VERSION_def nth_append)
  have sz: "ph_size ?w = of_nat n" using assms(2) by (simp add: ph_size_def with_bytes_fields nth_append)
  have nz: "(of_nat n :: u8) \<noteq> 0" using assms(6,7) by (simp add: word_of_nat_eq_0_iff nat_dvd_not_less)
  have un: "unat (of_nat n :: u8) = n" using assms(7) by (simp add: unat_of_nat)
  have rx: "bytes_received ?w = 7" "bytes_expected ?w = 7"
    using assms(2) by (simp_all add: with_bytes_def in_header_def CR50_COMM_HEADER_SIZE_def)
  have "receive_header tpm (of_nat n) (with_bytes bs (in_header s)) =
      (0, ?w\<lparr>bytes_expected := bytes_expected ?w + of_nat n, ec_phase := PHASE_RECEIVING_DATA\<rparr>)"
    using assms(7) nz
    by (simp add: receive_header_def Let_def st magic ver sz rx un CR50_COMM_MAX_PACKET_SIZE_def CR50_COMM_HEADER_SIZE_def)
  moreover have "?w\<lparr>bytes_expected := bytes_expected ?w + of_nat n, ec_phase := PHASE_RECEIVING_DATA\<rparr> = with_bytes ?bs (in_data n s)"
    by (cases s) (simp add: with_bytes_def in_header_def in_data_def CR50_COMM_HEADER_SIZE_def)
  moreover have "ec_phase (with_bytes bs (in_header s)) = PHASE_RECEIVING_HEADER" by (simp add: with_bytes_def in_header_def)
  ultimately show ?thesis by (simp add: pre ec_comm_process_packet_def phase_defs respond_def)
qed

lemma data_step:
  assumes "length bs < 255"
  shows "snd (ec_comm_process_packet tpm c (with_bytes bs (in_data n s))) =
     (if (of_nat (CR50_COMM_HEADER_SIZE + n) :: u8) \<le> of_nat (Suc (length bs))
      then snd (respond (decode_packet tpm (Suc (length bs)) (with_bytes (bs @ [c]) (in_data n s))))
      else with_bytes (bs @ [c]) (in_data n s))"
proof -
  let ?w = "with_bytes (bs @ [c]) (in_data n s)"
  have "ec_phase (with_bytes bs (in_data n s)) = PHASE_RECEIVING_DATA" by (simp add: with_bytes_def in_data_def)
  moreover have "bytes_expected ?w = of_nat (CR50_COMM_HEADER_SIZE + n)" by (simp add: with_bytes_def in_data_def)
  moreover have "bytes_received ?w = of_nat (Suc (length bs))" by (simp add: with_bytes_def)
  moreover have "unat (of_nat (Suc (length bs)) :: u8) = Suc (length bs)"
    using assms by (simp add: unat_of_nat del: of_nat_Suc)
  ultimately show ?thesis
    using store_with_bytes [OF assms, of c "in_data n s"]
    by (simp add: ec_comm_process_packet_def phase_defs receive_data_def respond_def Let_def del: of_nat_Suc)
qed

lemma data_chars:
  "length bs + length cs < CR50_COMM_HEADER_SIZE + n \<Longrightarrow> n \<le> 32 \<Longrightarrow>
   ec_chars tpm cs (with_bytes bs (in_data n s)) = with_bytes (bs @ cs) (in_data n s)"
proof (induction cs arbitrary: bs)
  case (Cons c cs)
  have "\<not> (of_nat (CR50_COMM_HEADER_SIZE + n) :: u8) \<le> of_nat (Suc (length bs))"
    using Cons.prems by (simp add: word_le_nat_alt unat_of_nat CR50_COMM_HEADER_SIZE_def del: of_nat_Suc of_nat_add)
  moreover have "length bs < 255" using Cons.prems by (simp add: CR50_COMM_HEADER_SIZE_def)
  ultimately have "snd (ec_comm_process_packet tpm c (with_bytes bs (in_data n s))) = with_bytes (bs @ [c]) (in_data n s)"
    by (simp add: data_step)
  then show ?case using Cons.IH [of "bs @ [c]"] Cons.prems by simp
qed simp

section \<open>A packet is executed as it was sent\<close>

text \<open>What the EC puts on the line for a command.\<close>

definition ec_packet_for :: "u16 \<Rightarrow> bytes \<Rightarrow> bytes" where
  "ec_packet_for cmd data =
     (let body = to_le 2 cmd @ of_nat (length data) # data in [69, 67, 0, crc8 body] @ body)"

definition ec_command :: "tpm_read \<Rightarrow> u16 \<Rightarrow> bytes \<Rightarrow> ec_efs \<Rightarrow> u16 \<times> ec_efs" where
  "ec_command tpm cmd data e =
     (if cmd = CR50_COMM_CMD_SET_BOOT_MODE then ec_efs_set_boot_mode data (of_nat (length data)) e
      else if cmd = CR50_COMM_CMD_VERIFY_HASH then ec_efs_verify_hash tpm data (of_nat (length data)) e
      else (CR50_COMM_ERROR_UNDEFINED_CMD, e))"

lemma to_le_2: "to_le 2 (w :: u16) = [ucast w, ucast (drop_bit 8 w)]"
  by (simp add: to_le_def numeral_2_eq_2)

lemma decode_sent:
  assumes "length data \<le> 32"
  shows "decode_packet tpm (CR50_COMM_HEADER_SIZE + length data) (with_bytes (ec_packet_for cmd data) s) =
     (let (r, e) = ec_command tpm cmd data (efs s) in (r, with_bytes (ec_packet_for cmd data) (s\<lparr>efs := e\<rparr>)))"
proof -
  define p where p_def: "p = ec_packet_for cmd data"
  let ?w = "with_bytes p s"
  have len: "length p = 7 + length data" by (simp add: p_def ec_packet_for_def Let_def)
  have crc: "ph_crc ?w = crc8 (packet_bytes ?w 4 (CR50_COMM_HEADER_SIZE + length data - 4))"
    using len by (simp add: ph_crc_def with_bytes_fields CR50_COMM_HEADER_SIZE_def) (simp add: p_def ec_packet_for_def Let_def)
  have "packet_bytes ?w 4 2 = to_le 2 cmd"
    using len by (simp add: with_bytes_fields) (simp add: p_def ec_packet_for_def Let_def)
  then have cmd: "ph_cmd ?w = cmd" by (simp add: ph_cmd_def of_le_to_le)
  have sz: "ph_size ?w = of_nat (length data)"
    using len by (simp add: ph_size_def with_bytes_fields) (simp add: p_def ec_packet_for_def Let_def to_le_2)
  have "packet_bytes ?w CR50_COMM_HEADER_SIZE (length data) = data"
    using len by (simp add: with_bytes_fields CR50_COMM_HEADER_SIZE_def) (simp add: p_def ec_packet_for_def Let_def to_le_2)
  moreover have "unat (of_nat (length data) :: u8) = length data" using assms by (simp add: unat_of_nat)
  ultimately show ?thesis
    using crc cmd sz unfolding p_def [symmetric]
    by (simp add: decode_packet_def Let_def ec_command_def with_bytes_efs split: prod.splits)
qed

text \<open>Everything after the preamble: the state before the decoder runs, and its verdict.\<close>

lemma packet_received:
  assumes "ec_phase s = PHASE_READY_COMM" and "preamble_count s = 0" and "4 \<le> n"
    and "1 \<le> length data" and "length data \<le> 32"
  shows "\<exists>c. ec_chars tpm (replicate n CR50_COMM_PREAMBLE @ ec_packet_for cmd data) s =
     snd (respond (let (r, e) = ec_command tpm cmd data (efs s)
                   in (r, with_bytes (ec_packet_for cmd data) ((in_data (length data) (s\<lparr>preamble_count := c\<rparr>))\<lparr>efs := e\<rparr>))))"
proof -
  define l where "l = length data"
  define bs where "bs = [69, 67, 0, crc8 (to_le 2 cmd @ of_nat l # data)] @ to_le 2 cmd"
  obtain d c1 where d: "data = d @ [c1]" using assms(4) by (cases data rule: rev_cases) auto
  have split: "ec_packet_for cmd data = (bs @ [of_nat l]) @ d @ [c1]"
    by (simp add: ec_packet_for_def Let_def bs_def l_def d)
  obtain c where c: "ec_chars tpm (replicate n CR50_COMM_PREAMBLE) s
      = s\<lparr>ec_phase := PHASE_RECEIVING_PREAMBLE, preamble_count := c\<rparr>"
    using preamble [OF assms(1-3)] by blast
  let ?t = "s\<lparr>ec_phase := PHASE_RECEIVING_PREAMBLE, preamble_count := c\<rparr>"
  have h: "ec_chars tpm (bs @ [of_nat l]) ?t = with_bytes (bs @ [of_nat l]) (in_data l ?t)"
    using assms(4,5) by (intro header_done) (simp_all add: bs_def to_le_2 CR50_COMM_PREAMBLE_def l_def)
  have b7: "length (bs @ [of_nat l]) = 7" by (simp add: bs_def)
  have dd: "ec_chars tpm d (with_bytes (bs @ [of_nat l]) (in_data l ?t)) = with_bytes ((bs @ [of_nat l]) @ d) (in_data l ?t)"
    using assms(5) b7 by (intro data_chars) (simp_all add: l_def d CR50_COMM_HEADER_SIZE_def)
  have len: "Suc (length ((bs @ [of_nat l]) @ d)) = CR50_COMM_HEADER_SIZE + l"
    by (simp add: bs_def CR50_COMM_HEADER_SIZE_def l_def d)
  have "snd (ec_comm_process_packet tpm c1 (with_bytes ((bs @ [of_nat l]) @ d) (in_data l ?t)))
      = snd (respond (decode_packet tpm (CR50_COMM_HEADER_SIZE + l) (with_bytes (ec_packet_for cmd data) (in_data l ?t))))"
    using assms(5) data_step [of "(bs @ [of_nat l]) @ d" tpm c1 l ?t] unfolding split len
    by (simp add: l_def d bs_def)
  also have "\<dots> = snd (respond (let (r, e) = ec_command tpm cmd data (efs s)
      in (r, with_bytes (ec_packet_for cmd data) ((in_data l (s\<lparr>preamble_count := c\<rparr>))\<lparr>efs := e\<rparr>))))"
    using decode_sent [OF assms(5), of tpm cmd "in_data l ?t"]
    by (simp add: l_def in_data_def split: prod.splits)
  finally have "ec_chars tpm (ec_packet_for cmd data) ?t = \<dots>"
    unfolding split using h dd by simp
  then show ?thesis using c unfolding l_def by auto
qed

lemma respond_sends:
  "ec_sent (snd (respond (r, s))) = ec_sent s @ (if r = 0 then [] else to_le 2 r)"
  "efs (snd (respond (r, s))) = efs s"
  "ec_phase (snd (respond (r, s))) = (if r = 0 then ec_phase s else PHASE_READY_COMM)"
  by (simp_all add: respond_def ready_comm_def transfer_response_to_ec_def)

lemma packet_executed:
  assumes "ec_phase s = PHASE_READY_COMM" and "preamble_count s = 0" and "4 \<le> n"
    and "1 \<le> length data" and "length data \<le> 32" and "ec_command tpm cmd data (efs s) = (r, e)"
    and "t = ec_chars tpm (replicate n CR50_COMM_PREAMBLE @ ec_packet_for cmd data) s"
  shows "efs t = e" and "ec_sent t = ec_sent s @ (if r = 0 then [] else to_le 2 r)"
    and "ec_phase t = (if r = 0 then PHASE_RECEIVING_DATA else PHASE_READY_COMM)"
proof -
  obtain c where c: "t = snd (respond (r, with_bytes (ec_packet_for cmd data)
      ((in_data (length data) (s\<lparr>preamble_count := c\<rparr>))\<lparr>efs := e\<rparr>)))"
    using packet_received [OF assms(1-5), of tpm cmd] assms(6,7) by auto
  show "efs t = e" "ec_sent t = ec_sent s @ (if r = 0 then [] else to_le 2 r)"
    "ec_phase t = (if r = 0 then PHASE_RECEIVING_DATA else PHASE_READY_COMM)"
    by (simp_all only: c respond_sends) (simp_all add: with_bytes_def in_data_def)
qed

text \<open>(C17) The verdict on a firmware hash: when the EC sends at least four preamble characters and a packet with the
  32 bytes of its hash, Cr50 answers that the payload is bad and switches to NO_BOOT if this is not the loaded hash;
  otherwise it answers success if the boot mode is not NO_BOOT, and if it is, gives no answer, leaves the boot mode
  and requests a reset of the EC.\<close>

theorem hash_packet_verdict:
  assumes "ec_phase s = PHASE_READY_COMM" and "preamble_count s = 0" and "4 \<le> n"
    and "hash_is_loaded (efs s)" and "length (efs_hash (efs s)) = 32" and "length h = 32"
    and "t = ec_chars tpm (replicate n CR50_COMM_PREAMBLE @ ec_packet_for CR50_COMM_CMD_VERIFY_HASH h) s"
  shows "if h \<noteq> efs_hash (efs s)
     then boot_mode (efs t) = EC_EFS_BOOT_MODE_NO_BOOT \<and> ec_sent t = ec_sent s @ to_le 2 CR50_COMM_ERROR_BAD_PAYLOAD
     else boot_mode (efs t) = boot_mode (efs s) \<and>
       (if boot_mode (efs s) = EC_EFS_BOOT_MODE_NO_BOOT
        then ec_sent t = ec_sent s \<and> ec_reboots (efs t) = ec_reboots (efs s) @ [0]
        else ec_sent t = ec_sent s @ to_le 2 CR50_COMM_SUCCESS \<and> ec_reboots (efs t) = ec_reboots (efs s))"
proof -
  obtain r e where re: "ec_command tpm CR50_COMM_CMD_VERIFY_HASH h (efs s) = (r, e)" by fastforce
  have v: "ec_efs_verify_hash tpm h 32 (efs s) = (r, e)"
    using re assms(6) by (simp add: ec_command_def CR50_COMM_CMD_VERIFY_HASH_def CR50_COMM_CMD_SET_BOOT_MODE_def)
  have neq: "safe_memcmp h (efs_hash (efs s)) 32 \<longleftrightarrow> h \<noteq> efs_hash (efs s)"
    using safe_memcmp_take [of 32 h "efs_hash (efs s)"] assms(5,6) by simp
  have nz: "CR50_COMM_ERROR_BAD_PAYLOAD \<noteq> 0" "CR50_COMM_SUCCESS \<noteq> 0"
    by (simp_all add: CR50_COMM_ERROR_BAD_PAYLOAD_def CR50_COMM_SUCCESS_def CR50_COMM_RESPONSE_def CR50_COMM_PREAMBLE_def)
  have "efs t = e" and "ec_sent t = ec_sent s @ (if r = 0 then [] else to_le 2 r)"
    using packet_executed [OF assms(1-3) _ _ re assms(7)] assms(6) by simp_all
  then show ?thesis
    using v [symmetric] assms(4) nz
    by (auto simp: ec_efs_verify_hash_def Let_def neq set_boot_mode_def board_reboot_ec_deferred_def split: if_splits)
qed

text \<open>A concrete exchange: the hash in the TPM is all zeros and the EC announces another one.\<close>

definition ec_idle :: "u8 \<Rightarrow> ec_comm" where
  "ec_idle mode = \<lparr>ec_uart = True, ec_phase = 0, preamble_count = 0, bytes_received = 0, bytes_expected = 0, last_resp = 0,
     ec_packet = (\<lambda>i. 0), ec_sent = [], ec_blocked = False, ec_irq_enabled = True,
     efs = \<lparr>boot_mode = mode, hash_is_loaded = True, secdata_error_code = 0, efs_hash = replicate 32 0,
       pwrdn_scratch20 = ucast mode, ec_reboots = []\<rparr>\<rparr>"

theorem hash_packet_verdict_witness:
  "boot_mode (efs (ec_chars TPM_READ_NOT_FOUND
     (replicate 4 CR50_COMM_PREAMBLE @ ec_packet_for CR50_COMM_CMD_VERIFY_HASH (replicate 32 1)) (ec_idle 0))) = 1"
proof -
  have "replicate 32 (1 :: u8) \<noteq> replicate 32 0" by (simp add: replicate_eq_replicate)
  then show ?thesis
    using hash_packet_verdict [of "ec_idle 0" 4 "replicate 32 1", OF _ _ _ _ _ _ HOL.refl, of TPM_READ_NOT_FOUND]
    by (simp add: ec_idle_def PHASE_READY_COMM_def EC_EFS_BOOT_MODE_NO_BOOT_def)
qed

section \<open>An EC that failed verification stays refused\<close>

text \<open>After deep sleep the static data has its initial values again; only the scratch register survives.\<close>

definition ec_wake :: "tpm_read \<Rightarrow> bool \<Rightarrow> bool \<Rightarrow> ec_comm \<Rightarrow> ec_comm" where
  "ec_wake tpm supported pin s =
     ec_comm_init supported pin
       (s\<lparr>ec_phase := 0, preamble_count := 0, bytes_received := 0, bytes_expected := 0, last_resp := 0,
          ec_packet := (\<lambda>i. 0), ec_blocked := False, ec_irq_enabled := False,
          efs := ec_efs_init True tpm (efs_static_init (efs s))\<rparr>)"

text \<open>Everything that can happen without a reset of the EC (which calls \<open>ec_efs_reset\<close>).\<close>

inductive ec_run :: "ec_comm \<Rightarrow> ec_comm \<Rightarrow> bool" where
  idle: "ec_run s s"
| char: "ec_run s t \<Longrightarrow> ec_run s (snd (ec_comm_process_packet tpm ch t))"
| refresh: "ec_run s t \<Longrightarrow> ec_run s (t\<lparr>efs := ec_efs_refresh tpm (efs t)\<rparr>)"
| mode_en: "ec_run s t \<Longrightarrow> ec_run s (ec_comm_packet_mode_en t)"
| mode_dis: "ec_run s t \<Longrightarrow> ec_run s (ec_comm_packet_mode_dis t)"
| block: "ec_run s t \<Longrightarrow> ec_run s (ec_comm_block b t)"
| reset_ec: "ec_run s t \<Longrightarrow> vc_reset_ec p (efs t) = (rc, q, e) \<Longrightarrow> ec_run s (t\<lparr>efs := e\<rparr>)"
| wake: "ec_run s t \<Longrightarrow> ec_run s (ec_wake tpm supported pin t)"

text \<open>A property of the selection state that every operation of \<open>ec_efs.c\<close> but the reset keeps; then
  a whole conversation keeps it.\<close>

locale efs_invariant =
  fixes P :: "ec_efs \<Rightarrow> bool"
  assumes keeps_refresh: "P e \<Longrightarrow> P (ec_efs_refresh tpm e)"
    and keeps_reboot: "P e \<Longrightarrow> P (board_reboot_ec_deferred u e)"
    and keeps_no_boot: "P e \<Longrightarrow> P (set_boot_mode EC_EFS_BOOT_MODE_NO_BOOT e)"
    and keeps_normal: "P e \<Longrightarrow> boot_mode e = EC_EFS_BOOT_MODE_NORMAL \<Longrightarrow> P (set_boot_mode EC_EFS_BOOT_MODE_NORMAL e)"
    and keeps_wake: "P e \<Longrightarrow> P (ec_efs_init True tpm (efs_static_init e))"
begin

lemma keeps_commands:
  assumes "P e"
  shows "P (snd (ec_efs_set_boot_mode data sz e))" and "P (snd (ec_efs_verify_hash tpm data sz e))"
  using assms
  by (simp_all add: ec_efs_set_boot_mode_def ec_efs_verify_hash_def Let_def keeps_refresh keeps_reboot keeps_no_boot keeps_normal)

lemma keeps_decode: "P (efs s) \<Longrightarrow> P (efs (snd (decode_packet tpm n s)))"
  using keeps_commands [of "efs s"] by (auto simp: decode_packet_def Let_def split: prod.splits) (metis snd_conv)+

lemma keeps_char:
  assumes "P (efs s)" shows "P (efs (snd (ec_comm_process_packet tpm ch s)))"
proof -
  have st: "efs (store_char c x) = efs x" for c x by (simp add: store_char_def)
  have rs: "efs (snd (respond y)) = efs (snd y)" for y by (cases y) (simp add: respond_sends)
  have h: "P (efs (snd (receive_header tpm c x)))" "P (efs (snd (receive_data tpm c x)))"
    if "efs x = efs s" for c x
    using keeps_decode assms that by (simp_all add: receive_header_def receive_data_def Let_def st)
  show ?thesis
    using assms h by (simp add: ec_comm_process_packet_def Let_def rs ready_comm_def)
qed

lemma keeps_run: "ec_run s t \<Longrightarrow> P (efs s) \<Longrightarrow> P (efs t)"
proof (induction rule: ec_run.induct)
  case (block s t b)
  then show ?case
    by (simp add: ec_comm_block_def ec_comm_is_uart_in_packet_mode_def ec_comm_packet_mode_dis_def Let_def)
next
  case (reset_ec s t p rc q e)
  then show ?case using keeps_reboot by (auto simp: vc_reset_ec_def)
next
  case (wake s t tpm supported pin)
  then show ?case
    using keeps_wake by (simp add: ec_wake_def ec_comm_init_def ec_comm_packet_mode_en_def ready_comm_def Let_def)
qed (simp_all add: keeps_char keeps_refresh ec_comm_packet_mode_en_def ec_comm_packet_mode_dis_def ready_comm_def)

end

text \<open>The scratch register backs the boot mode up.\<close>

definition efs_backed :: "ec_efs \<Rightarrow> bool" where
  "efs_backed e \<longleftrightarrow> pwrdn_scratch20 e AND 0xff = ucast (boot_mode e)"

definition efs_refused :: "ec_efs \<Rightarrow> bool" where
  "efs_refused e \<longleftrightarrow> efs_backed e \<and> boot_mode e = EC_EFS_BOOT_MODE_NO_BOOT"

lemma set_boot_mode_backed: "efs_backed (set_boot_mode m e)"
proof -
  have ff: "(0xff :: u32) = Bit_Operations.mask 8" by (simp add: mask_eq_exp_minus_1)
  have "bit (((x :: u32) AND NOT (Bit_Operations.mask 8) OR ucast m) AND Bit_Operations.mask 8) n \<longleftrightarrow> bit (ucast m :: u32) n" for x n
    using bit_imp_le_length [of m n] by (auto simp: bit_simps)
  then have "((x :: u32) AND NOT (Bit_Operations.mask 8) OR ucast m) AND Bit_Operations.mask 8 = ucast m" for x
    by (intro bit_word_eqI) simp
  then show ?thesis
    unfolding efs_backed_def set_boot_mode_def ff by simp
qed

lemma boot_mode_set [simp]: "boot_mode (set_boot_mode m e) = m"
  by (simp add: set_boot_mode_def)

lemma refresh_keeps [simp]:
  "boot_mode (ec_efs_refresh tpm e) = boot_mode e" "pwrdn_scratch20 (ec_efs_refresh tpm e) = pwrdn_scratch20 e"
  "boot_mode (board_reboot_ec_deferred u e) = boot_mode e"
  "pwrdn_scratch20 (board_reboot_ec_deferred u e) = pwrdn_scratch20 e"
  by (auto simp: ec_efs_refresh_def board_reboot_ec_deferred_def split: prod.splits)

lemma backed_refresh: "efs_backed (ec_efs_refresh tpm e) = efs_backed e" "efs_backed (board_reboot_ec_deferred u e) = efs_backed e"
  by (simp_all add: efs_backed_def)

lemma init_backed: "efs_backed (ec_efs_init hibernate tpm e)"
  by (simp add: ec_efs_init_def ec_efs_reset_def Let_def backed_refresh set_boot_mode_backed)

interpretation backed: efs_invariant efs_backed
  by unfold_locales (simp_all add: backed_refresh set_boot_mode_backed init_backed)

lemma wake_mode: "boot_mode (ec_efs_init True tpm e) = ucast (pwrdn_scratch20 e AND 0xff)"
  by (simp add: ec_efs_init_def Let_def)

interpretation refused: efs_invariant efs_refused
proof
  fix tpm e assume "efs_refused e"
  then have "boot_mode (ec_efs_init True tpm (efs_static_init e)) = EC_EFS_BOOT_MODE_NO_BOOT"
    by (simp add: wake_mode efs_static_init_def efs_refused_def efs_backed_def EC_EFS_BOOT_MODE_NO_BOOT_def)
  then show "efs_refused (ec_efs_init True tpm (efs_static_init e))"
    by (simp add: efs_refused_def init_backed)
qed (simp_all add: efs_refused_def backed_refresh set_boot_mode_backed EC_EFS_BOOT_MODE_NO_BOOT_def EC_EFS_BOOT_MODE_NORMAL_def)

lemma refused_not_verified:
  "boot_mode e = EC_EFS_BOOT_MODE_NO_BOOT \<Longrightarrow> fst (ec_efs_verify_hash tpm h sz e) \<noteq> CR50_COMM_SUCCESS"
  by (auto simp: ec_efs_verify_hash_def Let_def CR50_COMM_SUCCESS_def CR50_COMM_ERROR_SIZE_def CR50_COMM_ERROR_NVMEM_def
      CR50_COMM_ERROR_BAD_PAYLOAD_def CR50_COMM_RESPONSE_def CR50_COMM_PREAMBLE_def)



section \<open>The packet buffer is overrun\<close>

text \<open>Asking for NORMAL while the mode is NO_BOOT is not answered, and without an answer the data phase is not
  left: every further character is stored and the longer packet decoded again.  The checksum of the packet is 3, and
  the character 111 keeps it so.\<close>

lemma crc_fixed: "crc8 ([1, 0, 1, 0] @ replicate n 111) = 3"
proof (induction n)
  case 0
  show ?case by (simp add: crc8_def crc8_eval)
next
  case (Suc n)
  have "crc8_arg [111] 3 = 3" by (simp add: crc8_eval)
  moreover have "[1, 0, 1, 0] @ replicate (Suc n) 111 = ([1, 0, 1, 0] @ replicate n 111) @ [111 :: u8]"
    by (simp add: replicate_append_same)
  ultimately show ?case using Suc.IH by (simp only: crc8_def crc8_arg_append)
qed

lemma replicate_Suc_snoc: "replicate (Suc n) x = replicate n x @ [x]"
  by (simp add: replicate_append_same)

definition unanswered :: "nat \<Rightarrow> bytes" where
  "unanswered n = ec_packet_for CR50_COMM_CMD_SET_BOOT_MODE [0] @ replicate n 111"

lemma unanswered_bytes: "unanswered n = [69, 67, 0, 3] @ [1, 0, 1, 0] @ replicate n 111"
  using crc_fixed [of 0] by (simp add: unanswered_def ec_packet_for_def Let_def CR50_COMM_CMD_SET_BOOT_MODE_def to_le_2)

lemma decode_unanswered:
  assumes "boot_mode (efs s) = EC_EFS_BOOT_MODE_NO_BOOT" and "n \<le> 240"
  shows "decode_packet tpm (length (unanswered n)) (with_bytes (unanswered n) s) =
     (0, with_bytes (unanswered n) (s\<lparr>efs := board_reboot_ec_deferred 0 (efs s)\<rparr>))"
proof -
  let ?w = "with_bytes (unanswered n) s"
  have len: "length (unanswered n) = 8 + n" by (simp add: unanswered_bytes)
  have "packet_bytes ?w 4 (length (unanswered n) - 4) = [1, 0, 1, 0] @ replicate n 111"
    using len by (simp add: with_bytes_fields) (simp add: unanswered_bytes)
  then have crc: "crc8 (packet_bytes ?w 4 (length (unanswered n) - 4)) = ph_crc ?w"
    using crc_fixed [of n] len by (simp add: ph_crc_def with_bytes_fields) (simp add: unanswered_bytes)
  have "packet_bytes ?w 4 2 = [1, 0]" using len by (simp add: with_bytes_fields) (simp add: unanswered_bytes)
  then have cmd: "ph_cmd ?w = CR50_COMM_CMD_SET_BOOT_MODE" by (simp add: ph_cmd_def CR50_COMM_CMD_SET_BOOT_MODE_def)
  have sz: "ph_size ?w = 1" using len by (simp add: ph_size_def with_bytes_fields) (simp add: unanswered_bytes)
  have "packet_bytes ?w CR50_COMM_HEADER_SIZE 1 = [0]"
    using len by (simp add: with_bytes_fields CR50_COMM_HEADER_SIZE_def) (simp add: unanswered_bytes)
  then show ?thesis
    using crc cmd sz assms(1)
    by (simp add: decode_packet_def Let_def ec_efs_set_boot_mode_def with_bytes_efs
        EC_EFS_BOOT_MODE_NORMAL_def EC_EFS_BOOT_MODE_NO_BOOT_def)
qed

lemma unanswered_more:
  assumes "boot_mode (efs s) = EC_EFS_BOOT_MODE_NO_BOOT"
  shows "n \<le> 240 \<Longrightarrow> \<exists>e. boot_mode e = EC_EFS_BOOT_MODE_NO_BOOT \<and>
     ec_chars tpm (replicate n 111) (with_bytes (unanswered 0) (in_data 1 s)) = with_bytes (unanswered n) (in_data 1 (s\<lparr>efs := e\<rparr>))"
proof (induction n)
  case 0
  show ?case using assms by (intro exI [of _ "efs s"]) simp
next
  case (Suc n)
  then obtain e where e: "boot_mode e = EC_EFS_BOOT_MODE_NO_BOOT"
    "ec_chars tpm (replicate n 111) (with_bytes (unanswered 0) (in_data 1 s)) = with_bytes (unanswered n) (in_data 1 (s\<lparr>efs := e\<rparr>))"
    by auto
  let ?s = "s\<lparr>efs := e\<rparr>"
  have app: "unanswered n @ [111] = unanswered (Suc n)" by (simp add: unanswered_def replicate_append_same)
  have len: "length (unanswered m) = 8 + m" for m by (simp add: unanswered_bytes)
  have "(of_nat (CR50_COMM_HEADER_SIZE + 1) :: u8) \<le> of_nat (Suc (length (unanswered n)))"
    using Suc.prems by (simp add: len word_le_nat_alt unat_of_nat CR50_COMM_HEADER_SIZE_def del: of_nat_Suc of_nat_add)
  then have "snd (ec_comm_process_packet tpm 111 (with_bytes (unanswered n) (in_data 1 ?s)))
      = snd (respond (decode_packet tpm (length (unanswered (Suc n))) (with_bytes (unanswered (Suc n)) (in_data 1 ?s))))"
    using Suc.prems data_step [of "unanswered n" tpm 111 1 ?s] by (simp add: len app del: of_nat_Suc of_nat_add)
  also have "\<dots> = with_bytes (unanswered (Suc n)) (in_data 1 (s\<lparr>efs := board_reboot_ec_deferred 0 e\<rparr>))"
    using decode_unanswered [of "in_data 1 ?s" "Suc n" tpm] Suc.prems e(1)
    by (simp add: in_data_efs respond_def)
  finally have "ec_chars tpm (replicate (Suc n) 111) (with_bytes (unanswered 0) (in_data 1 s))
      = with_bytes (unanswered (Suc n)) (in_data 1 (s\<lparr>efs := board_reboot_ec_deferred 0 e\<rparr>))"
    using e(2) by (simp del: replicate_Suc add: replicate_Suc_snoc)
  then show ?case using e(1) by (intro exI [of _ "board_reboot_ec_deferred 0 e"]) simp
qed

text \<open>(C40) The packet buffer of 39 bytes is overrun: in boot mode NO_BOOT, a well-formed request for NORMAL followed by up to
  240 characters 111 is stored as a whole, position \<open>8 + i\<close> getting the \<open>i\<close>-th of them; from the 32nd
  on they lie behind the buffer.  Nothing is answered and the data phase is not left.\<close>

theorem packet_buffer_overrun:
  assumes "ec_phase s = PHASE_READY_COMM" and "preamble_count s = 0" and "boot_mode (efs s) = EC_EFS_BOOT_MODE_NO_BOOT"
    and "CR50_COMM_MAX_PACKET_SIZE - 8 < n" and "n \<le> 240"
    and "t = ec_chars tpm (replicate 4 CR50_COMM_PREAMBLE @ ec_packet_for CR50_COMM_CMD_SET_BOOT_MODE [0] @ replicate n 111) s"
  shows "ec_packet t CR50_COMM_MAX_PACKET_SIZE = 111 \<and> ec_packet t (7 + n) = 111 \<and>
    ec_sent t = ec_sent s \<and> ec_phase t = PHASE_RECEIVING_DATA"
proof -
  have "ec_command tpm CR50_COMM_CMD_SET_BOOT_MODE [0] (efs s) = (0, board_reboot_ec_deferred 0 (efs s))"
    using assms(3) by (simp add: ec_command_def ec_efs_set_boot_mode_def EC_EFS_BOOT_MODE_NORMAL_def EC_EFS_BOOT_MODE_NO_BOOT_def)
  then obtain c where c: "ec_chars tpm (replicate 4 CR50_COMM_PREAMBLE @ ec_packet_for CR50_COMM_CMD_SET_BOOT_MODE [0]) s =
      with_bytes (unanswered 0) (in_data 1 (s\<lparr>preamble_count := c, efs := board_reboot_ec_deferred 0 (efs s)\<rparr>))"
    using packet_received [OF assms(1,2), of 4 "[0]" tpm CR50_COMM_CMD_SET_BOOT_MODE]
    by (auto simp: respond_def unanswered_def in_data_efs)
  let ?s = "s\<lparr>preamble_count := c, efs := board_reboot_ec_deferred 0 (efs s)\<rparr>"
  obtain e where "t = with_bytes (unanswered n) (in_data 1 (?s\<lparr>efs := e\<rparr>))"
    using unanswered_more [of ?s n tpm] assms(3,5,6) c by auto
  moreover have "i < length (unanswered n) \<Longrightarrow> 8 \<le> i \<Longrightarrow> unanswered n ! i = 111" for i
    by (simp add: unanswered_bytes nth_append nth_Cons')
  ultimately show ?thesis
    using assms(4)
    by (simp add: with_bytes_fields unanswered_bytes CR50_COMM_MAX_PACKET_SIZE_def CR50_COMM_HEADER_SIZE_def)
       (simp add: with_bytes_def in_data_def)
qed

theorem packet_buffer_overrun_witness:
  "ec_packet (ec_chars TPM_READ_NOT_FOUND (replicate 4 CR50_COMM_PREAMBLE
     @ ec_packet_for CR50_COMM_CMD_SET_BOOT_MODE [0] @ replicate 32 111) (ec_idle 1)) 39 = 111 \<and> ec_packet (ec_idle 1) 39 = 0"
  using packet_buffer_overrun [of "ec_idle 1" 32, OF _ _ _ _ _ HOL.refl, of TPM_READ_NOT_FOUND]
  by (simp add: ec_idle_def PHASE_READY_COMM_def EC_EFS_BOOT_MODE_NO_BOOT_def CR50_COMM_MAX_PACKET_SIZE_def CR50_COMM_HEADER_SIZE_def)

end
