(* ===== verification/Board_Id.thy ===== *)
theory Board_Id
  imports Vendor_Cmd
begin

text \<open>
  The identity of the board in the information flash: \<open>src/chip/g/board_id.c\<close>, \<open>src/chip/g/sn_bits.c\<close> and
  \<open>src/chip/g/factory_config.c\<close> in a production build, with the accessors of the space in
  \<open>src/chip/g/flash.c\<close>.

  The space is a function from word indices.  Programming can only clear bits.  What the flash controller does is an
  input: \<open>flash_ops\<close> has the outcomes of the coming operations (none left means that they succeed), and a
  failing write may have cleared any part of the bits it was to clear.  The handlers return the byte that becomes the
  vendor return code, since two of them return error codes of the firmware as such.
\<close>

section \<open>The information flash\<close>

datatype flash_outcome =
    Flash_done
  | Flash_unavailable
  | Flash_failed "u32 list"

record info1 =
  info1_words :: "nat \<Rightarrow> u32"
  info1_wr_en :: bool
  flash_ops :: "flash_outcome list"

definition FLASH_INFO_SIZE :: nat where "FLASH_INFO_SIZE = 2 * 1024"
definition CONFIG_FLASH_WRITE_SIZE :: nat where "CONFIG_FLASH_WRITE_SIZE = 4"
definition CONFIG_FLASH_WRITE_IDEAL_SIZE :: nat where "CONFIG_FLASH_WRITE_IDEAL_SIZE = 128"
definition CONFIG_FLASH_ROW_SIZE :: nat where "CONFIG_FLASH_ROW_SIZE = 256"
definition INFO_AREA_SIZE :: nat where "INFO_AREA_SIZE = 128 * 4"
definition INFO_BOARD_SPACE_OFFSET :: nat where "INFO_BOARD_SPACE_OFFSET = 2 * INFO_AREA_SIZE"
definition INFO_BOARD_ID_OFFSET :: nat where "INFO_BOARD_ID_OFFSET = INFO_BOARD_SPACE_OFFSET"
definition INFO_SN_DATA_OFFSET :: nat where "INFO_SN_DATA_OFFSET = INFO_BOARD_SPACE_OFFSET + 12 + 4"
definition INFO_FACTORY_CFG_OFFSET :: nat where "INFO_FACTORY_CFG_OFFSET = INFO_BOARD_SPACE_OFFSET + 12 + 4 + 16 + 4 + 4"
definition INFO_FACTORY_CFG_SIZE :: nat where "INFO_FACTORY_CFG_SIZE = 8"

lemmas info_sizes = FLASH_INFO_SIZE_def CONFIG_FLASH_WRITE_SIZE_def CONFIG_FLASH_WRITE_IDEAL_SIZE_def
  CONFIG_FLASH_ROW_SIZE_def INFO_AREA_SIZE_def INFO_BOARD_SPACE_OFFSET_def INFO_BOARD_ID_OFFSET_def
  INFO_SN_DATA_OFFSET_def INFO_FACTORY_CFG_OFFSET_def INFO_FACTORY_CFG_SIZE_def

definition next_outcome :: "info1 \<Rightarrow> flash_outcome \<times> info1" where
  "next_outcome s = (case flash_ops s of [] \<Rightarrow> (Flash_done, s) | r # rs \<Rightarrow> (r, s\<lparr>flash_ops := rs\<rparr>))"

text \<open>The bits of \<open>keep\<close> are those a failing operation did not get to.\<close>

definition program_words :: "u32 list \<Rightarrow> nat \<Rightarrow> u32 list \<Rightarrow> (nat \<Rightarrow> u32) \<Rightarrow> nat \<Rightarrow> u32" where
  "program_words keep off ws f =
     (\<lambda>i. if off \<le> i \<and> i < off + length ws
          then f i AND (ws ! (i - off) OR (if i - off < length keep then keep ! (i - off) else 0)) else f i)"

fun data_words :: "bytes \<Rightarrow> u32 list" where
  "data_words (b0 # b1 # b2 # b3 # bs) = of_le [b0, b1, b2, b3] # data_words bs"
| "data_words bs = []"

definition write_batch :: "nat \<Rightarrow> bytes \<Rightarrow> info1 \<Rightarrow> ec_error \<times> info1" where
  "write_batch byte_offset data s =
     (case next_outcome s of (r, s1) \<Rightarrow>
        if r = Flash_unavailable then (EC_ERROR_UNIMPLEMENTED, s1)
        else if \<not> info1_wr_en s1 then (EC_ERROR_UNKNOWN, s1)
        else
          (let keep = (case r of Flash_failed k \<Rightarrow> k | _ \<Rightarrow> [])
           in (if r = Flash_done then EC_SUCCESS else EC_ERROR_UNKNOWN,
               s1\<lparr>info1_words := program_words keep (byte_offset div 4) (data_words data) (info1_words s1)\<rparr>)))"

function write_batches :: "nat \<Rightarrow> bytes \<Rightarrow> info1 \<Rightarrow> ec_error \<times> info1" where
  "write_batches byte_offset data s =
     (if data = [] then (EC_SUCCESS, s)
      else
        (let num = min (min (length data) CONFIG_FLASH_WRITE_IDEAL_SIZE)
                       (CONFIG_FLASH_ROW_SIZE - byte_offset mod CONFIG_FLASH_ROW_SIZE)
         in case write_batch byte_offset (take num data) s of (ret, s1) \<Rightarrow>
              if ret \<noteq> EC_SUCCESS then (ret, s1) else write_batches (byte_offset + num) (drop num data) s1))"
  by pat_completeness auto
termination
  by (relation "measure (\<lambda>(off, data, s). length data)") (auto simp: info_sizes)

declare write_batches.simps [simp del]

definition flash_physical_write_internal :: "nat \<Rightarrow> bytes \<Rightarrow> info1 \<Rightarrow> ec_error \<times> info1" where
  "flash_physical_write_internal byte_offset data s =
     (if byte_offset mod CONFIG_FLASH_WRITE_SIZE \<noteq> 0 \<or> length data mod CONFIG_FLASH_WRITE_SIZE \<noteq> 0
      then (EC_ERROR_INVAL, s) else write_batches byte_offset data s)"

definition flash_info_physical_write :: "nat \<Rightarrow> bytes \<Rightarrow> info1 \<Rightarrow> ec_error \<times> info1" where
  "flash_info_physical_write byte_offset data s =
     (if FLASH_INFO_SIZE < byte_offset + length data \<or>
         (byte_offset OR length data) AND (CONFIG_FLASH_WRITE_SIZE - 1) \<noteq> 0
      then (EC_ERROR_INVAL, s) else flash_physical_write_internal byte_offset data s)"

definition flash_physical_info_read_word :: "nat \<Rightarrow> info1 \<Rightarrow> (ec_error + u32) \<times> info1" where
  "flash_physical_info_read_word byte_offset s =
     (if byte_offset mod CONFIG_FLASH_WRITE_SIZE \<noteq> 0 then (Inl EC_ERROR_INVAL, s)
      else case next_outcome s of (r, s1) \<Rightarrow>
        (case r of
           Flash_done \<Rightarrow> Inr (info1_words s1 (byte_offset div 4))
         | Flash_unavailable \<Rightarrow> Inl EC_ERROR_UNIMPLEMENTED
         | Flash_failed k \<Rightarrow> Inl EC_ERROR_UNKNOWN, s1))"

definition flash_info_write_enable :: "info1 \<Rightarrow> info1" where "flash_info_write_enable s = s\<lparr>info1_wr_en := True\<rparr>"
definition flash_info_write_disable :: "info1 \<Rightarrow> info1" where "flash_info_write_disable s = s\<lparr>info1_wr_en := False\<rparr>"

text \<open>The loop of the three readers: \<open>n\<close> words, or the first error.\<close>

fun read_info_words :: "nat \<Rightarrow> nat \<Rightarrow> info1 \<Rightarrow> (ec_error + u32 list) \<times> info1" where
  "read_info_words off 0 s = (Inr [], s)"
| "read_info_words off (Suc n) s =
     (case flash_physical_info_read_word off s of
        (Inl e, s1) \<Rightarrow> (Inl e, s1)
      | (Inr w, s1) \<Rightarrow>
          (case read_info_words (off + 4) n s1 of
             (Inl e, s2) \<Rightarrow> (Inl e, s2)
           | (Inr ws, s2) \<Rightarrow> (Inr (w # ws), s2)))"

text \<open>Writing between enabling and disabling, as all three writers do.\<close>

definition write_info :: "nat \<Rightarrow> bytes \<Rightarrow> info1 \<Rightarrow> ec_error \<times> info1" where
  "write_info off data s =
     (case flash_info_physical_write off data (flash_info_write_enable s) of
        (rv, s1) \<Rightarrow> (rv, flash_info_write_disable s1))"

section \<open>Board ID\<close>

record board_id =
  bid_type :: u32
  bid_type_inv :: u32
  bid_flags :: u32

record signed_header_bid =
  hdr_board_id_type :: u32
  hdr_board_id_type_mask :: u32
  hdr_board_id_flags :: u32

definition BLANK_FIELD :: u32 where "BLANK_FIELD = 0xffffffff"
definition SIGNED_HEADER_PADDING :: u32 where "SIGNED_HEADER_PADDING = 0x33333333"

definition board_id_type_is_blank :: "board_id \<Rightarrow> bool" where
  "board_id_type_is_blank b \<longleftrightarrow> bid_type b AND bid_type_inv b = BLANK_FIELD"

definition board_id_flags_are_blank :: "board_id \<Rightarrow> bool" where
  "board_id_flags_are_blank b \<longleftrightarrow> bid_flags b = BLANK_FIELD"

definition board_id_is_blank :: "board_id \<Rightarrow> bool" where
  "board_id_is_blank b \<longleftrightarrow> board_id_type_is_blank b \<and> board_id_flags_are_blank b"

definition check_board_id_vs_header :: "board_id \<Rightarrow> signed_header_bid \<Rightarrow> u32" where
  "check_board_id_vs_header b h =
     (if board_id_is_blank b then 0
      else
        (let htype = SIGNED_HEADER_PADDING XOR hdr_board_id_type h;
             hmask = SIGNED_HEADER_PADDING XOR hdr_board_id_type_mask h;
             hflags = SIGNED_HEADER_PADDING XOR hdr_board_id_flags h
         in if hflags AND bid_flags b \<noteq> hflags then 1
            else if board_id_type_is_blank b then 0
            else ((htype XOR bid_type b) OR (htype XOR NOT (bid_type_inv b))) AND hmask))"

definition board_id_of_words :: "u32 list \<Rightarrow> board_id" where
  "board_id_of_words ws = \<lparr>bid_type = ws ! 0, bid_type_inv = ws ! 1, bid_flags = ws ! 2\<rparr>"

definition board_id_bytes :: "board_id \<Rightarrow> bytes" where
  "board_id_bytes b = to_le 4 (bid_type b) @ to_le 4 (bid_type_inv b) @ to_le 4 (bid_flags b)"

definition read_board_id :: "info1 \<Rightarrow> (ec_error + board_id) \<times> info1" where
  "read_board_id s =
     (case read_info_words INFO_BOARD_ID_OFFSET 3 s of
        (Inl e, s1) \<Rightarrow> (Inl e, s1)
      | (Inr ws, s1) \<Rightarrow> (Inr (board_id_of_words ws), s1))"

definition board_id_is_erased :: "info1 \<Rightarrow> bool \<times> info1" where
  "board_id_is_erased s =
     (case read_board_id s of (Inl e, s1) \<Rightarrow> (False, s1) | (Inr b, s1) \<Rightarrow> (board_id_is_blank b, s1))"

text \<open>\<open>h\<close> is the header asked about, or else that of the running image.\<close>

definition board_id_mismatch :: "signed_header_bid \<Rightarrow> info1 \<Rightarrow> u32 \<times> info1" where
  "board_id_mismatch h s =
     (case read_board_id s of
        (Inl e, s1) \<Rightarrow> (check_board_id_vs_header \<lparr>bid_type = 0, bid_type_inv = 0, bid_flags = 0\<rparr> h, s1)
      | (Inr b, s1) \<Rightarrow> (check_board_id_vs_header b h, s1))"

definition write_board_id :: "signed_header_bid \<Rightarrow> board_id \<Rightarrow> info1 \<Rightarrow> ec_error \<times> info1" where
  "write_board_id current b s =
     (case read_board_id s of
        (Inl e, s1) \<Rightarrow> (e, s1)
      | (Inr id_test, s1) \<Rightarrow>
          if \<not> board_id_is_blank id_test \<and> \<not> board_id_type_is_blank id_test then (EC_ERROR_ACCESS_DENIED, s1)
          else
            (let b1 = (if board_id_is_blank id_test then b else b\<lparr>bid_flags := bid_flags id_test\<rparr>)
             in if check_board_id_vs_header b1 current \<noteq> 0 then (EC_ERROR_INVAL, s1)
                else write_info INFO_BOARD_ID_OFFSET (board_id_bytes b1) s1))"

text \<open>A handler gets the buffer, the input size and the response size as it finds them.\<close>

type_synonym info_handler = "bytes \<Rightarrow> nat \<Rightarrow> nat \<Rightarrow> info1 \<Rightarrow> u32 \<times> bytes \<times> nat \<times> info1"

definition be32toh :: "bytes \<Rightarrow> u32" where "be32toh bs = of_le (rev bs)"
definition htobe32 :: "u32 \<Rightarrow> bytes" where "htobe32 w = rev (to_le 4 w)"

definition rc_byte :: "ec_error \<Rightarrow> u8" where "rc_byte e = of_nat (ec_error_code e)"

definition vc_set_board_id :: "signed_header_bid \<Rightarrow> info_handler" where
  "vc_set_board_id current buf input_size response_size s =
     (if input_size \<noteq> 8
      then (vendor_rc_value VENDOR_RC_BOGUS_ARGS, buf[0 := ucast (vendor_rc_value VENDOR_RC_BOGUS_ARGS)], 1, s)
      else
        (let ty = be32toh (take 4 buf);
             b = \<lparr>bid_type = ty, bid_type_inv = (if ty = BLANK_FIELD then BLANK_FIELD else NOT ty),
                  bid_flags = be32toh (take 4 (drop 4 buf))\<rparr>
         in case write_board_id current b s of (rv, s1) \<Rightarrow> (ucast (rc_byte rv), buf[0 := rc_byte rv], 1, s1)))"

definition vc_get_board_id :: info_handler where
  "vc_get_board_id buf input_size response_size s =
     (case read_board_id s of
        (Inl e, s1) \<Rightarrow> (vendor_rc_value VENDOR_RC_READ_FLASH_FAIL, buf, response_size, s1)
      | (Inr b, s1) \<Rightarrow>
          (vendor_rc_value VENDOR_RC_SUCCESS,
           htobe32 (bid_type b) @ htobe32 (bid_type_inv b) @ htobe32 (bid_flags b) @ drop 12 buf, 12, s1))"

definition command_board_id :: "nat \<Rightarrow> info1 \<Rightarrow> ec_error \<times> info1" where
  "command_board_id argc s =
     (if argc = 1 then case read_board_id s of (Inl e, s1) \<Rightarrow> (e, s1) | (Inr b, s1) \<Rightarrow> (EC_SUCCESS, s1)
      else (EC_ERROR_PARAM_COUNT, s))"

section \<open>Serial number\<close>

record sn_data =
  sn_version :: u8
  sn_reserved :: bytes
  rma_status :: u8
  sn_hash :: "u32 list"

definition SN_DATA_VERSION :: u8 where "SN_DATA_VERSION = 0x0f"
definition RMA_COUNT_BITS :: nat where "RMA_COUNT_BITS = 7"
definition RMA_INDICATOR :: u8 where "RMA_INDICATOR = NOT (push_bit RMA_COUNT_BITS 1)"
definition SN_HEADER_SIZE :: nat where "SN_HEADER_SIZE = 4"

definition sn_of_words :: "u32 list \<Rightarrow> sn_data" where
  "sn_of_words ws =
     \<lparr>sn_version = to_le 4 (ws ! 0) ! 0, sn_reserved = take 2 (drop 1 (to_le 4 (ws ! 0))),
      rma_status = to_le 4 (ws ! 0) ! 3, sn_hash = drop 1 ws\<rparr>"

definition sn_bytes :: "sn_data \<Rightarrow> bytes" where
  "sn_bytes sn = sn_version sn # sn_reserved sn @ rma_status sn # concat (map (to_le 4) (sn_hash sn))"

definition read_sn_data :: "info1 \<Rightarrow> (ec_error + sn_data) \<times> info1" where
  "read_sn_data s =
     (case read_info_words INFO_SN_DATA_OFFSET 4 s of
        (Inl e, s1) \<Rightarrow> (Inl e, s1)
      | (Inr ws, s1) \<Rightarrow> (Inr (sn_of_words ws), s1))"

definition write_sn_data :: "sn_data \<Rightarrow> bool \<Rightarrow> info1 \<Rightarrow> ec_error \<times> info1" where
  "write_sn_data sn header_only s =
     write_info INFO_SN_DATA_OFFSET (if header_only then take SN_HEADER_SIZE (sn_bytes sn) else sn_bytes sn) s"

definition write_sn_hash :: "u32 list \<Rightarrow> info1 \<Rightarrow> ec_error \<times> info1" where
  "write_sn_hash hash s =
     (case read_sn_data s of
        (Inl e, s1) \<Rightarrow> (e, s1)
      | (Inr sn, s1) \<Rightarrow>
          if \<not> list_all (\<lambda>w. w = 0xffffffff) (data_words (sn_bytes sn)) then (EC_ERROR_INVALID_CONFIG, s1)
          else write_sn_data (sn\<lparr>sn_version := SN_DATA_VERSION, sn_hash := hash\<rparr>) False s1)"

definition increment_rma_count :: "u8 \<Rightarrow> info1 \<Rightarrow> ec_error \<times> info1" where
  "increment_rma_count inc s =
     (case read_sn_data s of
        (Inl e, s1) \<Rightarrow> (e, s1)
      | (Inr sn, s1) \<Rightarrow>
          if sn_version sn \<noteq> SN_DATA_VERSION then (EC_ERROR_INVALID_CONFIG, s1)
          else if RMA_COUNT_BITS < unat inc then (EC_ERROR_INVAL, s1)
          else write_sn_data (sn\<lparr>rma_status := push_bit (unat inc) (rma_status sn) AND RMA_INDICATOR\<rparr>) True s1)"

definition vc_sn_set_hash :: info_handler where
  "vc_sn_set_hash buf input_size response_size s =
     (if input_size \<noteq> 12
      then (vendor_rc_value VENDOR_RC_BOGUS_ARGS, buf[0 := ucast (vendor_rc_value VENDOR_RC_BOGUS_ARGS)], 1, s)
      else
        (let refused = (\<lambda>s1. (vendor_rc_value VENDOR_RC_NOT_ALLOWED, buf[0 := of_nat (ec_error_code EC_ERROR_ACCESS_DENIED)], 1, s1))
         in case read_board_id s of
              (Inl e, s1) \<Rightarrow> refused s1
            | (Inr bid, s1) \<Rightarrow>
                if \<not> board_id_type_is_blank bid then refused s1
                else case write_sn_hash (data_words (take 12 buf)) s1 of
                       (rv, s2) \<Rightarrow> (ucast (rc_byte rv), buf[0 := rc_byte rv], 1, s2)))"

definition vc_sn_inc_rma :: "bool \<Rightarrow> info_handler" where
  "vc_sn_inc_rma wp_asserted buf input_size response_size s =
     (if wp_asserted then (of_nat (ec_error_code EC_ERROR_ACCESS_DENIED), buf, response_size, s)
      else if input_size \<noteq> 1
      then (vendor_rc_value VENDOR_RC_BOGUS_ARGS, buf[0 := ucast (vendor_rc_value VENDOR_RC_BOGUS_ARGS)], 1, s)
      else case increment_rma_count (buf ! 0) s of (rv, s1) \<Rightarrow> (ucast (rc_byte rv), buf[0 := rc_byte rv], 1, s1))"

definition command_sn :: "nat \<Rightarrow> info1 \<Rightarrow> ec_error \<times> info1" where
  "command_sn argc s =
     (if argc = 1 then case read_sn_data s of (Inl e, s1) \<Rightarrow> (e, s1) | (Inr sn, s1) \<Rightarrow> (EC_SUCCESS, s1)
      else (EC_ERROR_PARAM_COUNT, s))"

section \<open>Factory configuration\<close>

definition factory_config_is_blank :: "u64 \<Rightarrow> bool" where "factory_config_is_blank fc \<longleftrightarrow> fc = 0"

definition read_factory_config :: "info1 \<Rightarrow> (ec_error + u64) \<times> info1" where
  "read_factory_config s =
     (case read_info_words INFO_FACTORY_CFG_OFFSET 2 s of
        (Inl e, s1) \<Rightarrow> (Inl e, s1)
      | (Inr ws, s1) \<Rightarrow> (Inr (NOT (of_le (to_le 4 (ws ! 0) @ to_le 4 (ws ! 1)))), s1))"

definition write_factory_config :: "u64 \<Rightarrow> info1 \<Rightarrow> ec_error \<times> info1" where
  "write_factory_config new_fc s =
     (case read_board_id s of
        (Inl e, s1) \<Rightarrow> (EC_ERROR_ACCESS_DENIED, s1)
      | (Inr bid, s1) \<Rightarrow>
          if \<not> board_id_type_is_blank bid then (EC_ERROR_ACCESS_DENIED, s1)
          else case read_factory_config s1 of
                 (Inl e, s2) \<Rightarrow> (e, s2)
               | (Inr fc, s2) \<Rightarrow>
                   if new_fc = fc then (EC_SUCCESS, s2)
                   else if \<not> factory_config_is_blank fc then (EC_ERROR_ACCESS_DENIED, s2)
                   else write_info INFO_FACTORY_CFG_OFFSET (to_le 8 (NOT new_fc)) s2)"

definition vc_set_factory_config :: info_handler where
  "vc_set_factory_config buf input_size response_size s =
     (if input_size \<noteq> INFO_FACTORY_CFG_SIZE then (vendor_rc_value VENDOR_RC_BOGUS_ARGS, buf, 0, s)
      else case write_factory_config (of_le (rev (take INFO_FACTORY_CFG_SIZE buf))) s of
             (rv, s1) \<Rightarrow>
               (vendor_rc_value (if rv = EC_ERROR_ACCESS_DENIED then VENDOR_RC_NOT_ALLOWED
                  else if rv \<noteq> EC_SUCCESS then VENDOR_RC_INTERNAL_ERROR else VENDOR_RC_SUCCESS), buf, 0, s1))"

definition vc_get_factory_config :: info_handler where
  "vc_get_factory_config buf input_size response_size s =
     (case read_factory_config s of
        (Inl e, s1) \<Rightarrow> (vendor_rc_value VENDOR_RC_READ_FLASH_FAIL, buf, 0, s1)
      | (Inr fc, s1) \<Rightarrow> (vendor_rc_value VENDOR_RC_SUCCESS, rev (to_le 8 fc) @ drop 8 buf, 8, s1))"

end
