(* ===== verification/Board_Final.thy ===== *)
theory Board_Final
  imports Board_Id
begin

text \<open>
  What the identity of a board guarantees.  The commands are related to the changes they may make to the words of the
  information flash (\<open>info_change\<close>), whatever the flash controller does; from these it follows that
  an identity once programmed is final.
\<close>

section \<open>Reading and writing the space\<close>

definition same_info :: "info1 \<Rightarrow> info1 \<Rightarrow> bool" where
  "same_info s t \<longleftrightarrow> info1_words t = info1_words s \<and> info1_wr_en t = info1_wr_en s \<and> (flash_ops s = [] \<longrightarrow> t = s)"

lemma same_info_refl [simp]: "same_info s s" by (simp add: same_info_def)

lemma same_info_trans: "same_info s t \<Longrightarrow> same_info t u \<Longrightarrow> same_info s u"
  by (auto simp: same_info_def)

lemma next_outcome_same: "next_outcome s = (r, t) \<Longrightarrow> same_info s t \<and> (flash_ops s = [] \<longrightarrow> r = Flash_done)"
  by (auto simp: next_outcome_def same_info_def split: list.splits)

lemma read_word:
  assumes "flash_physical_info_read_word off s = (r, t)"
  shows "same_info s t" and "r = Inr w \<Longrightarrow> w = info1_words s (off div 4)"
    and "flash_ops s = [] \<Longrightarrow> off mod 4 = 0 \<Longrightarrow> r = Inr (info1_words s (off div 4))"
  using assms next_outcome_same [of s]
  by (auto simp: flash_physical_info_read_word_def info_sizes same_info_def split: prod.splits if_splits flash_outcome.splits)

lemma read_words:
  assumes "read_info_words off n s = (r, t)"
  shows "same_info s t \<and> (\<forall>ws. r = Inr ws \<longrightarrow> ws = map (info1_words s) [off div 4..<off div 4 + n])
    \<and> (flash_ops s = [] \<longrightarrow> off mod 4 = 0 \<longrightarrow> r = Inr (map (info1_words s) [off div 4..<off div 4 + n]))"
  using assms
proof (induction n arbitrary: off s r t)
  case (Suc n)
  obtain r1 s1 where r1: "flash_physical_info_read_word off s = (r1, s1)" by fastforce
  obtain r2 s2 where r2: "read_info_words (off + 4) n s1 = (r2, s2)" by fastforce
  note w = read_word [OF r1] and ih = Suc.IH [OF r2]
  have upt: "[off div 4..<off div 4 + Suc n] = off div 4 # [(off + 4) div 4..<(off + 4) div 4 + n]"
  proof -
    have "(off + 4) div 4 = Suc (off div 4)" by simp
    then show ?thesis using upt_conv_Cons [of "off div 4" "off div 4 + Suc n"] by (simp del: upt_Suc)
  qed
  have words: "info1_words s1 = info1_words s" using w(1) by (simp add: same_info_def)
  show ?case
  proof (cases r1)
    case (Inl e)
    then show ?thesis using Suc.prems r1 w by auto
  next
    case (Inr x)
    have x: "x = info1_words s (off div 4)" using w(2) Inr by simp
    have same: "same_info s s2" using w(1) ih same_info_trans by blast
    have rt: "t = s2" "r = (case r2 of Inl e \<Rightarrow> Inl e | Inr ws \<Rightarrow> Inr (x # ws))"
      using Suc.prems r1 r2 Inr by (auto split: sum.splits)
    have ops: "flash_ops s = [] \<Longrightarrow> flash_ops s1 = []" using w(1) by (simp add: same_info_def)
    show ?thesis
    proof (cases r2)
      case (Inl e)
      then show ?thesis using same rt ih ops by auto
    next
      case (Inr ws)
      then show ?thesis using same rt ih x words upt by simp
    qed
  qed
qed simp

lemma program_outside: "i < off \<or> off + length ws \<le> i \<Longrightarrow> program_words k off ws f i = f i"
  by (auto simp: program_words_def)

lemma program_at:
  "i < length ws \<Longrightarrow> program_words k off ws f (off + i) = f (off + i) AND (ws ! i OR (if i < length k then k ! i else 0))"
  by (simp add: program_words_def)

lemma program_clears: "program_words k off ws f i AND f i = program_words k off ws f i"
  by (rule bit_word_eqI) (auto simp: program_words_def bit_simps)

lemma program_nothing: "program_words (replicate (length ws) (- 1)) off ws f = f"
  by (rule ext) (auto simp: program_words_def)

text \<open>Every write of this component fits one row.\<close>

lemma write_info_words:
  assumes "write_info off data s = (rv, t)" and "off mod 4 = 0" and "length data mod 4 = 0" and "data \<noteq> []"
    and "off mod 256 + length data \<le> 256" and "length data \<le> 128" and "off + length data \<le> FLASH_INFO_SIZE"
  shows "\<exists>k. info1_words t = program_words k (off div 4) (data_words data) (info1_words s)"
    and "flash_ops s = [] \<Longrightarrow> rv = EC_SUCCESS \<and> flash_ops t = [] \<and>
      info1_words t = program_words [] (off div 4) (data_words data) (info1_words s)"
proof -
  let ?s = "flash_info_write_enable s"
  have num: "min (min (length data) CONFIG_FLASH_WRITE_IDEAL_SIZE) (CONFIG_FLASH_ROW_SIZE - off mod CONFIG_FLASH_ROW_SIZE) = length data"
    using assms(5,6) by (simp add: info_sizes)
  have al: "(off OR length data) AND (CONFIG_FLASH_WRITE_SIZE - 1) = 0"
  proof -
    have "(off OR length data) mod 2 ^ 2 = (off mod 2 ^ 2) OR (length data mod 2 ^ 2)"
      by (simp only: take_bit_eq_mod [symmetric] take_bit_or)
    then have "take_bit 2 (off OR length data) = 0" using assms(2,3) by (simp add: take_bit_eq_mod)
    then show ?thesis by (simp add: take_bit_eq_mask mask_eq_exp_minus_1 info_sizes)
  qed
  obtain ret u where wb: "write_batch off data ?s = (ret, u)" by fastforce
  have "write_batches off data ?s = (ret, u)"
    using assms(4) wb by (subst write_batches.simps) (auto simp: num Let_def write_batches.simps [of _ "[]"])
  then have t: "rv = ret" "t = flash_info_write_disable u"
    using assms al by (auto simp: write_info_def flash_info_physical_write_def flash_physical_write_internal_def info_sizes)
  obtain r s1 where r: "next_outcome ?s = (r, s1)" by fastforce
  have s1: "info1_words s1 = info1_words s" "info1_wr_en s1" "flash_ops s = [] \<Longrightarrow> r = Flash_done \<and> flash_ops s1 = []"
    using next_outcome_same [OF r] by (auto simp: same_info_def flash_info_write_enable_def)
  show "\<exists>k. info1_words t = program_words k (off div 4) (data_words data) (info1_words s)"
  proof (cases "r = Flash_unavailable")
    case True
    then have "info1_words t = info1_words s" using wb r s1 t by (auto simp: write_batch_def flash_info_write_disable_def)
    then show ?thesis using program_nothing [of "data_words data" "off div 4" "info1_words s", symmetric] by metis
  next
    case False
    then show ?thesis using wb r s1 t by (auto simp: write_batch_def Let_def flash_info_write_disable_def)
  qed
  show "flash_ops s = [] \<Longrightarrow> rv = EC_SUCCESS \<and> flash_ops t = [] \<and>
      info1_words t = program_words [] (off div 4) (data_words data) (info1_words s)"
    using wb r s1 t by (auto simp: write_batch_def Let_def flash_info_write_disable_def)
qed

section \<open>The changes a command may make\<close>

definition stored_bid :: "(nat \<Rightarrow> u32) \<Rightarrow> board_id" where "stored_bid f = board_id_of_words (map f [256, 257, 258])"
definition stored_sn :: "(nat \<Rightarrow> u32) \<Rightarrow> sn_data" where "stored_sn f = sn_of_words (map f [260, 261, 262, 263])"
definition stored_fc :: "(nat \<Rightarrow> u32) \<Rightarrow> u64" where "stored_fc f = NOT (of_le (to_le 4 (f 266) @ to_le 4 (f 267)))"

definition sn_is_blank :: "(nat \<Rightarrow> u32) \<Rightarrow> bool" where
  "sn_is_blank f \<longleftrightarrow> (\<forall>i \<in> {260, 261, 262, 263}. f i = 0xffffffff)"

inductive info_change :: "(nat \<Rightarrow> u32) \<Rightarrow> (nat \<Rightarrow> u32) \<Rightarrow> bool" where
  none: "info_change f f"
| bid: "board_id_type_is_blank (stored_bid f) \<Longrightarrow> (f 258 \<noteq> BLANK_FIELD \<Longrightarrow> fl = f 258) \<Longrightarrow>
    info_change f (program_words k 256 [ty, ti, fl] f)"
| sn: "board_id_type_is_blank (stored_bid f) \<Longrightarrow> sn_is_blank f \<Longrightarrow> info_change f (program_words k 260 [w0, w1, w2, w3] f)"
| rma: "take 3 (to_le 4 w) = take 3 (to_le 4 (f 260)) \<Longrightarrow> info_change f (program_words k 260 [w] f)"
| fc: "board_id_type_is_blank (stored_bid f) \<Longrightarrow> stored_fc f = 0 \<Longrightarrow> info_change f (program_words k 266 [w0, w1] f)"

lemma read_bid:
  assumes "read_board_id s = (r, t)"
  shows "same_info s t" and "r = Inr b \<Longrightarrow> b = stored_bid (info1_words s)"
    and "flash_ops s = [] \<Longrightarrow> r = Inr (stored_bid (info1_words s))"
proof -
  obtain r1 s1 where r1: "read_info_words INFO_BOARD_ID_OFFSET 3 s = (r1, s1)" by fastforce
  have "INFO_BOARD_ID_OFFSET div 4 = 256" "INFO_BOARD_ID_OFFSET mod 4 = 0" by (simp_all add: info_sizes)
  note rw = read_words [OF r1, unfolded this]
  show "same_info s t" using rw assms r1 by (cases r1) (auto simp: read_board_id_def)
  show "r = Inr b \<Longrightarrow> b = stored_bid (info1_words s)" using rw assms r1 by (cases r1) (auto simp: read_board_id_def stored_bid_def)
  show "flash_ops s = [] \<Longrightarrow> r = Inr (stored_bid (info1_words s))"
    using rw assms r1 by (cases r1) (auto simp: read_board_id_def stored_bid_def)
qed

lemma read_sn:
  assumes "read_sn_data s = (r, t)"
  shows "same_info s t" and "r = Inr b \<Longrightarrow> b = stored_sn (info1_words s)"
    and "flash_ops s = [] \<Longrightarrow> r = Inr (stored_sn (info1_words s))"
proof -
  obtain r1 s1 where r1: "read_info_words INFO_SN_DATA_OFFSET 4 s = (r1, s1)" by fastforce
  have "INFO_SN_DATA_OFFSET div 4 = 260" "INFO_SN_DATA_OFFSET mod 4 = 0" by (simp_all add: info_sizes)
  note rw = read_words [OF r1, unfolded this]
  show "same_info s t" using rw assms r1 by (cases r1) (auto simp: read_sn_data_def)
  show "r = Inr b \<Longrightarrow> b = stored_sn (info1_words s)" using rw assms r1 by (cases r1) (auto simp: read_sn_data_def stored_sn_def)
  show "flash_ops s = [] \<Longrightarrow> r = Inr (stored_sn (info1_words s))"
    using rw assms r1 by (cases r1) (auto simp: read_sn_data_def stored_sn_def)
qed

lemma read_fc:
  assumes "read_factory_config s = (r, t)"
  shows "same_info s t" and "r = Inr b \<Longrightarrow> b = stored_fc (info1_words s)"
    and "flash_ops s = [] \<Longrightarrow> r = Inr (stored_fc (info1_words s))"
proof -
  obtain r1 s1 where r1: "read_info_words INFO_FACTORY_CFG_OFFSET 2 s = (r1, s1)" by fastforce
  have "INFO_FACTORY_CFG_OFFSET div 4 = 266" "INFO_FACTORY_CFG_OFFSET mod 4 = 0" by (simp_all add: info_sizes)
  note rw = read_words [OF r1, unfolded this]
  show "same_info s t" using rw assms r1 by (cases r1) (auto simp: read_factory_config_def)
  show "r = Inr b \<Longrightarrow> b = stored_fc (info1_words s)" using rw assms r1 by (cases r1) (auto simp: read_factory_config_def stored_fc_def)
  show "flash_ops s = [] \<Longrightarrow> r = Inr (stored_fc (info1_words s))"
    using rw assms r1 by (cases r1) (auto simp: read_factory_config_def stored_fc_def)
qed

lemma to_le_4: "to_le 4 (w :: u32) = [ucast w, ucast (drop_bit 8 w), ucast (drop_bit 16 w), ucast (drop_bit 24 w)]"
  by (simp add: to_le_def eval_nat_numeral)

lemma of_le_bytes: "of_le [ucast w, ucast (drop_bit 8 w), ucast (drop_bit 16 w), ucast (drop_bit 24 w)] = (w :: u32)"
  using of_le_to_le [of 4 w] by (simp add: to_le_4)

lemma data_words_to_le [simp]: "data_words (to_le 4 w @ bs) = w # data_words bs" "data_words (to_le 4 w) = [w]"
  by (simp_all add: to_le_4 of_le_bytes del: of_le.simps)

lemma board_id_words: "data_words (board_id_bytes b) = [bid_type b, bid_type_inv b, bid_flags b]" "length (board_id_bytes b) = 12"
  "board_id_bytes b \<noteq> []"
  by (simp_all add: board_id_bytes_def) (simp add: to_le_4)

lemma write_board_id_change:
  assumes "write_board_id current b s = (rv, t)"
  shows "info_change (info1_words s) (info1_words t)"
proof -
  obtain r s1 where r: "read_board_id s = (r, s1)" by fastforce
  note rb = read_bid [OF r]
  have w1: "info1_words s1 = info1_words s" using rb(1) by (simp add: same_info_def)
  show ?thesis
  proof (cases r)
    case (Inl e)
    then show ?thesis using assms r w1 info_change.none by (auto simp: write_board_id_def)
  next
    case (Inr x)
    have x: "x = stored_bid (info1_words s)" by (rule rb(2) [OF Inr])
    define b1 where "b1 = (if board_id_is_blank x then b else b\<lparr>bid_flags := bid_flags x\<rparr>)"
    show ?thesis
    proof (cases "board_id_type_is_blank x \<and> check_board_id_vs_header b1 current = 0")
      case True
      then have "write_info INFO_BOARD_ID_OFFSET (board_id_bytes b1) s1 = (rv, t)"
        using assms r Inr by (simp add: write_board_id_def b1_def Let_def)
      then obtain k where k: "info1_words t = program_words k 256 [bid_type b1, bid_type_inv b1, bid_flags b1] (info1_words s)"
        using write_info_words(1) [of INFO_BOARD_ID_OFFSET "board_id_bytes b1" s1 rv t] board_id_words [of b1]
        by (auto simp: info_sizes w1)
      have "info1_words s 258 \<noteq> BLANK_FIELD \<Longrightarrow> bid_flags b1 = info1_words s 258"
        by (simp add: b1_def x board_id_is_blank_def board_id_flags_are_blank_def stored_bid_def board_id_of_words_def)
      then show ?thesis unfolding k using True x by (intro info_change.bid) auto
    next
      case False
      then have "t = s1" using assms r Inr by (auto simp: write_board_id_def b1_def Let_def board_id_is_blank_def split: if_splits)
      then show ?thesis using w1 info_change.none by simp
    qed
  qed
qed

lemma stored_sn_fields:
  "sn_version (stored_sn f) = ucast (f 260)" "sn_reserved (stored_sn f) = [ucast (drop_bit 8 (f 260)), ucast (drop_bit 16 (f 260))]"
  "rma_status (stored_sn f) = ucast (drop_bit 24 (f 260))" "sn_hash (stored_sn f) = [f 261, f 262, f 263]"
  by (simp_all add: stored_sn_def sn_of_words_def to_le_4)

lemma stored_sn_bytes: "sn_bytes (stored_sn f) = to_le 4 (f 260) @ to_le 4 (f 261) @ to_le 4 (f 262) @ to_le 4 (f 263)"
  by (simp add: sn_bytes_def stored_sn_fields to_le_4 [of "f 260"])

lemma sn_blank_words: "list_all (\<lambda>w. w = 0xffffffff) (data_words (sn_bytes (stored_sn f))) \<longleftrightarrow> sn_is_blank f"
  by (simp add: stored_sn_bytes sn_is_blank_def)

lemma write_sn_hash_change:
  assumes "write_sn_hash hash s = (rv, t)" and "length hash = 3" and "board_id_type_is_blank (stored_bid (info1_words s))"
  shows "info_change (info1_words s) (info1_words t)"
proof -
  obtain r s1 where r: "read_sn_data s = (r, s1)" by fastforce
  note rs = read_sn [OF r]
  have w1: "info1_words s1 = info1_words s" using rs(1) by (simp add: same_info_def)
  show ?thesis
  proof (cases r)
    case (Inl e)
    then show ?thesis using assms r w1 info_change.none by (auto simp: write_sn_hash_def)
  next
    case (Inr x)
    have x: "x = stored_sn (info1_words s)" by (rule rs(2) [OF Inr])
    obtain h0 h1 h2 where h: "hash = [h0, h1, h2]" using assms(2) by (auto simp: length_Suc_conv numeral_3_eq_3)
    let ?x = "x\<lparr>sn_version := SN_DATA_VERSION, sn_hash := hash\<rparr>"
    have dw: "sn_bytes ?x = [SN_DATA_VERSION, ucast (drop_bit 8 (info1_words s 260)), ucast (drop_bit 16 (info1_words s 260)),
        ucast (drop_bit 24 (info1_words s 260))] @ to_le 4 h0 @ to_le 4 h1 @ to_le 4 h2"
      by (simp add: sn_bytes_def x stored_sn_fields h)
    show ?thesis
    proof (cases "sn_is_blank (info1_words s)")
      case True
      then have "write_info INFO_SN_DATA_OFFSET (sn_bytes ?x) s1 = (rv, t)"
        using assms(1) r Inr by (simp add: write_sn_hash_def write_sn_data_def x sn_blank_words)
      then obtain k w0 where "info1_words t = program_words k 260 [w0, h0, h1, h2] (info1_words s)"
        using write_info_words(1) [of INFO_SN_DATA_OFFSET "sn_bytes ?x" s1 rv t] unfolding dw
        by (auto simp: info_sizes w1)
      then show ?thesis using True assms(3) info_change.sn by metis
    next
      case False
      then have "t = s1" using assms(1) r Inr by (simp add: write_sn_hash_def x sn_blank_words)
      then show ?thesis using w1 info_change.none by simp
    qed
  qed
qed

lemma write_sn_header:
  assumes "write_info INFO_SN_DATA_OFFSET d s = (rv, t)" and "length d = 4" and "data_words d = [w]"
  shows "\<exists>k. info1_words t = program_words k 260 [w] (info1_words s)"
    and "flash_ops s = [] \<Longrightarrow> rv = EC_SUCCESS \<and> flash_ops t = [] \<and> info1_words t = program_words [] 260 [w] (info1_words s)"
proof -
  have d: "d \<noteq> []" using assms(2) by auto
  have o: "INFO_SN_DATA_OFFSET div 4 = 260" "INFO_SN_DATA_OFFSET mod 4 = 0" "INFO_SN_DATA_OFFSET mod 256 + length d \<le> 256"
    "INFO_SN_DATA_OFFSET + length d \<le> FLASH_INFO_SIZE" "length d mod 4 = 0" "length d \<le> 128"
    by (simp_all add: info_sizes assms(2))
  note w = write_info_words [OF assms(1) o(2,5) d o(3,6,4), unfolded o(1) assms(3)]
  show "\<exists>k. info1_words t = program_words k 260 [w] (info1_words s)" by (rule w(1))
  show "flash_ops s = [] \<Longrightarrow> rv = EC_SUCCESS \<and> flash_ops t = [] \<and> info1_words t = program_words [] 260 [w] (info1_words s)"
    by (rule w(2))
qed

text \<open>Incrementing: the word that is written differs from the old one in the status byte only.\<close>

definition rma_word :: "u8 \<Rightarrow> (nat \<Rightarrow> u32) \<Rightarrow> u32" where
  "rma_word inc f = of_le (take 3 (to_le 4 (f 260)) @ [push_bit (unat inc) (rma_status (stored_sn f)) AND RMA_INDICATOR])"

lemma increment_words:
  assumes "increment_rma_count inc s = (rv, t)"
  shows "info1_words t = info1_words s \<or> (\<exists>k. info1_words t = program_words k 260 [rma_word inc (info1_words s)] (info1_words s))"
    and "flash_ops s = [] \<Longrightarrow> sn_version (stored_sn (info1_words s)) = SN_DATA_VERSION \<Longrightarrow> unat inc \<le> RMA_COUNT_BITS \<Longrightarrow>
      rv = EC_SUCCESS \<and> flash_ops t = [] \<and> info1_words t = program_words [] 260 [rma_word inc (info1_words s)] (info1_words s)"
proof -
  obtain r s1 where r: "read_sn_data s = (r, s1)" by fastforce
  note rs = read_sn [OF r]
  have w1: "info1_words s1 = info1_words s" and o1: "flash_ops s = [] \<Longrightarrow> flash_ops s1 = []"
    using rs(1) by (auto simp: same_info_def)
  let ?sn = "stored_sn (info1_words s)"
  let ?x = "?sn\<lparr>rma_status := push_bit (unat inc) (rma_status ?sn) AND RMA_INDICATOR\<rparr>"
  have dw: "data_words (take SN_HEADER_SIZE (sn_bytes ?x)) = [rma_word inc (info1_words s)]"
    by (simp add: sn_bytes_def stored_sn_fields SN_HEADER_SIZE_def rma_word_def to_le_4 [of "info1_words s 260"] del: of_le.simps)
  have len: "length (take SN_HEADER_SIZE (sn_bytes ?x)) = 4"
    by (simp add: sn_bytes_def stored_sn_fields SN_HEADER_SIZE_def)
  have wr: "(\<exists>k. info1_words t = program_words k 260 [rma_word inc (info1_words s)] (info1_words s)) \<and>
      (flash_ops s = [] \<longrightarrow> rv = EC_SUCCESS \<and> flash_ops t = [] \<and> info1_words t = program_words [] 260 [rma_word inc (info1_words s)] (info1_words s))"
    if "write_info INFO_SN_DATA_OFFSET (take SN_HEADER_SIZE (sn_bytes ?x)) s1 = (rv, t)"
    using write_sn_header [OF that len dw] o1 unfolding w1 by blast
  have step: "if r = Inr ?sn \<and> sn_version ?sn = SN_DATA_VERSION \<and> unat inc \<le> RMA_COUNT_BITS
      then write_info INFO_SN_DATA_OFFSET (take SN_HEADER_SIZE (sn_bytes ?x)) s1 = (rv, t) else t = s1"
  proof (cases r)
    case (Inl e)
    then show ?thesis using assms r by (simp add: increment_rma_count_def)
  next
    case (Inr x)
    then have "x = ?sn" by (rule rs(2))
    then have "(if sn_version ?sn \<noteq> SN_DATA_VERSION then (EC_ERROR_INVALID_CONFIG, s1)
        else if RMA_COUNT_BITS < unat inc then (EC_ERROR_INVAL, s1)
        else write_info INFO_SN_DATA_OFFSET (take SN_HEADER_SIZE (sn_bytes ?x)) s1) = (rv, t)" and "r = Inr ?sn"
      using assms r Inr by (simp_all only: increment_rma_count_def write_sn_data_def prod.case sum.case if_True)
    then show ?thesis by (cases "sn_version ?sn = SN_DATA_VERSION"; cases "RMA_COUNT_BITS < unat inc") simp_all
  qed
  then show "info1_words t = info1_words s \<or> (\<exists>k. info1_words t = program_words k 260 [rma_word inc (info1_words s)] (info1_words s))"
    using wr w1 by (cases "r = Inr ?sn \<and> sn_version ?sn = SN_DATA_VERSION \<and> unat inc \<le> RMA_COUNT_BITS") auto
  show "flash_ops s = [] \<Longrightarrow> sn_version ?sn = SN_DATA_VERSION \<Longrightarrow> unat inc \<le> RMA_COUNT_BITS \<Longrightarrow>
      rv = EC_SUCCESS \<and> flash_ops t = [] \<and> info1_words t = program_words [] 260 [rma_word inc (info1_words s)] (info1_words s)"
    using step wr rs(3) by auto
qed

lemma rma_word_keeps: "take 3 (to_le 4 (rma_word inc f)) = take 3 (to_le 4 (f 260))"
proof -
  have "to_le 4 (rma_word inc f) = take 3 (to_le 4 (f 260)) @ [push_bit (unat inc) (rma_status (stored_sn f)) AND RMA_INDICATOR]"
    unfolding rma_word_def by (rule to_le_of_le) simp_all
  then show ?thesis by simp
qed

lemma rma_change: "info_change f (program_words k 260 [rma_word inc f] f)"
  by (rule info_change.rma) (rule rma_word_keeps)

lemma write_factory_config_change:
  assumes "write_factory_config fc s = (rv, t)"
  shows "info_change (info1_words s) (info1_words t)"
proof -
  obtain r s1 where r: "read_board_id s = (r, s1)" by fastforce
  obtain r2 s2 where r2: "read_factory_config s1 = (r2, s2)" by fastforce
  note rb = read_bid [OF r] and rf = read_fc [OF r2]
  have w: "info1_words s1 = info1_words s" "info1_words s2 = info1_words s" using rb(1) rf(1) by (auto simp: same_info_def)
  have dw: "data_words (to_le 8 (v :: u64)) = [of_le (take 4 (to_le 8 v)), of_le (drop 4 (to_le 8 v))]" for v
    by (simp add: to_le_def eval_nat_numeral)
  have len: "length (to_le 8 v) = 8" "to_le 8 v \<noteq> []" for v :: u64 by (auto simp: to_le_def)
  have wr: "info_change (info1_words s) (info1_words t)"
    if wi: "write_info INFO_FACTORY_CFG_OFFSET (to_le 8 v) s2 = (rv, t)" "board_id_type_is_blank (stored_bid (info1_words s))"
      "stored_fc (info1_words s) = 0" for v :: u64
  proof -
    obtain k where k: "info1_words t = program_words k 266 [of_le (take 4 (to_le 8 v)), of_le (drop 4 (to_le 8 v))] (info1_words s)"
      using write_info_words(1) [OF wi(1)] len [of v] unfolding dw by (auto simp: info_sizes w)
    show ?thesis unfolding k using wi by (intro info_change.fc)
  qed
  show ?thesis
    using assms r r2 rb(2) rf(2) w wr info_change.none [of "info1_words s"]
    by (auto simp: write_factory_config_def factory_config_is_blank_def split: sum.splits if_splits)
qed

section \<open>An identity is final\<close>

definition info_cmds :: "signed_header_bid \<Rightarrow> bool \<Rightarrow> info_handler list" where
  "info_cmds current wp_asserted =
     [vc_set_board_id current, vc_get_board_id, vc_sn_set_hash, vc_sn_inc_rma wp_asserted, vc_set_factory_config, vc_get_factory_config]"

text \<open>Any commands, with the flash controller doing what it likes.\<close>

inductive info_run :: "info1 \<Rightarrow> info1 \<Rightarrow> bool" where
  start: "info_run s s"
| command: "info_run s t \<Longrightarrow> h \<in> set (info_cmds current wp) \<Longrightarrow> n \<le> length buf \<Longrightarrow>
    h buf n room t = (rc, buf', out, u) \<Longrightarrow> info_run s u"
| controller: "info_run s t \<Longrightarrow> info_run s (t\<lparr>flash_ops := ops\<rparr>)"

lemma length_data_words: "length (data_words bs) = length bs div 4"
  by (induction bs rule: data_words.induct) auto

lemma handler_change:
  assumes "h \<in> set (info_cmds current wp)" and "n \<le> length buf" and "h buf n room s = (rc, buf', out, t)"
  shows "info_change (info1_words s) (info1_words t)"
proof -
  have same: "same_info s u \<Longrightarrow> info_change (info1_words s) (info1_words u)" for u
    by (simp add: same_info_def info_change.none)
  consider "h = vc_set_board_id current" | "h = vc_get_board_id" | "h = vc_sn_set_hash" | "h = vc_sn_inc_rma wp"
    | "h = vc_set_factory_config" | "h = vc_get_factory_config"
    using assms(1) by (auto simp: info_cmds_def)
  then show ?thesis
  proof cases
    case 1
    then show ?thesis
      using assms(3) write_board_id_change info_change.none
      by (auto simp: vc_set_board_id_def Let_def split: if_splits prod.splits)
  next
    case 2
    then show ?thesis
      using assms(3) read_bid(1) [of s] same by (auto simp: vc_get_board_id_def split: prod.splits sum.splits)
  next
    case 3
    obtain r s1 where r: "read_board_id s = (r, s1)" by fastforce
    have s1: "info1_words s1 = info1_words s" using read_bid(1) [OF r] by (simp add: same_info_def)
    obtain rv u where u: "write_sn_hash (data_words (take 12 buf)) s1 = (rv, u)" by fastforce
    show ?thesis
    proof (cases "n = 12 \<and> r = Inr (stored_bid (info1_words s)) \<and> board_id_type_is_blank (stored_bid (info1_words s))")
      case True
      then have "t = u" using assms(3) 3 r u by (simp add: vc_sn_set_hash_def Let_def)
      then show ?thesis
        using write_sn_hash_change [OF u] True assms(2) s1 by (simp add: length_data_words)
    next
      case False
      then have "t = s \<or> t = s1"
        using assms(3) 3 r read_bid(2) [OF r] by (cases r; cases "n = 12") (simp_all add: vc_sn_set_hash_def Let_def)
      then show ?thesis using s1 info_change.none by metis
    qed
  next
    case 4
    obtain rv u where u: "increment_rma_count (buf ! 0) s = (rv, u)" by fastforce
    have "t = s \<or> t = u" using assms(3) 4 u by (auto simp: vc_sn_inc_rma_def split: if_splits)
    then show ?thesis
      using increment_words(1) [OF u] info_change.none rma_change by metis
  next
    case 5
    then show ?thesis
      using assms(3) write_factory_config_change info_change.none
      by (auto simp: vc_set_factory_config_def split: if_splits prod.splits)
  next
    case 6
    then show ?thesis
      using assms(3) read_fc(1) [of s] same by (auto simp: vc_get_factory_config_def split: prod.splits sum.splits)
  qed
qed

text \<open>What one change, and hence every run, keeps.\<close>

definition identity_kept :: "(nat \<Rightarrow> u32) \<Rightarrow> (nat \<Rightarrow> u32) \<Rightarrow> bool" where
  "identity_kept f g \<longleftrightarrow>
     (\<forall>i. g i AND f i = g i) \<and>
     (\<not> board_id_type_is_blank (stored_bid f) \<longrightarrow> stored_bid g = stored_bid f) \<and>
     (\<not> board_id_flags_are_blank (stored_bid f) \<longrightarrow> bid_flags (stored_bid g) = bid_flags (stored_bid f)) \<and>
     (\<not> board_id_type_is_blank (stored_bid f) \<or> \<not> sn_is_blank f \<longrightarrow>
        sn_version (stored_sn g) = sn_version (stored_sn f) \<and> sn_hash (stored_sn g) = sn_hash (stored_sn f)) \<and>
     (\<not> board_id_type_is_blank (stored_bid f) \<or> stored_fc f \<noteq> 0 \<longrightarrow> stored_fc g = stored_fc f)"

lemma and_or_same: "a AND (a OR b) = (a :: 'a::len word)"
  by (rule bit_word_eqI) (auto simp: bit_simps)

lemma byte_and_or:
  assumes "(ucast (b :: u32) :: u8) = ucast a"
  shows "(ucast (a AND (b OR c)) :: u8) = ucast a"
proof (rule bit_word_eqI)
  fix n assume "n < LENGTH(8)"
  then have "bit b n \<longleftrightarrow> bit a n" using arg_cong [OF assms, of "\<lambda>w. bit w n"] by (simp add: bit_ucast_iff)
  then show "bit (ucast (a AND (b OR c)) :: u8) n \<longleftrightarrow> bit (ucast a :: u8) n"
    by (auto simp: bit_simps)
qed

lemma change_keeps: "info_change f g \<Longrightarrow> identity_kept f g"
proof (induction rule: info_change.induct)
  case (none f)
  then show ?case by (simp add: identity_kept_def)
next
  case (bid f fl k ty ti)
  have "program_words k 256 [ty, ti, fl] f 258 = f 258" if "f 258 \<noteq> BLANK_FIELD"
    using bid(2) [OF that] program_at [of 2 "[ty, ti, fl]" k 256 f] by (simp add: and_or_same)
  then show ?case
    using bid(1)
    by (simp add: identity_kept_def program_clears stored_sn_fields stored_fc_def program_outside)
       (simp add: stored_bid_def board_id_of_words_def board_id_flags_are_blank_def)
next
  case (sn f k w0 w1 w2 w3)
  then show ?case
    by (simp add: identity_kept_def program_clears stored_fc_def stored_bid_def program_outside)
next
  case (rma w f k)
  have "program_words k 260 [w] f 260 = f 260 AND (w OR (if 0 < length k then k ! 0 else 0))"
    using program_at [of 0 "[w]" k 260 f] by simp
  moreover have "(ucast w :: u8) = ucast (f 260)" using rma by (simp add: to_le_4)
  ultimately have "(ucast (program_words k 260 [w] f 260) :: u8) = ucast (f 260)" by (simp add: byte_and_or)
  then show ?case
    by (simp add: identity_kept_def program_clears stored_sn_fields stored_fc_def stored_bid_def program_outside)
next
  case (fc f k w0 w1)
  then show ?case
    by (simp add: identity_kept_def program_clears stored_sn_fields stored_bid_def program_outside)
qed

lemma kept_trans:
  assumes "identity_kept f g" and "identity_kept g h"
  shows "identity_kept f h"
proof -
  have c: "g i AND f i = g i" "h i AND g i = h i" for i using assms by (simp_all add: identity_kept_def)
  have "h i AND f i = h i" for i using c [of i] by (metis word_bw_assocs(1))
  moreover have "sn_is_blank g \<Longrightarrow> sn_is_blank f"
  proof -
    have ones: "(0xffffffff :: u32) = - 1" by simp
    have "g i = 0xffffffff \<Longrightarrow> f i = 0xffffffff" for i using c(1) [of i] unfolding ones by simp
    then show "sn_is_blank g \<Longrightarrow> sn_is_blank f" by (simp add: sn_is_blank_def)
  qed
  ultimately show ?thesis
    using assms by (auto simp: identity_kept_def board_id_flags_are_blank_def)
qed

lemma run_keeps: "info_run s t \<Longrightarrow> identity_kept (info1_words s) (info1_words t)"
proof (induction rule: info_run.induct)
  case (start s)
  then show ?case by (simp add: identity_kept_def)
next
  case (command s t h current wp n buf room rc buf' out u)
  then show ?case using change_keeps [OF handler_change [OF command.hyps(2-4)]] kept_trans by blast
qed simp

text \<open>(C18) An identity is final: whatever vendor commands follow, and whatever flash operations fail on the way, no bit of the
  information flash is ever set again; once a board type is programmed, the board ID, the version and hash of the serial
  number and the factory configuration keep their values; flags once written, a hash once written and a
  configuration once written are kept also before that.\<close>

theorem identity_is_final:
  assumes "info_run s t" and "f = info1_words s" and "g = info1_words t"
  shows "g i AND f i = g i \<and>
    (\<not> board_id_type_is_blank (stored_bid f) \<longrightarrow> stored_bid g = stored_bid f) \<and>
    (\<not> board_id_flags_are_blank (stored_bid f) \<longrightarrow> bid_flags (stored_bid g) = bid_flags (stored_bid f)) \<and>
    (\<not> board_id_type_is_blank (stored_bid f) \<or> \<not> sn_is_blank f \<longrightarrow>
       sn_version (stored_sn g) = sn_version (stored_sn f) \<and> sn_hash (stored_sn g) = sn_hash (stored_sn f)) \<and>
    (\<not> board_id_type_is_blank (stored_bid f) \<or> stored_fc f \<noteq> 0 \<longrightarrow> stored_fc g = stored_fc f)"
  using run_keeps [OF assms(1)] unfolding assms(2,3) identity_kept_def by blast

definition programmed_board :: info1 where
  "programmed_board = \<lparr>info1_words = (\<lambda>i. if i = 256 then 0x5a5a4352 else if i = 257 then NOT 0x5a5a4352 else if i = 258 then 0x7f
     else if i = 260 then 0xffffff0f else if 261 \<le> i \<and> i \<le> 263 then 0x12345678 else - 1), info1_wr_en = False, flash_ops = []\<rparr>"

theorem identity_is_final_witness:
  "stored_bid (info1_words (snd (snd (snd (vc_set_board_id \<lparr>hdr_board_id_type = 0, hdr_board_id_type_mask = 0, hdr_board_id_flags = 0\<rparr>
     [1, 2, 3, 4, 5, 6, 7, 8] 8 8 programmed_board))))) = \<lparr>bid_type = 0x5a5a4352, bid_type_inv = 0xa5a5bcad, bid_flags = 0x7f\<rparr>"
proof -
  let ?h = "\<lparr>hdr_board_id_type = 0, hdr_board_id_type_mask = 0, hdr_board_id_flags = 0\<rparr>"
  let ?r = "vc_set_board_id ?h [1, 2, 3, 4, 5, 6, 7, 8] 8 8 programmed_board"
  obtain rc b out t where r: "?r = (rc, b, out, t)" by (cases ?r) auto
  have "info_run programmed_board t"
    by (rule info_run.command [where h = "vc_set_board_id ?h" and t = programmed_board and current = ?h, OF info_run.start _ _ r])
       (simp_all add: info_cmds_def)
  from identity_is_final [OF this HOL.refl HOL.refl]
  have "\<not> board_id_type_is_blank (stored_bid (info1_words programmed_board)) \<longrightarrow>
      stored_bid (info1_words t) = stored_bid (info1_words programmed_board)" by blast
  moreover have "stored_bid (info1_words programmed_board) = \<lparr>bid_type = 0x5a5a4352, bid_type_inv = 0xa5a5bcad, bid_flags = 0x7f\<rparr>"
    by (simp add: programmed_board_def stored_bid_def board_id_of_words_def)
  ultimately show ?thesis by (simp add: r board_id_type_is_blank_def BLANK_FIELD_def)
qed

section \<open>Programming a board ID\<close>

lemma blank_type: "board_id_type_is_blank b \<longleftrightarrow> bid_type b = BLANK_FIELD \<and> bid_type_inv b = BLANK_FIELD"
proof -
  have ones: "(BLANK_FIELD :: u32) = - 1" by (simp add: BLANK_FIELD_def)
  have "x AND y = - 1 \<longleftrightarrow> x = - 1 \<and> y = - 1" for x y :: u32
    by (auto simp: bit_eq_iff bit_and_iff)
  then show ?thesis by (simp add: board_id_type_is_blank_def ones)
qed

lemma write_board_id_ok:
  assumes "flash_ops s = []" and "board_id_type_is_blank (stored_bid (info1_words s))"
    and "b1 = (if bid_flags (stored_bid (info1_words s)) = BLANK_FIELD then b else b\<lparr>bid_flags := bid_flags (stored_bid (info1_words s))\<rparr>)"
    and "write_board_id current b s = (rv, t)"
  shows "if check_board_id_vs_header b1 current = 0
     then rv = EC_SUCCESS \<and> flash_ops t = [] \<and> stored_bid (info1_words t) = b1 else rv = EC_ERROR_INVAL \<and> t = s"
proof -
  let ?f = "info1_words s"
  obtain r s1 where r: "read_board_id s = (r, s1)" by fastforce
  have s1: "s1 = s" "r = Inr (stored_bid ?f)"
    using read_bid [OF r] assms(1) by (simp_all add: same_info_def)
  have bl: "board_id_is_blank (stored_bid ?f) \<longleftrightarrow> bid_flags (stored_bid ?f) = BLANK_FIELD"
    using assms(2) by (simp add: board_id_is_blank_def board_id_flags_are_blank_def)
  have wr: "(if check_board_id_vs_header b1 current \<noteq> 0 then (EC_ERROR_INVAL, s)
      else write_info INFO_BOARD_ID_OFFSET (board_id_bytes b1) s) = (rv, t)"
  proof -
    have "(if board_id_is_blank (stored_bid ?f) then b else b\<lparr>bid_flags := bid_flags (stored_bid ?f)\<rparr>) = b1"
      by (simp only: bl assms(3))
    then show ?thesis using assms(2,4) r by (simp only: write_board_id_def s1 prod.case sum.case Let_def) simp
  qed
  show ?thesis
  proof (cases "check_board_id_vs_header b1 current = 0")
    case True
    then have w: "write_info INFO_BOARD_ID_OFFSET (board_id_bytes b1) s = (rv, t)" using wr by simp
    have t: "rv = EC_SUCCESS \<and> flash_ops t = [] \<and> info1_words t = program_words [] 256 [bid_type b1, bid_type_inv b1, bid_flags b1] ?f"
      using write_info_words(2) [OF w] assms(1) board_id_words [of b1] by (simp add: info_sizes)
    have ones: "BLANK_FIELD = (- 1 :: u32)" by (simp add: BLANK_FIELD_def)
    have "?f 256 = - 1" "?f 257 = - 1"
      using assms(2) by (simp_all add: blank_type stored_bid_def board_id_of_words_def ones)
    moreover have "?f 258 AND bid_flags b1 = bid_flags b1"
      by (auto simp: assms(3) stored_bid_def board_id_of_words_def ones)
    ultimately have "stored_bid (info1_words t) = b1"
      using t program_at [of 0 "[bid_type b1, bid_type_inv b1, bid_flags b1]" "[]" 256 ?f]
        program_at [of 1 "[bid_type b1, bid_type_inv b1, bid_flags b1]" "[]" 256 ?f]
        program_at [of 2 "[bid_type b1, bid_type_inv b1, bid_flags b1]" "[]" 256 ?f]
      by (simp add: stored_bid_def board_id_of_words_def)
    then show ?thesis using True t by simp
  next
    case False
    then show ?thesis using wr by simp
  qed
qed

lemma be32_round: "be32toh (htobe32 w) = w" "length (htobe32 w) = 4"
  by (simp_all add: be32toh_def htobe32_def of_le_to_le)

text \<open>(C19) Programming a board ID, on a board whose type is blank and with a flash that works: if the ID to be stored (with the old
  flags where there are any) would not let the running image boot, the command answers 5 and nothing changes; otherwise it
  answers 0, the same ID can be read back, type, inverted type and flags in network order, and the running image matches it.\<close>

theorem board_id_programmed:
  assumes "flash_ops s = []" and "board_id_type_is_blank (stored_bid (info1_words s))"
    and "b = \<lparr>bid_type = ty, bid_type_inv = (if ty = BLANK_FIELD then BLANK_FIELD else NOT ty),
      bid_flags = (if info1_words s 258 = BLANK_FIELD then fl else info1_words s 258)\<rparr>"
    and "vc_set_board_id current (htobe32 ty @ htobe32 fl @ rest) 8 room s = (rc, buf, out, t)"
  shows "if check_board_id_vs_header b current = 0
     then rc = 0 \<and> vc_get_board_id buf2 0 room2 t =
         (0, htobe32 (bid_type b) @ htobe32 (bid_type_inv b) @ htobe32 (bid_flags b) @ drop 12 buf2, 12, t) \<and>
       fst (board_id_mismatch current t) = 0
     else rc = 5 \<and> t = s"
proof -
  let ?b = "\<lparr>bid_type = ty, bid_type_inv = (if ty = BLANK_FIELD then BLANK_FIELD else NOT ty), bid_flags = fl\<rparr>"
  obtain rv u where w: "write_board_id current ?b s = (rv, u)" by fastforce
  have t: "rc = ucast (rc_byte rv)" "t = u"
    using assms(4) w by (simp_all add: vc_set_board_id_def Let_def be32_round)
  have "b = (if bid_flags (stored_bid (info1_words s)) = BLANK_FIELD then ?b
      else ?b\<lparr>bid_flags := bid_flags (stored_bid (info1_words s))\<rparr>)"
    by (simp add: assms(3) stored_bid_def board_id_of_words_def)
  note ok = write_board_id_ok [OF assms(1,2) this w]
  obtain r v where r: "read_board_id u = (r, v)" by fastforce
  show ?thesis
  proof (cases "check_board_id_vs_header b current = 0")
    case True
    then have ok': "rv = EC_SUCCESS" "flash_ops u = []" "stored_bid (info1_words u) = b" using ok by simp_all
    have "v = u" using read_bid(1) [OF r] ok'(2) by (simp add: same_info_def)
    then have rb: "read_board_id t = (Inr b, t)" using r read_bid(3) [OF r ok'(2)] by (simp only: ok'(3) t(2))
    have rc: "rc = 0" by (simp add: t(1) ok'(1) rc_byte_def)
    show ?thesis
      by (simp add: True rc vc_get_board_id_def board_id_mismatch_def rb)
  next
    case False
    then show ?thesis using ok t by (simp add: rc_byte_def)
  qed
qed

definition fresh_board :: info1 where
  "fresh_board = \<lparr>info1_words = (\<lambda>i. - 1), info1_wr_en = False, flash_ops = []\<rparr>"

definition unrestricted :: signed_header_bid where
  "unrestricted = \<lparr>hdr_board_id_type = SIGNED_HEADER_PADDING, hdr_board_id_type_mask = SIGNED_HEADER_PADDING,
     hdr_board_id_flags = SIGNED_HEADER_PADDING\<rparr>"

theorem board_id_programmed_witness:
  "fst (vc_set_board_id unrestricted (htobe32 0x5a5a4352 @ htobe32 0x7f @ []) 8 8 fresh_board) = 0"
proof -
  let ?r = "vc_set_board_id unrestricted (htobe32 0x5a5a4352 @ htobe32 0x7f @ []) 8 8 fresh_board"
  obtain rc buf out t where r: "?r = (rc, buf, out, t)" by (cases ?r) auto
  define b where "b = \<lparr>bid_type = 0x5a5a4352 :: u32, bid_type_inv = (if 0x5a5a4352 = BLANK_FIELD then BLANK_FIELD else NOT 0x5a5a4352),
      bid_flags = (if info1_words fresh_board 258 = BLANK_FIELD then 0x7f else info1_words fresh_board 258)\<rparr>"
  have "check_board_id_vs_header b unrestricted = 0"
    by (simp add: check_board_id_vs_header_def unrestricted_def Let_def)
  moreover have "flash_ops fresh_board = []" "board_id_type_is_blank (stored_bid (info1_words fresh_board))"
    by (simp_all add: fresh_board_def stored_bid_def board_id_of_words_def blank_type BLANK_FIELD_def)
  ultimately have "rc = 0" using board_id_programmed [OF _ _ b_def r] by simp
  then show ?thesis unfolding r by simp
qed

section \<open>The repair counter\<close>

definition rma_after :: "nat \<Rightarrow> u8" where "rma_after n = push_bit n 0xff AND RMA_INDICATOR"

lemma all_ones: "(0xff :: u8) = - 1"
  by simp

lemma bit_indicator: "bit RMA_INDICATOR j \<longleftrightarrow> j < 7"
proof -
  have m: "RMA_INDICATOR = Bit_Operations.mask 7" by (simp add: RMA_INDICATOR_def RMA_COUNT_BITS_def mask_eq_exp_minus_1)
  show ?thesis unfolding m by (auto simp: bit_mask_iff)
qed

lemma bit_rma_after: "bit (rma_after n) j \<longleftrightarrow> n \<le> j \<and> j < 7"
  unfolding rma_after_def all_ones by (auto simp: bit_and_iff bit_push_bit_iff bit_indicator bit_not_iff bit_mask_iff)

lemma rma_step:
  "push_bit m 0xff AND RMA_INDICATOR = rma_after m"
  "push_bit m (rma_after n) AND RMA_INDICATOR = rma_after (n + m)"
  "0xff AND rma_after m = rma_after m"
  "rma_after n AND rma_after (n + m) = rma_after (n + m)"
proof -
  show "push_bit m 0xff AND RMA_INDICATOR = rma_after m" by (simp add: rma_after_def)
  show "0xff AND rma_after m = rma_after m" unfolding all_ones by simp
  show "push_bit m (rma_after n) AND RMA_INDICATOR = rma_after (n + m)" "rma_after n AND rma_after (n + m) = rma_after (n + m)"
    by (rule bit_word_eqI; auto simp: bit_and_iff bit_push_bit_iff bit_rma_after bit_indicator)+
qed

definition inc_rma :: "u8 \<Rightarrow> info1 \<Rightarrow> info1" where
  "inc_rma inc s = snd (snd (snd (vc_sn_inc_rma False [inc] 1 1 s)))"

definition rma_ready :: "info1 \<Rightarrow> u8 \<Rightarrow> bool" where
  "rma_ready s st \<longleftrightarrow> flash_ops s = [] \<and> sn_version (stored_sn (info1_words s)) = SN_DATA_VERSION \<and>
     rma_status (stored_sn (info1_words s)) = st"

lemma ucast_and: "(ucast (a AND b :: u32) :: u8) = ucast a AND ucast b"
  by (rule bit_word_eqI) (auto simp: bit_simps)

lemma inc_rma_ready:
  assumes "rma_ready s st" and "unat inc \<le> 7"
  shows "rma_ready (inc_rma inc s) (st AND (push_bit (unat inc) st AND RMA_INDICATOR))"
proof -
  let ?f = "info1_words s"
  obtain rv t where inc: "increment_rma_count inc s = (rv, t)" by fastforce
  have t: "inc_rma inc s = t" using inc by (simp add: inc_rma_def vc_sn_inc_rma_def)
  have ops: "flash_ops t = []" and "info1_words t = program_words [] 260 [rma_word inc ?f] ?f"
    using increment_words(2) [OF inc] assms by (simp_all add: rma_ready_def RMA_COUNT_BITS_def)
  then have w: "info1_words t 260 = ?f 260 AND rma_word inc ?f"
    using program_at [of 0 "[rma_word inc ?f]" "[]" 260 ?f] by simp
  have b: "to_le 4 (rma_word inc ?f) = take 3 (to_le 4 (?f 260)) @ [push_bit (unat inc) st AND RMA_INDICATOR]"
    using assms(1) unfolding rma_word_def by (subst to_le_of_le) (simp_all add: rma_ready_def)
  then have "(ucast (rma_word inc ?f) :: u8) = ucast (?f 260)"
    "(ucast (drop_bit 24 (rma_word inc ?f)) :: u8) = push_bit (unat inc) st AND RMA_INDICATOR"
    by (simp_all add: to_le_4)
  then show ?thesis
    using assms(1) ops by (simp add: t rma_ready_def stored_sn_fields w ucast_and)
qed

lemma inc_rma_more:
  "rma_ready s (rma_after n) \<Longrightarrow> \<forall>inc \<in> set incs. unat inc \<le> 7 \<Longrightarrow>
   rma_ready (fold inc_rma incs s) (rma_after (n + sum_list (map unat incs)))"
proof (induction incs arbitrary: s n)
  case (Cons inc incs)
  have "rma_ready (inc_rma inc s) (rma_after (n + unat inc))"
    using inc_rma_ready [OF Cons.prems(1), of inc] Cons.prems(2) by (simp add: rma_step)
  then show ?case using Cons.IH [of "inc_rma inc s" "n + unat inc"] Cons.prems(2) by (simp add: add.assoc)
qed simp

text \<open>(C20) The repair counter: starting from the status 255 of a device that was never repaired, after any sequence of increment commands
  (each by at most 7, flash working) bit 7 of the status is clear and the number of zeros among the other
  seven bits is the sum of the increments, or 7 when the sum is larger.\<close>

theorem rma_count_is_sum:
  assumes "rma_ready s 0xff" and "incs \<noteq> []" and "\<forall>inc \<in> set incs. unat inc \<le> 7"
    and "st = rma_status (stored_sn (info1_words (fold inc_rma incs s)))"
  shows "\<not> bit st 7 \<and> card {j. j < 7 \<and> \<not> bit st j} = min 7 (sum_list (map unat incs))"
proof -
  obtain inc rest where incs: "incs = inc # rest" using assms(2) by (cases incs) auto
  have "rma_ready (inc_rma inc s) (rma_after (unat inc))"
    using inc_rma_ready [OF assms(1), of inc] assms(3) by (simp add: incs rma_step)
  then have "st = rma_after (sum_list (map unat incs))"
    using inc_rma_more [of "inc_rma inc s" "unat inc" rest] assms(3,4) by (simp add: incs rma_ready_def)
  moreover have "{j. j < 7 \<and> \<not> (n \<le> j \<and> j < 7)} = {..<min 7 n}" for n :: nat by auto
  ultimately show ?thesis by (simp add: bit_rma_after)
qed

theorem rma_count_is_sum_witness:
  "card {j. j < 7 \<and> \<not> bit (rma_status (stored_sn (info1_words (fold inc_rma [1, 2] programmed_board)))) j} = 3"
proof -
  have "rma_ready programmed_board 0xff"
    by (simp add: rma_ready_def programmed_board_def stored_sn_fields SN_DATA_VERSION_def)
  then show ?thesis using rma_count_is_sum [of programmed_board "[1, 2]", OF _ _ _ HOL.refl] by simp
qed

end
