(* ===== verification/Spec2Isabelle.thy ===== *)
theory Spec2Isabelle
  imports Ring_Queue Nv_Vars Pw_Security C_Memory C_Strings Base32 Montgomery Bn_Div Phys_Presence Ccd_Properties
    Rma_Auth Flash_Log_Events Shm_Safety Ec_Boot Board_Final
begin

text \<open>
  \<^bold>\<open>Verification development of the Cr50 firmware.\<close>

  Cr50 is the firmware of the Google security chip of Chromebooks.  The development models the parts of it that decide
  about secrets and access, and the services those parts rest on, as executable HOL functions, and proves what they
  promise.

  \<^bold>\<open>The program and the theories.\<close>

  \<^item> \<open>Prelude\<close>: machine types of the 32-bit target, error codes of \<open>src/include/common.h\<close>, byte
    blocks and little-endian layout, and the named collections \<open>ec_defs\<close> and \<open>blit_simps\<close>.

  \<^item> \<open>Ring_Queue\<close>: \<open>src/common/queue.c\<close>.  The record of a queue has the free-running 32-bit \<open>head\<close>
    and \<open>tail\<close> of \<open>struct queue_state\<close>; every operation is one definition.  The lemmas show that the queue refines a
    bounded FIFO of units (locale \<open>byte_pipe\<close>, interpreted as \<open>rq\<close>), that the zero-copy chunk
    interface equals the copying one, and what \<open>queue_peek_units\<close> does past the end.

  \<^item> \<open>Nv_Flash\<close> and \<open>Nv_Vars\<close>: \<open>src/common/new_nvmem.c\<close>.  \<open>Nv_Flash\<close> holds the log of containers
    over flash pages: writing with page crossings and write errors (\<open>save_container\<close>, \<open>write_to_flash\<close>), the
    iterator (\<open>get_next_object\<close>), delimiters, page release and \<open>compact_nvmem\<close>.  \<open>Nv_Vars\<close> holds
    \<open>getvar\<close> and \<open>setvar\<close>.  The lemmas show, for a flash without write errors and with
    a spare page, that a value set is the value read and that compaction keeps every variable; the locale \<open>kv_store\<close> is the contract the other
    components use and \<open>nv\<close> its interpretation on these functions.

  \<^item> \<open>Pw_Types\<close>, \<open>Pinweaver\<close>: \<open>src/common/pinweaver_cr50.c\<close> with its packed structures; one definition per
    function, from \<open>compute_hash\<close> to \<open>pw_handle_request\<close>.  \<open>Pw_Merkle\<close> relates the path
    computations to the hash of a whole tree, \<open>Pw_Auth\<close> treats one attempt, \<open>Pw_Log\<close> the log in flash (through
    \<open>nv\<close>), and \<open>Pw_Security\<close> states the guarantees: the secret is released only for the right low entropy
    secret within the delay schedule, every attempt is recorded in the root before the answer leaves the chip, the root in
    flash and the root in RAM agree over every history of requests and restarts in which the flash works and no page is
    missing, and a lost answer can be replayed.

  \<^item> \<open>C_Memory\<close>, \<open>C_Strings\<close>: \<open>src/common/util.c\<close>.  The word-by-word block operations equal
    byte-wise references; \<open>strtoi\<close> reads the numerals that are printed, \<open>uint64divmod\<close> divides.

  \<^item> \<open>Base32\<close>: \<open>src/common/base32.c\<close>.  Decoding undoes encoding bit by bit, and the CRC symbols find every single
    changed character.

  \<^item> \<open>Digits\<close>, \<open>Bignum\<close>, \<open>Montgomery\<close>, \<open>Udiv\<close>, \<open>Bn_Div\<close>: the big number arithmetic of \<open>src/board/cr50/dcrypto/bn.c\<close>.  A
    \<open>struct LITE_BIGNUM\<close> is the list of its 32-bit digits and \<open>num\<close> its value; carries and borrows are the 64-bit
    accumulators of the code.  Addition, subtraction, comparison, shift and product are exact, and modular exponentiation by
    Montgomery multiplication is shown to compute the power.  \<open>Udiv\<close> is the division of 64 by 32 bits that the processor
    lacks, and \<open>Bn_Div\<close> Knuth's long division over it, with the estimate of a digit, its correction, and the addition
    back after an estimate that was one too large.

  \<^item> \<open>P256_Int\<close>: the 256-bit integers of \<open>src/board/cr50/dcrypto/p256.c\<close> and
    \<open>DCRYPTO_p256_key_from_bytes\<close>: blinded comparison equals comparison, and every private key is in range.

  \<^item> \<open>Rma_Auth\<close>: \<open>src/common/rma_auth.c\<close>, the challenge and response that unlock a device for repair.  The
    search for a key may repeat for ever and is a \<open>partial_function\<close>; the lemmas say exactly when it returns.  Over the runs
    \<open>rma_requests\<close> of vendor and console commands, which keep the list of the environments of the challenge requests,
    only the code that the environment of the last of them determines enables factory mode; over
    \<open>rma_trace\<close> the number of guesses is bounded by the clock.

  \<^item> \<open>Crc8\<close>: the checksum of \<open>src/common/crc8.c\<close>, with the lemma that it may be computed piecewise.

  \<^item> \<open>Flash_Log\<close>, \<open>Flash_Log_Events\<close>: the event log of \<open>src/common/flash_log.c\<close> and the vendor commands of
    \<open>src/common/flash_log_vc.c\<close>, over the bytes of its flash page.  The page is related to a list of events
    (\<open>log_holds\<close>): retrieval and the console command walk over that list, adding an event appends to it, compaction keeps
    the end of it, and start-up finds it again.

  \<^item> \<open>Shm_Alloc\<close>, \<open>Shm_Safety\<close>: the allocator of \<open>src/common/shmalloc.c\<close>.  The fields of the headers in
    memory are functions of the address, and \<open>links\<close> relates the doubly linked chains to lists of buffers; the walks
    along them are partial functions.  Over the histories \<open>shm_run\<close> the buffers tile the memory: those in
    use never overlap, every operation returns, and when all are released the memory is one free buffer again.

  \<^item> \<open>Ec_Comm\<close>, \<open>Ec_Boot\<close>: the packets of the embedded controller and its early firmware selection,
    \<open>src/common/ec_comm.c\<close> and \<open>src/common/ec_efs.c\<close>.  The lemmas follow a packet character by character to its
    verdict.  Over the conversations \<open>ec_run\<close> a refused controller stays refused until it is reset (locale
    \<open>efs_invariant\<close>, interpreted as \<open>backed\<close> and \<open>refused\<close>); the last theorem shows how the packet
    buffer is overrun.

  \<^item> \<open>Phys_Presence\<close>: \<open>src/common/physical_presence.c\<close>.  The detector is a transition system over calls,
    button presses and the deferred functions, in which the actions of a call outside its mutex are steps of their own, so that
    calls of several tasks interleave as they may on the chip; the callback runs only after the prescribed presses.

  \<^item> \<open>Board_Id\<close>, \<open>Board_Final\<close>: board ID, serial number and factory configuration in the information flash,
    \<open>src/chip/g/board_id.c\<close>, \<open>src/chip/g/sn_bits.c\<close>, \<open>src/chip/g/factory_config.c\<close>, with the accessors of that flash
    in \<open>src/chip/g/flash.c\<close>.  Over the runs \<open>info_run\<close> of the commands, with a flash controller that may fail at any point, an
    identity once programmed is final; a programmed ID can be read back and the RMA count is the sum of its increments.

  \<^item> \<open>Vendor_Cmd\<close>: \<open>src/common/extension.c\<close>, \<open>src/include/extension.h\<close> and
    \<open>call_extension_command\<close> of \<open>src/common/tpm_registers.c\<close>.  The locale \<open>command_table\<close> lifts a relation that
    every handler of a table keeps to the whole command path.

  \<^item> \<open>Ccd_Types\<close>, \<open>Ccd_Config\<close>: case closed debugging, \<open>src/common/ccd_config.c\<close>, with write
    protect (\<open>src/board/cr50/wp.c\<close>), the firmware management parameters and factory mode
    (\<open>src/common/factory_mode.c\<close>, \<open>src/board/cr50/factory_mode.c\<close>).  \<open>Ccd_Frames\<close> collects what the
    operations leave alone, \<open>Ccd_Security\<close> has the step relation \<open>ccd_step\<close> of all inputs and the invariants by
    rule induction (with \<open>command_table\<close> interpreted as \<open>wp_table\<close> and \<open>disabled_table\<close>), and
    \<open>Ccd_Properties\<close> the properties with a concrete device: who may open the device, what a disabled device may
    do, that write protect follows the management parameters, and what configuration, password and capabilities obey.

  \<^bold>\<open>How the parts interact.\<close>  Vendor commands and console commands reach a component through
  \<open>Vendor_Cmd\<close>.  PinWeaver and case closed debugging keep their persistent state in the flash variables of
  \<open>Nv_Vars\<close>; case closed debugging asks \<open>Phys_Presence\<close> before it opens, and parses its arguments with
  \<open>C_Strings\<close>.  RMA authorization writes its strings with \<open>Base32\<close>, makes its key with \<open>P256_Int\<close>,
  and on success enables factory mode of \<open>Ccd_Config\<close>.

  \<^bold>\<open>State, errors and loops.\<close>  State is a record per component, passed and returned; a function that
  returns an error code returns it beside the state, or as \<open>Inl\<close>.  Integers are words of the width the code
  uses wherever wrap-around can matter, natural numbers for sizes below the page size.  Loops over data are structural
  recursions or recursions with a termination proof.  Compaction is the exception: \<open>compact_loop\<close> has fuel, and
  \<open>compact_nvmem\<close> gives it one more than the number of containers in the log; \<open>compact_loop_ok\<close> shows that
  the loop then always ends by itself, since every iteration consumes a container of the part to be
  compacted.  Flash writes that fail are inputs: the state carries the outcomes of the coming writes.  In
  \<open>Board_Id\<close> a failing write may have programmed any part of its bits; in \<open>Nv_Flash\<close> and \<open>Flash_Log\<close> it
  is simplified to one that leaves the cells as they were, and the event that the driver logs about it is not represented.

  \<^bold>\<open>Parameters.\<close>  SHA-256, HMAC and AES of the crypto engine, the key ladder, the random source, the PCR
  digest, the clock, the TPM's own spaces and its wipe are fields of the environment records \<open>pw_env\<close>,
  \<open>ccd_env\<close>, \<open>p256_env\<close>, \<open>rma_env\<close> and \<open>flog_env\<close>, arguments of the definitions that call them.  Theorems that need something of them say so as a
  hypothesis (a digest has 32 bytes, decryption inverts encryption, two given inputs do not collide) and have a
  witness on concrete functions.

  \<^bold>\<open>Not modelled.\<close>  The chip drivers and the crypto library
  (\<open>src/chip/g\<close>, but for the identity of the board) act on hardware registers; the USB, SPI and I2C stacks and the task scheduler run on
  interrupts.  The TPM 2.0 library is not part of the repository, so its glue in
  \<open>src/board/cr50/tpm2\<close> is left out.  Of \<open>src/common/new_nvmem.c\<close> the container hash, the
  payload cipher, the caches of TPM objects and the recovery at start-up are left out.  Printing is left out
  everywhere.  Code of development builds (\<open>CR50_DEV\<close>) is left out; the models are those of a production build.
\<close>

end
